(* ===== verification/Fishix_Prelude.thy ===== *)
theory Fishix_Prelude
  imports Main "HOL-Library.Word" "HOL-Library.Multiset"
begin

text \<open>
  Shared vocabulary of the development: the fixed-width integer types of
  \<^verbatim>\<open>klib/common.hpp\<close>, the errno values system calls return, bounded array access,
  and the generic facts on lists and words that the component theories use.

  Conventions used everywhere:
  \<^item> \<open>usize\<close>/\<open>uptr\<close>/\<open>u64\<close> are 64-bit words, so \<open>+\<close>, \<open>-\<close> and \<open>*\<close> wrap as in the code;
  \<^item> a system call or handler returns \<open>errno + 'a\<close>: \<open>Inl e\<close> is \<^verbatim>\<open>return -e\<close>;
  \<^item> a failed \<^verbatim>\<open>ASSERT\<close>, a call of \<^verbatim>\<open>panic\<close>, a null or out-of-range access is \<open>None\<close>.
\<close>

unbundle bit_operations_syntax

type_synonym u8 = "8 word"
type_synonym u16 = "16 word"
type_synonym u32 = "32 word"
type_synonym u64 = "64 word"
type_synonym usize = "64 word"
type_synonym uptr = "64 word"

text \<open>The Linux error numbers the modelled code returns.\<close>

datatype errno =
    EPERM | ENOENT | ESRCH | EINTR | EBADF | ECHILD | EAGAIN | EWOULDBLOCK | ENOMEM
  | EACCES | EFAULT | EEXIST | ENODEV | ENOTDIR | EISDIR | EINVAL | ENOTTY | ESPIPE
  | EPIPE | ERANGE | ENXIO | ENOSYS | ELOOP | ETIMEDOUT | ENOTSUP | ENOEXEC | ELIBBAD
  | ENOTCONN | EISCONN | ECONNREFUSED | EADDRINUSE | EDESTADDRREQ | EMSGSIZE | ENOBUFS
  | ENETUNREACH | EHOSTUNREACH | EOPNOTSUPP | EPROTOTYPE | EAFNOSUPPORT | ENOPROTOOPT | ENOTSOCK

type_synonym 'a res = "errno + 'a"

named_theorems fishix_defs \<open>definitional equations of the component under proof\<close>
named_theorems fishix_inv \<open>facts that an operation keeps its component's invariant\<close>

definition PAGE_SIZE :: usize where
  "PAGE_SIZE = 0x1000"

lemma PAGE_SIZE_nz [simp]: "PAGE_SIZE \<noteq> 0"
  by (simp add: PAGE_SIZE_def)

lemma unat_PAGE_SIZE [simp]: "unat PAGE_SIZE = 4096"
  by (simp add: PAGE_SIZE_def)

section \<open>Bounded array access\<close>

definition rd :: "'a list \<Rightarrow> nat \<Rightarrow> 'a option" where
  "rd xs i = (if i < length xs then Some (xs ! i) else None)"

definition wr :: "'a list \<Rightarrow> nat \<Rightarrow> 'a \<Rightarrow> 'a list option" where
  "wr xs i v = (if i < length xs then Some (xs[i := v]) else None)"

lemma rd_in [simp]: "i < length xs \<Longrightarrow> rd xs i = Some (xs ! i)"
  by (simp add: rd_def)

lemma rd_Some_iff: "rd xs i = Some v \<longleftrightarrow> i < length xs \<and> xs ! i = v"
  by (auto simp: rd_def)

lemma wr_in [simp]: "i < length xs \<Longrightarrow> wr xs i v = Some (xs[i := v])"
  by (simp add: wr_def)

lemma wr_Some_iff: "wr xs i v = Some ys \<longleftrightarrow> i < length xs \<and> ys = xs[i := v]"
  by (auto simp: wr_def)

text \<open>\<^verbatim>\<open>memcpy\<close> out of and into an array: \<open>None\<close> when it would leave the array.\<close>

definition mem_read :: "'a list \<Rightarrow> nat \<Rightarrow> nat \<Rightarrow> 'a list option" where
  "mem_read xs off n = (if off + n \<le> length xs then Some (take n (drop off xs)) else None)"

definition mem_write :: "'a list \<Rightarrow> nat \<Rightarrow> 'a list \<Rightarrow> 'a list option" where
  "mem_write xs off ys =
     (if off + length ys \<le> length xs then Some (take off xs @ ys @ drop (off + length ys) xs) else None)"

lemma mem_read_in [simp]: "off + n \<le> length xs \<Longrightarrow> mem_read xs off n = Some (take n (drop off xs))"
  by (simp add: mem_read_def)

lemma mem_write_in [simp]:
  "off + length ys \<le> length xs \<Longrightarrow>
   mem_write xs off ys = Some (take off xs @ ys @ drop (off + length ys) xs)"
  by (simp add: mem_write_def)

lemma nth_mem_write:
  "mem_write xs off ys = Some zs \<Longrightarrow> i < length xs \<Longrightarrow>
   zs ! i = (if off \<le> i \<and> i < off + length ys then ys ! (i - off) else xs ! i)"
  by (auto simp: mem_write_def nth_append split: if_splits)

lemma length_mem_write: "mem_write xs off ys = Some zs \<Longrightarrow> length zs = length xs"
  by (auto simp: mem_write_def split: if_splits)

section \<open>Slices of an array\<close>

definition subarr :: "nat \<Rightarrow> nat \<Rightarrow> 'a list \<Rightarrow> 'a list" where
  "subarr b e xs = take (e - b) (drop b xs)"

lemma length_subarr [simp]: "length (subarr b e xs) = min (e - b) (length xs - b)"
  by (auto simp: subarr_def)

lemma nth_subarr: "i < e - b \<Longrightarrow> b + i < length xs \<Longrightarrow> subarr b e xs ! i = xs ! (b + i)"
  by (simp add: subarr_def)

lemma split_subarr:
  assumes "b \<le> e" "e \<le> length xs"
  shows "xs = take b xs @ subarr b e xs @ drop e xs"
proof -
  have "drop (e - b) (drop b xs) = drop e xs" using assms(1) by simp
  then have "drop b xs = subarr b e xs @ drop e xs"
    unfolding subarr_def by (metis append_take_drop_id)
  then show ?thesis by (metis append_take_drop_id)
qed

text \<open>A permutation that keeps both ends of an array permutes the middle.\<close>

lemma mset_subarr_eq:
  assumes "b \<le> e" "e \<le> length xs" "mset ys = mset xs"
    and "take b ys = take b xs" "drop e ys = drop e xs"
  shows "mset (subarr b e ys) = mset (subarr b e xs)"
proof -
  have len: "length ys = length xs" using assms(3) by (metis size_mset)
  have "mset (take b xs) + mset (subarr b e ys) + mset (drop e xs) = mset ys"
    using split_subarr[of b e ys] assms len by (metis mset_append add.assoc)
  moreover have "mset (take b xs) + mset (subarr b e xs) + mset (drop e xs) = mset xs"
    using split_subarr[of b e xs] assms by (metis mset_append add.assoc)
  ultimately have "mset (take b xs) + mset (subarr b e ys) + mset (drop e xs)
      = mset (take b xs) + mset (subarr b e xs) + mset (drop e xs)" using assms(3) by metis
  then show ?thesis by (metis add_left_cancel add_right_cancel)
qed

lemma set_subarr: "e \<le> length xs \<Longrightarrow> set (subarr b e xs) = (!) xs ` {b..<e}"
proof (intro set_eqI iffI)
  fix x assume le: "e \<le> length xs" and "x \<in> set (subarr b e xs)"
  then obtain i where "i < length (subarr b e xs)" "subarr b e xs ! i = x"
    by (auto simp: in_set_conv_nth)
  then have "b + i < e" "xs ! (b + i) = x" using le by (auto simp: nth_subarr)
  then show "x \<in> (!) xs ` {b..<e}" by force
next
  fix x assume le: "e \<le> length xs" and "x \<in> (!) xs ` {b..<e}"
  then obtain j where "b \<le> j" "j < e" "x = xs ! j" by auto
  then have "subarr b e xs ! (j - b) = x" "j - b < length (subarr b e xs)"
    using le by (auto simp: nth_subarr)
  then show "x \<in> set (subarr b e xs)" by (metis nth_mem)
qed

lemma take_drop_nth_eqI:
  assumes "length ys = length xs"
    and "\<And>i. i < b \<Longrightarrow> ys ! i = xs ! i" and "\<And>i. e \<le> i \<Longrightarrow> i < length xs \<Longrightarrow> ys ! i = xs ! i"
  shows "take b ys = take b xs" "drop e ys = drop e xs"
  using assms by (auto intro!: nth_equalityI)

section \<open>Word arithmetic without wrap-around\<close>

lemma unat_add_no_wrap: "unat a + unat b < 2 ^ 64 \<Longrightarrow> unat (a + b :: u64) = unat a + unat b"
  by (simp add: unat_word_ariths)

lemma unat_mult_no_wrap: "unat a * unat b < 2 ^ 64 \<Longrightarrow> unat (a * b :: u64) = unat a * unat b"
  by (simp add: unat_word_ariths)

lemma unat_sub_le: "(b::u64) \<le> a \<Longrightarrow> unat (a - b) = unat a - unat b"
  by (simp add: unat_sub)

lemma unat_lt_64 [simp]: "unat (x::u64) < 18446744073709551616"
  using unsigned_less[of x] by simp

end
