(* ===== verification/Klib_Algorithm.thy ===== *)
theory Klib_Algorithm
  imports Fishix_Prelude "HOL-Library.Monad_Syntax"
begin

text \<open>
  \<^verbatim>\<open>klib/algorithm.hpp\<close> and the integer helpers of \<^verbatim>\<open>klib/common.hpp\<close>: minimum, maximum,
  alignment, digit counting, byte swapping, hashing and the in-place quicksort. The array that
  \<^verbatim>\<open>qsort\<close> works on is a list, its two pointers are indices, and a read outside the array is
  \<open>None\<close>; the theorems show that the sort of an array never leaves it.
\<close>

section \<open>Minimum, maximum, alignment\<close>

definition kmin :: "usize \<Rightarrow> usize \<Rightarrow> usize" where
  "kmin a b = (if b < a then b else a)"

definition kmax :: "usize \<Rightarrow> usize \<Rightarrow> usize" where
  "kmax a b = (if a < b then b else a)"

definition clamp :: "usize \<Rightarrow> usize \<Rightarrow> usize \<Rightarrow> usize" where
  "clamp v low high = kmin (kmax v low) high"

definition align_up :: "usize \<Rightarrow> usize \<Rightarrow> usize" where
  "align_up i alignment =
     (if i mod alignment \<noteq> 0 then ((i div alignment) + 1) * alignment else i)"

definition align_down :: "usize \<Rightarrow> usize \<Rightarrow> usize" where
  "align_down i alignment =
     (if i mod alignment \<noteq> 0 then (i div alignment) * alignment else i)"

text \<open>The template argument \<^verbatim>\<open>T\<close> of \<^verbatim>\<open>bits_to\<close> enters through \<^verbatim>\<open>sizeof(T)\<close>.\<close>

definition bits_to :: "usize \<Rightarrow> usize \<Rightarrow> usize" where
  "bits_to sizeof_T i = align_up i (sizeof_T * 8) div (sizeof_T * 8)"

text \<open>
  \<^verbatim>\<open>while (x /= base) i++;\<close> does not end when \<^verbatim>\<open>base\<close> is 1 and divides by zero when it is 0:
  both are \<open>None\<close>.
\<close>

partial_function (option) num_digits_loop :: "u64 \<Rightarrow> u64 \<Rightarrow> usize \<Rightarrow> usize option" where
  "num_digits_loop x base i =
     (if base = 0 then None
      else (let x' = x div base in if x' \<noteq> 0 then num_digits_loop x' base (i + 1) else Some i))"

definition num_digits :: "u64 \<Rightarrow> u64 \<Rightarrow> usize option" where
  "num_digits x base = num_digits_loop x base 0"

section \<open>Byte order and hashing\<close>

definition bswap16 :: "u16 \<Rightarrow> u16" where
  "bswap16 x = (drop_bit 8 x) OR (push_bit 8 x)"

definition bswap32 :: "u32 \<Rightarrow> u32" where
  "bswap32 x = (drop_bit 24 x) OR ((push_bit 8 x) AND 0x00FF0000)
     OR ((drop_bit 8 x) AND 0x0000FF00) OR (push_bit 24 x)"

record be16 = be16_data :: u16
record be32 = be32_data :: u32

definition be16_of :: "u16 \<Rightarrow> be16" where
  "be16_of x = \<lparr>be16_data = bswap16 x\<rparr>"

definition be16_value :: "be16 \<Rightarrow> u16" where
  "be16_value b = bswap16 (be16_data b)"

definition be32_of :: "u32 \<Rightarrow> be32" where
  "be32_of x = \<lparr>be32_data = bswap32 x\<rparr>"

definition be32_value :: "be32 \<Rightarrow> u32" where
  "be32_value b = bswap32 (be32_data b)"

text \<open>
  djb2a over the bytes before the terminating NUL; \<^verbatim>\<open>*c\<close> is a signed \<^verbatim>\<open>char\<close>, which the
  exclusive-or sign-extends to 32 bits.
\<close>

fun hash_str_loop :: "u32 \<Rightarrow> u8 list \<Rightarrow> u32" where
  "hash_str_loop h [] = h"
| "hash_str_loop h (c # cs) =
     (if c = 0 then h else hash_str_loop ((push_bit 5 h + h) XOR signed c) cs)"

definition hash_str :: "u8 list \<Rightarrow> u32" where
  "hash_str s = hash_str_loop 5381 s"

definition hash_u64 :: "u64 \<Rightarrow> u64" where
  "hash_u64 h0 =
     (let h1 = h0 XOR drop_bit 33 h0;
          h2 = h1 * 0xff51afd7ed558ccd;
          h3 = h2 XOR drop_bit 33 h2;
          h4 = h3 * 0xc4ceb9fe1a85ec53
      in h4 XOR drop_bit 33 h4)"

definition hash_combine :: "u64 \<Rightarrow> u64 \<Rightarrow> u64" where
  "hash_combine old_hash new_hash =
     old_hash XOR (new_hash + 0x9e3779b97f4a7c15 + push_bit 6 old_hash + drop_bit 2 old_hash)"

section \<open>Quicksort\<close>

text \<open>\<^verbatim>\<open>while (*low < pivot) ++low;\<close>\<close>

function scan_up :: "('a::linorder) list \<Rightarrow> 'a \<Rightarrow> nat \<Rightarrow> nat option" where
  "scan_up xs pivot low =
     (if low < length xs then (if xs ! low < pivot then scan_up xs pivot (Suc low) else Some low)
      else None)"
  by pat_completeness auto
termination
  by (relation "measure (\<lambda>(xs, pivot, low). length xs - low)") auto

text \<open>\<^verbatim>\<open>do { --high; } while (pivot < *high);\<close>\<close>

fun scan_down :: "('a::linorder) list \<Rightarrow> 'a \<Rightarrow> nat \<Rightarrow> nat option" where
  "scan_down xs pivot 0 = None"
| "scan_down xs pivot (Suc h) =
     (if h < length xs then (if pivot < xs ! h then scan_down xs pivot h else Some h) else None)"

declare scan_up.simps [simp del]

definition swap_at :: "'a list \<Rightarrow> nat \<Rightarrow> nat \<Rightarrow> 'a list" where
  "swap_at xs i j = xs[i := xs ! j, j := xs ! i]"

lemma scan_down_less: "scan_down xs pivot h = Some h' \<Longrightarrow> h' < h \<and> h' < length xs"
  by (induction h) (auto split: if_splits)

function partition_loop ::
  "('a::linorder) list \<Rightarrow> 'a \<Rightarrow> nat \<Rightarrow> nat \<Rightarrow> ('a list \<times> nat) option" where
  "partition_loop xs pivot low high =
     (case scan_up xs pivot low of
        None \<Rightarrow> None
      | Some l \<Rightarrow>
          (case scan_down xs pivot high of
             None \<Rightarrow> None
           | Some h \<Rightarrow>
               if l \<ge> h then Some (xs, l)
               else partition_loop (swap_at xs l h) pivot (Suc l) h))"
  by pat_completeness auto
termination
  by (relation "measure (\<lambda>(xs, pivot, low, high). high)") (auto dest: scan_down_less)

declare partition_loop.simps [simp del]

definition qsort_partition :: "('a::linorder) list \<Rightarrow> nat \<Rightarrow> nat \<Rightarrow> ('a list \<times> nat) option" where
  "qsort_partition xs low high =
     (case rd xs (low + (high - low) div 2) of
        None \<Rightarrow> None
      | Some pivot \<Rightarrow> partition_loop xs pivot low high)"

partial_function (option) qsort ::
  "('a::linorder) list \<Rightarrow> nat \<Rightarrow> nat \<Rightarrow> 'a list option" where
  "qsort xs b e =
     (if e < b + 2 then Some xs
      else do {
        (ys, p) \<leftarrow> qsort_partition xs b e;
        zs \<leftarrow> qsort ys b p;
        qsort zs p e
      })"

section \<open>Alignment\<close>

lemma unat_align_down: "a \<noteq> 0 \<Longrightarrow> unat (align_down i a) = unat i div unat a * unat a"
proof -
  assume "a \<noteq> 0"
  have "unat (i div a * a) = unat i div unat a * unat a"
    by (rule trans[OF unat_mult_no_wrap])
       (auto simp: unat_div intro: le_less_trans[OF div_times_less_eq_dividend])
  moreover have "i mod a = 0 \<Longrightarrow> unat i div unat a * unat a = unat i"
    by (metis unat_mod unat_0 mod_0_imp_dvd dvd_div_mult_self)
  ultimately show ?thesis by (auto simp: align_down_def)
qed


lemma unat_align_up:
  assumes "a \<noteq> 0" "unat i + unat a \<le> 2 ^ 64"
  shows "unat (align_up i a) = (unat i + unat a - 1) div unat a * unat a"
proof (cases "i mod a = 0")
  case True
  then have dvd: "unat a dvd unat i" by (metis unat_mod unat_0 mod_0_imp_dvd)
  have a0: "unat a > 0" using assms(1) by (simp add: unat_gt_0)
  obtain k where k: "unat i = unat a * k" using dvd by (rule dvdE)
  have "unat i + unat a - 1 = (unat a - 1) + k * unat a" using k a0 by (simp add: mult.commute)
  then have "(unat i + unat a - 1) div unat a = k + (unat a - 1) div unat a"
    using a0 div_mult_self1[of "unat a" "unat a - 1" k] by simp
  then have "(unat i + unat a - 1) div unat a = k" using a0 by simp
  then show ?thesis using True k by (simp add: align_up_def)
next
  case False
  have a0: "unat a > 0" using assms(1) by (simp add: unat_gt_0)
  have m: "unat i mod unat a \<noteq> 0" using False by (metis unat_mod unat_eq_zero)
  define q where "q = unat i div unat a"
  define r where "r = unat i mod unat a"
  have i: "unat i = q * unat a + r" by (simp add: q_def r_def)
  have r: "0 < r" "r < unat a" using m a0 by (auto simp: r_def)
  have bound: "(q + 1) * unat a < 2 ^ 64 \<or> (q + 1) * unat a = 2 ^ 64 \<and> False"
  proof -
    have "(q + 1) * unat a < unat i + unat a" using i r by simp
    then show ?thesis using assms(2) by linarith
  qed
  have q64: "q + 1 < 2 ^ 64"
    using bound a0 by (metis le_less_trans mult_le_mono2 nat_mult_1_right Suc_leI One_nat_def)
  have "unat (i div a + 1) = q + 1"
    using q64 unat_add_no_wrap[of "i div a" 1] by (simp add: q_def unat_div)
  then have "unat ((i div a + 1) * a) = (q + 1) * unat a"
    using bound unat_mult_no_wrap[of "i div a + 1" a] by simp
  moreover have "(unat i + unat a - 1) div unat a = q + 1"
  proof -
    have "unat i + unat a - 1 = (r - 1) + (q + 1) * unat a" using i r by simp
    then have "(unat i + unat a - 1) div unat a = (q + 1) + (r - 1) div unat a"
      using a0 div_mult_self1[of "unat a" "r - 1" "q + 1"] by simp
    then show ?thesis using r by simp
  qed
  ultimately show ?thesis using False by (simp add: align_up_def)
qed

section \<open>Quicksort sorts in place\<close>

lemma scan_up_spec:
  "low \<le> i \<Longrightarrow> i < length xs \<Longrightarrow> pivot \<le> xs ! i \<Longrightarrow>
   \<exists>l. scan_up xs pivot low = Some l \<and> low \<le> l \<and> l \<le> i \<and> pivot \<le> xs ! l \<and>
       (\<forall>j. low \<le> j \<and> j < l \<longrightarrow> xs ! j < pivot)"
proof (induction xs pivot low rule: scan_up.induct)
  case (1 xs pivot low)
  show ?case
  proof (cases "xs ! low < pivot")
    case True
    then have "low \<noteq> i" using 1(4) by auto
    then obtain l where "scan_up xs pivot (Suc low) = Some l" "Suc low \<le> l" "l \<le> i"
      "pivot \<le> xs ! l" "\<forall>j. Suc low \<le> j \<and> j < l \<longrightarrow> xs ! j < pivot"
      using 1(1)[OF _ True] 1(2-4) by auto
    then show ?thesis
      using True 1(2,3) by (auto simp: scan_up.simps[of xs pivot low] nat_less_le Suc_le_eq)
  next
    case False
    then show ?thesis using 1(2,3) by (auto simp: scan_up.simps[of xs pivot low])
  qed
qed

lemma scan_down_spec:
  "i < high \<Longrightarrow> high \<le> length xs \<Longrightarrow> xs ! i \<le> pivot \<Longrightarrow>
   \<exists>h. scan_down xs pivot high = Some h \<and> i \<le> h \<and> h < high \<and> xs ! h \<le> pivot \<and>
       (\<forall>j. h < j \<and> j < high \<longrightarrow> pivot < xs ! j)"
proof (induction high)
  case 0
  then show ?case by simp
next
  case (Suc high)
  show ?case
  proof (cases "pivot < xs ! high")
    case True
    then have "i < high" using Suc.prems by (metis less_SucE not_less)
    then obtain h where "scan_down xs pivot high = Some h" "i \<le> h" "h < high" "xs ! h \<le> pivot"
      "\<forall>j. h < j \<and> j < high \<longrightarrow> pivot < xs ! j" using Suc by auto
    then show ?thesis using True Suc.prems by (auto simp: less_Suc_eq)
  next
    case False
    then show ?thesis using Suc.prems by auto
  qed
qed

lemma mset_swap_at: "i < length xs \<Longrightarrow> j < length xs \<Longrightarrow> mset (swap_at xs i j) = mset xs"
  unfolding swap_at_def by (rule mset_swap)

lemma length_swap_at [simp]: "length (swap_at xs i j) = length xs"
  by (simp add: swap_at_def)

lemma nth_swap_at:
  "i < length xs \<Longrightarrow> j < length xs \<Longrightarrow>
   swap_at xs i j ! k = (if k = j then xs ! i else if k = i then xs ! j else xs ! k)"
  by (simp add: swap_at_def nth_list_update)

text \<open>What one call of \<^verbatim>\<open>qsort_partition\<close> on \<open>[b, e)\<close> promises, stated for the loop.\<close>

definition partitioned ::
  "('a::linorder) list \<Rightarrow> 'a \<Rightarrow> nat \<Rightarrow> nat \<Rightarrow> 'a list \<Rightarrow> nat \<Rightarrow> bool" where
  "partitioned xs pivot b e ys p \<longleftrightarrow>
     mset ys = mset xs \<and> b < p \<and> p < e \<and>
     (\<forall>i. b \<le> i \<and> i < p \<longrightarrow> ys ! i \<le> pivot) \<and> (\<forall>i. p \<le> i \<and> i < e \<longrightarrow> pivot \<le> ys ! i) \<and>
     (\<forall>i. i < b \<or> e \<le> i \<longrightarrow> i < length xs \<longrightarrow> ys ! i = xs ! i)"

lemma partition_loop_spec:
  assumes "b \<le> low" "high \<le> e" "e \<le> length xs"
    and "\<forall>i. b \<le> i \<and> i < low \<longrightarrow> xs ! i \<le> pivot" "\<forall>i. high \<le> i \<and> i < e \<longrightarrow> pivot \<le> xs ! i"
    and "low \<le> up" "up < e" "pivot \<le> xs ! up"
    and "b \<le> dn" "dn < high" "xs ! dn \<le> pivot" "b < low \<or> b < dn"
  shows "\<exists>ys p. partition_loop xs pivot low high = Some (ys, p) \<and> partitioned xs pivot b e ys p"
  using assms
proof (induction xs pivot low high arbitrary: up dn rule: partition_loop.induct)
  case (1 xs pivot low high)
  obtain l where l: "scan_up xs pivot low = Some l" "low \<le> l" "l \<le> up" "pivot \<le> xs ! l"
    "\<forall>j. low \<le> j \<and> j < l \<longrightarrow> xs ! j < pivot"
    using scan_up_spec[of low up xs pivot] 1(2-) by auto
  obtain h where h: "scan_down xs pivot high = Some h" "dn \<le> h" "h < high" "xs ! h \<le> pivot"
    "\<forall>j. h < j \<and> j < high \<longrightarrow> pivot < xs ! j"
    using scan_down_spec[of dn high xs pivot] 1(2-) by auto
  have left: "\<forall>i. b \<le> i \<and> i < l \<longrightarrow> xs ! i \<le> pivot"
    using 1(5) l(5) by (metis not_less less_imp_le)
  have right: "\<forall>i. h < i \<and> i < e \<longrightarrow> pivot \<le> xs ! i"
    using 1(6) h(5) by (metis not_less less_imp_le)
  show ?case
  proof (cases "l \<ge> h")
    case True
    have "partition_loop xs pivot low high = Some (xs, l)"
      using l h True by (simp add: partition_loop.simps[of xs pivot low high])
    moreover have "pivot \<le> xs ! i" if "l \<le> i" "i < e" for i
    proof (cases "i = l")
      case False
      then have "h < i" using that True by linarith
      then show ?thesis using right that by blast
    qed (use l(4) in simp)
    moreover have "b < l" using l(2) h(2) True 1(13) by linarith
    ultimately show ?thesis
      using left l(1-3) h(1-3) True 1(2-4,7,8,10-) unfolding partitioned_def by simp
  next
    case False
    have len: "l < length xs" "h < length xs" using l h 1(2-) by auto
    let ?ys = "swap_at xs l h"
    have nth: "?ys ! k = (if k = h then xs ! l else if k = l then xs ! h else xs ! k)" for k
      using nth_swap_at[OF len] .
    have "\<exists>ys p. partition_loop ?ys pivot (Suc l) h = Some (ys, p) \<and> partitioned ?ys pivot b e ys p"
    proof (rule 1(1)[OF l(1) h(1) False, of h l])
      show "\<forall>i. b \<le> i \<and> i < Suc l \<longrightarrow> ?ys ! i \<le> pivot"
        using left h(4) False by (auto simp: nth less_Suc_eq)
      show "\<forall>i. h \<le> i \<and> i < e \<longrightarrow> pivot \<le> ?ys ! i"
        using right l(4) False by (auto simp: nth)
    qed (use 1(2-) l h False in \<open>auto simp: nth\<close>)
    moreover have "partition_loop xs pivot low high = partition_loop ?ys pivot (Suc l) h"
      using l h False by (simp add: partition_loop.simps[of xs pivot low high])
    moreover have "partitioned xs pivot b e ys p" if "partitioned ?ys pivot b e ys p" for ys p
      using that l h 1(2-) False unfolding partitioned_def
      by (auto simp: mset_swap_at[OF len] nth)
    ultimately show ?thesis by auto
  qed
qed

lemma qsort_partition_spec:
  assumes "b + 2 \<le> e" "e \<le> length xs"
  shows "\<exists>pivot ys p. qsort_partition xs b e = Some (ys, p) \<and> partitioned xs pivot b e ys p"
proof -
  let ?m = "b + (e - b) div 2"
  have m: "b < ?m" "?m < e" using assms(1) by auto
  have "\<exists>ys p. partition_loop xs (xs ! ?m) b e = Some (ys, p) \<and> partitioned xs (xs ! ?m) b e ys p"
    by (rule partition_loop_spec[where up = ?m and dn = ?m]) (use m assms in auto)
  then show ?thesis using m assms by (auto simp: qsort_partition_def)
qed

text \<open>What \<^verbatim>\<open>qsort\<close> promises: a permutation that sorts \<open>[b, e)\<close> and keeps the rest.\<close>

definition sorted_slice :: "nat \<Rightarrow> nat \<Rightarrow> ('a::linorder) list \<Rightarrow> bool" where
  "sorted_slice b e ys \<longleftrightarrow> (\<forall>i j. b \<le> i \<and> i < j \<and> j < e \<longrightarrow> ys ! i \<le> ys ! j)"

definition same_outside :: "nat \<Rightarrow> nat \<Rightarrow> 'a list \<Rightarrow> 'a list \<Rightarrow> bool" where
  "same_outside b e xs ys \<longleftrightarrow>
     mset ys = mset xs \<and> (\<forall>i. i < b \<or> e \<le> i \<longrightarrow> i < length xs \<longrightarrow> ys ! i = xs ! i)"

lemma same_outside_values:
  assumes "same_outside b e xs ys" "b \<le> e" "e \<le> length xs"
  shows "(!) ys ` {b..<e} = (!) xs ` {b..<e}"
proof -
  have m: "mset ys = mset xs" using assms(1) by (simp add: same_outside_def)
  then have len: "length ys = length xs" by (metis size_mset)
  have td: "take b ys = take b xs" "drop e ys = drop e xs"
    by (rule take_drop_nth_eqI[OF len], use assms in \<open>auto simp: same_outside_def\<close>)+
  have "mset (subarr b e ys) = mset (subarr b e xs)"
    using mset_subarr_eq assms m td by blast
  then have "set (subarr b e ys) = set (subarr b e xs)" by (metis set_mset_mset)
  then show ?thesis using set_subarr assms len by metis
qed

lemma same_outside_bound:
  assumes "same_outside b e xs ys" "b \<le> e" "e \<le> length xs" "\<forall>i. b \<le> i \<and> i < e \<longrightarrow> P (xs ! i)"
  shows "\<forall>i. b \<le> i \<and> i < e \<longrightarrow> P (ys ! i)"
proof (intro allI impI)
  fix i assume "b \<le> i \<and> i < e"
  then have "ys ! i \<in> (!) xs ` {b..<e}"
    using same_outside_values[OF assms(1-3)] by (metis atLeastLessThan_iff imageI)
  then show "P (ys ! i)" using assms(4) by auto
qed

lemma qsort_spec:
  "b \<le> e \<Longrightarrow> e \<le> length xs \<Longrightarrow>
   \<exists>ys. qsort xs b e = Some ys \<and> same_outside b e xs ys \<and> sorted_slice b e ys"
proof (induction "e - b" arbitrary: xs b e rule: less_induct)
  case less
  show ?case
  proof (cases "e < b + 2")
    case True
    then show ?thesis by (auto simp: qsort.simps[of xs b e] same_outside_def sorted_slice_def)
  next
    case False
    then obtain pv ys p where part: "qsort_partition xs b e = Some (ys, p)"
      "partitioned xs pv b e ys p" using qsort_partition_spec[of b e xs] less by auto
    then have p: "b < p" "p < e" "mset ys = mset xs" "\<forall>i. b \<le> i \<and> i < p \<longrightarrow> ys ! i \<le> pv"
      "\<forall>i. p \<le> i \<and> i < e \<longrightarrow> pv \<le> ys ! i"
      "\<forall>i. i < b \<or> e \<le> i \<longrightarrow> i < length xs \<longrightarrow> ys ! i = xs ! i"
      by (auto simp: partitioned_def)
    have len: "length ys = length xs" using p(3) by (metis size_mset)
    obtain zs where zs: "qsort ys b p = Some zs" "same_outside b p ys zs" "sorted_slice b p zs"
      using less.hyps[of p b ys] p(1,2) less.prems len by fastforce
    have lenz: "length zs = length xs" using zs(2) len by (metis same_outside_def size_mset)
    obtain ws where ws: "qsort zs p e = Some ws" "same_outside p e zs ws" "sorted_slice p e ws"
      using less.hyps[of e p zs] p(1,2) less.prems lenz by fastforce
    have q: "qsort xs b e = Some ws" using False part zs ws by (simp add: qsort.simps[of xs b e])
    have zl: "\<forall>i. b \<le> i \<and> i < p \<longrightarrow> zs ! i \<le> pv"
      by (rule same_outside_bound[OF zs(2), of "\<lambda>x. x \<le> pv"]) (use p less.prems len in auto)
    have zr: "\<forall>i. p \<le> i \<and> i < e \<longrightarrow> pv \<le> zs ! i"
      using zs(2) p(5) less.prems len by (auto simp: same_outside_def)
    have wr: "\<forall>i. p \<le> i \<and> i < e \<longrightarrow> pv \<le> ws ! i"
      by (rule same_outside_bound[OF ws(2), of "\<lambda>x. pv \<le> x"]) (use zr p less.prems lenz in auto)
    have wl: "\<forall>i. i < p \<longrightarrow> ws ! i = zs ! i"
      using ws(2) p less.prems lenz by (auto simp: same_outside_def)
    have "sorted_slice b e ws"
      unfolding sorted_slice_def
    proof (intro allI impI)
      fix i j assume ij: "b \<le> i \<and> i < j \<and> j < e"
      consider "j < p" | "i < p" "p \<le> j" | "p \<le> i" by linarith
      then show "ws ! i \<le> ws ! j"
      proof cases
        case 1
        then show ?thesis using ij wl zs(3) by (auto simp: sorted_slice_def)
      next
        case 2
        then show ?thesis using ij wl zl wr by (metis order_trans)
      next
        case 3
        then show ?thesis using ij ws(3) by (auto simp: sorted_slice_def)
      qed
    qed
    moreover have "same_outside b e xs ws"
      using p zs(2) ws(2) len lenz by (auto simp: same_outside_def)
    ultimately show ?thesis using q by blast
  qed
qed


section \<open>Counting digits\<close>

lemma num_digits_loop_spec:
  assumes "2 \<le> unat base"
  shows "\<exists>d. num_digits_loop x base i = Some (i + of_nat d) \<and>
    unat x div unat base ^ d < unat base \<and> (d = 0 \<or> unat base ^ d \<le> unat x) \<and> d < 64"
proof (induction "unat x" arbitrary: x i rule: less_induct)
  case less
  have b0: "base \<noteq> 0" using assms by auto
  show ?case
  proof (cases "x div base = 0")
    case True
    then have "unat x div unat base = 0" by (metis unat_div unat_0)
    then have "unat x < unat base" using assms by (simp add: div_eq_0_iff)
    then show ?thesis using True b0
      by (intro exI[of _ 0]) (simp add: num_digits_loop.simps[of x base i])
  next
    case False
    then have u: "unat (x div base) = unat x div unat base" "unat x div unat base \<noteq> 0"
      by (simp_all add: unat_div flip: unat_eq_zero)
    have "unat x div unat base < unat x" using assms u(2) by (intro div_less_dividend) (auto intro: gr0I)
    with u(1) less[of "x div base" "i + 1"] obtain d where d:
      "num_digits_loop (x div base) base (i + 1) = Some (i + 1 + of_nat d)"
      "unat x div unat base div unat base ^ d < unat base"
      "d = 0 \<or> unat base ^ d \<le> unat x div unat base" "d < 64" by auto
    have eq: "num_digits_loop x base i = Some (i + of_nat (Suc d))"
      using False b0 d(1) by (simp add: num_digits_loop.simps[of x base i] ac_simps)
    have pow: "unat base ^ Suc d \<le> unat x"
    proof -
      have "unat base ^ d \<le> unat x div unat base" using d(3) u(2) by (auto simp: Suc_le_eq)
      then have "unat base ^ d * unat base \<le> unat x div unat base * unat base" by (rule mult_le_mono1)
      also have "\<dots> \<le> unat x" by (rule div_times_less_eq_dividend)
      finally show ?thesis by (simp add: mult.commute)
    qed
    have "2 ^ Suc d \<le> unat base ^ Suc d" using assms by (intro power_mono) auto
    also have "\<dots> < 2 ^ 64" by (rule le_less_trans[OF pow]) simp
    finally have "(2::nat) ^ Suc d < 2 ^ 64" .
    then have "Suc d < 64" by (metis power_less_imp_less_exp one_less_numeral_iff semiring_norm(76))
    then show ?thesis using eq pow d(2) by (intro exI[of _ "Suc d"]) (simp add: div_mult2_eq)
  qed
qed

section \<open>Byte order\<close>


lemma bit_bswap16: "bit (bswap16 x) n \<longleftrightarrow> n < 16 \<and> bit x ((n + 8) mod 16)"
proof (cases "n < 8")
  case True
  then show ?thesis by (simp add: bswap16_def bit_simps add.commute)
next
  case False
  have "n < 16 \<Longrightarrow> (n + 8) mod 16 = n - 8" using False by (simp add: mod_if)
  then show ?thesis using False by (auto simp: bswap16_def bit_simps dest: bit_imp_le_length)
qed

lemma bswap16_involutive [simp]: "bswap16 (bswap16 x) = x"
proof (rule bit_word_eqI)
  fix n assume "n < LENGTH(16)"
  then have "((n + 8) mod 16 + 8) mod 16 = n" by (simp add: mod_simps)
  then show "bit (bswap16 (bswap16 x)) n = bit x n"
    using \<open>n < LENGTH(16)\<close> by (simp add: bit_bswap16)
qed


lemma bswap32_masks:
  "(0x00FF0000 :: u32) = push_bit 16 (mask 8)" "(0x0000FF00 :: u32) = push_bit 8 (mask 8)"
  by (simp_all add: mask_eq_exp_minus_1 push_bit_eq_mult)

lemma bit_bswap32:
  "bit (bswap32 x) n \<longleftrightarrow>
     (if n < 8 then bit x (n + 24) else if n < 16 then bit x (n + 8)
      else if n < 24 then bit x (n - 8) else n < 32 \<and> bit x (n - 24))"
  unfolding bswap32_def bswap32_masks
  by (auto simp: bit_simps add.commute dest: bit_imp_le_length)

lemma bswap32_involutive [simp]: "bswap32 (bswap32 x) = x"
  by (rule bit_word_eqI) (auto simp: bit_bswap32)


section \<open>Properties\<close>

text \<open>
  C39: \<^verbatim>\<open>klib::qsort\<close> on any sub-range \<open>[b, e)\<close> of an array returns (it neither loops nor reads
  outside the array), the result is a permutation of the array, the range is sorted, and every
  element outside the range is where it was.
\<close>

theorem qsort_sorts_in_place:
  assumes "b \<le> e" "e \<le> length xs"
  shows "\<exists>ys. qsort xs b e = Some ys \<and> mset ys = mset xs \<and> sorted_slice b e ys \<and>
           (\<forall>i < length xs. i < b \<or> e \<le> i \<longrightarrow> ys ! i = xs ! i)"
  using qsort_spec[OF assms] by (auto simp: same_outside_def)

theorem qsort_sorts_in_place_witness:
  "\<exists>ys. qsort [3, 1, 2, 1, 0 :: nat] 1 4 = Some ys \<and> mset ys = mset [3, 1, 2, 1, 0] \<and>
     sorted_slice 1 4 ys \<and> (\<forall>i < length [3, 1, 2, 1, 0 :: nat]. i < 1 \<or> 4 \<le> i \<longrightarrow> ys ! i = [3, 1, 2, 1, 0] ! i)"
  by (rule qsort_sorts_in_place) simp_all

text \<open>
  \<^verbatim>\<open>align_up\<close> returns the least multiple of a nonzero alignment that is not below its argument,
  and \<^verbatim>\<open>align_down\<close> the greatest one that is not above it, as long as rounding up does not pass the
  end of the address space (where the code wraps to a smaller value).
\<close>

theorem align_least_greatest:
  assumes "a \<noteq> 0" "unat i + unat a \<le> 2 ^ 64"
  shows "unat a dvd unat (align_up i a) \<and> i \<le> align_up i a \<and>
         (\<forall>m. unat a dvd m \<and> unat i \<le> m \<longrightarrow> unat (align_up i a) \<le> m) \<and>
         unat a dvd unat (align_down i a) \<and> align_down i a \<le> i \<and>
         (\<forall>m. unat a dvd m \<and> m \<le> unat i \<longrightarrow> m \<le> unat (align_down i a))"
proof -
  let ?a = "unat a" and ?i = "unat i"
  have a0: "0 < ?a" using assms(1) by (simp add: unat_gt_0)
  have up: "unat (align_up i a) = (?i + ?a - 1) div ?a * ?a" using unat_align_up[OF assms] .
  have dn: "unat (align_down i a) = ?i div ?a * ?a" using unat_align_down[OF assms(1)] .
  have "?i \<le> (?i + ?a - 1) div ?a * ?a"
    using a0 div_mod_decomp[of "?i + ?a - 1" ?a] mod_less_divisor[of ?a "?i + ?a - 1"] by linarith
  moreover have "(?i + ?a - 1) div ?a * ?a \<le> m" if "?a dvd m" "?i \<le> m" for m
  proof -
    obtain k where k: "m = ?a * k" using \<open>?a dvd m\<close> by (rule dvdE)
    have "?i + ?a - 1 < (k + 1) * ?a" using k that(2) a0 by (simp add: mult.commute)
    then have "(?i + ?a - 1) div ?a < k + 1" by (simp add: less_mult_imp_div_less)
    then have "(?i + ?a - 1) div ?a * ?a \<le> k * ?a" by (intro mult_le_mono1) simp
    then show ?thesis using k by (simp add: mult.commute)
  qed
  moreover have "m \<le> ?i div ?a * ?a" if "?a dvd m" "m \<le> ?i" for m
  proof -
    obtain k where k: "m = ?a * k" using \<open>?a dvd m\<close> by (rule dvdE)
    then have "k \<le> ?i div ?a" using that(2) a0 by (simp add: less_eq_div_iff_mult_less_eq mult.commute)
    then show ?thesis using k by (simp add: mult.commute)
  qed
  ultimately show ?thesis by (simp add: up dn word_le_nat_alt)
qed

theorem align_least_greatest_witness:
  "(0x1000 :: usize) \<noteq> 0 \<and> unat (0x1234 :: usize) + unat (0x1000 :: usize) \<le> 2 ^ 64 \<and>
   (0x1234 :: usize) \<le> align_up 0x1234 0x1000 \<and> align_down 0x1234 0x1000 \<le> (0x1234 :: usize)"
proof -
  have h: "(0x1000 :: usize) \<noteq> 0" "unat (0x1234 :: usize) + unat (0x1000 :: usize) \<le> 2 ^ 64" by simp_all
  show ?thesis using h align_least_greatest[OF h] by blast
qed

text \<open>
  \<^verbatim>\<open>num_digits\<close> returns for every base of at least 2, and its result is the position of the
  most significant digit (one less than the number of digits): dividing by the base that often
  leaves a single nonzero digit.
\<close>

theorem num_digits_position:
  assumes "2 \<le> unat base"
  shows "\<exists>d < 64. num_digits x base = Some (of_nat d) \<and> unat x div unat base ^ d < unat base \<and>
           (d = 0 \<or> unat base ^ d \<le> unat x)"
  using num_digits_loop_spec[OF assms, of x 0] by (auto simp: num_digits_def)

theorem num_digits_position_witness:
  "2 \<le> unat (10 :: u64) \<and> (\<exists>d < 64. num_digits 4096 10 = Some (of_nat d) \<and>
     unat (4096 :: u64) div unat (10 :: u64) ^ d < unat (10 :: u64) \<and>
     (d = 0 \<or> unat (10 :: u64) ^ d \<le> unat (4096 :: u64)))"
proof -
  have h: "2 \<le> unat (10 :: u64)" by simp
  show ?thesis using h num_digits_position[OF h, of 4096] by blast
qed

end
