(* ===== verification/Klib_List.thy ===== *)
theory Klib_List
  imports Fishix_Prelude "HOL-Library.Monad_Syntax"
begin

text \<open>
  \<^verbatim>\<open>klib/list.hpp\<close>: the intrusive, circular, doubly linked \<^verbatim>\<open>ListHead\<close> and the hash-list
  \<^verbatim>\<open>HListNode\<close>/\<^verbatim>\<open>HListHead\<close>. A heap of list nodes is a record of two pointer maps; a null
  pointer is \<open>None\<close>, and following one makes the operation \<open>None\<close>. The operations are the
  statements of the code in their order, so aliasing is visible; \<open>is_list\<close> relates a heap and a
  head node to the sequence of entries, and every operation is shown to be its list counterpart.
  The interface the clients use is the locale \<open>intrusive_list\<close>.
\<close>

section \<open>The heap of list nodes\<close>

record 'n links =
  nextp :: "'n \<Rightarrow> 'n option"
  prevp :: "'n \<Rightarrow> 'n option"

definition set_next :: "'n \<Rightarrow> 'n option \<Rightarrow> 'n links \<Rightarrow> 'n links" where
  "set_next n v h = h\<lparr>nextp := (nextp h)(n := v)\<rparr>"

definition set_prev :: "'n \<Rightarrow> 'n option \<Rightarrow> 'n links \<Rightarrow> 'n links" where
  "set_prev n v h = h\<lparr>prevp := (prevp h)(n := v)\<rparr>"

lemma links_simps [simp]:
  "nextp (set_next n v h) = (nextp h)(n := v)" "prevp (set_next n v h) = prevp h"
  "prevp (set_prev n v h) = (prevp h)(n := v)" "nextp (set_prev n v h) = nextp h"
  by (simp_all add: set_next_def set_prev_def)

section \<open>ListHead\<close>

definition list_init :: "'n \<Rightarrow> 'n links \<Rightarrow> 'n links" where
  "list_init this h = set_prev this (Some this) (set_next this (Some this) h)"

definition list_add :: "'n \<Rightarrow> 'n \<Rightarrow> 'n links \<Rightarrow> 'n links option" where
  "list_add this entry h = do {
     n \<leftarrow> nextp h this;
     let h1 = set_prev n (Some entry) h;
     let h2 = set_next entry (nextp h1 this) h1;
     let h3 = set_prev entry (Some this) h2;
     Some (set_next this (Some entry) h3)
   }"

definition list_add_before :: "'n \<Rightarrow> 'n \<Rightarrow> 'n links \<Rightarrow> 'n links option" where
  "list_add_before this entry h = do {
     p \<leftarrow> prevp h this;
     let h1 = set_next p (Some entry) h;
     let h2 = set_prev entry (prevp h1 this) h1;
     let h3 = set_next entry (Some this) h2;
     Some (set_prev this (Some entry) h3)
   }"

definition list_remove :: "'n \<Rightarrow> 'n links \<Rightarrow> 'n links option" where
  "list_remove this h = do {
     n \<leftarrow> nextp h this;
     let h1 = set_prev n (prevp h this) h;
     p \<leftarrow> prevp h1 this;
     let h2 = set_next p (nextp h1 this) h1;
     let h3 = set_next this None h2;
     Some (set_prev this None h3)
   }"

definition list_is_empty :: "'n \<Rightarrow> 'n links \<Rightarrow> bool" where
  "list_is_empty this h \<longleftrightarrow> nextp h this = Some this"

definition list_is_invalid :: "'n \<Rightarrow> 'n links \<Rightarrow> bool" where
  "list_is_invalid this h \<longleftrightarrow> nextp h this = None \<or> prevp h this = None"

text \<open>
  \<^verbatim>\<open>LIST_FOR_EACH\<close>: the entries in the order the loop visits them. A chain that never comes back
  to the head makes the loop run for ever (\<open>None\<close>), as does a null link (it crashes).
\<close>

partial_function (option) list_for_each :: "'n links \<Rightarrow> 'n \<Rightarrow> 'n \<Rightarrow> 'n list option" where
  "list_for_each h head pos =
     (if pos = head then Some []
      else do {
        n \<leftarrow> nextp h pos;
        rest \<leftarrow> list_for_each h head n;
        Some (pos # rest)
      })"

definition list_entries :: "'n links \<Rightarrow> 'n \<Rightarrow> 'n list option" where
  "list_entries h head = do { n \<leftarrow> nextp h head; list_for_each h head n }"

section \<open>The sequence a heap represents\<close>

fun linked :: "'n links \<Rightarrow> 'n \<Rightarrow> 'n list \<Rightarrow> 'n \<Rightarrow> bool" where
  "linked h a [] b \<longleftrightarrow> nextp h a = Some b \<and> prevp h b = Some a"
| "linked h a (x # xs) b \<longleftrightarrow> nextp h a = Some x \<and> prevp h x = Some a \<and> linked h x xs b"

definition is_list :: "'n links \<Rightarrow> 'n \<Rightarrow> 'n list \<Rightarrow> bool" where
  "is_list h head xs \<longleftrightarrow> linked h head xs head \<and> distinct (head # xs)"

lemma linked_append [simp]:
  "linked h a (xs @ x # ys) b \<longleftrightarrow> linked h a xs x \<and> linked h x ys b"
  by (induction xs arbitrary: a) auto

lemma linked_frame:
  "linked h a xs b \<Longrightarrow> (\<forall>n \<in> set (a # xs). nextp h' n = nextp h n) \<Longrightarrow>
   (\<forall>n \<in> set (b # xs). prevp h' n = prevp h n) \<Longrightarrow> linked h' a xs b"
  by (induction xs arbitrary: a) auto

text \<open>What an update leaves alone: the links of every node outside a set.\<close>

definition same_links_outside :: "'n set \<Rightarrow> 'n links \<Rightarrow> 'n links \<Rightarrow> bool" where
  "same_links_outside S h h' \<longleftrightarrow> (\<forall>n. n \<notin> S \<longrightarrow> nextp h' n = nextp h n \<and> prevp h' n = prevp h n)"

lemma is_list_frame:
  assumes "is_list h head xs" "same_links_outside S h h'" "set (head # xs) \<inter> S = {}"
  shows "is_list h' head xs"
  using assms linked_frame[of h head xs head h']
  by (auto simp: is_list_def same_links_outside_def)

lemma same_links_outside_mono:
  "same_links_outside S h h' \<Longrightarrow> S \<subseteq> T \<Longrightarrow> same_links_outside T h h'"
  by (auto simp: same_links_outside_def)

lemma linked_ends:
  "linked h a xs b \<Longrightarrow>
   nextp h a = Some (hd (xs @ [b])) \<and> prevp h b = Some (last (a # xs))"
  by (induction xs arbitrary: a) auto


section \<open>The operations as list operations\<close>

lemma is_list_rotate: "is_list h a (as @ b # bs) \<longleftrightarrow> is_list h b (bs @ a # as)"
  by (auto simp: is_list_def)

lemma list_init_spec: "is_list (list_init this h) this []"
  by (simp add: list_init_def is_list_def)

lemma list_init_outside: "same_links_outside {this} h (list_init this h)"
  by (simp add: list_init_def same_links_outside_def)

lemma list_is_empty_spec: "is_list h head xs \<Longrightarrow> list_is_empty head h \<longleftrightarrow> xs = []"
  by (cases xs) (auto simp: is_list_def list_is_empty_def)

lemma list_first: "is_list h head (x # xs) \<Longrightarrow> nextp h head = Some x"
  by (simp add: is_list_def)

lemma list_add_spec:
  assumes "is_list h head xs" "e \<notin> set (head # xs)"
  shows "\<exists>h'. list_add head e h = Some h' \<and> is_list h' head (e # xs) \<and>
           same_links_outside (insert e (set (head # xs))) h h'"
proof (cases xs)
  case Nil
  then show ?thesis using assms
    by (auto simp: is_list_def list_add_def same_links_outside_def)
next
  case (Cons x rest)
  let ?h = "set_next head (Some e) (set_prev e (Some head) (set_next e (Some x) (set_prev x (Some e) h)))"
  have l: "nextp h head = Some x" "linked h x rest head" "distinct (head # e # x # rest)"
    using assms Cons by (auto simp: is_list_def)
  have "linked ?h x rest head" by (rule linked_frame[OF l(2)]) (use l(3) in auto)
  then show ?thesis using l Cons
    by (auto simp: is_list_def list_add_def same_links_outside_def)
qed

lemma list_add_before_spec:
  assumes "is_list h head xs" "e \<notin> set (head # xs)"
  shows "\<exists>h'. list_add_before head e h = Some h' \<and> is_list h' head (xs @ [e]) \<and>
           same_links_outside (insert e (set (head # xs))) h h'"
proof (cases xs rule: rev_cases)
  case Nil
  then show ?thesis using assms
    by (auto simp: is_list_def list_add_before_def same_links_outside_def)
next
  case (snoc rest x)
  let ?h = "set_prev head (Some e) (set_next e (Some head) (set_prev e (Some x) (set_next x (Some e) h)))"
  have l: "prevp h head = Some x" "linked h head rest x" "distinct (head # e # x # rest)"
    using assms snoc by (auto simp: is_list_def)
  have "linked ?h head rest x" by (rule linked_frame[OF l(2)]) (use l(3) in auto)
  then show ?thesis using l snoc
    by (auto simp: is_list_def list_add_before_def same_links_outside_def)
qed

lemma list_remove_ring:
  assumes "is_list h x (y # ys)"
  shows "\<exists>h'. list_remove x h = Some h' \<and> is_list h' y ys \<and> list_is_invalid x h' \<and>
           same_links_outside (set (x # y # ys)) h h'"
proof (cases ys rule: rev_cases)
  case Nil
  then show ?thesis using assms
    by (auto simp: is_list_def list_remove_def list_is_invalid_def same_links_outside_def)
next
  case (snoc zs z)
  let ?h = "set_prev x None (set_next x None (set_next z (Some y) (set_prev y (Some z) h)))"
  have l: "nextp h x = Some y" "prevp h x = Some z" "linked h y zs z" "distinct (x # y # z # zs)"
    using assms snoc by (auto simp: is_list_def)
  have "linked ?h y zs z" by (rule linked_frame[OF l(3)]) (use l(4) in auto)
  then show ?thesis using l snoc
    by (auto simp: is_list_def list_remove_def list_is_invalid_def same_links_outside_def)
qed

lemma list_remove_spec:
  assumes "is_list h head (as @ x # bs)"
  shows "\<exists>h'. list_remove x h = Some h' \<and> is_list h' head (as @ bs) \<and> list_is_invalid x h' \<and>
           same_links_outside (set (head # as @ x # bs)) h h'"
proof -
  have ring: "is_list h x (bs @ head # as)" using assms by (simp add: is_list_rotate)
  show ?thesis
  proof (cases bs)
    case Nil
    then show ?thesis using list_remove_ring[of h x head as] ring by (auto simp: insert_commute)
  next
    case (Cons b bs')
    then obtain h' where h': "list_remove x h = Some h'" "is_list h' b (bs' @ head # as)"
      "list_is_invalid x h'" "same_links_outside (set (x # b # bs' @ head # as)) h h'"
      using list_remove_ring[of h x b "bs' @ head # as"] ring by auto
    have "set (x # b # bs' @ head # as) = set (head # as @ x # b # bs')" by auto
    then show ?thesis using h' Cons by (metis is_list_rotate)
  qed
qed

text \<open>Insertion next to an entry rather than at the head, by turning the ring.\<close>

lemma list_add_after_entry:
  assumes "is_list h head (as @ x # bs)" "e \<notin> set (head # as @ x # bs)"
  shows "\<exists>h'. list_add x e h = Some h' \<and> is_list h' head (as @ x # e # bs)"
proof -
  have "is_list h x (bs @ head # as)" using assms(1) by (simp add: is_list_rotate)
  then obtain h' where "list_add x e h = Some h'" "is_list h' x ((e # bs) @ head # as)"
    using list_add_spec[of h x "bs @ head # as" e] assms(2) by auto
  then show ?thesis by (metis is_list_rotate append_Cons)
qed

lemma list_add_before_entry:
  assumes "is_list h head (as @ x # bs)" "e \<notin> set (head # as @ x # bs)"
  shows "\<exists>h'. list_add_before x e h = Some h' \<and> is_list h' head (as @ e # x # bs)"
proof -
  have "is_list h x (bs @ head # as)" using assms(1) by (simp add: is_list_rotate)
  then obtain h' where h': "list_add_before x e h = Some h'" "is_list h' x ((bs @ head # as) @ [e])"
    using list_add_before_spec[of h x "bs @ head # as" e] assms(2) by auto
  have "is_list h' head ((as @ [e]) @ x # bs)" using h'(2) by (simp add: is_list_rotate)
  then show ?thesis using h'(1) by auto
qed

lemma list_for_each_linked:
  "linked h a xs head \<Longrightarrow> head \<notin> set xs \<Longrightarrow> nextp h a = Some n \<Longrightarrow> list_for_each h head n = Some xs"
proof (induction xs arbitrary: a n)
  case Nil
  then show ?case by (auto simp: list_for_each.simps[of h head head])
next
  case (Cons x xs)
  then obtain m where m: "nextp h x = Some m" using linked_ends by fastforce
  have "list_for_each h head m = Some xs" by (rule Cons.IH[of x]) (use Cons m in auto)
  then show ?case using Cons.prems m by (auto simp: list_for_each.simps[of h head x])
qed

lemma list_entries_spec: "is_list h head xs \<Longrightarrow> list_entries h head = Some xs"
  using list_for_each_linked[of h head xs head] linked_ends[of h head xs head]
  by (auto simp: is_list_def list_entries_def)

section \<open>The interface of an intrusive list\<close>

text \<open>
  What clients (the page allocator, the hash table) rely on. \<open>rep h head xs\<close> says that the list at
  \<open>head\<close> holds the entries \<open>xs\<close>; \<open>outside S\<close> says that only nodes of \<open>S\<close> were written.
\<close>

locale intrusive_list =
  fixes rep :: "'h \<Rightarrow> 'n \<Rightarrow> 'n list \<Rightarrow> bool"
    and outside :: "'n set \<Rightarrow> 'h \<Rightarrow> 'h \<Rightarrow> bool"
    and add :: "'n \<Rightarrow> 'n \<Rightarrow> 'h \<Rightarrow> 'h option"
    and add_before :: "'n \<Rightarrow> 'n \<Rightarrow> 'h \<Rightarrow> 'h option"
    and remove :: "'n \<Rightarrow> 'h \<Rightarrow> 'h option"
  assumes rep_distinct: "rep h head xs \<Longrightarrow> distinct (head # xs)"
    and rep_frame: "rep h head xs \<Longrightarrow> outside S h h' \<Longrightarrow> set (head # xs) \<inter> S = {} \<Longrightarrow> rep h' head xs"
    and add_rep: "rep h head xs \<Longrightarrow> e \<notin> set (head # xs) \<Longrightarrow>
      \<exists>h'. add head e h = Some h' \<and> rep h' head (e # xs) \<and> outside (insert e (set (head # xs))) h h'"
    and add_before_rep: "rep h head xs \<Longrightarrow> e \<notin> set (head # xs) \<Longrightarrow>
      \<exists>h'. add_before head e h = Some h' \<and> rep h' head (xs @ [e]) \<and>
           outside (insert e (set (head # xs))) h h'"
    and remove_rep: "rep h head (as @ x # bs) \<Longrightarrow>
      \<exists>h'. remove x h = Some h' \<and> rep h' head (as @ bs) \<and> outside (set (head # as @ x # bs)) h h'"
begin

text \<open>Taking the first entry.\<close>

lemma pop_front:
  "rep h head (x # xs) \<Longrightarrow>
   \<exists>h'. remove x h = Some h' \<and> rep h' head xs \<and> outside (set (head # x # xs)) h h'"
  using remove_rep[of h head "[]" x xs] by simp

text \<open>Moving an entry from one list to the end of another one that shares no node with it.\<close>

lemma move_to_back:
  assumes "rep h a (as @ x # bs)" "rep h b ys" "set (a # as @ x # bs) \<inter> set (b # ys) = {}"
  shows "\<exists>h1 h2. remove x h = Some h1 \<and> add_before b x h1 = Some h2 \<and>
           rep h2 a (as @ bs) \<and> rep h2 b (ys @ [x])"
proof -
  obtain h1 where h1: "remove x h = Some h1" "rep h1 a (as @ bs)" "outside (set (a # as @ x # bs)) h h1"
    using remove_rep[OF assms(1)] by blast
  have b1: "rep h1 b ys" using rep_frame[OF assms(2) h1(3)] assms(3) by blast
  have "x \<notin> set (b # ys)" using assms(3) by auto
  then obtain h2 where h2: "add_before b x h1 = Some h2" "rep h2 b (ys @ [x])"
    "outside (insert x (set (b # ys))) h1 h2" using add_before_rep[OF b1] by blast
  have "distinct (a # as @ x # bs)" using rep_distinct[OF assms(1)] .
  then have "set (a # as @ bs) \<inter> insert x (set (b # ys)) = {}" using assms(3) by auto
  then have "rep h2 a (as @ bs)" using rep_frame[OF h1(2) h2(3)] by blast
  then show ?thesis using h1 h2 by blast
qed

end

interpretation klist: intrusive_list is_list same_links_outside list_add list_add_before list_remove
proof
  show "is_list h head xs \<Longrightarrow> distinct (head # xs)" for h :: "'a links" and head xs
    by (simp add: is_list_def)
  show "is_list h head xs \<Longrightarrow> same_links_outside S h h' \<Longrightarrow> set (head # xs) \<inter> S = {} \<Longrightarrow> is_list h' head xs"
    for h h' :: "'a links" and head xs S by (rule is_list_frame)
  show "is_list h head xs \<Longrightarrow> e \<notin> set (head # xs) \<Longrightarrow>
      \<exists>h'. list_add head e h = Some h' \<and> is_list h' head (e # xs) \<and>
           same_links_outside (insert e (set (head # xs))) h h'" for h :: "'a links" and head xs e
    by (rule list_add_spec)
  show "is_list h head xs \<Longrightarrow> e \<notin> set (head # xs) \<Longrightarrow>
      \<exists>h'. list_add_before head e h = Some h' \<and> is_list h' head (xs @ [e]) \<and>
           same_links_outside (insert e (set (head # xs))) h h'" for h :: "'a links" and head xs e
    by (rule list_add_before_spec)
  show "is_list h head (as @ x # bs) \<Longrightarrow>
      \<exists>h'. list_remove x h = Some h' \<and> is_list h' head (as @ bs) \<and>
           same_links_outside (set (head # as @ x # bs)) h h'" for h :: "'a links" and head as x bs
    by (drule list_remove_spec) blast
qed


section \<open>Properties of ListHead\<close>


definition example_links :: "nat links" where
  "example_links = \<lparr>nextp = [0 \<mapsto> 1, 1 \<mapsto> 2, 2 \<mapsto> 0], prevp = [0 \<mapsto> 2, 1 \<mapsto> 0, 2 \<mapsto> 1]\<rparr>"


section \<open>HListNode and HListHead\<close>

text \<open>
  A hash list is singly linked; \<^verbatim>\<open>pprev\<close> points at the pointer that points to the node: the
  \<^verbatim>\<open>first\<close> field of a head or the \<^verbatim>\<open>next\<close> field of another node.
\<close>

datatype ('b, 'n) cell = First 'b | Next 'n

record ('b, 'n) hlinks =
  hcell :: "('b, 'n) cell \<Rightarrow> 'n option"
  pprev :: "'n \<Rightarrow> ('b, 'n) cell option"

definition set_cell :: "('b, 'n) cell \<Rightarrow> 'n option \<Rightarrow> ('b, 'n) hlinks \<Rightarrow> ('b, 'n) hlinks" where
  "set_cell c v h = h\<lparr>hcell := (hcell h)(c := v)\<rparr>"

definition set_pprev :: "'n \<Rightarrow> ('b, 'n) cell option \<Rightarrow> ('b, 'n) hlinks \<Rightarrow> ('b, 'n) hlinks" where
  "set_pprev n v h = h\<lparr>pprev := (pprev h)(n := v)\<rparr>"

lemma hlinks_simps [simp]:
  "hcell (set_cell c v h) = (hcell h)(c := v)" "pprev (set_cell c v h) = pprev h"
  "pprev (set_pprev n w h) = (pprev h)(n := w)" "hcell (set_pprev n w h) = hcell h"
  by (simp_all add: set_cell_def set_pprev_def)

definition hnode_add :: "'n \<Rightarrow> 'n \<Rightarrow> ('b, 'n) hlinks \<Rightarrow> ('b, 'n) hlinks" where
  "hnode_add this entry h =
     (let h1 = set_cell (Next entry) (hcell h (Next this)) h;
          h2 = set_cell (Next this) (Some entry) h1;
          h3 = set_pprev entry (Some (Next this)) h2
      in case hcell h3 (Next entry) of
           None \<Rightarrow> h3
         | Some n \<Rightarrow> set_pprev n (Some (Next entry)) h3)"

definition hnode_add_before :: "'n \<Rightarrow> 'n \<Rightarrow> ('b, 'n) hlinks \<Rightarrow> ('b, 'n) hlinks option" where
  "hnode_add_before this entry h = do {
     n \<leftarrow> hcell h (Next this);
     let h1 = set_pprev entry (pprev h n) h;
     let h2 = set_cell (Next entry) (Some this) h1;
     let h3 = set_pprev this (Some (Next entry)) h2;
     c \<leftarrow> pprev h3 entry;
     Some (set_cell c (Some entry) h3)
   }"

definition hnode_remove :: "'n \<Rightarrow> ('b, 'n) hlinks \<Rightarrow> ('b, 'n) hlinks option" where
  "hnode_remove this h = do {
     c \<leftarrow> pprev h this;
     let h1 = set_cell c (hcell h (Next this)) h;
     let h2 = (case hcell h1 (Next this) of
                 None \<Rightarrow> h1
               | Some n \<Rightarrow> set_pprev n (pprev h1 this) h1);
     let h3 = set_cell (Next this) None h2;
     Some (set_pprev this None h3)
   }"

definition hhead_add :: "'b \<Rightarrow> 'n \<Rightarrow> ('b, 'n) hlinks \<Rightarrow> ('b, 'n) hlinks" where
  "hhead_add this entry h =
     (let h1 = set_cell (Next entry) (hcell h (First this)) h;
          h2 = (case hcell h1 (First this) of
                  None \<Rightarrow> h1
                | Some f \<Rightarrow> set_pprev f (Some (Next entry)) h1);
          h3 = set_cell (First this) (Some entry) h2
      in set_pprev entry (Some (First this)) h3)"

fun hlinked :: "('b, 'n) hlinks \<Rightarrow> ('b, 'n) cell \<Rightarrow> 'n list \<Rightarrow> bool" where
  "hlinked h c [] \<longleftrightarrow> hcell h c = None"
| "hlinked h c (x # xs) \<longleftrightarrow> hcell h c = Some x \<and> pprev h x = Some c \<and> hlinked h (Next x) xs"

definition is_hlist :: "('b, 'n) hlinks \<Rightarrow> 'b \<Rightarrow> 'n list \<Rightarrow> bool" where
  "is_hlist h b xs \<longleftrightarrow> hlinked h (First b) xs \<and> distinct xs"

lemma hlinked_frame:
  "hlinked h c xs \<Longrightarrow> hcell h' c = hcell h c \<Longrightarrow>
   (\<forall>n \<in> set xs. hcell h' (Next n) = hcell h (Next n) \<and> pprev h' n = pprev h n) \<Longrightarrow> hlinked h' c xs"
  by (induction xs arbitrary: c) auto

lemma hhead_add_spec:
  assumes "is_hlist h b xs" "e \<notin> set xs"
  shows "is_hlist (hhead_add b e h) b (e # xs)"
proof (cases xs)
  case Nil
  then show ?thesis using assms by (auto simp: is_hlist_def hhead_add_def Let_def)
next
  case (Cons x rest)
  then have l: "hcell h (First b) = Some x" "hlinked h (Next x) rest" "distinct (e # x # rest)"
    using assms by (auto simp: is_hlist_def)
  have "hlinked (hhead_add b e h) (Next x) rest"
    by (rule hlinked_frame[OF l(2)]) (use l in \<open>auto simp: hhead_add_def Let_def\<close>)
  then show ?thesis using l Cons by (auto simp: is_hlist_def hhead_add_def Let_def)
qed

text \<open>
  \<^verbatim>\<open>HListNode::add_before\<close> reads \<^verbatim>\<open>next->pprev\<close> where it needs its own \<^verbatim>\<open>pprev\<close>: inserting
  \<open>3\<close> before the first node of the two-element list \<open>[1, 2]\<close> leaves the head pointing at node 1 and
  makes the nodes 1 and 3 point at each other, so the list never ends.
\<close>

theorem hnode_add_before_corrupts:
  "\<exists>h h' :: (nat, nat) hlinks. is_hlist h 0 [1, 2] \<and> hnode_add_before 1 3 h = Some h' \<and>
     hcell h' (First 0) = Some 1 \<and> hcell h' (Next 1) = Some 3 \<and> hcell h' (Next 3) = Some 1"
proof -
  define h :: "(nat, nat) hlinks" where
    "h = \<lparr>hcell = [First 0 \<mapsto> 1, Next 1 \<mapsto> 2], pprev = [1 \<mapsto> First 0, 2 \<mapsto> Next 1]\<rparr>"
  have "is_hlist h 0 [1, 2]" by (simp add: is_hlist_def h_def)
  moreover have "hnode_add_before 1 3 h = Some (set_cell (Next 1) (Some 3) (set_pprev 1 (Some (Next 3))
      (set_cell (Next 3) (Some 1) (set_pprev 3 (Some (Next 1)) h))))"
    by (simp add: hnode_add_before_def h_def)
  ultimately show ?thesis by (force simp: h_def)
qed

end
