(* ===== verification/Klib_Ring_Buffer.thy ===== *)
theory Klib_Ring_Buffer
  imports Klib_Algorithm
begin

text \<open>
  \<^verbatim>\<open>klib/ring_buffer.hpp\<close>. The two indices are free-running 64-bit counters, so they wrap at
  \<open>2 ^ 64\<close>; the slot of an index is the index modulo the size. The buffer is a FIFO queue for ever
  when the size divides \<open>2 ^ 64\<close>, which is part of the invariant \<open>rb_ok\<close>; the buffers of local stream
  sockets (208 KiB) are the one instance whose size does not, and for them the weaker \<open>rb_lin\<close> holds
  until \<open>2 ^ 64\<close> bytes have been written. \<open>rb_items\<close> is the queue a state stands for, and the locale
  \<open>bounded_queue\<close> is the contract the pipes, terminals and sockets rely on.
\<close>

record 'a ring_buffer =
  rb_size :: usize
  read_index :: usize
  write_index :: usize
  data :: "'a list"

definition data_count :: "'a ring_buffer \<Rightarrow> usize" where
  "data_count rb = write_index rb - read_index rb"

definition free_count :: "'a ring_buffer \<Rightarrow> usize" where
  "free_count rb = rb_size rb - data_count rb"

definition rb_is_empty :: "'a ring_buffer \<Rightarrow> bool" where
  "rb_is_empty rb \<longleftrightarrow> data_count rb = 0"

definition rb_is_full :: "'a ring_buffer \<Rightarrow> bool" where
  "rb_is_full rb \<longleftrightarrow> data_count rb = rb_size rb"

text \<open>\<^verbatim>\<open>read\<close> returns the count and the elements it copied to the caller's buffer.\<close>

definition rb_read :: "'a ring_buffer \<Rightarrow> usize \<Rightarrow> (usize \<times> 'a list \<times> 'a ring_buffer) option" where
  "rb_read rb count0 =
     (let count = kmin count0 (data_count rb) in
      if count = 0 then Some (0, [], rb)
      else let first_pass_offset = read_index rb mod rb_size rb;
               first_pass_remaining = rb_size rb - first_pass_offset;
               first_pass_count = kmin count first_pass_remaining
      in do {
        a \<leftarrow> mem_read (data rb) (unat first_pass_offset) (unat first_pass_count);
        b \<leftarrow> (if first_pass_count < count
              then mem_read (data rb) 0 (unat (count - first_pass_count)) else Some []);
        Some (count, a @ b, rb\<lparr>read_index := read_index rb + count\<rparr>)
      })"

definition rb_write :: "'a ring_buffer \<Rightarrow> 'a list \<Rightarrow> usize \<Rightarrow> (usize \<times> 'a ring_buffer) option" where
  "rb_write rb buffer count0 =
     (let count = kmin count0 (free_count rb);
          first_pass_offset = write_index rb mod rb_size rb;
          first_pass_remaining = rb_size rb - first_pass_offset;
          first_pass_count = kmin count first_pass_remaining
      in do {
        s1 \<leftarrow> mem_read buffer 0 (unat first_pass_count);
        d1 \<leftarrow> mem_write (data rb) (unat first_pass_offset) s1;
        d2 \<leftarrow> (if first_pass_count < count
               then do {
                 s2 \<leftarrow> mem_read buffer (unat first_pass_count) (unat (count - first_pass_count));
                 mem_write d1 0 s2
               } else Some d1);
        Some (count, rb\<lparr>data := d2, write_index := write_index rb + count\<rparr>)
      })"

definition rb_truncate :: "'a ring_buffer \<Rightarrow> usize \<Rightarrow> usize \<times> 'a ring_buffer" where
  "rb_truncate rb count0 =
     (let count = kmin count0 (data_count rb) in (count, rb\<lparr>read_index := read_index rb + count\<rparr>))"

definition rb_write_truncate ::
  "'a ring_buffer \<Rightarrow> 'a list \<Rightarrow> usize \<Rightarrow> (usize \<times> 'a ring_buffer) option" where
  "rb_write_truncate rb buffer count0 =
     (let rb' = (if free_count rb < count0 then snd (rb_truncate rb count0) else rb)
      in rb_write rb' buffer count0)"

definition rb_peek :: "'a ring_buffer \<Rightarrow> (usize \<times> 'a list) option" where
  "rb_peek rb =
     (if rb_is_empty rb then Some (0, [])
      else do {
        a \<leftarrow> mem_read (data rb) (unat (read_index rb mod rb_size rb)) 1;
        Some (1, a)
      })"

section \<open>The queue a ring buffer stands for\<close>

definition rb_lin :: "'a ring_buffer \<Rightarrow> bool" where
  "rb_lin rb \<longleftrightarrow> rb_size rb \<noteq> 0 \<and> length (data rb) = unat (rb_size rb) \<and> data_count rb \<le> rb_size rb \<and>
     (unat (rb_size rb) dvd 2 ^ 64 \<or> read_index rb \<le> write_index rb)"

definition rb_ok :: "'a ring_buffer \<Rightarrow> bool" where
  "rb_ok rb \<longleftrightarrow> rb_size rb \<noteq> 0 \<and> length (data rb) = unat (rb_size rb) \<and>
     unat (rb_size rb) dvd 2 ^ 64 \<and> data_count rb \<le> rb_size rb"

lemma rb_ok_lin: "rb_ok rb \<longleftrightarrow> rb_lin rb \<and> unat (rb_size rb) dvd 2 ^ 64"
  by (auto simp: rb_ok_def rb_lin_def)

definition rb_items :: "'a ring_buffer \<Rightarrow> 'a list" where
  "rb_items rb =
     map (\<lambda>i. data rb ! ((unat (read_index rb) + i) mod unat (rb_size rb))) [0..<unat (data_count rb)]"

lemma length_rb_items [simp]: "length (rb_items rb) = unat (data_count rb)"
  by (simp add: rb_items_def)

lemma unat_kmin: "unat (kmin a b) = min (unat a) (unat b)"
  by (auto simp: kmin_def word_less_nat_alt min_def)

lemma unat_add_mod_dvd:
  assumes "s dvd 2 ^ 64"
  shows "unat (a + b :: usize) mod s = (unat a + unat b) mod s"
  using assms by (simp add: unat_word_ariths mod_mod_cancel)

lemma mod_add_small:
  assumes "0 < s" "i < (s::nat)"
  shows "(r + i) mod s = (if r mod s + i < s then r mod s + i else r mod s + i - s)"
proof -
  have eq: "(r + i) mod s = (r mod s + i) mod s" by (simp add: mod_simps)
  have lt: "r mod s < s" using assms by simp
  show ?thesis
  proof (cases "r mod s + i < s")
    case True
    then show ?thesis by (simp add: eq)
  next
    case False
    then have "(r mod s + i) mod s = (r mod s + i - s) mod s" by (simp add: le_mod_geq)
    also have "\<dots> = r mod s + i - s" by (rule mod_less) (use lt assms in linarith)
    finally show ?thesis using False eq by simp
  qed
qed

lemma mod_add_size: "(r + (s + i)) mod s = (r + i) mod (s::nat)"
  by (simp add: add.left_commute[of r s])

lemma rb_empty_iff: "rb_is_empty rb \<longleftrightarrow> rb_items rb = []"
  by (metis length_0_conv length_rb_items rb_is_empty_def unat_eq_zero)

lemma rb_full_iff: "rb_is_full rb \<longleftrightarrow> length (rb_items rb) = unat (rb_size rb)"
  by (simp add: rb_is_full_def word_unat_eq_iff)


section \<open>Reading, writing and truncating are queue operations\<close>

lemma rb_size_pos: "rb_lin rb \<Longrightarrow> 0 < unat (rb_size rb)"
  by (simp add: rb_lin_def unat_gt_0)

lemma rb_index_bounds:
  assumes "rb_lin rb"
  shows "unat (i mod rb_size rb) = unat i mod unat (rb_size rb)"
    and "unat (rb_size rb - i mod rb_size rb) = unat (rb_size rb) - unat i mod unat (rb_size rb)"
    and "unat i mod unat (rb_size rb) < unat (rb_size rb)"
proof -
  have pos: "0 < unat (rb_size rb)" using assms by (rule rb_size_pos)
  show m: "unat (i mod rb_size rb) = unat i mod unat (rb_size rb)" by (simp add: unat_mod)
  show lt: "unat i mod unat (rb_size rb) < unat (rb_size rb)" using pos by simp
  have "i mod rb_size rb \<le> rb_size rb" using m lt by (simp add: word_le_nat_alt)
  then show "unat (rb_size rb - i mod rb_size rb) = unat (rb_size rb) - unat i mod unat (rb_size rb)"
    using m by (simp add: unat_sub)
qed

lemma rb_free:
  assumes "rb_lin rb"
  shows "unat (free_count rb) = unat (rb_size rb) - unat (data_count rb)"
  using assms by (simp add: free_count_def rb_lin_def unat_sub)

text \<open>The slot of an index up to the write index, whether the indices wrap or not.\<close>

lemma rb_no_wrap:
  assumes "read_index rb \<le> write_index rb" "unat n \<le> unat (data_count rb)"
  shows "unat (read_index rb + n) = unat (read_index rb) + unat n"
proof -
  have "unat (data_count rb) = unat (write_index rb) - unat (read_index rb)"
    using assms(1) by (simp add: data_count_def unat_sub)
  moreover have "unat (read_index rb) \<le> unat (write_index rb)" using assms(1) by (simp add: word_le_nat_alt)
  moreover have "unat (write_index rb) < 2 ^ 64" by simp
  ultimately have "unat (read_index rb) + unat n < 2 ^ 64" using assms(2) by linarith
  then show ?thesis by (rule unat_add_no_wrap)
qed

lemma rb_slot:
  assumes "rb_lin rb" "unat n \<le> unat (data_count rb)"
  shows "unat (read_index rb + n) mod unat (rb_size rb) = (unat (read_index rb) + unat n) mod unat (rb_size rb)"
proof (cases "unat (rb_size rb) dvd 2 ^ 64")
  case True
  then show ?thesis by (rule unat_add_mod_dvd)
next
  case False
  then show ?thesis using assms rb_no_wrap[of rb n] by (simp add: rb_lin_def)
qed

text \<open>Advancing the read index drops that many items.\<close>

lemma rb_advance_lin:
  assumes ok: "rb_lin rb" and n: "unat n \<le> unat (data_count rb)"
  shows "rb_lin (rb\<lparr>read_index := read_index rb + n\<rparr>)"
    and "rb_items (rb\<lparr>read_index := read_index rb + n\<rparr>) = drop (unat n) (rb_items rb)"
proof -
  let ?rb = "rb\<lparr>read_index := read_index rb + n\<rparr>" and ?s = "unat (rb_size rb)"
  have "data_count ?rb = data_count rb - n" by (simp add: data_count_def)
  then have c: "unat (data_count ?rb) = unat (data_count rb) - unat n"
    using n by (simp add: unat_sub word_le_nat_alt)
  have "read_index rb + n \<le> write_index rb" if h: "read_index rb \<le> write_index rb"
    using rb_no_wrap[OF h n] n h by (simp add: word_le_nat_alt data_count_def unat_sub)
  then show "rb_lin ?rb" using ok c by (auto simp: rb_lin_def word_le_nat_alt)
  have "(unat (read_index rb + n) + i) mod ?s = (unat (read_index rb) + (unat n + i)) mod ?s" for i
  proof -
    have "(unat (read_index rb + n) + i) mod ?s = (unat (read_index rb + n) mod ?s + i) mod ?s"
      by (simp add: mod_simps)
    also have "\<dots> = ((unat (read_index rb) + unat n) mod ?s + i) mod ?s"
      by (simp only: rb_slot[OF ok n])
    finally show ?thesis by (simp add: mod_simps add.assoc)
  qed
  then show "rb_items ?rb = drop (unat n) (rb_items rb)"
    by (intro nth_equalityI) (auto simp: c rb_items_def)
qed

lemma two_pass_read:
  assumes o: "o' < s" and ds: "length ds = s" and n: "n \<le> s"
  shows "take (min n (s - o')) (drop o' ds) @ (if min n (s - o') < n then take (n - min n (s - o')) ds else [])
       = map (\<lambda>i. ds ! ((o' + i) mod s)) [0..<n]"
proof (rule nth_equalityI)
  show "length (take (min n (s - o')) (drop o' ds) @
      (if min n (s - o') < n then take (n - min n (s - o')) ds else [])) =
    length (map (\<lambda>i. ds ! ((o' + i) mod s)) [0..<n])" using assms by auto
  fix i assume "i < length (take (min n (s - o')) (drop o' ds) @
      (if min n (s - o') < n then take (n - min n (s - o')) ds else []))"
  then have i: "i < n" using assms by (auto split: if_splits)
  have "(o' + i) mod s = (if o' + i < s then o' + i else o' + i - s)"
    using mod_add_small[of s i o'] o i n by simp
  then show "(take (min n (s - o')) (drop o' ds) @
      (if min n (s - o') < n then take (n - min n (s - o')) ds else [])) ! i =
    map (\<lambda>i. ds ! ((o' + i) mod s)) [0..<n] ! i"
    using i assms by (auto simp: nth_append min_def add.commute)
qed

lemma rb_read_lin:
  assumes ok: "rb_lin rb" and k_def: "k = min (unat n) (length (rb_items rb))"
  shows "\<exists>rb'. rb_read rb n = Some (of_nat k, take k (rb_items rb), rb') \<and> rb_lin rb' \<and>
           rb_items rb' = drop k (rb_items rb) \<and> rb_size rb' = rb_size rb \<and> write_index rb' = write_index rb"
proof -
  let ?c = "kmin n (data_count rb)" and ?s = "unat (rb_size rb)" and ?o = "unat (read_index rb) mod unat (rb_size rb)"
  have c: "unat ?c = k" by (simp add: k_def unat_kmin)
  then have c': "?c = of_nat k" by (metis of_nat_unat ucast_id)
  have ks: "k \<le> unat (data_count rb)" "k \<le> ?s" using ok by (auto simp: k_def rb_lin_def word_le_nat_alt)
  have len: "length (data rb) = ?s" using ok by (simp add: rb_lin_def)
  note ix = rb_index_bounds[OF ok, of "read_index rb"]
  have items: "map (\<lambda>i. data rb ! ((?o + i) mod ?s)) [0..<k] = take k (rb_items rb)"
    using ks by (intro nth_equalityI) (auto simp: rb_items_def mod_simps)
  have adv: "rb_lin (rb\<lparr>read_index := read_index rb + ?c\<rparr>)"
    "rb_items (rb\<lparr>read_index := read_index rb + ?c\<rparr>) = drop k (rb_items rb)"
    using rb_advance_lin[OF ok, of ?c] c ks by auto
  show ?thesis
  proof (cases "?c = 0")
    case True
    then have "k = 0" using c by simp
    then show ?thesis using ok True by (simp add: rb_read_def Let_def)
  next
    case False
    let ?f = "kmin ?c (rb_size rb - read_index rb mod rb_size rb)"
    have f: "unat ?f = min k (?s - ?o)" using c ix by (simp add: unat_kmin)
    have less: "?f < ?c \<longleftrightarrow> min k (?s - ?o) < k" using f c by (simp add: word_less_nat_alt)
    have sub: "?f < ?c \<Longrightarrow> unat (?c - ?f) = k - min k (?s - ?o)"
      using f c by (simp add: unat_sub less_imp_le)
    have "rb_read rb n = Some (?c, take (min k (?s - ?o)) (drop ?o (data rb)) @
        (if min k (?s - ?o) < k then take (k - min k (?s - ?o)) (data rb) else []),
        rb\<lparr>read_index := read_index rb + ?c\<rparr>)"
      using False f less sub ix ks len by (simp add: rb_read_def Let_def)
    then show ?thesis
      using two_pass_read[OF ix(3) len ks(2)] items adv c' by simp
  qed
qed

lemma rb_read_spec:
  assumes "rb_ok rb" "k = min (unat n) (length (rb_items rb))"
  shows "\<exists>rb'. rb_read rb n = Some (of_nat k, take k (rb_items rb), rb') \<and> rb_ok rb' \<and>
           rb_items rb' = drop k (rb_items rb) \<and> rb_size rb' = rb_size rb"
  using rb_read_lin[of rb k n] assms by (auto simp: rb_ok_lin)

text \<open>What the two \<^verbatim>\<open>memcpy\<close> calls of \<^verbatim>\<open>write\<close> leave in the array.\<close>

lemma two_pass_write:
  assumes o: "o' < s" and ds: "length ds = s" and n: "n \<le> s" "n \<le> length src"
    and f: "f = min n (s - o')"
    and d1: "mem_write ds o' (take f src) = Some d1"
    and d2: "(if f < n then mem_write d1 0 (take (n - f) (drop f src)) else Some d1) = Some d2"
    and m: "m < s"
  shows "d2 ! ((o' + m) mod s) = (if m < n then src ! m else ds ! ((o' + m) mod s))"
proof -
  have l1: "length d1 = s" using length_mem_write[OF d1] ds by simp
  have p: "(o' + m) mod s = (if o' + m < s then o' + m else o' + m - s)"
    using mod_add_small[of s m o'] o m by simp
  have lt: "(o' + m) mod s < s" using m by simp
  have n1: "d1 ! ((o' + m) mod s) =
      (if o' + m < s \<and> m < f then src ! m else ds ! ((o' + m) mod s))"
    using nth_mem_write[OF d1, of "(o' + m) mod s"] lt ds p f n m o by auto
  show ?thesis
  proof (cases "f < n")
    case True
    then have fs: "f = s - o'" using f by auto
    have d2': "mem_write d1 0 (take (n - f) (drop f src)) = Some d2" using d2 True by simp
    have "d2 ! ((o' + m) mod s) = (if (o' + m) mod s < n - f then src ! (f + (o' + m) mod s)
        else d1 ! ((o' + m) mod s))"
      using nth_mem_write[OF d2', of "(o' + m) mod s"] lt l1 n True by auto
    then show ?thesis using n1 p fs True o m n by (auto split: if_splits)
  next
    case False
    then have "d2 = d1" "f = n" using d2 f by auto
    then show ?thesis using n1 p f o m n by (auto split: if_splits)
  qed
qed

lemma rb_write_lin:
  assumes ok: "rb_lin rb" and src: "unat n \<le> length src"
    and k_def: "k = min (unat n) (unat (rb_size rb) - length (rb_items rb))"
    and nw: "unat (rb_size rb) dvd 2 ^ 64 \<or> unat (write_index rb) + k < 2 ^ 64"
  shows "\<exists>rb'. rb_write rb src n = Some (of_nat k, rb') \<and> rb_lin rb' \<and>
           rb_items rb' = rb_items rb @ take k src \<and> rb_size rb' = rb_size rb \<and>
           write_index rb' = write_index rb + of_nat k"
proof -
  let ?c = "kmin n (free_count rb)" and ?s = "unat (rb_size rb)" and ?d = "unat (data_count rb)"
  let ?o = "unat (write_index rb) mod ?s"
  let ?f = "kmin ?c (rb_size rb - write_index rb mod rb_size rb)"
  have c: "unat ?c = k" by (simp add: k_def unat_kmin rb_free[OF ok])
  then have c': "?c = of_nat k" by (metis of_nat_unat ucast_id)
  have d: "?d \<le> ?s" using ok by (simp add: rb_lin_def word_le_nat_alt)
  have k: "k \<le> ?s - ?d" "k \<le> length src" "k \<le> ?s" using src by (auto simp: k_def)
  have len: "length (data rb) = ?s" using ok by (auto simp: rb_lin_def)
  note ix = rb_index_bounds[OF ok, of "write_index rb"]
  have f: "unat ?f = min k (?s - ?o)" using c ix by (simp add: unat_kmin)
  have less: "?f < ?c \<longleftrightarrow> min k (?s - ?o) < k" using f c by (simp add: word_less_nat_alt)
  have sub: "?f < ?c \<Longrightarrow> unat (?c - ?f) = k - min k (?s - ?o)"
    using f c by (simp add: unat_sub less_imp_le)
  obtain d1 where d1: "mem_write (data rb) ?o (take (min k (?s - ?o)) src) = Some d1"
  proof -
    have "?o + length (take (min k (?s - ?o)) src) \<le> length (data rb)"
      using ix(3) k len by (simp only: length_take)
    from mem_write_in[OF this] show ?thesis by (rule that)
  qed
  have l1: "length d1 = ?s" using length_mem_write[OF d1] len by (rule trans)
  obtain d2 where d2: "(if min k (?s - ?o) < k
      then mem_write d1 0 (take (k - min k (?s - ?o)) (drop (min k (?s - ?o)) src)) else Some d1) = Some d2"
  proof (cases "min k (?s - ?o) < k")
    case True
    have "0 + length (take (k - min k (?s - ?o)) (drop (min k (?s - ?o)) src)) \<le> length d1"
      using l1 k by (simp only: length_take length_drop) linarith
    from mem_write_in[OF this] True show ?thesis by (intro that) (simp only: if_True)
  qed (use that in simp)
  have l2: "length d2 = ?s"
    using d2 l1 length_mem_write[of d1 0 _ d2] by (simp split: if_splits)
  let ?rb = "rb\<lparr>data := d2, write_index := write_index rb + ?c\<rparr>"
  have eq: "rb_write rb src n = Some (?c, ?rb)"
    using f less sub ix k d1 d2 by (auto simp: rb_write_def Let_def split: if_splits)
  have cnt: "unat (data_count ?rb) = ?d + k"
  proof -
    have "data_count ?rb = data_count rb + ?c" by (simp add: data_count_def)
    moreover have "?d + k \<le> ?s" using k(1) d by arith
    then have "?d + unat ?c < 2 ^ 64" unfolding c by (rule le_less_trans) simp
    ultimately show ?thesis using unat_add_no_wrap c by simp
  qed
  have "unat (write_index rb + ?c) = unat (write_index rb) + k" if h: "unat (write_index rb) + k < 2 ^ 64"
    using unat_add_no_wrap[of "write_index rb" ?c] c h by simp
  then have ok': "rb_lin ?rb" using ok cnt k d l2 nw by (auto simp: rb_lin_def word_le_nat_alt)
  have w: "?o = (unat (read_index rb) + ?d) mod ?s"
  proof -
    have "write_index rb = read_index rb + data_count rb" by (simp add: data_count_def)
    then show ?thesis using rb_slot[OF ok order_refl] by metis
  qed
  have "rb_items ?rb = rb_items rb @ take k src"
  proof (rule nth_equalityI)
    show "length (rb_items ?rb) = length (rb_items rb @ take k src)" using cnt k by simp
    fix i assume "i < length (rb_items ?rb)"
    then have i: "i < ?d + k" using cnt by simp
    define m where "m = (if i < ?d then ?s - ?d + i else i - ?d)"
    have m: "m < ?s" using i k d rb_size_pos[OF ok] by (auto simp: m_def)
    have idx: "(?o + m) mod ?s = (unat (read_index rb) + i) mod ?s"
    proof -
      have "(?o + m) mod ?s = (unat (read_index rb) + (?d + m)) mod ?s"
        by (simp add: w mod_simps add.assoc)
      moreover have "?d + m = i \<or> ?d + m = ?s + i" using d by (auto simp: m_def)
      ultimately show ?thesis by (auto simp: mod_add_size)
    qed
    have "d2 ! ((?o + m) mod ?s) = (if m < k then src ! m else data rb ! ((?o + m) mod ?s))"
      by (rule two_pass_write[OF ix(3) len k(3,2) refl d1 d2 m])
    then have "d2 ! ((unat (read_index rb) + i) mod ?s) =
        (if i < ?d then data rb ! ((unat (read_index rb) + i) mod ?s) else src ! (i - ?d))"
      using idx i k d by (auto simp: m_def)
    then show "rb_items ?rb ! i = (rb_items rb @ take k src) ! i"
      using i cnt by (auto simp: rb_items_def nth_append)
  qed
  then show ?thesis using eq ok' c' by simp
qed


lemma rb_write_spec:
  assumes "rb_ok rb" "unat n \<le> length src" "k = min (unat n) (unat (rb_size rb) - length (rb_items rb))"
  shows "\<exists>rb'. rb_write rb src n = Some (of_nat k, rb') \<and> rb_ok rb' \<and>
           rb_items rb' = rb_items rb @ take k src \<and> rb_size rb' = rb_size rb"
  using rb_write_lin[of rb n src k] assms by (auto simp: rb_ok_lin)

lemma rb_truncate_lin:
  assumes "rb_lin rb" "k = min (unat n) (length (rb_items rb))"
  shows "fst (rb_truncate rb n) = of_nat k" "rb_lin (snd (rb_truncate rb n))"
    and "rb_items (snd (rb_truncate rb n)) = drop k (rb_items rb)"
    and "rb_size (snd (rb_truncate rb n)) = rb_size rb" "write_index (snd (rb_truncate rb n)) = write_index rb"
proof -
  have c: "unat (kmin n (data_count rb)) = k" by (simp add: assms(2) unat_kmin)
  then show "fst (rb_truncate rb n) = of_nat k"
    by (simp add: rb_truncate_def Let_def flip: c)
  show "rb_lin (snd (rb_truncate rb n))" "rb_items (snd (rb_truncate rb n)) = drop k (rb_items rb)"
    using rb_advance_lin[OF assms(1), of "kmin n (data_count rb)"] c assms(2)
    by (auto simp: rb_truncate_def Let_def)
  show "rb_size (snd (rb_truncate rb n)) = rb_size rb" "write_index (snd (rb_truncate rb n)) = write_index rb" by (simp_all add: rb_truncate_def Let_def)
qed

lemma rb_truncate_spec:
  assumes "rb_ok rb" "k = min (unat n) (length (rb_items rb))"
  shows "fst (rb_truncate rb n) = of_nat k" "rb_ok (snd (rb_truncate rb n))"
    and "rb_items (snd (rb_truncate rb n)) = drop k (rb_items rb)"
    and "rb_size (snd (rb_truncate rb n)) = rb_size rb"
  using rb_truncate_lin[of rb k n] assms by (auto simp: rb_ok_lin)

section \<open>The contract of a bounded queue\<close>

text \<open>
  What a client of a ring buffer relies on: a state satisfying \<open>ok\<close> stands for the sequence \<open>items\<close>,
  \<open>get\<close> takes as many as asked for from its front, \<open>put\<close> appends as many as fit.
\<close>

locale bounded_queue =
  fixes ok :: "'q \<Rightarrow> bool" and items :: "'q \<Rightarrow> 'a list" and cap :: "'q \<Rightarrow> nat"
    and get :: "'q \<Rightarrow> usize \<Rightarrow> (usize \<times> 'a list \<times> 'q) option"
    and put :: "'q \<Rightarrow> 'a list \<Rightarrow> usize \<Rightarrow> (usize \<times> 'q) option"
  assumes bounded: "ok q \<Longrightarrow> length (items q) \<le> cap q"
    and get_law: "ok q \<Longrightarrow> k = min (unat n) (length (items q)) \<Longrightarrow>
      \<exists>q'. get q n = Some (of_nat k, take k (items q), q') \<and> ok q' \<and> items q' = drop k (items q) \<and>
           cap q' = cap q"
    and put_law: "ok q \<Longrightarrow> unat n \<le> length xs \<Longrightarrow> k = min (unat n) (cap q - length (items q)) \<Longrightarrow>
      \<exists>q'. put q xs n = Some (of_nat k, q') \<and> ok q' \<and> items q' = items q @ take k xs \<and> cap q' = cap q"
begin

lemma get_cases:
  assumes "ok q" "get q n = Some (c, out, q')"
  shows "ok q'" "cap q' = cap q" "items q = out @ items q'"
    and "length out = min (unat n) (length (items q))" "c = of_nat (length out)"
  using get_law[OF assms(1) refl, of n] assms(2) by auto

lemma put_cases:
  assumes "ok q" "put q xs n = Some (c, q')" "unat n \<le> length xs"
  shows "ok q'" "cap q' = cap q" "\<exists>k. k = min (unat n) (cap q - length (items q)) \<and>
    c = of_nat k \<and> items q' = items q @ take k xs"
  using put_law[OF assms(1,3) refl] assms(2) by auto

text \<open>What was put into an empty queue and fits comes out again, in order.\<close>

lemma put_get_round_trip:
  assumes "ok q" "items q = []" "length xs \<le> cap q" "length xs < 2 ^ 64"
  shows "\<exists>q1 q2. put q xs (of_nat (length xs)) = Some (of_nat (length xs), q1) \<and>
           get q1 (of_nat (length xs)) = Some (of_nat (length xs), xs, q2) \<and> ok q2 \<and> items q2 = []"
proof -
  have n: "unat (of_nat (length xs) :: usize) = length xs" using assms(4) by (simp add: unat_of_nat)
  obtain q1 where q1: "put q xs (of_nat (length xs)) = Some (of_nat (length xs), q1)" "ok q1"
    "items q1 = xs" using put_law[OF assms(1), of "of_nat (length xs)" xs "length xs"] assms n by auto
  then show ?thesis using get_law[of q1 "length xs" "of_nat (length xs)"] n by auto
qed

end

interpretation ring: bounded_queue rb_ok rb_items "\<lambda>rb. unat (rb_size rb)" rb_read rb_write
proof
  show "rb_ok q \<Longrightarrow> length (rb_items q) \<le> unat (rb_size q)" for q :: "'a ring_buffer"
    by (simp add: rb_ok_def word_le_nat_alt)
  show "rb_ok q \<Longrightarrow> k = min (unat n) (length (rb_items q)) \<Longrightarrow>
      \<exists>q'. rb_read q n = Some (of_nat k, take k (rb_items q), q') \<and> rb_ok q' \<and>
           rb_items q' = drop k (rb_items q) \<and> unat (rb_size q') = unat (rb_size q)"
    for q :: "'a ring_buffer" and k n by (drule (1) rb_read_spec) auto
  show "rb_ok q \<Longrightarrow> unat n \<le> length xs \<Longrightarrow> k = min (unat n) (unat (rb_size q) - length (rb_items q)) \<Longrightarrow>
      \<exists>q'. rb_write q xs n = Some (of_nat k, q') \<and> rb_ok q' \<and> rb_items q' = rb_items q @ take k xs \<and>
           unat (rb_size q') = unat (rb_size q)"
    for q :: "'a ring_buffer" and n xs k by (drule (2) rb_write_spec) auto
qed

section \<open>Properties\<close>


definition example_ring :: "nat ring_buffer" where
  "example_ring = \<lparr>rb_size = 4, read_index = - 1, write_index = 1, data = [11, 0, 0, 10]\<rparr>"


text \<open>
  \<^verbatim>\<open>write_truncate\<close> of no more than the buffer's size never fails to write: it makes room by
  dropping the oldest items, and all of the new ones end up at the back. The number dropped is the
  number written (not the smaller number that would make just enough room).
\<close>

theorem write_truncate_writes_all:
  assumes "rb_ok rb" "unat n \<le> length xs" "unat n \<le> unat (rb_size rb)"
  shows "\<exists>rb' d. rb_write_truncate rb xs n = Some (n, rb') \<and> rb_ok rb' \<and>
           rb_items rb' = drop d (rb_items rb) @ take (unat n) xs \<and>
           d = (if unat (rb_size rb) - length (rb_items rb) < unat n
                then min (unat n) (length (rb_items rb)) else 0)"
proof (cases "free_count rb < n")
  case False
  then have "unat n \<le> unat (rb_size rb) - length (rb_items rb)"
    using rb_free[of rb] assms(1) by (simp add: word_less_nat_alt rb_ok_lin)
  then show ?thesis using rb_write_spec[OF assms(1,2) refl] False
    by (auto simp: rb_write_truncate_def Let_def)
next
  case True
  let ?rb = "snd (rb_truncate rb n)" and ?d = "min (unat n) (length (rb_items rb))"
  note t = rb_truncate_spec[OF assms(1) refl, of n]
  have less: "unat (rb_size rb) - length (rb_items rb) < unat n"
    using True rb_free[of rb] assms(1) by (simp add: word_less_nat_alt rb_ok_lin)
  have "unat n \<le> unat (rb_size ?rb) - length (rb_items ?rb)"
    using t(3,4) assms(3) ring.bounded[OF assms(1)] by (auto simp: min_def)
  then obtain rb' where "rb_write ?rb xs n = Some (n, rb')" "rb_ok rb'"
    "rb_items rb' = drop ?d (rb_items rb) @ take (unat n) xs"
    using rb_write_spec[OF t(2) assms(2) refl] t(3) by (auto simp: min_absorb1)
  then show ?thesis using True less by (auto simp: rb_write_truncate_def Let_def)
qed

theorem write_truncate_writes_all_witness:
  "rb_ok \<lparr>rb_size = 4, read_index = 0, write_index = 0, data = [0, 0, 0, 0 :: nat]\<rparr> \<and>
   (\<exists>rb'. rb_write_truncate \<lparr>rb_size = 4, read_index = 0, write_index = 0, data = [0, 0, 0, 0 :: nat]\<rparr>
      [7, 8] 2 = Some (2, rb') \<and> rb_items rb' = [7, 8])"
proof -
  let ?rb = "\<lparr>rb_size = 4, read_index = 0, write_index = 0, data = [0, 0, 0, 0 :: nat]\<rparr>"
  have ok: "rb_ok ?rb" by (simp add: rb_ok_def data_count_def)
  have n: "unat (2 :: usize) \<le> length [7, 8 :: nat]" "unat (2 :: usize) \<le> unat (rb_size ?rb)" by simp_all
  have "rb_items ?rb = []" by (simp add: rb_items_def data_count_def)
  then show ?thesis using ok write_truncate_writes_all[OF ok n] by auto
qed

end
