(* ===== verification/Klib_Containers.thy ===== *)
theory Klib_Containers
  imports Klib_Algorithm
begin

text \<open>
  \<^verbatim>\<open>klib/bitmap.hpp\<close>, \<^verbatim>\<open>klib/vector.hpp\<close> and \<^verbatim>\<open>klib/hashtable.hpp\<close>. A bucket of the hash table
  is the sequence of its entries in list order (the intrusive list itself is the subject of
  \<open>Klib_List\<close>); a slot of a vector's buffer that holds no constructed element is \<open>None\<close>.
\<close>

section \<open>Bitmap\<close>

record bitmap = bm_data :: "usize list"

definition bits_per_usize :: usize where
  "bits_per_usize = 8 * 8"

definition bm_get :: "bitmap \<Rightarrow> usize \<Rightarrow> bool option" where
  "bm_get bm index = do {
     w \<leftarrow> rd (bm_data bm) (unat (index div bits_per_usize));
     Some (drop_bit (unat (index mod bits_per_usize)) w AND 1 \<noteq> 0)
   }"

definition bm_set :: "bitmap \<Rightarrow> usize \<Rightarrow> bool \<Rightarrow> bitmap option" where
  "bm_set bm index value =
     (let d = index div bits_per_usize; r = index mod bits_per_usize
      in do {
        w \<leftarrow> rd (bm_data bm) (unat d);
        ws \<leftarrow> wr (bm_data bm) (unat d)
               (if value then w OR push_bit (unat r) 1 else w AND NOT (push_bit (unat r) 1));
        Some (bm\<lparr>bm_data := ws\<rparr>)
      })"

section \<open>Vector\<close>

record 'a vector =
  m_buffer :: "'a option list"
  m_size :: usize
  m_capacity :: usize

text \<open>
  The doubling loop of \<^verbatim>\<open>increase_capacity\<close>. Above \<open>2 ^ 63\<close> the doubled capacity wraps to 0 and the
  loop never ends.
\<close>

partial_function (option) grow_capacity :: "usize \<Rightarrow> usize \<Rightarrow> usize option" where
  "grow_capacity new_capacity c =
     (if new_capacity > c then grow_capacity new_capacity (if c \<noteq> 0 then c * 2 else 1) else Some c)"

text \<open>\<^verbatim>\<open>klib::realloc\<close> moves the old elements to a larger block whose new slots hold nothing yet.\<close>

definition increase_capacity :: "'a vector \<Rightarrow> usize \<Rightarrow> 'a vector option" where
  "increase_capacity v new_capacity =
     (if new_capacity > m_capacity v then do {
        c \<leftarrow> grow_capacity new_capacity (m_capacity v);
        Some (v\<lparr>m_capacity := c,
               m_buffer := m_buffer v @ replicate (unat c - length (m_buffer v)) None\<rparr>)
      } else Some v)"

definition vector_new :: "usize \<Rightarrow> 'a vector" where
  "vector_new reserve = \<lparr>m_buffer = replicate (unat reserve) None, m_size = 0, m_capacity = reserve\<rparr>"

definition vector_at :: "'a vector \<Rightarrow> usize \<Rightarrow> 'a option" where
  "vector_at v index = do { slot \<leftarrow> rd (m_buffer v) (unat index); slot }"

definition emplace_back :: "'a vector \<Rightarrow> 'a \<Rightarrow> 'a vector option" where
  "emplace_back v t = do {
     let v1 = v\<lparr>m_size := m_size v + 1\<rparr>;
     v2 \<leftarrow> increase_capacity v1 (m_size v1);
     b \<leftarrow> wr (m_buffer v2) (unat (m_size v2 - 1)) (Some t);
     Some (v2\<lparr>m_buffer := b\<rparr>)
   }"

definition vector_resize :: "'a vector \<Rightarrow> usize \<Rightarrow> 'a vector option" where
  "vector_resize v new_size = do {
     v1 \<leftarrow> increase_capacity v new_size;
     Some (v1\<lparr>m_size := new_size\<rparr>)
   }"

definition vector_clear :: "'a vector \<Rightarrow> 'a vector option" where
  "vector_clear v = vector_resize v 0"

section \<open>Hash table\<close>

text \<open>
  The hash of the key type is a parameter, as in the template; a table of size 0 makes the bucket
  computation divide by zero (\<open>None\<close>).
\<close>

record ('k, 'v) hash_table =
  table :: "('k \<times> 'v) list list"
  table_size :: usize
  num_stored :: usize

definition hash_table_new :: "usize \<Rightarrow> ('k, 'v) hash_table" where
  "hash_table_new n = \<lparr>table = replicate (unat n) [], table_size = n, num_stored = 0\<rparr>"

definition get_hash_bucket :: "('k \<Rightarrow> u64) \<Rightarrow> ('k, 'v) hash_table \<Rightarrow> 'k \<Rightarrow> nat option" where
  "get_hash_bucket hash t key =
     (if table_size t = 0 then None else Some (unat (hash key mod table_size t)))"

fun bucket_find :: "'k \<Rightarrow> ('k \<times> 'v) list \<Rightarrow> 'v option" where
  "bucket_find key [] = None"
| "bucket_find key ((k, v) # es) = (if k = key then Some v else bucket_find key es)"

definition ht_lookup :: "('k \<Rightarrow> u64) \<Rightarrow> ('k, 'v) hash_table \<Rightarrow> 'k \<Rightarrow> 'v option option" where
  "ht_lookup hash t key = do {
     i \<leftarrow> get_hash_bucket hash t key;
     b \<leftarrow> rd (table t) i;
     Some (bucket_find key b)
   }"

definition ht_emplace :: "('k \<Rightarrow> u64) \<Rightarrow> ('k, 'v) hash_table \<Rightarrow> 'k \<Rightarrow> 'v \<Rightarrow> ('k, 'v) hash_table option" where
  "ht_emplace hash t key value = do {
     i \<leftarrow> get_hash_bucket hash t key;
     b \<leftarrow> rd (table t) i;
     tab \<leftarrow> wr (table t) i ((key, value) # b);
     Some (t\<lparr>table := tab, num_stored := num_stored t + 1\<rparr>)
   }"

fun bucket_remove :: "'k \<Rightarrow> ('k \<times> 'v) list \<Rightarrow> ('k \<times> 'v) list option" where
  "bucket_remove key [] = None"
| "bucket_remove key ((k, v) # es) =
     (if k = key then Some es else map_option ((#) (k, v)) (bucket_remove key es))"

definition ht_remove :: "('k \<Rightarrow> u64) \<Rightarrow> ('k, 'v) hash_table \<Rightarrow> 'k \<Rightarrow> ('k, 'v) hash_table option" where
  "ht_remove hash t key = do {
     i \<leftarrow> get_hash_bucket hash t key;
     b \<leftarrow> rd (table t) i;
     (case bucket_remove key b of
        None \<Rightarrow> Some t
      | Some b' \<Rightarrow> do {
          tab \<leftarrow> wr (table t) i b';
          Some (t\<lparr>table := tab, num_stored := num_stored t - 1\<rparr>)
        })
   }"

text \<open>\<^verbatim>\<open>for_each\<close>: the entries in the order the callback sees them.\<close>

definition ht_for_each :: "('k, 'v) hash_table \<Rightarrow> ('k \<times> 'v) list" where
  "ht_for_each t = concat (table t)"

section \<open>Bitmap: reading back what was set\<close>

lemma bit_set_clear:
  "bit (if v then w OR push_bit r 1 else w AND NOT (push_bit r 1)) n \<longleftrightarrow>
     (if n = r \<and> r < 64 then v else bit (w :: usize) n)"
  by (auto simp: bit_simps dest: bit_imp_le_length)

lemma bm_index_inj:
  assumes "unat i div 64 = unat j div 64" "unat i mod 64 = unat j mod 64"
  shows "(i::usize) = j"
  using assms by (metis div_mod_decomp word_unat_eq_iff)

lemma bm_get_bit:
  "bm_get bm index = do { w \<leftarrow> rd (bm_data bm) (unat index div 64); Some (bit w (unat index mod 64)) }"
  by (simp add: bm_get_def bits_per_usize_def unat_div unat_mod bit_iff_odd_drop_bit
      and_one_eq odd_iff_mod_2_eq_one)

text \<open>
  A bitmap is an array of booleans: after \<^verbatim>\<open>set(i, v)\<close> on an index it holds, \<^verbatim>\<open>get(i)\<close> is \<open>v\<close>
  and every other index reads as before.
\<close>

theorem bitmap_get_set:
  assumes "unat i div 64 < length (bm_data bm)"
  shows "\<exists>bm'. bm_set bm i v = Some bm' \<and> bm_get bm' i = Some v \<and>
           (\<forall>j. j \<noteq> i \<longrightarrow> bm_get bm' j = bm_get bm j)"
proof -
  let ?d = "unat i div 64" and ?r = "unat i mod 64"
  let ?w = "if v then bm_data bm ! ?d OR push_bit ?r 1 else bm_data bm ! ?d AND NOT (push_bit ?r 1)"
  let ?bm = "bm\<lparr>bm_data := (bm_data bm)[?d := ?w]\<rparr>"
  have s: "bm_set bm i v = Some ?bm"
    using assms by (simp add: bm_set_def bits_per_usize_def unat_div unat_mod)
  have "bm_get ?bm j = (if j = i then Some v else bm_get bm j)" for j
  proof (cases "unat j div 64 = ?d")
    case True
    then have "bm_get ?bm j = Some (bit ?w (unat j mod 64))" using assms by (simp add: bm_get_bit)
    also have "\<dots> = Some (if unat j mod 64 = ?r then v else bit (bm_data bm ! ?d) (unat j mod 64))"
      by (simp only: bit_set_clear) simp
    finally show ?thesis using True assms bm_index_inj[of j i] by (auto simp: bm_get_bit)
  next
    case False
    then show ?thesis by (auto simp: bm_get_bit rd_def)
  qed
  then show ?thesis using s by auto
qed

theorem bitmap_get_set_witness:
  "unat (70 :: usize) div 64 < length (bm_data \<lparr>bm_data = [0, 0]\<rparr>) \<and>
   (\<exists>bm'. bm_set \<lparr>bm_data = [0, 0]\<rparr> 70 True = Some bm' \<and> bm_get bm' 70 = Some True \<and>
     (\<forall>j. j \<noteq> 70 \<longrightarrow> bm_get bm' j = bm_get \<lparr>bm_data = [0, 0]\<rparr> j))"
proof -
  have h: "unat (70 :: usize) div 64 < length (bm_data \<lparr>bm_data = [0, 0]\<rparr>)" by simp
  show ?thesis using h bitmap_get_set[OF h] by blast
qed


section \<open>Vector: a growable sequence\<close>

definition vec_ok :: "'a vector \<Rightarrow> bool" where
  "vec_ok v \<longleftrightarrow> length (m_buffer v) = unat (m_capacity v) \<and> m_size v \<le> m_capacity v \<and>
     (\<forall>i < unat (m_size v). m_buffer v ! i \<noteq> None)"

definition vec_list :: "'a vector \<Rightarrow> 'a list" where
  "vec_list v = map the (take (unat (m_size v)) (m_buffer v))"

lemma grow_capacity_spec:
  assumes "unat new \<le> 2 ^ 63"
  shows "\<exists>c'. grow_capacity new c = Some c' \<and> new \<le> c' \<and> c \<le> c'"
proof (induction "unat new - unat c" arbitrary: c rule: less_induct)
  case less
  show ?case
  proof (cases "new > c")
    case False
    then show ?thesis by (auto simp: grow_capacity.simps[of new c])
  next
    case True
    define d where "d = (if c \<noteq> 0 then c * 2 else 1)"
    have lt: "unat c < unat new" using True by (simp add: word_less_nat_alt)
    have "unat (c * 2) = unat c * 2"
      by (rule trans[OF unat_mult_no_wrap]) (use lt assms in auto)
    then have d: "unat c < unat d" using True by (auto simp: d_def unat_gt_0)
    then obtain c' where "grow_capacity new d = Some c'" "new \<le> c'" "d \<le> c'"
      using less[of d] lt by force
    then show ?thesis
      using True d by (simp add: grow_capacity.simps[of new c] d_def word_le_nat_alt)
  qed
qed

lemma increase_capacity_spec:
  assumes "length (m_buffer v) = unat (m_capacity v)" "unat new \<le> 2 ^ 63"
  shows "\<exists>v' junk. increase_capacity v new = Some v' \<and> m_buffer v' = m_buffer v @ junk \<and>
    m_size v' = m_size v \<and> new \<le> m_capacity v' \<and> m_capacity v \<le> m_capacity v' \<and>
    length (m_buffer v') = unat (m_capacity v')"
proof (cases "new > m_capacity v")
  case False
  then show ?thesis using assms by (auto simp: increase_capacity_def)
next
  case True
  then show ?thesis using grow_capacity_spec[OF assms(2), of "m_capacity v"] assms(1)
    by (auto simp: increase_capacity_def word_le_nat_alt)
qed

lemma nth_vec_list: "vec_ok v \<Longrightarrow> i < unat (m_size v) \<Longrightarrow> vec_list v ! i = the (m_buffer v ! i)"
  by (simp add: vec_list_def vec_ok_def word_le_nat_alt)

lemma length_vec_list: "vec_ok v \<Longrightarrow> length (vec_list v) = unat (m_size v)"
  by (simp add: vec_list_def vec_ok_def word_le_nat_alt)

text \<open>
  A vector is a growable sequence: \<^verbatim>\<open>push_back\<close> returns for every size below \<open>2 ^ 63\<close>, appends
  the element, keeps all earlier elements across the reallocation and keeps the invariant (capacity
  is the length of the block, size within capacity, every element below the size constructed).
\<close>

theorem vector_push_back_appends:
  assumes "vec_ok v" "unat (m_size v) < 2 ^ 63"
  shows "\<exists>v'. emplace_back v t = Some v' \<and> vec_ok v' \<and> vec_list v' = vec_list v @ [t] \<and>
           m_size v' = m_size v + 1"
proof -
  let ?n = "unat (m_size v)"
  have n1: "unat (m_size v + 1) = ?n + 1" using assms(2) unat_add_no_wrap[of "m_size v" 1] by simp
  have sz: "?n \<le> length (m_buffer v)" using assms(1) by (simp add: vec_ok_def word_le_nat_alt)
  obtain v2 junk where v2: "increase_capacity (v\<lparr>m_size := m_size v + 1\<rparr>) (m_size v + 1) = Some v2"
    "m_buffer v2 = m_buffer v @ junk" "m_size v2 = m_size v + 1" "m_size v + 1 \<le> m_capacity v2"
    "length (m_buffer v2) = unat (m_capacity v2)"
    using increase_capacity_spec[of "v\<lparr>m_size := m_size v + 1\<rparr>" "m_size v + 1"] assms n1
    by (auto simp: vec_ok_def)
  have in2: "?n < length (m_buffer v2)" using v2(4,5) n1 by (simp add: word_le_nat_alt)
  let ?v = "v2\<lparr>m_buffer := (m_buffer v2)[?n := Some t]\<rparr>"
  have eq: "emplace_back v t = Some ?v" using v2 in2 by (simp add: emplace_back_def)
  have ok: "vec_ok ?v"
    using assms(1) v2 n1 in2 sz by (auto simp: vec_ok_def nth_list_update nth_append less_Suc_eq)
  have "vec_list ?v = vec_list v @ [t]"
  proof (rule nth_equalityI)
    show "length (vec_list ?v) = length (vec_list v @ [t])"
      using length_vec_list[OF ok] length_vec_list[OF assms(1)] v2(3) n1 by simp
    fix i assume "i < length (vec_list ?v)"
    then have "i < ?n + 1" using length_vec_list[OF ok] v2(3) n1 by simp
    then show "vec_list ?v ! i = (vec_list v @ [t]) ! i"
      using nth_vec_list[OF ok, of i] nth_vec_list[OF assms(1), of i] v2(2,3) n1 in2 sz
      by (auto simp: nth_append length_vec_list[OF assms(1)] nth_list_update less_Suc_eq)
  qed
  then show ?thesis using eq ok v2(3) by auto
qed

theorem vector_push_back_appends_witness:
  "vec_ok (vector_new 0 :: nat vector) \<and>
   (\<exists>v'. emplace_back (vector_new 0 :: nat vector) 5 = Some v' \<and> vec_ok v' \<and> vec_list v' = [5])"
proof -
  have h: "vec_ok (vector_new 0 :: nat vector)" "unat (m_size (vector_new 0 :: nat vector)) < 2 ^ 63"
    by (simp_all add: vec_ok_def vector_new_def)
  show ?thesis using h vector_push_back_appends[OF h, of 5] by (auto simp: vec_list_def vector_new_def)
qed

lemma vector_resize_down:
  assumes "vec_ok v" "n \<le> m_size v"
  shows "\<exists>v'. vector_resize v n = Some v' \<and> vec_ok v' \<and> vec_list v' = take (unat n) (vec_list v)"
proof -
  have "increase_capacity v n = Some v"
    using assms by (auto simp: increase_capacity_def vec_ok_def)
  then show ?thesis using assms
    by (auto simp: vector_resize_def vec_ok_def vec_list_def word_le_nat_alt take_map min_def)
qed

section \<open>Hash table: a stack of values per key\<close>

definition ht_ok :: "('k \<Rightarrow> u64) \<Rightarrow> ('k, 'v) hash_table \<Rightarrow> bool" where
  "ht_ok hash t \<longleftrightarrow> table_size t \<noteq> 0 \<and> length (table t) = unat (table_size t) \<and>
     num_stored t = of_nat (length (ht_for_each t))"

definition ht_vals :: "('k \<Rightarrow> u64) \<Rightarrow> ('k, 'v) hash_table \<Rightarrow> 'k \<Rightarrow> 'v list" where
  "ht_vals hash t key =
     map snd (filter (\<lambda>e. fst e = key) (table t ! unat (hash key mod table_size t)))"

lemma bucket_in: "table_size t \<noteq> 0 \<Longrightarrow> length (table t) = unat (table_size t) \<Longrightarrow>
    unat (hash key mod table_size t) < length (table t)"
  by (simp add: unat_mod unat_gt_0)

lemma bucket_find_vals:
  "bucket_find key es = (case map snd (filter (\<lambda>e. fst e = key) es) of [] \<Rightarrow> None | v # _ \<Rightarrow> Some v)"
  by (induction key es rule: bucket_find.induct) auto

lemma bucket_remove_None: "bucket_remove key es = None \<Longrightarrow> filter (\<lambda>e. fst e = key) es = []"
  by (induction key es rule: bucket_remove.induct) (auto split: if_splits)

lemma bucket_remove_Some:
  "bucket_remove key es = Some es' \<Longrightarrow>
     \<exists>as v bs. es = as @ (key, v) # bs \<and> es' = as @ bs \<and> filter (\<lambda>e. fst e = key) as = []"
proof (induction key es arbitrary: es' rule: bucket_remove.induct)
  case (2 key k v es)
  show ?case
  proof (cases "k = key")
    case True
    then show ?thesis using 2(2) by (intro exI[of _ "[]"]) auto
  next
    case False
    then obtain fs where fs: "bucket_remove key es = Some fs" "es' = (k, v) # fs" using 2(2) by auto
    then obtain as w bs where "es = as @ (key, w) # bs" "fs = as @ bs" "filter (\<lambda>e. fst e = key) as = []"
      using 2(1)[OF False] by blast
    then show ?thesis using fs False by (intro exI[of _ "(k, v) # as"]) auto
  qed
qed simp

lemma length_concat_update:
  "i < length xss \<Longrightarrow>
   length (concat (xss[i := ys])) + length (xss ! i) = length (concat xss) + length ys"
  by (induction xss arbitrary: i) (auto split: nat.splits)

text \<open>The contract of a keyed store: per key a stack of values, the newest one visible.\<close>

locale keyed_store =
  fixes ok :: "'t \<Rightarrow> bool" and vals :: "'t \<Rightarrow> 'k \<Rightarrow> 'v list"
    and lookup :: "'t \<Rightarrow> 'k \<Rightarrow> 'v option option"
    and emplace :: "'t \<Rightarrow> 'k \<Rightarrow> 'v \<Rightarrow> 't option" and remove :: "'t \<Rightarrow> 'k \<Rightarrow> 't option"
  assumes lookup_law: "ok t \<Longrightarrow> lookup t k = Some (case vals t k of [] \<Rightarrow> None | v # _ \<Rightarrow> Some v)"
    and emplace_law: "ok t \<Longrightarrow> \<exists>t'. emplace t k v = Some t' \<and> ok t' \<and> vals t' = (vals t)(k := v # vals t k)"
    and remove_law: "ok t \<Longrightarrow> \<exists>t'. remove t k = Some t' \<and> ok t' \<and> vals t' = (vals t)(k := tl (vals t k))"
begin

lemma lookup_emplace:
  assumes "ok t" "emplace t k v = Some t'"
  shows "ok t'" "lookup t' k' = (if k' = k then Some (Some v) else lookup t k')"
  using emplace_law[OF assms(1), of k v] assms lookup_law by auto

lemma lookup_remove_unique:
  assumes "ok t" "remove t k = Some t'" "length (vals t k) \<le> 1"
  shows "ok t'" "lookup t' k' = (if k' = k then Some None else lookup t k')"
  using remove_law[OF assms(1), of k] assms lookup_law by (cases "vals t k"; auto)+

text \<open>Looking a key up and creating it when it is missing keeps at most one value per key.\<close>

lemma get_or_create:
  assumes "ok t" "\<forall>k. length (vals t k) \<le> 1" "lookup t k = Some r"
    and "t' = (case r of Some _ \<Rightarrow> Some t | None \<Rightarrow> emplace t k v)"
  shows "\<exists>t2. t' = Some t2 \<and> ok t2 \<and> (\<forall>k. length (vals t2 k) \<le> 1) \<and>
    lookup t2 k = Some (Some (case r of Some w \<Rightarrow> w | None \<Rightarrow> v)) \<and> (\<forall>j. j \<noteq> k \<longrightarrow> lookup t2 j = lookup t j)"
proof (cases r)
  case (Some w)
  then show ?thesis using assms by auto
next
  case None
  then have "vals t k = []" using assms(1,3) lookup_law by (auto split: list.splits)
  then show ?thesis using emplace_law[OF assms(1), of k v] assms None lookup_law by auto
qed

end

interpretation htab: keyed_store "ht_ok hash" "ht_vals hash" "ht_lookup hash" "ht_emplace hash" "ht_remove hash"
  for hash :: "'k \<Rightarrow> u64"
proof
  fix t :: "('k, 'v) hash_table" and k v
  assume ok: "ht_ok hash t"
  let ?i = "unat (hash k mod table_size t)"
  have i: "?i < length (table t)" and nz: "table_size t \<noteq> 0"
    using ok bucket_in[of t hash k] by (auto simp: ht_ok_def)
  have bk: "get_hash_bucket hash t k = Some ?i" using nz by (simp add: get_hash_bucket_def)
  show "ht_lookup hash t k = Some (case ht_vals hash t k of [] \<Rightarrow> None | v # _ \<Rightarrow> Some v)"
    using i bk by (simp add: ht_lookup_def ht_vals_def bucket_find_vals)
  let ?t = "t\<lparr>table := (table t)[?i := (k, v) # table t ! ?i], num_stored := num_stored t + 1\<rparr>"
  have "ht_emplace hash t k v = Some ?t" using i bk by (simp add: ht_emplace_def)
  moreover have "ht_ok hash ?t"
    using ok i length_concat_update[OF i, of "(k, v) # table t ! ?i"] by (simp add: ht_ok_def ht_for_each_def)
  moreover have "ht_vals hash ?t = (ht_vals hash t)(k := v # ht_vals hash t k)"
    using i by (intro ext) (auto simp: ht_vals_def nth_list_update)
  ultimately show "\<exists>t'. ht_emplace hash t k v = Some t' \<and> ht_ok hash t' \<and>
      ht_vals hash t' = (ht_vals hash t)(k := v # ht_vals hash t k)" by blast
  show "\<exists>t'. ht_remove hash t k = Some t' \<and> ht_ok hash t' \<and>
      ht_vals hash t' = (ht_vals hash t)(k := tl (ht_vals hash t k))"
  proof (cases "bucket_remove k (table t ! ?i)")
    case None
    then show ?thesis
      using i bk ok bucket_remove_None[OF None] by (auto simp: ht_remove_def ht_vals_def)
  next
    case (Some b)
    let ?u = "t\<lparr>table := (table t)[?i := b], num_stored := num_stored t - 1\<rparr>"
    obtain as w bs where rv: "table t ! ?i = as @ (k, w) # bs" "b = as @ bs" "filter (\<lambda>e. fst e = k) as = []"
      using bucket_remove_Some[OF Some] by blast
    have "ht_remove hash t k = Some ?u" using i bk Some by (simp add: ht_remove_def)
    moreover have "length (concat (table t)) = Suc (length (concat ((table t)[?i := b])))"
      using length_concat_update[OF i, of b] rv by simp
    then have "ht_ok hash ?u" using ok by (simp add: ht_ok_def ht_for_each_def)
    moreover have "ht_vals hash ?u = (ht_vals hash t)(k := tl (ht_vals hash t k))"
      using i rv by (intro ext) (auto simp: ht_vals_def nth_list_update)
    ultimately show ?thesis by blast
  qed
qed

text \<open>
  The hash table is a map for any hash function: after \<^verbatim>\<open>emplace(k, v)\<close> a lookup of \<open>k\<close> finds
  \<open>v\<close> and every other key finds what it found before; after \<^verbatim>\<open>remove(k)\<close> of a key stored once the
  key is gone and the others are untouched; and \<^verbatim>\<open>num_stored\<close> counts the entries.
\<close>

theorem hash_table_is_map:
  assumes "ht_ok hash t" "length (ht_vals hash t k) \<le> 1"
  shows "(\<exists>t'. ht_emplace hash t k v = Some t' \<and> ht_ok hash t' \<and>
           (\<forall>j. ht_lookup hash t' j = (if j = k then Some (Some v) else ht_lookup hash t j))) \<and>
         (\<exists>t'. ht_remove hash t k = Some t' \<and> ht_ok hash t' \<and>
           (\<forall>j. ht_lookup hash t' j = (if j = k then Some None else ht_lookup hash t j)))"
proof -
  obtain t1 where "ht_emplace hash t k v = Some t1" using htab.emplace_law[OF assms(1)] by blast
  moreover obtain t2 where "ht_remove hash t k = Some t2" using htab.remove_law[OF assms(1)] by blast
  ultimately show ?thesis
    using htab.lookup_emplace[OF assms(1)] htab.lookup_remove_unique[OF assms(1) _ assms(2)] by blast
qed

theorem hash_table_is_map_witness:
  "ht_ok hash_u64 (hash_table_new 256 :: (u64, nat) hash_table) \<and>
   (\<exists>t'. ht_emplace hash_u64 (hash_table_new 256) 0x1000 (7 :: nat) = Some t' \<and>
      ht_lookup hash_u64 t' 0x1000 = Some (Some 7))"
proof -
  have ok: "ht_ok hash_u64 (hash_table_new 256 :: (u64, nat) hash_table)"
    by (simp add: ht_ok_def hash_table_new_def ht_for_each_def)
  have v: "length (ht_vals hash_u64 (hash_table_new 256 :: (u64, nat) hash_table) 0x1000) \<le> 1"
    by (simp add: ht_vals_def hash_table_new_def unat_mod)
  show ?thesis using ok hash_table_is_map[OF ok v, of 7] by auto
qed

end
