(* ===== verification/Klib_Time.thy ===== *)
theory Klib_Time
  imports Klib_Algorithm
begin

text \<open>
  \<^verbatim>\<open>klib/timespec.hpp\<close> and \<^verbatim>\<open>sched/time.cpp\<close>: the \<^verbatim>\<open>TimeSpec\<close> arithmetic, the clocks, the
  timers that \<^verbatim>\<open>update_time\<close> ticks, sleeping, and the interval timer of a process. The two signed
  64-bit fields of a \<^verbatim>\<open>TimeSpec\<close> are integers: signed overflow has no defined result in C++, and
  no clock comes near it. A timer is named by a number; \<open>armed_timers\<close> is the sequence that the
  ring \<^verbatim>\<open>armed_timers_list\<close> represents (\<open>Klib_List\<close> proves the ring operations are the sequence
  operations used here), \<open>thread_timers\<close> that of the current thread. What the tick interrupt does
  outside this component, triggering an event and running a callback, is returned as a list of
  \<open>time_effect\<close>s in the order it happens.
\<close>

section \<open>Time values\<close>

record timespec =
  seconds :: int
  nanoseconds :: int

record timeval =
  tv_sec :: int
  tv_usec :: int

definition ts_zero :: timespec where
  "ts_zero = \<lparr>seconds = 0, nanoseconds = 0\<rparr>"

definition from_seconds :: "u64 \<Rightarrow> timespec" where
  "from_seconds s = \<lparr>seconds = sint s, nanoseconds = 0\<rparr>"

definition from_microseconds :: "u64 \<Rightarrow> timespec" where
  "from_microseconds us = \<lparr>seconds = sint (us div 1000000), nanoseconds = sint ((us mod 1000000) * 1000)\<rparr>"

definition from_timeval :: "timeval \<Rightarrow> timespec" where
  "from_timeval v = \<lparr>seconds = tv_sec v, nanoseconds = tv_usec v * 1000\<rparr>"

text \<open>C++ division truncates towards zero.\<close>

definition to_timeval :: "timespec \<Rightarrow> timeval" where
  "to_timeval t = \<lparr>tv_sec = seconds t,
     tv_usec = (if nanoseconds t < 0 then - (- nanoseconds t div 1000) else nanoseconds t div 1000)\<rparr>"

definition ts_is_zero :: "timespec \<Rightarrow> bool" where
  "ts_is_zero t \<longleftrightarrow> seconds t = 0 \<and> nanoseconds t = 0"

definition ts_add :: "timespec \<Rightarrow> timespec \<Rightarrow> timespec" where
  "ts_add this rhs =
     (let this1 = (if nanoseconds this + nanoseconds rhs > 999999999
                   then (let remaining = (nanoseconds this + nanoseconds rhs) - 1000000000
                         in \<lparr>seconds = seconds this + 1, nanoseconds = remaining\<rparr>)
                   else this\<lparr>nanoseconds := nanoseconds this + nanoseconds rhs\<rparr>)
      in this1\<lparr>seconds := seconds this1 + seconds rhs\<rparr>)"

definition ts_sub_seconds :: "timespec \<Rightarrow> timespec \<Rightarrow> timespec" where
  "ts_sub_seconds this rhs =
     (if seconds rhs > seconds this then ts_zero
      else this\<lparr>seconds := seconds this - seconds rhs\<rparr>)"

definition ts_sub :: "timespec \<Rightarrow> timespec \<Rightarrow> timespec" where
  "ts_sub this rhs =
     (if nanoseconds rhs > nanoseconds this
      then (let diff = nanoseconds rhs - nanoseconds this
            in if seconds this = 0 then ts_zero
               else ts_sub_seconds \<lparr>seconds = seconds this - 1, nanoseconds = 999999999 - diff\<rparr> rhs)
      else ts_sub_seconds (this\<lparr>nanoseconds := nanoseconds this - nanoseconds rhs\<rparr>) rhs)"

section \<open>Timers and clocks\<close>

record 'cb timer =
  remaining :: timespec
  interval :: timespec
  callback :: "'cb option"
  fired :: bool

definition timer_new :: "'cb timer" where
  "timer_new = \<lparr>remaining = ts_zero, interval = ts_zero, callback = None, fired = False\<rparr>"

record 'cb time_state =
  monotonic_clock :: timespec
  realtime_clock :: timespec
  armed_timers :: "nat list"
  thread_timers :: "nat list"
  timers :: "nat \<Rightarrow> 'cb timer"

datatype 'cb time_effect = Trigger nat | Callback 'cb

text \<open>
  \<^verbatim>\<open>Timer::arm\<close>. Adding a link that is already in a ring breaks both rings; that is \<open>None\<close>.
\<close>

definition arm :: "nat \<Rightarrow> timespec \<Rightarrow> 'cb option \<Rightarrow> 'cb time_state \<Rightarrow> 'cb time_state option" where
  "arm i time cb st =
     (if i \<in> set (thread_timers st) \<or> i \<in> set (armed_timers st) then None
      else let t = (timers st i)\<lparr>remaining := time, fired := False\<rparr>;
               t = (case cb of None \<Rightarrow> t | Some c \<Rightarrow> t\<lparr>callback := Some c\<rparr>)
           in Some (st\<lparr>timers := (timers st)(i := t),
                       thread_timers := thread_timers st @ [i],
                       armed_timers := armed_timers st @ [i]\<rparr>))"

definition disarm :: "nat \<Rightarrow> 'cb time_state \<Rightarrow> 'cb time_state" where
  "disarm i st =
     st\<lparr>timers := (timers st)(i := (timers st i)\<lparr>remaining := ts_zero, interval := ts_zero, callback := None\<rparr>),
        armed_timers := remove1 i (armed_timers st),
        thread_timers := remove1 i (thread_timers st)\<rparr>"

definition init_time :: "u64 option \<Rightarrow> 'cb time_state \<Rightarrow> 'cb time_state" where
  "init_time boot_time_res st =
     (let epoch = (case boot_time_res of None \<Rightarrow> 0 | Some t \<Rightarrow> t)
      in st\<lparr>armed_timers := [], monotonic_clock := from_seconds 0, realtime_clock := from_seconds epoch\<rparr>)"

text \<open>The body of the loop of \<^verbatim>\<open>update_time\<close>.\<close>

definition tick_timer :: "timespec \<Rightarrow> nat \<Rightarrow> 'cb time_state \<Rightarrow> 'cb time_state \<times> 'cb time_effect list" where
  "tick_timer iv i st =
     (let t = timers st i in
      if fired t then (st, [])
      else let t = t\<lparr>remaining := ts_sub (remaining t) iv\<rparr> in
      if \<not> ts_is_zero (remaining t) then (st\<lparr>timers := (timers st)(i := t)\<rparr>, [])
      else let cbs = (case callback t of None \<Rightarrow> [] | Some c \<Rightarrow> [Callback c]) in
      if ts_is_zero (interval t)
      then (st\<lparr>timers := (timers st)(i := t\<lparr>fired := True\<rparr>),
               armed_timers := remove1 i (armed_timers st)\<rparr>, Trigger i # cbs)
      else (st\<lparr>timers := (timers st)(i := t\<lparr>remaining := interval t\<rparr>)\<rparr>, cbs))"

fun tick_timers :: "timespec \<Rightarrow> nat list \<Rightarrow> 'cb time_state \<Rightarrow> 'cb time_state \<times> 'cb time_effect list" where
  "tick_timers iv [] st = (st, [])"
| "tick_timers iv (i # is) st =
     (let (st1, es1) = tick_timer iv i st; (st2, es2) = tick_timers iv is st1 in (st2, es1 @ es2))"

definition update_time :: "timespec \<Rightarrow> 'cb time_state \<Rightarrow> 'cb time_state \<times> 'cb time_effect list" where
  "update_time iv st =
     (let st = st\<lparr>monotonic_clock := ts_add (monotonic_clock st) iv,
                  realtime_clock := ts_add (realtime_clock st) iv\<rparr>
      in tick_timers iv (armed_timers st) st)"

text \<open>The clock identifiers of Linux.\<close>

definition CLOCK_REALTIME :: int where "CLOCK_REALTIME = 0"
definition CLOCK_MONOTONIC :: int where "CLOCK_MONOTONIC = 1"
definition CLOCK_MONOTONIC_RAW :: int where "CLOCK_MONOTONIC_RAW = 4"
definition CLOCK_MONOTONIC_COARSE :: int where "CLOCK_MONOTONIC_COARSE = 6"
definition CLOCK_BOOTTIME :: int where "CLOCK_BOOTTIME = 7"

lemmas clock_ids = CLOCK_REALTIME_def CLOCK_MONOTONIC_def CLOCK_MONOTONIC_RAW_def
  CLOCK_MONOTONIC_COARSE_def CLOCK_BOOTTIME_def

text \<open>\<open>us\<close> is what the APIC timer reports as the microseconds since its last interrupt.\<close>

definition get_clock :: "u64 \<Rightarrow> int \<Rightarrow> bool \<Rightarrow> 'cb time_state \<Rightarrow> timespec" where
  "get_clock us clock_id imprecise st =
     (let current_interval = (if imprecise then ts_zero else from_microseconds us) in
      if clock_id = CLOCK_BOOTTIME \<or> clock_id = CLOCK_MONOTONIC then ts_add (monotonic_clock st) current_interval
      else if clock_id = CLOCK_REALTIME then ts_add (realtime_clock st) current_interval
      else ts_zero)"

definition syscall_time :: "u64 \<Rightarrow> 'cb time_state \<Rightarrow> int" where
  "syscall_time us st = seconds (get_clock us CLOCK_REALTIME False st)"

definition syscall_gettimeofday :: "u64 \<Rightarrow> 'cb time_state \<Rightarrow> timeval" where
  "syscall_gettimeofday us st = to_timeval (get_clock us CLOCK_REALTIME False st)"

definition normal_clock_id :: "int \<Rightarrow> int res" where
  "normal_clock_id clock_id =
     (let clock_id = (if clock_id = CLOCK_MONOTONIC_COARSE \<or> clock_id = CLOCK_MONOTONIC_RAW \<or>
                         clock_id = CLOCK_BOOTTIME then CLOCK_MONOTONIC else clock_id)
      in if clock_id \<noteq> CLOCK_REALTIME \<and> clock_id \<noteq> CLOCK_MONOTONIC then Inl EINVAL else Inr clock_id)"

definition syscall_clock_gettime :: "u64 \<Rightarrow> int \<Rightarrow> 'cb time_state \<Rightarrow> timespec res" where
  "syscall_clock_gettime us clock_id st =
     (case normal_clock_id clock_id of Inl e \<Rightarrow> Inl e
      | Inr clock_id \<Rightarrow> Inr (get_clock us clock_id False st))"

definition syscall_clock_getres :: "int \<Rightarrow> timespec res" where
  "syscall_clock_getres clock_id =
     (case normal_clock_id clock_id of Inl e \<Rightarrow> Inl e | Inr _ \<Rightarrow> Inr (from_microseconds 10))"

section \<open>Sleeping and the interval timer\<close>

text \<open>
  \<^verbatim>\<open>timer.event.wait()\<close> as the sleeping thread sees it: the ticks that happen meanwhile are given
  as a list of intervals; the wait ends successfully with the tick that fires the timer, and it is
  interrupted (\<open>True\<close>) by a signal after the last of them otherwise.
\<close>

fun sleep_wait :: "timespec list \<Rightarrow> nat \<Rightarrow> 'cb time_state \<Rightarrow> bool \<times> 'cb time_state" where
  "sleep_wait [] i st = (\<not> fired (timers st i), st)"
| "sleep_wait (iv # ivs) i st =
     (if fired (timers st i) then (False, st) else sleep_wait ivs i (fst (update_time iv st)))"

text \<open>
  \<^verbatim>\<open>clock_nanosleep_impl\<close> with a timer named \<open>i\<close> on the stack: the result, the value it stores to
  \<^verbatim>\<open>*remaining\<close> and the state it leaves. The failed \<^verbatim>\<open>ASSERT(timer.fired)\<close> is \<open>None\<close>.
\<close>

definition clock_nanosleep_impl ::
  "timespec list \<Rightarrow> nat \<Rightarrow> timespec \<Rightarrow> 'cb time_state \<Rightarrow> (unit res \<times> timespec \<times> 'cb time_state) option" where
  "clock_nanosleep_impl ticks i duration st =
     (case arm i duration None (st\<lparr>timers := (timers st)(i := timer_new)\<rparr>) of
        None \<Rightarrow> None
      | Some st1 \<Rightarrow>
          let (interrupted, st2) = sleep_wait ticks i st1;
              st3 = disarm i st2;
              rem = remaining (timers st3 i)
          in if interrupted then Some (Inl EINTR, rem, st3)
             else if fired (timers st3 i) then Some (Inr (), rem, st3) else None)"

record itimerval =
  it_interval :: timeval
  it_value :: timeval

definition ITIMER_REAL :: int where "ITIMER_REAL = 0"

definition itimer_current :: "nat \<Rightarrow> 'cb time_state \<Rightarrow> itimerval" where
  "itimer_current i st =
     \<lparr>it_interval = to_timeval (interval (timers st i)), it_value = to_timeval (remaining (timers st i))\<rparr>"

definition syscall_getitimer :: "nat \<Rightarrow> int \<Rightarrow> 'cb time_state \<Rightarrow> itimerval res" where
  "syscall_getitimer i which st =
     (if which \<noteq> ITIMER_REAL then Inl EINVAL else Inr (itimer_current i st))"

definition itimerval_zero :: itimerval where
  "itimerval_zero = \<lparr>it_interval = \<lparr>tv_sec = 0, tv_usec = 0\<rparr>, it_value = \<lparr>tv_sec = 0, tv_usec = 0\<rparr>\<rparr>"

text \<open>
  \<^verbatim>\<open>setitimer_impl\<close> on the process whose \<^verbatim>\<open>itimer_real\<close> is timer \<open>i\<close> and whose callback, which
  sends \<^verbatim>\<open>SIGALRM\<close> to it, is \<open>sigalrm\<close>: the old value and the new state.
\<close>

definition setitimer_impl ::
  "nat \<Rightarrow> 'cb \<Rightarrow> int \<Rightarrow> itimerval option \<Rightarrow> 'cb time_state \<Rightarrow> (itimerval \<times> 'cb time_state) res option" where
  "setitimer_impl i sigalrm which new_value st =
     (if which \<noteq> ITIMER_REAL then Some (Inl EINVAL)
      else if (case new_value of None \<Rightarrow> False
               | Some v \<Rightarrow> tv_usec (it_value v) > 999999 \<or> tv_usec (it_interval v) > 999999)
      then Some (Inl EINVAL)
      else let new_timerval = (case new_value of None \<Rightarrow> itimerval_zero | Some v \<Rightarrow> v);
               timer_value = from_timeval (it_value new_timerval);
               timer_interval = from_timeval (it_interval new_timerval);
               old_value = itimer_current i st;
               st1 = disarm i st
           in if ts_is_zero timer_value then Some (Inr (old_value, st1))
              else let st2 = st1\<lparr>timers := (timers st1)(i := (timers st1 i)\<lparr>interval := timer_interval\<rparr>)\<rparr>
                   in case arm i timer_value (Some sigalrm) st2 of
                        None \<Rightarrow> None
                      | Some st3 \<Rightarrow> Some (Inr (old_value, st3)))"

definition syscall_alarm :: "nat \<Rightarrow> 'cb \<Rightarrow> u32 \<Rightarrow> 'cb time_state \<Rightarrow> (int \<times> 'cb time_state) option" where
  "syscall_alarm i sigalrm secs st =
     (case setitimer_impl i sigalrm ITIMER_REAL
             (Some (itimerval_zero\<lparr>it_value := \<lparr>tv_sec = uint secs, tv_usec = 0\<rparr>\<rparr>)) st of
        Some (Inr (old_value, st')) \<Rightarrow> Some (tv_sec (it_value old_value), st')
      | _ \<Rightarrow> None)"

section \<open>Arithmetic of normalised times\<close>

definition ts_norm :: "timespec \<Rightarrow> bool" where
  "ts_norm t \<longleftrightarrow> 0 \<le> seconds t \<and> 0 \<le> nanoseconds t \<and> nanoseconds t \<le> 999999999"

definition ts_ns :: "timespec \<Rightarrow> int" where
  "ts_ns t = seconds t * 1000000000 + nanoseconds t"

lemma ts_norm_zero [simp]: "ts_norm ts_zero" and ts_ns_zero [simp]: "ts_ns ts_zero = 0"
  by (simp_all add: ts_norm_def ts_ns_def ts_zero_def)

lemma ts_is_zero_ns:
  assumes "ts_norm t"
  shows "ts_is_zero t \<longleftrightarrow> ts_ns t = 0"
proof -
  have "0 \<le> seconds t * 1000000000" "0 \<le> nanoseconds t" using assms by (auto simp: ts_norm_def)
  then show ?thesis unfolding ts_ns_def ts_is_zero_def by linarith
qed

lemma ts_ns_nonneg: "ts_norm t \<Longrightarrow> 0 \<le> ts_ns t"
  by (simp add: ts_norm_def ts_ns_def)

lemma ts_add_ns:
  assumes "ts_norm a" "ts_norm b"
  shows "ts_norm (ts_add a b) \<and> ts_ns (ts_add a b) = ts_ns a + ts_ns b"
  using assms by (auto simp: ts_norm_def ts_ns_def ts_add_def Let_def)

lemma ts_sub_ns:
  assumes "ts_norm a" "ts_norm b"
  shows "ts_norm (ts_sub a b) \<and>
         ts_ns (ts_sub a b) = max 0 (ts_ns a - ts_ns b - (if nanoseconds a < nanoseconds b then 1 else 0))"
proof (cases "nanoseconds a < nanoseconds b")
  case False
  then show ?thesis using assms
    by (auto simp: ts_norm_def ts_ns_def ts_sub_def ts_sub_seconds_def ts_zero_def max_def algebra_simps)
next
  case borrow: True
  show ?thesis
  proof (cases "seconds a - 1 < seconds b")
    case True
    then have "ts_ns a - ts_ns b - 1 \<le> 0" using assms borrow by (simp add: ts_norm_def ts_ns_def)
    moreover have "ts_sub a b = ts_zero"
      using borrow True by (simp add: ts_sub_def ts_sub_seconds_def Let_def)
    ultimately show ?thesis using borrow by simp
  next
    case False
    then have "ts_sub a b = \<lparr>seconds = seconds a - 1 - seconds b,
        nanoseconds = 999999999 - (nanoseconds b - nanoseconds a)\<rparr>"
      using borrow assms by (simp add: ts_sub_def ts_sub_seconds_def Let_def ts_norm_def)
    then show ?thesis using borrow assms False by (simp add: ts_norm_def ts_ns_def max_def algebra_simps)
  qed
qed

section \<open>One tick of the timers\<close>

definition timer_ticked :: "timespec \<Rightarrow> 'cb timer \<Rightarrow> 'cb timer" where
  "timer_ticked iv t =
     (if fired t then t
      else let r = ts_sub (remaining t) iv in
      if \<not> ts_is_zero r then t\<lparr>remaining := r\<rparr>
      else if ts_is_zero (interval t) then t\<lparr>remaining := r, fired := True\<rparr>
      else t\<lparr>remaining := interval t\<rparr>)"

definition time_ok :: "'cb time_state \<Rightarrow> bool" where
  "time_ok st \<longleftrightarrow> distinct (armed_timers st) \<and> distinct (thread_timers st) \<and>
     ts_norm (monotonic_clock st) \<and> ts_norm (realtime_clock st) \<and>
     (\<forall>i\<in>set (armed_timers st). \<not> fired (timers st i) \<and> ts_norm (remaining (timers st i)) \<and>
        ts_norm (interval (timers st i)))"

lemma tick_timer_spec:
  "timers (fst (tick_timer iv i st)) = (timers st)(i := timer_ticked iv (timers st i))"
  "armed_timers (fst (tick_timer iv i st)) =
     (if \<not> fired (timers st i) \<and> fired (timer_ticked iv (timers st i))
      then remove1 i (armed_timers st) else armed_timers st)"
  "thread_timers (fst (tick_timer iv i st)) = thread_timers st"
  "monotonic_clock (fst (tick_timer iv i st)) = monotonic_clock st"
  "realtime_clock (fst (tick_timer iv i st)) = realtime_clock st"
  by (auto simp: tick_timer_def timer_ticked_def Let_def fun_upd_idem)

lemma tick_timers_Cons:
  "fst (tick_timers iv (i # is) st) = fst (tick_timers iv is (fst (tick_timer iv i st)))"
  by (simp add: case_prod_beta Let_def)

lemma tick_timers_spec:
  assumes "distinct is" "distinct (armed_timers st)"
  shows "timers (fst (tick_timers iv is st)) =
           (\<lambda>j. if j \<in> set is then timer_ticked iv (timers st j) else timers st j) \<and>
         armed_timers (fst (tick_timers iv is st)) =
           filter (\<lambda>j. \<not> (j \<in> set is \<and> \<not> fired (timers st j) \<and> fired (timer_ticked iv (timers st j))))
             (armed_timers st) \<and>
         thread_timers (fst (tick_timers iv is st)) = thread_timers st \<and>
         monotonic_clock (fst (tick_timers iv is st)) = monotonic_clock st \<and>
         realtime_clock (fst (tick_timers iv is st)) = realtime_clock st"
  using assms
proof (induction "is" arbitrary: st)
  case (Cons i "is")
  let ?st = "fst (tick_timer iv i st)"
  have d: "distinct (armed_timers ?st)" using Cons.prems by (simp add: tick_timer_spec distinct_remove1)
  have i: "i \<notin> set is" "distinct is" using Cons.prems by auto
  show ?case using Cons.IH[OF i(2) d] i Cons.prems(2) unfolding tick_timers_Cons
    by (auto simp: tick_timer_spec fun_eq_iff distinct_remove1_removeAll removeAll_filter_not_eq
        intro!: filter_cong)
qed simp_all

lemma timer_ticked_norm:
  assumes "ts_norm (remaining t)" "ts_norm (interval t)" "ts_norm iv"
  shows "ts_norm (remaining (timer_ticked iv t)) \<and> interval (timer_ticked iv t) = interval t"
  using assms ts_sub_ns[of "remaining t" iv] by (simp add: timer_ticked_def Let_def)

lemma update_time_spec:
  assumes "time_ok st" "ts_norm iv"
  defines "st' \<equiv> fst (update_time iv st)"
  shows "timers st' = (\<lambda>j. if j \<in> set (armed_timers st) then timer_ticked iv (timers st j) else timers st j)"
    and "armed_timers st' = filter (\<lambda>j. \<not> fired (timers st' j)) (armed_timers st)"
    and "thread_timers st' = thread_timers st"
    and "monotonic_clock st' = ts_add (monotonic_clock st) iv"
    and "realtime_clock st' = ts_add (realtime_clock st) iv"
    and "time_ok st'"
proof -
  let ?st = "st\<lparr>monotonic_clock := ts_add (monotonic_clock st) iv,
                  realtime_clock := ts_add (realtime_clock st) iv\<rparr>"
  have st': "st' = fst (tick_timers iv (armed_timers ?st) ?st)" by (simp add: st'_def update_time_def)
  have d: "distinct (armed_timers ?st)" using assms(1) by (simp add: time_ok_def)
  note spec = tick_timers_spec[OF d d, of iv, folded st']
  show t: "timers st' = (\<lambda>j. if j \<in> set (armed_timers st) then timer_ticked iv (timers st j) else timers st j)"
    using spec by (auto simp: fun_eq_iff)
  show a: "armed_timers st' = filter (\<lambda>j. \<not> fired (timers st' j)) (armed_timers st)"
    using spec assms(1) t by (auto simp: time_ok_def intro!: filter_cong)
  show th: "thread_timers st' = thread_timers st" and m: "monotonic_clock st' = ts_add (monotonic_clock st) iv"
    and r: "realtime_clock st' = ts_add (realtime_clock st) iv" using spec by simp_all
  show "time_ok st'"
    using assms(1,2) t a th m r ts_add_ns[of _ iv] timer_ticked_norm[OF _ _ assms(2)]
    by (auto simp: time_ok_def)
qed

section \<open>Properties\<close>

text \<open>
  Adding two normalised times gives their normalised sum, exactly. Subtracting saturates at
  zero and is exact as long as no nanosecond has to be borrowed; on a borrow the result is one
  nanosecond short, because \<^verbatim>\<open>-=\<close> completes to 999'999'999 instead of 1'000'000'000.
\<close>

theorem timespec_add_sub:
  assumes "ts_norm a" "ts_norm b"
  shows "ts_norm (ts_add a b) \<and> ts_ns (ts_add a b) = ts_ns a + ts_ns b \<and> ts_norm (ts_sub a b) \<and>
         ts_ns (ts_sub a b) = max 0 (ts_ns a - ts_ns b - (if nanoseconds a < nanoseconds b then 1 else 0))"
  using ts_add_ns[OF assms] ts_sub_ns[OF assms] by simp

theorem timespec_add_sub_witness:
  "ts_norm \<lparr>seconds = 2, nanoseconds = 1\<rparr> \<and> ts_norm \<lparr>seconds = 0, nanoseconds = 2\<rparr> \<and>
   ts_ns (ts_sub \<lparr>seconds = 2, nanoseconds = 1\<rparr> \<lparr>seconds = 0, nanoseconds = 2\<rparr>) = 1999999998"
  using timespec_add_sub[of "\<lparr>seconds = 2, nanoseconds = 1\<rparr>" "\<lparr>seconds = 0, nanoseconds = 2\<rparr>"]
  by (simp add: ts_norm_def ts_ns_def)

abbreviation ticked :: "nat \<Rightarrow> timespec \<Rightarrow> 'cb time_state \<Rightarrow> 'cb time_state" where
  "ticked k iv st \<equiv> ((\<lambda>st. fst (update_time iv st)) ^^ k) st"

lemma ticked_ok:
  assumes "time_ok st" "ts_norm iv"
  shows "time_ok (ticked k iv st) \<and>
         ts_ns (monotonic_clock (ticked k iv st)) = ts_ns (monotonic_clock st) + int k * ts_ns iv"
proof (induction k)
  case (Suc k)
  then have ok: "time_ok (ticked k iv st)" by simp
  then have "ts_norm (monotonic_clock (ticked k iv st))" by (simp add: time_ok_def)
  then show ?case using Suc update_time_spec[OF ok assms(2)] ts_add_ns[OF _ assms(2)]
    by (simp add: algebra_simps)
qed (use assms in simp)

text \<open>A one-shot timer after a tick: it has fired exactly when its time was up.\<close>

lemma one_shot_ticked:
  assumes t: "\<not> fired t" "ts_is_zero (interval t)" and n: "ts_norm (remaining t)" "ts_norm iv"
  shows "fired (timer_ticked iv t) \<Longrightarrow> ts_ns (remaining t) \<le> ts_ns iv + 1"
    and "\<not> fired (timer_ticked iv t) \<Longrightarrow>
           ts_ns (remaining t) - ts_ns iv - 1 \<le> ts_ns (remaining (timer_ticked iv t)) \<and>
           ts_ns (remaining (timer_ticked iv t)) \<le> ts_ns (remaining t) - ts_ns iv \<and>
           0 < ts_ns (remaining (timer_ticked iv t))"
proof -
  note sub = ts_sub_ns[OF n]
  then have z: "ts_is_zero (ts_sub (remaining t) iv) \<longleftrightarrow> ts_ns (ts_sub (remaining t) iv) = 0"
    using ts_is_zero_ns by blast
  show "fired (timer_ticked iv t) \<Longrightarrow> ts_ns (remaining t) \<le> ts_ns iv + 1"
    using t sub z by (auto simp: timer_ticked_def Let_def split: if_splits)
  show "\<not> fired (timer_ticked iv t) \<Longrightarrow>
           ts_ns (remaining t) - ts_ns iv - 1 \<le> ts_ns (remaining (timer_ticked iv t)) \<and>
           ts_ns (remaining (timer_ticked iv t)) \<le> ts_ns (remaining t) - ts_ns iv \<and>
           0 < ts_ns (remaining (timer_ticked iv t))"
    using t sub z by (auto simp: timer_ticked_def Let_def max_def split: if_splits)
qed

text \<open>After \<open>k\<close> ticks of a one-shot timer with \<open>r\<close> nanoseconds to go.\<close>

lemma one_shot_after:
  assumes ok: "time_ok st" and i: "i \<in> set (armed_timers st)" "ts_is_zero (interval (timers st i))"
    and iv: "ts_norm iv" and r: "r = ts_ns (remaining (timers st i))"
  shows "if fired (timers (ticked k iv st) i)
         then i \<notin> set (armed_timers (ticked k iv st)) \<and> 0 < k \<and> r \<le> int k * (ts_ns iv + 1)
         else i \<in> set (armed_timers (ticked k iv st)) \<and> interval (timers (ticked k iv st) i) = interval (timers st i) \<and>
              (k = 0 \<or> int k * ts_ns iv < r) \<and>
              r - int k * (ts_ns iv + 1) \<le> ts_ns (remaining (timers (ticked k iv st) i)) \<and>
              ts_ns (remaining (timers (ticked k iv st) i)) \<le> r - int k * ts_ns iv"
proof (induction k)
  case 0
  then show ?case using ok i r by (auto simp: time_ok_def)
next
  case (Suc k)
  let ?s = "ticked k iv st" and ?s' = "ticked (Suc k) iv st"
  have ok': "time_ok ?s" using ticked_ok[OF ok iv] by blast
  note up = update_time_spec[OF ok' iv]
  show ?case
  proof (cases "fired (timers ?s i)")
    case True
    then have "i \<notin> set (armed_timers ?s)" "r \<le> int k * (ts_ns iv + 1)" using Suc by auto
    moreover have "int k * (ts_ns iv + 1) \<le> int (Suc k) * (ts_ns iv + 1)"
      using ts_ns_nonneg[OF iv] by (simp add: mult_right_mono)
    ultimately show ?thesis using True up(1,2) by auto
  next
    case False
    then have IH: "i \<in> set (armed_timers ?s)" "ts_is_zero (interval (timers ?s i))"
      "r - int k * (ts_ns iv + 1) \<le> ts_ns (remaining (timers ?s i))"
      "ts_ns (remaining (timers ?s i)) \<le> r - int k * ts_ns iv"
      "interval (timers ?s i) = interval (timers st i)" using Suc i by auto
    then have n: "ts_norm (remaining (timers ?s i))" "ts_norm (interval (timers ?s i))"
      using ok' by (auto simp: time_ok_def)
    have t: "timers ?s' i = timer_ticked iv (timers ?s i)" using IH(1) up(1) by simp
    have a: "i \<in> set (armed_timers ?s') \<longleftrightarrow> \<not> fired (timers ?s' i)" using IH(1) up(1,2) by auto
    have e: "int (Suc k) * x = int k * x + x" for x by (simp add: algebra_simps)
    show ?thesis
      using one_shot_ticked[OF False IH(2) n(1) iv] timer_ticked_norm[OF n iv] IH a
      unfolding t e by auto
  qed
qed

text \<open>
  C31: A one-shot timer fires on time. Under ticks of a fixed length it has not fired while the
  ticked time is less than its duration by more than the one nanosecond per tick that \<^verbatim>\<open>-=\<close> may
  lose, it has fired once the ticked time reaches its duration, and it leaves the list of armed
  timers exactly when it fires; the monotonic clock has advanced by exactly the ticked time.
\<close>

theorem timer_fires_on_time:
  assumes "time_ok st" "i \<in> set (armed_timers st)" "ts_is_zero (interval (timers st i))"
    and "ts_norm iv" "0 < k"
  defines "r \<equiv> ts_ns (remaining (timers st i))"
  shows "(r \<le> int k * ts_ns iv \<longrightarrow> fired (timers (ticked k iv st) i)) \<and>
         (fired (timers (ticked k iv st) i) \<longrightarrow> r \<le> int k * (ts_ns iv + 1)) \<and>
         (i \<in> set (armed_timers (ticked k iv st)) \<longleftrightarrow> \<not> fired (timers (ticked k iv st) i)) \<and>
         ts_ns (monotonic_clock (ticked k iv st)) = ts_ns (monotonic_clock st) + int k * ts_ns iv"
  using one_shot_after[OF assms(1-4) r_def[THEN meta_eq_to_obj_eq], of k] assms(5) ticked_ok[OF assms(1,4)]
  by (simp split: if_splits)

definition example_time :: "nat time_state" where
  "example_time = \<lparr>monotonic_clock = ts_zero, realtime_clock = ts_zero, armed_timers = [3, 7],
     thread_timers = [7], timers = (\<lambda>_. timer_new\<lparr>remaining := \<lparr>seconds = 0, nanoseconds = 25\<rparr>\<rparr>)\<rparr>"

theorem timer_fires_on_time_witness:
  "time_ok example_time \<and> 7 \<in> set (armed_timers example_time) \<and>
   fired (timers (ticked 3 \<lparr>seconds = 0, nanoseconds = 10\<rparr> example_time) 7)"
proof -
  have ok: "time_ok example_time"
    by (simp add: example_time_def time_ok_def ts_norm_def timer_new_def ts_zero_def)
  have m: "7 \<in> set (armed_timers example_time)" by (simp add: example_time_def)
  have z: "ts_is_zero (interval (timers example_time 7))"
    by (simp add: example_time_def timer_new_def ts_is_zero_def ts_zero_def)
  have n: "ts_norm \<lparr>seconds = 0, nanoseconds = 10\<rparr>" by (simp add: ts_norm_def)
  show ?thesis using ok m timer_fires_on_time[OF ok m z n, of 3]
    by (simp add: example_time_def timer_new_def ts_ns_def)
qed

lemma arm_spec:
  assumes ok: "time_ok st" and i: "i \<notin> set (armed_timers st)" "i \<notin> set (thread_timers st)"
    and n: "ts_norm time" "ts_norm (interval (timers st i))"
  shows "\<exists>st'. arm i time cb st = Some st' \<and> time_ok st' \<and> armed_timers st' = armed_timers st @ [i] \<and>
           thread_timers st' = thread_timers st @ [i] \<and> monotonic_clock st' = monotonic_clock st \<and>
           remaining (timers st' i) = time \<and> interval (timers st' i) = interval (timers st i) \<and>
           \<not> fired (timers st' i)"
  using assms by (auto simp: arm_def time_ok_def Let_def split: option.splits)

lemma disarm_spec:
  assumes "time_ok st"
  shows "time_ok (disarm i st)" "i \<notin> set (armed_timers (disarm i st))" "i \<notin> set (thread_timers (disarm i st))"
    and "remaining (timers (disarm i st) i) = ts_zero" "interval (timers (disarm i st) i) = ts_zero"
    and "monotonic_clock (disarm i st) = monotonic_clock st" "fired (timers (disarm i st) i) = fired (timers st i)"
  using assms by (auto simp: time_ok_def disarm_def distinct_remove1 set_remove1_eq)

lemma sleep_wait_spec:
  assumes "time_ok st" "\<forall>iv\<in>set ticks. ts_norm iv" "\<not> fired (timers st i)"
    and "i \<in> set (armed_timers st)" "ts_is_zero (interval (timers st i))"
    and "sleep_wait ticks i st = (intr, st')"
  shows "time_ok st' \<and> (intr \<longleftrightarrow> \<not> fired (timers st' i)) \<and>
         (ticks \<noteq> [] \<longrightarrow> ts_ns (remaining (timers st i)) \<le> sum_list (map ts_ns ticks) \<longrightarrow> \<not> intr) \<and>
         (\<not> intr \<longrightarrow> ts_ns (remaining (timers st i)) \<le>
            ts_ns (monotonic_clock st') - ts_ns (monotonic_clock st) + int (length ticks))"
  using assms
proof (induction ticks arbitrary: st)
  case (Cons iv ivs)
  let ?s = "fst (update_time iv st)"
  have iv: "ts_norm iv" using Cons.prems(2) by simp
  note up = update_time_spec[OF Cons.prems(1) iv]
  have n: "ts_norm (remaining (timers st i))" "ts_norm (interval (timers st i))" "ts_norm (monotonic_clock st)"
    using Cons.prems by (auto simp: time_ok_def)
  note one = one_shot_ticked[OF Cons.prems(3,5) n(1) iv] and nn = timer_ticked_norm[OF n(1,2) iv]
  have t: "timers ?s i = timer_ticked iv (timers st i)" using up(1) Cons.prems(4) by simp
  have m: "ts_ns (monotonic_clock ?s) = ts_ns (monotonic_clock st) + ts_ns iv"
    using up(4) ts_add_ns[OF n(3) iv] by simp
  have w: "sleep_wait ivs i ?s = (intr, st')" using Cons.prems(3,6) by simp
  show ?case
  proof (cases "fired (timers ?s i)")
    case True
    then have "intr = False" "st' = ?s" using w by (cases ivs; simp)+
    then show ?thesis using True up(6) m t one(1) by auto
  next
    case False
    then have a: "i \<in> set (armed_timers ?s)" using up(2) Cons.prems(4) by auto
    have z: "ts_is_zero (interval (timers ?s i))" using t nn Cons.prems(5) by simp
    have IH: "time_ok st' \<and> (intr \<longleftrightarrow> \<not> fired (timers st' i)) \<and>
         (ivs \<noteq> [] \<longrightarrow> ts_ns (remaining (timers ?s i)) \<le> sum_list (map ts_ns ivs) \<longrightarrow> \<not> intr) \<and>
         (\<not> intr \<longrightarrow> ts_ns (remaining (timers ?s i)) \<le>
            ts_ns (monotonic_clock st') - ts_ns (monotonic_clock ?s) + int (length ivs))"
      by (rule Cons.IH[OF up(6) _ False a z w]) (use Cons.prems(2) in simp)
    have r: "ts_ns (remaining (timers st i)) - ts_ns iv - 1 \<le> ts_ns (remaining (timers ?s i))"
      "ts_ns (remaining (timers ?s i)) \<le> ts_ns (remaining (timers st i)) - ts_ns iv"
      "0 < ts_ns (remaining (timers ?s i))" using one(2) False t by auto
    show ?thesis using IH r m by (cases "ivs = []") auto
  qed
qed auto

text \<open>
  \<^verbatim>\<open>nanosleep\<close> never fails its assertion: it returns 0 or \<^verbatim>\<open>-EINTR\<close>, and 0 whenever the time
  ticked before a signal arrives covers the duration; when it returns 0 the monotonic clock has
  advanced by the duration, up to the one nanosecond per tick that \<^verbatim>\<open>-=\<close> may lose. It leaves no
  timer armed. The time it reports as remaining is always zero, even on \<^verbatim>\<open>-EINTR\<close>, since
  \<^verbatim>\<open>disarm\<close> clears the field before it is copied out.
\<close>

theorem nanosleep_outcome:
  assumes "time_ok st" "i \<notin> set (armed_timers st)" "i \<notin> set (thread_timers st)"
    and "ts_norm duration" "\<forall>iv\<in>set ticks. ts_norm iv"
  shows "\<exists>res st'. clock_nanosleep_impl ticks i duration st = Some (res, ts_zero, st') \<and> time_ok st' \<and>
           i \<notin> set (armed_timers st') \<and> i \<notin> set (thread_timers st') \<and> res \<in> {Inr (), Inl EINTR} \<and>
           (ticks \<noteq> [] \<and> ts_ns duration \<le> sum_list (map ts_ns ticks) \<longrightarrow> res = Inr ()) \<and>
           (res = Inr () \<longrightarrow> ts_ns duration \<le>
              ts_ns (monotonic_clock st') - ts_ns (monotonic_clock st) + int (length ticks))"
proof -
  let ?st = "st\<lparr>timers := (timers st)(i := timer_new)\<rparr>"
  have ok: "time_ok ?st" using assms(1,2) by (auto simp: time_ok_def)
  have new: "interval (timers ?st i) = ts_zero" by (simp add: timer_new_def)
  obtain st1 where st1: "arm i duration None ?st = Some st1" "time_ok st1" "i \<in> set (armed_timers st1)"
    "monotonic_clock st1 = monotonic_clock st" "remaining (timers st1 i) = duration"
    "interval (timers st1 i) = ts_zero" "\<not> fired (timers st1 i)"
    using arm_spec[OF ok, of i duration None] assms(2,3,4) new by auto
  obtain intr st2 where w: "sleep_wait ticks i st1 = (intr, st2)" by fastforce
  have z: "ts_is_zero (interval (timers st1 i))" using st1(6) by (simp add: ts_is_zero_ns)
  note sw = sleep_wait_spec[OF st1(2) assms(5) st1(7,3) z w]
  then have "time_ok st2" by blast
  note d = disarm_spec[OF this, of i]
  show ?thesis using st1 w sw d by (cases intr) (auto simp: clock_nanosleep_impl_def)
qed

theorem nanosleep_outcome_witness:
  "\<exists>st' :: nat time_state. clock_nanosleep_impl [\<lparr>seconds = 0, nanoseconds = 10\<rparr>, \<lparr>seconds = 0, nanoseconds = 10\<rparr>] 1
     \<lparr>seconds = 0, nanoseconds = 15\<rparr> example_time = Some (Inr (), ts_zero, st')"
proof -
  have ok: "time_ok example_time"
    by (simp add: example_time_def time_ok_def ts_norm_def timer_new_def ts_zero_def)
  have m: "1 \<notin> set (armed_timers example_time)" "1 \<notin> set (thread_timers example_time)"
    by (auto simp: example_time_def)
  have n: "ts_norm \<lparr>seconds = 0, nanoseconds = 15\<rparr>"
    "\<forall>iv\<in>set [\<lparr>seconds = 0, nanoseconds = 10\<rparr>, \<lparr>seconds = 0, nanoseconds = 10\<rparr>]. ts_norm iv"
    by (auto simp: ts_norm_def)
  show ?thesis using nanosleep_outcome[OF ok m n] by (auto simp: ts_ns_def)
qed

text \<open>
  The interval timer of a process. \<^verbatim>\<open>setitimer\<close> with a value in range returns what
  \<^verbatim>\<open>getitimer\<close> would have returned, keeps the invariant, and installs exactly the new value, which
  \<^verbatim>\<open>getitimer\<close> then returns; a zero value disarms the timer. Another timer kind and microseconds
  out of range are refused.
\<close>

theorem setitimer_getitimer:
  assumes "time_ok st" "0 \<le> tv_sec (it_value v)" "0 \<le> tv_usec (it_value v)"
    and "0 \<le> tv_sec (it_interval v)" "0 \<le> tv_usec (it_interval v)"
  shows "if which \<noteq> ITIMER_REAL \<or> 999999 < tv_usec (it_value v) \<or> 999999 < tv_usec (it_interval v)
         then setitimer_impl i cb which (Some v) st = Some (Inl EINVAL)
         else \<exists>st'. setitimer_impl i cb which (Some v) st = Some (Inr (itimer_current i st, st')) \<and>
                time_ok st' \<and>
                (if ts_is_zero (from_timeval (it_value v))
                 then i \<notin> set (armed_timers st') \<and> syscall_getitimer i which st' = Inr itimerval_zero
                 else i \<in> set (armed_timers st') \<and> syscall_getitimer i which st' = Inr v)"
proof (cases "which \<noteq> ITIMER_REAL \<or> 999999 < tv_usec (it_value v) \<or> 999999 < tv_usec (it_interval v)")
  case False
  let ?s1 = "disarm i st" and ?t = "from_timeval (it_value v)" and ?iv = "from_timeval (it_interval v)"
  let ?s2 = "?s1\<lparr>timers := (timers ?s1)(i := (timers ?s1 i)\<lparr>interval := ?iv\<rparr>)\<rparr>"
  note d = disarm_spec[OF assms(1), of i]
  have n: "ts_norm ?t" "ts_norm ?iv" using assms False by (auto simp: ts_norm_def from_timeval_def)
  have inv_tv: "to_timeval ?t = it_value v" "to_timeval ?iv = it_interval v"
    using assms by (simp_all add: to_timeval_def from_timeval_def)
  have ok2: "time_ok ?s2" using d(1,2) by (auto simp: time_ok_def)
  obtain st' where "arm i ?t (Some cb) ?s2 = Some st'" "time_ok st'" "i \<in> set (armed_timers st')"
    "remaining (timers st' i) = ?t" "interval (timers st' i) = ?iv"
    using arm_spec[OF ok2, of i ?t "Some cb"] d n by auto
  then show ?thesis using False d inv_tv
    by (auto simp: setitimer_impl_def Let_def syscall_getitimer_def itimer_current_def itimerval_zero_def
        to_timeval_def ts_zero_def)
qed (auto simp: setitimer_impl_def)

theorem setitimer_getitimer_witness:
  "\<exists>st' :: nat time_state. setitimer_impl 7 (0 :: nat) ITIMER_REAL
       (Some \<lparr>it_interval = \<lparr>tv_sec = 0, tv_usec = 0\<rparr>, it_value = \<lparr>tv_sec = 1, tv_usec = 5\<rparr>\<rparr>) example_time
     = Some (Inr (itimer_current 7 example_time, st')) \<and>
     syscall_getitimer 7 ITIMER_REAL st' =
       Inr \<lparr>it_interval = \<lparr>tv_sec = 0, tv_usec = 0\<rparr>, it_value = \<lparr>tv_sec = 1, tv_usec = 5\<rparr>\<rparr>"
proof -
  have ok: "time_ok example_time"
    by (simp add: example_time_def time_ok_def ts_norm_def timer_new_def ts_zero_def)
  show ?thesis
    using setitimer_getitimer[OF ok, of "\<lparr>it_interval = \<lparr>tv_sec = 0, tv_usec = 0\<rparr>, it_value = \<lparr>tv_sec = 1, tv_usec = 5\<rparr>\<rparr>"
        ITIMER_REAL 7 0]
    by (auto simp: ts_is_zero_def from_timeval_def)
qed

end
