(* ===== verification/Vfs_Descriptors.thy ===== *)
theory Vfs_Descriptors
  imports Klib_Algorithm
begin

text \<open>
  File descriptions and file descriptor tables: \<^verbatim>\<open>FileDescription\<close> and \<^verbatim>\<open>FileDescriptor\<close> of
  \<^verbatim>\<open>fs/vfs.hpp\<close>, the descriptor system calls of \<^verbatim>\<open>fs/vfs.cpp\<close>, \<^verbatim>\<open>Process::allocate_fdnum\<close> and
  what fork, exec and exit do to the table in \<^verbatim>\<open>sched/sched.cpp\<close>. A descriptor is the 64-bit word
  the code stores, the address of a reference-counted description with the close-on-exec flag in
  bit 0. \<open>descs\<close> is the heap of live descriptions, \<open>closed\<close> the log of those that were deleted
  (\<^verbatim>\<open>vnode->close\<close> runs at that moment), \<open>tables\<close> the table of every process. Touching a
  description that is not live is \<open>None\<close>.
\<close>

section \<open>Flags and node types\<close>

definition O_ACCMODE :: usize where "O_ACCMODE = 3"
definition O_RDONLY :: usize where "O_RDONLY = 0"
definition O_WRONLY :: usize where "O_WRONLY = 1"
definition O_RDWR :: usize where "O_RDWR = 2"
definition O_CREAT :: usize where "O_CREAT = 0x40"
definition O_EXCL :: usize where "O_EXCL = 0x80"
definition O_TRUNC :: usize where "O_TRUNC = 0x200"
definition O_APPEND :: usize where "O_APPEND = 0x400"
definition O_NONBLOCK :: usize where "O_NONBLOCK = 0x800"
definition O_ASYNC :: usize where "O_ASYNC = 0x2000"
definition O_DIRECT :: usize where "O_DIRECT = 0x4000"
definition O_DIRECTORY :: usize where "O_DIRECTORY = 0x10000"
definition O_NOFOLLOW :: usize where "O_NOFOLLOW = 0x20000"
definition O_NOATIME :: usize where "O_NOATIME = 0x40000"
definition O_CLOEXEC :: usize where "O_CLOEXEC = 0x80000"
definition FD_CLOEXEC :: usize where "FD_CLOEXEC = 1"

lemmas open_flags = O_ACCMODE_def O_RDONLY_def O_WRONLY_def O_RDWR_def O_CREAT_def O_EXCL_def
  O_TRUNC_def O_APPEND_def O_NONBLOCK_def O_ASYNC_def O_DIRECT_def O_DIRECTORY_def O_NOFOLLOW_def
  O_NOATIME_def O_CLOEXEC_def FD_CLOEXEC_def

datatype node_type = HARD_LINK | REGULAR | DIRECTORY | CHAR_DEVICE | BLOCK_DEVICE | SYMLINK | FIFO
  | SOCKET | EPOLL | INOTIFY | EVENTFD | SIGNALFD | MEMFD

definition is_special :: "node_type \<Rightarrow> bool" where
  "is_special type \<longleftrightarrow> type \<noteq> REGULAR \<and> type \<noteq> DIRECTORY"

definition is_device :: "node_type \<Rightarrow> bool" where
  "is_device type \<longleftrightarrow> type = CHAR_DEVICE \<and> type \<noteq> BLOCK_DEVICE"

definition can_read :: "usize \<Rightarrow> bool" where
  "can_read flags \<longleftrightarrow> (flags AND O_ACCMODE) = O_RDONLY \<or> (flags AND O_ACCMODE) = O_RDWR"

definition can_write :: "usize \<Rightarrow> bool" where
  "can_write flags \<longleftrightarrow> (flags AND O_ACCMODE) = O_WRONLY \<or> (flags AND O_ACCMODE) = O_RDWR"

section \<open>State\<close>

record description =
  vnode :: nat
  cursor :: usize
  flags :: usize
  ref_count :: int

record fd_table =
  file_descriptors :: "usize list"
  num_file_descriptors :: usize
  first_free_fdnum :: int

record fd_state =
  tables :: "fd_table list"
  descs :: "usize \<Rightarrow> description option"
  closed :: "usize list"

section \<open>Descriptors\<close>

definition flags_mask :: usize where
  "flags_mask = 1"

definition fd_init :: "usize \<Rightarrow> usize \<Rightarrow> usize" where
  "fd_init description fl = description OR fl"

definition get_description :: "usize \<Rightarrow> usize" where
  "get_description data = data AND NOT flags_mask"

definition get_flags :: "usize \<Rightarrow> usize" where
  "get_flags data = data AND flags_mask"

definition set_flags :: "usize \<Rightarrow> usize \<Rightarrow> usize" where
  "set_flags data fl = get_description data OR (fl AND flags_mask)"

definition description_new :: "nat \<Rightarrow> usize \<Rightarrow> description" where
  "description_new node fl = \<lparr>vnode = node, cursor = 0, flags = fl, ref_count = 1\<rparr>"

definition increment_ref_count :: "usize \<Rightarrow> fd_state \<Rightarrow> fd_state option" where
  "increment_ref_count p st =
     do { d \<leftarrow> descs st p;
          Some (st\<lparr>descs := (descs st)(p \<mapsto> d\<lparr>ref_count := ref_count d + 1\<rparr>)\<rparr>) }"

definition decrement_ref_count :: "usize \<Rightarrow> fd_state \<Rightarrow> fd_state option" where
  "decrement_ref_count p st =
     do { d \<leftarrow> descs st p;
          let d = d\<lparr>ref_count := ref_count d - 1\<rparr>;
          if ref_count d = 0
          then Some (st\<lparr>descs := (descs st)(p := None), closed := closed st @ [p]\<rparr>)
          else Some (st\<lparr>descs := (descs st)(p \<mapsto> d)\<rparr>) }"

definition get_table :: "nat \<Rightarrow> fd_state \<Rightarrow> fd_table option" where
  "get_table pr st = rd (tables st) pr"

definition put_table :: "nat \<Rightarrow> fd_table \<Rightarrow> fd_state \<Rightarrow> fd_state option" where
  "put_table pr t st = map_option (\<lambda>ts. st\<lparr>tables := ts\<rparr>) (wr (tables st) pr t)"

definition set_slot :: "nat \<Rightarrow> nat \<Rightarrow> usize \<Rightarrow> fd_state \<Rightarrow> fd_state option" where
  "set_slot pr i data st =
     do { t \<leftarrow> get_table pr st;
          fds \<leftarrow> wr (file_descriptors t) i data;
          put_table pr (t\<lparr>file_descriptors := fds\<rparr>) st }"

definition get_slot :: "nat \<Rightarrow> nat \<Rightarrow> fd_state \<Rightarrow> usize option" where
  "get_slot pr i st = do { t \<leftarrow> get_table pr st; rd (file_descriptors t) i }"

text \<open>\<^verbatim>\<open>FileDescriptor::close\<close>\<close>

definition fd_close :: "nat \<Rightarrow> nat \<Rightarrow> fd_state \<Rightarrow> fd_state option" where
  "fd_close pr fdnum st =
     do { data \<leftarrow> get_slot pr fdnum st;
          st \<leftarrow> decrement_ref_count (get_description data) st;
          st \<leftarrow> set_slot pr fdnum 0 st;
          t \<leftarrow> get_table pr st;
          put_table pr (t\<lparr>num_file_descriptors := num_file_descriptors t - 1,
                          first_free_fdnum := (if first_free_fdnum t > int fdnum then int fdnum
                                               else first_free_fdnum t)\<rparr>) st }"

text \<open>\<^verbatim>\<open>FileDescriptor::duplicate\<close>\<close>

definition fd_duplicate :: "bool \<Rightarrow> usize \<Rightarrow> fd_state \<Rightarrow> (usize \<times> fd_state) option" where
  "fd_duplicate keep_flags data st =
     do { let new_data = (if keep_flags then data else data AND NOT flags_mask);
          st \<leftarrow> increment_ref_count (get_description data) st;
          Some (new_data, st) }"

section \<open>Allocating a descriptor number\<close>

function find_free :: "usize list \<Rightarrow> nat \<Rightarrow> nat option" where
  "find_free fds i =
     (if i < length fds then (if get_description (fds ! i) = 0 then Some i else find_free fds (i + 1))
      else None)"
  by pat_completeness auto
termination by (relation "measure (\<lambda>(fds, i). length fds - i)") auto

declare find_free.simps [simp del]

definition allocate_fdnum :: "int \<Rightarrow> fd_table \<Rightarrow> nat \<times> fd_table" where
  "allocate_fdnum min_fdnum t0 =
     (let t = t0\<lparr>num_file_descriptors := num_file_descriptors t0 + 1\<rparr>;
          begin = (if min_fdnum < first_free_fdnum t then first_free_fdnum t else min_fdnum) in
      case find_free (file_descriptors t) (nat begin) of
        Some i \<Rightarrow> (i, if min_fdnum < first_free_fdnum t then t\<lparr>first_free_fdnum := int i + 1\<rparr> else t)
      | None \<Rightarrow>
          let t = (if min_fdnum < first_free_fdnum t
                   then t\<lparr>first_free_fdnum := int (length (file_descriptors t))\<rparr> else t)
          in (length (file_descriptors t), t\<lparr>file_descriptors := file_descriptors t @ [0]\<rparr>))"

definition allocate_fd :: "nat \<Rightarrow> int \<Rightarrow> fd_state \<Rightarrow> (nat \<times> fd_state) option" where
  "allocate_fd pr min_fdnum st =
     do { t \<leftarrow> get_table pr st;
          let (i, t) = allocate_fdnum min_fdnum t;
          st \<leftarrow> put_table pr t st;
          Some (i, st) }"

section \<open>System calls\<close>

definition get_file_description :: "nat \<Rightarrow> int \<Rightarrow> fd_state \<Rightarrow> usize option" where
  "get_file_description pr fd st =
     do { t \<leftarrow> get_table pr st;
          if fd \<ge> int (length (file_descriptors t)) \<or> fd < 0 then Some 0
          else map_option get_description (rd (file_descriptors t) (nat fd)) }"

text \<open>The end of \<^verbatim>\<open>openat_impl\<close>, \<^verbatim>\<open>pipe_impl\<close>, \<^verbatim>\<open>eventfd_impl\<close> and the like: a new description at
  the address \<open>p\<close> the allocator returned, installed at the lowest free number.\<close>

definition install_description ::
  "nat \<Rightarrow> usize \<Rightarrow> nat \<Rightarrow> usize \<Rightarrow> bool \<Rightarrow> fd_state \<Rightarrow> (nat \<times> fd_state) option" where
  "install_description pr p node fl cloexec st =
     do { (fd, st) \<leftarrow> allocate_fd pr 0 (st\<lparr>descs := (descs st)(p \<mapsto> description_new node fl)\<rparr>);
          st \<leftarrow> set_slot pr fd (fd_init p (if cloexec then FD_CLOEXEC else 0)) st;
          Some (fd, st) }"

definition syscall_close :: "nat \<Rightarrow> int \<Rightarrow> fd_state \<Rightarrow> (unit res \<times> fd_state) option" where
  "syscall_close pr fd st =
     do { t \<leftarrow> get_table pr st;
          if fd \<ge> int (length (file_descriptors t)) \<or> fd < 0 then Some (Inl EBADF, st)
          else do {
            data \<leftarrow> rd (file_descriptors t) (nat fd);
            if get_description data = 0 then Some (Inl EBADF, st)
            else do { st \<leftarrow> fd_close pr (nat fd) st; Some (Inr (), st) } } }"

definition CLOSE_RANGE_UNSHARE :: u32 where "CLOSE_RANGE_UNSHARE = 2"
definition CLOSE_RANGE_CLOEXEC :: u32 where "CLOSE_RANGE_CLOEXEC = 4"

fun close_range_loop :: "nat \<Rightarrow> bool \<Rightarrow> nat list \<Rightarrow> fd_state \<Rightarrow> fd_state option" where
  "close_range_loop pr cloexec [] st = Some st"
| "close_range_loop pr cloexec (fd # rest) st =
     do { data \<leftarrow> get_slot pr fd st;
          st \<leftarrow> (if get_description data = 0 then Some st
                 else if cloexec then set_slot pr fd (set_flags data FD_CLOEXEC) st
                 else fd_close pr fd st);
          close_range_loop pr cloexec rest st }"

text \<open>\<^verbatim>\<open>last\<close> is clamped with a 64-bit \<^verbatim>\<open>size() - 1\<close>, which wraps for an empty table.\<close>

definition syscall_close_range :: "nat \<Rightarrow> u32 \<Rightarrow> u32 \<Rightarrow> u32 \<Rightarrow> fd_state \<Rightarrow> (unit res \<times> fd_state) option" where
  "syscall_close_range pr first last0 fl st =
     do { t \<leftarrow> get_table pr st;
          if fl AND NOT (CLOSE_RANGE_CLOEXEC OR CLOSE_RANGE_UNSHARE) \<noteq> 0 then Some (Inl EINVAL, st)
          else if first > last0 then Some (Inl EINVAL, st)
          else do {
            let last = kmin (ucast last0) (of_nat (length (file_descriptors t)) - 1);
            st \<leftarrow> close_range_loop pr (fl AND CLOSE_RANGE_CLOEXEC \<noteq> 0) [unat first..<Suc (unat last)] st;
            Some (Inr (), st) } }"

definition setfl_mask :: usize where
  "setfl_mask = O_APPEND OR O_ASYNC OR O_DIRECT OR O_NOATIME OR O_NONBLOCK"

datatype fcntl_cmd = F_DUPFD | F_DUPFD_CLOEXEC | F_GETFD | F_SETFD | F_GETFL | F_SETFL | F_SETLK
  | F_SETLKW | F_GETLK | F_GETPIPE_SZ | F_ADD_SEALS | F_GET_SEALS | F_OTHER int

text \<open>
  \<^verbatim>\<open>fcntl_impl\<close>. The two seal commands act on the memory file behind the descriptor and not on
  the table; what they return is the argument \<open>seals\<close>.
\<close>

definition fcntl_impl ::
  "(usize \<Rightarrow> fcntl_cmd \<Rightarrow> usize res) \<Rightarrow> nat \<Rightarrow> int \<Rightarrow> fcntl_cmd \<Rightarrow> usize \<Rightarrow> fd_state \<Rightarrow> (usize res \<times> fd_state) option" where
  "fcntl_impl seals pr fd cmd arg st =
     do { t \<leftarrow> get_table pr st;
          if fd \<ge> int (length (file_descriptors t)) \<or> fd < 0 then Some (Inl EBADF, st)
          else do {
            data \<leftarrow> rd (file_descriptors t) (nat fd);
            let description = get_description data;
            if description = 0 then Some (Inl EBADF, st)
            else case cmd of
              F_GETFD \<Rightarrow> Some (Inr (get_flags data), st)
            | F_SETFD \<Rightarrow> do { st \<leftarrow> set_slot pr (nat fd) (set_flags data arg) st; Some (Inr 0, st) }
            | F_GETFL \<Rightarrow> do { d \<leftarrow> descs st description; Some (Inr (flags d), st) }
            | F_SETFL \<Rightarrow>
                do { d \<leftarrow> descs st description;
                     Some (Inr 0, st\<lparr>descs := (descs st)(description \<mapsto>
                       d\<lparr>flags := (flags d AND NOT setfl_mask) OR (arg AND setfl_mask)\<rparr>)\<rparr>) }
            | F_SETLK \<Rightarrow> Some (Inr 0, st)
            | F_SETLKW \<Rightarrow> Some (Inr 0, st)
            | F_GETLK \<Rightarrow> Some (Inr 0, st)
            | F_GETPIPE_SZ \<Rightarrow> Some (Inr 0x1000, st)
            | F_ADD_SEALS \<Rightarrow> Some (seals description cmd, st)
            | F_GET_SEALS \<Rightarrow> Some (seals description cmd, st)
            | F_OTHER _ \<Rightarrow> Some (Inl EINVAL, st)
            | _ \<Rightarrow>
                do { (newfd, st) \<leftarrow> allocate_fd pr (sint (ucast arg :: u32)) st;
                     data \<leftarrow> get_slot pr (nat fd) st;
                     (new_data, st) \<leftarrow> fd_duplicate False data st;
                     st \<leftarrow> set_slot pr newfd
                             (if cmd = F_DUPFD_CLOEXEC then set_flags new_data FD_CLOEXEC else new_data) st;
                     Some (Inr (of_nat newfd), st) } } }"

definition dup3_replace :: "nat \<Rightarrow> nat \<Rightarrow> nat \<Rightarrow> usize \<Rightarrow> fd_state \<Rightarrow> fd_state option" where
  "dup3_replace pr oldfd newfd fl st =
     do { new_data \<leftarrow> get_slot pr newfd st;
          st \<leftarrow> (if get_description new_data \<noteq> 0 then fd_close pr newfd st else Some st);
          data \<leftarrow> get_slot pr oldfd st;
          (dup, st) \<leftarrow> fd_duplicate False data st;
          set_slot pr newfd (set_flags dup fl) st }"

definition dup3_impl :: "nat \<Rightarrow> int \<Rightarrow> int \<Rightarrow> usize \<Rightarrow> fd_state \<Rightarrow> (int res \<times> fd_state) option" where
  "dup3_impl pr oldfd newfd fl st =
     do { t \<leftarrow> get_table pr st;
          if oldfd \<ge> int (length (file_descriptors t)) \<or> oldfd < 0 then Some (Inl EBADF, st)
          else if newfd > 1023 \<or> newfd < 0 then Some (Inl EBADF, st)
          else do {
            data \<leftarrow> rd (file_descriptors t) (nat oldfd);
            if get_description data = 0 then Some (Inl EBADF, st)
            else if fl AND NOT FD_CLOEXEC \<noteq> 0 then Some (Inl EINVAL, st)
            else if oldfd = newfd then Some (Inr newfd, st)
            else do {
              let missing = nat (newfd + 1) - length (file_descriptors t);
              st \<leftarrow> put_table pr (t\<lparr>file_descriptors := file_descriptors t @ replicate missing 0\<rparr>) st;
              st \<leftarrow> dup3_replace pr (nat oldfd) (nat newfd) fl st;
              Some (Inr newfd, st) } } }"

definition syscall_dup :: "nat \<Rightarrow> int \<Rightarrow> fd_state \<Rightarrow> (usize res \<times> fd_state) option" where
  "syscall_dup pr oldfd st = fcntl_impl (\<lambda>_ _. Inl EINVAL) pr oldfd F_DUPFD 0 st"

definition syscall_dup2 :: "nat \<Rightarrow> int \<Rightarrow> int \<Rightarrow> fd_state \<Rightarrow> (int res \<times> fd_state) option" where
  "syscall_dup2 pr oldfd newfd st = dup3_impl pr oldfd newfd 0 st"

definition syscall_dup3 :: "nat \<Rightarrow> int \<Rightarrow> int \<Rightarrow> usize \<Rightarrow> fd_state \<Rightarrow> (int res \<times> fd_state) option" where
  "syscall_dup3 pr oldfd newfd fl st =
     (if oldfd = newfd then Some (Inl EINVAL, st) else dup3_impl pr oldfd newfd fl st)"

section \<open>Fork, exec and exit\<close>

fun duplicate_all :: "usize list \<Rightarrow> fd_state \<Rightarrow> (usize list \<times> fd_state) option" where
  "duplicate_all [] st = Some ([], st)"
| "duplicate_all (data # rest) st =
     do { (new_data, st) \<leftarrow> (if get_description data \<noteq> 0 then fd_duplicate True data st else Some (0, st));
          (new_rest, st) \<leftarrow> duplicate_all rest st;
          Some (new_data # new_rest, st) }"

text \<open>What \<^verbatim>\<open>clone_impl\<close> does for a new process; its table is the last one.\<close>

definition fork_fds :: "nat \<Rightarrow> fd_state \<Rightarrow> fd_state option" where
  "fork_fds pr st =
     do { t \<leftarrow> get_table pr st;
          (new_fds, st) \<leftarrow> duplicate_all (file_descriptors t) st;
          Some (st\<lparr>tables := tables st @ [t\<lparr>file_descriptors := new_fds\<rparr>]\<rparr>) }"

fun close_where :: "nat \<Rightarrow> (usize \<Rightarrow> bool) \<Rightarrow> nat list \<Rightarrow> fd_state \<Rightarrow> fd_state option" where
  "close_where pr P [] st = Some st"
| "close_where pr P (i # rest) st =
     do { data \<leftarrow> get_slot pr i st;
          st \<leftarrow> (if P data then fd_close pr i st else Some st);
          close_where pr P rest st }"

text \<open>The loop of \<^verbatim>\<open>Process::zombify\<close>.\<close>

definition exit_fds :: "nat \<Rightarrow> fd_state \<Rightarrow> fd_state option" where
  "exit_fds pr st =
     do { t \<leftarrow> get_table pr st;
          close_where pr (\<lambda>data. get_description data \<noteq> 0) [0..<length (file_descriptors t)] st }"

text \<open>The loop at the end of \<^verbatim>\<open>user_exec\<close>.\<close>

definition exec_fds :: "nat \<Rightarrow> fd_state \<Rightarrow> fd_state option" where
  "exec_fds pr st =
     do { t \<leftarrow> get_table pr st;
          close_where pr (\<lambda>data. get_flags data AND FD_CLOEXEC \<noteq> 0) [0..<length (file_descriptors t)] st }"

section \<open>Packing of a descriptor\<close>

lemma pack_simps:
  assumes "(p :: usize) AND 1 = 0"
  shows "p AND NOT 1 = p" "(p OR (f AND 1)) AND NOT 1 = p" "(p OR (f AND 1)) AND 1 = f AND 1"
proof -
  have p0: "\<not> bit p 0" using arg_cong[OF assms, of "\<lambda>x. bit x 0"] by (simp add: bit_simps)
  show "p AND NOT 1 = p" "(p OR (f AND 1)) AND NOT 1 = p" "(p OR (f AND 1)) AND 1 = f AND 1"
    by (rule bit_word_eqI, use p0 in \<open>auto simp: bit_simps intro: gr0I\<close>)+
qed

lemma get_description_even [simp]: "get_description data AND 1 = 0"
  unfolding get_description_def flags_mask_def by (rule bit_word_eqI) (auto simp: bit_simps)

lemma get_description_idem [simp]: "get_description (get_description data) = get_description data"
  using pack_simps(1)[OF get_description_even] by (simp add: get_description_def flags_mask_def)

lemma get_description_0 [simp]: "get_description 0 = 0"
  by (simp add: get_description_def)

lemma descriptor_init [simp]:
  assumes "p AND 1 = 0"
  shows "get_description (fd_init p (if c then FD_CLOEXEC else 0)) = p"
    and "get_flags (fd_init p (if c then FD_CLOEXEC else 0)) = (if c then FD_CLOEXEC else 0)"
  using pack_simps(1)[OF assms] pack_simps(2,3)[OF assms, of FD_CLOEXEC] assms
  by (auto simp: get_description_def get_flags_def fd_init_def flags_mask_def FD_CLOEXEC_def)

lemma descriptor_set_flags [simp]:
  "get_description (set_flags data fl) = get_description data"
  "get_flags (set_flags data fl) = fl AND 1"
  using pack_simps(2,3)[OF get_description_even]
  by (simp_all add: set_flags_def get_flags_def flags_mask_def get_description_def)

lemma drop_flags [simp]: "get_description (data AND NOT flags_mask) = get_description data"
  by (simp add: get_description_def and.assoc)

section \<open>References and the invariant\<close>

definition slot_refs :: "usize \<Rightarrow> usize list \<Rightarrow> nat" where
  "slot_refs p fds = sum_list (map (\<lambda>d. if get_description d = p then 1 else 0) fds)"

definition refs :: "usize \<Rightarrow> fd_state \<Rightarrow> nat" where
  "refs p st = sum_list (map (\<lambda>t. slot_refs p (file_descriptors t)) (tables st))"

definition table_ok :: "fd_table \<Rightarrow> bool" where
  "table_ok t \<longleftrightarrow> 0 \<le> first_free_fdnum t \<and> first_free_fdnum t \<le> int (length (file_descriptors t)) \<and>
     (\<forall>i<length (file_descriptors t). int i < first_free_fdnum t \<longrightarrow> get_description (file_descriptors t ! i) \<noteq> 0) \<and>
     (\<forall>d\<in>set (file_descriptors t). get_description d = 0 \<longrightarrow> d = 0)"

text \<open>Counts agree up to an excess of references held outside the tables.\<close>

definition refs_ok :: "(usize \<Rightarrow> int) \<Rightarrow> fd_state \<Rightarrow> bool" where
  "refs_ok \<delta> st \<longleftrightarrow> descs st 0 = None \<and>
     (\<forall>p. p \<noteq> 0 \<longrightarrow> (case descs st p of None \<Rightarrow> int (refs p st) + \<delta> p = 0
        | Some d \<Rightarrow> ref_count d = int (refs p st) + \<delta> p \<and> 0 < ref_count d))"

definition fd_ok :: "fd_state \<Rightarrow> bool" where
  "fd_ok st \<longleftrightarrow> refs_ok (\<lambda>_. 0) st \<and> (\<forall>t\<in>set (tables st). table_ok t)"

lemma sum_list_update_nat: "i < length xs \<Longrightarrow> sum_list (xs[i := v]) + xs ! i = sum_list xs + (v::nat)"
  by (induction xs arbitrary: i) (auto split: nat.splits)

lemma slot_refs_update:
  assumes "i < length fds"
  shows "slot_refs p (fds[i := v]) + (if get_description (fds ! i) = p then 1 else 0) =
         slot_refs p fds + (if get_description v = p then 1 else 0)"
  using sum_list_update_nat[of i "map (\<lambda>d. if get_description d = p then 1 else 0) fds"
      "if get_description v = p then 1 else 0"] assms
  by (simp add: slot_refs_def map_update)

lemma slot_refs_append_zero [simp]: "p \<noteq> 0 \<Longrightarrow> slot_refs p (fds @ replicate n 0) = slot_refs p fds"
  by (simp add: slot_refs_def sum_list_replicate)

lemma refs_table_update:
  assumes "pr < length (tables st)"
  shows "refs p (st\<lparr>tables := (tables st)[pr := t]\<rparr>) + slot_refs p (file_descriptors (tables st ! pr)) =
         refs p st + slot_refs p (file_descriptors t)"
  using sum_list_update_nat[of pr "map (\<lambda>t. slot_refs p (file_descriptors t)) (tables st)"
      "slot_refs p (file_descriptors t)"] assms
  by (simp add: refs_def map_update)

lemma refs_cong [simp]: "refs p (st\<lparr>descs := x\<rparr>) = refs p st" "refs p (st\<lparr>closed := y\<rparr>) = refs p st"
  by (simp_all add: refs_def)

abbreviation fds_of :: "fd_state \<Rightarrow> nat \<Rightarrow> usize list" where
  "fds_of st pr \<equiv> file_descriptors (tables st ! pr)"

lemma get_table_in [simp]: "pr < length (tables st) \<Longrightarrow> get_table pr st = Some (tables st ! pr)"
  by (simp add: get_table_def)

lemma put_table_in [simp]: "pr < length (tables st) \<Longrightarrow> put_table pr t st = Some (st\<lparr>tables := (tables st)[pr := t]\<rparr>)"
  by (simp add: put_table_def)

lemma get_slot_in [simp]:
  "pr < length (tables st) \<Longrightarrow> i < length (fds_of st pr) \<Longrightarrow> get_slot pr i st = Some (fds_of st pr ! i)"
  by (simp add: get_slot_def)

lemma set_slot_in [simp]:
  "pr < length (tables st) \<Longrightarrow> i < length (fds_of st pr) \<Longrightarrow>
   set_slot pr i v st = Some (st\<lparr>tables := (tables st)[pr := (tables st ! pr)\<lparr>file_descriptors := (fds_of st pr)[i := v]\<rparr>]\<rparr>)"
  by (simp add: set_slot_def)

lemma refs_set_slot:
  assumes "pr < length (tables st)" "i < length (fds_of st pr)"
    and "file_descriptors t = (fds_of st pr)[i := v]"
  shows "int (refs p (st\<lparr>tables := (tables st)[pr := t]\<rparr>)) =
         int (refs p st) + (if get_description v = p then 1 else 0)
           - (if get_description (fds_of st pr ! i) = p then 1 else 0)"
  using refs_table_update[OF assms(1), of p t] slot_refs_update[OF assms(2), of p v] assms(3)
  by (simp split: if_splits)

section \<open>Counting operations\<close>

lemma refs_ok_Some:
  assumes "refs_ok \<delta> st" "descs st p = Some d"
  shows "p \<noteq> 0" "ref_count d = int (refs p st) + \<delta> p" "0 < ref_count d"
proof -
  show p: "p \<noteq> 0" using assms by (auto simp: refs_ok_def)
  have "p \<noteq> 0 \<longrightarrow> (case descs st p of None \<Rightarrow> int (refs p st) + \<delta> p = 0
      | Some d \<Rightarrow> ref_count d = int (refs p st) + \<delta> p \<and> 0 < ref_count d)"
    using assms(1) unfolding refs_ok_def by blast
  then show "ref_count d = int (refs p st) + \<delta> p" "0 < ref_count d" using p assms(2) by simp_all
qed

lemma refs_ok_None:
  assumes "refs_ok \<delta> st" "descs st p = None" "p \<noteq> 0"
  shows "int (refs p st) + \<delta> p = 0"
proof -
  have "p \<noteq> 0 \<longrightarrow> (case descs st p of None \<Rightarrow> int (refs p st) + \<delta> p = 0
      | Some d \<Rightarrow> ref_count d = int (refs p st) + \<delta> p \<and> 0 < ref_count d)"
    using assms(1) unfolding refs_ok_def by blast
  then show ?thesis using assms by simp
qed

lemma refs_okI:
  assumes "descs st 0 = None" "\<And>p. p \<noteq> 0 \<Longrightarrow> descs st p = None \<Longrightarrow> int (refs p st) + \<delta> p = 0"
    and "\<And>p d. p \<noteq> 0 \<Longrightarrow> descs st p = Some d \<Longrightarrow> ref_count d = int (refs p st) + \<delta> p \<and> 0 < ref_count d"
  shows "refs_ok \<delta> st"
  unfolding refs_ok_def
proof (intro conjI allI impI)
  show "case descs st p of None \<Rightarrow> int (refs p st) + \<delta> p = 0
      | Some d \<Rightarrow> ref_count d = int (refs p st) + \<delta> p \<and> 0 < ref_count d" if "p \<noteq> 0" for p
    using assms(2,3)[OF that] by (cases "descs st p") simp_all
qed (rule assms(1))

lemma increment_spec:
  assumes "refs_ok \<delta> st" "descs st p = Some d"
  shows "\<exists>st'. increment_ref_count p st = Some st' \<and> refs_ok (\<delta>(p := \<delta> p + 1)) st' \<and> tables st' = tables st \<and>
           closed st' = closed st \<and> dom (descs st') = dom (descs st)"
proof -
  let ?st = "st\<lparr>descs := (descs st)(p \<mapsto> d\<lparr>ref_count := ref_count d + 1\<rparr>)\<rparr>"
  note r = refs_ok_Some[OF assms]
  have "refs_ok (\<delta>(p := \<delta> p + 1)) ?st"
    using r assms(1) refs_ok_Some[OF assms(1)] refs_ok_None[OF assms(1)]
    by (intro refs_okI) (auto simp: refs_ok_def split: if_splits)
  then show ?thesis using assms(2) by (auto simp: increment_ref_count_def)
qed

lemma decrement_spec:
  assumes "refs_ok \<delta> st" "descs st p = Some d"
  shows "\<exists>st'. decrement_ref_count p st = Some st' \<and> refs_ok (\<delta>(p := \<delta> p - 1)) st' \<and> tables st' = tables st \<and>
           dom (descs st') = (if int (refs p st) + \<delta> p = 1 then dom (descs st) - {p} else dom (descs st)) \<and>
           closed st' = closed st @ (if int (refs p st) + \<delta> p = 1 then [p] else [])"
proof -
  note r = refs_ok_Some[OF assms]
  let ?st = "if ref_count d = 1 then st\<lparr>descs := (descs st)(p := None), closed := closed st @ [p]\<rparr>
             else st\<lparr>descs := (descs st)(p \<mapsto> d\<lparr>ref_count := ref_count d - 1\<rparr>)\<rparr>"
  have "refs_ok (\<delta>(p := \<delta> p - 1)) ?st"
  proof (rule refs_okI)
    show "descs ?st 0 = None" using refs_ok_Some(1)[OF assms(1), of 0] r(1) by (cases "descs st 0") auto
    show "int (refs q ?st) + (\<delta>(p := \<delta> p - 1)) q = 0" if "q \<noteq> 0" "descs ?st q = None" for q
      using that r(2) refs_ok_None[OF assms(1), of q] by (cases "q = p") (simp_all split: if_splits)
    show "ref_count e = int (refs q ?st) + (\<delta>(p := \<delta> p - 1)) q \<and> 0 < ref_count e" if "q \<noteq> 0" "descs ?st q = Some e" for q e
      using that r(2,3) refs_ok_Some(2,3)[OF assms(1), of q e] by (cases "q = p") (auto split: if_splits)
  qed
  moreover have "decrement_ref_count p st = Some ?st"
    using assms(2) by (simp add: decrement_ref_count_def Let_def)
  ultimately show ?thesis using r assms(2) by auto
qed

lemma slot_refs_pos:
  assumes "i < length fds" "get_description (fds ! i) = p"
  shows "0 < slot_refs p fds"
  using elem_le_sum_list[of i "map (\<lambda>d. if get_description d = p then 1 else 0 :: nat) fds"] assms
  by (simp add: slot_refs_def split: if_splits)

lemma live_slot:
  assumes "fd_ok st" "pr < length (tables st)" "i < length (fds_of st pr)"
    and p: "get_description (fds_of st pr ! i) = p" "p \<noteq> 0"
  shows "\<exists>d. descs st p = Some d"
proof (rule ccontr)
  assume "\<not> ?thesis"
  then have "refs p st = 0" using assms(1) p refs_ok_None[of "\<lambda>_. 0" st p] by (auto simp: fd_ok_def)
  then have "slot_refs p (fds_of st pr) = 0" using assms(2) by (auto simp: refs_def)
  then show False using slot_refs_pos[OF assms(3) p(1)] by simp
qed

section \<open>Descriptor operations keep the invariant\<close>

lemma find_free_spec:
  "case find_free fds i of
     Some k \<Rightarrow> i \<le> k \<and> k < length fds \<and> get_description (fds ! k) = 0 \<and>
               (\<forall>j. i \<le> j \<and> j < k \<longrightarrow> get_description (fds ! j) \<noteq> 0)
   | None \<Rightarrow> \<forall>j. i \<le> j \<and> j < length fds \<longrightarrow> get_description (fds ! j) \<noteq> 0"
proof (induction fds i rule: find_free.induct)
  case (1 fds i)
  consider (out) "\<not> i < length fds" | (free) "i < length fds" "get_description (fds ! i) = 0"
    | (used) "i < length fds" "get_description (fds ! i) \<noteq> 0" by blast
  then show ?case
  proof cases
    case used
    then have eq: "find_free fds i = find_free fds (i + 1)" by (simp add: find_free.simps[of fds i])
    have step: "i \<le> j \<longleftrightarrow> j = i \<or> i + 1 \<le> j" for j by auto
    from 1[OF used] show ?thesis unfolding eq
      by (cases "find_free fds (i + 1)") (use used in \<open>auto simp: step\<close>)
  qed (auto simp: find_free.simps[of fds i])
qed

definition with_slot :: "nat \<Rightarrow> usize \<Rightarrow> fd_table \<Rightarrow> fd_table" where
  "with_slot i data t = t\<lparr>file_descriptors := (file_descriptors t)[i := data]\<rparr>"

text \<open>
  What \<^verbatim>\<open>allocate_fdnum\<close> finds: a free slot, none free between the requested minimum and it, and a
  table that is consistent again as soon as that slot is filled.
\<close>

lemma allocate_fdnum_spec:
  assumes ok: "table_ok t" and alloc: "allocate_fdnum m t = (i, t')"
  shows "i < length (file_descriptors t')" "get_description (file_descriptors t' ! i) = 0"
    and "\<exists>n. file_descriptors t' = file_descriptors t @ replicate n 0"
    and "\<And>j. max 0 m \<le> int j \<Longrightarrow> j < i \<Longrightarrow> get_description (file_descriptors t ! j) \<noteq> 0"
    and "m \<le> int i \<or> i = length (file_descriptors t)"
    and "get_description data \<noteq> 0 \<Longrightarrow> table_ok (with_slot i data t')"
    and "num_file_descriptors t' = num_file_descriptors t + 1"
    and "i \<le> length (file_descriptors t)"
proof -
  let ?fds = "file_descriptors t" and ?f = "first_free_fdnum t"
  let ?b = "if m < ?f then ?f else m"
  have f0: "0 \<le> ?f" "?f \<le> int (length ?fds)" and used: "\<And>j. j < length ?fds \<Longrightarrow> int j < ?f \<Longrightarrow> get_description (?fds ! j) \<noteq> 0"
    and zero: "\<And>d. d \<in> set ?fds \<Longrightarrow> get_description d = 0 \<Longrightarrow> d = 0" using ok by (auto simp: table_ok_def)
  have b: "max 0 m \<le> ?b" "\<And>j. m \<le> int j \<Longrightarrow> int j < ?b \<Longrightarrow> int j < ?f" using f0 by (auto split: if_splits)
  note ff = find_free_spec[where fds = ?fds and i = "nat ?b"]
  show "i < length (file_descriptors t')" "get_description (file_descriptors t' ! i) = 0"
    "\<exists>n. file_descriptors t' = ?fds @ replicate n 0"
    "num_file_descriptors t' = num_file_descriptors t + 1"
    "m \<le> int i \<or> i = length ?fds" "i \<le> length ?fds"
    using alloc ff b(1) by (auto simp: allocate_fdnum_def Let_def split: option.splits if_splits
        intro: exI[of _ 0] exI[of _ 1])
  show "get_description (?fds ! j) \<noteq> 0" if "max 0 m \<le> int j" "j < i" for j
  proof (cases "int j < ?b")
    case True
    then show ?thesis using that b(2)[of j] used[of j] alloc ff
      by (auto simp: allocate_fdnum_def Let_def split: option.splits if_splits)
  next
    case False
    then show ?thesis using that alloc ff
      by (auto simp: allocate_fdnum_def Let_def split: option.splits if_splits)
  qed
  show "table_ok (with_slot i data t')" if "get_description data \<noteq> 0"
    unfolding table_ok_def
  proof (intro conjI allI impI ballI)
    show "0 \<le> first_free_fdnum (with_slot i data t')"
      "first_free_fdnum (with_slot i data t') \<le> int (length (file_descriptors (with_slot i data t')))"
      using alloc f0 ff by (auto simp: with_slot_def allocate_fdnum_def Let_def split: option.splits if_splits)
    show "get_description (file_descriptors (with_slot i data t') ! j) \<noteq> 0"
      if j: "j < length (file_descriptors (with_slot i data t'))" "int j < first_free_fdnum (with_slot i data t')" for j
    proof (cases "j = i \<or> int j < ?f")
      case True
      then show ?thesis using alloc ff j \<open>get_description data \<noteq> 0\<close> used[of j] f0
        by (auto simp: with_slot_def allocate_fdnum_def Let_def nth_append nth_list_update
            split: option.splits if_splits)
    next
      case False
      then have "nat ?f \<le> j" by (simp add: nat_le_iff)
      then show ?thesis using False alloc ff j
        by (auto simp: with_slot_def allocate_fdnum_def Let_def nth_append nth_list_update
            split: option.splits if_splits)
    qed
    show "d = 0" if "d \<in> set (file_descriptors (with_slot i data t'))" "get_description d = 0" for d
      using that \<open>get_description data \<noteq> 0\<close> alloc zero[of d]
      by (auto simp: with_slot_def allocate_fdnum_def Let_def split: option.splits if_splits
          dest!: set_update_subset_insert[THEN subsetD])
  qed
qed

lemma refs_ok_set_slot:
  assumes "refs_ok \<delta> st" "pr < length (tables st)" "i < length (fds_of st pr)"
    and "file_descriptors t = (fds_of st pr)[i := v]"
    and "\<And>p. p \<noteq> 0 \<Longrightarrow> \<delta>' p = \<delta> p - (if get_description v = p then 1 else 0)
           + (if get_description (fds_of st pr ! i) = p then 1 else 0)"
  shows "refs_ok \<delta>' (st\<lparr>tables := (tables st)[pr := t]\<rparr>)"
proof (rule refs_okI)
  note r = refs_set_slot[OF assms(2,3,4)]
  show "descs (st\<lparr>tables := (tables st)[pr := t]\<rparr>) 0 = None" using assms(1) by (simp add: refs_ok_def)
  show "int (refs p (st\<lparr>tables := (tables st)[pr := t]\<rparr>)) + \<delta>' p = 0"
    if "p \<noteq> 0" "descs (st\<lparr>tables := (tables st)[pr := t]\<rparr>) p = None" for p
    using refs_ok_None[OF assms(1), of p] that assms(5)[of p] by (simp add: r)
  show "ref_count d = int (refs p (st\<lparr>tables := (tables st)[pr := t]\<rparr>)) + \<delta>' p \<and> 0 < ref_count d"
    if "p \<noteq> 0" "descs (st\<lparr>tables := (tables st)[pr := t]\<rparr>) p = Some d" for p d
    using refs_ok_Some[OF assms(1), of p d] that assms(5)[of p] by (simp add: r)
qed

lemma table_ok_with_slot:
  assumes "table_ok t" "i < length (file_descriptors t)" "get_description data \<noteq> 0"
  shows "table_ok (with_slot i data t)"
  using assms by (auto simp: table_ok_def with_slot_def nth_list_update dest!: set_update_subset_insert[THEN subsetD])

lemma table_ok_pad: "table_ok t \<Longrightarrow> table_ok (t\<lparr>file_descriptors := file_descriptors t @ replicate n 0\<rparr>)"
  by (auto simp: table_ok_def nth_append)

lemma tables_update_ok:
  assumes "\<And>j. j < length ts \<Longrightarrow> j \<noteq> pr \<Longrightarrow> table_ok (ts ! j)" "table_ok t"
  shows "\<forall>t'\<in>set (ts[pr := t]). table_ok t'"
proof
  fix t' assume "t' \<in> set (ts[pr := t])"
  then obtain j where "j < length ts" "t' = ts[pr := t] ! j" by (auto simp: in_set_conv_nth)
  then show "table_ok t'" using assms by (cases "j = pr") auto
qed

text \<open>Closing an open descriptor.\<close>

lemma fd_close_spec:
  assumes ok: "fd_ok st" and pr: "pr < length (tables st)" and i: "i < length (fds_of st pr)"
    and p: "get_description (fds_of st pr ! i) = p" "p \<noteq> 0"
  shows "\<exists>st'. fd_close pr i st = Some st' \<and> fd_ok st' \<and> length (tables st') = length (tables st) \<and>
           fds_of st' pr = (fds_of st pr)[i := 0] \<and> (\<forall>j. j \<noteq> pr \<longrightarrow> tables st' ! j = tables st ! j) \<and>
           first_free_fdnum (tables st' ! pr) \<le> first_free_fdnum (tables st ! pr) \<and>
           closed st' = closed st @ (if refs p st = 1 then [p] else []) \<and>
           dom (descs st') = (if refs p st = 1 then dom (descs st) - {p} else dom (descs st))"
proof -
  have ro: "refs_ok (\<lambda>_. 0) st" and to: "\<And>t. t \<in> set (tables st) \<Longrightarrow> table_ok t"
    using ok by (auto simp: fd_ok_def)
  obtain d where "descs st p = Some d" using live_slot[OF ok pr i p] by blast
  from decrement_spec[OF ro this] obtain st1 where st1: "decrement_ref_count p st = Some st1"
    "refs_ok ((\<lambda>_. 0)(p := - 1)) st1" "tables st1 = tables st"
    "closed st1 = closed st @ (if refs p st = 1 then [p] else [])"
    "dom (descs st1) = (if refs p st = 1 then dom (descs st) - {p} else dom (descs st))" by auto
  define t where "t = (tables st ! pr)\<lparr>file_descriptors := (fds_of st pr)[i := 0],
    num_file_descriptors := num_file_descriptors (tables st ! pr) - 1,
    first_free_fdnum := min (int i) (first_free_fdnum (tables st ! pr))\<rparr>"
  let ?st = "st1\<lparr>tables := (tables st1)[pr := t]\<rparr>"
  have "fd_close pr i st = Some ?st"
    using pr i p st1 by (simp add: fd_close_def t_def min_def)
  moreover have "refs_ok (\<lambda>_. 0) ?st"
    by (rule refs_ok_set_slot[OF st1(2), of pr i t 0]) (use st1(3) pr i p in \<open>auto simp: t_def\<close>)
  moreover have "table_ok t"
  proof -
    have "table_ok (tables st ! pr)" using to pr by simp
    then show ?thesis by (auto simp: table_ok_def t_def nth_list_update dest!: set_update_subset_insert[THEN subsetD])
  qed
  then have "\<forall>t'\<in>set (tables ?st). table_ok t'"
    using to st1(3) by (auto dest!: set_update_subset_insert[THEN subsetD])
  ultimately show ?thesis using st1 pr by (auto simp: fd_ok_def t_def)
qed

text \<open>Storing a duplicate of a live description in an empty slot.\<close>

lemma duplicate_into_spec:
  assumes ro: "refs_ok (\<lambda>_. 0) st" and pr: "pr < length (tables st)" and i: "i < length (fds_of st pr)"
    and to: "\<And>j. j < length (tables st) \<Longrightarrow> j \<noteq> pr \<Longrightarrow> table_ok (tables st ! j)"
    and free: "get_description (fds_of st pr ! i) = 0"
    and src: "get_description data = p" "descs st p = Some d"
    and new: "\<And>x. get_description x = p \<Longrightarrow> get_description (g x) = p"
    and t: "\<And>x. get_description x = p \<Longrightarrow> table_ok (with_slot i x (tables st ! pr))"
  shows "\<exists>st1 st'. fd_duplicate keep data st = Some (if keep then data else data AND NOT flags_mask, st1) \<and>
           length (tables st1) = length (tables st) \<and> fds_of st1 pr = fds_of st pr \<and>
           set_slot pr i (g (if keep then data else data AND NOT flags_mask)) st1 = Some st' \<and> fd_ok st' \<and>
           tables st' = (tables st)[pr := with_slot i (g (if keep then data else data AND NOT flags_mask)) (tables st ! pr)] \<and>
           closed st' = closed st \<and> dom (descs st') = dom (descs st)"
proof -
  let ?new = "g (if keep then data else data AND NOT flags_mask)"
  from increment_spec[OF ro src(2)] obtain st1 where st1: "increment_ref_count p st = Some st1"
    "refs_ok ((\<lambda>_. 0)(p := 1)) st1" "tables st1 = tables st" "closed st1 = closed st"
    "dom (descs st1) = dom (descs st)" by auto
  have p: "p \<noteq> 0" using refs_ok_Some[OF ro src(2)] by simp
  have g: "get_description ?new = p" using new src(1) by simp
  let ?t = "with_slot i ?new (tables st ! pr)"
  let ?st = "st1\<lparr>tables := (tables st1)[pr := ?t]\<rparr>"
  have "refs_ok (\<lambda>_. 0) ?st"
    by (rule refs_ok_set_slot[OF st1(2), of pr i ?t ?new]) (use st1(3) pr i free g in \<open>auto simp: with_slot_def\<close>)
  moreover have "\<forall>t'\<in>set (tables ?st). table_ok t'"
    using tables_update_ok[OF to t[OF g]] st1(3) by simp
  moreover have "set_slot pr i ?new st1 = Some ?st" using st1(3) pr i by (simp add: with_slot_def)
  ultimately show ?thesis using st1 src by (auto simp: fd_duplicate_def fd_ok_def)
qed

lemma refs_ok_pad:
  assumes "refs_ok \<delta> st" "pr < length (tables st)" "file_descriptors t = fds_of st pr @ replicate n 0"
  shows "refs_ok \<delta> (st\<lparr>tables := (tables st)[pr := t]\<rparr>)"
proof -
  have "refs p (st\<lparr>tables := (tables st)[pr := t]\<rparr>) = refs p st" if "p \<noteq> 0" for p
    using refs_table_update[OF assms(2), of p t] that by (simp add: assms(3))
  then show ?thesis using refs_ok_Some[OF assms(1)] refs_ok_None[OF assms(1)] assms(1)
    by (intro refs_okI) (auto simp: refs_ok_def)
qed

lemma fd_ok_parts:
  assumes "fd_ok st"
  shows "refs_ok (\<lambda>_. 0) st" "\<And>j. j < length (tables st) \<Longrightarrow> table_ok (tables st ! j)"
  using assms by (auto simp: fd_ok_def)

text \<open>Allocating a number and filling its slot; \<open>p\<close> is what the slot will refer to.\<close>

lemma allocate_fd_spec:
  assumes ok: "fd_ok st" and pr: "pr < length (tables st)"
  shows "\<exists>i t. allocate_fd pr m st = Some (i, st\<lparr>tables := (tables st)[pr := t]\<rparr>) \<and>
           i < length (file_descriptors t) \<and>
           get_description (file_descriptors t ! i) = 0 \<and>
           (\<exists>n. file_descriptors t = fds_of st pr @ replicate n 0) \<and>
           (\<forall>j. max 0 m \<le> int j \<and> j < i \<longrightarrow> get_description (fds_of st pr ! j) \<noteq> 0) \<and>
           (\<forall>x. get_description x \<noteq> 0 \<longrightarrow> table_ok (with_slot i x t))"
proof -
  obtain i t where a: "allocate_fdnum m (tables st ! pr) = (i, t)" by fastforce
  note spec = allocate_fdnum_spec[OF fd_ok_parts(2)[OF ok pr] a]
  have "allocate_fd pr m st = Some (i, st\<lparr>tables := (tables st)[pr := t]\<rparr>)"
    using pr a by (simp add: allocate_fd_def)
  then show ?thesis using spec by blast
qed

lemma install_description_spec:
  assumes ok: "fd_ok st" and pr: "pr < length (tables st)" and p: "p \<noteq> 0" "p AND 1 = 0" "descs st p = None"
  shows "\<exists>fd st'. install_description pr p node fl c st = Some (fd, st') \<and> fd_ok st' \<and>
           length (tables st') = length (tables st) \<and> get_file_description pr (int fd) st' = Some p \<and>
           descs st' p = Some (description_new node fl) \<and>
           (\<forall>j<fd. get_description (fds_of st pr ! j) \<noteq> 0)"
proof -
  let ?st0 = "st\<lparr>descs := (descs st)(p \<mapsto> description_new node fl)\<rparr>"
  let ?x = "fd_init p (if c then FD_CLOEXEC else 0)"
  note ro = fd_ok_parts(1)[OF ok] and to = fd_ok_parts(2)[OF ok]
  have r0: "refs p st = 0" using refs_ok_None[OF ro p(3,1)] by simp
  have ro0: "refs_ok ((\<lambda>_. 0)(p := 1)) ?st0"
    using refs_ok_Some[OF ro] refs_ok_None[OF ro] r0 p ro
    by (intro refs_okI) (auto simp: refs_ok_def description_new_def split: if_splits)
  obtain i t where a: "allocate_fdnum 0 (tables st ! pr) = (i, t)" by fastforce
  note spec = allocate_fdnum_spec[OF to[OF pr] a]
  obtain n where n: "file_descriptors t = fds_of st pr @ replicate n 0" using spec(3) by blast
  let ?st1 = "?st0\<lparr>tables := (tables st)[pr := t]\<rparr>" and ?t = "with_slot i ?x t"
  let ?st2 = "?st1\<lparr>tables := (tables ?st1)[pr := ?t]\<rparr>"
  have ro1: "refs_ok ((\<lambda>_. 0)(p := 1)) ?st1" using refs_ok_pad[OF ro0, of pr t n] pr n by simp
  have "refs_ok (\<lambda>_. 0) ?st2"
    by (rule refs_ok_set_slot[OF ro1, of pr i ?t ?x]) (use pr spec(1,2) p in \<open>auto simp: with_slot_def\<close>)
  moreover have "\<forall>t'\<in>set (tables ?st2). table_ok t'"
    using tables_update_ok[OF to spec(6), of pr ?x] p by simp
  moreover have "install_description pr p node fl c st = Some (i, ?st2)"
    using pr a spec(1) by (simp add: install_description_def allocate_fd_def with_slot_def)
  moreover have "get_file_description pr (int i) ?st2 = Some p"
    using pr spec(1) p(2) by (simp add: get_file_description_def with_slot_def)
  ultimately show ?thesis using spec(4) pr by (auto simp: fd_ok_def)
qed

lemma syscall_close_spec:
  assumes ok: "fd_ok st" and pr: "pr < length (tables st)"
  shows "\<exists>r st'. syscall_close pr fd st = Some (r, st') \<and> fd_ok st' \<and> length (tables st') = length (tables st)"
proof (cases "fd < 0 \<or> int (length (fds_of st pr)) \<le> fd \<or> get_description (fds_of st pr ! nat fd) = 0")
  case True
  then show ?thesis using ok pr by (auto simp: syscall_close_def)
next
  case False
  then have i: "nat fd < length (fds_of st pr)" by auto
  from fd_close_spec[OF ok pr i refl] False show ?thesis using pr i by (auto simp: syscall_close_def)
qed

lemma close_where_spec:
  assumes "fd_ok st" "pr < length (tables st)" "\<forall>i\<in>set is. i < length (fds_of st pr)"
    and "\<And>d. P d \<Longrightarrow> d \<noteq> 0"
  shows "\<exists>st'. close_where pr P is st = Some st' \<and> fd_ok st' \<and> length (tables st') = length (tables st) \<and>
           length (fds_of st' pr) = length (fds_of st pr) \<and>
           (\<forall>j<length (fds_of st pr). fds_of st' pr ! j = (if j \<in> set is \<and> P (fds_of st pr ! j) then 0 else fds_of st pr ! j))"
  using assms(1-3)
proof (induction "is" arbitrary: st)
  case (Cons i "is")
  have i: "i < length (fds_of st pr)" using Cons.prems(3) by simp
  show ?case
  proof (cases "P (fds_of st pr ! i)")
    case False
    then show ?thesis using Cons.IH[OF Cons.prems(1,2)] Cons.prems i by (auto split: if_splits)
  next
    case True
    have "table_ok (tables st ! pr)" using fd_ok_parts(2)[OF Cons.prems(1,2)] .
    then have nz: "get_description (fds_of st pr ! i) \<noteq> 0"
      using assms(4)[OF True] i by (auto simp: table_ok_def)
    obtain st1 where st1: "fd_close pr i st = Some st1" "fd_ok st1" "length (tables st1) = length (tables st)"
      "fds_of st1 pr = (fds_of st pr)[i := 0]" using fd_close_spec[OF Cons.prems(1,2) i refl nz] by auto
    have np: "\<not> P 0" using assms(4)[of 0] by auto
    obtain st' where "close_where pr P is st1 = Some st'" "fd_ok st'" "length (tables st') = length (tables st1)"
      "length (fds_of st' pr) = length (fds_of st1 pr)"
      "\<forall>j<length (fds_of st1 pr). fds_of st' pr ! j =
         (if j \<in> set is \<and> P (fds_of st1 pr ! j) then 0 else fds_of st1 pr ! j)"
      using Cons.IH[OF st1(2)] Cons.prems st1(3,4) by auto
    then show ?thesis using True i Cons.prems(2) st1 np by (auto simp: nth_list_update)
  qed
qed simp

lemma set_flags_slot_spec:
  assumes ok: "fd_ok st" and pr: "pr < length (tables st)" and i: "i < length (fds_of st pr)"
    and nz: "get_description (fds_of st pr ! i) \<noteq> 0"
  shows "\<exists>st'. set_slot pr i (set_flags (fds_of st pr ! i) fl) st = Some st' \<and> fd_ok st' \<and>
           length (tables st') = length (tables st) \<and> length (fds_of st' pr) = length (fds_of st pr)"
proof -
  let ?x = "set_flags (fds_of st pr ! i) fl" and ?t = "with_slot i (set_flags (fds_of st pr ! i) fl) (tables st ! pr)"
  note ro = fd_ok_parts(1)[OF ok] and to = fd_ok_parts(2)[OF ok]
  have "refs_ok (\<lambda>_. 0) (st\<lparr>tables := (tables st)[pr := ?t]\<rparr>)"
    by (rule refs_ok_set_slot[OF ro pr i, of ?t ?x]) (simp_all add: with_slot_def)
  moreover have "table_ok ?t" by (rule table_ok_with_slot[OF to[OF pr] i]) (simp add: nz)
  ultimately show ?thesis using pr i tables_update_ok[OF to, of pr ?t] by (auto simp: fd_ok_def with_slot_def)
qed

lemma close_range_loop_spec:
  assumes "fd_ok st" "pr < length (tables st)" "\<forall>i\<in>set is. i < length (fds_of st pr)"
  shows "\<exists>st'. close_range_loop pr c is st = Some st' \<and> fd_ok st' \<and> length (tables st') = length (tables st)"
  using assms
proof (induction "is" arbitrary: st)
  case (Cons i "is")
  have i: "i < length (fds_of st pr)" using Cons.prems(3) by simp
  show ?case
  proof (cases "get_description (fds_of st pr ! i) = 0")
    case True
    then show ?thesis using Cons.IH[OF Cons.prems(1,2)] Cons.prems i by auto
  next
    case nz: False
    obtain st1 where st1: "(if c then set_slot pr i (set_flags (fds_of st pr ! i) FD_CLOEXEC) st else fd_close pr i st) = Some st1"
      "fd_ok st1" "length (tables st1) = length (tables st)" "length (fds_of st1 pr) = length (fds_of st pr)"
      using fd_close_spec[OF Cons.prems(1,2) i refl nz] set_flags_slot_spec[OF Cons.prems(1,2) i nz, of FD_CLOEXEC]
      by (cases c) auto
    obtain st' where st': "close_range_loop pr c is st1 = Some st'" "fd_ok st'" "length (tables st') = length (tables st1)"
      using Cons.IH[OF st1(2)] Cons.prems st1(3,4) by auto
    have "close_range_loop pr c (i # is) st = Some st'"
      using nz i Cons.prems(2) st1(1) st'(1) by (simp split: if_splits)
    then show ?thesis using st' st1(3) by auto
  qed
qed simp

lemma syscall_close_range_spec:
  assumes ok: "fd_ok st" and pr: "pr < length (tables st)" and ne: "fds_of st pr \<noteq> []"
    and small: "length (fds_of st pr) < 2 ^ 64"
  shows "\<exists>r st'. syscall_close_range pr first lst fl st = Some (r, st') \<and> fd_ok st' \<and>
           length (tables st') = length (tables st)"
proof -
  let ?n = "length (fds_of st pr)" and ?l = "kmin (ucast lst) (of_nat (length (fds_of st pr)) - 1)"
  have n: "unat (of_nat ?n :: usize) = ?n" using small by (simp add: unat_of_nat)
  have "(1 :: usize) \<le> of_nat ?n" using ne n by (simp add: word_le_nat_alt Suc_le_eq)
  then have "unat (of_nat ?n - 1 :: usize) = ?n - 1" using n by (simp add: unat_sub)
  moreover have "unat (kmin a b) \<le> unat b" for a b :: usize by (simp add: kmin_def word_less_nat_alt)
  ultimately have "unat ?l \<le> ?n - 1" by metis
  moreover have "0 < ?n" using ne by simp
  ultimately have "unat ?l < ?n" by linarith
  then have "\<forall>i\<in>set [unat first..<Suc (unat ?l)]. i < ?n" by auto
  from close_range_loop_spec[OF ok pr this] obtain st' where
    "close_range_loop pr (fl AND CLOSE_RANGE_CLOEXEC \<noteq> 0) [unat first..<Suc (unat ?l)] st = Some st'"
    "fd_ok st'" "length (tables st') = length (tables st)" by blast
  then show ?thesis using pr ok by (simp add: syscall_close_range_def Let_def)
qed

lemma fcntl_dup_spec:
  assumes ok: "fd_ok st" and pr: "pr < length (tables st)" and i: "i < length (fds_of st pr)"
    and nz: "get_description (fds_of st pr ! i) \<noteq> 0" and cmd: "cmd = F_DUPFD \<or> cmd = F_DUPFD_CLOEXEC"
  shows "\<exists>fd st'. fcntl_impl seals pr (int i) cmd arg st = Some (Inr (of_nat fd), st') \<and> fd_ok st' \<and>
           length (tables st') = length (tables st) \<and> fd < length (fds_of st' pr) \<and> fd \<noteq> i \<and>
           get_description (fds_of st' pr ! fd) = get_description (fds_of st pr ! i) \<and>
           get_flags (fds_of st' pr ! fd) = (if cmd = F_DUPFD_CLOEXEC then FD_CLOEXEC else 0) \<and>
           (\<forall>j<fd. max 0 (sint (ucast arg :: u32)) \<le> int j \<longrightarrow> get_description (fds_of st pr ! j) \<noteq> 0)"
proof -
  note ro = fd_ok_parts(1)[OF ok] and to = fd_ok_parts(2)[OF ok]
  let ?m = "sint (ucast arg :: u32)" and ?data = "fds_of st pr ! i"
  define g where "g = (\<lambda>x. if cmd = F_DUPFD_CLOEXEC then set_flags x FD_CLOEXEC else x)"
  obtain k t where a: "allocate_fdnum ?m (tables st ! pr) = (k, t)" by fastforce
  note spec = allocate_fdnum_spec[OF to[OF pr] a]
  obtain n where n: "file_descriptors t = fds_of st pr @ replicate n 0" using spec(3) by blast
  let ?st1 = "st\<lparr>tables := (tables st)[pr := t]\<rparr>"
  have ki: "k \<noteq> i" using spec(2) n i nz by (auto simp: nth_append)
  have st1: "allocate_fd pr ?m st = Some (k, ?st1)" "get_slot pr i ?st1 = Some ?data"
    using pr a n i by (simp_all add: allocate_fd_def nth_append)
  obtain d where d: "descs st (get_description ?data) = Some d" using live_slot[OF ok pr i refl nz] by blast
  have h1: "pr < length (tables ?st1)" "k < length (fds_of ?st1 pr)" "get_description (fds_of ?st1 pr ! k) = 0"
    "descs ?st1 (get_description ?data) = Some d" using pr spec(1,2) d by simp_all
  have h2: "table_ok (tables ?st1 ! j)" if "j < length (tables ?st1)" "j \<noteq> pr" for j using to that by simp
  have h3: "table_ok (with_slot k x (tables ?st1 ! pr))" if "get_description x = get_description ?data" for x
    using spec(6) that nz pr by simp
  have h4: "get_description x = get_description ?data \<Longrightarrow> get_description (g x) = get_description ?data" for x
    by (simp add: g_def)
  obtain st2 st' where s2: "fd_duplicate False ?data ?st1 = Some (?data AND NOT flags_mask, st2)"
    "set_slot pr k (g (?data AND NOT flags_mask)) st2 = Some st'" "fd_ok st'"
    "tables st' = (tables ?st1)[pr := with_slot k (g (?data AND NOT flags_mask)) (tables ?st1 ! pr)]"
    using duplicate_into_spec[where g = g and keep = False,
        OF refs_ok_pad[OF ro pr n] h1(1,2) h2 h1(3) refl h1(4) h4 h3] by auto
  have "fcntl_impl seals pr (int i) cmd arg st = Some (Inr (of_nat k), st')"
    using cmd pr i nz st1 s2(1,2) by (auto simp: fcntl_impl_def g_def)
  moreover have "get_flags (?data AND NOT flags_mask) = 0"
    unfolding get_flags_def flags_mask_def by (rule bit_word_eqI) (auto simp: bit_simps)
  ultimately show ?thesis using s2(3,4) pr spec(1,4) ki
    by (auto simp: g_def with_slot_def FD_CLOEXEC_def)
qed

lemma fcntl_spec:
  assumes ok: "fd_ok st" and pr: "pr < length (tables st)"
  shows "\<exists>r st'. fcntl_impl seals pr fd cmd arg st = Some (r, st') \<and> fd_ok st' \<and> length (tables st') = length (tables st)"
proof (cases "fd < 0 \<or> int (length (fds_of st pr)) \<le> fd \<or> get_description (fds_of st pr ! nat fd) = 0")
  case True
  then show ?thesis using ok pr by (auto simp: fcntl_impl_def)
next
  case False
  then have i: "nat fd < length (fds_of st pr)" "int (nat fd) = fd"
    and nz: "get_description (fds_of st pr ! nat fd) \<noteq> 0" by auto
  obtain d where d: "descs st (get_description (fds_of st pr ! nat fd)) = Some d"
    using live_slot[OF ok pr i(1) refl nz] by blast
  consider (dup) "cmd = F_DUPFD \<or> cmd = F_DUPFD_CLOEXEC" | (setfd) "cmd = F_SETFD" | (setfl) "cmd = F_SETFL"
    | (other) "cmd \<noteq> F_DUPFD" "cmd \<noteq> F_DUPFD_CLOEXEC" "cmd \<noteq> F_SETFD" "cmd \<noteq> F_SETFL" by blast
  then show ?thesis
  proof cases
    case dup
    from fcntl_dup_spec[OF ok pr i(1) nz dup, of seals arg] show ?thesis unfolding i(2) by blast
  next
    case setfd
    from set_flags_slot_spec[OF ok pr i(1) nz, of arg] show ?thesis using setfd pr i nz
      by (auto simp: fcntl_impl_def)
  next
    case setfl
    let ?d = "d\<lparr>flags := (flags d AND NOT setfl_mask) OR (arg AND setfl_mask)\<rparr>"
    let ?st = "st\<lparr>descs := (descs st)(get_description (fds_of st pr ! nat fd) \<mapsto> ?d)\<rparr>"
    have "refs_ok (\<lambda>_. 0) ?st"
      using fd_ok_parts(1)[OF ok] refs_ok_Some[OF fd_ok_parts(1)[OF ok]] refs_ok_None[OF fd_ok_parts(1)[OF ok]] d nz
      by (intro refs_okI) (auto simp: refs_ok_def split: if_splits)
    then show ?thesis using setfl pr i nz d ok by (auto simp: fcntl_impl_def fd_ok_def)
  next
    case other
    then show ?thesis using pr i nz d ok by (cases cmd) (auto simp: fcntl_impl_def)
  qed
qed

text \<open>\<^verbatim>\<open>dup2\<close>/\<^verbatim>\<open>dup3\<close> past the argument checks.\<close>

lemma dup3_spec:
  assumes ok: "fd_ok st" and pr: "pr < length (tables st)" and i: "i < length (fds_of st pr)"
    and nz: "get_description (fds_of st pr ! i) \<noteq> 0" and k: "k \<le> 1023" "k \<noteq> i" and fl: "fl AND NOT FD_CLOEXEC = 0"
  shows "\<exists>st'. dup3_impl pr (int i) (int k) fl st = Some (Inr (int k), st') \<and> fd_ok st' \<and>
           length (tables st') = length (tables st) \<and> k < length (fds_of st' pr) \<and>
           get_description (fds_of st' pr ! k) = get_description (fds_of st pr ! i) \<and>
           get_flags (fds_of st' pr ! k) = fl AND 1 \<and>
           (\<forall>j<length (fds_of st pr). j \<noteq> k \<longrightarrow> fds_of st' pr ! j = fds_of st pr ! j)"
proof -
  note ro = fd_ok_parts(1)[OF ok] and to = fd_ok_parts(2)[OF ok]
  let ?n = "nat (int k + 1) - length (fds_of st pr)" and ?data = "fds_of st pr ! i"
  let ?t = "(tables st ! pr)\<lparr>file_descriptors := fds_of st pr @ replicate ?n 0\<rparr>"
  let ?st1 = "st\<lparr>tables := (tables st)[pr := ?t]\<rparr>"
  have kl: "k < length (fds_of ?st1 pr)" using pr by (auto simp: nat_add_distrib)
  have "refs_ok (\<lambda>_. 0) ?st1" using refs_ok_pad[OF ro pr, of ?t ?n] by simp
  moreover have "table_ok ?t" by (rule table_ok_pad[OF to[OF pr]])
  ultimately have ok1: "fd_ok ?st1" using tables_update_ok[OF to, of pr ?t] by (simp add: fd_ok_def)
  obtain st2 where st2: "(if get_description (fds_of ?st1 pr ! k) \<noteq> 0 then fd_close pr k ?st1 else Some ?st1) = Some st2"
    "fd_ok st2" "length (tables st2) = length (tables st)" "get_description (fds_of st2 pr ! k) = 0"
    "length (fds_of st2 pr) = length (fds_of ?st1 pr)"
    "\<And>j. j \<noteq> k \<Longrightarrow> fds_of st2 pr ! j = fds_of ?st1 pr ! j"
  proof (cases "get_description (fds_of ?st1 pr ! k) = 0")
    case False
    with fd_close_spec[OF ok1 _ kl refl False] pr kl that show ?thesis by auto
  qed (use that ok1 in simp)
  have data2: "fds_of st2 pr ! i = ?data" "i < length (fds_of st2 pr)"
    using st2(5,6) k(2) i pr by (auto simp: nth_append)
  have nz2: "get_description (fds_of st2 pr ! i) \<noteq> 0" using nz data2(1) by simp
  have pr2: "pr < length (tables st2)" using pr st2(3) by simp
  obtain d where d: "descs st2 (get_description ?data) = Some d"
    using live_slot[OF st2(2) pr2 data2(2) refl nz2] data2(1) by auto
  have h2: "table_ok (tables st2 ! j)" if "j < length (tables st2)" "j \<noteq> pr" for j
    using fd_ok_parts(2)[OF st2(2)] that by simp
  have kl2: "k < length (fds_of st2 pr)" using kl st2(5) by simp
  have h3: "table_ok (with_slot k x (tables st2 ! pr))" if "get_description x = get_description ?data" for x
    using table_ok_with_slot[OF fd_ok_parts(2)[OF st2(2) pr2] kl2] that nz by simp
  obtain st3 st' where s3: "fd_duplicate False ?data st2 = Some (?data AND NOT flags_mask, st3)"
    "set_slot pr k (set_flags (?data AND NOT flags_mask) fl) st3 = Some st'" "fd_ok st'"
    "tables st' = (tables st2)[pr := with_slot k (set_flags (?data AND NOT flags_mask) fl) (tables st2 ! pr)]"
    using duplicate_into_spec[where g = "\<lambda>x. set_flags x fl" and keep = False,
        OF fd_ok_parts(1)[OF st2(2)] pr2 kl2 h2 st2(4) refl d _ h3] by auto
  have "get_slot pr k ?st1 = Some (fds_of ?st1 pr ! k)" by (rule get_slot_in) (use pr kl in simp_all)
  moreover have "get_slot pr i st2 = Some ?data" using pr2 data2 by simp
  ultimately have "dup3_replace pr i k fl ?st1 = Some st'"
    by (simp only: dup3_replace_def bind.bind_lunit st2(1) s3(1,2) prod.case)
  then have "dup3_impl pr (int i) (int k) fl st = Some (Inr (int k), st')"
    using pr i nz k fl by (simp add: dup3_impl_def Let_def)
  moreover have "\<forall>j<length (fds_of st pr). j \<noteq> k \<longrightarrow> fds_of st' pr ! j = fds_of st pr ! j"
    using s3(4) st2(6) pr pr2 by (auto simp: with_slot_def nth_append)
  ultimately show ?thesis using s3(3,4) pr2 kl2 st2(3) by (simp add: with_slot_def)
qed

lemma dup3_total:
  assumes ok: "fd_ok st" and pr: "pr < length (tables st)"
  shows "\<exists>r st'. dup3_impl pr oldfd newfd fl st = Some (r, st') \<and> fd_ok st' \<and> length (tables st') = length (tables st)"
proof (cases "oldfd < 0 \<or> int (length (fds_of st pr)) \<le> oldfd \<or> get_description (fds_of st pr ! nat oldfd) = 0 \<or>
    newfd > 1023 \<or> newfd < 0 \<or> fl AND NOT FD_CLOEXEC \<noteq> 0 \<or> oldfd = newfd")
  case True
  then show ?thesis using ok pr by (auto simp: dup3_impl_def)
next
  case False
  then have "nat oldfd < length (fds_of st pr)" "get_description (fds_of st pr ! nat oldfd) \<noteq> 0"
    "nat newfd \<le> 1023" "nat newfd \<noteq> nat oldfd" "fl AND NOT FD_CLOEXEC = 0" by auto
  from dup3_spec[OF ok pr this] False show ?thesis by auto
qed

lemma duplicate_all_spec:
  assumes "refs_ok \<delta> st" "\<forall>d\<in>set fds. get_description d \<noteq> 0 \<longrightarrow> get_description d \<in> dom (descs st)"
  shows "\<exists>st'. duplicate_all fds st = Some (map (\<lambda>d. if get_description d = 0 then 0 else d) fds, st') \<and>
           refs_ok (\<lambda>p. if p = 0 then \<delta> 0 else \<delta> p + int (slot_refs p fds)) st' \<and> tables st' = tables st \<and> closed st' = closed st"
  using assms
proof (induction fds arbitrary: st \<delta>)
  case Nil
  have "(\<lambda>p. if p = 0 then \<delta> 0 else \<delta> p + int (slot_refs p [])) = \<delta>" by (auto simp: slot_refs_def)
  then show ?case using Nil by simp
next
  case (Cons x xs)
  let ?p = "get_description x"
  show ?case
  proof (cases "?p = 0")
    case True
    then have "slot_refs p (x # xs) = slot_refs p xs" if "p \<noteq> 0" for p using that by (simp add: slot_refs_def)
    then have "(\<lambda>p. if p = 0 then \<delta> 0 else \<delta> p + int (slot_refs p (x # xs))) =
        (\<lambda>p. if p = 0 then \<delta> 0 else \<delta> p + int (slot_refs p xs))" by auto
    then show ?thesis using Cons.IH[OF Cons.prems(1)] Cons.prems(2) True by auto
  next
    case False
    then obtain d where d: "descs st ?p = Some d" using Cons.prems(2) by auto
    from increment_spec[OF Cons.prems(1) d] obtain st1 where st1: "increment_ref_count ?p st = Some st1"
      "refs_ok (\<delta>(?p := \<delta> ?p + 1)) st1" "tables st1 = tables st" "closed st1 = closed st"
      "dom (descs st1) = dom (descs st)" by blast
    have "\<forall>d\<in>set xs. get_description d \<noteq> 0 \<longrightarrow> get_description d \<in> dom (descs st1)"
      using Cons.prems(2) st1(5) by simp
    from Cons.IH[OF st1(2) this] obtain st' where
      st': "duplicate_all xs st1 = Some (map (\<lambda>d. if get_description d = 0 then 0 else d) xs, st')"
      "refs_ok (\<lambda>p. if p = 0 then (\<delta>(?p := \<delta> ?p + 1)) 0 else (\<delta>(?p := \<delta> ?p + 1)) p + int (slot_refs p xs)) st'"
      "tables st' = tables st1" "closed st' = closed st1" by blast
    have "(\<lambda>p. if p = 0 then (\<delta>(?p := \<delta> ?p + 1)) 0 else (\<delta>(?p := \<delta> ?p + 1)) p + int (slot_refs p xs)) =
        (\<lambda>p. if p = 0 then \<delta> 0 else \<delta> p + int (slot_refs p (x # xs)))"
      using False by (auto simp: fun_eq_iff slot_refs_def)
    then show ?thesis using st1 st' False by (auto simp: fd_duplicate_def)
  qed
qed

lemma fork_fds_spec:
  assumes ok: "fd_ok st" and pr: "pr < length (tables st)"
  shows "\<exists>st'. fork_fds pr st = Some st' \<and> fd_ok st' \<and> tables st' = tables st @ [tables st ! pr] \<and> closed st' = closed st"
proof -
  let ?fds = "fds_of st pr"
  note ro = fd_ok_parts(1)[OF ok] and to = fd_ok_parts(2)[OF ok]
  have live: "\<forall>d\<in>set ?fds. get_description d \<noteq> 0 \<longrightarrow> get_description d \<in> dom (descs st)"
    using live_slot[OF ok pr] by (auto simp: in_set_conv_nth)
  have same: "map (\<lambda>d. if get_description d = 0 then 0 else d) ?fds = ?fds"
    using to[OF pr] by (auto simp: table_ok_def intro!: map_idI)
  from duplicate_all_spec[OF ro live] obtain st1 where
    st1: "duplicate_all ?fds st = Some (?fds, st1)"
    "refs_ok (\<lambda>p. if p = 0 then 0 else 0 + int (slot_refs p ?fds)) st1" "tables st1 = tables st" "closed st1 = closed st"
    unfolding same by blast
  let ?st = "st1\<lparr>tables := tables st1 @ [tables st ! pr]\<rparr>"
  have "refs p ?st = refs p st1 + slot_refs p ?fds" for p by (simp add: refs_def)
  then have "refs_ok (\<lambda>_. 0) ?st"
    using refs_ok_Some[OF st1(2)] refs_ok_None[OF st1(2)] st1(2)
    by (intro refs_okI) (auto simp: refs_ok_def)
  moreover have "\<forall>t\<in>set (tables ?st). table_ok t" using ok pr st1(3) by (auto simp: fd_ok_def)
  ultimately show ?thesis using pr st1 by (auto simp: fork_fds_def fd_ok_def)
qed

section \<open>Every history of descriptor operations\<close>

text \<open>
  The states reachable from an empty table by any sequence of the operations above, on any process.
  An opened description gets an address the allocator returns: not null, even, not in use.
\<close>

inductive fd_reachable :: "fd_state \<Rightarrow> bool" where
  boot: "fd_reachable \<lparr>tables = [\<lparr>file_descriptors = [], num_file_descriptors = 0, first_free_fdnum = 0\<rparr>],
           descs = Map.empty, closed = []\<rparr>"
| opened: "fd_reachable st \<Longrightarrow> pr < length (tables st) \<Longrightarrow> p \<noteq> 0 \<Longrightarrow> p AND 1 = 0 \<Longrightarrow> descs st p = None \<Longrightarrow>
    install_description pr p node fl c st = Some (fd, st') \<Longrightarrow> fd_reachable st'"
| closing: "fd_reachable st \<Longrightarrow> pr < length (tables st) \<Longrightarrow> syscall_close pr n st = Some (r, st') \<Longrightarrow> fd_reachable st'"
| closing_range: "fd_reachable st \<Longrightarrow> pr < length (tables st) \<Longrightarrow> fds_of st pr \<noteq> [] \<Longrightarrow>
    length (fds_of st pr) < 2 ^ 64 \<Longrightarrow>
    syscall_close_range pr first lst rfl st = Some (r, st') \<Longrightarrow> fd_reachable st'"
| fcntl: "fd_reachable st \<Longrightarrow> pr < length (tables st) \<Longrightarrow> fcntl_impl seals pr n cmd arg st = Some (rc, st') \<Longrightarrow>
    fd_reachable st'"
| dup: "fd_reachable st \<Longrightarrow> pr < length (tables st) \<Longrightarrow> dup3_impl pr n m fl st = Some (ri, st') \<Longrightarrow> fd_reachable st'"
| forked: "fd_reachable st \<Longrightarrow> pr < length (tables st) \<Longrightarrow> fork_fds pr st = Some st' \<Longrightarrow> fd_reachable st'"
| exiting: "fd_reachable st \<Longrightarrow> pr < length (tables st) \<Longrightarrow> exit_fds pr st = Some st' \<Longrightarrow> fd_reachable st'"
| exec: "fd_reachable st \<Longrightarrow> pr < length (tables st) \<Longrightarrow> exec_fds pr st = Some st' \<Longrightarrow> fd_reachable st'"

lemma exit_exec_spec:
  assumes ok: "fd_ok st" and pr: "pr < length (tables st)"
  shows "\<exists>st'. exit_fds pr st = Some st' \<and> fd_ok st' \<and> length (tables st') = length (tables st) \<and>
           (\<forall>i<length (fds_of st pr). fds_of st' pr ! i = 0) \<and> length (fds_of st' pr) = length (fds_of st pr)"
    and "\<exists>st'. exec_fds pr st = Some st' \<and> fd_ok st' \<and> length (tables st') = length (tables st) \<and>
           (\<forall>i<length (fds_of st pr). fds_of st' pr ! i =
              (if get_flags (fds_of st pr ! i) = FD_CLOEXEC then 0 else fds_of st pr ! i))"
proof -
  have z: "\<And>d. d \<in> set (fds_of st pr) \<Longrightarrow> get_description d = 0 \<Longrightarrow> d = 0"
    using fd_ok_parts(2)[OF ok pr] by (auto simp: table_ok_def)
  have all: "\<forall>i\<in>set [0..<length (fds_of st pr)]. i < length (fds_of st pr)" by simp
  have f: "get_flags d AND FD_CLOEXEC \<noteq> 0 \<longleftrightarrow> get_flags d = FD_CLOEXEC" for d
    by (simp add: get_flags_def flags_mask_def FD_CLOEXEC_def and.assoc) (simp add: and_one_eq mod_2_eq_odd)
  show "\<exists>st'. exit_fds pr st = Some st' \<and> fd_ok st' \<and> length (tables st') = length (tables st) \<and>
           (\<forall>i<length (fds_of st pr). fds_of st' pr ! i = 0) \<and> length (fds_of st' pr) = length (fds_of st pr)"
  proof -
    obtain st' where "close_where pr (\<lambda>d. get_description d \<noteq> 0) [0..<length (fds_of st pr)] st = Some st'"
      "fd_ok st'" "length (tables st') = length (tables st)" "length (fds_of st' pr) = length (fds_of st pr)"
      "\<forall>j<length (fds_of st pr). fds_of st' pr ! j =
         (if j \<in> set [0..<length (fds_of st pr)] \<and> get_description (fds_of st pr ! j) \<noteq> 0 then 0 else fds_of st pr ! j)"
      using close_where_spec[OF ok pr all, of "\<lambda>d. get_description d \<noteq> 0"] by (metis get_description_0)
    then show ?thesis using pr z by (auto simp: exit_fds_def)
  qed
  show "\<exists>st'. exec_fds pr st = Some st' \<and> fd_ok st' \<and> length (tables st') = length (tables st) \<and>
           (\<forall>i<length (fds_of st pr). fds_of st' pr ! i =
              (if get_flags (fds_of st pr ! i) = FD_CLOEXEC then 0 else fds_of st pr ! i))"
  proof -
    have nz: "get_flags d = FD_CLOEXEC \<Longrightarrow> d \<noteq> 0" for d by (auto simp: get_flags_def FD_CLOEXEC_def)
    obtain st' where "close_where pr (\<lambda>d. get_flags d = FD_CLOEXEC) [0..<length (fds_of st pr)] st = Some st'"
      "fd_ok st'" "length (tables st') = length (tables st)"
      "\<forall>j<length (fds_of st pr). fds_of st' pr ! j =
         (if j \<in> set [0..<length (fds_of st pr)] \<and> get_flags (fds_of st pr ! j) = FD_CLOEXEC then 0 else fds_of st pr ! j)"
      using close_where_spec[OF ok pr all, of "\<lambda>d. get_flags d = FD_CLOEXEC"] nz by blast
    then show ?thesis using pr by (auto simp: exec_fds_def f)
  qed
qed

lemma fd_reachable_ok: "fd_reachable st \<Longrightarrow> fd_ok st"
proof (induction rule: fd_reachable.induct)
  case boot
  then show ?case by (simp add: fd_ok_def refs_ok_def refs_def slot_refs_def table_ok_def)
next
  case (opened st pr p node fl c fd st')
  then show ?case using install_description_spec[of st pr p node fl c] by auto
next
  case (closing st pr n r st')
  then show ?case using syscall_close_spec[of st pr n] by auto
next
  case (closing_range st pr first lst rfl r st')
  then show ?case using syscall_close_range_spec[of st pr first lst rfl] by auto
next
  case (fcntl st pr seals n cmd arg rc st')
  then show ?case using fcntl_spec[of st pr seals n cmd arg] by auto
next
  case (dup st pr n m fl ri st')
  then show ?case using dup3_total[of st pr n m fl] by auto
next
  case (forked st pr st')
  then show ?case using fork_fds_spec[of st pr] by auto
next
  case (exiting st pr st')
  then show ?case using exit_exec_spec(1)[of st pr] by auto
next
  case (exec st pr st')
  then show ?case using exit_exec_spec(2)[of st pr] by auto
qed

section \<open>Properties\<close>



text \<open>
  No descriptor operation touches a freed description or leaves the table: in every reachable
  state, on every process and for every argument, \<^verbatim>\<open>close\<close>, \<^verbatim>\<open>fcntl\<close>, \<^verbatim>\<open>dup2\<close>/\<^verbatim>\<open>dup3\<close>, fork, exec
  and exit complete.
\<close>

theorem descriptor_operations_complete:
  assumes "fd_reachable st" "pr < length (tables st)"
  shows "syscall_close pr fd st \<noteq> None \<and> fcntl_impl seals pr fd cmd arg st \<noteq> None \<and>
         dup3_impl pr fd fd' fl st \<noteq> None \<and> fork_fds pr st \<noteq> None \<and> exec_fds pr st \<noteq> None \<and>
         exit_fds pr st \<noteq> None"
  using syscall_close_spec[OF fd_reachable_ok[OF assms(1)] assms(2), of fd]
    fcntl_spec[OF fd_reachable_ok[OF assms(1)] assms(2), of seals fd cmd arg]
    dup3_total[OF fd_reachable_ok[OF assms(1)] assms(2), of fd fd' fl]
    fork_fds_spec[OF fd_reachable_ok[OF assms(1)] assms(2)]
    exit_exec_spec[OF fd_reachable_ok[OF assms(1)] assms(2)]
  by auto

theorem descriptor_operations_complete_witness:
  "syscall_close 0 7 \<lparr>tables = [\<lparr>file_descriptors = [], num_file_descriptors = 0, first_free_fdnum = 0\<rparr>],
           descs = Map.empty, closed = []\<rparr> \<noteq> None"
  using descriptor_operations_complete[OF boot, of 0 7] by simp

text \<open>
  \<^verbatim>\<open>allocate_fdnum\<close> returns a free slot, and no number between the requested minimum and it is
  free; filling the slot leaves the table consistent. The number is at least the minimum exactly
  when the minimum is not beyond the end of the table: past the end the next slot is returned,
  even if it is below the minimum.
\<close>

theorem allocate_fdnum_lowest:
  assumes "table_ok t" "allocate_fdnum m t = (i, t')"
  shows "i < length (file_descriptors t') \<and> get_description (file_descriptors t' ! i) = 0 \<and>
         (\<forall>j<i. max 0 m \<le> int j \<longrightarrow> get_description (file_descriptors t ! j) \<noteq> 0) \<and>
         (\<forall>x. get_description x \<noteq> 0 \<longrightarrow> table_ok (with_slot i x t')) \<and>
         (if m \<le> int (length (file_descriptors t)) then m \<le> int i else i = length (file_descriptors t))"
  using allocate_fdnum_spec[OF assms] by auto

theorem allocate_fdnum_lowest_witness:
  "table_ok \<lparr>file_descriptors = [2, 0, 4], num_file_descriptors = 2, first_free_fdnum = 1\<rparr> \<and>
   fst (allocate_fdnum 0 \<lparr>file_descriptors = [2, 0, 4], num_file_descriptors = 2, first_free_fdnum = 1\<rparr>) = 1"
proof -
  let ?t = "\<lparr>file_descriptors = [2, 0, 4], num_file_descriptors = 2, first_free_fdnum = 1\<rparr>"
  have ok: "table_ok ?t" by (auto simp: table_ok_def get_description_def flags_mask_def less_Suc_eq numeral_3_eq_3)
  obtain i t' where a: "allocate_fdnum 0 ?t = (i, t')" by fastforce
  have "\<not> 1 < i" using allocate_fdnum_lowest[OF ok a] by (force simp: get_description_def)
  moreover have "i \<noteq> 0"
  proof
    assume "i = 0"
    then have "get_description (file_descriptors t' ! 0) = 0" using allocate_fdnum_lowest[OF ok a] by simp
    moreover have "file_descriptors t' ! 0 = 2"
      using a by (auto simp: allocate_fdnum_def Let_def split: option.splits if_splits)
    ultimately show False by (simp add: get_description_def flags_mask_def)
  qed
  ultimately show ?thesis using ok a by simp
qed

text \<open>
  \<^verbatim>\<open>dup2\<close> and \<^verbatim>\<open>dup3\<close> make the new number refer to the old one's description, with exactly
  the requested close-on-exec flag, after closing what it referred to before; every other
  descriptor is untouched.
\<close>

theorem dup3_redirects:
  assumes "fd_reachable st" "pr < length (tables st)" "i < length (fds_of st pr)"
    and "get_description (fds_of st pr ! i) \<noteq> 0" "k \<le> 1023" "k \<noteq> i" "fl AND NOT FD_CLOEXEC = 0"
  shows "\<exists>st'. dup3_impl pr (int i) (int k) fl st = Some (Inr (int k), st') \<and>
           get_file_description pr (int k) st' = Some (get_description (fds_of st pr ! i)) \<and>
           get_flags (fds_of st' pr ! k) = fl AND 1 \<and>
           (\<forall>j<length (fds_of st pr). j \<noteq> k \<longrightarrow> fds_of st' pr ! j = fds_of st pr ! j)"
proof -
  from dup3_spec[OF fd_reachable_ok[OF assms(1)] assms(2-7)] obtain st' where
    "dup3_impl pr (int i) (int k) fl st = Some (Inr (int k), st')" "k < length (fds_of st' pr)"
    "get_description (fds_of st' pr ! k) = get_description (fds_of st pr ! i)" "get_flags (fds_of st' pr ! k) = fl AND 1"
    "\<forall>j<length (fds_of st pr). j \<noteq> k \<longrightarrow> fds_of st' pr ! j = fds_of st pr ! j" "pr < length (tables st')"
    using assms(2) by auto
  then show ?thesis by (auto simp: get_file_description_def)
qed

theorem dup3_redirects_witness:
  "\<exists>st st'. fd_reachable st \<and> dup3_impl 0 0 5 0 st = Some (Inr 5, st') \<and> get_file_description 0 5 st' = Some 2"
proof -
  let ?st0 = "\<lparr>tables = [\<lparr>file_descriptors = [], num_file_descriptors = 0, first_free_fdnum = 0\<rparr>],
    descs = Map.empty, closed = []\<rparr> :: fd_state"
  have i: "install_description 0 2 5 O_RDWR False ?st0 =
      Some (0, \<lparr>tables = [\<lparr>file_descriptors = [2], num_file_descriptors = 1, first_free_fdnum = 0\<rparr>],
        descs = [2 \<mapsto> description_new 5 O_RDWR], closed = []\<rparr>)"
    by (simp add: install_description_def allocate_fd_def get_table_def put_table_def allocate_fdnum_def
        set_slot_def find_free.simps fd_init_def)
  let ?st = "\<lparr>tables = [\<lparr>file_descriptors = [2], num_file_descriptors = 1, first_free_fdnum = 0\<rparr>],
        descs = [2 \<mapsto> description_new 5 O_RDWR], closed = []\<rparr> :: fd_state"
  have r: "fd_reachable ?st" by (rule opened[OF boot _ _ _ _ i]) simp_all
  have d: "get_description 2 = 2" by (simp add: get_description_def flags_mask_def)
  show ?thesis using r dup3_redirects[OF r, of 0 0 5 0] d by auto
qed

text \<open>
  \<^verbatim>\<open>execve\<close> closes exactly the descriptors marked close-on-exec and keeps every other one;
  exit leaves no descriptor open, and both keep the reference counts exact.
\<close>

theorem exec_and_exit_close:
  assumes "fd_reachable st" "pr < length (tables st)"
  shows "(\<exists>st'. exec_fds pr st = Some st' \<and> fd_ok st' \<and>
            (\<forall>i<length (fds_of st pr). fds_of st' pr ! i =
               (if get_flags (fds_of st pr ! i) = FD_CLOEXEC then 0 else fds_of st pr ! i))) \<and>
         (\<exists>st'. exit_fds pr st = Some st' \<and> fd_ok st' \<and> (\<forall>i<length (fds_of st pr). fds_of st' pr ! i = 0))"
  using exit_exec_spec[OF fd_reachable_ok[OF assms(1)] assms(2)] by blast

theorem exec_and_exit_close_witness:
  "\<exists>st'. exec_fds 0 \<lparr>tables = [\<lparr>file_descriptors = [], num_file_descriptors = 0, first_free_fdnum = 0\<rparr>],
           descs = Map.empty, closed = []\<rparr> = Some st'"
  using exec_and_exit_close[OF boot, of 0] by auto

text \<open>
  \<^verbatim>\<open>dup2\<close> onto a free number does not count the descriptor it opens:
  \<^verbatim>\<open>num_file_descriptors\<close>, documented as "the actual number", is one for a table with two open
  descriptors.
\<close>

theorem dup2_undercounts:
  "\<exists>st'. syscall_dup2 0 0 1 \<lparr>tables = [\<lparr>file_descriptors = [2], num_file_descriptors = 1, first_free_fdnum = 0\<rparr>],
        descs = [2 \<mapsto> description_new 5 O_RDWR], closed = []\<rparr> = Some (Inr 1, st') \<and>
     fds_of st' 0 = [2, 2] \<and> num_file_descriptors (tables st' ! 0) = 1"
  by (simp add: syscall_dup2_def dup3_impl_def dup3_replace_def get_table_def put_table_def get_slot_def
      set_slot_def fd_duplicate_def increment_ref_count_def get_description_def flags_mask_def set_flags_def
      rd_def wr_def nat_add_distrib)

end
