(* ===== verification/Userland_Channels.thy ===== *)
theory Userland_Channels
  imports Klib_Ring_Buffer Vfs_Descriptors
begin

text \<open>
  \<^verbatim>\<open>userland/pipe.cpp\<close> and \<^verbatim>\<open>userland/eventfd.cpp\<close>: the two blocking channels. A blocking call is a
  loop around \<^verbatim>\<open>Event::wait\<close>; one pass of it is a function that either returns or waits, and the
  loop takes what happens during its waits as an argument: \<open>None\<close> for a wait that returns
  \<^verbatim>\<open>-EINTR\<close>, \<open>Some s\<close> for one that ends with the object in state \<open>s\<close>, left there by other threads.
  A call that is still asleep when that list ends is \<open>Wait\<close>. Runs over arbitrary interleavings of
  calls are inductive relations.
\<close>

datatype 'a attempt = Return 'a | Wait

text \<open>The loop around a wait.\<close>

fun wait_loop :: "('s \<Rightarrow> ('r res \<times> 's) attempt option) \<Rightarrow> 's option list \<Rightarrow> 's \<Rightarrow> ('r res \<times> 's) attempt option" where
  "wait_loop attempt env s =
     (case attempt s of
        None \<Rightarrow> None
      | Some (Return r) \<Rightarrow> Some (Return r)
      | Some Wait \<Rightarrow>
          (case env of
             [] \<Rightarrow> Some Wait
           | None # _ \<Rightarrow> Some (Return (Inl EINTR, s))
           | Some s' # env' \<Rightarrow> wait_loop attempt env' s'))"

declare wait_loop.simps [simp del]

text \<open>A call that returns has either been interrupted or got its result from a pass of the loop.\<close>

lemma wait_loop_cases:
  "wait_loop attempt env s = Some (Return (r, s')) \<Longrightarrow>
   (r = Inl EINTR \<and> None \<in> set env) \<or>
   (\<exists>s0 \<in> insert s {x. Some x \<in> set env}. attempt s0 = Some (Return (r, s')))"
proof (induction attempt env s rule: wait_loop.induct)
  case (1 attempt env s)
  consider (now) "attempt s = Some (Return (r, s'))" | (wait) "attempt s = Some Wait"
    using "1.prems" by (auto simp: wait_loop.simps[of attempt env s] split: option.splits attempt.splits)
  then show ?case
  proof cases
    case wait
    show ?thesis
    proof (cases env)
      case Nil
      then show ?thesis using "1.prems" wait by (simp add: wait_loop.simps[of attempt "[]" s])
    next
      case (Cons e env')
      then show ?thesis using "1.prems" "1.IH"[OF wait refl Cons] wait
        by (cases e) (auto simp: wait_loop.simps[of attempt "_ # _" s])
    qed
  qed blast
qed

section \<open>Pipes\<close>

definition POLLIN :: u64 where "POLLIN = 1"
definition POLLPRI :: u64 where "POLLPRI = 2"
definition POLLOUT :: u64 where "POLLOUT = 4"
definition POLLERR :: u64 where "POLLERR = 8"
definition POLLHUP :: u64 where "POLLHUP = 0x10"
definition POLLNVAL :: u64 where "POLLNVAL = 0x20"

lemmas poll_bits = POLLIN_def POLLPRI_def POLLOUT_def POLLERR_def POLLHUP_def POLLNVAL_def

record pipe =
  readers :: usize
  writers :: usize
  ring_buffer :: "u8 ring_buffer"

definition pipe_capacity :: usize where
  "pipe_capacity = 0x1000"

definition pipe_new :: pipe where
  "pipe_new = \<lparr>readers = 0, writers = 0,
     ring_buffer = \<lparr>rb_size = pipe_capacity, read_index = 0, write_index = 0,
                    data = replicate (unat pipe_capacity) 0\<rparr>\<rparr>"

definition pipe_open :: "usize \<Rightarrow> pipe \<Rightarrow> pipe" where
  "pipe_open fl p =
     (let p = (if can_read fl then p\<lparr>readers := readers p + 1\<rparr> else p)
      in if can_write fl then p\<lparr>writers := writers p + 1\<rparr> else p)"

definition pipe_close :: "usize \<Rightarrow> pipe \<Rightarrow> pipe" where
  "pipe_close fl p =
     (let p = (if can_read fl then p\<lparr>readers := readers p - 1\<rparr> else p)
      in if can_write fl then p\<lparr>writers := writers p - 1\<rparr> else p)"

text \<open>One pass of the loop of \<^verbatim>\<open>Pipe::read\<close>; the result is the bytes copied to the caller.\<close>

definition pipe_read_attempt :: "usize \<Rightarrow> usize \<Rightarrow> pipe \<Rightarrow> ((u8 list) res \<times> pipe) attempt option" where
  "pipe_read_attempt fl cnt p =
     (if rb_is_empty (ring_buffer p)
      then if writers p = 0 then Some (Return (Inr [], p))
           else if fl AND O_NONBLOCK \<noteq> 0 then Some (Return (Inl EWOULDBLOCK, p))
           else Some Wait
      else do {
        (n, bytes, rb) \<leftarrow> rb_read (ring_buffer p) cnt;
        Some (Return (Inr bytes, p\<lparr>ring_buffer := rb\<rparr>))
      })"

definition pipe_read :: "pipe option list \<Rightarrow> usize \<Rightarrow> usize \<Rightarrow> pipe \<Rightarrow> ((u8 list) res \<times> pipe) attempt option" where
  "pipe_read env fl cnt p = wait_loop (pipe_read_attempt fl cnt) env p"

text \<open>One pass of the loop of \<^verbatim>\<open>Pipe::write\<close>; the result is the number of bytes taken.\<close>

definition pipe_write_attempt :: "usize \<Rightarrow> u8 list \<Rightarrow> usize \<Rightarrow> pipe \<Rightarrow> (usize res \<times> pipe) attempt option" where
  "pipe_write_attempt fl buf cnt p =
     (if readers p = 0 then Some (Return (Inl EPIPE, p))
      else if \<not> rb_is_full (ring_buffer p)
      then do {
        (n, rb) \<leftarrow> rb_write (ring_buffer p) buf cnt;
        Some (Return (Inr n, p\<lparr>ring_buffer := rb\<rparr>))
      }
      else if fl AND O_NONBLOCK \<noteq> 0 then Some (Return (Inl EWOULDBLOCK, p))
      else Some Wait)"

definition pipe_write :: "pipe option list \<Rightarrow> usize \<Rightarrow> u8 list \<Rightarrow> usize \<Rightarrow> pipe \<Rightarrow> (usize res \<times> pipe) attempt option" where
  "pipe_write env fl buf cnt p = wait_loop (pipe_write_attempt fl buf cnt) env p"

definition pipe_poll :: "u64 \<Rightarrow> pipe \<Rightarrow> u64" where
  "pipe_poll events p =
     (let revents = 0;
          revents = (if events AND POLLIN \<noteq> 0
                     then if writers p = 0 then revents OR POLLHUP
                          else if \<not> rb_is_empty (ring_buffer p) then revents OR POLLIN else revents
                     else revents)
      in if events AND POLLOUT \<noteq> 0
         then if readers p = 0 then revents OR POLLERR
              else if \<not> rb_is_full (ring_buffer p) then revents OR POLLOUT else revents
         else revents)"

definition FIONREAD :: usize where "FIONREAD = 0x541B"

text \<open>The ioctl every node has, and the one of a pipe: the count it stores is an \<^verbatim>\<open>int\<close>.\<close>

definition vnode_ioctl :: "usize \<Rightarrow> usize res" where
  "vnode_ioctl cmd = (if cmd \<in> {0x5401, 0x5402, 0x540E, 0x5413} then Inl ENOTTY else Inl EINVAL)"

definition pipe_ioctl :: "usize \<Rightarrow> pipe \<Rightarrow> u32 res" where
  "pipe_ioctl cmd p =
     (if cmd = FIONREAD then Inr (ucast (data_count (ring_buffer p)))
      else case vnode_ioctl cmd of Inl e \<Rightarrow> Inl e | Inr n \<Rightarrow> Inr (ucast n))"

text \<open>\<^verbatim>\<open>pipe_impl\<close>: the two descriptions it opens on the new pipe, with the close-on-exec flag.\<close>

definition pipe_impl :: "usize \<Rightarrow> ((usize \<times> usize \<times> bool) \<times> pipe) res" where
  "pipe_impl fl =
     (if fl AND NOT (O_CLOEXEC OR O_NONBLOCK) \<noteq> 0 then Inl EINVAL
      else let rfl = O_RDONLY OR (fl AND O_NONBLOCK); wfl = O_WRONLY OR (fl AND O_NONBLOCK)
           in Inr ((rfl, wfl, fl AND O_CLOEXEC \<noteq> 0), pipe_open wfl (pipe_open rfl pipe_new)))"

section \<open>Event counters\<close>

record eventfd =
  counter :: u64
  is_semaphore :: bool

definition COUNTER_MAX :: u64 where
  "COUNTER_MAX = 0xfffffffffffffffe"

definition eventfd_read_attempt :: "usize \<Rightarrow> eventfd \<Rightarrow> (u64 res \<times> eventfd) attempt option" where
  "eventfd_read_attempt fl e =
     (if counter e = 0
      then if fl AND O_NONBLOCK \<noteq> 0 then Some (Return (Inl EWOULDBLOCK, e)) else Some Wait
      else if is_semaphore e then Some (Return (Inr 1, e\<lparr>counter := counter e - 1\<rparr>))
      else Some (Return (Inr (counter e), e\<lparr>counter := 0\<rparr>)))"

definition eventfd_read :: "eventfd option list \<Rightarrow> usize \<Rightarrow> usize \<Rightarrow> eventfd \<Rightarrow> (u64 res \<times> eventfd) attempt option" where
  "eventfd_read env fl cnt e =
     (if cnt < 8 then Some (Return (Inl EINVAL, e)) else wait_loop (eventfd_read_attempt fl) env e)"

definition eventfd_write_attempt :: "usize \<Rightarrow> u64 \<Rightarrow> eventfd \<Rightarrow> (u64 res \<times> eventfd) attempt option" where
  "eventfd_write_attempt fl to_add e =
     (if counter e > COUNTER_MAX - to_add
      then if fl AND O_NONBLOCK \<noteq> 0 then Some (Return (Inl EWOULDBLOCK, e)) else Some Wait
      else Some (Return (Inr 8, e\<lparr>counter := counter e + to_add\<rparr>)))"

definition eventfd_write :: "eventfd option list \<Rightarrow> usize \<Rightarrow> u64 \<Rightarrow> usize \<Rightarrow> eventfd \<Rightarrow> (u64 res \<times> eventfd) attempt option" where
  "eventfd_write env fl to_add cnt e =
     (if cnt < 8 then Some (Return (Inl EINVAL, e))
      else if to_add = 0xffffffffffffffff then Some (Return (Inl EINVAL, e))
      else wait_loop (eventfd_write_attempt fl to_add) env e)"

definition eventfd_poll :: "u64 \<Rightarrow> eventfd \<Rightarrow> u64" where
  "eventfd_poll events e =
     (let revents = (if events AND POLLIN \<noteq> 0 \<and> counter e > 0 then 0 OR POLLIN else 0)
      in if events AND POLLOUT \<noteq> 0 \<and> counter e < COUNTER_MAX then revents OR POLLOUT else revents)"

definition EFD_SEMAPHORE :: usize where "EFD_SEMAPHORE = 1"
definition EFD_NONBLOCK :: usize where "EFD_NONBLOCK = O_NONBLOCK"
definition EFD_CLOEXEC :: usize where "EFD_CLOEXEC = O_CLOEXEC"

text \<open>
  \<^verbatim>\<open>eventfd_impl\<close>: the flags of the description, the close-on-exec flag and the new counter. The
  conditional binds weaker than \<^verbatim>\<open>|\<close>.
\<close>

definition eventfd_impl :: "u32 \<Rightarrow> usize \<Rightarrow> (usize \<times> bool \<times> eventfd) res" where
  "eventfd_impl initval fl =
     (if fl AND NOT (EFD_NONBLOCK OR EFD_CLOEXEC OR EFD_SEMAPHORE) \<noteq> 0 then Inl EINVAL
      else Inr (if O_RDWR OR (fl AND EFD_NONBLOCK) \<noteq> 0 then O_NONBLOCK else 0,
                fl AND EFD_CLOEXEC \<noteq> 0,
                \<lparr>counter = ucast initval, is_semaphore = (fl AND EFD_SEMAPHORE \<noteq> 0)\<rparr>))"

section \<open>What one pass of a call does\<close>

definition pipe_ok :: "pipe \<Rightarrow> bool" where
  "pipe_ok p \<longleftrightarrow> rb_ok (ring_buffer p) \<and> rb_size (ring_buffer p) = pipe_capacity"

abbreviation pipe_bytes :: "pipe \<Rightarrow> u8 list" where
  "pipe_bytes p \<equiv> rb_items (ring_buffer p)"

lemma pipe_new_ok: "pipe_ok pipe_new" and pipe_new_empty: "pipe_bytes pipe_new = []"
proof -
  have "unat pipe_capacity dvd 2 ^ 64"
    using le_imp_power_dvd[of 12 64 "2::nat"] by (simp add: pipe_capacity_def)
  then show "pipe_ok pipe_new"
    by (simp add: pipe_ok_def rb_ok_def pipe_new_def data_count_def pipe_capacity_def)
  show "pipe_bytes pipe_new = []" by (simp add: rb_items_def pipe_new_def data_count_def)
qed

lemma pipe_open_close [simp]:
  "ring_buffer (pipe_open fl p) = ring_buffer p" "ring_buffer (pipe_close fl p) = ring_buffer p"
  by (simp_all add: pipe_open_def pipe_close_def Let_def)

lemma pipe_full_iff: "pipe_ok p \<Longrightarrow> rb_is_full (ring_buffer p) \<longleftrightarrow> length (pipe_bytes p) = 4096"
  by (simp add: rb_full_iff pipe_ok_def pipe_capacity_def)

lemma pipe_bounded: "pipe_ok p \<Longrightarrow> length (pipe_bytes p) \<le> 4096"
  using ring.bounded[of "ring_buffer p"] by (simp add: pipe_ok_def pipe_capacity_def)

lemma pipe_read_attempt_spec:
  assumes "pipe_ok p" and k_def: "k = min (unat cnt) (length (pipe_bytes p))"
  shows "if pipe_bytes p = []
         then pipe_read_attempt fl cnt p =
           (if writers p = 0 then Some (Return (Inr [], p))
            else if fl AND O_NONBLOCK \<noteq> 0 then Some (Return (Inl EWOULDBLOCK, p)) else Some Wait)
         else \<exists>p'. pipe_read_attempt fl cnt p = Some (Return (Inr (take k (pipe_bytes p)), p')) \<and>
              pipe_ok p' \<and> pipe_bytes p' = drop k (pipe_bytes p) \<and> readers p' = readers p \<and> writers p' = writers p"
proof (cases "pipe_bytes p = []")
  case True
  then show ?thesis by (simp add: pipe_read_attempt_def rb_empty_iff)
next
  case False
  have ok: "rb_ok (ring_buffer p)" using assms(1) by (simp add: pipe_ok_def)
  obtain rb where "rb_read (ring_buffer p) cnt = Some (of_nat k, take k (pipe_bytes p), rb)" "rb_ok rb"
    "rb_items rb = drop k (pipe_bytes p)" "rb_size rb = rb_size (ring_buffer p)"
    using rb_read_spec[OF ok, of k cnt] k_def by auto
  then show ?thesis using False assms(1) by (auto simp: pipe_read_attempt_def rb_empty_iff pipe_ok_def)
qed

lemma pipe_write_attempt_spec:
  assumes "pipe_ok p" "unat cnt \<le> length buf" and k_def: "k = min (unat cnt) (4096 - length (pipe_bytes p))"
  shows "if readers p = 0 then pipe_write_attempt fl buf cnt p = Some (Return (Inl EPIPE, p))
         else if length (pipe_bytes p) = 4096
         then pipe_write_attempt fl buf cnt p =
           (if fl AND O_NONBLOCK \<noteq> 0 then Some (Return (Inl EWOULDBLOCK, p)) else Some Wait)
         else \<exists>p'. pipe_write_attempt fl buf cnt p = Some (Return (Inr (of_nat k), p')) \<and>
              pipe_ok p' \<and> pipe_bytes p' = pipe_bytes p @ take k buf \<and> readers p' = readers p \<and> writers p' = writers p"
proof -
  have ok: "rb_ok (ring_buffer p)" and sz: "rb_size (ring_buffer p) = pipe_capacity"
    using assms(1) by (simp_all add: pipe_ok_def)
  have cap: "unat pipe_capacity = 4096" by (simp add: pipe_capacity_def)
  obtain rb where "rb_write (ring_buffer p) buf cnt = Some (of_nat k, rb)" "rb_ok rb"
    "rb_items rb = pipe_bytes p @ take k buf" "rb_size rb = rb_size (ring_buffer p)"
    using rb_write_spec[OF ok assms(2), of k] k_def sz cap by auto
  then show ?thesis using pipe_full_iff[OF assms(1)] sz by (simp add: pipe_write_attempt_def pipe_ok_def)
qed

section \<open>Interleavings\<close>

datatype pipe_label = Wrote "u8 list" | Got "u8 list" | Opened usize | Closed usize

text \<open>
  The runs of a pipe: each step is one call of one of any number of threads that opens an end,
  closes one, reads or writes, in the state the previous calls left. A sleeping call changes
  nothing, so it appears when it completes.
\<close>

inductive pipe_run :: "pipe \<Rightarrow> pipe_label list \<Rightarrow> pipe \<Rightarrow> bool" where
  start: "pipe_run p [] p"
| opens: "pipe_run p tr q \<Longrightarrow> pipe_run p (tr @ [Opened fl]) (pipe_open fl q)"
| closes: "pipe_run p tr q \<Longrightarrow> pipe_run p (tr @ [Closed fl]) (pipe_close fl q)"
| reads: "pipe_run p tr q \<Longrightarrow> pipe_read_attempt fl cnt q = Some (Return (Inr bytes, q')) \<Longrightarrow>
    pipe_run p (tr @ [Got bytes]) q'"
| writes: "pipe_run p tr q \<Longrightarrow> unat cnt \<le> length buf \<Longrightarrow>
    pipe_write_attempt fl buf cnt q = Some (Return (Inr n, q')) \<Longrightarrow>
    pipe_run p (tr @ [Wrote (take (unat n) buf)]) q'"

fun bytes_in :: "pipe_label list \<Rightarrow> u8 list" where
  "bytes_in [] = []"
| "bytes_in (Wrote bs # tr) = bs @ bytes_in tr"
| "bytes_in (_ # tr) = bytes_in tr"

fun bytes_out :: "pipe_label list \<Rightarrow> u8 list" where
  "bytes_out [] = []"
| "bytes_out (Got bs # tr) = bs @ bytes_out tr"
| "bytes_out (_ # tr) = bytes_out tr"

lemma bytes_in_append [simp]: "bytes_in (a @ b) = bytes_in a @ bytes_in b"
  by (induction a rule: bytes_in.induct) simp_all

lemma bytes_out_append [simp]: "bytes_out (a @ b) = bytes_out a @ bytes_out b"
  by (induction a rule: bytes_out.induct) simp_all

lemma pipe_run_inv:
  assumes "pipe_run p tr q" "pipe_ok p"
  shows "pipe_ok q \<and> pipe_bytes p @ bytes_in tr = bytes_out tr @ pipe_bytes q"
  using assms
proof (induction rule: pipe_run.induct)
  case (reads p tr q fl cnt bytes q')
  then have ok: "pipe_ok q" by simp
  have "pipe_ok q' \<and> pipe_bytes q = bytes @ pipe_bytes q'"
    using pipe_read_attempt_spec[OF ok refl, where cnt = cnt and fl = fl] reads.hyps(2) ok
    by (cases "pipe_bytes q = []") (auto split: if_splits)
  then show ?case using reads by simp
next
  case (writes p tr q cnt buf fl n q')
  then have ok: "pipe_ok q" by simp
  have "unat (of_nat (min (unat cnt) k) :: usize) = min (unat cnt) k" for k
    by (metis le_unat_uoi min.cobounded1)
  then show ?case using pipe_write_attempt_spec[OF ok writes.hyps(2) refl, of fl] writes
    by (auto split: if_splits)
qed (auto simp: pipe_ok_def)

section \<open>Properties\<close>

text \<open>
  C2: A pipe delivers every byte once and in order. Over any interleaving of opens, closes, reads
  and writes by any number of threads, what was in the pipe followed by what was written is what
  was read followed by what is in the pipe now, and never more than the capacity is in it.
\<close>

theorem pipe_is_fifo:
  assumes "pipe_run p tr q" "pipe_ok p"
  shows "pipe_bytes p @ bytes_in tr = bytes_out tr @ pipe_bytes q \<and> length (pipe_bytes q) \<le> 4096 \<and> pipe_ok q"
  using pipe_run_inv[OF assms] pipe_bounded by blast

theorem pipe_is_fifo_witness:
  "\<exists>q. pipe_run pipe_new [Opened O_RDWR, Wrote [1, 2]] q \<and> pipe_bytes q = [1, 2]"
proof -
  let ?p = "pipe_open O_RDWR pipe_new"
  have ok: "pipe_ok ?p" using pipe_new_ok by (simp add: pipe_ok_def)
  have r: "readers ?p = 1" "pipe_bytes ?p = []"
    using pipe_new_empty by (simp_all add: pipe_open_def can_read_def can_write_def open_flags pipe_new_def)
  obtain q where w: "pipe_write_attempt 0 [1, 2] 2 ?p = Some (Return (Inr 2, q))"
    using pipe_write_attempt_spec[OF ok _ refl, where cnt = 2 and buf = "[1, 2]" and fl = 0] r
    by (auto simp del: length_rb_items)
  have run: "pipe_run pipe_new [Opened O_RDWR, Wrote [1, 2]] q"
    using writes[OF opens[OF start], of 2 "[1, 2]" 0 O_RDWR pipe_new] w by simp
  then show ?thesis using pipe_is_fifo[OF run pipe_new_ok] pipe_new_empty by auto
qed

text \<open>
  What a read or write of a pipe returns, over any behaviour of the other threads during its
  waits that keeps the pipe well formed. A read returns end-of-file only when it finds the pipe
  empty without writers, returns at most what it was asked for and never nothing while there is
  data; a write fails with \<^verbatim>\<open>EPIPE\<close> only when it finds no reader and otherwise takes at least one
  byte; \<^verbatim>\<open>EWOULDBLOCK\<close> is only for non-blocking descriptions, and a blocking call that does not
  wait out its turn is interrupted.
\<close>

theorem pipe_call_outcomes:
  assumes "pipe_ok p" "\<forall>q. Some q \<in> set env \<longrightarrow> pipe_ok q" "0 < unat cnt" "unat cnt \<le> length buf"
  shows "(pipe_read env fl cnt p = Some (Return (r, p')) \<longrightarrow>
            (case r of
               Inl e \<Rightarrow> e = EINTR \<and> None \<in> set env \<or> e = EWOULDBLOCK \<and> fl AND O_NONBLOCK \<noteq> 0
             | Inr bytes \<Rightarrow> (\<exists>q\<in>insert p {q. Some q \<in> set env}.
                 if bytes = [] then pipe_bytes q = [] \<and> writers q = 0 \<and> p' = q
                 else pipe_bytes q = bytes @ pipe_bytes p' \<and> length bytes \<le> unat cnt))) \<and>
         (pipe_write env fl buf cnt p = Some (Return (w, p'')) \<longrightarrow>
            (case w of
               Inl e \<Rightarrow> e = EINTR \<and> None \<in> set env \<or> e = EWOULDBLOCK \<and> fl AND O_NONBLOCK \<noteq> 0 \<or>
                  e = EPIPE \<and> readers p'' = 0
             | Inr n \<Rightarrow> 0 < unat n \<and> unat n \<le> unat cnt \<and>
                 (\<exists>q\<in>insert p {q. Some q \<in> set env}. pipe_bytes p'' = pipe_bytes q @ take (unat n) buf)))"
proof (intro conjI impI)
  assume "pipe_read env fl cnt p = Some (Return (r, p'))"
  from wait_loop_cases[OF this[unfolded pipe_read_def]]
  consider "r = Inl EINTR" "None \<in> set env"
    | q where "q \<in> insert p {q. Some q \<in> set env}" "pipe_ok q" "pipe_read_attempt fl cnt q = Some (Return (r, p'))"
    using assms(1,2) by blast
  then show "case r of
               Inl e \<Rightarrow> e = EINTR \<and> None \<in> set env \<or> e = EWOULDBLOCK \<and> fl AND O_NONBLOCK \<noteq> 0
             | Inr bytes \<Rightarrow> (\<exists>q\<in>insert p {q. Some q \<in> set env}.
                 if bytes = [] then pipe_bytes q = [] \<and> writers q = 0 \<and> p' = q
                 else pipe_bytes q = bytes @ pipe_bytes p' \<and> length bytes \<le> unat cnt)"
  proof cases
    case (2 q)
    have "take (min (unat cnt) (length (pipe_bytes q))) (pipe_bytes q) \<noteq> []" if "pipe_bytes q \<noteq> []"
      using assms(3) that by (simp del: length_rb_items)
    then show ?thesis using pipe_read_attempt_spec[OF 2(2) refl, where cnt = cnt and fl = fl] 2 assms(3)
      by (cases "pipe_bytes q = []") (auto split: if_splits)
  qed simp
next
  assume "pipe_write env fl buf cnt p = Some (Return (w, p''))"
  from wait_loop_cases[OF this[unfolded pipe_write_def]]
  consider "w = Inl EINTR" "None \<in> set env"
    | q where "q \<in> insert p {q. Some q \<in> set env}" "pipe_ok q" "pipe_write_attempt fl buf cnt q = Some (Return (w, p''))"
    using assms(1,2) by blast
  then show "case w of
               Inl e \<Rightarrow> e = EINTR \<and> None \<in> set env \<or> e = EWOULDBLOCK \<and> fl AND O_NONBLOCK \<noteq> 0 \<or>
                  e = EPIPE \<and> readers p'' = 0
             | Inr n \<Rightarrow> 0 < unat n \<and> unat n \<le> unat cnt \<and>
                 (\<exists>q\<in>insert p {q. Some q \<in> set env}. pipe_bytes p'' = pipe_bytes q @ take (unat n) buf)"
  proof cases
    case (2 q)
    have u: "unat (of_nat (min (unat cnt) k) :: usize) = min (unat cnt) k" for k
      by (metis le_unat_uoi min.cobounded1)
    have "length (pipe_bytes q) \<noteq> 4096 \<Longrightarrow> length (pipe_bytes q) < 4096" using pipe_bounded[OF 2(2)] by simp
    then show ?thesis using pipe_write_attempt_spec[OF 2(2) assms(4) refl, of fl] 2 assms(3) u
      by (auto split: if_splits)
  qed simp
qed

theorem pipe_call_outcomes_witness:
  "\<exists>e p'. pipe_read [Some (pipe_open O_WRONLY pipe_new), None] 0 1 (pipe_open O_WRONLY pipe_new) = Some (Return (Inl e, p')) \<and>
     (e = EINTR \<and> None \<in> set [Some (pipe_open O_WRONLY pipe_new), None] \<or> e = EWOULDBLOCK \<and> 0 AND O_NONBLOCK \<noteq> 0)"
proof -
  let ?p = "pipe_open O_WRONLY pipe_new"
  have ok: "pipe_ok ?p" using pipe_new_ok by (simp add: pipe_ok_def)
  have w: "writers ?p = 1" "pipe_bytes ?p = []"
    using pipe_new_empty by (simp_all add: pipe_open_def can_read_def can_write_def open_flags pipe_new_def)
  have a: "pipe_read_attempt 0 1 ?p = Some Wait" using pipe_read_attempt_spec[OF ok refl, where cnt = 1 and fl = 0] w by simp
  have "pipe_read [Some ?p, None] 0 1 ?p = Some (Return (Inl EINTR, ?p))"
    by (simp add: pipe_read_def wait_loop.simps a)
  then show ?thesis
    using pipe_call_outcomes[OF ok, of "[Some ?p, None]" 1 "[0]" 0 "Inl EINTR" ?p] ok by auto
qed

text \<open>
  What \<^verbatim>\<open>poll\<close> reports of a pipe is what a call would find: \<^verbatim>\<open>POLLIN\<close> means a read returns
  data, \<^verbatim>\<open>POLLOUT\<close> that a write takes data, \<^verbatim>\<open>POLLHUP\<close> that all writers are gone, \<^verbatim>\<open>POLLERR\<close> that all
  readers are gone. The converse fails for one case: data left in a pipe whose writers are gone is
  not reported as \<^verbatim>\<open>POLLIN\<close>.
\<close>

theorem pipe_poll_reports:
  assumes "pipe_ok p"
  shows "(pipe_poll events p AND POLLIN \<noteq> 0 \<longleftrightarrow> events AND POLLIN \<noteq> 0 \<and> writers p \<noteq> 0 \<and> pipe_bytes p \<noteq> []) \<and>
         (pipe_poll events p AND POLLHUP \<noteq> 0 \<longleftrightarrow> events AND POLLIN \<noteq> 0 \<and> writers p = 0) \<and>
         (pipe_poll events p AND POLLOUT \<noteq> 0 \<longleftrightarrow>
            events AND POLLOUT \<noteq> 0 \<and> readers p \<noteq> 0 \<and> length (pipe_bytes p) < 4096) \<and>
         (pipe_poll events p AND POLLERR \<noteq> 0 \<longleftrightarrow> events AND POLLOUT \<noteq> 0 \<and> readers p = 0) \<and>
         (writers p = 0 \<and> pipe_bytes p \<noteq> [] \<longrightarrow> pipe_poll POLLIN p = POLLHUP)"
proof -
  have "\<not> rb_is_full (ring_buffer p) \<longleftrightarrow> length (pipe_bytes p) < 4096"
    using pipe_full_iff[OF assms] pipe_bounded[OF assms] by (auto simp del: length_rb_items)
  then show ?thesis by (auto simp: pipe_poll_def Let_def poll_bits rb_empty_iff simp del: length_rb_items)
qed

theorem pipe_poll_reports_witness:
  "pipe_ok pipe_new \<and> pipe_poll (POLLIN OR POLLOUT) pipe_new AND POLLHUP \<noteq> 0"
  using pipe_new_ok pipe_poll_reports[OF pipe_new_ok, of "POLLIN OR POLLOUT"]
  by (simp add: poll_bits pipe_new_def)

lemma eventfd_write_fits:
  assumes "to_add \<noteq> 0xffffffffffffffff"
  shows "\<not> counter e > COUNTER_MAX - to_add \<longleftrightarrow> unat (counter e) + unat to_add \<le> unat COUNTER_MAX"
proof -
  have "unat to_add \<noteq> unat (0xffffffffffffffff :: u64)" using assms word_unat_eq_iff by blast
  then have "unat to_add \<noteq> 18446744073709551615" by simp
  with unat_lt_64[of to_add] have "unat to_add \<le> 18446744073709551614" by linarith
  then have "unat to_add \<le> unat COUNTER_MAX" by (simp add: COUNTER_MAX_def)
  then have "unat (COUNTER_MAX - to_add) = unat COUNTER_MAX - unat to_add"
    by (simp add: unat_sub word_le_nat_alt)
  then show ?thesis using \<open>unat to_add \<le> unat COUNTER_MAX\<close> by (simp add: word_less_nat_alt not_less) linarith
qed

text \<open>The runs of an event counter.\<close>

inductive eventfd_run :: "eventfd \<Rightarrow> nat \<Rightarrow> nat \<Rightarrow> eventfd \<Rightarrow> bool" where
  ev_start: "eventfd_run e 0 0 e"
| ev_read: "eventfd_run e added taken f \<Longrightarrow>
    eventfd_read env fl cnt f = Some (Return (Inr v, f')) \<Longrightarrow> env = [] \<Longrightarrow>
    eventfd_run e added (taken + unat v) f'"
| ev_write: "eventfd_run e added taken f \<Longrightarrow>
    eventfd_write env fl x cnt f = Some (Return (Inr v, f')) \<Longrightarrow> env = [] \<Longrightarrow>
    eventfd_run e (added + unat x) taken f'"

text \<open>
  An event counter never wraps and loses nothing: over any interleaving of reads and writes it
  stays at most \<^verbatim>\<open>COUNTER_MAX\<close>, and its first value plus everything written is everything read
  plus its present value. A semaphore read takes exactly one, any other read takes it all.
\<close>

theorem eventfd_conserves:
  assumes "eventfd_run e added taken f" "counter e \<le> COUNTER_MAX"
  shows "unat (counter e) + added = taken + unat (counter f) \<and> counter f \<le> COUNTER_MAX"
  using assms
proof (induction rule: eventfd_run.induct)
  case (ev_read e added taken f env fl cnt v f')
  have nz: "unat (counter f - 1) = unat (counter f) - 1" "counter f - 1 \<le> COUNTER_MAX" if "counter f \<noteq> 0"
  proof -
    show u: "unat (counter f - 1) = unat (counter f) - 1" using that by (simp add: unat_minus_one)
    have "unat (counter f) \<le> unat COUNTER_MAX" using ev_read by (simp add: word_le_nat_alt)
    then show "counter f - 1 \<le> COUNTER_MAX" using u by (simp add: word_le_nat_alt)
  qed
  have "0 < unat (counter f)" if "counter f \<noteq> 0" using that by (simp add: unat_gt_0)
  with ev_read nz show ?case
    by (auto simp: eventfd_read_def eventfd_read_attempt_def wait_loop.simps split: if_splits)
next
  case (ev_write e added taken f env fl x cnt v f')
  then have x: "x \<noteq> 0xffffffffffffffff" and w: "\<not> counter f > COUNTER_MAX - x" and f': "f' = f\<lparr>counter := counter f + x\<rparr>"
    by (auto simp: eventfd_write_def eventfd_write_attempt_def wait_loop.simps split: if_splits)
  then have fit: "unat (counter f) + unat x \<le> unat COUNTER_MAX" using eventfd_write_fits by blast
  then have "unat (counter f + x) = unat (counter f) + unat x"
    by (intro unat_add_no_wrap) (simp add: COUNTER_MAX_def)
  with ev_write fit show ?case by (auto simp: f' word_le_nat_alt)
qed simp

theorem eventfd_conserves_witness:
  "\<exists>f. eventfd_run \<lparr>counter = 3, is_semaphore = True\<rparr> 0 1 f \<and> unat (counter f) = 2"
proof -
  have "eventfd_run \<lparr>counter = 3, is_semaphore = True\<rparr> 0 (0 + unat (1 :: u64)) \<lparr>counter = 2, is_semaphore = True\<rparr>"
    by (rule ev_read[OF ev_start _ refl, where fl = 0 and cnt = 8])
      (simp add: eventfd_read_def eventfd_read_attempt_def wait_loop.simps)
  from eventfd_conserves[OF this] this show ?thesis by (auto simp: COUNTER_MAX_def)
qed

text \<open>
  Every description \<^verbatim>\<open>eventfd\<close> creates is non-blocking and not writable by its access mode,
  whatever flags were passed: the conditional expression is parsed as
  \<^verbatim>\<open>(O_RDWR | ...) ? O_NONBLOCK : 0\<close>, so a blocking event counter cannot be created.
\<close>

theorem eventfd_always_nonblocking:
  assumes "eventfd_impl initval fl = Inr (dfl, cloexec, e)"
  shows "dfl AND O_NONBLOCK \<noteq> 0 \<and> \<not> can_write dfl \<and> eventfd_read env dfl 8 (e\<lparr>counter := 0\<rparr>) =
         Some (Return (Inl EWOULDBLOCK, e\<lparr>counter := 0\<rparr>))"
proof -
  have "O_RDWR OR (fl AND EFD_NONBLOCK) \<noteq> 0"
  proof
    assume "O_RDWR OR (fl AND EFD_NONBLOCK) = 0"
    then have "bit (O_RDWR OR (fl AND EFD_NONBLOCK)) 1 = bit (0 :: usize) 1" by simp
    then show False by (simp add: bit_simps O_RDWR_def)
  qed
  then have "dfl = O_NONBLOCK" using assms by (auto simp: eventfd_impl_def split: if_splits)
  then show ?thesis
    by (simp add: open_flags can_write_def eventfd_read_def eventfd_read_attempt_def wait_loop.simps)
qed

theorem eventfd_always_nonblocking_witness:
  "\<exists>dfl c e. eventfd_impl 0 0 = Inr (dfl, c, e) \<and> dfl AND O_NONBLOCK \<noteq> 0"
proof -
  obtain dfl c e where i: "eventfd_impl 0 0 = Inr (dfl, c, e)" by (force simp: eventfd_impl_def)
  from eventfd_always_nonblocking[OF this] i show ?thesis by blast
qed

end
