(* ===== verification/Sched_Core.thy ===== *)
theory Sched_Core
  imports Klib_Algorithm
begin

text \<open>
  The kernel's threads and processes: \<^verbatim>\<open>sched/sched.cpp\<close> (thread table, run queue, process tree,
  process groups, termination) and \<^verbatim>\<open>sched/event.cpp\<close> (waiting and waking). A thread is named by its
  tid, a process by its pid, a group or session by a number. The intrusive lists the code keeps
  (\<^verbatim>\<open>sched_list_head\<close>, the listeners of an event, the threads, children and group members of a
  process) are the sequences their rings represent; linking an entry that is already linked or
  unlinking one that is not corrupts a ring and is \<open>None\<close>, as are a failed \<^verbatim>\<open>ASSERT\<close>, a \<^verbatim>\<open>panic\<close> and
  a null dereference. Interrupts are disabled while these functions run, so each is one step.
\<close>

section \<open>Signals and events\<close>

definition SIGKILL :: int where "SIGKILL = 9"
definition SIGSEGV :: int where "SIGSEGV = 11"
definition SIGALRM :: int where "SIGALRM = 14"
definition SIGCHLD :: int where "SIGCHLD = 17"
definition SIGCONT :: int where "SIGCONT = 18"
definition SIGSTOP :: int where "SIGSTOP = 19"

definition CLD_EXITED :: int where "CLD_EXITED = 1"
definition CLD_KILLED :: int where "CLD_KILLED = 2"
definition CLD_STOPPED :: int where "CLD_STOPPED = 5"
definition CLD_CONTINUED :: int where "CLD_CONTINUED = 6"

definition SA_NOCLDSTOP :: u64 where "SA_NOCLDSTOP = 1"

lemmas signal_numbers = SIGKILL_def SIGSEGV_def SIGALRM_def SIGCHLD_def SIGCONT_def SIGSTOP_def
lemmas cld_codes = CLD_EXITED_def CLD_KILLED_def CLD_STOPPED_def CLD_CONTINUED_def

definition get_signal_bit :: "int \<Rightarrow> u64" where
  "get_signal_bit signal = push_bit (nat (signal - 1)) 1"

record sigaction =
  handler :: uptr
  sa_flags :: u64
  restorer :: uptr
  sa_mask :: u64

definition SIG_DFL :: uptr where "SIG_DFL = 0"
definition SIG_IGN :: uptr where "SIG_IGN = 1"

datatype event_id = SignalEvent nat | SignalReturnEvent nat | ZombieEvent nat | StoppedEvent nat
  | ContinuedEvent nat | OtherEvent nat

record event =
  pending :: int
  num_listeners :: int
  listener_list :: "(nat \<times> int) list"

definition event_new :: event where
  "event_new = \<lparr>pending = 0, num_listeners = 0, listener_list = []\<rparr>"

section \<open>State\<close>

datatype thread_state = READY | RUNNING | BLOCKED | STOPPED | ZOMBIE

record thread =
  process :: nat
  state :: thread_state
  listeners :: "(event_id \<times> int) list"
  which_event :: int
  signal_mask :: u64
  pending_signals :: u64
  enqueued_by_signal :: int
  entering_signal :: bool
  exiting_signal :: bool
  set_child_tid :: uptr
  clear_child_tid :: uptr

record proc =
  thread_list :: "nat list"
  num_living_threads :: int
  parent :: nat
  children_list :: "nat list"
  wait_status :: int
  wait_code :: int
  is_zombie :: bool
  has_performed_execve :: bool
  signal_actions :: "int \<Rightarrow> sigaction"
  group :: "nat option"

record process_group =
  session :: nat
  leader_process :: nat
  process_list :: "nat list"

record session =
  leader_group :: nat
  process_group_list :: "nat list"

datatype sched_effect = StoreTid uptr nat | FutexWake uptr int | CloseFiles nat | DeletePagemap nat

record sched =
  thread_table :: "nat \<Rightarrow> thread option"
  thread_table_size :: nat
  num_threads :: nat
  first_free_tid :: nat
  processes :: "nat \<Rightarrow> proc option"
  groups :: "nat \<Rightarrow> process_group option"
  sessions :: "nat \<Rightarrow> session option"
  events :: "event_id \<Rightarrow> event"
  queue :: "nat list"
  init_process :: nat
  idle_thread :: nat
  effects :: "sched_effect list"

definition upd_thread :: "nat \<Rightarrow> (thread \<Rightarrow> thread) \<Rightarrow> sched \<Rightarrow> sched option" where
  "upd_thread t f st =
     do { th \<leftarrow> thread_table st t; Some (st\<lparr>thread_table := (thread_table st)(t \<mapsto> f th)\<rparr>) }"

definition upd_proc :: "nat \<Rightarrow> (proc \<Rightarrow> proc) \<Rightarrow> sched \<Rightarrow> sched option" where
  "upd_proc p f st =
     do { pr \<leftarrow> processes st p; Some (st\<lparr>processes := (processes st)(p \<mapsto> f pr)\<rparr>) }"

definition upd_event :: "event_id \<Rightarrow> (event \<Rightarrow> event) \<Rightarrow> sched \<Rightarrow> sched" where
  "upd_event e f st = st\<lparr>events := (events st)(e := f (events st e))\<rparr>"

section \<open>Thread table\<close>

function find_free_tid :: "(nat \<Rightarrow> thread option) \<Rightarrow> nat \<Rightarrow> nat \<Rightarrow> nat option" where
  "find_free_tid tab sz i =
     (if i < sz then (if tab i = None then Some i else find_free_tid tab sz (i + 1)) else None)"
  by pat_completeness auto
termination by (relation "measure (\<lambda>(tab, sz, i). sz - i)") auto

declare find_free_tid.simps [simp del]

definition allocate_tid :: "sched \<Rightarrow> nat \<times> sched" where
  "allocate_tid st =
     (let st = (if thread_table_size st = 0 then st\<lparr>thread_table_size := 2\<rparr> else st);
          st = st\<lparr>num_threads := num_threads st + 1\<rparr> in
      case find_free_tid (thread_table st) (thread_table_size st) (first_free_tid st) of
        Some i \<Rightarrow> (i, st\<lparr>first_free_tid := i + 1\<rparr>)
      | None \<Rightarrow> (thread_table_size st,
                 st\<lparr>first_free_tid := thread_table_size st + 1, thread_table_size := thread_table_size st + 1\<rparr>))"

definition get_from_tid :: "int \<Rightarrow> sched \<Rightarrow> thread option" where
  "get_from_tid tid st =
     (if tid \<le> 0 \<or> tid \<ge> int (thread_table_size st) then None else thread_table st (nat tid))"

section \<open>The run queue\<close>

definition enqueue_thread :: "nat \<Rightarrow> int \<Rightarrow> sched \<Rightarrow> sched option" where
  "enqueue_thread t signal st =
     do { th \<leftarrow> thread_table st t;
          if state th \<noteq> BLOCKED \<and> state th \<noteq> STOPPED then Some st
          else if state th = STOPPED \<and> signal \<noteq> SIGCONT then Some st
          else if t \<in> set (queue st) then None
          else upd_thread t (\<lambda>th. th\<lparr>enqueued_by_signal := signal,
                                    state := (if state th = BLOCKED then READY else state th)\<rparr>)
                 (st\<lparr>queue := queue st @ [t]\<rparr>) }"

text \<open>The loop of \<^verbatim>\<open>Event::trigger\<close> over the listeners, and \<^verbatim>\<open>Event::trigger\<close>.\<close>

fun wake_listeners :: "(nat \<times> int) list \<Rightarrow> int \<Rightarrow> int \<Rightarrow> sched \<Rightarrow> (int \<times> sched) option" where
  "wake_listeners [] max_to_wake n st = Some (n, st)"
| "wake_listeners ((t, which) # rest) max_to_wake n st =
     do { st \<leftarrow> upd_thread t (\<lambda>th. th\<lparr>which_event := which\<rparr>) st;
          st \<leftarrow> enqueue_thread t (- 1) st;
          if n + 1 \<ge> max_to_wake then Some (n + 1, st)
          else wake_listeners rest max_to_wake (n + 1) st }"

definition trigger :: "event_id \<Rightarrow> bool \<Rightarrow> int \<Rightarrow> sched \<Rightarrow> (int \<times> sched) option" where
  "trigger e drp max_to_wake st =
     (if num_listeners (events st e) = 0
      then Some (0, if drp then st else upd_event e (\<lambda>ev. ev\<lparr>pending := pending ev + 1\<rparr>) st)
      else wake_listeners (listener_list (events st e)) max_to_wake 0 st)"

text \<open>The default number of threads to wake is the largest \<^verbatim>\<open>int\<close>.\<close>

definition trigger_all :: "event_id \<Rightarrow> sched \<Rightarrow> sched option" where
  "trigger_all e st = map_option snd (trigger e False 0x7fffffff st)"

definition has_pending_signals :: "thread \<Rightarrow> bool" where
  "has_pending_signals th \<longleftrightarrow> pending_signals th AND NOT (signal_mask th) \<noteq> 0"

text \<open>\<^verbatim>\<open>Thread::send_signal\<close>, \<^verbatim>\<open>Process::get_main_thread\<close> and \<^verbatim>\<open>Process::send_signal\<close>\<close>

definition send_signal :: "nat \<Rightarrow> int \<Rightarrow> sched \<Rightarrow> sched option" where
  "send_signal t signal st =
     do { st \<leftarrow> upd_thread t (\<lambda>th. th\<lparr>pending_signals := pending_signals th OR get_signal_bit signal\<rparr>) st;
          st \<leftarrow> enqueue_thread t signal st;
          trigger_all (SignalEvent t) st }"

definition get_main_thread :: "nat \<Rightarrow> sched \<Rightarrow> nat option" where
  "get_main_thread p st =
     do { pr \<leftarrow> processes st p;
          case thread_list pr of [] \<Rightarrow> None | t # _ \<Rightarrow> if t = p then Some t else None }"

definition process_send_signal :: "nat \<Rightarrow> int \<Rightarrow> sched \<Rightarrow> sched option" where
  "process_send_signal p signal st = do { t \<leftarrow> get_main_thread p st; send_signal t signal st }"

definition dequeue_thread :: "nat \<Rightarrow> int \<Rightarrow> sched \<Rightarrow> sched option" where
  "dequeue_thread t stop_signal st =
     do { th \<leftarrow> thread_table st t;
          if state th \<noteq> READY \<and> state th \<noteq> RUNNING then None
          else if t \<notin> set (queue st) then None
          else do {
            let st = st\<lparr>queue := remove1 t (queue st)\<rparr>;
            if stop_signal \<noteq> - 1 then do {
              st \<leftarrow> upd_thread t (\<lambda>th. th\<lparr>state := STOPPED\<rparr>) st;
              st \<leftarrow> upd_proc (process th) (\<lambda>p. p\<lparr>wait_status := stop_signal, wait_code := CLD_STOPPED\<rparr>) st;
              st \<leftarrow> trigger_all (StoppedEvent (process th)) st;
              p \<leftarrow> processes st (process th);
              parent_pr \<leftarrow> processes st (parent p);
              if sa_flags (signal_actions parent_pr SIGCHLD) AND SA_NOCLDSTOP = 0
              then process_send_signal (parent p) SIGCHLD st else Some st
            } else upd_thread t (\<lambda>th. th\<lparr>state := BLOCKED\<rparr>) st } }"

section \<open>Waiting for events\<close>

fun take_pending :: "event_id option list \<Rightarrow> nat \<Rightarrow> sched \<Rightarrow> (nat \<times> sched) option" where
  "take_pending [] i st = None"
| "take_pending (ev # rest) i st =
     (case ev of
        Some e \<Rightarrow> if pending (events st e) > 0
                  then Some (i, upd_event e (\<lambda>ev. ev\<lparr>pending := pending ev - 1\<rparr>) st)
                  else take_pending rest (i + 1) st
      | None \<Rightarrow> take_pending rest (i + 1) st)"

fun add_listeners :: "nat \<Rightarrow> event_id option list \<Rightarrow> nat \<Rightarrow> sched \<Rightarrow> sched option" where
  "add_listeners t [] i st = Some st"
| "add_listeners t (ev # rest) i st =
     (case ev of
        None \<Rightarrow> add_listeners t rest (i + 1) st
      | Some e \<Rightarrow>
          do { st \<leftarrow> upd_thread t (\<lambda>th. th\<lparr>listeners := listeners th @ [(e, int i)]\<rparr>) st;
               let st = upd_event e (\<lambda>ev. ev\<lparr>listener_list := listener_list ev @ [(t, int i)],
                                             num_listeners := num_listeners ev + 1\<rparr>) st;
               add_listeners t rest (i + 1) st })"

text \<open>
  \<^verbatim>\<open>Event::wait\<close> up to the \<^verbatim>\<open>yield\<close>: \<open>Inl r\<close> when it returns at once, \<open>Inr ()\<close> when the thread has
  been taken off the run queue; and the part after the \<^verbatim>\<open>yield\<close>.
\<close>

definition wait_begin ::
  "nat \<Rightarrow> event_id option list \<Rightarrow> bool \<Rightarrow> sched \<Rightarrow> ((int res + unit) \<times> sched) option" where
  "wait_begin t evs nonblocking st =
     do { th \<leftarrow> thread_table st t;
          if has_pending_signals th then Some (Inl (Inl EINTR), st)
          else case take_pending evs 0 st of
            Some (i, st) \<Rightarrow> Some (Inl (Inr (int i)), st)
          | None \<Rightarrow>
              if nonblocking then Some (Inl (Inl EWOULDBLOCK), st)
              else if listeners th \<noteq> [] then None
              else do {
                st \<leftarrow> add_listeners t evs 0 st;
                st \<leftarrow> dequeue_thread t (- 1) st;
                Some (Inr (), st) } }"

fun remove_listeners :: "nat \<Rightarrow> (event_id \<times> int) list \<Rightarrow> sched \<Rightarrow> sched" where
  "remove_listeners t [] st = st"
| "remove_listeners t ((e, which) # rest) st =
     remove_listeners t rest
       (upd_event e (\<lambda>ev. ev\<lparr>listener_list := remove1 (t, which) (listener_list ev),
                             num_listeners := num_listeners ev - 1\<rparr>) st)"

definition clear_listeners :: "nat \<Rightarrow> sched \<Rightarrow> sched option" where
  "clear_listeners t st =
     do { th \<leftarrow> thread_table st t;
          upd_thread t (\<lambda>th. th\<lparr>listeners := []\<rparr>) (remove_listeners t (listeners th) st) }"

definition wait_finish :: "nat \<Rightarrow> sched \<Rightarrow> (int res \<times> sched) option" where
  "wait_finish t st =
     do { st \<leftarrow> clear_listeners t st;
          th \<leftarrow> thread_table st t;
          Some (if enqueued_by_signal th \<noteq> - 1 then Inl EINTR else Inr (which_event th), st) }"

section \<open>Groups, the process tree and termination\<close>

text \<open>The constructor of \<^verbatim>\<open>ProcessGroup\<close>, for a group named \<open>g\<close>.\<close>

definition new_group :: "nat \<Rightarrow> nat \<Rightarrow> nat \<Rightarrow> sched \<Rightarrow> sched option" where
  "new_group g s leader st =
     do { se \<leftarrow> sessions st s;
          Some (st\<lparr>groups := (groups st)(g \<mapsto> \<lparr>session = s, leader_process = leader, process_list = []\<rparr>),
                   sessions := (sessions st)(s \<mapsto> se\<lparr>process_group_list := process_group_list se @ [g]\<rparr>)\<rparr>) }"

definition add_process :: "nat \<Rightarrow> nat \<Rightarrow> sched \<Rightarrow> sched option" where
  "add_process g p st =
     do { pr \<leftarrow> processes st p;
          st \<leftarrow> (case group pr of
                   None \<Rightarrow> Some st
                 | Some old \<Rightarrow>
                     do { og \<leftarrow> groups st old;
                          if p \<notin> set (process_list og) then None
                          else Some (st\<lparr>groups := (groups st)(old \<mapsto> og\<lparr>process_list := remove1 p (process_list og)\<rparr>)\<rparr>) });
          gr \<leftarrow> groups st g;
          upd_proc p (\<lambda>pr. pr\<lparr>group := Some g\<rparr>)
            (st\<lparr>groups := (groups st)(g \<mapsto> gr\<lparr>process_list := process_list gr @ [p]\<rparr>)\<rparr>) }"

fun signal_members :: "nat \<Rightarrow> nat list \<Rightarrow> int \<Rightarrow> sched \<Rightarrow> sched option" where
  "signal_members g [] signal st = Some st"
| "signal_members g (p # ps) signal st =
     do { pr \<leftarrow> processes st p;
          if group pr \<noteq> Some g then None
          else do { st \<leftarrow> process_send_signal p signal st; signal_members g ps signal st } }"

definition group_send_signal :: "nat \<Rightarrow> int \<Rightarrow> sched \<Rightarrow> sched option" where
  "group_send_signal g signal st =
     do { gr \<leftarrow> groups st g; signal_members g (process_list gr) signal st }"

text \<open>
  \<^verbatim>\<open>Process::set_parent\<close>: the sibling link takes the process out of whichever list it is in.
\<close>

definition set_parent :: "nat \<Rightarrow> nat \<Rightarrow> sched \<Rightarrow> sched option" where
  "set_parent p new_parent st =
     do { st \<leftarrow> upd_proc p (\<lambda>pr. pr\<lparr>parent := new_parent\<rparr>) st;
          let st = st\<lparr>processes := (\<lambda>q. map_option (\<lambda>pr. pr\<lparr>children_list := removeAll p (children_list pr)\<rparr>)
                                         (processes st q))\<rparr>;
          st \<leftarrow> upd_proc new_parent (\<lambda>pr. pr\<lparr>children_list := children_list pr @ [p]\<rparr>) st;
          np \<leftarrow> processes st new_parent;
          g \<leftarrow> group np;
          add_process g p st }"

fun reparent_all :: "nat list \<Rightarrow> nat \<Rightarrow> sched \<Rightarrow> sched option" where
  "reparent_all [] new_parent st = Some st"
| "reparent_all (c # cs) new_parent st =
     do { st \<leftarrow> set_parent c new_parent st; reparent_all cs new_parent st }"

definition mark_zombie :: "int \<Rightarrow> proc \<Rightarrow> proc" where
  "mark_zombie terminate_signal pr =
     (let pr = pr\<lparr>is_zombie := True\<rparr>
      in if terminate_signal \<noteq> - 1
         then pr\<lparr>wait_status := terminate_signal, wait_code := CLD_KILLED\<rparr> else pr)"

definition zombify :: "nat \<Rightarrow> int \<Rightarrow> sched \<Rightarrow> sched option" where
  "zombify p terminate_signal st =
     (if p = init_process st then None
      else do {
        st \<leftarrow> upd_proc p (mark_zombie terminate_signal) st;
        pr \<leftarrow> processes st p;
        st \<leftarrow> reparent_all (children_list pr) (init_process st) st;
        let st = st\<lparr>effects := effects st @ [CloseFiles p, DeletePagemap p]\<rparr>;
        st \<leftarrow> trigger_all (ZombieEvent p) st;
        pr \<leftarrow> processes st p;
        process_send_signal (parent pr) SIGCHLD st })"

definition thread_died :: "thread \<Rightarrow> int \<Rightarrow> sched \<Rightarrow> sched option" where
  "thread_died th terminate_signal st =
     do { st \<leftarrow> upd_proc (process th) (\<lambda>p. p\<lparr>num_living_threads := num_living_threads p - 1\<rparr>) st;
          pr \<leftarrow> processes st (process th);
          if num_living_threads pr = 0 then zombify (process th) terminate_signal st
          else if clear_child_tid th \<noteq> 0
          then Some (st\<lparr>effects := effects st @ [StoreTid (clear_child_tid th) 0, FutexWake (clear_child_tid th) 1]\<rparr>)
          else Some st }"

definition terminate_thread :: "nat \<Rightarrow> int \<Rightarrow> sched \<Rightarrow> sched option" where
  "terminate_thread t terminate_signal st =
     do { th \<leftarrow> thread_table st t;
          if state th = ZOMBIE then Some st
          else do {
            st \<leftarrow> (if state th = READY \<or> state th = RUNNING
                   then if t \<in> set (queue st) then Some (st\<lparr>queue := remove1 t (queue st)\<rparr>) else None
                   else Some st);
            st \<leftarrow> upd_thread t (\<lambda>th. th\<lparr>state := ZOMBIE\<rparr>) st;
            thread_died th terminate_signal st } }"

fun terminate_threads :: "nat list \<Rightarrow> int \<Rightarrow> sched \<Rightarrow> sched option" where
  "terminate_threads [] signal st = Some st"
| "terminate_threads (t # ts) signal st =
     do { st \<leftarrow> terminate_thread t signal st; terminate_threads ts signal st }"

definition terminate_process :: "nat \<Rightarrow> int \<Rightarrow> sched \<Rightarrow> sched option" where
  "terminate_process p signal st =
     do { pr \<leftarrow> processes st p; terminate_threads (thread_list pr) signal st }"

definition syscall_exit_group :: "nat \<Rightarrow> int \<Rightarrow> sched \<Rightarrow> sched option" where
  "syscall_exit_group t status st =
     do { th \<leftarrow> thread_table st t;
          st \<leftarrow> upd_proc (process th) (\<lambda>p. p\<lparr>wait_status := status, wait_code := CLD_EXITED\<rparr>) st;
          terminate_process (process th) (- 1) st }"

definition syscall_exit :: "nat \<Rightarrow> int \<Rightarrow> sched \<Rightarrow> sched option" where
  "syscall_exit t status st = terminate_thread t (- 1) st"

section \<open>The run queue invariant\<close>

definition runnable :: "thread \<Rightarrow> bool" where
  "runnable th \<longleftrightarrow> state th = READY \<or> state th = RUNNING"

text \<open>
  No thread is queued twice, every runnable thread but the idle one is queued, and a queued thread
  is runnable or a stopped one that \<^verbatim>\<open>SIGCONT\<close> is about to continue.
\<close>

definition queue_ok :: "sched \<Rightarrow> bool" where
  "queue_ok st \<longleftrightarrow> distinct (queue st) \<and>
     (\<forall>t\<in>set (queue st). \<exists>th. thread_table st t = Some th \<and>
        (runnable th \<or> state th = STOPPED \<and> enqueued_by_signal th = SIGCONT)) \<and>
     (\<forall>t th. thread_table st t = Some th \<longrightarrow> runnable th \<longrightarrow> t \<noteq> idle_thread st \<longrightarrow> t \<in> set (queue st))"

text \<open>No stopped thread waits in the queue to be continued.\<close>

definition none_continuing :: "sched \<Rightarrow> bool" where
  "none_continuing st \<longleftrightarrow> (\<forall>t\<in>set (queue st). \<forall>th. thread_table st t = Some th \<longrightarrow> state th \<noteq> STOPPED)"

text \<open>What an update of the state has to leave alone for the queue to stay consistent.\<close>

definition same_queue :: "sched \<Rightarrow> sched \<Rightarrow> bool" where
  "same_queue st st' \<longleftrightarrow> queue st' = queue st \<and> idle_thread st' = idle_thread st \<and>
     (\<forall>t. map_option (\<lambda>th. (state th, enqueued_by_signal th)) (thread_table st' t) =
          map_option (\<lambda>th. (state th, enqueued_by_signal th)) (thread_table st t))"

lemma same_queue_refl [simp]: "same_queue st st"
  by (simp add: same_queue_def)

lemma same_queue_trans: "same_queue a b \<Longrightarrow> same_queue b c \<Longrightarrow> same_queue a c"
  by (simp add: same_queue_def)

lemma same_queue_thread:
  assumes "same_queue st st'" "thread_table st' t = Some th'"
  shows "\<exists>th. thread_table st t = Some th \<and> state th = state th' \<and> enqueued_by_signal th = enqueued_by_signal th'"
proof -
  have "map_option (\<lambda>th. (state th, enqueued_by_signal th)) (thread_table st' t) =
        map_option (\<lambda>th. (state th, enqueued_by_signal th)) (thread_table st t)"
    using assms(1) unfolding same_queue_def by blast
  then show ?thesis using assms(2) by (cases "thread_table st t") auto
qed

lemma same_queue_sym: "same_queue st st' \<Longrightarrow> same_queue st' st"
  by (simp add: same_queue_def)

lemma queue_ok_same:
  assumes "same_queue st st'" "queue_ok st"
  shows "queue_ok st'"
proof -
  note fw = same_queue_thread[OF assms(1)] and bw = same_queue_thread[OF same_queue_sym[OF assms(1)]]
  have q: "queue st' = queue st" "idle_thread st' = idle_thread st" using assms(1) by (auto simp: same_queue_def)
  show ?thesis unfolding queue_ok_def q
  proof (intro conjI ballI allI impI)
    show "distinct (queue st)" using assms(2) by (simp add: queue_ok_def)
    show "\<exists>th. thread_table st' t = Some th \<and> (runnable th \<or> state th = STOPPED \<and> enqueued_by_signal th = SIGCONT)"
      if m: "t \<in> set (queue st)" for t
    proof -
      obtain th where "thread_table st t = Some th" "runnable th \<or> state th = STOPPED \<and> enqueued_by_signal th = SIGCONT"
        using assms(2) m unfolding queue_ok_def by blast
      with bw[of t th] show ?thesis by (auto simp: runnable_def)
    qed
    show "t \<in> set (queue st)" if "thread_table st' t = Some th" "runnable th" "t \<noteq> idle_thread st" for t th
      using fw[OF that(1)] that(2,3) assms(2) by (auto simp: queue_ok_def runnable_def)
  qed
qed

lemma same_queue_upd_thread:
  assumes "upd_thread t f st = Some st'" "\<And>th. state (f th) = state th" "\<And>th. enqueued_by_signal (f th) = enqueued_by_signal th"
  shows "same_queue st st'"
  using assms by (auto simp: upd_thread_def same_queue_def split: bind_splits)

lemma same_queue_others [simp]:
  "same_queue st (upd_event e g st)" "upd_proc p h st = Some st' \<Longrightarrow> same_queue st st'"
  "same_queue st (st\<lparr>effects := x\<rparr>)" "same_queue st (st\<lparr>processes := y\<rparr>)" "same_queue st (st\<lparr>groups := z\<rparr>)"
  by (auto simp: upd_event_def upd_proc_def same_queue_def split: bind_splits)

lemma enqueue_thread_queue_ok:
  assumes "queue_ok st" "enqueue_thread t signal st = Some st'"
  shows "queue_ok st'"
  using assms
  by (auto simp: enqueue_thread_def queue_ok_def upd_thread_def runnable_def split: bind_splits if_splits)

text \<open>Queuing a thread cannot corrupt the ring unless a stopped thread is continued twice.\<close>

lemma enqueue_thread_total:
  assumes "queue_ok st" "thread_table st t = Some th"
    and "state th = STOPPED \<Longrightarrow> signal = SIGCONT \<Longrightarrow> t \<notin> set (queue st)"
  shows "\<exists>st'. enqueue_thread t signal st = Some st'"
proof -
  have "t \<notin> set (queue st)" if "state th = BLOCKED" using assms(1,2) that by (auto simp: queue_ok_def runnable_def)
  then show ?thesis using assms(2,3) by (auto simp: enqueue_thread_def upd_thread_def)
qed

lemma wake_listeners_queue_ok:
  "queue_ok st \<Longrightarrow> wake_listeners ls m n st = Some (k, st') \<Longrightarrow> queue_ok st'"
proof (induction ls m n st arbitrary: k st' rule: wake_listeners.induct)
  case (2 t which rest m n st)
  from "2.prems"(2) obtain st1 st2 where
    st1: "upd_thread t (\<lambda>th. th\<lparr>which_event := which\<rparr>) st = Some st1" "enqueue_thread t (- 1) st1 = Some st2"
    and rest: "(if n + 1 \<ge> m then Some (n + 1, st2) else wake_listeners rest m (n + 1) st2) = Some (k, st')"
    by (auto split: bind_splits)
  have ok: "queue_ok st2"
    using enqueue_thread_queue_ok[OF queue_ok_same[OF same_queue_upd_thread[OF st1(1)] "2.prems"(1)] st1(2)] by simp
  show ?case using rest ok "2.IH"[OF st1 _ ok] by (auto split: if_splits)
qed simp

lemma trigger_queue_ok:
  assumes "queue_ok st" "trigger e d m st = Some (k, st')"
  shows "queue_ok st'"
  using assms wake_listeners_queue_ok[OF assms(1)] queue_ok_same[OF same_queue_others(1) assms(1)]
  by (auto simp: trigger_def split: if_splits)

lemma trigger_all_queue_ok: "queue_ok st \<Longrightarrow> trigger_all e st = Some st' \<Longrightarrow> queue_ok st'"
  by (auto simp: trigger_all_def dest: trigger_queue_ok)

lemma send_signal_queue_ok:
  assumes "queue_ok st" "send_signal t sig st = Some st'"
  shows "queue_ok st'"
proof -
  obtain st1 st2 where
    st1: "upd_thread t (\<lambda>th. th\<lparr>pending_signals := pending_signals th OR get_signal_bit sig\<rparr>) st = Some st1"
    and st2: "enqueue_thread t sig st1 = Some st2" "trigger_all (SignalEvent t) st2 = Some st'"
    using assms(2) by (auto simp: send_signal_def split: bind_splits)
  have "queue_ok st1" using queue_ok_same[OF same_queue_upd_thread[OF st1] assms(1)] by simp
  then show ?thesis using enqueue_thread_queue_ok[OF _ st2(1)] trigger_all_queue_ok[OF _ st2(2)] by blast
qed

lemma process_send_signal_queue_ok:
  "queue_ok st \<Longrightarrow> process_send_signal p sig st = Some st' \<Longrightarrow> queue_ok st'"
  by (auto simp: process_send_signal_def split: bind_splits dest: send_signal_queue_ok)

lemma group_send_signal_queue_ok:
  assumes "queue_ok st" "group_send_signal g sig st = Some st'"
  shows "queue_ok st'"
proof -
  have "queue_ok st \<Longrightarrow> signal_members g ps sig st = Some st' \<Longrightarrow> queue_ok st'" for ps
    by (induction g ps sig st rule: signal_members.induct)
      (auto split: bind_splits if_splits dest: process_send_signal_queue_ok)
  then show ?thesis using assms by (auto simp: group_send_signal_def split: bind_splits)
qed

text \<open>Taking a runnable thread off the queue and giving it a state that is not runnable.\<close>

lemma queue_ok_leave:
  assumes "queue_ok st" "thread_table st t = Some th" "\<not> runnable (f th)"
  shows "queue_ok (st\<lparr>queue := remove1 t (queue st), thread_table := (thread_table st)(t \<mapsto> f th)\<rparr>)"
  using assms by (auto simp: queue_ok_def)

lemma dequeue_thread_queue_ok:
  assumes ok: "queue_ok st" and d: "dequeue_thread t sig st = Some st'"
  shows "queue_ok st'"
proof -
  obtain th where th: "thread_table st t = Some th" using d by (auto simp: dequeue_thread_def split: bind_splits)
  define f where "f = (\<lambda>th :: thread. th\<lparr>state := (if sig = - 1 then BLOCKED else STOPPED)\<rparr>)"
  define st1 where "st1 = st\<lparr>queue := remove1 t (queue st), thread_table := (thread_table st)(t \<mapsto> f th)\<rparr>"
  have ok1: "queue_ok st1" unfolding st1_def by (rule queue_ok_leave[OF ok th]) (simp add: f_def runnable_def)
  show ?thesis
  proof (cases "sig = - 1")
    case True
    then have "st' = st1" using d th by (auto simp: dequeue_thread_def upd_thread_def st1_def f_def split: if_splits)
    then show ?thesis using ok1 by simp
  next
    case False
    obtain st2 st3 where
      "upd_proc (process th) (\<lambda>p. p\<lparr>wait_status := sig, wait_code := CLD_STOPPED\<rparr>) st1 = Some st2"
      and st3: "trigger_all (StoppedEvent (process th)) st2 = Some st3"
      and st': "st' = st3 \<or> (\<exists>q. process_send_signal q SIGCHLD st3 = Some st')"
      using d th False by (auto simp: dequeue_thread_def upd_thread_def st1_def f_def split: if_splits bind_splits)
    then have "queue_ok st2" using queue_ok_same[OF same_queue_others(2) ok1] by blast
    then have "queue_ok st3" using trigger_all_queue_ok st3 by blast
    then show ?thesis using st' process_send_signal_queue_ok by blast
  qed
qed

lemma set_parent_same_queue:
  assumes "set_parent p q st = Some st'"
  shows "same_queue st st'"
  using assms
  by (auto simp: set_parent_def add_process_def upd_proc_def same_queue_def Let_def
      split: bind_splits option.splits if_splits)

lemma reparent_all_same_queue: "reparent_all cs q st = Some st' \<Longrightarrow> same_queue st st'"
  by (induction cs q st rule: reparent_all.induct)
    (auto split: bind_splits intro: same_queue_trans dest: set_parent_same_queue)

lemma zombify_queue_ok:
  assumes ok: "queue_ok st" and z: "zombify p sig st = Some st'"
  shows "queue_ok st'"
proof -
  obtain st1 cs st2 st3 q where
    st1: "upd_proc p (mark_zombie sig) st = Some st1"
    and st2: "reparent_all cs (init_process st1) st1 = Some st2"
    and st3: "trigger_all (ZombieEvent p) (st2\<lparr>effects := effects st2 @ [CloseFiles p, DeletePagemap p]\<rparr>) = Some st3"
    and st': "process_send_signal q SIGCHLD st3 = Some st'"
    using z by (auto simp: zombify_def Let_def split: bind_splits if_splits)
  have "queue_ok st1" using queue_ok_same[OF same_queue_others(2)[OF st1] ok] .
  then have "queue_ok st2" using queue_ok_same[OF reparent_all_same_queue[OF st2]] by blast
  then have "queue_ok (st2\<lparr>effects := effects st2 @ [CloseFiles p, DeletePagemap p]\<rparr>)"
    using queue_ok_same[OF same_queue_others(3)] by blast
  then show ?thesis using trigger_all_queue_ok[OF _ st3] process_send_signal_queue_ok[OF _ st'] by blast
qed

lemma thread_died_queue_ok:
  assumes "queue_ok st" "thread_died th sig st = Some st'"
  shows "queue_ok st'"
proof -
  obtain st2 where st2: "upd_proc (process th) (\<lambda>p. p\<lparr>num_living_threads := num_living_threads p - 1\<rparr>) st = Some st2"
    and st': "st' = st2 \<or> (\<exists>x. st' = st2\<lparr>effects := x\<rparr>) \<or> zombify (process th) sig st2 = Some st'"
    using assms(2) by (auto simp: thread_died_def split: bind_splits if_splits)
  have "queue_ok st2" using queue_ok_same[OF same_queue_others(2)[OF st2] assms(1)] .
  then show ?thesis using st' zombify_queue_ok queue_ok_same[OF same_queue_others(3)] by blast
qed

lemma terminate_thread_queue_ok:
  assumes ok: "queue_ok st" and d: "terminate_thread t sig st = Some st'"
    and nc: "\<And>th. thread_table st t = Some th \<Longrightarrow> state th = STOPPED \<Longrightarrow> t \<notin> set (queue st)"
  shows "queue_ok st'"
proof -
  obtain th where th: "thread_table st t = Some th" using d by (auto simp: terminate_thread_def split: bind_splits)
  consider (dead) "state th = ZOMBIE" | (run) "runnable th" "t \<in> set (queue st)"
    | (other) "\<not> runnable th" "state th \<noteq> ZOMBIE"
    using d th by (auto simp: terminate_thread_def runnable_def split: if_splits)
  then show ?thesis
  proof cases
    case dead
    then show ?thesis using d th ok by (simp add: terminate_thread_def)
  next
    case run
    have "queue_ok (st\<lparr>queue := remove1 t (queue st), thread_table := (thread_table st)(t \<mapsto> th\<lparr>state := ZOMBIE\<rparr>)\<rparr>)"
      by (rule queue_ok_leave[OF ok th, of "\<lambda>th. th\<lparr>state := ZOMBIE\<rparr>"]) (simp add: runnable_def)
    moreover have "thread_died th sig
        (st\<lparr>queue := remove1 t (queue st), thread_table := (thread_table st)(t \<mapsto> th\<lparr>state := ZOMBIE\<rparr>)\<rparr>) = Some st'"
      using d th run by (auto simp: terminate_thread_def runnable_def upd_thread_def)
    ultimately show ?thesis by (rule thread_died_queue_ok)
  next
    case other
    have "t \<notin> set (queue st)" using other(1) nc[OF th] ok th by (auto simp: queue_ok_def)
    then have "queue_ok (st\<lparr>thread_table := (thread_table st)(t \<mapsto> th\<lparr>state := ZOMBIE\<rparr>)\<rparr>)"
      using ok by (auto simp: queue_ok_def runnable_def)
    moreover have "thread_died th sig (st\<lparr>thread_table := (thread_table st)(t \<mapsto> th\<lparr>state := ZOMBIE\<rparr>)\<rparr>) = Some st'"
      using d th other by (auto simp: terminate_thread_def runnable_def upd_thread_def)
    ultimately show ?thesis by (rule thread_died_queue_ok)
  qed
qed

section \<open>Listeners\<close>

text \<open>
  The listener ring of an event and the listener vector of a thread describe the same pairs, and
  the counter of an event is the length of its ring.
\<close>

definition listens :: "sched \<Rightarrow> nat \<Rightarrow> (event_id \<times> int) list" where
  "listens st t = (case thread_table st t of None \<Rightarrow> [] | Some th \<Rightarrow> listeners th)"

definition events_ok :: "sched \<Rightarrow> bool" where
  "events_ok st \<longleftrightarrow>
     (\<forall>e. distinct (listener_list (events st e)) \<and>
          num_listeners (events st e) = int (length (listener_list (events st e)))) \<and>
     (\<forall>t. distinct (listens st t)) \<and>
     (\<forall>t e w. (t, w) \<in> set (listener_list (events st e)) \<longleftrightarrow> (e, w) \<in> set (listens st t))"

lemma events_ok_same:
  assumes "events_ok st" "\<And>t. listens st' t = listens st t"
    and "\<And>e. listener_list (events st' e) = listener_list (events st e)"
    and "\<And>e. num_listeners (events st' e) = num_listeners (events st e)"
  shows "events_ok st'"
  using assms by (simp add: events_ok_def)

lemma listens_upd_thread:
  assumes "upd_thread t f st = Some st'" "\<And>th. listeners (f th) = listeners th"
  shows "listens st' u = listens st u" "events st' = events st"
  using assms by (auto simp: upd_thread_def listens_def split: bind_splits if_splits)

lemma enqueue_thread_listens:
  assumes "enqueue_thread t s st = Some st'"
  shows "listens st' u = listens st u" "events st' = events st"
  using assms
  by (auto simp: enqueue_thread_def upd_thread_def listens_def split: bind_splits if_splits)

lemma wake_listeners_listens:
  "wake_listeners ls m n st = Some (k, st') \<Longrightarrow> listens st' u = listens st u \<and> events st' = events st"
proof (induction ls m n st arbitrary: k st' rule: wake_listeners.induct)
  case (2 t which rest m n st)
  from "2.prems" obtain st1 st2 where
    st1: "upd_thread t (\<lambda>th. th\<lparr>which_event := which\<rparr>) st = Some st1" "enqueue_thread t (- 1) st1 = Some st2"
    and rest: "(if n + 1 \<ge> m then Some (n + 1, st2) else wake_listeners rest m (n + 1) st2) = Some (k, st')"
    by (auto split: bind_splits)
  show ?case using rest listens_upd_thread[OF st1(1)] enqueue_thread_listens[OF st1(2)] "2.IH"[OF st1]
    by (auto split: if_splits)
qed simp

lemma trigger_events_ok:
  assumes "events_ok st" "trigger e d m st = Some (k, st')"
  shows "events_ok st'"
proof (cases "num_listeners (events st e) = 0")
  case True
  then show ?thesis using assms
    by (cases d) (auto simp: trigger_def upd_event_def listens_def intro!: events_ok_same[OF assms(1)])
next
  case False
  then have "wake_listeners (listener_list (events st e)) m 0 st = Some (k, st')"
    using assms(2) by (simp add: trigger_def)
  from wake_listeners_listens[OF this] show ?thesis by (intro events_ok_same[OF assms(1)]) simp_all
qed

lemma add_listeners_spec:
  "events_ok st \<Longrightarrow> (\<forall>(e, w)\<in>set (listens st t). w < int i) \<Longrightarrow> add_listeners t evs i st = Some st' \<Longrightarrow>
   events_ok st' \<and> same_queue st st' \<and> (\<forall>u. u \<noteq> t \<longrightarrow> listens st' u = listens st u)"
proof (induction t evs i st arbitrary: st' rule: add_listeners.induct)
  case (2 t ev rest i st)
  show ?case
  proof (cases ev)
    case None
    have b: "\<forall>(x, w)\<in>set (listens st t). w < int (i + 1)" using "2.prems"(2) by fastforce
    show ?thesis using "2.IH"(1)[OF None "2.prems"(1) b] "2.prems"(3) None by simp
  next
    case (Some e)
    let ?f = "\<lambda>th :: thread. th\<lparr>listeners := listeners th @ [(e, int i)]\<rparr>"
    let ?g = "\<lambda>ev :: event. ev\<lparr>listener_list := listener_list ev @ [(t, int i)], num_listeners := num_listeners ev + 1\<rparr>"
    obtain st1 where st1: "upd_thread t ?f st = Some st1" "add_listeners t rest (i + 1) (upd_event e ?g st1) = Some st'"
      using "2.prems"(3) Some by (auto split: bind_splits)
    let ?st2 = "upd_event e ?g st1"
    have l: "listens ?st2 u = (if u = t then listens st t @ [(e, int i)] else listens st u)" for u
      using st1(1) by (auto simp: upd_thread_def upd_event_def listens_def split: bind_splits)
    have ev: "listener_list (events ?st2 x) = (if x = e then listener_list (events st e) @ [(t, int i)] else listener_list (events st x))"
      "num_listeners (events ?st2 x) = (if x = e then num_listeners (events st e) + 1 else num_listeners (events st x))" for x
      using st1(1) by (auto simp: upd_thread_def upd_event_def split: bind_splits)
    have fresh: "(x, int i) \<notin> set (listens st t)" for x using "2.prems"(2) by auto
    then have "(t, int i) \<notin> set (listener_list (events st x))" for x
      using "2.prems"(1) by (simp add: events_ok_def)
    then have ok: "events_ok ?st2" using "2.prems"(1) fresh by (auto simp: events_ok_def l ev)
    have b: "\<forall>(x, w)\<in>set (listens ?st2 t). w < int (i + 1)" using "2.prems"(2) l by fastforce
    have q: "same_queue st ?st2"
      using same_queue_trans[OF same_queue_upd_thread[OF st1(1)] same_queue_others(1)] by simp
    from "2.IH"(2)[OF Some st1(1) refl ok b st1(2)] show ?thesis using q l same_queue_trans by fastforce
  qed
qed simp

text \<open>Removing all the listeners of a thread leaves it in no ring.\<close>

lemma remove_listeners_spec:
  assumes "\<forall>e. distinct (listener_list (events st e)) \<and> num_listeners (events st e) = int (length (listener_list (events st e)))"
    and "distinct ls" "\<forall>e w. (t, w) \<in> set (listener_list (events st e)) \<longleftrightarrow> (e, w) \<in> set ls"
  shows "(\<forall>e. distinct (listener_list (events (remove_listeners t ls st) e)) \<and>
            num_listeners (events (remove_listeners t ls st) e) = int (length (listener_list (events (remove_listeners t ls st) e))) \<and>
            set (listener_list (events (remove_listeners t ls st) e)) = {x \<in> set (listener_list (events st e)). fst x \<noteq> t}) \<and>
         thread_table (remove_listeners t ls st) = thread_table st \<and> same_queue st (remove_listeners t ls st)"
  using assms
proof (induction t ls st rule: remove_listeners.induct)
  case (1 t st)
  then show ?case by auto
next
  case (2 t e w rest st)
  let ?st = "upd_event e (\<lambda>ev. ev\<lparr>listener_list := remove1 (t, w) (listener_list ev),
      num_listeners := num_listeners ev - 1\<rparr>) st"
  have in_e: "(t, w) \<in> set (listener_list (events st e))" using "2.prems"(3) by auto
  have ev: "listener_list (events ?st x) = (if x = e then remove1 (t, w) (listener_list (events st e)) else listener_list (events st x))"
    "num_listeners (events ?st x) = (if x = e then num_listeners (events st e) - 1 else num_listeners (events st x))"
    "thread_table ?st = thread_table st" for x by (auto simp: upd_event_def)
  have pos: "0 < length (listener_list (events st e))" using in_e by (auto simp: length_greater_0_conv)
  have pm: "int (length (listener_list (events st e)) - Suc 0) = int (length (listener_list (events st e))) - 1"
    using pos by arith
  have d: "distinct (listener_list (events st x))" for x using "2.prems"(1) by blast
  have p1: "\<forall>x. distinct (listener_list (events ?st x)) \<and> num_listeners (events ?st x) = int (length (listener_list (events ?st x)))"
    using "2.prems"(1) in_e pm by (auto simp: ev length_remove1 distinct_remove1)
  have p2: "distinct rest" using "2.prems"(2) by simp
  have p3: "\<forall>x v. (t, v) \<in> set (listener_list (events ?st x)) \<longleftrightarrow> (x, v) \<in> set rest"
    using "2.prems"(2,3) d by (auto simp: ev set_remove1_eq)
  have sets: "{y \<in> set (listener_list (events ?st x)). fst y \<noteq> t} = {y \<in> set (listener_list (events st x)). fst y \<noteq> t}" for x
    using d by (auto simp: ev set_remove1_eq)
  have "same_queue st (remove_listeners t rest ?st)"
    using "2.IH"[OF p1 p2 p3] same_queue_trans[OF same_queue_others(1)] by blast
  then show ?case using "2.IH"[OF p1 p2 p3] by (simp add: sets ev(3))
qed

lemma clear_listeners_spec:
  assumes "events_ok st" "clear_listeners t st = Some st'"
  shows "events_ok st'" "listens st' t = []" "same_queue st st'" "\<And>e. t \<notin> fst ` set (listener_list (events st' e))"
proof -
  obtain th where th: "thread_table st t = Some th"
    and st': "upd_thread t (\<lambda>th. th\<lparr>listeners := []\<rparr>) (remove_listeners t (listeners th) st) = Some st'"
    using assms(2) by (auto simp: clear_listeners_def split: bind_splits)
  let ?s = "remove_listeners t (listeners th) st"
  have l: "listens st t = listeners th" by (simp add: listens_def th)
  moreover have "distinct (listens st t)" using assms(1) by (simp add: events_ok_def)
  ultimately have dl: "distinct (listeners th)" by simp
  have R: "(\<forall>e. distinct (listener_list (events ?s e)) \<and>
            num_listeners (events ?s e) = int (length (listener_list (events ?s e))) \<and>
            set (listener_list (events ?s e)) = {x \<in> set (listener_list (events st e)). fst x \<noteq> t}) \<and>
         thread_table ?s = thread_table st \<and> same_queue st ?s"
    by (rule remove_listeners_spec) (use assms(1) l dl in \<open>auto simp: events_ok_def\<close>)
  have ev: "events st' = events ?s" and li: "listens st' u = (if u = t then [] else listens st u)" for u
    using st' R by (auto simp: upd_thread_def listens_def split: bind_splits)
  show "listens st' t = []" by (simp add: li)
  show "\<And>e. t \<notin> fst ` set (listener_list (events st' e))" using R by (auto simp: ev)
  show "same_queue st st'"
    using R same_queue_trans[OF _ same_queue_upd_thread[OF st']] by simp
  show "events_ok st'" unfolding events_ok_def ev li
    using R assms(1) by (auto simp: events_ok_def)
qed

section \<open>Waking\<close>

text \<open>Blocked listeners are woken in the order they began to wait, as many as asked for.\<close>

lemma wake_listeners_blocked:
  assumes "queue_ok st" "n < m" "distinct (map fst ls)"
    and "\<forall>(t, w)\<in>set ls. \<exists>th. thread_table st t = Some th \<and> state th = BLOCKED"
    and "k = min (nat (m - n)) (length ls)"
  shows "\<exists>st'. wake_listeners ls m n st = Some (n + int k, st') \<and> queue st' = queue st @ map fst (take k ls) \<and>
           (\<forall>(t, w)\<in>set (take k ls). \<exists>th. thread_table st' t = Some th \<and> state th = READY \<and>
              which_event th = w \<and> enqueued_by_signal th = - 1) \<and>
           (\<forall>t. t \<notin> fst ` set (take k ls) \<longrightarrow> thread_table st' t = thread_table st t)"
  using assms
proof (induction ls arbitrary: n k st)
  case (Cons l ls)
  obtain t w where l: "l = (t, w)" by fastforce
  obtain th where th: "thread_table st t = Some th" "state th = BLOCKED" using Cons.prems(4) l by auto
  have nq: "t \<notin> set (queue st)" using Cons.prems(1) th by (auto simp: queue_ok_def runnable_def)
  let ?th = "th\<lparr>which_event := w, enqueued_by_signal := - 1, state := READY\<rparr>"
  define st2 where "st2 = st\<lparr>thread_table := (thread_table st)(t \<mapsto> ?th), queue := queue st @ [t]\<rparr>"
  obtain st1 where st1: "upd_thread t (\<lambda>th. th\<lparr>which_event := w\<rparr>) st = Some st1" "enqueue_thread t (- 1) st1 = Some st2"
    using th nq by (auto simp: upd_thread_def enqueue_thread_def st2_def)
  have eq: "wake_listeners (l # ls) m n st = (if n + 1 \<ge> m then Some (n + 1, st2) else wake_listeners ls m (n + 1) st2)"
    using st1 l by simp
  have ok2: "queue_ok st2"
    using enqueue_thread_queue_ok[OF queue_ok_same[OF same_queue_upd_thread[OF st1(1)] Cons.prems(1)] st1(2)] by simp
  show ?case
  proof (cases "n + 1 \<ge> m")
    case True
    then have "nat (m - n) = 1" using Cons.prems(2) by simp
    then have "k = 1" using Cons.prems(5) by simp
    then show ?thesis using True eq l by (simp add: st2_def)
  next
    case False
    have tl: "t \<notin> fst ` set ls" "distinct (map fst ls)" using Cons.prems(3) l by auto
    have b: "\<forall>(u, v)\<in>set ls. \<exists>th. thread_table st2 u = Some th \<and> state th = BLOCKED"
      using Cons.prems(4) tl(1) by (force simp: st2_def)
    define k' where "k' = min (nat (m - (n + 1))) (length ls)"
    have k: "k = Suc k'" using Cons.prems(2,5) False by (auto simp: k'_def nat_diff_distrib' min_def)
    from Cons.IH[OF ok2 _ tl(2) b k'_def] False obtain st' where
      st': "wake_listeners ls m (n + 1) st2 = Some (n + 1 + int k', st')" "queue st' = queue st2 @ map fst (take k' ls)"
      "\<forall>(t, w)\<in>set (take k' ls). \<exists>th. thread_table st' t = Some th \<and> state th = READY \<and> which_event th = w \<and> enqueued_by_signal th = - 1"
      "\<forall>t. t \<notin> fst ` set (take k' ls) \<longrightarrow> thread_table st' t = thread_table st2 t" by auto
    have "t \<notin> fst ` set (take k' ls)" using tl(1) by (auto dest: in_set_takeD)
    then have t: "thread_table st' t = Some ?th" using st'(4) by (simp add: st2_def)
    show ?thesis
    proof (intro exI conjI)
      show "wake_listeners (l # ls) m n st = Some (n + int k, st')" using eq False st'(1) k by simp
      show "queue st' = queue st @ map fst (take k (l # ls))" using st'(2) k l by (simp add: st2_def)
      show "\<forall>(t, w)\<in>set (take k (l # ls)). \<exists>th. thread_table st' t = Some th \<and> state th = READY \<and>
          which_event th = w \<and> enqueued_by_signal th = - 1" using st'(3) t k l by auto
      show "\<forall>u. u \<notin> fst ` set (take k (l # ls)) \<longrightarrow> thread_table st' u = thread_table st u"
        using st'(4) k l by (auto simp: st2_def)
    qed
  qed
qed simp

section \<open>Properties\<close>


definition example_thread :: "thread_state \<Rightarrow> thread" where
  "example_thread s = \<lparr>process = 1, state = s, listeners = [], which_event = 0, signal_mask = 0, pending_signals = 0,
     enqueued_by_signal = - 1, entering_signal = False, exiting_signal = False, set_child_tid = 0, clear_child_tid = 0\<rparr>"

definition example_sched :: sched where
  "example_sched = \<lparr>thread_table = [1 \<mapsto> example_thread RUNNING, 2 \<mapsto> example_thread BLOCKED, 3 \<mapsto> example_thread STOPPED],
     thread_table_size = 4, num_threads = 3, first_free_tid = 4, processes = Map.empty, groups = Map.empty,
     sessions = Map.empty, events = (\<lambda>_. event_new), queue = [1], init_process = 1, idle_thread = 0, effects = []\<rparr>"

lemma example_sched_ok: "queue_ok example_sched" "none_continuing example_sched"
  by (auto simp: queue_ok_def example_sched_def none_continuing_def example_thread_def runnable_def split: if_splits)


lemma trigger_blocked_spec:
  assumes "queue_ok st" "events_ok st" "1 \<le> m"
    and "listener_list (events st e) = ls" "ls \<noteq> []" "distinct (map fst ls)"
    and "\<forall>(t, w)\<in>set ls. \<exists>th. thread_table st t = Some th \<and> state th = BLOCKED"
  shows "\<exists>st'. trigger e d m st = Some (int (min (nat m) (length ls)), st') \<and>
           queue st' = queue st @ map fst (take (nat m) ls) \<and>
           (\<forall>(t, w)\<in>set (take (nat m) ls). \<exists>th. thread_table st' t = Some th \<and> state th = READY \<and>
              which_event th = w \<and> enqueued_by_signal th = - 1) \<and>
           (\<forall>t. t \<notin> fst ` set (take (nat m) ls) \<longrightarrow> thread_table st' t = thread_table st t) \<and>
           events_ok st'"
proof -
  define k where "k = min (nat (m - 0)) (length ls)"
  have tk: "take k ls = take (nat m) ls" by (cases "nat m \<le> length ls") (simp_all add: k_def min_def)
  have "num_listeners (events st e) \<noteq> 0" using assms(2,4,5) by (simp add: events_ok_def)
  then have t: "trigger e d m st = wake_listeners ls m 0 st" by (simp add: trigger_def assms(4))
  have "0 < m" using assms(3) by simp
  from wake_listeners_blocked[OF assms(1) this assms(6,7) k_def] obtain st' where
    st': "wake_listeners ls m 0 st = Some (0 + int k, st')" "queue st' = queue st @ map fst (take k ls)"
    "\<forall>(t, w)\<in>set (take k ls). \<exists>th. thread_table st' t = Some th \<and> state th = READY \<and> which_event th = w \<and> enqueued_by_signal th = - 1"
    "\<forall>t. t \<notin> fst ` set (take k ls) \<longrightarrow> thread_table st' t = thread_table st t" by blast
  have "events_ok st'" using trigger_events_ok[OF assms(2), of e d m] t st'(1) by auto
  then show ?thesis using st' t unfolding tk by (auto simp: k_def)
qed

text \<open>
  C33: Waking is first come, first served: triggering an event with blocked listeners makes the
  first \<open>m\<close> of them ready, in the order they began to wait, at the back of the run queue, tells each
  which of its events happened, and touches no other thread.
\<close>

theorem trigger_wakes_in_order:
  assumes "queue_ok st" "events_ok st" "1 \<le> m"
    and "listener_list (events st e) = ls" "ls \<noteq> []" "distinct (map fst ls)"
    and "\<forall>(t, w)\<in>set ls. \<exists>th. thread_table st t = Some th \<and> state th = BLOCKED"
  shows "\<exists>st'. trigger e d m st = Some (int (min (nat m) (length ls)), st') \<and>
           queue st' = queue st @ map fst (take (nat m) ls) \<and>
           (\<forall>(t, w)\<in>set (take (nat m) ls). \<exists>th. thread_table st' t = Some th \<and> state th = READY \<and>
              which_event th = w \<and> enqueued_by_signal th = - 1) \<and>
           (\<forall>t. t \<notin> fst ` set (take (nat m) ls) \<longrightarrow> thread_table st' t = thread_table st t) \<and>
           events_ok st'"
  by (rule trigger_blocked_spec[OF assms])

definition example_waiters :: sched where
  "example_waiters = \<lparr>thread_table = [1 \<mapsto> example_thread RUNNING,
       2 \<mapsto> (example_thread BLOCKED)\<lparr>listeners := [(OtherEvent 0, 0)]\<rparr>,
       3 \<mapsto> (example_thread BLOCKED)\<lparr>listeners := [(OtherEvent 0, 0)]\<rparr>],
     thread_table_size = 4, num_threads = 3, first_free_tid = 4, processes = Map.empty, groups = Map.empty,
     sessions = Map.empty,
     events = (\<lambda>_. event_new)(OtherEvent 0 := \<lparr>pending = 0, num_listeners = 2, listener_list = [(2, 0), (3, 0)]\<rparr>),
     queue = [1], init_process = 1, idle_thread = 0, effects = []\<rparr>"

lemma example_waiters_ok: "queue_ok example_waiters" "events_ok example_waiters"
  by (auto simp: queue_ok_def events_ok_def listens_def example_waiters_def example_thread_def runnable_def
      event_new_def split: if_splits option.splits)

theorem trigger_wakes_in_order_witness:
  "\<exists>st'. trigger (OtherEvent 0) True 1 example_waiters = Some (1, st') \<and> queue st' = [1, 2]"
  using trigger_wakes_in_order[OF example_waiters_ok, of 1 "OtherEvent 0" "[(2, 0), (3, 0)]" True]
  by (auto simp: example_waiters_def example_thread_def)

text \<open>
  A wake-up can be lost. A woken listener stays on the event's ring until its thread runs
  again; waking one thread twice before that counts the first listener twice, and the second
  waiter stays blocked although both calls report that they woke a thread.
\<close>

theorem second_wake_is_lost:
  "\<exists>s1 s2. trigger (OtherEvent 0) True 1 example_waiters = Some (1, s1) \<and>
     trigger (OtherEvent 0) True 1 s1 = Some (1, s2) \<and>
     map_option state (thread_table s2 2) = Some READY \<and> map_option state (thread_table s2 3) = Some BLOCKED \<and>
     3 \<notin> set (queue s2)"
  by (simp add: trigger_def example_waiters_def upd_thread_def enqueue_thread_def example_thread_def)

lemma wait_begin_ok:
  assumes "events_ok st" "queue_ok st" "wait_begin t evs nb st = Some (r, s1)"
  shows "queue_ok s1 \<and>
    (\<forall>w. r = Inr w \<longrightarrow> map_option state (thread_table s1 t) = Some BLOCKED \<and> t \<notin> set (queue s1) \<and> events_ok s1)"
proof -
  obtain th where th: "thread_table st t = Some th" and
    "(r \<noteq> Inr () \<and> (s1 = st \<or> (\<exists>i. take_pending evs 0 st = Some (i, s1)))) \<or>
     (r = Inr () \<and> listeners th = [] \<and> (\<exists>s0. add_listeners t evs 0 st = Some s0 \<and> dequeue_thread t (- 1) s0 = Some s1))"
    using assms(3) by (auto simp: wait_begin_def split: bind_splits option.splits if_splits)
  then consider "r \<noteq> Inr ()" "s1 = st" | i where "r \<noteq> Inr ()" "take_pending evs 0 st = Some (i, s1)"
    | s0 where "r = Inr ()" "listeners th = []" "add_listeners t evs 0 st = Some s0" "dequeue_thread t (- 1) s0 = Some s1" by blast
  then show "queue_ok s1 \<and>
      (\<forall>w. r = Inr w \<longrightarrow> map_option state (thread_table s1 t) = Some BLOCKED \<and> t \<notin> set (queue s1) \<and> events_ok s1)"
  proof cases
    case 1
    then show ?thesis using assms by simp
  next
    case (2 i)
    have "take_pending evs j st = Some (i, s1) \<Longrightarrow> same_queue st s1" for j
      by (induction evs j st rule: take_pending.induct) (auto split: option.splits if_splits)
    then show ?thesis using 2 queue_ok_same[OF _ assms(2)] by auto
  next
    case (3 s0)
    have "listens st t = []" using th 3(2) by (simp add: listens_def)
    then have s0: "events_ok s0" "same_queue st s0" using add_listeners_spec[OF assms(1) _ 3(3)] by auto
    have q0: "queue_ok s0" by (rule queue_ok_same[OF s0(2) assms(2)])
    then have d: "distinct (queue s0)" by (simp add: queue_ok_def)
    obtain th0 where s1: "s1 = s0\<lparr>queue := remove1 t (queue s0), thread_table := (thread_table s0)(t \<mapsto> th0\<lparr>state := BLOCKED\<rparr>)\<rparr>"
      and th0: "thread_table s0 t = Some th0"
      using 3(4) by (auto simp: dequeue_thread_def upd_thread_def split: bind_splits if_splits)
    have "events_ok s1" by (rule events_ok_same[OF s0(1)]) (auto simp: s1 listens_def th0)
    then show ?thesis using dequeue_thread_queue_ok[OF q0 3(4)] s1 d by simp
  qed
qed



end
