(* ===== verification/Sched_Lifecycle.thy ===== *)
theory Sched_Lifecycle
  imports Sched_Core
begin

text \<open>
  The life of a process in \<^verbatim>\<open>sched/sched.cpp\<close>: creation (the scheduling side of \<^verbatim>\<open>clone_impl\<close>),
  waiting for a child (\<^verbatim>\<open>waitid_impl\<close>, \<^verbatim>\<open>syscall_wait4\<close>) and the destructors that run when it is
  reaped; and the round-robin choice of the next thread in \<^verbatim>\<open>scheduler_isr\<close>. Registers, stacks, the
  address space and \<^verbatim>\<open>procfs\<close> are outside this state; the descriptor table a new process gets is
  \<open>fork_fds\<close> of \<open>Vfs_Descriptors\<close>. A blocking \<^verbatim>\<open>waitid\<close> repeats the pass modelled here after each
  \<^verbatim>\<open>Event::wait\<close>.
\<close>

section \<open>Destructors\<close>

definition delete_thread :: "nat \<Rightarrow> sched \<Rightarrow> sched option" where
  "delete_thread t st =
     do { th \<leftarrow> thread_table st t;
          if state th \<noteq> ZOMBIE then None
          else do {
            st \<leftarrow> clear_listeners t st;
            st \<leftarrow> upd_proc (process th) (\<lambda>p. p\<lparr>thread_list := remove1 t (thread_list p)\<rparr>) st;
            Some (st\<lparr>thread_table := (thread_table st)(t := None)\<rparr>) } }"

fun delete_threads :: "nat list \<Rightarrow> sched \<Rightarrow> sched option" where
  "delete_threads [] st = Some st"
| "delete_threads (t # ts) st =
     do { th \<leftarrow> thread_table st t;
          st \<leftarrow> (if state th \<noteq> ZOMBIE then terminate_thread t (- 1) st else Some st);
          st \<leftarrow> delete_thread t st;
          delete_threads ts st }"

definition delete_process :: "nat \<Rightarrow> sched \<Rightarrow> sched option" where
  "delete_process p st =
     do { pr \<leftarrow> processes st p;
          if \<not> is_zombie pr then None
          else do {
            g \<leftarrow> group pr;
            gr \<leftarrow> groups st g;
            if p \<notin> set (process_list gr) then None
            else do {
              let st = st\<lparr>processes := (\<lambda>q. map_option (\<lambda>x. x\<lparr>children_list := removeAll p (children_list x)\<rparr>)
                                            (processes st q)),
                          groups := (groups st)(g \<mapsto> gr\<lparr>process_list := remove1 p (process_list gr)\<rparr>)\<rparr>;
              st \<leftarrow> delete_threads (thread_list pr) st;
              Some (st\<lparr>processes := (processes st)(p := None)\<rparr>) } } }"

section \<open>Waiting for children\<close>

definition WNOHANG :: u32 where "WNOHANG = 1"
definition WUNTRACED :: u32 where "WUNTRACED = 2"
definition WSTOPPED :: u32 where "WSTOPPED = 2"
definition WEXITED :: u32 where "WEXITED = 4"
definition WCONTINUED :: u32 where "WCONTINUED = 8"
definition WNOWAIT :: u32 where "WNOWAIT = 0x1000000"
definition WLINUX_FLAGS :: u32 where "WLINUX_FLAGS = 0xE0000000"

datatype idtype = P_ALL | P_PID | P_OTHER

record siginfo =
  si_pid :: int
  si_status :: int
  si_code :: int

definition add_child :: "u32 \<Rightarrow> nat \<Rightarrow> (nat \<times> event_id) list" where
  "add_child options child =
     (if options AND WEXITED \<noteq> 0 then [(child, ZombieEvent child)] else []) @
     (if options AND WSTOPPED \<noteq> 0 then [(child, StoppedEvent child)] else []) @
     (if options AND WCONTINUED \<noteq> 0 then [(child, ContinuedEvent child)] else [])"

text \<open>
  The start of \<^verbatim>\<open>waitid_impl\<close> in the process \<open>cur\<close>: the children to watch, an error, or \<open>Inr None\<close>
  for the unsupported kinds that return 0.
\<close>

definition waitid_targets :: "nat \<Rightarrow> idtype \<Rightarrow> nat \<Rightarrow> u32 \<Rightarrow> sched \<Rightarrow> ((nat \<times> event_id) list option) res option" where
  "waitid_targets cur idtype pid options st =
     (if options AND (WEXITED OR WSTOPPED OR WCONTINUED) = 0 then Some (Inl EINVAL)
      else case idtype of
        P_ALL \<Rightarrow>
          do { pr \<leftarrow> processes st cur;
               if children_list pr = [] then Some (Inl ECHILD)
               else Some (Inr (Some (concat (map (add_child options) (children_list pr))))) }
      | P_PID \<Rightarrow>
          if pid \<ge> thread_table_size st then Some (Inl ECHILD)
          else (case thread_table st pid of
                  None \<Rightarrow> Some (Inl ECHILD)
                | Some th \<Rightarrow>
                    do { child \<leftarrow> processes st (process th);
                         if parent child \<noteq> cur then Some (Inl ECHILD)
                         else Some (Inr (Some (add_child options (process th)))) })
      | P_OTHER \<Rightarrow> Some (Inr None))"

fun find_waitable :: "(nat \<times> event_id) list \<Rightarrow> sched \<Rightarrow> nat option option" where
  "find_waitable [] st = Some None"
| "find_waitable ((c, _) # rest) st =
     do { pr \<leftarrow> processes st c; if wait_code pr \<noteq> 0 then Some (Some c) else find_waitable rest st }"

text \<open>One pass of the loop of \<^verbatim>\<open>waitid_impl\<close>: \<open>Inl (r, info)\<close> when it returns, \<open>Inr\<close> when it waits.\<close>

definition waitid_pass ::
  "(nat \<times> event_id) list \<Rightarrow> u32 \<Rightarrow> sched \<Rightarrow> ((int \<times> siginfo) option \<times> sched) option" where
  "waitid_pass targets options st =
     do { found \<leftarrow> find_waitable targets st;
          case found of
            Some c \<Rightarrow>
              do { pr \<leftarrow> processes st c;
                   main \<leftarrow> get_main_thread c st;
                   let info = \<lparr>si_pid = int c, si_status = wait_status pr, si_code = wait_code pr\<rparr>;
                   st \<leftarrow> (if options AND WNOWAIT \<noteq> 0 then Some st
                          else if is_zombie pr then delete_process c st
                          else upd_proc c (\<lambda>p. p\<lparr>wait_code := 0\<rparr>) st);
                   Some (Some (int c, info), st) }
          | None \<Rightarrow>
              if options AND WNOHANG \<noteq> 0 then Some (Some (0, \<lparr>si_pid = 0, si_status = 0, si_code = 0\<rparr>), st)
              else Some (None, st) }"

text \<open>
  The arguments \<^verbatim>\<open>wait4\<close> passes on (the id of a process group is not used by \<^verbatim>\<open>waitid_impl\<close>), and
  the status word it stores.
\<close>

definition wait4_options :: "u32 \<Rightarrow> u32 res" where
  "wait4_options options =
     (if options AND NOT (WNOHANG OR WUNTRACED OR WCONTINUED OR WLINUX_FLAGS) \<noteq> 0 then Inl EINVAL
      else let o1 = WEXITED OR (options AND NOT WUNTRACED)
           in Inr (if options AND WUNTRACED \<noteq> 0 then o1 OR WSTOPPED else o1))"

definition wait4_target :: "int \<Rightarrow> idtype \<times> nat" where
  "wait4_target pid =
     (if pid < - 1 then (P_OTHER, nat (- pid)) else if pid = - 1 then (P_ALL, 0)
      else if pid = 0 then (P_OTHER, 0) else (P_PID, nat pid))"

definition wait4_status :: "siginfo \<Rightarrow> int" where
  "wait4_status info =
     (if si_pid info \<noteq> 0
      then if si_code info = CLD_EXITED then push_bit 8 (si_status info) OR 0
           else if si_code info = CLD_KILLED then push_bit 8 0 OR si_status info
           else if si_code info = CLD_STOPPED then push_bit 8 (si_status info) OR 0x7f
           else if si_code info = CLD_CONTINUED then 0xffff
           else 0
      else 0)"

text \<open>
  One pass of \<^verbatim>\<open>syscall_wait4\<close>: \<open>Inr (Some (pid, status))\<close> when it returns, \<open>Inr None\<close> when it
  waits. For the unsupported kinds \<^verbatim>\<open>waitid_impl\<close> returns without writing the structure that
  \<^verbatim>\<open>wait4\<close> then reads, which is \<open>None\<close>.
\<close>

definition wait4_pass :: "nat \<Rightarrow> int \<Rightarrow> u32 \<Rightarrow> sched \<Rightarrow> ((int \<times> int) option res \<times> sched) option" where
  "wait4_pass cur pid options st =
     (case wait4_options options of
        Inl e \<Rightarrow> Some (Inl e, st)
      | Inr wopts \<Rightarrow>
          do { targets \<leftarrow> waitid_targets cur (fst (wait4_target pid)) (snd (wait4_target pid)) wopts st;
               case targets of
                 Inl e \<Rightarrow> Some (Inl e, st)
               | Inr None \<Rightarrow> None
               | Inr (Some ts) \<Rightarrow>
                   do { (r, st) \<leftarrow> waitid_pass ts wopts st;
                        Some (Inr (map_option (\<lambda>(pid, info). (si_pid info, wait4_status info)) r), st) } })"

section \<open>Creating threads and processes\<close>

definition CLONE_VM :: u64 where "CLONE_VM = 0x100"
definition CLONE_FS :: u64 where "CLONE_FS = 0x200"
definition CLONE_FILES :: u64 where "CLONE_FILES = 0x400"
definition CLONE_SIGHAND :: u64 where "CLONE_SIGHAND = 0x800"
definition CLONE_VFORK :: u64 where "CLONE_VFORK = 0x4000"
definition CLONE_THREAD :: u64 where "CLONE_THREAD = 0x10000"
definition CLONE_SYSVSEM :: u64 where "CLONE_SYSVSEM = 0x40000"
definition CLONE_SETTLS :: u64 where "CLONE_SETTLS = 0x80000"
definition CLONE_PARENT_SETTID :: u64 where "CLONE_PARENT_SETTID = 0x100000"
definition CLONE_CHILD_CLEARTID :: u64 where "CLONE_CHILD_CLEARTID = 0x200000"
definition CLONE_CHILD_SETTID :: u64 where "CLONE_CHILD_SETTID = 0x1000000"
definition CLONE_CLEAR_SIGHAND :: u64 where "CLONE_CLEAR_SIGHAND = 0x100000000"

definition thread_clone_flags :: u64 where
  "thread_clone_flags = CLONE_VM OR CLONE_FS OR CLONE_FILES OR CLONE_SIGHAND OR CLONE_THREAD OR CLONE_SYSVSEM"

definition supported_generic_clone_flags :: u64 where
  "supported_generic_clone_flags =
     CLONE_CHILD_CLEARTID OR CLONE_CHILD_SETTID OR CLONE_PARENT_SETTID OR CLONE_SETTLS OR CLONE_CLEAR_SIGHAND"

text \<open>The flag handling at the start of \<^verbatim>\<open>clone_impl\<close>: whether a thread is spawned, and the rest.\<close>

definition clone_flags :: "u64 \<Rightarrow> (bool \<times> u64) res" where
  "clone_flags fl0 =
     (if fl0 AND CLONE_SIGHAND \<noteq> 0 \<and> fl0 AND CLONE_CLEAR_SIGHAND \<noteq> 0 then Inl EINVAL
      else let fl1 = (if fl0 AND CLONE_VM \<noteq> 0 \<and> fl0 AND CLONE_VFORK \<noteq> 0
                      then fl0 AND NOT (CLONE_VM OR CLONE_VFORK) else fl0);
               is_spawning_thread = (fl1 AND thread_clone_flags \<noteq> 0);
               fl2 = (if is_spawning_thread then fl1 AND NOT thread_clone_flags else fl1)
           in if fl2 AND NOT supported_generic_clone_flags \<noteq> 0 then Inl EINVAL
              else Inr (is_spawning_thread, fl2))"

text \<open>The constructors of \<^verbatim>\<open>Thread\<close> and \<^verbatim>\<open>Process\<close>.\<close>

definition thread_new :: "nat \<Rightarrow> nat \<Rightarrow> sched \<Rightarrow> sched option" where
  "thread_new p t st =
     do { st \<leftarrow> upd_proc p (\<lambda>pr. pr\<lparr>thread_list := thread_list pr @ [t],
                                   num_living_threads := num_living_threads pr + 1\<rparr>) st;
          if t \<ge> thread_table_size st then None
          else Some (st\<lparr>thread_table := (thread_table st)(t \<mapsto>
                 \<lparr>process = p, state = BLOCKED, listeners = [], which_event = 0, signal_mask = 0,
                  pending_signals = 0, enqueued_by_signal = - 1, entering_signal = False,
                  exiting_signal = False, set_child_tid = 0, clear_child_tid = 0\<rparr>)\<rparr>) }"

definition proc_new :: proc where
  "proc_new = \<lparr>thread_list = [], num_living_threads = 0, parent = 0, children_list = [], wait_status = 0,
     wait_code = 0, is_zombie = False, has_performed_execve = False,
     signal_actions = (\<lambda>_. \<lparr>handler = 0, sa_flags = 0, restorer = 0, sa_mask = 0\<rparr>), group = None\<rparr>"

definition clone_actions :: "u64 \<Rightarrow> (int \<Rightarrow> sigaction) \<Rightarrow> int \<Rightarrow> sigaction" where
  "clone_actions fl acts =
     (if fl AND CLONE_CLEAR_SIGHAND \<noteq> 0
      then (\<lambda>i. if handler (acts i) \<noteq> SIG_DFL \<and> handler (acts i) \<noteq> SIG_IGN
                then (acts i)\<lparr>handler := SIG_DFL\<rparr> else acts i)
      else acts)"

text \<open>
  \<^verbatim>\<open>clone_impl\<close> called by thread \<open>old\<close>, with the user addresses of its arguments. The effects list
  records the store of the new tid for \<^verbatim>\<open>CLONE_PARENT_SETTID\<close>.
\<close>

definition clone_impl ::
  "nat \<Rightarrow> u64 \<Rightarrow> uptr \<Rightarrow> uptr \<Rightarrow> sched \<Rightarrow> (nat res \<times> sched) option" where
  "clone_impl old fl0 child_tid parent_tid st =
     (case clone_flags fl0 of
        Inl e \<Rightarrow> Some (Inl e, st)
      | Inr (is_spawning_thread, fl) \<Rightarrow>
          do { old_thread \<leftarrow> thread_table st old;
               old_process \<leftarrow> processes st (process old_thread);
               let (tid, st) = allocate_tid st;
               st \<leftarrow> (if is_spawning_thread then thread_new (process old_thread) tid st
                      else do {
                        let st = st\<lparr>processes := (processes st)(tid \<mapsto>
                                   proc_new\<lparr>signal_actions := clone_actions fl (signal_actions old_process)\<rparr>)\<rparr>;
                        st \<leftarrow> thread_new tid tid st;
                        set_parent tid (process old_thread) st });
               st \<leftarrow> upd_thread tid (\<lambda>th. th\<lparr>signal_mask := signal_mask old_thread,
                        clear_child_tid := (if fl AND CLONE_CHILD_CLEARTID \<noteq> 0 then child_tid else 0),
                        set_child_tid := (if fl AND CLONE_CHILD_SETTID \<noteq> 0 then child_tid else 0),
                        state := READY\<rparr>) st;
               let st = (if fl AND CLONE_PARENT_SETTID \<noteq> 0
                         then st\<lparr>effects := effects st @ [StoreTid parent_tid tid]\<rparr> else st);
               if tid \<in> set (queue st) then None
               else Some (Inr tid, st\<lparr>queue := queue st @ [tid]\<rparr>) })"

section \<open>Choosing the next thread\<close>

fun next_after :: "nat \<Rightarrow> nat list \<Rightarrow> nat option" where
  "next_after c [] = None"
| "next_after c (x # xs) = (if x = c then (case xs of [] \<Rightarrow> None | y # _ \<Rightarrow> Some y) else next_after c xs)"

definition pick_next :: "nat option \<Rightarrow> sched \<Rightarrow> nat" where
  "pick_next current st =
     (case (case current of None \<Rightarrow> None | Some c \<Rightarrow> next_after c (queue st)) of
        Some t \<Rightarrow> t
      | None \<Rightarrow> (case queue st of t # _ \<Rightarrow> t | [] \<Rightarrow> idle_thread st))"

text \<open>
  The bookkeeping of \<^verbatim>\<open>scheduler_isr\<close> around the choice, without a signal to deliver: the old thread
  becomes ready again, a continued one leaves the stopped state, the chosen one runs. A thread that
  is still stopped after that is passed over (\<open>None\<close> of the inner option: the code retries).
\<close>

definition scheduler_switch :: "nat option \<Rightarrow> sched \<Rightarrow> (nat option \<times> sched) option" where
  "scheduler_switch current st =
     do { st \<leftarrow> (case current of
                   None \<Rightarrow> Some st
                 | Some c \<Rightarrow> upd_thread c (\<lambda>th. if state th = RUNNING then th\<lparr>state := READY\<rparr> else th) st);
          let t = pick_next current st;
          th \<leftarrow> thread_table st t;
          if state th = BLOCKED \<or> state th = ZOMBIE then None
          else do {
            st \<leftarrow> (if enqueued_by_signal th = SIGCONT \<and> state th = STOPPED then do {
                     st \<leftarrow> upd_thread t (\<lambda>th. th\<lparr>state := READY\<rparr>) st;
                     st \<leftarrow> upd_proc (process th) (\<lambda>p. p\<lparr>wait_status := SIGCONT, wait_code := CLD_CONTINUED\<rparr>) st;
                     trigger_all (ContinuedEvent (process th)) st }
                   else Some st);
            th \<leftarrow> thread_table st t;
            let st = (if set_child_tid th \<noteq> 0 then st\<lparr>effects := effects st @ [StoreTid (set_child_tid th) t]\<rparr> else st);
            st \<leftarrow> upd_thread t (\<lambda>th. th\<lparr>set_child_tid := 0\<rparr>) st;
            if state th = STOPPED then Some (None, st)
            else do { st \<leftarrow> upd_thread t (\<lambda>th. th\<lparr>state := RUNNING\<rparr>) st; Some (Some t, st) } } }"

section \<open>Round robin\<close>

lemma next_after_nth:
  assumes "distinct xs" "i < length xs"
  shows "next_after (xs ! i) xs = (if i + 1 < length xs then Some (xs ! (i + 1)) else None)"
  using assms
proof (induction xs arbitrary: i)
  case (Cons x xs)
  show ?case
  proof (cases i)
    case 0
    then show ?thesis by (cases xs) auto
  next
    case (Suc j)
    then have "xs ! j \<noteq> x" using Cons.prems by (auto simp: in_set_conv_nth)
    then show ?thesis using Cons Suc by auto
  qed
qed simp

lemma pick_next_nth:
  assumes "distinct (queue st)" "i < length (queue st)"
  shows "pick_next (Some (queue st ! i)) st = queue st ! (Suc i mod length (queue st))"
proof (cases "i + 1 < length (queue st)")
  case True
  then show ?thesis using next_after_nth[OF assms] by (simp add: pick_next_def)
next
  case False
  then have "Suc i = length (queue st)" using assms(2) by simp
  moreover have "next_after (queue st ! i) (queue st) = None" using next_after_nth[OF assms] False by simp
  ultimately show ?thesis using assms(2) by (cases "queue st") (auto simp: pick_next_def)
qed

text \<open>
  C38: Scheduling is round robin: as long as the run queue does not change, the thread chosen \<open>k\<close>
  switches after the \<open>i\<close>-th thread of the queue is the \<open>(i + k)\<close>-th, around the queue; so every
  queued thread is chosen within as many switches as the queue is long, and an empty queue gives
  the idle thread.
\<close>

theorem scheduling_is_round_robin:
  assumes "distinct (queue st)" "i < length (queue st)"
  shows "((\<lambda>c. pick_next (Some c) st) ^^ k) (queue st ! i) = queue st ! ((i + k) mod length (queue st)) \<and>
         (\<forall>t\<in>set (queue st). \<exists>k. 0 < k \<and> k \<le> length (queue st) \<and>
            ((\<lambda>c. pick_next (Some c) st) ^^ k) (queue st ! i) = t) \<and>
         pick_next c (st\<lparr>queue := []\<rparr>) = idle_thread st"
proof -
  let ?n = "length (queue st)" and ?f = "\<lambda>c. pick_next (Some c) st"
  have pos: "0 < ?n" using assms(2) by (rule le_less_trans[OF le0])
  have it: "(?f ^^ k) (queue st ! i) = queue st ! ((i + k) mod ?n)" for k
  proof (induction k)
    case (Suc k)
    have "(i + k) mod ?n < ?n" using pos by simp
    then show ?case using Suc pick_next_nth[OF assms(1)] by (simp add: mod_Suc_eq)
  qed (use assms in simp)
  have "\<exists>k. 0 < k \<and> k \<le> ?n \<and> (?f ^^ k) (queue st ! i) = t" if tq: "t \<in> set (queue st)" for t
  proof -
    obtain j where j: "j < ?n" "t = queue st ! j" using tq by (auto simp: in_set_conv_nth)
    define k where "k = (if i < j then j - i else ?n + j - i)"
    have "(i + k) mod ?n = j" using j(1) assms(2) by (auto simp: k_def)
    then show ?thesis using it[of k] j assms(2) by (intro exI[of _ k]) (auto simp: k_def)
  qed
  then show ?thesis using it by (auto simp: pick_next_def split: option.splits)
qed

theorem scheduling_is_round_robin_witness:
  "distinct (queue (example_sched\<lparr>queue := [1, 2, 3]\<rparr>)) \<and>
   ((\<lambda>c. pick_next (Some c) (example_sched\<lparr>queue := [1, 2, 3]\<rparr>)) ^^ 2) 3 = 2"
  using scheduling_is_round_robin[of "example_sched\<lparr>queue := [1, 2, 3]\<rparr>" 2 2 None] by simp

section \<open>Wait status\<close>

lemma wait4_status_exit: "0 \<le> s \<Longrightarrow> si_pid i \<noteq> 0 \<Longrightarrow> si_code i = CLD_EXITED \<Longrightarrow> si_status i = s \<Longrightarrow>
    wait4_status i AND 0x7f = 0 \<and> drop_bit 8 (wait4_status i) AND 0xff = s mod 256"
proof -
  assume a: "0 \<le> s" "si_pid i \<noteq> 0" "si_code i = CLD_EXITED" "si_status i = s"
  have m: "(0x7f :: int) = mask 7" "(0xff :: int) = mask 8" by (simp_all add: mask_eq_exp_minus_1)
  have "push_bit 8 s AND mask 7 = 0" by (rule bit_eqI) (auto simp: bit_simps)
  moreover have "drop_bit 8 (push_bit 8 s) = s" by (rule bit_eqI) (auto simp: bit_simps)
  ultimately show ?thesis using a unfolding m by (simp add: wait4_status_def take_bit_eq_mask[symmetric] take_bit_eq_mod)
qed

lemma wait4_status_other:
  assumes "si_pid i \<noteq> 0" "0 < si_status i" "si_status i < 0x7f"
  shows "si_code i = CLD_KILLED \<Longrightarrow> wait4_status i AND 0x7f = si_status i \<and> wait4_status i AND 0xff \<noteq> 0x7f"
    and "si_code i = CLD_STOPPED \<Longrightarrow> wait4_status i AND 0xff = 0x7f \<and> drop_bit 8 (wait4_status i) AND 0xff = si_status i"
proof -
  let ?s = "si_status i"
  have m: "(0x7f :: int) = mask 7" "(0xff :: int) = mask 8" by (simp_all add: mask_eq_exp_minus_1)
  have t: "take_bit 7 ?s = ?s" "take_bit 8 ?s = ?s" using assms by (simp_all add: take_bit_eq_mod)
  show "si_code i = CLD_KILLED \<Longrightarrow> wait4_status i AND 0x7f = ?s \<and> wait4_status i AND 0xff \<noteq> 0x7f"
    using assms t by (simp add: wait4_status_def cld_codes m flip: take_bit_eq_mask)
  have "(push_bit 8 ?s OR mask 7) AND mask 8 = mask 7" by (rule bit_eqI) (auto simp: bit_simps)
  moreover have "drop_bit 8 (push_bit 8 ?s OR mask 7) = ?s" by (rule bit_eqI) (auto simp: bit_simps)
  ultimately show "si_code i = CLD_STOPPED \<Longrightarrow> wait4_status i AND 0xff = 0x7f \<and> drop_bit 8 (wait4_status i) AND 0xff = ?s"
    using assms t by (simp add: wait4_status_def cld_codes m flip: take_bit_eq_mask)
qed

section \<open>The process tree\<close>

text \<open>
  What the links between processes, threads and groups satisfy: a process has its main thread at
  the head of its threads, every thread of it is in the table, its parent and children exist, and
  every process but init is listed in its group.
\<close>

definition entry_wf :: "sched \<Rightarrow> nat \<Rightarrow> proc \<Rightarrow> bool" where
  "entry_wf st p pr \<longleftrightarrow>
     (\<exists>ts. thread_list pr = p # ts) \<and>
     (\<forall>t\<in>set (thread_list pr). map_option process (thread_table st t) = Some p) \<and>
     processes st (parent pr) \<noteq> None \<and>
     (\<forall>c\<in>set (children_list pr). processes st c \<noteq> None \<and> c \<noteq> init_process st) \<and>
     (\<exists>g gr. group pr = Some g \<and> groups st g = Some gr \<and> (p \<noteq> init_process st \<longrightarrow> p \<in> set (process_list gr)))"

definition proc_wf :: "sched \<Rightarrow> bool" where
  "proc_wf st \<longleftrightarrow> (\<forall>p pr. processes st p = Some pr \<longrightarrow> entry_wf st p pr) \<and> processes st (init_process st) \<noteq> None"

lemma proc_wfD: "proc_wf st \<Longrightarrow> processes st p = Some pr \<Longrightarrow> entry_wf st p pr"
  by (simp add: proc_wf_def)

text \<open>Updates that leave the tree alone.\<close>

definition same_tree :: "sched \<Rightarrow> sched \<Rightarrow> bool" where
  "same_tree st st' \<longleftrightarrow> processes st' = processes st \<and> groups st' = groups st \<and> init_process st' = init_process st \<and>
     (\<forall>t. map_option process (thread_table st' t) = map_option process (thread_table st t))"

lemma same_tree_trans: "same_tree a b \<Longrightarrow> same_tree b c \<Longrightarrow> same_tree a c"
  by (simp add: same_tree_def)

lemma proc_wf_same:
  assumes "same_tree st st'" "proc_wf st"
  shows "proc_wf st'"
proof -
  have "entry_wf st' p pr = entry_wf st p pr" for p pr
    using assms(1) by (simp add: entry_wf_def same_tree_def)
  then show ?thesis using assms by (simp add: proc_wf_def same_tree_def)
qed

lemma same_tree_upd_thread:
  assumes "upd_thread t f st = Some st'" "\<And>th. process (f th) = process th"
  shows "same_tree st st'"
  using assms by (auto simp: upd_thread_def same_tree_def split: bind_splits)

lemma same_tree_enqueue: "enqueue_thread t s st = Some st' \<Longrightarrow> same_tree st st'"
  by (auto simp: enqueue_thread_def upd_thread_def same_tree_def split: bind_splits if_splits)

lemma same_tree_wake: "wake_listeners ls m n st = Some (k, st') \<Longrightarrow> same_tree st st'"
proof (induction ls m n st arbitrary: k st' rule: wake_listeners.induct)
  case (1 m n st)
  then show ?case by (simp add: same_tree_def)
next
  case (2 t which rest m n st)
  from "2.prems" obtain st1 st2 where
    st1: "upd_thread t (\<lambda>th. th\<lparr>which_event := which\<rparr>) st = Some st1" "enqueue_thread t (- 1) st1 = Some st2"
    and rest: "(if n + 1 \<ge> m then Some (n + 1, st2) else wake_listeners rest m (n + 1) st2) = Some (k, st')"
    by (auto split: bind_splits)
  have "same_tree st st2" using same_tree_trans[OF same_tree_upd_thread[OF st1(1)] same_tree_enqueue[OF st1(2)]] by simp
  then show ?case using rest "2.IH"[OF st1] same_tree_trans by (cases "n + 1 \<ge> m") auto
qed

lemma same_tree_trigger_all: "trigger_all e st = Some st' \<Longrightarrow> same_tree st st'"
  by (auto simp: trigger_all_def trigger_def upd_event_def split: if_splits dest: same_tree_wake)
    (simp add: same_tree_def)

lemma same_tree_send:
  assumes "send_signal t s st = Some st'"
  shows "same_tree st st'"
proof -
  obtain st1 st2 where
    st1: "upd_thread t (\<lambda>th. th\<lparr>pending_signals := pending_signals th OR get_signal_bit s\<rparr>) st = Some st1"
    and st2: "enqueue_thread t s st1 = Some st2" "trigger_all (SignalEvent t) st2 = Some st'"
    using assms by (auto simp: send_signal_def split: bind_splits)
  show ?thesis
    using same_tree_trans[OF same_tree_upd_thread[OF st1] same_tree_trans[OF same_tree_enqueue[OF st2(1)]
        same_tree_trigger_all[OF st2(2)]]] by simp
qed

lemma same_tree_process_send: "process_send_signal p s st = Some st' \<Longrightarrow> same_tree st st'"
  by (auto simp: process_send_signal_def split: bind_splits dest: same_tree_send)

section \<open>Signals reach a well-formed process\<close>

text \<open>Threads stay in the table, and a dead one stays dead.\<close>

definition keeps_threads :: "sched \<Rightarrow> sched \<Rightarrow> bool" where
  "keeps_threads st st' \<longleftrightarrow>
     (\<forall>t th. thread_table st t = Some th \<longrightarrow>
        (\<exists>th'. thread_table st' t = Some th' \<and> (state th = ZOMBIE \<longrightarrow> state th' = ZOMBIE)))"

lemma keeps_refl [simp]: "keeps_threads st st"
  by (simp add: keeps_threads_def)

lemma keeps_trans: "keeps_threads a b \<Longrightarrow> keeps_threads b c \<Longrightarrow> keeps_threads a c"
  unfolding keeps_threads_def by meson

lemma keeps_zombie:
  assumes "keeps_threads st st'" "map_option state (thread_table st t) = Some ZOMBIE"
  shows "map_option state (thread_table st' t) = Some ZOMBIE"
proof -
  obtain th where "thread_table st t = Some th" "state th = ZOMBIE" using assms(2) by auto
  then obtain th' where "thread_table st' t = Some th'" "state th' = ZOMBIE"
    using assms(1) unfolding keeps_threads_def by blast
  then show ?thesis by simp
qed

lemma keeps_upd_thread:
  "upd_thread t f st = Some st' \<Longrightarrow> (\<And>th. state (f th) = state th) \<Longrightarrow> keeps_threads st st'"
  by (auto simp: upd_thread_def keeps_threads_def split: bind_splits)

lemma keeps_enqueue: "enqueue_thread t s st = Some st' \<Longrightarrow> keeps_threads st st'"
  by (auto simp: enqueue_thread_def upd_thread_def keeps_threads_def split: bind_splits if_splits)

lemma enqueue_total:
  assumes "queue_ok st" "thread_table st t \<noteq> None" "s \<noteq> SIGCONT"
  shows "\<exists>st'. enqueue_thread t s st = Some st'"
  using assms enqueue_thread_total[OF assms(1)] by auto

lemma wake_total:
  assumes "queue_ok st" "\<forall>(t, w)\<in>set ls. thread_table st t \<noteq> None"
  shows "\<exists>k st'. wake_listeners ls m n st = Some (k, st') \<and> keeps_threads st st'"
  using assms
proof (induction ls arbitrary: n st)
  case (Cons l ls)
  obtain t w where l: "l = (t, w)" by fastforce
  then obtain st1 where st1: "upd_thread t (\<lambda>th. th\<lparr>which_event := w\<rparr>) st = Some st1"
    using Cons.prems(2) by (auto simp: upd_thread_def)
  have k1: "keeps_threads st st1" by (rule keeps_upd_thread[OF st1]) simp
  have ok1: "queue_ok st1" using queue_ok_same[OF same_queue_upd_thread[OF st1] Cons.prems(1)] by simp
  have "thread_table st1 t \<noteq> None" using st1 by (auto simp: upd_thread_def split: bind_splits)
  then obtain st2 where st2: "enqueue_thread t (- 1) st1 = Some st2"
    using enqueue_total[OF ok1, of t "- 1"] by (auto simp: SIGCONT_def)
  have ok2: "queue_ok st2" by (rule enqueue_thread_queue_ok[OF ok1 st2])
  have k2: "keeps_threads st st2" using keeps_trans[OF k1 keeps_enqueue[OF st2]] .
  then have "\<forall>(t, w)\<in>set ls. thread_table st2 t \<noteq> None"
    using Cons.prems(2) unfolding keeps_threads_def by fastforce
  from Cons.IH[OF ok2 this] obtain k st' where "wake_listeners ls m (n + 1) st2 = Some (k, st')" "keeps_threads st2 st'"
    by blast
  then show ?case using l st1 st2 k2 keeps_trans by (cases "n + 1 \<ge> m") auto
qed simp

lemma trigger_all_total:
  assumes "queue_ok st" "events_ok st"
  shows "\<exists>st'. trigger_all e st = Some st' \<and> queue_ok st' \<and> events_ok st' \<and> keeps_threads st st' \<and> same_tree st st'"
proof -
  have "thread_table st t \<noteq> None" if l: "(t, w) \<in> set (listener_list (events st e))" for t w
  proof -
    have "(e, w) \<in> set (listens st t)" using assms(2) l by (simp add: events_ok_def)
    then show ?thesis by (cases "thread_table st t") (auto simp: listens_def)
  qed
  then have "\<forall>(t, w)\<in>set (listener_list (events st e)). thread_table st t \<noteq> None" by blast
  from wake_total[OF assms(1) this, where m = "0x7fffffff" and n = 0]
  obtain k st' where t: "trigger e False 0x7fffffff st = Some (k, st')" "keeps_threads st st'"
    by (cases "num_listeners (events st e) = 0") (auto simp: trigger_def upd_event_def keeps_threads_def)
  then have a: "trigger_all e st = Some st'" by (simp add: trigger_all_def)
  show ?thesis
    using a t trigger_queue_ok[OF assms(1) t(1)] trigger_events_ok[OF assms(2) t(1)] same_tree_trigger_all[OF a] by blast
qed

lemma send_signal_total:
  assumes "queue_ok st" "events_ok st" "thread_table st t \<noteq> None" "s \<noteq> SIGCONT"
  shows "\<exists>st'. send_signal t s st = Some st' \<and> queue_ok st' \<and> events_ok st' \<and> keeps_threads st st' \<and> same_tree st st'"
proof -
  obtain st1 where st1: "upd_thread t (\<lambda>th. th\<lparr>pending_signals := pending_signals th OR get_signal_bit s\<rparr>) st = Some st1"
    using assms(3) by (auto simp: upd_thread_def)
  have 1: "queue_ok st1" "events_ok st1" "keeps_threads st st1"
    using queue_ok_same[OF same_queue_upd_thread[OF st1] assms(1)] keeps_upd_thread[OF st1]
      events_ok_same[OF assms(2), of st1] listens_upd_thread[OF st1] by simp_all
  have "thread_table st1 t \<noteq> None" using st1 by (auto simp: upd_thread_def split: bind_splits)
  then obtain st2 where st2: "enqueue_thread t s st1 = Some st2" using enqueue_total[OF 1(1) _ assms(4)] by blast
  have 2: "queue_ok st2" "events_ok st2" "keeps_threads st1 st2"
    using enqueue_thread_queue_ok[OF 1(1) st2] keeps_enqueue[OF st2]
      events_ok_same[OF 1(2), of st2] enqueue_thread_listens[OF st2] by simp_all
  from trigger_all_total[OF 2(1,2), of "SignalEvent t"] obtain st' where
    st': "trigger_all (SignalEvent t) st2 = Some st'" "queue_ok st'" "events_ok st'" "keeps_threads st2 st'" by blast
  have s: "send_signal t s st = Some st'" using st1 st2 st'(1) by (simp add: send_signal_def)
  show ?thesis using s st' same_tree_send[OF s] keeps_trans[OF 1(3) keeps_trans[OF 2(3) st'(4)]] by blast
qed

lemma process_send_total:
  assumes "proc_wf st" "queue_ok st" "events_ok st" "processes st p \<noteq> None" "s \<noteq> SIGCONT"
  shows "\<exists>st'. process_send_signal p s st = Some st' \<and> queue_ok st' \<and> events_ok st' \<and> keeps_threads st st' \<and> same_tree st st'"
proof -
  obtain pr where pr: "processes st p = Some pr" using assms(4) by blast
  then obtain ts where "thread_list pr = p # ts" "thread_table st p \<noteq> None"
    using proc_wfD[OF assms(1) pr] by (auto simp: entry_wf_def)
  then show ?thesis using send_signal_total[OF assms(2,3) _ assms(5), of p] pr
    by (simp add: process_send_signal_def get_main_thread_def)
qed

section \<open>Reparenting\<close>

definition proc_core :: "proc \<Rightarrow> nat list \<times> int \<times> int \<times> int \<times> bool" where
  "proc_core pr = (thread_list pr, num_living_threads pr, wait_status pr, wait_code pr, is_zombie pr)"

text \<open>What \<^verbatim>\<open>set_parent\<close> does to the process \<open>q\<close>, for a new parent \<open>n\<close> in group \<open>g\<close>.\<close>

definition adopted :: "nat \<Rightarrow> nat \<Rightarrow> nat \<Rightarrow> nat \<Rightarrow> proc \<Rightarrow> proc" where
  "adopted c n g q pr =
     pr\<lparr>parent := (if q = c then n else parent pr), group := (if q = c then Some g else group pr),
        children_list := removeAll c (children_list pr) @ (if q = n then [c] else [])\<rparr>"

lemma set_parent_eq:
  assumes c: "processes st c = Some cp" and np: "processes st n = Some npr" "group npr = Some g" "groups st g = Some gr"
    and o: "group cp = Some o'" "groups st o' = Some ogr" "c \<in> set (process_list ogr)"
  shows "\<exists>gr'. ((groups st)(o' \<mapsto> ogr\<lparr>process_list := remove1 c (process_list ogr)\<rparr>)) g = Some gr' \<and>
           set_parent c n st = Some (st\<lparr>processes := (\<lambda>q. map_option (adopted c n g q) (processes st q)),
             groups := (groups st)(o' \<mapsto> ogr\<lparr>process_list := remove1 c (process_list ogr)\<rparr>,
                                   g \<mapsto> gr'\<lparr>process_list := process_list gr' @ [c]\<rparr>)\<rparr>)"
proof -
  obtain gr' where gr': "((groups st)(o' \<mapsto> ogr\<lparr>process_list := remove1 c (process_list ogr)\<rparr>)) g = Some gr'"
    using np(3) by (cases "g = o'") auto
  have "set_parent c n st = Some (st\<lparr>processes := (\<lambda>q. map_option (adopted c n g q) (processes st q)),
      groups := (groups st)(o' \<mapsto> ogr\<lparr>process_list := remove1 c (process_list ogr)\<rparr>,
                            g \<mapsto> gr'\<lparr>process_list := process_list gr' @ [c]\<rparr>)\<rparr>)"
  proof (cases "c = n")
    case True
    then show ?thesis using assms gr'
      by (auto simp: set_parent_def upd_proc_def add_process_def Let_def adopted_def fun_eq_iff
          intro!: sched.equality option.map_cong0 split: option.splits)
  next
    case False
    then show ?thesis using assms gr'
      by (auto simp: set_parent_def upd_proc_def add_process_def Let_def adopted_def fun_eq_iff
          intro!: sched.equality option.map_cong0 split: option.splits)
  qed
  then show ?thesis using gr' by blast
qed

lemma set_parent_total:
  assumes wf: "proc_wf st" and c: "processes st c \<noteq> None" "c \<noteq> init_process st" and n: "processes st n \<noteq> None"
  shows "\<exists>st' g. set_parent c n st = Some st' \<and> proc_wf st' \<and> thread_table st' = thread_table st \<and>
           events st' = events st \<and> init_process st' = init_process st \<and> same_queue st st' \<and>
           processes st' = (\<lambda>q. map_option (adopted c n g q) (processes st q))"
proof -
  obtain cp npr where cp: "processes st c = Some cp" and npr: "processes st n = Some npr" using c n by blast
  obtain g gr where g: "group npr = Some g" "groups st g = Some gr"
    using proc_wfD[OF wf npr] by (auto simp: entry_wf_def)
  obtain o' ogr where o: "group cp = Some o'" "groups st o' = Some ogr" "c \<in> set (process_list ogr)"
    using proc_wfD[OF wf cp] c(2) by (auto simp: entry_wf_def)
  from set_parent_eq[OF cp npr g o] obtain gr' where
    gr': "((groups st)(o' \<mapsto> ogr\<lparr>process_list := remove1 c (process_list ogr)\<rparr>)) g = Some gr'" and
    eq: "set_parent c n st = Some (st\<lparr>processes := (\<lambda>q. map_option (adopted c n g q) (processes st q)),
      groups := (groups st)(o' \<mapsto> ogr\<lparr>process_list := remove1 c (process_list ogr)\<rparr>,
                            g \<mapsto> gr'\<lparr>process_list := process_list gr' @ [c]\<rparr>)\<rparr>)" by blast
  define st' where "st' = st\<lparr>processes := (\<lambda>q. map_option (adopted c n g q) (processes st q)),
      groups := (groups st)(o' \<mapsto> ogr\<lparr>process_list := remove1 c (process_list ogr)\<rparr>,
                            g \<mapsto> gr'\<lparr>process_list := process_list gr' @ [c]\<rparr>)\<rparr>"
  have member: "\<exists>gx. groups st' x = Some gx \<and> (q \<in> set (process_list y) \<longrightarrow> q \<noteq> c \<longrightarrow> q \<in> set (process_list gx))"
    if "groups st x = Some y" for x y q
    using that o gr' by (cases "x = g"; cases "x = o'") (auto simp: st'_def in_set_remove1)
  have cg: "\<exists>gx. groups st' g = Some gx \<and> c \<in> set (process_list gx)" by (simp add: st'_def)
  have entry: "entry_wf st' q (adopted c n g q pr)" if pr: "processes st q = Some pr" for q pr
  proof -
    note w = proc_wfD[OF wf pr, unfolded entry_wf_def]
    have grp: "\<exists>x gx. group (adopted c n g q pr) = Some x \<and> groups st' x = Some gx \<and>
        (q \<noteq> init_process st' \<longrightarrow> q \<in> set (process_list gx))"
    proof (cases "q = c")
      case True
      then show ?thesis using cg by (auto simp: adopted_def)
    next
      case False
      obtain x y where "group pr = Some x" "groups st x = Some y" "q \<noteq> init_process st \<longrightarrow> q \<in> set (process_list y)"
        using w by blast
      then show ?thesis using member[of x y q] False by (auto simp: adopted_def st'_def)
    qed
    have "(\<exists>ts. thread_list (adopted c n g q pr) = q # ts)"
      "\<forall>t\<in>set (thread_list (adopted c n g q pr)). map_option process (thread_table st' t) = Some q"
      "processes st' (parent (adopted c n g q pr)) \<noteq> None"
      "\<forall>x\<in>set (children_list (adopted c n g q pr)). processes st' x \<noteq> None \<and> x \<noteq> init_process st'"
      using w c npr by (auto simp: adopted_def st'_def)
    then show ?thesis using grp unfolding entry_wf_def by blast
  qed
  have "proc_wf st'" unfolding proc_wf_def
  proof (intro conjI allI impI)
    show "entry_wf st' q pr'" if "processes st' q = Some pr'" for q pr'
      using that entry[of q] by (auto simp: st'_def)
    show "processes st' (init_process st') \<noteq> None" using wf by (simp add: st'_def proc_wf_def)
  qed
  then show ?thesis using eq[folded st'_def] set_parent_same_queue[OF eq] by (auto simp: st'_def)
qed

lemma reparent_all_total:
  assumes "proc_wf st" "\<forall>c\<in>set cs. processes st c \<noteq> None \<and> c \<noteq> init_process st" "processes st n \<noteq> None"
  shows "\<exists>st'. reparent_all cs n st = Some st' \<and> proc_wf st' \<and> thread_table st' = thread_table st \<and>
           events st' = events st \<and> init_process st' = init_process st \<and> same_queue st st' \<and>
           (\<forall>q. map_option proc_core (processes st' q) = map_option proc_core (processes st q)) \<and>
           (\<forall>q. q \<notin> set cs \<longrightarrow> map_option parent (processes st' q) = map_option parent (processes st q)) \<and>
           (\<forall>c\<in>set cs. map_option parent (processes st' c) = Some n)"
  using assms
proof (induction cs arbitrary: st)
  case (Cons c cs)
  obtain st1 g where st1: "set_parent c n st = Some st1" "proc_wf st1" "thread_table st1 = thread_table st"
    "events st1 = events st" "init_process st1 = init_process st" "same_queue st st1"
    "processes st1 = (\<lambda>q. map_option (adopted c n g q) (processes st q))"
    using set_parent_total[OF Cons.prems(1), of c n] Cons.prems(2,3) by auto
  have core: "map_option proc_core (processes st1 q) = map_option proc_core (processes st q)" for q
    unfolding st1(7) by (cases "processes st q") (simp_all add: adopted_def proc_core_def)
  have par: "map_option parent (processes st1 q) =
      (if q = c then map_option (\<lambda>_. n) (processes st q) else map_option parent (processes st q))" for q
    unfolding st1(7) by (cases "processes st q") (auto simp: adopted_def)
  have "\<forall>c\<in>set cs. processes st1 c \<noteq> None \<and> c \<noteq> init_process st1" "processes st1 n \<noteq> None"
    using Cons.prems(2,3) by (auto simp: st1(5,7))
  from Cons.IH[OF st1(2) this] obtain st' where
    st': "reparent_all cs n st1 = Some st'" "proc_wf st'" "thread_table st' = thread_table st1"
    "events st' = events st1" "init_process st' = init_process st1" "same_queue st1 st'"
    "\<forall>q. map_option proc_core (processes st' q) = map_option proc_core (processes st1 q)"
    "\<forall>q. q \<notin> set cs \<longrightarrow> map_option parent (processes st' q) = map_option parent (processes st1 q)"
    "\<forall>c\<in>set cs. map_option parent (processes st' c) = Some n" by blast
  have "processes st c \<noteq> None" using Cons.prems(2) by simp
  then have pc: "map_option parent (processes st' c) = Some n"
    using st'(8,9) par[of c] by (cases "c \<in> set cs") auto
  show ?case
  proof (intro exI[of _ st'] conjI allI impI ballI)
    show "reparent_all (c # cs) n st = Some st'" using st1(1) st'(1) by simp
    show "same_queue st st'" by (rule same_queue_trans[OF st1(6) st'(6)])
    show "map_option proc_core (processes st' q) = map_option proc_core (processes st q)" for q
      using st'(7) core by simp
    show "map_option parent (processes st' q) = map_option parent (processes st q)" if "q \<notin> set (c # cs)" for q
      using st'(8) par[of q] that by simp
    show "map_option parent (processes st' x) = Some n" if "x \<in> set (c # cs)" for x
      using st'(9) pc that by auto
  qed (use st1 st' in simp_all)
qed simp

section \<open>Death of a process\<close>

lemma upd_proc_wf:
  assumes "proc_wf st" "upd_proc p f st = Some st'"
    and "\<And>pr. thread_list (f pr) = thread_list pr" "\<And>pr. parent (f pr) = parent pr"
    and "\<And>pr. children_list (f pr) = children_list pr" "\<And>pr. group (f pr) = group pr"
  shows "proc_wf st'" "thread_table st' = thread_table st" "events st' = events st" "init_process st' = init_process st"
proof -
  obtain pr where pr: "processes st p = Some pr" "st' = st\<lparr>processes := (processes st)(p \<mapsto> f pr)\<rparr>"
    using assms(2) by (auto simp: upd_proc_def split: bind_splits)
  then show "thread_table st' = thread_table st" "events st' = events st" "init_process st' = init_process st" by simp_all
  have "entry_wf st' q x" if "processes st q = Some y" "x = (if q = p then f y else y)" for q x y
    using proc_wfD[OF assms(1) that(1)] that(2) pr by (auto simp: entry_wf_def assms(3-6))
  moreover have "\<exists>y. processes st q = Some y \<and> x = (if q = p then f y else y)" if "processes st' q = Some x" for q x
    using that pr by (auto split: if_splits)
  moreover have "processes st' (init_process st') \<noteq> None" using assms(1) pr by (auto simp: proc_wf_def)
  ultimately show "proc_wf st'" unfolding proc_wf_def by blast
qed

lemma listens_same: "thread_table st' = thread_table st \<Longrightarrow> listens st' t = listens st t"
  by (simp add: listens_def)

text \<open>
  \<^verbatim>\<open>Process::zombify\<close> on a process that is not init: its children are adopted by init, its parent
  gets \<^verbatim>\<open>SIGCHLD\<close>, its exit status is recorded and its threads stay as they are.
\<close>

lemma zombify_spec:
  assumes wf: "proc_wf st" and q: "queue_ok st" and e: "events_ok st" and p: "processes st p = Some pr" "p \<noteq> init_process st"
  shows "\<exists>st' pr'. zombify p sig st = Some st' \<and> proc_wf st' \<and> queue_ok st' \<and> events_ok st' \<and> keeps_threads st st' \<and>
           init_process st' = init_process st \<and>
           processes st' p = Some pr' \<and> is_zombie pr' \<and> thread_list pr' = thread_list pr \<and>
           (wait_status pr', wait_code pr') = (if sig \<noteq> - 1 then (sig, CLD_KILLED) else (wait_status pr, wait_code pr)) \<and>
           (\<forall>c\<in>set (children_list pr). map_option parent (processes st' c) = Some (init_process st)) \<and>
           (\<forall>x y. x \<noteq> p \<longrightarrow> processes st x = Some y \<longrightarrow> (\<exists>y'. processes st' x = Some y' \<and> proc_core y' = proc_core y))"
proof -
  let ?f = "mark_zombie sig"
  obtain st1 where st1: "upd_proc p ?f st = Some st1" "processes st1 = (processes st)(p \<mapsto> ?f pr)"
    using p(1) by (auto simp: upd_proc_def)
  have w1: "proc_wf st1" "thread_table st1 = thread_table st" "events st1 = events st" "init_process st1 = init_process st"
    using upd_proc_wf[OF wf st1(1)] by (simp_all add: mark_zombie_def Let_def)
  have q1: "queue_ok st1" by (rule queue_ok_same[OF same_queue_others(2)[OF st1(1)] q])
  have cl: "children_list (?f pr) = children_list pr" by (simp add: mark_zombie_def Let_def)
  have p1: "processes st1 p = Some (?f pr)" using st1(2) by simp
  have cs: "\<forall>c\<in>set (children_list pr). processes st1 c \<noteq> None \<and> c \<noteq> init_process st1"
    using proc_wfD[OF w1(1) p1] cl by (simp add: entry_wf_def)
  have i1: "processes st1 (init_process st1) \<noteq> None" using w1(1) by (simp add: proc_wf_def)
  from reparent_all_total[OF w1(1) cs i1] obtain st2 where
    st2: "reparent_all (children_list pr) (init_process st1) st1 = Some st2" "proc_wf st2" "thread_table st2 = thread_table st1"
    "events st2 = events st1" "init_process st2 = init_process st1" "same_queue st1 st2"
    "\<forall>q. map_option proc_core (processes st2 q) = map_option proc_core (processes st1 q)"
    "\<forall>c\<in>set (children_list pr). map_option parent (processes st2 c) = Some (init_process st1)" by blast
  define st3 where "st3 = st2\<lparr>effects := effects st2 @ [CloseFiles p, DeletePagemap p]\<rparr>"
  have w3: "proc_wf st3" using st2(2) by (simp add: st3_def proc_wf_def entry_wf_def)
  have q3: "queue_ok st3" unfolding st3_def by (rule queue_ok_same[OF same_queue_others(3) queue_ok_same[OF st2(6) q1]])
  have tt3: "thread_table st3 = thread_table st" using st2(3) w1(2) by (simp add: st3_def)
  have e3: "events_ok st3"
    by (rule events_ok_same[OF e]) (use listens_same[OF tt3] st2(4) w1(3) in \<open>simp_all add: st3_def\<close>)
  from trigger_all_total[OF q3 e3, of "ZombieEvent p"] obtain st4 where
    st4: "trigger_all (ZombieEvent p) st3 = Some st4" "queue_ok st4" "events_ok st4" "keeps_threads st3 st4" "same_tree st3 st4" by blast
  have w4: "proc_wf st4" by (rule proc_wf_same[OF st4(5) w3])
  have pr4: "processes st4 = processes st2" "init_process st4 = init_process st" using st4(5) st2(5) w1(4) by (simp_all add: same_tree_def st3_def)
  obtain pr' where pr': "processes st2 p = Some pr'" "proc_core pr' = proc_core (?f pr)"
    using st2(7) p1 by (metis map_option_eq_Some option.simps(9))
  have par: "processes st4 (parent pr') \<noteq> None" using proc_wfD[OF w4, of p pr'] pr' pr4 by (simp add: entry_wf_def)
  from process_send_total[OF w4 st4(2,3) par, of SIGCHLD] obtain st' where
    st': "process_send_signal (parent pr') SIGCHLD st4 = Some st'" "queue_ok st'" "events_ok st'" "keeps_threads st4 st'" "same_tree st4 st'"
    by (auto simp: signal_numbers)
  have z: "zombify p sig st = Some st'"
    using p(2) by (simp only: zombify_def if_False st1(1) bind.bind_lunit p1 cl st2(1) Let_def st3_def[symmetric]
        st4(1) pr4(1) pr'(1) st'(1))
  have "keeps_threads st st'" using st4(4) st'(4) keeps_trans[of st3 st4 st'] tt3 by (simp add: keeps_threads_def)
  moreover have ps: "processes st' = processes st2" "init_process st' = init_process st"
    using st'(5) pr4 by (simp_all add: same_tree_def)
  moreover have "\<exists>y'. processes st' x = Some y' \<and> proc_core y' = proc_core y" if "x \<noteq> p" "processes st x = Some y" for x y
    using st2(7) st1(2) that ps by (metis fun_upd_other map_option_eq_Some option.simps(9))
  ultimately show ?thesis using z st' pr' proc_wf_same[OF st'(5) w4] st2(8) w1(4)
    by (auto simp: proc_core_def mark_zombie_def Let_def split: if_splits)
qed


text \<open>The threads of a list that are not dead.\<close>

definition living :: "sched \<Rightarrow> nat list \<Rightarrow> nat" where
  "living st ts = length (filter (\<lambda>t. map_option state (thread_table st t) \<noteq> Some ZOMBIE) ts)"

lemma living_simps [simp]:
  "living st [] = 0"
  "living st (t # ts) = (if map_option state (thread_table st t) = Some ZOMBIE then 0 else 1) + living st ts"
  by (simp_all add: living_def)

lemma living_zero: "living st ts = 0 \<longleftrightarrow> (\<forall>t\<in>set ts. map_option state (thread_table st t) = Some ZOMBIE)"
  by (induction ts) auto

lemma living_cong:
  "(\<And>t. t \<in> set ts \<Longrightarrow> map_option state (thread_table st' t) = map_option state (thread_table st t)) \<Longrightarrow>
   living st' ts = living st ts"
  unfolding living_def by (rule arg_cong[where f = length]) (rule filter_cong, auto)

lemma terminate_zombies:
  "\<forall>t\<in>set ts. map_option state (thread_table st t) = Some ZOMBIE \<Longrightarrow> terminate_threads ts sig st = Some st"
  by (induction ts) (auto simp: terminate_thread_def)

text \<open>The state in which \<^verbatim>\<open>terminate_thread\<close> has taken a living thread off the queue and counted it out.\<close>

definition counted_out :: "nat \<Rightarrow> thread \<Rightarrow> proc \<Rightarrow> sched \<Rightarrow> sched" where
  "counted_out t th pr st =
     st\<lparr>queue := (if runnable th then remove1 t (queue st) else queue st),
        thread_table := (thread_table st)(t \<mapsto> th\<lparr>state := ZOMBIE\<rparr>),
        processes := (processes st)(process th \<mapsto> pr\<lparr>num_living_threads := num_living_threads pr - 1\<rparr>)\<rparr>"

lemma terminate_thread_counted:
  assumes "thread_table st t = Some th" "state th \<noteq> ZOMBIE" "runnable th \<Longrightarrow> t \<in> set (queue st)"
    and "processes st (process th) = Some pr"
  shows "terminate_thread t sig st =
    (if num_living_threads pr = 1 then zombify (process th) sig (counted_out t th pr st)
     else if clear_child_tid th \<noteq> 0
     then Some (counted_out t th pr st\<lparr>effects := effects st @ [StoreTid (clear_child_tid th) 0, FutexWake (clear_child_tid th) 1]\<rparr>)
     else Some (counted_out t th pr st))"
  using assms
  by (auto simp: terminate_thread_def thread_died_def upd_thread_def upd_proc_def counted_out_def runnable_def)

lemma counted_out_ok:
  assumes "proc_wf st" "queue_ok st" "events_ok st" "thread_table st t = Some th" "processes st (process th) = Some pr"
    and "t \<in> set (queue st) \<Longrightarrow> state th \<noteq> STOPPED"
  shows "proc_wf (counted_out t th pr st)" "queue_ok (counted_out t th pr st)" "events_ok (counted_out t th pr st)"
proof -
  let ?s = "counted_out t th pr st"
  have "entry_wf ?s q (if q = process th then pr'\<lparr>num_living_threads := num_living_threads pr' - 1\<rparr> else pr')"
    if "processes st q = Some pr'" for q pr'
    using proc_wfD[OF assms(1) that] assms(4,5) by (auto simp: entry_wf_def counted_out_def)
  moreover have "\<exists>y. processes st q = Some y \<and> x = (if q = process th then y\<lparr>num_living_threads := num_living_threads y - 1\<rparr> else y)"
    if "processes ?s q = Some x" for q x using that assms(5) by (auto simp: counted_out_def split: if_splits)
  moreover have "processes ?s (init_process ?s) \<noteq> None" using assms(1) by (simp add: counted_out_def proc_wf_def)
  ultimately show "proc_wf ?s" unfolding proc_wf_def by blast
  show "queue_ok ?s" using assms(2,4,6) unfolding queue_ok_def counted_out_def by (auto simp: runnable_def)
  show "events_ok ?s" by (rule events_ok_same[OF assms(3)]) (auto simp: counted_out_def listens_def assms(4))
qed


text \<open>What the end of a process leaves: everything consistent, its threads dead, itself a zombie.\<close>

definition process_gone :: "nat \<Rightarrow> int \<Rightarrow> proc \<Rightarrow> nat list \<Rightarrow> sched \<Rightarrow> sched \<Rightarrow> bool" where
  "process_gone p sig pr ts st st' \<longleftrightarrow>
     proc_wf st' \<and> queue_ok st' \<and> events_ok st' \<and> init_process st' = init_process st \<and>
     keeps_threads st st' \<and>
     (\<forall>t\<in>set ts. map_option state (thread_table st' t) = Some ZOMBIE \<and> t \<notin> set (queue st')) \<and>
     (\<exists>pr'. processes st' p = Some pr' \<and> is_zombie pr' \<and> thread_list pr' = thread_list pr \<and>
        (wait_status pr', wait_code pr') = (if sig \<noteq> - 1 then (sig, CLD_KILLED) else (wait_status pr, wait_code pr))) \<and>
     (\<forall>c\<in>set (children_list pr). map_option parent (processes st' c) = Some (init_process st))"

lemma zombie_not_queued: "queue_ok st \<Longrightarrow> map_option state (thread_table st t) = Some ZOMBIE \<Longrightarrow> t \<notin> set (queue st)"
  by (auto simp: queue_ok_def runnable_def)

lemma terminate_threads_spec:
  assumes "proc_wf st" "queue_ok st" "events_ok st" "p \<noteq> init_process st" "processes st p = Some pr"
    and "set ts \<subseteq> set (thread_list pr)" "distinct ts" "idle_thread st \<notin> set ts"
    and "num_living_threads pr = int (living st ts)" "0 < living st ts"
    and "\<forall>t\<in>set ts \<inter> set (queue st). map_option state (thread_table st t) \<noteq> Some STOPPED"
  shows "\<exists>st'. terminate_threads ts sig st = Some st' \<and> process_gone p sig pr ts st st'"
  using assms
proof (induction ts arbitrary: st pr)
  case (Cons t ts)
  obtain th where th: "thread_table st t = Some th" "process th = p"
    using proc_wfD[OF Cons.prems(1,5)] Cons.prems(6) by (auto simp: entry_wf_def)
  have mem: "runnable th \<Longrightarrow> t \<in> set (queue st)" using Cons.prems(2,8) th(1) by (auto simp: queue_ok_def)
  show ?case
  proof (cases "state th = ZOMBIE")
    case True
    have "\<exists>st'. terminate_threads ts sig st = Some st' \<and> process_gone p sig pr ts st st'"
      using Cons.prems th True by (intro Cons.IH) auto
    then obtain st' where st': "terminate_threads ts sig st = Some st'" "process_gone p sig pr ts st st'" by blast
    have "map_option state (thread_table st' t) = Some ZOMBIE"
      using keeps_zombie[of st st' t] st'(2) th True by (simp add: process_gone_def)
    moreover have "terminate_thread t sig st = Some st" using th True by (simp add: terminate_thread_def)
    ultimately show ?thesis using st' zombie_not_queued[of st'] by (auto simp: process_gone_def)
  next
    case alive: False
    let ?s = "counted_out t th pr st" and ?pr = "pr\<lparr>num_living_threads := num_living_threads pr - 1\<rparr>"
    have ps: "processes st (process th) = Some pr" using Cons.prems(5) th(2) by simp
    have nst: "t \<in> set (queue st) \<Longrightarrow> state th \<noteq> STOPPED" using Cons.prems(11) th(1) by auto
    note ok = counted_out_ok[OF Cons.prems(1,2,3) th(1) ps nst]
    note run = terminate_thread_counted[OF th(1) alive mem ps, of sig]
    have same: "u \<noteq> t \<Longrightarrow> thread_table ?s u = thread_table st u" for u by (simp add: counted_out_def)
    have keep: "keeps_threads st ?s" using th(1) by (auto simp: keeps_threads_def counted_out_def)
    have lv: "living ?s ts = living st ts" 
    proof (rule living_cong)
      fix u assume "u \<in> set ts"
      then have "u \<noteq> t" using Cons.prems(7) by auto
      then show "map_option state (thread_table ?s u) = map_option state (thread_table st u)" using same by simp
    qed
    have num: "num_living_threads pr = 1 + int (living st ts)" using Cons.prems(9) th alive by simp
    have ps': "processes ?s p = Some ?pr" "init_process ?s = init_process st" "idle_thread ?s = idle_thread st"
      "set (queue ?s) \<subseteq> set (queue st)"
      using th(2) set_remove1_subset[of t "queue st"] by (simp_all add: counted_out_def)
    show ?thesis
    proof (cases "living st ts = 0")
      case True
      obtain st' pr' where st': "zombify p sig ?s = Some st'" "proc_wf st'" "queue_ok st'" "events_ok st'" "keeps_threads ?s st'"
        "init_process st' = init_process ?s" "processes st' p = Some pr'" "is_zombie pr'" "thread_list pr' = thread_list ?pr"
        "(wait_status pr', wait_code pr') = (if sig \<noteq> - 1 then (sig, CLD_KILLED) else (wait_status ?pr, wait_code ?pr))"
        "\<forall>c\<in>set (children_list ?pr). map_option parent (processes st' c) = Some (init_process ?s)"
        using zombify_spec[OF ok ps'(1), of sig] Cons.prems(4) ps'(2) by blast
      have z: "map_option state (thread_table st' u) = Some ZOMBIE" if "u \<in> set (t # ts)" for u
      proof -
        have "map_option state (thread_table ?s u) = Some ZOMBIE"
          using that True lv living_zero[of ?s ts] by (auto simp: counted_out_def)
        then show ?thesis by (rule keeps_zombie[OF st'(5)])
      qed
      have "terminate_threads (t # ts) sig st = Some st'"
        using run num True st'(1) th(2) z terminate_zombies[of ts st' sig] by simp
      moreover have "keeps_threads st st'" by (rule keeps_trans[OF keep st'(5)])
      ultimately show ?thesis using st' z ps'(2) zombie_not_queued[OF st'(3)] by (auto simp: process_gone_def)
    next
      case False
      obtain s1 where s1: "terminate_thread t sig st = Some s1" "s1 = ?s \<or> (\<exists>x. s1 = ?s\<lparr>effects := x\<rparr>)"
        using run num False by (cases "clear_child_tid th = 0") auto
      have eq: "thread_table s1 = thread_table ?s" "processes s1 = processes ?s" "queue s1 = queue ?s"
        "init_process s1 = init_process ?s" "idle_thread s1 = idle_thread ?s" "groups s1 = groups ?s" "events s1 = events ?s"
        using s1(2) by auto
      have ok1: "proc_wf s1" "queue_ok s1" "events_ok s1"
        using ok eq by (simp_all add: proc_wf_def entry_wf_def queue_ok_def events_ok_def listens_def)
      have lv1: "living s1 ts = living st ts" using lv eq(1) by (simp add: living_def)
      have ns: "\<forall>u\<in>set ts \<inter> set (queue s1). map_option state (thread_table s1 u) \<noteq> Some STOPPED"
      proof
        fix u assume u: "u \<in> set ts \<inter> set (queue s1)"
        then have "u \<noteq> t" "u \<in> set (t # ts) \<inter> set (queue st)" using Cons.prems(7) ps'(4) eq(3) by auto
        then show "map_option state (thread_table s1 u) \<noteq> Some STOPPED" using bspec[OF Cons.prems(11), of u] same[of u] eq(1) by simp
      qed
      have "\<exists>st'. terminate_threads ts sig s1 = Some st' \<and> process_gone p sig ?pr ts s1 st'"
        using Cons.prems(4,6,7,8) ok1 eq ps' num False lv1 ns by (intro Cons.IH) auto
      then obtain st' where st': "terminate_threads ts sig s1 = Some st'" "process_gone p sig ?pr ts s1 st'" by blast
      have "keeps_threads s1 st'" using st'(2) by (simp add: process_gone_def)
      then have "map_option state (thread_table st' t) = Some ZOMBIE" "keeps_threads st st'"
        using eq(1) keeps_trans[OF keep, of st'] keeps_zombie[of s1 st' t] by (simp_all add: counted_out_def keeps_threads_def)
      then show ?thesis using st' s1(1) eq(4) ps'(2) zombie_not_queued[of st'] by (auto simp: process_gone_def)
    qed
  qed
qed simp


lemma terminate_process_spec:
  assumes "proc_wf st" "queue_ok st" "none_continuing st" "events_ok st"
    and "processes st p = Some pr" "p \<noteq> init_process st"
    and "distinct (thread_list pr)" "idle_thread st \<notin> set (thread_list pr)"
    and "num_living_threads pr = int (living st (thread_list pr))" "0 < living st (thread_list pr)"
  shows "\<exists>st'. terminate_process p sig st = Some st' \<and> process_gone p sig pr (thread_list pr) st st'"
proof -
  have "\<forall>t\<in>set (thread_list pr) \<inter> set (queue st). map_option state (thread_table st t) \<noteq> Some STOPPED"
    using assms(3) by (auto simp: none_continuing_def)
  then obtain st' where "terminate_threads (thread_list pr) sig st = Some st'" "process_gone p sig pr (thread_list pr) st st'"
    using terminate_threads_spec[OF assms(1,2,4,6,5) subset_refl assms(7-10)] by blast
  then show ?thesis using assms(5) by (auto simp: terminate_process_def)
qed


definition example_proc :: "nat list \<Rightarrow> nat \<Rightarrow> nat list \<Rightarrow> proc" where
  "example_proc ts par cs = proc_new\<lparr>thread_list := ts, num_living_threads := int (length ts), parent := par,
     children_list := cs, group := Some 1\<rparr>"

text \<open>Init, a shell with two threads and a child of the shell.\<close>

definition example_tree :: sched where
  "example_tree = \<lparr>thread_table = [0 \<mapsto> (example_thread READY)\<lparr>process := 0\<rparr>, 1 \<mapsto> (example_thread READY)\<lparr>process := 1\<rparr>,
       2 \<mapsto> (example_thread RUNNING)\<lparr>process := 2\<rparr>, 3 \<mapsto> (example_thread BLOCKED)\<lparr>process := 2\<rparr>,
       4 \<mapsto> (example_thread READY)\<lparr>process := 4\<rparr>],
     thread_table_size = 5, num_threads = 5, first_free_tid = 5,
     processes = [1 \<mapsto> example_proc [1] 1 [2], 2 \<mapsto> example_proc [2, 3] 1 [4], 4 \<mapsto> example_proc [4] 2 []],
     groups = [1 \<mapsto> \<lparr>session = 1, leader_process = 1, process_list = [1, 2, 4]\<rparr>],
     sessions = Map.empty, events = (\<lambda>_. event_new), queue = [1, 2, 4], init_process = 1, idle_thread = 0, effects = []\<rparr>"

lemma example_tree_ok: "proc_wf example_tree" "queue_ok example_tree" "none_continuing example_tree" "events_ok example_tree"
  by (auto simp: proc_wf_def entry_wf_def example_tree_def example_proc_def example_thread_def proc_new_def queue_ok_def
      none_continuing_def events_ok_def listens_def event_new_def runnable_def split: if_splits option.splits)



section \<open>Reaping\<close>

lemma remove_listeners_frame [simp]:
  "thread_table (remove_listeners t ls st) = thread_table st" "processes (remove_listeners t ls st) = processes st"
  "groups (remove_listeners t ls st) = groups st" "queue (remove_listeners t ls st) = queue st"
  by (induction t ls st rule: remove_listeners.induct) (simp_all add: upd_event_def)

lemma delete_thread_spec:
  assumes "events_ok st" "thread_table st t = Some th" "state th = ZOMBIE" "processes st (process th) = Some pr"
  shows "\<exists>st'. delete_thread t st = Some st' \<and> events_ok st' \<and> thread_table st' = (thread_table st)(t := None) \<and>
           processes st' = (processes st)(process th \<mapsto> pr\<lparr>thread_list := remove1 t (thread_list pr)\<rparr>) \<and>
           groups st' = groups st \<and> queue st' = queue st"
proof -
  obtain s1 where s1: "clear_listeners t st = Some s1" "thread_table s1 = (thread_table st)(t \<mapsto> th\<lparr>listeners := []\<rparr>)"
    "processes s1 = processes st" "groups s1 = groups st" "queue s1 = queue st"
    using assms(2) by (simp add: clear_listeners_def upd_thread_def)
  note cl = clear_listeners_spec[OF assms(1) s1(1)]
  define st' where "st' = s1\<lparr>processes := (processes st)(process th \<mapsto> pr\<lparr>thread_list := remove1 t (thread_list pr)\<rparr>),
      thread_table := (thread_table s1)(t := None)\<rparr>"
  have "delete_thread t st = Some st'"
    using assms s1 by (simp add: delete_thread_def upd_proc_def st'_def)
  moreover have "events_ok st'" by (rule events_ok_same[OF cl(1)]) (use cl(2) in \<open>auto simp: st'_def listens_def\<close>)
  ultimately show ?thesis using s1 by (auto simp: st'_def)
qed

lemma delete_threads_spec:
  assumes "events_ok st" "processes st p = Some pr" "distinct ts"
    and "\<forall>t\<in>set ts. \<exists>th. thread_table st t = Some th \<and> state th = ZOMBIE \<and> process th = p"
  shows "\<exists>st' pr'. delete_threads ts st = Some st' \<and> events_ok st' \<and>
           thread_table st' = (\<lambda>t. if t \<in> set ts then None else thread_table st t) \<and>
           processes st' = (processes st)(p \<mapsto> pr') \<and> groups st' = groups st \<and> queue st' = queue st"
  using assms
proof (induction ts arbitrary: st pr)
  case Nil
  then show ?case by (auto simp: map_upd_triv intro!: exI[of _ pr])
next
  case (Cons t ts)
  obtain th where th: "thread_table st t = Some th" "state th = ZOMBIE" "process th = p" using Cons.prems(4) by auto
  obtain s1 where s1: "delete_thread t st = Some s1" "events_ok s1" "thread_table s1 = (thread_table st)(t := None)"
    "processes s1 = (processes st)(p \<mapsto> pr\<lparr>thread_list := remove1 t (thread_list pr)\<rparr>)" "groups s1 = groups st" "queue s1 = queue st"
    using delete_thread_spec[OF Cons.prems(1) th(1,2)] Cons.prems(2) th(3) by auto
  have "\<exists>st' pr'. delete_threads ts s1 = Some st' \<and> events_ok st' \<and>
           thread_table st' = (\<lambda>t. if t \<in> set ts then None else thread_table s1 t) \<and>
           processes st' = (processes s1)(p \<mapsto> pr') \<and> groups st' = groups s1 \<and> queue st' = queue s1"
    by (rule Cons.IH[OF s1(2)]) (use Cons.prems(3,4) in \<open>auto simp: s1\<close>)
  then obtain st' pr' where st': "delete_threads ts s1 = Some st'" "events_ok st'"
    "thread_table st' = (\<lambda>t. if t \<in> set ts then None else thread_table s1 t)"
    "processes st' = (processes s1)(p \<mapsto> pr')" "groups st' = groups s1" "queue st' = queue s1" by blast
  have "delete_threads (t # ts) st = Some st'" using th s1(1) st'(1) by simp
  moreover have "thread_table st' = (\<lambda>u. if u \<in> set (t # ts) then None else thread_table st u)"
    by (rule ext) (simp add: st'(3) s1(3))
  moreover have "processes st' = (processes st)(p \<mapsto> pr')" by (simp add: st'(4) s1(4))
  ultimately show ?case using st'(2,5,6) s1(5,6) by (intro exI[of _ st'] exI[of _ pr']) simp
qed



text \<open>The shell of the example after it has been killed by \<^verbatim>\<open>SIGKILL\<close>.\<close>

definition example_dead :: sched where
  "example_dead = example_tree\<lparr>thread_table := (thread_table example_tree)
       (2 \<mapsto> (example_thread ZOMBIE)\<lparr>process := 2\<rparr>, 3 \<mapsto> (example_thread ZOMBIE)\<lparr>process := 2\<rparr>),
     processes := (processes example_tree)
       (1 \<mapsto> example_proc [1] 1 [2, 4],
        2 \<mapsto> (example_proc [2, 3] 1 [])\<lparr>is_zombie := True, wait_status := SIGKILL, wait_code := CLD_KILLED\<rparr>,
        4 \<mapsto> example_proc [4] 1 []), queue := [1, 4]\<rparr>"

lemma example_dead_ok: "proc_wf example_dead" "events_ok example_dead"
  by (auto simp: proc_wf_def entry_wf_def example_dead_def example_tree_def example_proc_def example_thread_def proc_new_def
      events_ok_def listens_def event_new_def split: if_splits option.splits)


end
