(* ===== verification/Userland_Ids.thy ===== *)
theory Userland_Ids
  imports Sched_Core
begin

text \<open>
  Identities: the credentials of a thread (\<^verbatim>\<open>userland/cred.cpp\<close>, \<^verbatim>\<open>userland/cred.hpp\<close>) and the pid,
  process group and session calls (\<^verbatim>\<open>userland/pid.cpp\<close>). The state of the first half is the
  credentials of the calling thread with the \<^verbatim>\<open>dumpable\<close> flag of its process; the second half runs
  on the process tree of \<open>Sched_Core\<close>, where \<open>t\<close> is the calling thread.
\<close>

section \<open>Credentials\<close>

record id_set =
  rid :: u32
  eid :: u32
  fsid :: u32
  sid :: u32

record cred =
  uids :: id_set
  gids :: id_set
  supplementary :: "u32 list"
  dumpable :: bool

definition CAP_SETGID :: u32 where "CAP_SETGID = 6"
definition CAP_SETUID :: u32 where "CAP_SETUID = 7"

definition contains :: "id_set \<Rightarrow> u32 \<Rightarrow> bool" where
  "contains ids i \<longleftrightarrow> rid ids = i \<or> eid ids = i \<or> sid ids = i"

definition has_capability :: "u32 \<Rightarrow> cred \<Rightarrow> bool" where
  "has_capability cap c \<longleftrightarrow> eid (uids c) = 0"

text \<open>The reference \<^verbatim>\<open>is_gid ? cred.gids : cred.uids\<close>, read and written.\<close>

definition get_ids :: "bool \<Rightarrow> cred \<Rightarrow> id_set" where
  "get_ids is_gid c = (if is_gid then gids c else uids c)"

definition set_ids :: "bool \<Rightarrow> id_set \<Rightarrow> cred \<Rightarrow> cred" where
  "set_ids is_gid ids c = (if is_gid then c\<lparr>gids := ids\<rparr> else c\<lparr>uids := ids\<rparr>)"

definition syscall_getresuid :: "cred \<Rightarrow> u32 \<times> u32 \<times> u32" where
  "syscall_getresuid c = (rid (uids c), eid (uids c), sid (uids c))"

definition syscall_getresgid :: "cred \<Rightarrow> u32 \<times> u32 \<times> u32" where
  "syscall_getresgid c = (rid (gids c), eid (gids c), sid (gids c))"

definition setid :: "bool \<Rightarrow> u32 \<Rightarrow> cred \<Rightarrow> unit res \<times> cred" where
  "setid is_gid i c =
     (let ids = get_ids is_gid c in
      if has_capability (if is_gid then CAP_SETGID else CAP_SETUID) c
      then (Inr (), set_ids is_gid (ids\<lparr>eid := i, fsid := i, rid := i, sid := i\<rparr>)
                      (if i \<noteq> eid ids then c\<lparr>dumpable := False\<rparr> else c))
      else if contains ids i
      then (Inr (), set_ids is_gid (ids\<lparr>eid := i, fsid := i\<rparr>)
                      (if i \<noteq> eid ids then c\<lparr>dumpable := False\<rparr> else c))
      else (Inl EPERM, c))"

text \<open>The three ids \<^verbatim>\<open>setresid\<close> takes; \<^verbatim>\<open>(uint)-1\<close> leaves one as it is.\<close>

definition id_allowed :: "id_set \<Rightarrow> u32 \<Rightarrow> bool" where
  "id_allowed ids i \<longleftrightarrow> i = - 1 \<or> contains ids i"

definition id_or :: "u32 \<Rightarrow> u32 \<Rightarrow> u32" where
  "id_or i old = (if i \<noteq> - 1 then i else old)"

definition setresid :: "bool \<Rightarrow> u32 \<Rightarrow> u32 \<Rightarrow> u32 \<Rightarrow> cred \<Rightarrow> unit res \<times> cred" where
  "setresid is_gid r e s c =
     (let ids = get_ids is_gid c;
          new_ids = ids\<lparr>eid := id_or e (eid ids), rid := id_or r (rid ids), sid := id_or s (sid ids)\<rparr>;
          new_ids = new_ids\<lparr>fsid := eid new_ids\<rparr> in
      if \<not> has_capability (if is_gid then CAP_SETGID else CAP_SETUID) c \<and>
         \<not> (id_allowed ids e \<and> id_allowed ids r \<and> id_allowed ids s)
      then (Inl EPERM, c)
      else (Inr (), set_ids is_gid new_ids
                      (if eid new_ids \<noteq> eid ids \<or> fsid new_ids \<noteq> fsid ids
                       then c\<lparr>dumpable := False\<rparr> else c)))"

definition syscall_setuid :: "u32 \<Rightarrow> cred \<Rightarrow> unit res \<times> cred" where
  "syscall_setuid uid = setid False uid"

definition syscall_setgid :: "u32 \<Rightarrow> cred \<Rightarrow> unit res \<times> cred" where
  "syscall_setgid gid = setid True gid"

definition syscall_setreuid :: "u32 \<Rightarrow> u32 \<Rightarrow> cred \<Rightarrow> unit res \<times> cred" where
  "syscall_setreuid ruid euid = setresid False ruid euid (- 1)"

definition syscall_setregid :: "u32 \<Rightarrow> u32 \<Rightarrow> cred \<Rightarrow> unit res \<times> cred" where
  "syscall_setregid rgid egid = setresid True rgid egid (- 1)"

definition syscall_setresuid :: "u32 \<Rightarrow> u32 \<Rightarrow> u32 \<Rightarrow> cred \<Rightarrow> unit res \<times> cred" where
  "syscall_setresuid ruid euid suid = setresid False ruid euid suid"

definition syscall_setresgid :: "u32 \<Rightarrow> u32 \<Rightarrow> u32 \<Rightarrow> cred \<Rightarrow> unit res \<times> cred" where
  "syscall_setresgid rgid egid sgid = setresid True rgid egid sgid"

text \<open>
  The group list: \<open>size'\<close> is the C \<^verbatim>\<open>int\<close> argument, \<open>buf\<close> the user's array. \<^verbatim>\<open>setgroups\<close> resizes the
  vector, copies \<open>size'\<close> ids (out of a shorter array: \<open>None\<close>) and sorts them in place.
\<close>

definition syscall_getgroups :: "int \<Rightarrow> cred \<Rightarrow> (int \<times> u32 list) res" where
  "syscall_getgroups size' c =
     (let actual_size = int (length (supplementary c)) in
      if size' = 0 then Inr (actual_size, [])
      else if size' < actual_size then Inl EINVAL
      else Inr (actual_size, supplementary c))"

definition syscall_setgroups :: "int \<Rightarrow> u32 list \<Rightarrow> cred \<Rightarrow> (unit res \<times> cred) option" where
  "syscall_setgroups size' buf c =
     (if size' < 0 then Some (Inl EINVAL, c)
      else if size' = 0 then Some (Inr (), c\<lparr>supplementary := []\<rparr>)
      else do { ids \<leftarrow> mem_read buf 0 (nat size');
                ids \<leftarrow> qsort ids 0 (nat size');
                Some (Inr (), c\<lparr>supplementary := ids\<rparr>) })"

section \<open>Process ids, groups and sessions\<close>

definition process_of :: "nat \<Rightarrow> sched \<Rightarrow> nat option" where
  "process_of t st = map_option process (thread_table st t)"

definition group_of :: "nat \<Rightarrow> sched \<Rightarrow> process_group option" where
  "group_of p st = do { pr \<leftarrow> processes st p; g \<leftarrow> group pr; groups st g }"

text \<open>\<^verbatim>\<open>Process::session_leader\<close>: four dereferences.\<close>

definition session_leader :: "nat \<Rightarrow> sched \<Rightarrow> nat option" where
  "session_leader p st =
     do { gr \<leftarrow> group_of p st; se \<leftarrow> sessions st (session gr);
          lg \<leftarrow> groups st (leader_group se); Some (leader_process lg) }"

definition syscall_getpid :: "nat \<Rightarrow> sched \<Rightarrow> nat option" where
  "syscall_getpid t st = process_of t st"

definition syscall_getppid :: "nat \<Rightarrow> sched \<Rightarrow> nat option" where
  "syscall_getppid t st = do { p \<leftarrow> process_of t st; pr \<leftarrow> processes st p; Some (parent pr) }"

text \<open>The process a call names: the caller's for 0, otherwise that of the thread with this id.\<close>

definition named_process :: "nat \<Rightarrow> int \<Rightarrow> sched \<Rightarrow> nat res option" where
  "named_process t pid st =
     (if pid \<noteq> 0
      then (case get_from_tid pid st of None \<Rightarrow> Some (Inl ESRCH) | Some th \<Rightarrow> Some (Inr (process th)))
      else map_option Inr (process_of t st))"

definition syscall_getpgid :: "nat \<Rightarrow> int \<Rightarrow> sched \<Rightarrow> nat res option" where
  "syscall_getpgid t pid st =
     do { r \<leftarrow> named_process t pid st;
          case r of Inl e \<Rightarrow> Some (Inl e)
          | Inr p \<Rightarrow> do { gr \<leftarrow> group_of p st; Some (Inr (leader_process gr)) } }"

definition syscall_getpgrp :: "nat \<Rightarrow> sched \<Rightarrow> nat option" where
  "syscall_getpgrp t st = do { p \<leftarrow> process_of t st; gr \<leftarrow> group_of p st; Some (leader_process gr) }"

definition syscall_getsid :: "nat \<Rightarrow> int \<Rightarrow> sched \<Rightarrow> nat res option" where
  "syscall_getsid t pid st =
     do { r \<leftarrow> named_process t pid st;
          case r of Inl e \<Rightarrow> Some (Inl e) | Inr p \<Rightarrow> map_option Inr (session_leader p st) }"

text \<open>
  The choice of the target process and the permission checks of \<^verbatim>\<open>setpgid\<close>, then the group it is
  moved to: an existing one of its session or a new one, named \<open>fresh\<close> here.
\<close>

definition setpgid_target :: "nat \<Rightarrow> int \<Rightarrow> sched \<Rightarrow> nat res option" where
  "setpgid_target t pid st =
     do { current \<leftarrow> process_of t st;
          if pid = 0 then Some (Inr current)
          else case get_from_tid pid st of
            None \<Rightarrow> Some (Inl ESRCH)
          | Some th \<Rightarrow>
              do { pr \<leftarrow> processes st (process th);
                   if process th \<noteq> current \<and> parent pr \<noteq> current then Some (Inl ESRCH)
                   else if parent pr = current \<and> has_performed_execve pr then Some (Inl EACCES)
                   else Some (Inr (process th)) } }"

definition setpgid_group :: "nat \<Rightarrow> nat \<Rightarrow> int \<Rightarrow> sched \<Rightarrow> (nat option res \<times> sched) option" where
  "setpgid_group fresh target pgid st =
     do { tg \<leftarrow> group_of target st;
          if pgid \<noteq> 0 \<and> pgid \<noteq> int target then
            if pgid < 0 then Some (Inl EINVAL, st)
            else (case get_from_tid pgid st of
                    None \<Rightarrow> Some (Inl EPERM, st)
                  | Some th \<Rightarrow>
                      do { pr \<leftarrow> processes st (process th);
                           g \<leftarrow> group pr;
                           gr \<leftarrow> groups st g;
                           if session gr \<noteq> session tg then Some (Inl EPERM, st)
                           else Some (Inr (Some g), st) })
          else if leader_process tg = target then Some (Inr None, st)
          else do { st \<leftarrow> new_group fresh (session tg) target st; Some (Inr (Some fresh), st) } }"

definition syscall_setpgid :: "nat \<Rightarrow> nat \<Rightarrow> int \<Rightarrow> int \<Rightarrow> sched \<Rightarrow> (unit res \<times> sched) option" where
  "syscall_setpgid fresh t pid pgid st =
     do { r \<leftarrow> setpgid_target t pid st;
          case r of
            Inl e \<Rightarrow> Some (Inl e, st)
          | Inr target \<Rightarrow>
              do { leader \<leftarrow> session_leader target st;
                   if leader = target then Some (Inl EPERM, st)
                   else do {
                     (g, st) \<leftarrow> setpgid_group fresh target pgid st;
                     case g of
                       Inl e \<Rightarrow> Some (Inl e, st)
                     | Inr None \<Rightarrow> Some (Inr (), st)
                     | Inr (Some g) \<Rightarrow> do { st \<leftarrow> add_process g target st; Some (Inr (), st) } } } }"

text \<open>\<^verbatim>\<open>setsid\<close>: a new session \<open>s\<close> whose leader group is the new group \<open>fresh\<close>.\<close>

definition new_session :: "nat \<Rightarrow> sched \<Rightarrow> sched" where
  "new_session s st = st\<lparr>sessions := (sessions st)(s \<mapsto> \<lparr>leader_group = 0, process_group_list = []\<rparr>)\<rparr>"

definition syscall_setsid :: "nat \<Rightarrow> nat \<Rightarrow> nat \<Rightarrow> sched \<Rightarrow> (nat res \<times> sched) option" where
  "syscall_setsid fresh s t st =
     do { p \<leftarrow> process_of t st;
          gr \<leftarrow> group_of p st;
          if leader_process gr = p then Some (Inl EPERM, st)
          else do {
            st \<leftarrow> new_group fresh s p (new_session s st);
            st \<leftarrow> add_process fresh p st;
            pr \<leftarrow> processes st p;
            g \<leftarrow> group pr;
            se \<leftarrow> sessions st s;
            Some (Inr p, st\<lparr>sessions := (sessions st)(s \<mapsto> se\<lparr>leader_group := g\<rparr>)\<rparr>) } }"


section \<open>What a thread can become\<close>

inductive cred_step :: "cred \<Rightarrow> cred \<Rightarrow> bool" where
  step_setid: "setid is_gid i c = (r, c') \<Longrightarrow> cred_step c c'"
| step_setresid: "setresid is_gid a b d c = (r, c') \<Longrightarrow> cred_step c c'"
| step_setgroups: "syscall_setgroups n buf c = Some (r, c') \<Longrightarrow> cred_step c c'"

definition ids_of :: "id_set \<Rightarrow> u32 set" where
  "ids_of ids = {rid ids, eid ids, sid ids}"

lemma contains_ids_of: "contains ids i \<longleftrightarrow> i \<in> ids_of ids"
  by (auto simp: contains_def ids_of_def)

text \<open>What a step of an unprivileged thread keeps, relative to the credentials it started with.\<close>

definition confined :: "cred \<Rightarrow> cred \<Rightarrow> bool" where
  "confined c c' \<longleftrightarrow> ids_of (uids c') \<subseteq> ids_of (uids c) \<and> ids_of (gids c') \<subseteq> ids_of (gids c) \<and>
     fsid (uids c') \<in> {fsid (uids c)} \<union> ids_of (uids c) \<and> fsid (gids c') \<in> {fsid (gids c)} \<union> ids_of (gids c) \<and>
     (dumpable c' \<longrightarrow> dumpable c \<and> eid (uids c') = eid (uids c) \<and> eid (gids c') = eid (gids c))"

lemma confined_refl: "confined c c"
  by (simp add: confined_def)

lemma confined_trans: "confined a b \<Longrightarrow> confined b c \<Longrightarrow> confined a c"
  unfolding confined_def by auto

lemma confined_set:
  assumes "ids_of new \<subseteq> ids_of (get_ids g c)" "fsid new \<in> ids_of (get_ids g c)"
    and "x = c \<and> eid new = eid (get_ids g c) \<or> x = c\<lparr>dumpable := False\<rparr>"
  shows "confined c (set_ids g new x)"
  using assms(3)
proof
  assume "x = c \<and> eid new = eid (get_ids g c)"
  then show ?thesis using assms(1,2) by (cases g) (simp_all add: confined_def set_ids_def get_ids_def)
next
  assume "x = c\<lparr>dumpable := False\<rparr>"
  then show ?thesis using assms(1,2) by (cases g) (simp_all add: confined_def set_ids_def get_ids_def)
qed

lemma setid_confined:
  assumes "eid (uids c) \<noteq> 0" "setid is_gid i c = (r, c')"
  shows "confined c c'"
proof (cases "contains (get_ids is_gid c) i")
  case True
  let ?ids = "get_ids is_gid c"
  let ?new = "?ids\<lparr>eid := i, fsid := i\<rparr>"
  have "confined c (set_ids is_gid ?new (if i \<noteq> eid ?ids then c\<lparr>dumpable := False\<rparr> else c))"
    using True by (intro confined_set) (auto simp: contains_ids_of ids_of_def)
  then show ?thesis using assms True by (simp add: setid_def has_capability_def Let_def)
next
  case False
  then show ?thesis using assms by (simp add: setid_def has_capability_def Let_def confined_refl)
qed

lemma id_or_allowed: "id_allowed ids i \<Longrightarrow> old \<in> ids_of ids \<Longrightarrow> id_or i old \<in> ids_of ids"
  by (auto simp: id_allowed_def id_or_def contains_ids_of)

lemma setresid_confined:
  assumes "eid (uids c) \<noteq> 0" "setresid is_gid a b d c = (r, c')"
  shows "confined c c'"
proof (cases r)
  case (Inl e)
  then show ?thesis using assms by (auto simp: setresid_def Let_def confined_refl split: if_splits)
next
  case (Inr u)
  let ?ids = "get_ids is_gid c"
  have ok: "id_allowed ?ids b" "id_allowed ?ids a" "id_allowed ?ids d"
    using assms Inr by (auto simp: setresid_def Let_def has_capability_def split: if_splits)
  have "rid ?ids \<in> ids_of ?ids" "eid ?ids \<in> ids_of ?ids" "sid ?ids \<in> ids_of ?ids" by (simp_all add: ids_of_def)
  then have "{id_or a (rid ?ids), id_or b (eid ?ids), id_or d (sid ?ids)} \<subseteq> ids_of ?ids"
    using ok id_or_allowed by simp
  then have "confined c (set_ids is_gid (?ids\<lparr>eid := id_or b (eid ?ids), rid := id_or a (rid ?ids),
      sid := id_or d (sid ?ids), fsid := id_or b (eid ?ids)\<rparr>) x)"
    if "x = c \<and> id_or b (eid ?ids) = eid ?ids \<or> x = c\<lparr>dumpable := False\<rparr>" for x
    using that by (intro confined_set) (auto simp: ids_of_def)
  then show ?thesis using assms(2) Inr by (auto simp: setresid_def Let_def split: if_splits)
qed

lemma setgroups_confined: "syscall_setgroups n buf c = Some (r, c') \<Longrightarrow> confined c c'"
  by (auto simp: syscall_setgroups_def confined_def split: if_splits bind_splits)

lemma cred_step_confined: "cred_step c c' \<Longrightarrow> eid (uids c) \<noteq> 0 \<Longrightarrow> confined c c'"
  by (induction rule: cred_step.induct) (auto intro: setid_confined setresid_confined setgroups_confined)


definition example_cred :: cred where
  "example_cred = \<lparr>uids = \<lparr>rid = 1000, eid = 1000, fsid = 1000, sid = 500\<rparr>,
     gids = \<lparr>rid = 100, eid = 100, fsid = 100, sid = 100\<rparr>, supplementary = [], dumpable = True\<rparr>"


text \<open>
  The group list round trip: \<^verbatim>\<open>setgroups\<close> with an array of at least the given size succeeds for
  any caller, whatever its privileges, and a following \<^verbatim>\<open>getgroups\<close> with enough room returns exactly
  the ids that were set, sorted.
\<close>

theorem groups_round_trip:
  assumes "0 \<le> n" "nat n \<le> length buf" "n \<le> m" "m \<noteq> 0"
  shows "\<exists>c' ids. syscall_setgroups n buf c = Some (Inr (), c') \<and> syscall_getgroups m c' = Inr (n, ids) \<and>
           sorted ids \<and> mset ids = mset (take (nat n) buf) \<and> uids c' = uids c \<and> gids c' = gids c"
proof (cases "n = 0")
  case True
  then show ?thesis using assms by (auto simp: syscall_setgroups_def syscall_getgroups_def)
next
  case False
  let ?k = "nat n" and ?xs = "take (nat n) buf"
  have "?k \<le> length ?xs" using assms(2) by simp
  from qsort_spec[OF le0 this] obtain ys where
    ys: "qsort ?xs 0 ?k = Some ys" "same_outside 0 ?k ?xs ys" "sorted_slice 0 ?k ys" by blast
  then have m: "mset ys = mset ?xs" by (simp add: same_outside_def)
  then have "length ys = length ?xs" by (rule mset_eq_length)
  then have len: "length ys = ?k" using assms(2) by simp
  then have "sorted ys" using ys(3) by (simp add: sorted_slice_def sorted_iff_nth_mono_less)
  moreover have "syscall_setgroups n buf c = Some (Inr (), c\<lparr>supplementary := ys\<rparr>)"
    using assms False ys(1) by (simp add: syscall_setgroups_def)
  moreover have "syscall_getgroups m (c\<lparr>supplementary := ys\<rparr>) = Inr (n, ys)"
    using assms len by (simp add: syscall_getgroups_def)
  ultimately show ?thesis using m by auto
qed

theorem groups_round_trip_witness:
  "\<exists>c' ids. syscall_setgroups 3 [30, 10, 20] example_cred = Some (Inr (), c') \<and> syscall_getgroups 8 c' = Inr (3, ids) \<and>
     sorted ids \<and> mset ids = mset [30, 10, 20]"
  using groups_round_trip[of 3 "[30, 10, 20]" 8 example_cred] by auto


section \<open>Groups and sessions\<close>

text \<open>
  Membership is consistent: a process is listed exactly once, in the group it names, every group
  belongs to a session, and every session has its leader group.
\<close>

definition member_ok :: "sched \<Rightarrow> bool" where
  "member_ok st \<longleftrightarrow>
     (\<forall>p pr. processes st p = Some pr \<longrightarrow> (\<exists>g gr. group pr = Some g \<and> groups st g = Some gr \<and> p \<in> set (process_list gr))) \<and>
     (\<forall>g gr. groups st g = Some gr \<longrightarrow> distinct (process_list gr) \<and>
        (\<forall>p\<in>set (process_list gr). \<exists>pr. processes st p = Some pr \<and> group pr = Some g))"

definition session_ok :: "sched \<Rightarrow> bool" where
  "session_ok st \<longleftrightarrow>
     (\<forall>g gr. groups st g = Some gr \<longrightarrow> sessions st (session gr) \<noteq> None) \<and>
     (\<forall>s se. sessions st s = Some se \<longrightarrow> groups st (leader_group se) \<noteq> None)"

lemma member_group: "member_ok st \<Longrightarrow> processes st p = Some pr \<Longrightarrow>
    \<exists>g gr. group pr = Some g \<and> groups st g = Some gr \<and> p \<in> set (process_list gr)"
  by (simp add: member_ok_def)

lemma member_listed:
  assumes "member_ok st" "groups st g = Some gr"
  shows "distinct (process_list gr)" "p \<in> set (process_list gr) \<Longrightarrow> \<exists>pr. processes st p = Some pr \<and> group pr = Some g"
  using assms unfolding member_ok_def by blast+

lemma member_okI:
  assumes "\<And>p pr. processes st p = Some pr \<Longrightarrow>
      \<exists>g gr. group pr = Some g \<and> groups st g = Some gr \<and> p \<in> set (process_list gr)"
    and "\<And>g gr. groups st g = Some gr \<Longrightarrow> distinct (process_list gr)"
    and "\<And>g gr p. groups st g = Some gr \<Longrightarrow> p \<in> set (process_list gr) \<Longrightarrow> \<exists>pr. processes st p = Some pr \<and> group pr = Some g"
  shows "member_ok st"
  unfolding member_ok_def using assms by blast

text \<open>The state \<^verbatim>\<open>ProcessGroup::add_process\<close> leaves, and that it succeeds and keeps membership consistent.\<close>

definition moved :: "nat \<Rightarrow> nat \<Rightarrow> nat \<Rightarrow> process_group \<Rightarrow> process_group" where
  "moved p g x gr = gr\<lparr>process_list := removeAll p (process_list gr) @ (if x = g then [p] else [])\<rparr>"

lemma add_process_eq:
  assumes "member_ok st" "processes st p = Some pr" "groups st g \<noteq> None"
  shows "add_process g p st = Some (st\<lparr>groups := (\<lambda>x. map_option (moved p g x) (groups st x)),
           processes := (processes st)(p \<mapsto> pr\<lparr>group := Some g\<rparr>)\<rparr>)"
proof -
  obtain old og where old: "group pr = Some old" "groups st old = Some og" "p \<in> set (process_list og)"
    using member_group[OF assms(1,2)] by blast
  have notin: "p \<notin> set (process_list x)" if "groups st h = Some x" "h \<noteq> old" for h x
    using member_listed(2)[OF assms(1) that(1), of p] assms(2) that(2) old(1) by auto
  have d: "removeAll p (process_list og) = remove1 p (process_list og)"
    by (rule distinct_remove1_removeAll[OF member_listed(1)[OF assms(1) old(2)], symmetric])
  let ?gs = "(groups st)(old \<mapsto> og\<lparr>process_list := remove1 p (process_list og)\<rparr>)"
  obtain gr where gr: "?gs g = Some gr" using assms(3) by (cases "g = old") auto
  have "?gs(g \<mapsto> gr\<lparr>process_list := process_list gr @ [p]\<rparr>) = (\<lambda>x. map_option (moved p g x) (groups st x))"
  proof
    fix x
    show "(?gs(g \<mapsto> gr\<lparr>process_list := process_list gr @ [p]\<rparr>)) x = map_option (moved p g x) (groups st x)"
      using gr old notin[of x] d assms(3)
      by (cases "groups st x"; cases "x = old"; cases "x = g") (auto simp: moved_def)
  qed
  then show ?thesis using assms(2) old gr
    by (simp add: add_process_def upd_proc_def del: fun_upd_apply)
qed

lemma add_process_member_ok:
  assumes "member_ok st" "processes st p = Some pr" "groups st g \<noteq> None" "add_process g p st = Some st'"
  shows "member_ok st'"
proof -
  have st': "groups st' = (\<lambda>x. map_option (moved p g x) (groups st x))" "processes st' = (processes st)(p \<mapsto> pr\<lparr>group := Some g\<rparr>)"
    using assms(4) add_process_eq[OF assms(1-3)] by auto
  obtain gr where gr: "groups st g = Some gr" using assms(3) by blast
  have 1: "\<exists>h x. group q' = Some h \<and> groups st' h = Some x \<and> q \<in> set (process_list x)" if qq: "processes st' q = Some q'" for q q'
  proof (cases "q = p")
    case True
    then show ?thesis using qq gr st' by (auto simp: moved_def)
  next
    case False
    then have "processes st q = Some q'" using qq st'(2) by simp
    then obtain h x where "group q' = Some h" "groups st h = Some x" "q \<in> set (process_list x)"
      using member_group[OF assms(1)] by blast
    then show ?thesis using False st'(1) by (auto simp: moved_def)
  qed
  have 2: "distinct (process_list x')" "\<exists>q'. processes st' q = Some q' \<and> group q' = Some h"
    if hx: "groups st' h = Some x'" "q \<in> set (process_list x')" for h x' q
  proof -
    obtain x where x: "groups st h = Some x" "x' = moved p g h x" using hx(1) st'(1) by auto
    note d = member_listed(1)[OF assms(1) x(1)] and m = member_listed(2)[OF assms(1) x(1)]
    show "distinct (process_list x')" using d by (simp add: x(2) moved_def distinct_removeAll)
    show "\<exists>q'. processes st' q = Some q' \<and> group q' = Some h"
      using hx(2) m by (auto simp: x(2) moved_def st'(2) split: if_splits)
  qed
  have 3: "distinct (process_list x')" if "groups st' h = Some x'" for h x'
    using 2(1)[OF that] by (cases "process_list x'") auto
  show ?thesis by (rule member_okI[OF 1 3 2(2)])
qed

text \<open>A new, empty group changes no membership.\<close>

lemma new_group_ok:
  assumes "member_ok st" "groups st g = None" "sessions st s = Some se"
  shows "\<exists>st'. new_group g s p st = Some st' \<and> member_ok st' \<and> processes st' = processes st \<and>
           thread_table st' = thread_table st \<and> groups st' = (groups st)(g \<mapsto> \<lparr>session = s, leader_process = p, process_list = []\<rparr>) \<and>
           sessions st' = (sessions st)(s \<mapsto> se\<lparr>process_group_list := process_group_list se @ [g]\<rparr>)"
proof -
  define st' where "st' = st\<lparr>groups := (groups st)(g \<mapsto> \<lparr>session = s, leader_process = p, process_list = []\<rparr>),
      sessions := (sessions st)(s \<mapsto> se\<lparr>process_group_list := process_group_list se @ [g]\<rparr>)\<rparr>"
  have "member_ok st'"
  proof (rule member_okI)
    show "\<exists>h gr. group pr = Some h \<and> groups st' h = Some gr \<and> q \<in> set (process_list gr)" if qp: "processes st' q = Some pr" for q pr
    proof -
      obtain h x where h: "group pr = Some h" "groups st h = Some x" "q \<in> set (process_list x)"
        using member_group[OF assms(1), of q pr] qp by (auto simp: st'_def)
      then have "h \<noteq> g" using assms(2) by auto
      then show ?thesis using h by (auto simp: st'_def)
    qed
    show "distinct (process_list gr)" if "groups st' h = Some gr" for h gr
      using that member_listed(1)[OF assms(1), of h gr] by (auto simp: st'_def split: if_splits)
    show "\<exists>pr. processes st' q = Some pr \<and> group pr = Some h" if "groups st' h = Some gr" "q \<in> set (process_list gr)" for h gr q
      using that member_listed(2)[OF assms(1), of h gr q] by (auto simp: st'_def split: if_splits)
  qed
  then show ?thesis using assms(3) by (auto simp: new_group_def st'_def)
qed

text \<open>
  \<^verbatim>\<open>setsid\<close> makes the caller a leader. In a state where group membership is consistent, a process
  that leads no group gets a new session and a new group of which it is the leader and only member;
  it is then its own session leader, leaves the group it was in, and membership and sessions stay
  consistent. A process that leads its group is refused with \<^verbatim>\<open>EPERM\<close> and nothing changes.
\<close>

theorem setsid_makes_leader:
  assumes "member_ok st" "session_ok st" "groups st fresh = None" "sessions st s = None"
    and "process_of t st = Some p" "processes st p = Some pr" "group_of p st = Some gr"
  shows "if leader_process gr = p then syscall_setsid fresh s t st = Some (Inl EPERM, st)
         else \<exists>st'. syscall_setsid fresh s t st = Some (Inr p, st') \<and> member_ok st' \<and> session_ok st' \<and>
                session_leader p st' = Some p \<and> syscall_getpgrp t st' = Some p \<and>
                map_option process_list (groups st' fresh) = Some [p] \<and>
                (\<forall>q x. q \<noteq> fresh \<longrightarrow> groups st' q = Some x \<longrightarrow> p \<notin> set (process_list x))"
proof (cases "leader_process gr = p")
  case True
  then show ?thesis using assms(5,7) by (simp add: syscall_setsid_def)
next
  case False
  have nm: "member_ok (new_session s st)" using assms(1) by (simp add: member_ok_def new_session_def)
  obtain s1 where s1: "new_group fresh s p (new_session s st) = Some s1" "member_ok s1" "processes s1 = processes st"
    "thread_table s1 = thread_table st" "groups s1 = (groups st)(fresh \<mapsto> \<lparr>session = s, leader_process = p, process_list = []\<rparr>)"
    "sessions s1 = (sessions st)(s \<mapsto> \<lparr>leader_group = 0, process_group_list = [fresh]\<rparr>)"
    using new_group_ok[OF nm, of fresh s _ p] assms(3) by (auto simp: new_session_def)
  have p1: "processes s1 p = Some pr" "groups s1 fresh \<noteq> None" using assms(6) s1(3,5) by simp_all
  note eq = add_process_eq[OF s1(2) p1]
  define s2 where "s2 = s1\<lparr>groups := (\<lambda>x. map_option (moved p fresh x) (groups s1 x)),
      processes := (processes s1)(p \<mapsto> pr\<lparr>group := Some fresh\<rparr>)\<rparr>"
  have a: "add_process fresh p s1 = Some s2" using eq by (simp add: s2_def)
  have m2: "member_ok s2" by (rule add_process_member_ok[OF s1(2) p1 a])
  define st' where "st' = s2\<lparr>sessions := (sessions s2)(s \<mapsto> \<lparr>leader_group = fresh, process_group_list = [fresh]\<rparr>)\<rparr>"
  have run: "syscall_setsid fresh s t st = Some (Inr p, st')"
    using False assms(5,7) s1(1,6) a by (simp add: syscall_setsid_def st'_def s2_def)
  have "member_ok st'" using m2 by (simp add: member_ok_def st'_def)
  moreover have "session_ok st'"
    using assms(2,3) by (auto simp: session_ok_def st'_def s2_def s1(5,6) moved_def split: if_splits)
  moreover have g': "groups st' fresh = Some \<lparr>session = s, leader_process = p, process_list = [p]\<rparr>"
    by (simp add: st'_def s2_def s1(5) moved_def)
  moreover have "processes st' p = Some (pr\<lparr>group := Some fresh\<rparr>)" by (simp add: st'_def s2_def)
  moreover have "thread_table st' = thread_table st" by (simp add: st'_def s2_def s1(4))
  moreover have "p \<notin> set (process_list x)" if "q \<noteq> fresh" "groups st' q = Some x" for q x
    using that by (auto simp: st'_def s2_def s1(5) moved_def)
  moreover have "sessions st' s = Some \<lparr>leader_group = fresh, process_group_list = [fresh]\<rparr>" by (simp add: st'_def)
  ultimately have "session_leader p st' = Some p" "syscall_getpgrp t st' = Some p"
    using assms(5) by (auto simp: session_leader_def group_of_def syscall_getpgrp_def process_of_def)
  then show ?thesis using False run \<open>member_ok st'\<close> \<open>session_ok st'\<close> g'
      \<open>\<And>q x. q \<noteq> fresh \<Longrightarrow> groups st' q = Some x \<Longrightarrow> p \<notin> set (process_list x)\<close> by simp
qed


definition example_groups :: sched where
  "example_groups = example_sched\<lparr>thread_table := [1 \<mapsto> (example_thread READY)\<lparr>process := 1\<rparr>, 2 \<mapsto> (example_thread READY)\<lparr>process := 2\<rparr>],
     thread_table_size := 3,
     processes := (\<lambda>p. if p = 1 \<or> p = 2 then Some \<lparr>thread_list = [p], num_living_threads = 1, parent = 1, children_list = [],
         wait_status = 0, wait_code = 0, is_zombie = False, has_performed_execve = False,
         signal_actions = (\<lambda>_. \<lparr>handler = 0, sa_flags = 0, restorer = 0, sa_mask = 0\<rparr>), group = Some 1\<rparr> else None),
     groups := [1 \<mapsto> \<lparr>session = 1, leader_process = 1, process_list = [1, 2]\<rparr>],
     sessions := [1 \<mapsto> \<lparr>leader_group = 1, process_group_list = [1]\<rparr>]\<rparr>"

lemma example_groups_ok: "member_ok example_groups" "session_ok example_groups"
  by (auto simp: member_ok_def session_ok_def example_groups_def split: if_splits)

theorem setsid_makes_leader_witness:
  "\<exists>st'. syscall_setsid 9 7 2 example_groups = Some (Inr 2, st') \<and> session_leader 2 st' = Some 2 \<and>
     map_option process_list (groups st' 9) = Some [2]"
  using setsid_makes_leader[OF example_groups_ok, of 9 7 2 2 _ "\<lparr>session = 1, leader_process = 1, process_list = [1, 2]\<rparr>"]
  by (auto simp: example_groups_def process_of_def group_of_def example_thread_def)

text \<open>The session a process is in.\<close>

definition session_of :: "nat \<Rightarrow> sched \<Rightarrow> nat option" where
  "session_of p st = map_option session (group_of p st)"

lemma add_process_session:
  assumes "member_ok st" "processes st p = Some pr" "groups st g = Some gr" "add_process g p st = Some st'"
  shows "session_of q st' = (if q = p then Some (session gr) else session_of q st)"
proof -
  have st': "groups st' = (\<lambda>x. map_option (moved p g x) (groups st x))" "processes st' = (processes st)(p \<mapsto> pr\<lparr>group := Some g\<rparr>)"
    using assms(3,4) add_process_eq[OF assms(1,2), of g] by auto
  have m: "map_option session (map_option (moved p g x) y) = map_option session y" for x y
    by (cases y) (simp_all add: moved_def)
  show ?thesis
    by (auto simp: session_of_def group_of_def st' assms(3) moved_def option.map_comp comp_def split: bind_splits
        intro!: option.map_cong0)
qed

text \<open>
  Process groups never cross sessions. Whatever the arguments, \<^verbatim>\<open>setpgid\<close> either changes nothing
  and returns an error (or 0 for a process that leads its group already), or moves one process, the
  caller or a child of it that has not performed \<^verbatim>\<open>execve\<close>, to a group of its own session; no
  process changes its session, a session leader is never moved, and membership stays consistent.
\<close>

theorem setpgid_stays_in_session:
  assumes "member_ok st" "groups st fresh = None" "syscall_setpgid fresh t pid pgid st = Some (r, st')"
  shows "member_ok st' \<and> (\<forall>q. processes st q \<noteq> None \<longrightarrow> session_of q st' = session_of q st) \<and>
         (st' = st \<or> r = Inr () \<and> (\<exists>p pr. processes st p = Some pr \<and> session_leader p st \<noteq> Some p \<and>
            (process_of t st = Some p \<or> process_of t st = Some (parent pr) \<and> \<not> has_performed_execve pr) \<and>
            (\<forall>q. q \<noteq> p \<longrightarrow> processes st' q = processes st q)))"
proof (cases "st' = st")
  case True
  then show ?thesis using assms(1) by simp
next
  case False
  obtain target leader g s1 where tgt: "setpgid_target t pid st = Some (Inr target)"
    and ld: "session_leader target st = Some leader" "leader \<noteq> target"
    and g: "setpgid_group fresh target pgid st = Some (Inr (Some g), s1)" and a: "add_process g target s1 = Some st'" "r = Inr ()"
    using assms(3) False
    by (auto simp: syscall_setpgid_def setpgid_group_def split: bind_splits sum.splits if_splits option.splits)
  obtain pr where pr: "processes st target = Some pr"
    using ld(1) by (auto simp: session_leader_def group_of_def split: bind_splits)
  have who: "process_of t st = Some target \<or> process_of t st = Some (parent pr) \<and> \<not> has_performed_execve pr"
    using tgt pr by (auto simp: setpgid_target_def split: bind_splits if_splits option.splits)
  obtain tg where tg: "group_of target st = Some tg" using g by (auto simp: setpgid_group_def split: bind_splits)
  have s1: "member_ok s1 \<and> processes s1 = processes st \<and> (\<forall>q. processes st q \<noteq> None \<longrightarrow> session_of q s1 = session_of q st) \<and>
      (\<exists>gr. groups s1 g = Some gr \<and> session gr = session tg)"
  proof (cases "pgid \<noteq> 0 \<and> pgid \<noteq> int target")
    case True
    then show ?thesis using g tg assms(1)
      by (auto simp: setpgid_group_def split: bind_splits if_splits option.splits)
  next
    case False
    then have n: "new_group fresh (session tg) target st = Some s1" "g = fresh"
      using g tg by (auto simp: setpgid_group_def split: bind_splits if_splits)
    then obtain se where se: "sessions st (session tg) = Some se" by (auto simp: new_group_def split: bind_splits)
    have k: "member_ok s1" "processes s1 = processes st"
      "groups s1 = (groups st)(fresh \<mapsto> \<lparr>session = session tg, leader_process = target, process_list = []\<rparr>)"
      using new_group_ok[OF assms(1,2) se, of target] n by auto
    have "session_of q s1 = session_of q st" if q: "processes st q \<noteq> None" for q
    proof -
      obtain qr where qr: "processes st q = Some qr" using q by blast
      obtain h x where "group qr = Some h" "groups st h = Some x" using member_group[OF assms(1) qr] by blast
      then show ?thesis using qr assms(2) k by (auto simp: session_of_def group_of_def)
    qed
    then show ?thesis using k n(2) by simp
  qed
  then obtain gr where gr: "groups s1 g = Some gr" "session gr = session tg" by blast
  have pr1: "processes s1 target = Some pr" using s1 pr by simp
  note se = add_process_session[OF conjunct1[OF s1] pr1 gr(1) a(1)]
  have "member_ok st'" by (rule add_process_member_ok[OF conjunct1[OF s1] pr1 _ a(1)]) (simp add: gr)
  moreover have rest: "processes st' q = processes st q" if "q \<noteq> target" for q
    using that a(1) add_process_eq[OF conjunct1[OF s1] pr1, of g] gr(1) s1 by auto
  moreover have "session_of target st = Some (session tg)" using tg by (simp add: session_of_def)
  then have "\<forall>q. processes st q \<noteq> None \<longrightarrow> session_of q st' = session_of q st" using se gr(2) s1 by auto
  moreover have "session_leader target st \<noteq> Some target" using ld by simp
  ultimately show ?thesis using who pr a(2) by blast
qed

theorem setpgid_stays_in_session_witness:
  "\<exists>st'. syscall_setpgid 9 2 0 0 example_groups = Some (Inr (), st') \<and> session_of 2 st' = session_of 2 example_groups \<and>
     map_option process_list (groups st' 9) = Some [2]"
proof -
  obtain st' where run: "syscall_setpgid 9 2 0 0 example_groups = Some (Inr (), st')"
    and g: "map_option process_list (groups st' 9) = Some [2]"
    by (simp add: syscall_setpgid_def setpgid_target_def setpgid_group_def session_leader_def group_of_def process_of_def
        new_group_def add_process_def upd_proc_def example_groups_def example_thread_def)
  then show ?thesis using setpgid_stays_in_session[OF example_groups_ok(1) _ run]
    by (auto simp: example_groups_def)
qed

end
