(* ===== verification/Userland_Signal.thy ===== *)
theory Userland_Signal
  imports Sched_Lifecycle
begin

text \<open>
  Signals: \<^verbatim>\<open>userland/signal.cpp\<close>, the saved contexts of \<^verbatim>\<open>sched/context.cpp\<close>, the end of
  \<^verbatim>\<open>__syscall_handler\<close> (\<^verbatim>\<open>cpu/syscall/syscall.cpp\<close>) that notices pending signals, and
  \<^verbatim>\<open>scheduler_isr\<close> (\<^verbatim>\<open>sched/sched.cpp\<close>) with the registers it saves and loads. The state is the
  scheduler's together with, per thread, the registers and the signal stack, and the signal frames
  that lie in user memory, by address. \<open>fs\<close> is \<^verbatim>\<open>sizeof(SignalFrame)\<close> (it depends on the C library's
  headers) and \<open>xs\<close> is \<^verbatim>\<open>cpu::extended_state_size\<close>, which the processor reports at boot.
\<close>

section \<open>Contexts\<close>

record regs =
  r15 :: u64
  r14 :: u64
  r13 :: u64
  r12 :: u64
  r11 :: u64
  r10 :: u64
  r9 :: u64
  r8 :: u64
  rbp :: u64
  rdi :: u64
  rsi :: u64
  rdx :: u64
  rcx :: u64
  rbx :: u64
  rax :: u64
  err :: u64
  rip :: u64
  cs :: u64
  rflags :: u64
  rsp :: u64

record sigcontext =
  m_r15 :: u64
  m_r14 :: u64
  m_r13 :: u64
  m_r12 :: u64
  m_r11 :: u64
  m_r10 :: u64
  m_r9 :: u64
  m_r8 :: u64
  m_rbp :: u64
  m_rdi :: u64
  m_rsi :: u64
  m_rdx :: u64
  m_rcx :: u64
  m_rbx :: u64
  m_rax :: u64
  m_rip :: u64
  m_rsp :: u64
  m_eflags :: u64
  m_fpstate :: "u8 list"

definition to_ucontext :: "regs \<Rightarrow> u8 list \<Rightarrow> sigcontext" where
  "to_ucontext g ext = \<lparr>m_r15 = r15 g, m_r14 = r14 g, m_r13 = r13 g, m_r12 = r12 g, m_r11 = r11 g, m_r10 = r10 g,
     m_r9 = r9 g, m_r8 = r8 g, m_rbp = rbp g, m_rdi = rdi g, m_rsi = rsi g, m_rdx = rdx g, m_rcx = rcx g,
     m_rbx = rbx g, m_rax = rax g, m_rip = rip g, m_rsp = rsp g, m_eflags = rflags g, m_fpstate = ext\<rparr>"

definition from_ucontext :: "sigcontext \<Rightarrow> regs \<Rightarrow> regs \<times> u8 list" where
  "from_ucontext m g = (g\<lparr>r15 := m_r15 m, r14 := m_r14 m, r13 := m_r13 m, r12 := m_r12 m, r11 := m_r11 m,
     r10 := m_r10 m, r9 := m_r9 m, r8 := m_r8 m, rbp := m_rbp m, rdi := m_rdi m, rsi := m_rsi m, rdx := m_rdx m,
     rcx := m_rcx m, rbx := m_rbx m, rax := m_rax m, rip := m_rip m, rsp := m_rsp m, rflags := m_eflags m\<rparr>, m_fpstate m)"

record altstack =
  ss_sp :: uptr
  ss_flags :: u32
  ss_size :: usize

record sig_siginfo =
  sg_signo :: int
  sg_errno :: "errno option"
  sg_code :: int
  sg_addr :: uptr
  sg_pid :: nat

record signal_frame =
  f_restorer :: uptr
  f_mcontext :: sigcontext
  f_fpstate :: uptr
  f_sigmask :: u64
  f_siginfo :: sig_siginfo

text \<open>The fields of \<^verbatim>\<open>Thread\<close> that signal delivery uses and \<open>Sched_Core\<close> does not.\<close>

record sigthread =
  gpr_state :: regs
  extended_state :: "u8 list"
  signal_alt_stack :: altstack
  signal_frame_ptr :: "uptr option"
  poll_saved_signal_mask :: u64
  has_poll_saved_signal_mask :: bool
  last_syscall_num :: u64
  last_syscall_rip :: u64
  last_syscall_ret :: u64

record sigstate =
  sch :: sched
  sigt :: "nat \<Rightarrow> sigthread"
  frames :: "uptr \<Rightarrow> signal_frame option"

definition upd_sigt :: "nat \<Rightarrow> (sigthread \<Rightarrow> sigthread) \<Rightarrow> sigstate \<Rightarrow> sigstate" where
  "upd_sigt t f S = S\<lparr>sigt := (sigt S)(t := f (sigt S t))\<rparr>"

definition on_sched :: "(sched \<Rightarrow> sched option) \<Rightarrow> sigstate \<Rightarrow> sigstate option" where
  "on_sched f S = do { s \<leftarrow> f (sch S); Some (S\<lparr>sch := s\<rparr>) }"

section \<open>Numbers and flags\<close>

definition SA_ONSTACK :: u64 where "SA_ONSTACK = 0x08000000"
definition SA_RESTART :: u64 where "SA_RESTART = 0x10000000"
definition SA_NODEFER :: u64 where "SA_NODEFER = 0x40000000"
definition SA_RESETHAND :: u64 where "SA_RESETHAND = 0x80000000"
definition SS_ONSTACK :: u32 where "SS_ONSTACK = 1"
definition SS_DISABLE :: u32 where "SS_DISABLE = 2"
definition SEGV_MAPERR :: int where "SEGV_MAPERR = 1"
definition SEGV_ACCERR :: int where "SEGV_ACCERR = 2"
definition SI_TKILL :: int where "SI_TKILL = - 6"

lemmas sa_flag_defs = SA_ONSTACK_def SA_RESTART_def SA_NODEFER_def SA_RESETHAND_def SS_ONSTACK_def SS_DISABLE_def

datatype signal_default = IGNORE | TERMINATE | CORE | CONTINUE | STOP

text \<open>The signals by number, as in the switch of \<^verbatim>\<open>signal_default_action\<close>.\<close>

definition signal_default_action :: "int \<Rightarrow> signal_default" where
  "signal_default_action s =
     (if s \<in> {6, 7, 8, 4, 3, 11, 31, 5, 24, 25} then CORE
      else if s \<in> {14, 1, 2, 29, 9, 13, 27, 30, 16, 15, 10, 12, 26} then TERMINATE
      else if s \<in> {17, 23, 28} then IGNORE
      else if s = 18 then CONTINUE
      else if s \<in> {19, 20, 21, 22} then STOP
      else CORE)"

section \<open>Delivery\<close>

text \<open>The search for the lowest accepted signal.\<close>

definition lowest_signal :: "u64 \<Rightarrow> int" where
  "lowest_signal accepted =
     (case find (\<lambda>i. drop_bit i accepted AND 1 \<noteq> 0) [0..<64] of Some i \<Rightarrow> int i + 1 | None \<Rightarrow> - 1)"

text \<open>Where the frame goes: the stack pointer to build on, then the aligned place below it.\<close>

definition frame_base :: "sigaction \<Rightarrow> altstack \<Rightarrow> uptr \<Rightarrow> uptr \<times> altstack" where
  "frame_base action alt sp =
     (if sa_flags action AND SA_ONSTACK \<noteq> 0 \<and> ss_flags alt AND SS_DISABLE = 0
      then (ss_sp alt + ss_size alt, alt\<lparr>ss_flags := ss_flags alt OR SS_ONSTACK\<rparr>)
      else (sp - 128, alt))"

definition place_frame :: "usize \<Rightarrow> usize \<Rightarrow> uptr \<Rightarrow> uptr" where
  "place_frame fs xs base = align_down (align_down (base - xs) 64 - fs) 16 - 8"

definition place_fpstate :: "usize \<Rightarrow> uptr \<Rightarrow> uptr" where
  "place_fpstate fs frame = align_up (frame + fs) 64"

definition make_siginfo :: "int \<Rightarrow> u64 \<Rightarrow> uptr \<Rightarrow> nat \<Rightarrow> sig_siginfo" where
  "make_siginfo signal error cr2 pid =
     (if signal = SIGSEGV
      then \<lparr>sg_signo = signal, sg_errno = Some EFAULT, sg_code = (if error AND 1 \<noteq> 0 then SEGV_ACCERR else SEGV_MAPERR),
            sg_addr = cr2, sg_pid = 0\<rparr>
      else if signal = 33
      then \<lparr>sg_signo = signal, sg_errno = None, sg_code = SI_TKILL, sg_addr = 0, sg_pid = pid\<rparr>
      else \<lparr>sg_signo = signal, sg_errno = None, sg_code = 0, sg_addr = 0, sg_pid = 0\<rparr>)"

text \<open>
  The last part of \<^verbatim>\<open>dispatch_pending_signal\<close>, entering a handler: the frame is written, the
  registers are set for the call \<^verbatim>\<open>handler(signal, &siginfo, &ucontext)\<close> and the mask is widened.
  The handler is read from the action after \<^verbatim>\<open>SA_RESETHAND\<close> has reset it, as in the code. The
  addresses of the siginfo and the ucontext are offsets \<open>so\<close> and 8 into the frame.
\<close>

definition enter_handler :: "usize \<Rightarrow> usize \<Rightarrow> usize \<Rightarrow> uptr \<Rightarrow> nat \<Rightarrow> int \<Rightarrow> sigstate \<Rightarrow> sigstate option" where
  "enter_handler fs so xs cr2 t signal S =
     do { th \<leftarrow> thread_table (sch S) t;
          pr \<leftarrow> processes (sch S) (process th);
          let action = signal_actions pr signal;
          let action' = (if sa_flags action AND SA_RESETHAND \<noteq> 0 then action\<lparr>handler := SIG_DFL\<rparr> else action);
          let st = sigt S t;
          let g = gpr_state st;
          let (base, alt) = frame_base action' (signal_alt_stack st) (rsp g);
          let frame = place_frame fs xs base;
          let ctx = (to_ucontext (g\<lparr>rsp := frame\<rparr>) (extended_state st))\<lparr>m_rsp := rsp g\<rparr>;
          let fr = \<lparr>f_restorer = restorer action', f_mcontext = ctx, f_fpstate = place_fpstate fs frame,
                    f_sigmask = signal_mask th, f_siginfo = make_siginfo signal (err g) cr2 (process th)\<rparr>;
          let g' = g\<lparr>rsp := frame, rip := handler action', rdi := word_of_int signal, rsi := frame + so, rdx := frame + 8,
                     rax := 0, rflags := rflags g AND NOT (push_bit 8 1) AND NOT (push_bit 10 1) AND NOT (push_bit 16 1)\<rparr>;
          let S = upd_sigt t (\<lambda>x. x\<lparr>gpr_state := g', signal_alt_stack := alt\<rparr>) (S\<lparr>frames := (frames S)(frame \<mapsto> fr)\<rparr>);
          S \<leftarrow> on_sched (upd_proc (process th) (\<lambda>p. p\<lparr>signal_actions := (signal_actions p)(signal := action')\<rparr>)) S;
          on_sched (upd_thread t (\<lambda>th. th\<lparr>signal_mask :=
              (let m = signal_mask th OR sa_mask action'
               in if sa_flags action' AND SA_NODEFER = 0 then m OR get_signal_bit signal else m)\<rparr>)) S }"

text \<open>
  \<^verbatim>\<open>dispatch_pending_signal\<close>. The array of actions has 64 entries; the constant \<open>4\<close> is \<^verbatim>\<open>EINTR\<close>.
\<close>

definition restart_syscall :: "sigaction \<Rightarrow> sigthread \<Rightarrow> sigthread" where
  "restart_syscall action st =
     (let g = gpr_state st in
      if sa_flags action AND SA_RESTART \<noteq> 0 \<and> last_syscall_ret st = - 4 \<and> rip g = last_syscall_rip st
      then st\<lparr>gpr_state := g\<lparr>rip := rip g - 2, rax := last_syscall_num st\<rparr>\<rparr> else st)"

definition take_action :: "usize \<Rightarrow> usize \<Rightarrow> usize \<Rightarrow> uptr \<Rightarrow> nat \<Rightarrow> int \<Rightarrow> sigstate \<Rightarrow> sigstate option" where
  "take_action fs so xs cr2 t signal S =
     do { th \<leftarrow> thread_table (sch S) t;
          pr \<leftarrow> processes (sch S) (process th);
          let action = signal_actions pr signal;
          if handler action = SIG_IGN then Some S
          else if handler action = SIG_DFL
          then (case signal_default_action signal of
                  IGNORE \<Rightarrow> Some S
                | TERMINATE \<Rightarrow> on_sched (terminate_process (process th) signal) S
                | CORE \<Rightarrow> on_sched (terminate_process (process th) signal) S
                | CONTINUE \<Rightarrow> Some S
                | STOP \<Rightarrow> on_sched (dequeue_thread t signal) S)
          else if restorer action = 0 then on_sched (terminate_process (process th) signal) S
          else enter_handler fs so xs cr2 t signal S }"

definition dispatch_pending_signal :: "usize \<Rightarrow> usize \<Rightarrow> usize \<Rightarrow> uptr \<Rightarrow> nat \<Rightarrow> sigstate \<Rightarrow> sigstate option" where
  "dispatch_pending_signal fs so xs cr2 t S =
     do { S \<leftarrow> on_sched (upd_thread t (\<lambda>th. th\<lparr>entering_signal := False, enqueued_by_signal := - 1\<rparr>)) S;
          th \<leftarrow> thread_table (sch S) t;
          pr \<leftarrow> processes (sch S) (process th);
          let accepted = pending_signals th AND NOT (signal_mask th);
          if accepted = 0 then Some S
          else do {
            let signal = lowest_signal accepted;
            if signal = - 1 \<or> signal \<ge> 64 then None
            else do {
              S \<leftarrow> on_sched (upd_thread t (\<lambda>th. th\<lparr>pending_signals := pending_signals th AND NOT (get_signal_bit signal)\<rparr>)) S;
              let S = upd_sigt t (restart_syscall (signal_actions pr signal)) S;
              take_action fs so xs cr2 t signal S } } }"

section \<open>Returning\<close>

text \<open>\<^verbatim>\<open>rt_sigreturn\<close>, called with the user stack pointer \<open>usp\<close>, and \<^verbatim>\<open>return_from_signal\<close>.\<close>

definition syscall_rt_sigreturn :: "nat \<Rightarrow> uptr \<Rightarrow> sigstate \<Rightarrow> sigstate option" where
  "syscall_rt_sigreturn t usp S =
     do { th \<leftarrow> thread_table (sch S) t;
          if entering_signal th \<or> exiting_signal th then None
          else do {
            S \<leftarrow> on_sched (upd_thread t (\<lambda>th. th\<lparr>exiting_signal := True\<rparr>)) S;
            Some (upd_sigt t (\<lambda>x. x\<lparr>signal_frame_ptr := Some (usp - 8)\<rparr>) S) } }"

definition return_from_signal :: "nat \<Rightarrow> sigstate \<Rightarrow> sigstate option" where
  "return_from_signal t S =
     do { let st = sigt S t;
          frame \<leftarrow> signal_frame_ptr st;
          fr \<leftarrow> frames S frame;
          let (g, ext) = from_ucontext (f_mcontext fr) (gpr_state st);
          let alt = signal_alt_stack st;
          let alt' = (if ss_flags alt AND SS_ONSTACK \<noteq> 0 then alt\<lparr>ss_flags := ss_flags alt AND NOT SS_ONSTACK\<rparr> else alt);
          let new_mask = (if has_poll_saved_signal_mask st then poll_saved_signal_mask st else f_sigmask fr);
          let S = upd_sigt t (\<lambda>x. x\<lparr>gpr_state := g, extended_state := ext, signal_alt_stack := alt', signal_frame_ptr := None,
                                     has_poll_saved_signal_mask := False\<rparr>) S;
          S \<leftarrow> on_sched (upd_thread t (\<lambda>th. th\<lparr>exiting_signal := False, signal_mask := new_mask\<rparr>)) S;
          on_sched (\<lambda>s. map_option snd (trigger (SignalReturnEvent t) True 0x7fffffff s)) S }"

section \<open>System calls\<close>

definition SIG_BLOCK :: int where "SIG_BLOCK = 0"
definition SIG_UNBLOCK :: int where "SIG_UNBLOCK = 1"
definition SIG_SETMASK :: int where "SIG_SETMASK = 2"

text \<open>The new mask and the old one; \<open>None\<close> is a null pointer.\<close>

definition syscall_rt_sigprocmask :: "int \<Rightarrow> u64 option \<Rightarrow> u64 \<Rightarrow> u64 res" where
  "syscall_rt_sigprocmask how new m =
     (case new of
        None \<Rightarrow> Inr m
      | Some s \<Rightarrow> if how = SIG_BLOCK then Inr (m OR s)
                  else if how = SIG_UNBLOCK then Inr (m AND NOT s)
                  else if how = SIG_SETMASK then Inr s
                  else Inl EINVAL)"

definition syscall_rt_sigaction :: "int \<Rightarrow> sigaction option \<Rightarrow> proc \<Rightarrow> sigaction res \<times> proc" where
  "syscall_rt_sigaction signum act pr =
     (if signum \<le> 0 \<or> signum \<ge> 64 \<or> signum = SIGKILL \<or> signum = SIGSTOP then (Inl EINVAL, pr)
      else (Inr (signal_actions pr signum),
            (case act of
               None \<Rightarrow> pr
             | Some a \<Rightarrow> pr\<lparr>signal_actions := (signal_actions pr)(signum := a\<lparr>sa_flags := sa_flags a AND 0xFFFFFFFF\<rparr>)\<rparr>)))"

definition syscall_sigaltstack :: "altstack option \<Rightarrow> altstack \<Rightarrow> unit res \<times> altstack" where
  "syscall_sigaltstack new alt =
     (case new of
        None \<Rightarrow> (Inr (), alt)
      | Some n \<Rightarrow>
          if ss_flags n AND 0x80000000 \<noteq> 0 then (Inl EINVAL, alt)
          else if ss_flags n = SS_DISABLE then (Inr (), \<lparr>ss_sp = 0, ss_flags = SS_DISABLE, ss_size = 0\<rparr>)
          else if ss_flags n = 0 then (Inr (), n)
          else (Inl EINVAL, alt))"

definition kill_target :: "nat \<Rightarrow> int \<Rightarrow> sched \<Rightarrow> (bool \<times> int) option" where
  "kill_target t pid st =
     (if pid < 0 then Some (True, - pid)
      else if pid = 0
      then do { th \<leftarrow> thread_table st t; pr \<leftarrow> processes st (process th); g \<leftarrow> group pr; gr \<leftarrow> groups st g;
                Some (True, int (leader_process gr)) }
      else Some (False, pid))"

definition syscall_kill :: "nat \<Rightarrow> int \<Rightarrow> int \<Rightarrow> sched \<Rightarrow> (unit res \<times> sched) option" where
  "syscall_kill t pid signal st =
     (if signal < 0 \<or> signal \<ge> 64 then Some (Inl EINVAL, st)
      else do {
        (to_group, pid) \<leftarrow> kill_target t pid st;
        case get_from_tid pid st of
          None \<Rightarrow> Some (Inl ESRCH, st)
        | Some th \<Rightarrow>
            if state th = ZOMBIE then Some (Inl ESRCH, st)
            else do {
              pr \<leftarrow> processes st (process th);
              g \<leftarrow> (if to_group then group pr else Some 0);
              leads \<leftarrow> (if to_group then do { gr \<leftarrow> groups st g; Some (leader_process gr = process th) } else Some True);
              if \<not> leads then Some (Inl ESRCH, st)
              else if signal = 0 then Some (Inr (), st)
              else do {
                st \<leftarrow> (if to_group then group_send_signal g signal st else send_signal (nat pid) signal st);
                Some (Inr (), st) } } })"

definition syscall_tgkill :: "int \<Rightarrow> int \<Rightarrow> int \<Rightarrow> sched \<Rightarrow> (unit res \<times> sched) option" where
  "syscall_tgkill pid tid signal st =
     (if signal < 0 \<or> signal \<ge> 64 then Some (Inl EINVAL, st)
      else case get_from_tid tid st of
        None \<Rightarrow> Some (Inl ESRCH, st)
      | Some th \<Rightarrow>
          if state th = ZOMBIE then Some (Inl ESRCH, st)
          else if int (process th) \<noteq> pid then Some (Inl ESRCH, st)
          else if signal = 0 then Some (Inr (), st)
          else do { st \<leftarrow> send_signal (nat tid) signal st; Some (Inr (), st) })"

text \<open>
  The end of \<^verbatim>\<open>__syscall_handler\<close> with the result \<open>ret\<close>: whether the thread reschedules itself to
  take a signal.
\<close>

definition syscall_end :: "nat \<Rightarrow> u64 \<Rightarrow> sigstate \<Rightarrow> (bool \<times> sigstate) option" where
  "syscall_end t ret S =
     do { let st = sigt S t;
          S \<leftarrow> (if has_poll_saved_signal_mask st
                then on_sched (upd_thread t (\<lambda>th. th\<lparr>signal_mask := poll_saved_signal_mask st\<rparr>)) S else Some S);
          let S = upd_sigt t (\<lambda>x. x\<lparr>has_poll_saved_signal_mask := False, last_syscall_ret := ret\<rparr>) S;
          th \<leftarrow> thread_table (sch S) t;
          if \<not> exiting_signal th \<and> \<not> entering_signal th \<and> has_pending_signals th
          then do { S \<leftarrow> on_sched (upd_thread t (\<lambda>th. th\<lparr>entering_signal := True\<rparr>)) S; Some (True, S) }
          else Some (False, S) }"

section \<open>The scheduler interrupt\<close>

text \<open>
  One pass of \<^verbatim>\<open>scheduler_isr\<close> up to the test for a retry: the live registers \<open>live\<close> go into the
  thread \<open>current\<close>, the next thread is chosen, a signal is delivered to it or returned from.
\<close>

definition isr_pass :: "usize \<Rightarrow> usize \<Rightarrow> usize \<Rightarrow> uptr \<Rightarrow> nat option \<Rightarrow> regs \<Rightarrow> u8 list \<Rightarrow> sigstate \<Rightarrow> (nat \<times> sigstate) option" where
  "isr_pass fs so xs cr2 current live lext S =
     do { S \<leftarrow> (case current of
                  None \<Rightarrow> Some S
                | Some c \<Rightarrow>
                    on_sched (upd_thread c (\<lambda>th. if state th = RUNNING then th\<lparr>state := READY\<rparr> else th))
                      (upd_sigt c (\<lambda>x. x\<lparr>gpr_state := live, extended_state := lext\<rparr>) S));
          let t = pick_next current (sch S);
          th \<leftarrow> thread_table (sch S) t;
          if state th = BLOCKED \<or> state th = ZOMBIE then None
          else do {
            S \<leftarrow> (if enqueued_by_signal th = SIGCONT \<and> state th = STOPPED
                  then on_sched (\<lambda>s. do { s \<leftarrow> upd_thread t (\<lambda>th. th\<lparr>state := READY\<rparr>) s;
                         s \<leftarrow> upd_proc (process th) (\<lambda>p. p\<lparr>wait_status := SIGCONT, wait_code := CLD_CONTINUED\<rparr>) s;
                         trigger_all (ContinuedEvent (process th)) s }) S
                  else Some S);
            S \<leftarrow> (if cs (gpr_state (sigt S t)) AND 3 = 3
                  then (if entering_signal th then dispatch_pending_signal fs so xs cr2 t S
                        else if exiting_signal th then return_from_signal t S else Some S)
                  else Some S);
            th \<leftarrow> thread_table (sch S) t;
            S \<leftarrow> on_sched (\<lambda>s. upd_thread t (\<lambda>th. th\<lparr>set_child_tid := 0\<rparr>)
                      (if set_child_tid th \<noteq> 0 then s\<lparr>effects := effects s @ [StoreTid (set_child_tid th) t]\<rparr> else s)) S;
            Some (t, S) } }"

text \<open>The whole interrupt: the thread that runs next and the registers that are loaded.\<close>

partial_function (option) scheduler_isr ::
  "usize \<Rightarrow> usize \<Rightarrow> usize \<Rightarrow> uptr \<Rightarrow> nat option \<Rightarrow> regs \<Rightarrow> u8 list \<Rightarrow> sigstate \<Rightarrow> (nat \<times> regs \<times> sigstate) option" where
  "scheduler_isr fs so xs cr2 current live lext S =
     do { (t, S) \<leftarrow> isr_pass fs so xs cr2 current live lext S;
          th \<leftarrow> thread_table (sch S) t;
          if state th = ZOMBIE \<or> state th = STOPPED then scheduler_isr fs so xs cr2 (Some t) live lext S
          else do { S \<leftarrow> on_sched (upd_thread t (\<lambda>th. th\<lparr>state := RUNNING\<rparr>)) S;
                    Some (t, gpr_state (sigt S t), S) } }"


section \<open>Choice of the signal\<close>

lemma find_upt_Some:
  "find P [0..<n] = Some i \<longleftrightarrow> i < n \<and> P i \<and> (\<forall>j<i. \<not> P j)"
proof -
  have "find P [0..<n] = Some i \<longleftrightarrow> (\<exists>k<n. P k \<and> i = k \<and> (\<forall>j<k. \<not> P j))"
    by (auto simp: find_Some_iff)
  then show ?thesis by auto
qed

lemma drop_bit_and_one: "drop_bit i (x :: u64) AND 1 \<noteq> 0 \<longleftrightarrow> bit x i"
  by (simp add: and_one_eq bit_iff_odd_drop_bit mod_2_eq_odd)

lemma lowest_signal_spec:
  assumes "accepted \<noteq> 0"
  shows "\<exists>i<64. lowest_signal accepted = int i + 1 \<and> bit accepted i \<and> (\<forall>j<i. \<not> bit accepted j)"
proof -
  obtain n where n: "bit accepted n" using assms by (auto simp: bit_eq_iff)
  then have "n < 64" using bit_imp_le_length by fastforce
  then have "find (\<lambda>i. drop_bit i accepted AND 1 \<noteq> 0) [0..<64] \<noteq> None"
    using n by (auto simp: find_None_iff drop_bit_and_one)
  then obtain i where i: "find (\<lambda>i. drop_bit i accepted AND 1 \<noteq> 0) [0..<64] = Some i" by blast
  then have "lowest_signal accepted = int i + 1" by (simp add: lowest_signal_def)
  then show ?thesis using i unfolding find_upt_Some drop_bit_and_one by blast
qed

section \<open>The signal frame\<close>

lemma align_down_bounds:
  assumes "a \<noteq> 0"
  shows "unat (align_down i a) \<le> unat i" "unat i < unat (align_down i a) + unat a" "unat (align_down i a) mod unat a = 0"
proof -
  have u: "unat (align_down i a) = unat i div unat a * unat a" by (rule unat_align_down[OF assms])
  then show "unat (align_down i a) mod unat a = 0" "unat (align_down i a) \<le> unat i" by simp_all
  have "0 < unat a" using assms by (simp add: unat_gt_0)
  then have "unat i mod unat a < unat a" by simp
  then show "unat i < unat (align_down i a) + unat a" unfolding u using div_mult_mod_eq[of "unat i" "unat a"] by linarith
qed




section \<open>Delivery and return\<close>

lemma trigger_drop_total:
  assumes "queue_ok st" "events_ok st"
  shows "\<exists>k st'. trigger e True m st = Some (k, st') \<and> (\<forall>t. map_option signal_mask (thread_table st' t) = map_option signal_mask (thread_table st t))"
proof -
  have "thread_table st t \<noteq> None" if l: "(t, w) \<in> set (listener_list (events st e))" for t w
  proof -
    have "(e, w) \<in> set (listens st t)" using assms(2) l by (simp add: events_ok_def)
    then show ?thesis by (cases "thread_table st t") (auto simp: listens_def)
  qed
  then have ls: "\<forall>(t, w)\<in>set (listener_list (events st e)). thread_table st t \<noteq> None" by blast
  have keep: "wake_listeners ls m n s = Some (k, s') \<Longrightarrow> map_option signal_mask (thread_table s' t) = map_option signal_mask (thread_table s t)"
    for ls m n s k s' t
  proof (induction ls m n s arbitrary: k s' rule: wake_listeners.induct)
    case (2 u which rest m n s)
    from "2.prems" obtain s1 s2 where
      s: "upd_thread u (\<lambda>th. th\<lparr>which_event := which\<rparr>) s = Some s1" "enqueue_thread u (- 1) s1 = Some s2"
      and r: "(if n + 1 \<ge> m then Some (n + 1, s2) else wake_listeners rest m (n + 1) s2) = Some (k, s')"
      by (auto split: bind_splits)
    have "map_option signal_mask (thread_table s2 t) = map_option signal_mask (thread_table s t)"
      using s by (auto simp: upd_thread_def enqueue_thread_def split: bind_splits if_splits)
    then show ?case using r "2.IH"[OF s] by (cases "n + 1 \<ge> m") auto
  qed simp
  show ?thesis
  proof (cases "num_listeners (events st e) = 0")
    case False
    from wake_total[OF assms(1) ls, where m = m and n = 0] keep show ?thesis using False by (fastforce simp: trigger_def)
  qed (simp add: trigger_def)
qed

lemma from_to_ucontext:
  assumes "cs g' = cs g" "err g' = err g"
  shows "from_ucontext ((to_ucontext (g\<lparr>rsp := x\<rparr>) ext)\<lparr>m_rsp := rsp g\<rparr>) g' = (g, ext)"
  using assms by (simp add: from_ucontext_def to_ucontext_def)

lemma enter_handler_frame:
  assumes "enter_handler fs so xs cr2 t signal S = Some S'"
  shows "\<exists>th fr. thread_table (sch S) t = Some th \<and> frames S' (rsp (gpr_state (sigt S' t))) = Some fr \<and>
           f_mcontext fr = (to_ucontext ((gpr_state (sigt S t))\<lparr>rsp := rsp (gpr_state (sigt S' t))\<rparr>) (extended_state (sigt S t)))\<lparr>m_rsp := rsp (gpr_state (sigt S t))\<rparr> \<and>
           f_sigmask fr = signal_mask th"
  using assms
  by (auto simp: enter_handler_def Let_def on_sched_def upd_sigt_def split: bind_splits prod.splits)

text \<open>
  C10: Returning from a handler restores the interrupted thread. Whatever the handler does, if it
  leaves its signal frame as it was and calls \<^verbatim>\<open>rt_sigreturn\<close> with the stack pointer just above the
  restorer's slot, the thread gets back every saved register, the extended state and the signal mask
  it had when the signal was delivered.
\<close>

theorem signal_round_trip:
  assumes "enter_handler fs so xs cr2 t signal S = Some S'"
    and "frame = rsp (gpr_state (sigt S' t))" "frames S1 frame = frames S' frame"
    and "thread_table (sch S1) t = Some th1" "\<not> entering_signal th1" "\<not> exiting_signal th1"
    and "cs (gpr_state (sigt S1 t)) = cs (gpr_state (sigt S t))" "err (gpr_state (sigt S1 t)) = err (gpr_state (sigt S t))"
    and "\<not> has_poll_saved_signal_mask (sigt S1 t)" "queue_ok (sch S1)" "events_ok (sch S1)"
  shows "\<exists>S2 S3. syscall_rt_sigreturn t (frame + 8) S1 = Some S2 \<and> return_from_signal t S2 = Some S3 \<and>
           gpr_state (sigt S3 t) = gpr_state (sigt S t) \<and> extended_state (sigt S3 t) = extended_state (sigt S t) \<and>
           map_option signal_mask (thread_table (sch S3) t) = map_option signal_mask (thread_table (sch S) t)"
proof -
  obtain th fr where fr: "thread_table (sch S) t = Some th" "frames S1 frame = Some fr" "f_sigmask fr = signal_mask th"
    "f_mcontext fr = (to_ucontext ((gpr_state (sigt S t))\<lparr>rsp := frame\<rparr>) (extended_state (sigt S t)))\<lparr>m_rsp := rsp (gpr_state (sigt S t))\<rparr>"
    using enter_handler_frame[OF assms(1)] assms(2,3) by auto
  define S2 where "S2 = upd_sigt t (\<lambda>x. x\<lparr>signal_frame_ptr := Some frame\<rparr>)
      (S1\<lparr>sch := sch S1\<lparr>thread_table := (thread_table (sch S1))(t \<mapsto> th1\<lparr>exiting_signal := True\<rparr>)\<rparr>\<rparr>)"
  have r: "syscall_rt_sigreturn t (frame + 8) S1 = Some S2"
    using assms(4-6) by (simp add: syscall_rt_sigreturn_def on_sched_def upd_thread_def S2_def)
  have ctx: "from_ucontext (f_mcontext fr) (gpr_state (sigt S1 t)) = (gpr_state (sigt S t), extended_state (sigt S t))"
    unfolding fr(4) by (rule from_to_ucontext[OF assms(7,8)])
  define s3 where "s3 = sch S1\<lparr>thread_table := (thread_table (sch S1))(t \<mapsto> th1\<lparr>exiting_signal := False, signal_mask := signal_mask th\<rparr>)\<rparr>"
  have "queue_ok s3" "events_ok s3"
    using assms(4) queue_ok_same[OF _ assms(10), of s3] events_ok_same[OF assms(11), of s3]
    by (simp_all add: s3_def same_queue_def listens_def)
  then obtain k s4 where s4: "trigger (SignalReturnEvent t) True 0x7fffffff s3 = Some (k, s4)"
    "map_option signal_mask (thread_table s4 t) = map_option signal_mask (thread_table s3 t)"
    using trigger_drop_total[of s3 "SignalReturnEvent t" "0x7fffffff"] by blast
  show ?thesis
  proof (intro exI conjI)
    show "syscall_rt_sigreturn t (frame + 8) S1 = Some S2" by (rule r)
    let ?alt = "let alt = signal_alt_stack (sigt S1 t) in
        if ss_flags alt AND SS_ONSTACK \<noteq> 0 then alt\<lparr>ss_flags := ss_flags alt AND NOT SS_ONSTACK\<rparr> else alt"
    show "return_from_signal t S2 = Some (S1\<lparr>sch := s4, sigt := (sigt S1)(t := (sigt S1 t)\<lparr>gpr_state := gpr_state (sigt S t),
        extended_state := extended_state (sigt S t), signal_alt_stack := ?alt, signal_frame_ptr := None,
        has_poll_saved_signal_mask := False\<rparr>)\<rparr>)"
      using fr(2,3) ctx s4(1) assms(9)
      by (simp add: return_from_signal_def S2_def upd_sigt_def on_sched_def upd_thread_def s3_def Let_def)
  qed (use s4(2) fr(1) in \<open>simp_all add: s3_def\<close>)
qed


text \<open>A handler's frame and return, on a process with a handler for \<^verbatim>\<open>SIGUSR1\<close>.\<close>

definition example_regs :: regs where
  "example_regs = \<lparr>r15 = 15, r14 = 14, r13 = 13, r12 = 12, r11 = 11, r10 = 10, r9 = 9, r8 = 8, rbp = 7, rdi = 6, rsi = 5,
     rdx = 4, rcx = 3, rbx = 2, rax = 1, err = 0, rip = 0x400000, cs = 0x23, rflags = 0x202, rsp = 0x7ffffff000\<rparr>"

definition example_action :: sigaction where
  "example_action = \<lparr>handler = 0x401000, sa_flags = 0x4000000, restorer = 0x402000, sa_mask = 0\<rparr>"

definition example_sigthread :: sigthread where
  "example_sigthread = \<lparr>gpr_state = example_regs, extended_state = [1, 2, 3],
     signal_alt_stack = \<lparr>ss_sp = 0, ss_flags = SS_DISABLE, ss_size = 0\<rparr>, signal_frame_ptr = None,
     poll_saved_signal_mask = 0, has_poll_saved_signal_mask = False, last_syscall_num = 0, last_syscall_rip = 0, last_syscall_ret = 0\<rparr>"

definition example_sig :: "sigaction \<Rightarrow> sigstate" where
  "example_sig act = \<lparr>sch = example_tree\<lparr>processes := (processes example_tree)
       (2 \<mapsto> (example_proc [2, 3] 1 [4])\<lparr>signal_actions := (\<lambda>_. act)\<rparr>)\<rparr>,
     sigt = (\<lambda>_. example_sigthread), frames = Map.empty\<rparr>"

lemma example_sig_ok: "queue_ok (sch (example_sig act))" "events_ok (sch (example_sig act))"
  using example_tree_ok by (simp_all add: example_sig_def queue_ok_def events_ok_def listens_def)

theorem signal_round_trip_witness:
  "\<exists>S' S2 S3. enter_handler 440 312 832 0 2 10 (example_sig example_action) = Some S' \<and>
     rip (gpr_state (sigt S' 2)) = 0x401000 \<and>
     syscall_rt_sigreturn 2 (rsp (gpr_state (sigt S' 2)) + 8) S' = Some S2 \<and> return_from_signal 2 S2 = Some S3 \<and>
     gpr_state (sigt S3 2) = example_regs \<and> extended_state (sigt S3 2) = [1, 2, 3]"
proof -
  let ?S = "example_sig example_action"
  obtain S' th' where S': "enter_handler 440 312 832 0 2 10 ?S = Some S'" "rip (gpr_state (sigt S' 2)) = 0x401000"
    "thread_table (sch S') 2 = Some th'" "\<not> entering_signal th'" "\<not> exiting_signal th'"
    "cs (gpr_state (sigt S' 2)) = cs (gpr_state (sigt ?S 2))" "err (gpr_state (sigt S' 2)) = err (gpr_state (sigt ?S 2))"
    "\<not> has_poll_saved_signal_mask (sigt S' 2)" "same_queue (sch ?S) (sch S')"
    "\<And>u. listens (sch S') u = listens (sch ?S) u" "events (sch S') = events (sch ?S)"
    by (auto simp: enter_handler_def example_sig_def example_tree_def example_thread_def example_action_def frame_base_def
        sa_flag_defs on_sched_def upd_proc_def upd_thread_def upd_sigt_def example_sigthread_def example_regs_def
        same_queue_def listens_def Let_def split: prod.splits)
  have ok: "queue_ok (sch S')" "events_ok (sch S')"
    using queue_ok_same[OF S'(9) example_sig_ok(1)] events_ok_same[OF example_sig_ok(2)[of example_action] S'(10)] S'(11) by simp_all
  then show ?thesis using signal_round_trip[OF S'(1) refl refl S'(3-8) ok] S'(1,2)
    by (auto simp: example_sig_def example_sigthread_def)
qed


section \<open>Fatal signals\<close>

text \<open>Changing fields of one runnable thread that no invariant reads.\<close>

lemma thread_fields_ok:
  assumes "thread_table st t = Some th" "runnable th" "state th' = state th" "process th' = process th" "listeners th' = listeners th"
  defines "st' \<equiv> st\<lparr>thread_table := (thread_table st)(t \<mapsto> th')\<rparr>"
  shows "proc_wf st \<Longrightarrow> proc_wf st'" "queue_ok st \<Longrightarrow> queue_ok st'" "none_continuing st \<Longrightarrow> none_continuing st'"
    "events_ok st \<Longrightarrow> events_ok st'" "living st' ts = living st ts"
proof -
  have "same_tree st st'" using assms(1,4) by (simp add: st'_def same_tree_def)
  then show "proc_wf st \<Longrightarrow> proc_wf st'" by (rule proc_wf_same)
  show "queue_ok st \<Longrightarrow> queue_ok st'" using assms(1-3) by (auto simp: queue_ok_def st'_def runnable_def)
  show "none_continuing st \<Longrightarrow> none_continuing st'" using assms(1-3) by (auto simp: none_continuing_def st'_def)
  have "listens st' u = listens st u" "events st' = events st" for u using assms(1,5) by (simp_all add: st'_def listens_def)
  then show "events_ok st \<Longrightarrow> events_ok st'" by (simp add: events_ok_def)
  show "living st' ts = living st ts" using assms(1,3) by (intro living_cong) (auto simp: st'_def)
qed

lemma dispatch_eq:
  assumes "thread_table (sch S) t = Some th" "processes (sch S) (process th) = Some pr"
    and "pending_signals th AND NOT (signal_mask th) \<noteq> 0" "signal = lowest_signal (pending_signals th AND NOT (signal_mask th))" "signal < 64"
  shows "dispatch_pending_signal fs so xs cr2 t S =
    take_action fs so xs cr2 t signal (upd_sigt t (restart_syscall (signal_actions pr signal))
      (S\<lparr>sch := sch S\<lparr>thread_table := (thread_table (sch S))(t \<mapsto> th\<lparr>entering_signal := False, enqueued_by_signal := - 1,
         pending_signals := pending_signals th AND NOT (get_signal_bit signal)\<rparr>)\<rparr>\<rparr>))"
proof -
  have "signal \<noteq> - 1" using lowest_signal_spec[OF assms(3)] assms(4) by auto
  then show ?thesis using assms by (simp add: dispatch_pending_signal_def on_sched_def upd_thread_def Let_def)
qed

text \<open>
  C15: \<^verbatim>\<open>SIGKILL\<close> ends a process. When a running or ready thread of a process other than init has
  \<^verbatim>\<open>SIGKILL\<close> as its lowest pending unmasked signal and the disposition is the default one (which
  \<^verbatim>\<open>rt_sigaction\<close> never changes for \<^verbatim>\<open>SIGKILL\<close> and \<^verbatim>\<open>SIGSTOP\<close>, whatever it is given), delivering the
  signal succeeds: every thread of the process is dead and off the run queue, the process is a
  zombie whose wait status is \<^verbatim>\<open>SIGKILL\<close>, its children belong to init, and the scheduler's
  invariants hold. But nothing keeps \<^verbatim>\<open>rt_sigprocmask\<close> from masking \<^verbatim>\<open>SIGKILL\<close>, and then it stays
  pending.
\<close>

theorem sigkill_ends_process:
  assumes "proc_wf (sch S)" "queue_ok (sch S)" "none_continuing (sch S)" "events_ok (sch S)"
    and "thread_table (sch S) t = Some th" "runnable th" "process th = p" "processes (sch S) p = Some pr" "p \<noteq> init_process (sch S)"
    and "distinct (thread_list pr)" "idle_thread (sch S) \<notin> set (thread_list pr)"
    and "num_living_threads pr = int (living (sch S) (thread_list pr))" "0 < living (sch S) (thread_list pr)"
    and "pending_signals th AND NOT (signal_mask th) \<noteq> 0" "lowest_signal (pending_signals th AND NOT (signal_mask th)) = SIGKILL"
    and "handler (signal_actions pr SIGKILL) = SIG_DFL"
  shows "(\<exists>S'. dispatch_pending_signal fs so xs cr2 t S = Some S' \<and> proc_wf (sch S') \<and> queue_ok (sch S') \<and> events_ok (sch S') \<and>
           (\<forall>u\<in>set (thread_list pr). map_option state (thread_table (sch S') u) = Some ZOMBIE \<and> u \<notin> set (queue (sch S'))) \<and>
           (\<exists>pr'. processes (sch S') p = Some pr' \<and> is_zombie pr' \<and> wait_status pr' = SIGKILL \<and> wait_code pr' = CLD_KILLED) \<and>
           (\<forall>c\<in>set (children_list pr). map_option parent (processes (sch S') c) = Some (init_process (sch S)))) \<and>
         (\<forall>signum act pr0. \<forall>k\<in>{SIGKILL, SIGSTOP}. signal_actions (snd (syscall_rt_sigaction signum act pr0)) k = signal_actions pr0 k) \<and>
         (\<forall>m. \<exists>m'. syscall_rt_sigprocmask SIG_BLOCK (Some (get_signal_bit SIGKILL)) m = Inr m' \<and>
            (\<forall>pend. (pend AND NOT m') AND get_signal_bit SIGKILL = 0))"
proof (intro conjI)
  define th' where "th' = th\<lparr>entering_signal := False, enqueued_by_signal := - 1,
      pending_signals := pending_signals th AND NOT (get_signal_bit SIGKILL)\<rparr>"
  define s1 where "s1 = sch S\<lparr>thread_table := (thread_table (sch S))(t \<mapsto> th')\<rparr>"
  note ok = thread_fields_ok[OF assms(5,6), of th', folded s1_def]
  have inv: "proc_wf s1" "queue_ok s1" "none_continuing s1" "events_ok s1" "living s1 ts = living (sch S) ts" for ts
    using ok assms(1-4) by (simp_all add: th'_def)
  have s1: "processes s1 p = Some pr" "p \<noteq> init_process s1" "idle_thread s1 \<notin> set (thread_list pr)" "init_process s1 = init_process (sch S)"
    using assms(8,9,11) by (simp_all add: s1_def)
  obtain s' where s': "terminate_process p SIGKILL s1 = Some s'" "process_gone p SIGKILL pr (thread_list pr) s1 s'"
    using terminate_process_spec[OF inv(1-4) s1(1,2) assms(10) s1(3), of SIGKILL] assms(12,13) inv(5) by auto
  define S1 where "S1 = upd_sigt t (restart_syscall (signal_actions pr SIGKILL)) (S\<lparr>sch := s1\<rparr>)"
  have "dispatch_pending_signal fs so xs cr2 t S = take_action fs so xs cr2 t SIGKILL S1"
    unfolding S1_def s1_def th'_def
    by (rule dispatch_eq[OF assms(5)]) (use assms(7,8,14,15) in \<open>simp_all add: SIGKILL_def\<close>)
  also have "\<dots> = Some (S1\<lparr>sch := s'\<rparr>)"
    using s'(1) assms(7,8,16)
    by (simp add: take_action_def S1_def upd_sigt_def s1_def th'_def signal_default_action_def SIGKILL_def SIG_DFL_def SIG_IGN_def on_sched_def)
  finally have run: "dispatch_pending_signal fs so xs cr2 t S = Some (S1\<lparr>sch := s'\<rparr>)" .
  have "SIGKILL \<noteq> - 1" by (simp add: SIGKILL_def)
  then show "\<exists>S'. dispatch_pending_signal fs so xs cr2 t S = Some S' \<and> proc_wf (sch S') \<and> queue_ok (sch S') \<and> events_ok (sch S') \<and>
      (\<forall>u\<in>set (thread_list pr). map_option state (thread_table (sch S') u) = Some ZOMBIE \<and> u \<notin> set (queue (sch S'))) \<and>
      (\<exists>pr'. processes (sch S') p = Some pr' \<and> is_zombie pr' \<and> wait_status pr' = SIGKILL \<and> wait_code pr' = CLD_KILLED) \<and>
      (\<forall>c\<in>set (children_list pr). map_option parent (processes (sch S') c) = Some (init_process (sch S)))"
    using run s'(2) s1(4) unfolding process_gone_def by auto
  show "\<forall>signum act pr0. \<forall>k\<in>{SIGKILL, SIGSTOP}. signal_actions (snd (syscall_rt_sigaction signum act pr0)) k = signal_actions pr0 k"
    by (auto simp: syscall_rt_sigaction_def split: option.splits)
  show "\<forall>m. \<exists>m'. syscall_rt_sigprocmask SIG_BLOCK (Some (get_signal_bit SIGKILL)) m = Inr m' \<and>
      (\<forall>pend. (pend AND NOT m') AND get_signal_bit SIGKILL = 0)"
  proof
    fix m :: u64
    have "(pend AND NOT (m OR b)) AND b = 0" for pend b :: u64 by (rule bit_eqI) (auto simp: bit_simps)
    then show "\<exists>m'. syscall_rt_sigprocmask SIG_BLOCK (Some (get_signal_bit SIGKILL)) m = Inr m' \<and>
        (\<forall>pend. (pend AND NOT m') AND get_signal_bit SIGKILL = 0)"
      by (simp add: syscall_rt_sigprocmask_def)
  qed
qed

theorem sigkill_ends_process_witness:
  "\<exists>S'. dispatch_pending_signal 440 312 832 0 2 (\<lparr>sch = example_tree\<lparr>thread_table := (thread_table example_tree)
         (2 \<mapsto> (example_thread RUNNING)\<lparr>process := 2, pending_signals := 0x100\<rparr>)\<rparr>,
       sigt = (\<lambda>_. example_sigthread), frames = Map.empty\<rparr>) = Some S' \<and>
     map_option is_zombie (processes (sch S') 2) = Some True \<and> map_option parent (processes (sch S') 4) = Some 1"
proof -
  let ?th = "(example_thread RUNNING)\<lparr>process := 2, pending_signals := 0x100\<rparr>"
  let ?s = "example_tree\<lparr>thread_table := (thread_table example_tree)(2 \<mapsto> ?th)\<rparr>"
  let ?S = "\<lparr>sch = ?s, sigt = (\<lambda>_. example_sigthread), frames = Map.empty\<rparr>"
  have t2: "thread_table example_tree 2 = Some ((example_thread RUNNING)\<lparr>process := 2\<rparr>)" by (simp add: example_tree_def)
  have ok: "proc_wf ?s" "queue_ok ?s" "none_continuing ?s" "events_ok ?s"
    using thread_fields_ok[OF t2, of ?th] example_tree_ok by (simp_all add: runnable_def example_thread_def)
  have low: "lowest_signal 0x100 = 9" by code_simp
  show ?thesis
    using sigkill_ends_process[of ?S 2 ?th 2 "example_proc [2, 3] 1 [4]" 440 312 832 0] ok low
    by (auto simp: runnable_def example_thread_def example_tree_def example_proc_def proc_new_def SIGKILL_def SIG_DFL_def)
qed

text \<open>
  A one-shot handler is never run. With \<^verbatim>\<open>SA_RESETHAND\<close> the action is reset to the default before
  its handler is read, so delivery sends the thread to address 0.
\<close>

theorem one_shot_handler_is_lost:
  assumes "thread_table (sch S) t = Some th" "processes (sch S) (process th) = Some pr"
    and "sa_flags (signal_actions pr signal) AND SA_RESETHAND \<noteq> 0"
  shows "\<exists>S'. enter_handler fs so xs cr2 t signal S = Some S' \<and> rip (gpr_state (sigt S' t)) = 0"
  using assms
  by (auto simp: enter_handler_def Let_def on_sched_def upd_sigt_def upd_thread_def upd_proc_def SIG_DFL_def split: prod.splits)

theorem one_shot_handler_is_lost_witness:
  "\<exists>S'. enter_handler 440 312 832 0 2 10 (example_sig (example_action\<lparr>sa_flags := SA_RESETHAND\<rparr>)) = Some S' \<and>
     rip (gpr_state (sigt S' 2)) = 0 \<and> handler (example_action\<lparr>sa_flags := SA_RESETHAND\<rparr>) = 0x401000"
  using one_shot_handler_is_lost[of "example_sig (example_action\<lparr>sa_flags := SA_RESETHAND\<rparr>)" 2
      "(example_thread RUNNING)\<lparr>process := 2\<rparr>" _ 10 440 312 832 0]
  by (simp add: example_sig_def example_tree_def example_thread_def example_action_def SA_RESETHAND_def)


definition example_stop :: sigstate where
  "example_stop = \<lparr>sch = example_tree\<lparr>thread_table := (thread_table example_tree)
         (1 \<mapsto> (example_thread RUNNING)\<lparr>process := 1\<rparr>,
          2 \<mapsto> (example_thread READY)\<lparr>process := 2, pending_signals := 0x40000, entering_signal := True\<rparr>)\<rparr>,
       sigt = (\<lambda>_. example_sigthread), frames = Map.empty\<rparr>"

text \<open>
  Stopping a thread overwrites its registers. When the thread the scheduler has just chosen is
  stopped by the signal it takes, the interrupt starts over with that thread as the current one and
  saves the registers of the interrupted thread into it: here thread 2, with its own register
  contents, is stopped by \<^verbatim>\<open>SIGSTOP\<close> while thread 1 is interrupted with the contents \<open>live\<close>, and
  afterwards the saved registers of thread 2 are \<open>live\<close>.
\<close>

theorem stop_clobbers_registers:
  "\<exists>g S'. scheduler_isr 440 312 832 0 (Some 1) (example_regs\<lparr>rax := 99, rsp := 0x1000\<rparr>) [] example_stop = Some (1, g, S') \<and>
     gpr_state (sigt example_stop 2) = example_regs \<and>
     gpr_state (sigt S' 2) = example_regs\<lparr>rax := 99, rsp := 0x1000\<rparr> \<and>
     map_option state (thread_table (sch S') 2) = Some STOPPED"
proof -
  let ?live = "example_regs\<lparr>rax := 99, rsp := 0x1000\<rparr>"
  have low: "lowest_signal 0x40000 = 19" by code_simp
  have bit: "get_signal_bit 19 = 0x40000" by code_simp
  have act: "signal_default_action 19 = STOP" by (simp add: signal_default_action_def)
  have user: "cs example_regs AND 3 = 3" by (simp add: example_regs_def)
  obtain S1 where S1: "isr_pass 440 312 832 0 (Some 1) ?live [] example_stop = Some (2, S1)" "gpr_state (sigt S1 2) = example_regs"
    "queue (sch S1) = [1, 4]" "map_option state (thread_table (sch S1) 2) = Some STOPPED"
    "map_option (\<lambda>th. (state th, enqueued_by_signal th, entering_signal th, exiting_signal th)) (thread_table (sch S1) 1) =
       Some (READY, - 1, False, False)"
    by (simp add: isr_pass_def example_stop_def example_tree_def example_thread_def example_proc_def proc_new_def on_sched_def
        upd_thread_def upd_sigt_def upd_proc_def pick_next_def dispatch_pending_signal_def take_action_def low bit act user
        example_sigthread_def dequeue_thread_def trigger_all_def trigger_def event_new_def upd_event_def process_send_signal_def
        get_main_thread_def send_signal_def enqueue_thread_def restart_syscall_def SIG_DFL_def SIG_IGN_def SA_RESTART_def
        SA_NOCLDSTOP_def SIGCHLD_def Let_def)
  then obtain th1 th2 where th: "thread_table (sch S1) 2 = Some th2" "state th2 = STOPPED"
    "thread_table (sch S1) 1 = Some th1" "state th1 = READY" "enqueued_by_signal th1 = - 1" "\<not> entering_signal th1" "\<not> exiting_signal th1"
    by auto
  have S2: "\<exists>S2. isr_pass 440 312 832 0 (Some 2) ?live [] S1 = Some (1, S2) \<and> gpr_state (sigt S2 2) = ?live \<and>
      thread_table (sch S2) 2 = Some th2 \<and> map_option state (thread_table (sch S2) 1) = Some READY"
    using th S1(3) by (simp add: isr_pass_def on_sched_def upd_thread_def upd_sigt_def pick_next_def SIGCONT_def)
  then obtain S2 th1' where S2: "isr_pass 440 312 832 0 (Some 2) ?live [] S1 = Some (1, S2)" "gpr_state (sigt S2 2) = ?live"
      "thread_table (sch S2) 2 = Some th2" "thread_table (sch S2) 1 = Some th1'" "state th1' = READY" by auto
  have g: "gpr_state (sigt example_stop 2) = example_regs" by (simp add: example_stop_def example_sigthread_def)
  show ?thesis
    using S1(1) S2 th(1,2) g
    by (subst scheduler_isr.simps, simp, subst scheduler_isr.simps) (simp add: on_sched_def upd_thread_def)
qed

end
