(* ===== verification/Mem_Physical.thy ===== *)
theory Mem_Physical
  imports Klib_Algorithm
begin

text \<open>
  Physical memory: the page allocator (\<^verbatim>\<open>mem/pmm.cpp\<close>, \<^verbatim>\<open>mem/pmm.hpp\<close>) and the bump allocator behind
  the kernel heap (\<^verbatim>\<open>mem/bump.cpp\<close>, \<^verbatim>\<open>klib/cstdlib.cpp\<close>). A page structure is named by its page frame
  number; \<open>page_structs\<close> holds the structures that \<^verbatim>\<open>absorb_memmap_entry\<close> has written into the
  arrays at the start of the regions, and \<open>page_freelist\<close> is the sequence of the ring.
\<close>

section \<open>State\<close>

record page =
  free :: bool
  mapped_addr :: uptr

record region =
  base_phy :: usize
  num_pages :: usize

record pmm_stats =
  total_pages_usable :: usize
  total_pages_reserved :: usize
  total_free_pages :: usize

record pmm =
  page_structs :: "u64 \<Rightarrow> page option"
  page_freelist :: "u64 list"
  region_list :: "region list"
  stats :: pmm_stats

record memmap_entry =
  entry_base :: usize
  entry_length :: usize
  entry_usable :: bool

definition pmm_new :: pmm where
  "pmm_new = \<lparr>page_structs = Map.empty, page_freelist = [], region_list = [],
     stats = \<lparr>total_pages_usable = 0, total_pages_reserved = 0, total_free_pages = 0\<rparr>\<rparr>"

text \<open>The inline functions of \<^verbatim>\<open>Region\<close>: a \<^verbatim>\<open>Region\<close> and a \<^verbatim>\<open>Page\<close> are 32 bytes each.\<close>

definition end_phy :: "region \<Rightarrow> usize" where
  "end_phy r = base_phy r + num_pages r * PAGE_SIZE"

definition num_pages_reserved :: "region \<Rightarrow> usize" where
  "num_pages_reserved r = (32 + num_pages r * 32 + PAGE_SIZE - 1) div PAGE_SIZE"

definition num_pages_usable :: "region \<Rightarrow> usize" where
  "num_pages_usable r = num_pages r - num_pages_reserved r"

section \<open>Building the free list\<close>

text \<open>The loop over the page structures of a region, from number \<open>i\<close>, \<open>n\<close> of them left.\<close>

fun add_pages :: "usize \<Rightarrow> nat \<Rightarrow> pmm \<Rightarrow> pmm" where
  "add_pages pfn 0 st = st"
| "add_pages pfn (Suc n) st =
     add_pages (pfn + 1) n
       (st\<lparr>page_structs := (page_structs st)(pfn \<mapsto> \<lparr>free = True, mapped_addr = 0\<rparr>),
           page_freelist := page_freelist st @ [pfn],
           stats := (stats st)\<lparr>total_free_pages := total_free_pages (stats st) + 1\<rparr>\<rparr>)"

definition entry_region :: "memmap_entry \<Rightarrow> region" where
  "entry_region entry =
     (let pfn_start = entry_base entry div PAGE_SIZE + (if entry_base entry mod PAGE_SIZE \<noteq> 0 then 1 else 0);
          pfn_end = entry_base entry div PAGE_SIZE + entry_length entry div PAGE_SIZE
                    - (if entry_length entry mod PAGE_SIZE \<noteq> 0 then 1 else 0)
      in \<lparr>base_phy = pfn_start * PAGE_SIZE, num_pages = pfn_end - pfn_start\<rparr>)"

definition absorb_memmap_entry :: "memmap_entry \<Rightarrow> pmm \<Rightarrow> pmm" where
  "absorb_memmap_entry entry st =
     (let r = entry_region entry;
          st = st\<lparr>region_list := region_list st @ [r],
                  stats := (stats st)\<lparr>total_pages_reserved := total_pages_reserved (stats st) + num_pages_reserved r\<rparr>\<rparr>
      in add_pages (base_phy r div PAGE_SIZE + num_pages_reserved r) (unat (num_pages_usable r)) st)"

fun absorb_usable :: "memmap_entry list \<Rightarrow> pmm \<Rightarrow> pmm" where
  "absorb_usable [] st = st"
| "absorb_usable (e # es) st = absorb_usable es (if entry_usable e then absorb_memmap_entry e st else st)"

definition pmm_init :: "memmap_entry list \<Rightarrow> pmm" where
  "pmm_init es =
     (let st = absorb_usable es pmm_new
      in st\<lparr>stats := (stats st)\<lparr>total_pages_usable := total_free_pages (stats st)\<rparr>\<rparr>)"

section \<open>Allocation\<close>

definition alloc_page :: "pmm \<Rightarrow> (u64 \<times> pmm) option" where
  "alloc_page st =
     (case page_freelist st of
        [] \<Rightarrow> None
      | p # rest \<Rightarrow>
          do { pg \<leftarrow> page_structs st p;
               if \<not> free pg then None
               else Some (p, st\<lparr>page_structs := (page_structs st)(p \<mapsto> pg\<lparr>free := False\<rparr>),
                                page_freelist := rest,
                                stats := (stats st)\<lparr>total_free_pages := total_free_pages (stats st) - 1\<rparr>\<rparr>) })"

definition free_page :: "u64 \<Rightarrow> pmm \<Rightarrow> pmm option" where
  "free_page p st =
     do { pg \<leftarrow> page_structs st p;
          if free pg then None
          else Some (st\<lparr>page_structs := (page_structs st)(p \<mapsto> pg\<lparr>free := True, mapped_addr := 0\<rparr>),
                        page_freelist := p # page_freelist st,
                        stats := (stats st)\<lparr>total_free_pages := total_free_pages (stats st) + 1\<rparr>\<rparr>) }"

text \<open>
  \<^verbatim>\<open>find_page\<close>: \<open>Some None\<close> is a null pointer. The index computed from the first region whose bounds
  admit the address is used without a check against the size of its array: \<open>None\<close> when it is
  outside of it, or when the assertion on the result fails.
\<close>

fun find_page_in :: "region list \<Rightarrow> uptr \<Rightarrow> u64 option option" where
  "find_page_in [] phy = Some None"
| "find_page_in (r # rs) phy =
     (if phy < base_phy r \<or> phy > end_phy r then find_page_in rs phy
      else let offset_pages = (phy - base_phy r) div PAGE_SIZE in
           if offset_pages < num_pages_reserved r then Some None
           else let i = offset_pages - num_pages_reserved r;
                    pfn = base_phy r div PAGE_SIZE + num_pages_reserved r + i
                in if i \<ge> num_pages_usable r then None
                   else if pfn * PAGE_SIZE \<noteq> phy then None
                   else Some (Some pfn))"

definition find_page :: "uptr \<Rightarrow> pmm \<Rightarrow> u64 option option" where
  "find_page phy st = find_page_in (region_list st) phy"

section \<open>The bump allocator\<close>

record bump =
  alloc_base :: uptr
  total_size :: usize
  alloc_ptr :: usize

definition default_alignment :: usize where "default_alignment = 16"

definition bump_init :: "uptr \<Rightarrow> usize \<Rightarrow> bump" where
  "bump_init base sz = \<lparr>alloc_base = base, total_size = sz, alloc_ptr = 0\<rparr>"

definition bump_allocate :: "usize \<Rightarrow> usize \<Rightarrow> bump \<Rightarrow> (uptr \<times> bump) option" where
  "bump_allocate sz alignment b =
     (if sz = 0 then Some (0, b)
      else let ret = align_up (alloc_base b + alloc_ptr b) alignment;
               b' = b\<lparr>alloc_ptr := (ret - alloc_base b) + sz\<rparr>
           in if alloc_ptr b' < total_size b' then Some (ret, b') else None)"

text \<open>\<^verbatim>\<open>reallocate\<close>: the new block and the range \<open>(from, to, bytes)\<close> that \<^verbatim>\<open>memcpy\<close> copies.\<close>

definition bump_reallocate :: "uptr \<Rightarrow> usize \<Rightarrow> bump \<Rightarrow> ((uptr \<times> (uptr \<times> uptr \<times> usize) option) \<times> bump) option" where
  "bump_reallocate ptr sz b =
     (if ptr = 0 then do { (p, b) \<leftarrow> bump_allocate sz default_alignment b; Some ((p, None), b) }
      else if sz = 0 then Some ((0, None), b)
      else do { (p, b) \<leftarrow> bump_allocate sz default_alignment b; Some ((p, Some (ptr, p, sz)), b) })"


section \<open>Contract of a page allocator\<close>

text \<open>
  What a client of the page allocator relies on: \<open>avail\<close> is the set of free pages, an allocation
  takes one of them and fails only when there is none, a release puts one back that was not free.
\<close>

locale page_allocator =
  fixes alloc :: "'s \<Rightarrow> ('p \<times> 's) option"
    and release :: "'p \<Rightarrow> 's \<Rightarrow> 's option"
    and avail :: "'s \<Rightarrow> 'p set"
    and inv :: "'s \<Rightarrow> bool"
  assumes alloc_some: "inv s \<Longrightarrow> alloc s = Some (p, s') \<Longrightarrow> p \<in> avail s \<and> avail s' = avail s - {p} \<and> inv s'"
    and alloc_none: "inv s \<Longrightarrow> alloc s = None \<longleftrightarrow> avail s = {}"
    and release_some: "inv s \<Longrightarrow> release p s = Some s' \<Longrightarrow> p \<notin> avail s \<and> avail s' = insert p (avail s) \<and> inv s'"
begin

text \<open>Runs of a set of clients: the pages they hold, most recent first.\<close>

inductive client_run :: "'s \<Rightarrow> 's \<Rightarrow> 'p list \<Rightarrow> bool" for s0 where
  start: "client_run s0 s0 []"
| take_page: "client_run s0 s held \<Longrightarrow> alloc s = Some (p, s') \<Longrightarrow> client_run s0 s' (p # held)"
| give_back: "client_run s0 s held \<Longrightarrow> p \<in> set held \<Longrightarrow> release p s = Some s' \<Longrightarrow> client_run s0 s' (remove1 p held)"

lemma held_disjoint:
  assumes "client_run s0 s held" "inv s0"
  shows "inv s \<and> distinct held \<and> set held \<inter> avail s = {} \<and> set held \<union> avail s = avail s0"
  using assms
proof (induction rule: client_run.induct)
  case (take_page s held p s')
  then show ?case using alloc_some[of s p s'] by auto
next
  case (give_back s held p s')
  then show ?case using release_some[of s p s'] by auto
qed auto

end

definition pmm_ok :: "pmm \<Rightarrow> bool" where
  "pmm_ok st \<longleftrightarrow> distinct (page_freelist st) \<and>
     (\<forall>p. p \<in> set (page_freelist st) \<longleftrightarrow> (\<exists>pg. page_structs st p = Some pg \<and> free pg)) \<and>
     total_free_pages (stats st) = of_nat (length (page_freelist st))"

definition free_set :: "pmm \<Rightarrow> u64 set" where
  "free_set st = set (page_freelist st)"

lemma alloc_page_ok:
  assumes "pmm_ok st" "alloc_page st = Some (p, st')"
  shows "p \<in> free_set st \<and> free_set st' = free_set st - {p} \<and> pmm_ok st'"
proof -
  obtain rest pg where e: "page_freelist st = p # rest" "page_structs st p = Some pg" "free pg"
    and st': "st' = st\<lparr>page_structs := (page_structs st)(p \<mapsto> pg\<lparr>free := False\<rparr>), page_freelist := rest,
        stats := (stats st)\<lparr>total_free_pages := total_free_pages (stats st) - 1\<rparr>\<rparr>"
    using assms(2) by (auto simp: alloc_page_def split: list.splits bind_splits if_splits)
  have d: "p \<notin> set rest" "distinct rest" using assms(1) e by (auto simp: pmm_ok_def)
  have fr: "q \<in> set (p # rest) \<longleftrightarrow> (\<exists>pg. page_structs st q = Some pg \<and> free pg)" for q
    using assms(1) e unfolding pmm_ok_def by metis
  have "total_free_pages (stats st) = of_nat (length (p # rest))" using assms(1) e by (simp add: pmm_ok_def)
  moreover have "q \<in> set rest \<longleftrightarrow> (\<exists>pg. page_structs st' q = Some pg \<and> free pg)" for q
    using fr[of q] d by (cases "q = p") (auto simp: st')
  ultimately have "pmm_ok st'" using d by (simp add: pmm_ok_def st')
  then show ?thesis using e d by (auto simp: free_set_def st')
qed

lemma alloc_page_none: "pmm_ok st \<Longrightarrow> alloc_page st = None \<longleftrightarrow> free_set st = {}"
proof (cases "page_freelist st")
  case (Cons p rest)
  assume "pmm_ok st"
  then have "\<exists>pg. page_structs st p = Some pg \<and> free pg" using Cons unfolding pmm_ok_def by (metis list.set_intros(1))
  then show ?thesis using Cons by (auto simp: alloc_page_def free_set_def)
qed (simp add: alloc_page_def free_set_def)

lemma free_page_ok:
  assumes "pmm_ok st" "free_page p st = Some st'"
  shows "p \<notin> free_set st \<and> free_set st' = insert p (free_set st) \<and> pmm_ok st'"
proof -
  obtain pg where e: "page_structs st p = Some pg" "\<not> free pg"
    and st': "st' = st\<lparr>page_structs := (page_structs st)(p \<mapsto> pg\<lparr>free := True, mapped_addr := 0\<rparr>),
        page_freelist := p # page_freelist st, stats := (stats st)\<lparr>total_free_pages := total_free_pages (stats st) + 1\<rparr>\<rparr>"
    using assms(2) by (auto simp: free_page_def split: bind_splits if_splits)
  have fr: "q \<in> set (page_freelist st) \<longleftrightarrow> (\<exists>pg. page_structs st q = Some pg \<and> free pg)" for q
    using assms(1) unfolding pmm_ok_def by blast
  then have "p \<notin> set (page_freelist st)" using e by simp
  moreover have "q \<in> set (p # page_freelist st) \<longleftrightarrow> (\<exists>pg. page_structs st' q = Some pg \<and> free pg)" for q
    using fr[of q] by (cases "q = p") (auto simp: st')
  ultimately have "pmm_ok st'" using assms(1) by (simp add: pmm_ok_def st')
  then show ?thesis using \<open>p \<notin> set (page_freelist st)\<close> by (simp add: free_set_def st')
qed

interpretation pmm: page_allocator alloc_page free_page free_set pmm_ok
proof unfold_locales
  show "pmm_ok s \<Longrightarrow> alloc_page s = Some (p, s') \<Longrightarrow> p \<in> free_set s \<and> free_set s' = free_set s - {p} \<and> pmm_ok s'" for s p s'
    by (rule alloc_page_ok)
  show "pmm_ok s \<Longrightarrow> (alloc_page s = None) = (free_set s = {})" for s by (rule alloc_page_none)
  show "pmm_ok s \<Longrightarrow> free_page p s = Some s' \<Longrightarrow> p \<notin> free_set s \<and> free_set s' = insert p (free_set s) \<and> pmm_ok s'" for s p s'
    by (rule free_page_ok)
qed

section \<open>Regions\<close>

text \<open>A region of whole pages, at least one, that lies below \<open>2 ^ 52\<close>, as the boot loader reports them.\<close>

definition region_ok :: "region \<Rightarrow> bool" where
  "region_ok r \<longleftrightarrow> unat (base_phy r) mod 4096 = 0 \<and> 1 \<le> unat (num_pages r) \<and>
     unat (base_phy r) + unat (num_pages r) * 4096 \<le> 2 ^ 52"

lemma region_numbers:
  assumes "region_ok r"
  shows "unat (num_pages_reserved r) = (unat (num_pages r) * 32 + 4127) div 4096"
    and "unat (end_phy r) = unat (base_phy r) + unat (num_pages r) * 4096"
    and "unat (num_pages_reserved r) \<le> unat (num_pages r)" "1 \<le> unat (num_pages_reserved r)"
    and "unat (num_pages_usable r) = unat (num_pages r) - unat (num_pages_reserved r)"
    and "unat (base_phy r div PAGE_SIZE) = unat (base_phy r) div 4096"
proof -
  let ?n = "unat (num_pages r)"
  have n: "?n * 4096 \<le> 2 ^ 52" "1 \<le> ?n" using assms by (auto simp: region_ok_def)
  then have n32: "?n * 32 \<le> 2 ^ 52" by simp
  have m: "unat (num_pages r * 32) = ?n * 32" using n32 by (simp add: unat_mult_no_wrap)
  have s: "unat (32 + num_pages r * 32 + PAGE_SIZE - 1) = ?n * 32 + 4127"
  proof -
    have "32 + num_pages r * 32 + PAGE_SIZE - 1 = num_pages r * 32 + 4127" by (simp add: PAGE_SIZE_def)
    moreover have "unat (num_pages r * 32 + 4127) = ?n * 32 + 4127"
      using unat_add_no_wrap[of "num_pages r * 32" 4127] m n32 by simp
    ultimately show ?thesis by (rule ssubst)
  qed
  then show res: "unat (num_pages_reserved r) = (?n * 32 + 4127) div 4096"
    by (simp add: num_pages_reserved_def unat_div)
  show le: "unat (num_pages_reserved r) \<le> ?n" using n unfolding res by simp
  show "1 \<le> unat (num_pages_reserved r)" unfolding res using n by (simp add: Suc_le_eq div_greater_zero_iff)
  show "unat (num_pages_usable r) = ?n - unat (num_pages_reserved r)"
    using le unfolding num_pages_usable_def by (intro unat_sub_le) (simp add: word_le_nat_alt)
  have e: "unat (num_pages r * PAGE_SIZE) = ?n * 4096" using n(1) by (simp add: unat_mult_no_wrap)
  then show "unat (end_phy r) = unat (base_phy r) + ?n * 4096"
    using assms unfolding end_phy_def region_ok_def by (subst unat_add_no_wrap) auto
  show "unat (base_phy r div PAGE_SIZE) = unat (base_phy r) div 4096" by (simp add: unat_div)
qed

text \<open>The page frame numbers a region contributes.\<close>

definition usable_pfns :: "region \<Rightarrow> nat set" where
  "usable_pfns r = {unat (base_phy r) div 4096 + unat (num_pages_reserved r) ..< unat (base_phy r) div 4096 + unat (num_pages r)}"


lemma unat_of_nat_add:
  "unat (a :: u64) + n < 2 ^ 64 \<Longrightarrow> unat (a + of_nat n) = unat a + n"
  by (subst unat_add_no_wrap) (simp_all add: unat_of_nat)

lemma add_pages_spec:
  assumes "pmm_ok st" "unat pfn + n < 2 ^ 64" "\<forall>p\<in>dom (page_structs st). unat p \<notin> {unat pfn..<unat pfn + n}"
  shows "pmm_ok (add_pages pfn n st) \<and> region_list (add_pages pfn n st) = region_list st \<and>
         unat ` dom (page_structs (add_pages pfn n st)) = unat ` dom (page_structs st) \<union> {unat pfn..<unat pfn + n} \<and>
         unat ` free_set (add_pages pfn n st) = unat ` free_set st \<union> {unat pfn..<unat pfn + n}"
  using assms
proof (induction n arbitrary: pfn st)
  case (Suc n)
  let ?s = "st\<lparr>page_structs := (page_structs st)(pfn \<mapsto> \<lparr>free = True, mapped_addr = 0\<rparr>), page_freelist := page_freelist st @ [pfn],
      stats := (stats st)\<lparr>total_free_pages := total_free_pages (stats st) + 1\<rparr>\<rparr>"
  have u: "unat (pfn + 1) = unat pfn + 1" using Suc.prems(2) unat_of_nat_add[of pfn 1] by simp
  have new: "page_structs st pfn = None" using Suc.prems(3) by auto
  have fr: "q \<in> set (page_freelist st) \<longleftrightarrow> (\<exists>pg. page_structs st q = Some pg \<and> free pg)" for q
    using Suc.prems(1) unfolding pmm_ok_def by blast
  have notin: "pfn \<notin> set (page_freelist st)" using fr[of pfn] new by simp
  have fr': "q \<in> set (page_freelist ?s) \<longleftrightarrow> (\<exists>pg. page_structs ?s q = Some pg \<and> free pg)" for q
    using fr[of q] notin by (cases "q = pfn") auto
  have "pmm_ok ?s" unfolding pmm_ok_def using Suc.prems(1) notin fr' by (auto simp: pmm_ok_def)
  moreover have "unat (pfn + 1) + n < 2 ^ 64" using Suc.prems(2) u by simp
  moreover have "\<forall>p\<in>dom (page_structs ?s). unat p \<notin> {unat (pfn + 1)..<unat (pfn + 1) + n}" using Suc.prems(3) u by auto
  ultimately have IH: "pmm_ok (add_pages (pfn + 1) n ?s) \<and> region_list (add_pages (pfn + 1) n ?s) = region_list ?s \<and>
      unat ` dom (page_structs (add_pages (pfn + 1) n ?s)) = unat ` dom (page_structs ?s) \<union> {unat (pfn + 1)..<unat (pfn + 1) + n} \<and>
      unat ` free_set (add_pages (pfn + 1) n ?s) = unat ` free_set ?s \<union> {unat (pfn + 1)..<unat (pfn + 1) + n}"
    by (rule Suc.IH)
  have "{unat pfn..<unat pfn + Suc n} = insert (unat pfn) {unat (pfn + 1)..<unat (pfn + 1) + n}" using u by auto
  moreover have "unat ` dom (page_structs ?s) = insert (unat pfn) (unat ` dom (page_structs st))"
    "unat ` free_set ?s = insert (unat pfn) (unat ` free_set st)" by (simp_all add: free_set_def)
  ultimately show ?case using IH by simp
qed simp

text \<open>The entries the boot loader gives: whole pages below \<open>2 ^ 52\<close>, usable ones disjoint.\<close>

definition entries_ok :: "memmap_entry list \<Rightarrow> bool" where
  "entries_ok es \<longleftrightarrow>
     (\<forall>e\<in>set es. entry_usable e \<longrightarrow> unat (entry_base e) mod 4096 = 0 \<and> unat (entry_length e) mod 4096 = 0 \<and>
        4096 \<le> unat (entry_length e) \<and> unat (entry_base e) + unat (entry_length e) \<le> 2 ^ 52) \<and>
     sorted_wrt (\<lambda>e e'. entry_usable e \<longrightarrow> entry_usable e' \<longrightarrow> unat (entry_base e) + unat (entry_length e) \<le> unat (entry_base e') \<or>
        unat (entry_base e') + unat (entry_length e') \<le> unat (entry_base e)) es"

lemma entry_region_ok:
  assumes "unat (entry_base e) mod 4096 = 0" "unat (entry_length e) mod 4096 = 0" "4096 \<le> unat (entry_length e)"
    and "unat (entry_base e) + unat (entry_length e) \<le> 2 ^ 52"
  shows "region_ok (entry_region e)" "base_phy (entry_region e) = entry_base e"
    "unat (num_pages (entry_region e)) = unat (entry_length e) div 4096"
proof -
  have m: "entry_base e mod PAGE_SIZE = 0" "entry_length e mod PAGE_SIZE = 0"
    using assms(1,2) by (simp_all add: word_arith_nat_mod)
  have "entry_base e div PAGE_SIZE * PAGE_SIZE = entry_base e"
    using m(1) by (metis add.right_neutral div_mult_mod_eq)
  then show b: "base_phy (entry_region e) = entry_base e" using m by (simp add: entry_region_def Let_def)
  have "num_pages (entry_region e) = entry_length e div PAGE_SIZE" using m by (simp add: entry_region_def Let_def)
  then show n: "unat (num_pages (entry_region e)) = unat (entry_length e) div 4096" by (simp add: unat_div)
  have "unat (entry_length e) div 4096 * 4096 = unat (entry_length e)" using assms(2) by auto
  then show "region_ok (entry_region e)"
    using assms b n by (simp add: region_ok_def div_greater_zero_iff Suc_le_eq)
qed


lemma absorb_spec:
  assumes "pmm_ok st" "region_ok (entry_region e)" "unat ` dom (page_structs st) \<inter> usable_pfns (entry_region e) = {}"
  shows "pmm_ok (absorb_memmap_entry e st) \<and> region_list (absorb_memmap_entry e st) = region_list st @ [entry_region e] \<and>
         unat ` dom (page_structs (absorb_memmap_entry e st)) = unat ` dom (page_structs st) \<union> usable_pfns (entry_region e) \<and>
         unat ` free_set (absorb_memmap_entry e st) = unat ` free_set st \<union> usable_pfns (entry_region e)"
proof -
  let ?r = "entry_region e"
  let ?s = "st\<lparr>region_list := region_list st @ [?r],
      stats := (stats st)\<lparr>total_pages_reserved := total_pages_reserved (stats st) + num_pages_reserved ?r\<rparr>\<rparr>"
  let ?p = "base_phy ?r div PAGE_SIZE + num_pages_reserved ?r" and ?n = "unat (num_pages_usable ?r)"
  note num = region_numbers[OF assms(2)]
  have top: "unat (base_phy ?r) div 4096 + unat (num_pages ?r) \<le> 2 ^ 52"
  proof -
    have "unat (base_phy ?r) div 4096 \<le> unat (base_phy ?r)" "unat (num_pages ?r) \<le> unat (num_pages ?r) * 4096" by simp_all
    then show ?thesis using assms(2) unfolding region_ok_def by linarith
  qed
  have p: "unat ?p = unat (base_phy ?r) div 4096 + unat (num_pages_reserved ?r)"
    using top num(3,6) by (subst unat_add_no_wrap) simp_all
  have iv: "{unat ?p..<unat ?p + ?n} = usable_pfns ?r" using p num(3,5) by (simp add: usable_pfns_def)
  have "pmm_ok ?s" using assms(1) by (simp add: pmm_ok_def)
  moreover have "unat ?p + ?n < 2 ^ 64" using p num(3,5) top by simp
  moreover have "\<forall>p\<in>dom (page_structs ?s). unat p \<notin> {unat ?p..<unat ?p + ?n}" using assms(3) unfolding iv by auto
  ultimately show ?thesis using add_pages_spec[of ?s ?p ?n] unfolding iv absorb_memmap_entry_def Let_def by (simp add: free_set_def)
qed

definition entry_pfns :: "memmap_entry list \<Rightarrow> nat set" where
  "entry_pfns es = (\<Union>e\<in>{e \<in> set es. entry_usable e}. usable_pfns (entry_region e))"

lemma usable_pfns_in_entry:
  assumes "unat (entry_base e) mod 4096 = 0" "unat (entry_length e) mod 4096 = 0" "4096 \<le> unat (entry_length e)"
    and "unat (entry_base e) + unat (entry_length e) \<le> 2 ^ 52" "k \<in> usable_pfns (entry_region e)"
  shows "unat (entry_base e) + 4096 * unat (num_pages_reserved (entry_region e)) \<le> 4096 * k"
    "4096 * k + 4096 \<le> unat (entry_base e) + unat (entry_length e)"
proof -
  note r = entry_region_ok[OF assms(1-4)]
  obtain b l where bl: "unat (entry_base e) = 4096 * b" "unat (entry_length e) = 4096 * l" using assms(1,2) by (metis mod_0_imp_dvd dvdE)
  have "b + unat (num_pages_reserved (entry_region e)) \<le> k" "k < b + l"
    using assms(5) r(2,3) bl by (simp_all add: usable_pfns_def)
  then show "unat (entry_base e) + 4096 * unat (num_pages_reserved (entry_region e)) \<le> 4096 * k"
    "4096 * k + 4096 \<le> unat (entry_base e) + unat (entry_length e)" using bl by linarith+
qed

lemma absorb_usable_spec:
  assumes "pmm_ok st" "entries_ok es" "unat ` dom (page_structs st) \<inter> entry_pfns es = {}"
  shows "pmm_ok (absorb_usable es st) \<and>
         unat ` free_set (absorb_usable es st) = unat ` free_set st \<union> entry_pfns es"
  using assms
proof (induction es arbitrary: st)
  case Nil
  then show ?case by (simp add: entry_pfns_def)
next
  case (Cons e es)
  have es: "entries_ok es" using Cons.prems(2) by (auto simp: entries_ok_def)
  show ?case
  proof (cases "entry_usable e")
    case False
    then have "entry_pfns (e # es) = entry_pfns es" by (auto simp: entry_pfns_def)
    then show ?thesis using Cons.IH[OF Cons.prems(1) es] Cons.prems(3) False by simp
  next
    case True
    have un: "entry_pfns (e # es) = usable_pfns (entry_region e) \<union> entry_pfns es" using True by (auto simp: entry_pfns_def)
    have eb: "unat (entry_base e) mod 4096 = 0" "unat (entry_length e) mod 4096 = 0" "4096 \<le> unat (entry_length e)"
      "unat (entry_base e) + unat (entry_length e) \<le> 2 ^ 52" using Cons.prems(2) True by (simp_all add: entries_ok_def)
    have disj: "k \<notin> entry_pfns es" if k: "k \<in> usable_pfns (entry_region e)" for k
    proof
      assume "k \<in> entry_pfns es"
      then obtain e' where e': "e' \<in> set es" "entry_usable e'" "k \<in> usable_pfns (entry_region e')" by (auto simp: entry_pfns_def)
      have b': "unat (entry_base e') mod 4096 = 0" "unat (entry_length e') mod 4096 = 0" "4096 \<le> unat (entry_length e')"
        "unat (entry_base e') + unat (entry_length e') \<le> 2 ^ 52" using Cons.prems(2) e'(1,2) by (simp_all add: entries_ok_def)
      have "unat (entry_base e) + unat (entry_length e) \<le> unat (entry_base e') \<or> unat (entry_base e') + unat (entry_length e') \<le> unat (entry_base e)"
        using Cons.prems(2) True e'(1,2) by (simp add: entries_ok_def)
      then show False using usable_pfns_in_entry[OF eb k] usable_pfns_in_entry[OF b' e'(3)] by linarith
    qed
    note a = absorb_spec[OF Cons.prems(1) entry_region_ok(1)[OF eb]]
    have d1: "unat ` dom (page_structs st) \<inter> usable_pfns (entry_region e) = {}" using Cons.prems(3) un by blast
    have "unat ` dom (page_structs (absorb_memmap_entry e st)) \<inter> entry_pfns es = {}"
      using a[OF d1] Cons.prems(3) un disj by blast
    then show ?thesis using Cons.IH[OF conjunct1[OF a[OF d1]] es] a[OF d1] True un by auto
  qed
qed

text \<open>
  C6: The page allocator after boot. For the memory map of the boot loader (whole pages below
  \<open>2 ^ 52\<close>, usable entries disjoint), after any sequence of page allocations and of frees of held
  pages no page is held twice, no held page is on the free list, and the held and free pages
  together are exactly the pages of the usable entries that follow the page structures of their
  region. The structures fit in the pages reserved for them, so no client ever gets a page that
  holds one, and an allocation fails only when every such page is held.
\<close>

theorem pages_never_shared:
  assumes "entries_ok es" "pmm.client_run (pmm_init es) st held"
  shows "distinct held \<and> set held \<inter> set (page_freelist st) = {} \<and>
         unat ` (set held \<union> set (page_freelist st)) =
           (\<Union>e\<in>{e \<in> set es. entry_usable e}. {unat (entry_base e) div 4096 + unat (num_pages_reserved (entry_region e)) ..<
              unat (entry_base e) div 4096 + unat (entry_length e) div 4096}) \<and>
         (\<forall>e\<in>set es. entry_usable e \<longrightarrow>
            32 + 32 * unat (num_pages_usable (entry_region e)) \<le> 4096 * unat (num_pages_reserved (entry_region e))) \<and>
         (alloc_page st = None \<longleftrightarrow> page_freelist st = [])"
proof -
  have "unat ` free_set pmm_new = {}" "unat ` dom (page_structs pmm_new) = {}" "pmm_ok pmm_new"
    by (simp_all add: free_set_def pmm_new_def pmm_ok_def)
  then have "pmm_ok (absorb_usable es pmm_new) \<and> unat ` free_set (absorb_usable es pmm_new) = entry_pfns es"
    using absorb_usable_spec[OF _ assms(1), of pmm_new] by auto
  then have i: "pmm_ok (pmm_init es)" "unat ` free_set (pmm_init es) = entry_pfns es"
    by (simp_all add: pmm_init_def Let_def pmm_ok_def free_set_def)
  have eb: "region_ok (entry_region e)" "base_phy (entry_region e) = entry_base e"
    "unat (num_pages (entry_region e)) = unat (entry_length e) div 4096" if "e \<in> set es" "entry_usable e" for e
    using that assms(1) entry_region_ok[of e] by (simp_all add: entries_ok_def)
  have pf: "entry_pfns es = (\<Union>e\<in>{e \<in> set es. entry_usable e}. {unat (entry_base e) div 4096 + unat (num_pages_reserved (entry_region e)) ..<
      unat (entry_base e) div 4096 + unat (entry_length e) div 4096})"
    unfolding entry_pfns_def usable_pfns_def using eb by (intro SUP_cong) auto
  have "32 + 32 * unat (num_pages_usable (entry_region e)) \<le> 4096 * unat (num_pages_reserved (entry_region e))"
    if "e \<in> set es" "entry_usable e" for e
    using region_numbers(1,5)[OF eb(1)[OF that]] by linarith
  then show ?thesis using pmm.held_disjoint[OF assms(2) i(1)] i(2) pf alloc_page_none[of st] by (auto simp: free_set_def)
qed

definition example_memmap :: "memmap_entry list" where
  "example_memmap = [\<lparr>entry_base = 0x1000, entry_length = 0x3000, entry_usable = True\<rparr>,
     \<lparr>entry_base = 0x4000, entry_length = 0x10000, entry_usable = False\<rparr>]"

theorem pages_never_shared_witness:
  "\<exists>st. pmm.client_run (pmm_init example_memmap) st [2] \<and> set [2] \<inter> set (page_freelist st) = {} \<and>
     unat ` (set [2] \<union> set (page_freelist st)) = {2, 3}"
proof -
  have ok: "entries_ok example_memmap" by (simp add: entries_ok_def example_memmap_def)
  have "map_option fst (alloc_page (pmm_init example_memmap)) = Some 2" by code_simp
  then obtain st where a: "alloc_page (pmm_init example_memmap) = Some (2, st)" by auto
  have res: "unat (num_pages_reserved (entry_region \<lparr>entry_base = 0x1000, entry_length = 0x3000, entry_usable = True\<rparr>)) = 1" by code_simp
  have flt: "{e \<in> set example_memmap. entry_usable e} = {\<lparr>entry_base = 0x1000, entry_length = 0x3000, entry_usable = True\<rparr>}"
    by (auto simp: example_memmap_def)
  have run: "pmm.client_run (pmm_init example_memmap) st [2]" using pmm.take_page[OF pmm.start a] .
  then have "unat ` (set [2] \<union> set (page_freelist st)) = {Suc (Suc 0)..<4}"
    using pages_never_shared[OF ok, of st "[2]"]
    by (simp add: flt res)
  moreover have "{Suc (Suc 0)..<4} = {2, 3 :: nat}" by auto
  ultimately have "unat ` (set [2] \<union> set (page_freelist st)) = {2, 3}" by (rule trans)
  then show ?thesis using run pages_never_shared[OF ok run] by blast
qed


section \<open>Looking a page up\<close>

text \<open>Regions that do not overlap.\<close>

definition regions_ok :: "region list \<Rightarrow> bool" where
  "regions_ok rs \<longleftrightarrow> (\<forall>r\<in>set rs. region_ok r) \<and>
     sorted_wrt (\<lambda>r r'. unat (end_phy r) \<le> unat (base_phy r') \<or> unat (end_phy r') \<le> unat (base_phy r)) rs"

text \<open>Every usable page of a region is found by its physical address.\<close>

lemma find_page_usable:
  assumes "regions_ok rs" "r \<in> set rs" "unat p \<in> usable_pfns r"
  shows "find_page_in rs (p * PAGE_SIZE) = Some (Some p)"
  using assms
proof (induction rs)
  case (Cons x rs)
  have okr: "region_ok r" using Cons.prems(1,2) by (auto simp: regions_ok_def)
  note nr = region_numbers[OF okr]
  obtain b where b: "unat (base_phy r) = 4096 * b" using okr by (auto simp: region_ok_def)
  have rng: "b + unat (num_pages_reserved r) \<le> unat p" "unat p < b + unat (num_pages r)" using Cons.prems(3) b by (simp_all add: usable_pfns_def)
  have "4096 * b + 4096 * unat (num_pages r) \<le> 2 ^ 52" using okr b by (simp add: region_ok_def mult.commute)
  then have up: "unat (p * PAGE_SIZE) = 4096 * unat p" using rng(2) by (subst unat_mult_no_wrap) simp_all
  have lo: "unat (base_phy r) < 4096 * unat p" and hi: "4096 * unat p < unat (end_phy r)" using rng b nr(2,4) by linarith+
  show ?case
  proof (cases "x = r")
    case True
    have "unat (p * PAGE_SIZE - base_phy r) = 4096 * (unat p - b)"
      using lo up b by (subst unat_sub_le) (simp_all add: word_le_nat_alt)
    then have off: "unat ((p * PAGE_SIZE - base_phy r) div PAGE_SIZE) = unat p - b" by (simp add: unat_div)
    let ?o = "(p * PAGE_SIZE - base_phy r) div PAGE_SIZE"
    have i: "unat (?o - num_pages_reserved r) = unat p - b - unat (num_pages_reserved r)"
      using off rng by (subst unat_sub_le) (simp_all add: word_le_nat_alt)
    have "unat (base_phy r div PAGE_SIZE + num_pages_reserved r) = b + unat (num_pages_reserved r)"
      using nr(6) b le_less_trans[OF rng(1) unat_lt_64] by (subst unat_add_no_wrap) simp_all
    then have "unat (base_phy r div PAGE_SIZE + num_pages_reserved r + (?o - num_pages_reserved r)) = unat p"
      using i rng unat_lt_64[of p] by (subst unat_add_no_wrap) simp_all
    then have pfn: "base_phy r div PAGE_SIZE + num_pages_reserved r + (?o - num_pages_reserved r) = p" by (rule word_unat_eq_iff[THEN iffD2])
    have "\<not> num_pages_usable r \<le> ?o - num_pages_reserved r" using i nr(5) rng by (simp add: word_le_nat_alt)
    moreover have "\<not> ?o < num_pages_reserved r" using off rng by (simp add: word_less_nat_alt)
    ultimately show ?thesis using True lo hi up pfn by (simp add: Let_def word_less_nat_alt)
  next
    case False
    then have "r \<in> set rs" using Cons.prems(2) by simp
    then have "unat (end_phy x) \<le> unat (base_phy r) \<or> unat (end_phy r) \<le> unat (base_phy x)"
      using Cons.prems(1) by (simp add: regions_ok_def)
    then have "p * PAGE_SIZE < base_phy x \<or> p * PAGE_SIZE > end_phy x" using lo hi up by (auto simp: word_less_nat_alt)
    then show ?thesis using Cons.IH Cons.prems(1,3) \<open>r \<in> set rs\<close> by (simp add: regions_ok_def)
  qed
qed simp

section \<open>The heap\<close>

text \<open>A block of the bump allocator starts at or after the end of all earlier ones and is aligned.\<close>

lemma bump_allocate_spec:
  assumes "bump_allocate sz al b = Some (p, b')" "sz \<noteq> 0" "al \<noteq> 0"
    and "unat (alloc_base b) + unat (alloc_ptr b) + unat al + unat sz \<le> 2 ^ 64"
  shows "unat p mod unat al = 0" "unat (alloc_base b) + unat (alloc_ptr b) \<le> unat p"
    "unat p + unat sz = unat (alloc_base b) + unat (alloc_ptr b')" "alloc_ptr b' < total_size b'" "total_size b' = total_size b"
proof -
  let ?x = "alloc_base b + alloc_ptr b"
  have p: "p = align_up ?x al" and b': "b' = b\<lparr>alloc_ptr := (p - alloc_base b) + sz\<rparr>" "alloc_ptr b' < total_size b'"
    using assms(1,2) by (auto simp: bump_allocate_def Let_def split: if_splits)
  have al: "0 < unat al" "0 < unat sz" using assms(2,3) by (simp_all add: unat_gt_0)
  have x: "unat ?x = unat (alloc_base b) + unat (alloc_ptr b)" using assms(4) al by (intro unat_add_no_wrap) linarith
  have up: "unat p = (unat ?x + unat al - 1) div unat al * unat al" unfolding p using assms(3,4) x al by (intro unat_align_up) linarith+
  then show "unat p mod unat al = 0" by simp
  have "unat ?x + unat al - 1 < (unat ?x + unat al - 1) div unat al * unat al + unat al"
    using al(1) by (metis add.commute add_less_cancel_left div_mult_mod_eq mod_less_divisor)
  then show ge: "unat (alloc_base b) + unat (alloc_ptr b) \<le> unat p" using up x al by linarith
  have le: "unat p \<le> unat ?x + unat al - 1" using up by simp
  have "unat (p - alloc_base b) = unat p - unat (alloc_base b)" using ge by (intro unat_sub_le) (simp add: word_le_nat_alt)
  then have "unat (p - alloc_base b + sz) = unat p - unat (alloc_base b) + unat sz"
    using le x assms(4) al by (subst unat_add_no_wrap) linarith+
  then show "unat p + unat sz = unat (alloc_base b) + unat (alloc_ptr b')" using ge b'(1) by simp
  show "alloc_ptr b' < total_size b'" "total_size b' = total_size b" using b' by simp_all
qed

end
