(* ===== verification/Mem_Paging.thy ===== *)
theory Mem_Paging
  imports Mem_Physical
begin

text \<open>
  The page tables of \<^verbatim>\<open>mem/vmm.cpp\<close>: the four-level tree that \<^verbatim>\<open>find_page_table_entry\<close> walks and
  extends, and the operations that write its entries. Table memory is addressed physically: \<open>tabs\<close>
  gives the 512 entries of the table in a page. The three nested steps of the walk are written as a
  recursion over the shifts 39, 30, 21. The second half shows that the tree behaves as a map from
  page numbers to entries, which is what the rest of the memory manager relies on.
\<close>

section \<open>Tables\<close>

definition PAGE_PRESENT :: u64 where "PAGE_PRESENT = 1"
definition PAGE_WRITABLE :: u64 where "PAGE_WRITABLE = 2"
definition PAGE_USER :: u64 where "PAGE_USER = 4"
definition PAGE_GLOBAL :: u64 where "PAGE_GLOBAL = 0x100"
definition PAGE_NO_EXECUTE :: u64 where "PAGE_NO_EXECUTE = 0x8000000000000000"
definition ADDR_MASK :: u64 where "ADDR_MASK = 0x000FFFFFFFFFF000"

lemmas page_bits = PAGE_PRESENT_def PAGE_WRITABLE_def PAGE_USER_def PAGE_GLOBAL_def PAGE_NO_EXECUTE_def

record pagetables =
  pml4 :: u64
  tabs :: "u64 \<Rightarrow> nat \<Rightarrow> u64"
  page_table_pages_list :: "u64 list"
  pmem :: pmm

definition pt_index :: "uptr \<Rightarrow> nat \<Rightarrow> nat" where
  "pt_index virt shift = unat (drop_bit shift virt AND 0x1FF)"

definition set_entry :: "u64 \<Rightarrow> nat \<Rightarrow> u64 \<Rightarrow> pagetables \<Rightarrow> pagetables" where
  "set_entry t i e st = st\<lparr>tabs := (tabs st)(t := (tabs st t)(i := e))\<rparr>"

definition alloc_page_for_page_table :: "pagetables \<Rightarrow> (u64 \<times> pagetables) option" where
  "alloc_page_for_page_table st =
     do { (p, m) \<leftarrow> alloc_page (pmem st);
          Some (p * PAGE_SIZE, st\<lparr>pmem := m, page_table_pages_list := page_table_pages_list st @ [p]\<rparr>) }"

definition create_next_page_table :: "u64 \<Rightarrow> nat \<Rightarrow> pagetables \<Rightarrow> (u64 \<times> pagetables) option" where
  "create_next_page_table t i st =
     do { (new_page, st) \<leftarrow> alloc_page_for_page_table st;
          let st = st\<lparr>tabs := (tabs st)(new_page := (\<lambda>_. 0))\<rparr>;
          Some (new_page, set_entry t i (new_page OR PAGE_PRESENT OR PAGE_WRITABLE OR PAGE_USER) st) }"

text \<open>\<open>Some (None, st)\<close> is a null pointer, \<open>None\<close> the panic when memory has run out.\<close>

fun walk :: "bool \<Rightarrow> uptr \<Rightarrow> nat list \<Rightarrow> u64 \<Rightarrow> pagetables \<Rightarrow> (u64 option \<times> pagetables) option" where
  "walk create virt [] t st = Some (Some t, st)"
| "walk create virt (s # ss) t st =
     (let e = tabs st t (pt_index virt s) in
      if e AND PAGE_PRESENT \<noteq> 0 then walk create virt ss (e AND ADDR_MASK) st
      else if create then do { (n, st) \<leftarrow> create_next_page_table t (pt_index virt s) st; walk create virt ss n st }
      else Some (None, st))"

definition find_page_table_entry :: "uptr \<Rightarrow> bool \<Rightarrow> pagetables \<Rightarrow> ((u64 \<times> nat) option \<times> pagetables) option" where
  "find_page_table_entry virt create st =
     do { (t, st) \<leftarrow> walk create virt [39, 30, 21] (pml4 st) st;
          Some (map_option (\<lambda>t. (t, pt_index virt 12)) t, st) }"

definition map_page :: "uptr \<Rightarrow> uptr \<Rightarrow> u64 \<Rightarrow> pagetables \<Rightarrow> pagetables option" where
  "map_page phy virt flags st =
     do { (loc, st) \<leftarrow> find_page_table_entry virt True st;
          (t, i) \<leftarrow> loc;
          Some (set_entry t i ((phy AND ADDR_MASK) OR flags) st) }"

fun map_pages_loop :: "uptr \<Rightarrow> uptr \<Rightarrow> u64 \<Rightarrow> nat \<Rightarrow> nat \<Rightarrow> pagetables \<Rightarrow> pagetables option" where
  "map_pages_loop phy virt flags i 0 st = Some st"
| "map_pages_loop phy virt flags i (Suc n) st =
     do { st \<leftarrow> map_page (phy + of_nat i * PAGE_SIZE) (virt + of_nat i * PAGE_SIZE) flags st;
          map_pages_loop phy virt flags (Suc i) n st }"

definition map_pages :: "uptr \<Rightarrow> uptr \<Rightarrow> usize \<Rightarrow> u64 \<Rightarrow> pagetables \<Rightarrow> pagetables option" where
  "map_pages phy virt sz flags st =
     map_pages_loop phy virt flags 0 (unat (align_up sz PAGE_SIZE div PAGE_SIZE)) st"

text \<open>The upper half of the kernel's top table is copied into a user page map.\<close>

definition map_kernel :: "u64 \<Rightarrow> pagetables \<Rightarrow> pagetables" where
  "map_kernel kernel_pml4 st =
     st\<lparr>tabs := (tabs st)(pml4 st := (\<lambda>i. if 256 \<le> i \<and> i < 512 then tabs st kernel_pml4 i else tabs st (pml4 st) i))\<rparr>"

text \<open>
  \<^verbatim>\<open>invalidate_page\<close> without a range, on the table alone: the entry of a present page is cleared and
  its old value is returned for the caller to free.
\<close>

definition clear_entry :: "uptr \<Rightarrow> pagetables \<Rightarrow> (u64 option \<times> pagetables) option" where
  "clear_entry virt st =
     do { (loc, st) \<leftarrow> find_page_table_entry virt False st;
          case loc of
            None \<Rightarrow> Some (None, st)
          | Some (t, i) \<Rightarrow> if tabs st t i AND PAGE_PRESENT = 0 then Some (None, st)
                           else Some (Some (tabs st t i), set_entry t i 0 st) }"

section \<open>The map a tree represents\<close>

fun reach :: "(u64 \<Rightarrow> nat \<Rightarrow> u64) \<Rightarrow> u64 \<Rightarrow> nat list \<Rightarrow> u64 option" where
  "reach T t [] = Some t"
| "reach T t (i # is) = (if T t i AND PAGE_PRESENT \<noteq> 0 then reach T (T t i AND ADDR_MASK) is else None)"

definition indices :: "uptr \<Rightarrow> nat list" where
  "indices virt = map (pt_index virt) [39, 30, 21]"

text \<open>The entry for an address, 0 where the tree has no table for it; and the page number.\<close>

definition pte :: "pagetables \<Rightarrow> uptr \<Rightarrow> u64" where
  "pte st virt = (case reach (tabs st) (pml4 st) (indices virt) of None \<Rightarrow> 0 | Some t \<Rightarrow> tabs st t (pt_index virt 12))"

definition vpn :: "uptr \<Rightarrow> nat" where
  "vpn virt = unat (take_bit 36 (drop_bit 12 virt))"

text \<open>
  The tables form a tree (no table is reached along two paths), none of them is a free page, and
  the allocator hands out pages below \<open>2 ^ 52\<close>.
\<close>

definition pt_ok :: "pagetables \<Rightarrow> bool" where
  "pt_ok st \<longleftrightarrow> pmm_ok (pmem st) \<and> (\<forall>p\<in>free_set (pmem st). unat p < 2 ^ 40) \<and>
     (\<forall>is js t. length is \<le> 3 \<longrightarrow> length js \<le> 3 \<longrightarrow> reach (tabs st) (pml4 st) is = Some t \<longrightarrow>
        reach (tabs st) (pml4 st) js = Some t \<longrightarrow> is = js) \<and>
     (\<forall>is t. length is \<le> 3 \<longrightarrow> reach (tabs st) (pml4 st) is = Some t \<longrightarrow> t \<notin> (\<lambda>p. p * PAGE_SIZE) ` free_set (pmem st))"

lemma reach_append: "reach T t (is @ js) = (case reach T t is of None \<Rightarrow> None | Some u \<Rightarrow> reach T u js)"
  by (induction "is" arbitrary: t) auto

lemma reach_snoc:
  "reach T t (is @ [i]) = (case reach T t is of None \<Rightarrow> None
     | Some u \<Rightarrow> if T u i AND PAGE_PRESENT \<noteq> 0 then Some (T u i AND ADDR_MASK) else None)"
  by (simp add: reach_append split: option.split)

lemma page_addr:
  assumes "unat p < 2 ^ 40"
  shows "unat (p * PAGE_SIZE) = unat p * 4096"
  using assms by (subst unat_mult_no_wrap) simp_all

lemma page_addr_inj: "unat p < 2 ^ 40 \<Longrightarrow> unat q < 2 ^ 40 \<Longrightarrow> p * PAGE_SIZE = q * PAGE_SIZE \<Longrightarrow> p = q"
  using page_addr[of p] page_addr[of q] by (metis mult_cancel2 word_unat_eq_iff zero_neq_numeral)

lemma page_addr_push: "p * PAGE_SIZE = push_bit 12 (p :: u64)"
  by (simp add: push_bit_eq_mult PAGE_SIZE_def mult.commute)

lemma table_entry:
  assumes "unat p < 2 ^ 40"
  shows "(p * PAGE_SIZE OR PAGE_PRESENT OR PAGE_WRITABLE OR PAGE_USER) AND PAGE_PRESENT \<noteq> 0"
    "(p * PAGE_SIZE OR PAGE_PRESENT OR PAGE_WRITABLE OR PAGE_USER) AND ADDR_MASK = p * PAGE_SIZE"
proof -
  have p: "n < 40" if "bit p n" for n
  proof -
    have "take_bit 40 p = p" by (rule word_unat_eq_iff[THEN iffD2]) (use assms in \<open>simp add: unsigned_take_bit_eq take_bit_nat_eq_self\<close>)
    then show ?thesis using that by (metis bit_take_bit_iff)
  qed
  have m: "ADDR_MASK = push_bit 12 (mask 40)" by (simp add: ADDR_MASK_def mask_eq_exp_minus_1)
  have flags: "(PAGE_PRESENT OR PAGE_WRITABLE OR PAGE_USER) = mask 3" by (simp add: page_bits mask_eq_exp_minus_1)
  show "(p * PAGE_SIZE OR PAGE_PRESENT OR PAGE_WRITABLE OR PAGE_USER) AND ADDR_MASK = p * PAGE_SIZE"
    unfolding flags m page_addr_push using p by (intro bit_eqI) (auto simp: bit_simps)
  have "bit ((p * PAGE_SIZE OR PAGE_PRESENT OR PAGE_WRITABLE OR PAGE_USER) AND PAGE_PRESENT) 0"
    unfolding flags by (simp add: bit_simps PAGE_PRESENT_def)
  then show "(p * PAGE_SIZE OR PAGE_PRESENT OR PAGE_WRITABLE OR PAGE_USER) AND PAGE_PRESENT \<noteq> 0" by auto
qed


section \<open>Walking and extending the tree\<close>

text \<open>The tables after a new, empty one has been linked at entry \<open>i\<close> of the table reached by \<open>is\<close>.\<close>

lemma reach_link:
  assumes inj: "\<And>is js t. length is \<le> 3 \<Longrightarrow> length js \<le> 3 \<Longrightarrow> reach T r is = Some t \<Longrightarrow> reach T r js = Some t \<Longrightarrow> is = js"
    and fresh: "\<And>is. length is \<le> 3 \<Longrightarrow> reach T r is \<noteq> Some n"
    and at: "reach T r is = Some t" "length is < 3" "T t i AND PAGE_PRESENT = 0"
    and e: "e AND PAGE_PRESENT \<noteq> 0" "e AND ADDR_MASK = n" and len: "length js \<le> 3"
  defines "T' \<equiv> (T(n := (\<lambda>_. 0)))(t := (T t)(i := e))"
  shows "reach T' r js = (if js = is @ [i] then Some n else if take (length is + 1) js = is @ [i] then None else reach T r js)"
  using len
proof (induction js rule: rev_induct)
  case Nil
  then show ?case by simp
next
  case (snoc j js)
  have tn: "t \<noteq> n" using fresh[of "is"] at(1,2) by auto
  have T': "T' t j = (if j = i then e else T t j)" "T' n j = 0" "\<And>u. u \<noteq> t \<Longrightarrow> u \<noteq> n \<Longrightarrow> T' u j = T u j"
    using tn by (simp_all add: T'_def)
  have js: "length js \<le> 3" using snoc.prems by simp
  note IH = snoc.IH[OF js]
  consider (eq) "js = is" | (link) "js = is @ [i]" | (below) "take (length is + 1) js = is @ [i]" "js \<noteq> is @ [i]"
    | (other) "js \<noteq> is" "take (length is + 1) js \<noteq> is @ [i]" by fastforce
  then show ?case
  proof cases
    case eq
    then have "reach T' r js = Some t" using IH at(1) by auto
    then show ?thesis using eq at e T'(1) by (cases "j = i") (simp_all add: reach_snoc)
  next
    case link
    then have "reach T' r js = Some n" using IH by simp
    then have "reach T' r (js @ [j]) = None" using T'(2) reach_snoc[of T' r js j] by simp
    then show ?thesis using link by simp
  next
    case below
    then have "reach T' r js = None" using IH by simp
    moreover have "length is + 1 \<le> length js" using below(1) by (metis length_append length_take list.size(3,4) min.cobounded1 One_nat_def add.commute plus_1_eq_Suc)
    ultimately show ?thesis using below by (auto simp: reach_snoc)
  next
    case other
    have r: "reach T' r js = reach T r js" using IH other by auto
    have ne: "js @ [j] \<noteq> is @ [i]" using other(1) by auto
    have tk: "take (length is + 1) (js @ [j]) \<noteq> is @ [i]"
    proof
      assume a: "take (length is + 1) (js @ [j]) = is @ [i]"
      show False
      proof (cases "length is + 1 \<le> length js")
        case True
        then show ?thesis using a other(2) by simp
      next
        case False
        then show ?thesis using a ne by (metis append_take_drop_id length_append_singleton not_less_eq_eq take_all Suc_eq_plus1)
      qed
    qed
    show ?thesis
    proof (cases "reach T r js")
      case (Some u)
      have "u \<noteq> t" using inj[OF js _ Some, of "is"] at(1,2) other(1) by auto
      moreover have "u \<noteq> n" using fresh[OF js] Some by auto
      ultimately have "T' u j = T u j" by (rule T'(3))
      then have "reach T' r (js @ [j]) = reach T r (js @ [j])" using r Some by (simp add: reach_snoc)
      then show ?thesis using ne tk by (auto simp del: take_append)
    qed (use r ne tk in \<open>simp add: reach_snoc\<close>)
  qed
qed


lemma pt_okD:
  assumes "pt_ok st"
  shows "pmm_ok (pmem st)" "p \<in> free_set (pmem st) \<Longrightarrow> unat p < 2 ^ 40"
    "length is \<le> 3 \<Longrightarrow> length js \<le> 3 \<Longrightarrow> reach (tabs st) (pml4 st) is = Some t \<Longrightarrow> reach (tabs st) (pml4 st) js = Some t \<Longrightarrow> is = js"
    "length is \<le> 3 \<Longrightarrow> reach (tabs st) (pml4 st) is = Some t \<Longrightarrow> p \<in> free_set (pmem st) \<Longrightarrow> t \<noteq> p * PAGE_SIZE"
  using assms unfolding pt_ok_def by blast+

text \<open>The entry for a path, 0 where there is no table.\<close>

definition entry_at :: "pagetables \<Rightarrow> nat list \<Rightarrow> nat \<Rightarrow> u64" where
  "entry_at st is k = (case reach (tabs st) (pml4 st) is of None \<Rightarrow> 0 | Some t \<Rightarrow> tabs st t k)"

lemma create_next_spec:
  assumes ok: "pt_ok st" and at: "reach (tabs st) (pml4 st) is = Some t" "length is < 3" "tabs st t i AND PAGE_PRESENT = 0"
    and run: "create_next_page_table t i st = Some (n, st')"
  shows "pt_ok st' \<and> pml4 st' = pml4 st \<and> reach (tabs st') (pml4 st') (is @ [i]) = Some n \<and>
         (\<forall>js k. length js = 3 \<longrightarrow> entry_at st' js k = entry_at st js k)"
proof -
  obtain p m where a: "alloc_page (pmem st) = Some (p, m)" and n: "n = p * PAGE_SIZE"
    using run by (auto simp: create_next_page_table_def alloc_page_for_page_table_def split: bind_splits)
  let ?e = "n OR PAGE_PRESENT OR PAGE_WRITABLE OR PAGE_USER" and ?T = "tabs st" and ?r = "pml4 st"
  let ?T' = "(?T(n := (\<lambda>_. 0)))(t := (?T t)(i := ?e))"
  note pa = alloc_page_ok[OF pt_okD(1)[OF ok] a]
  have p40: "unat p < 2 ^ 40" using pt_okD(2)[OF ok] pa by blast
  have fresh: "reach ?T ?r js \<noteq> Some n" if "length js \<le> 3" for js using pt_okD(4)[OF ok that] pa n by blast
  have tn: "t \<noteq> n" using fresh[of "is"] at(1,2) by auto
  have st': "tabs st' = ?T'" "pml4 st' = ?r" "pmem st' = m"
    using run a n tn by (auto simp: create_next_page_table_def alloc_page_for_page_table_def set_entry_def)
  note e = table_entry[OF p40, folded n]
  have L: "reach ?T' ?r js = (if js = is @ [i] then Some n else if take (length is + 1) js = is @ [i] then None else reach ?T ?r js)"
    if "length js \<le> 3" for js
    by (rule reach_link[OF pt_okD(3)[OF ok] fresh at e that])
  have none: "reach ?T ?r js = None" if "take (length is + 1) js = is @ [i]" for js
  proof -
    have "js = (is @ [i]) @ drop (length is + 1) js" using that by (metis append_take_drop_id)
    moreover have "reach ?T ?r (is @ [i]) = None" using at by (simp add: reach_snoc)
    ultimately show ?thesis by (metis reach_append option.simps(4))
  qed
  have "pt_ok st'" unfolding pt_ok_def st'
  proof (intro conjI allI impI ballI)
    show "pmm_ok m" using pa by blast
    show "unat q < 2 ^ 40" if "q \<in> free_set m" for q using that pa pt_okD(2)[OF ok, of q] by blast
    show "xs = ys" if "length xs \<le> 3" "length ys \<le> 3" "reach ?T' ?r xs = Some u" "reach ?T' ?r ys = Some u" for xs ys u
      using that fresh[of xs] fresh[of ys] pt_okD(3)[OF ok, of xs ys u] L[of xs] L[of ys] by (auto split: if_splits)
    show "u \<notin> (\<lambda>p. p * PAGE_SIZE) ` free_set m" if "length xs \<le> 3" "reach ?T' ?r xs = Some u" for xs u
    proof
      assume "u \<in> (\<lambda>p. p * PAGE_SIZE) ` free_set m"
      then obtain q where q: "q \<in> free_set m" "u = q * PAGE_SIZE" by blast
      then have q': "q \<in> free_set (pmem st)" "q \<noteq> p" using pa by auto
      then have "u \<noteq> n" using q page_addr_inj[OF pt_okD(2)[OF ok q'(1)] p40] n by auto
      then show False using that L[OF that(1)] pt_okD(4)[OF ok that(1) _ q'(1), of u] q(2) by (auto split: if_splits)
    qed
  qed
  moreover have "reach (tabs st') (pml4 st') (is @ [i]) = Some n" using L[of "is @ [i]"] at(2) st' by simp
  moreover have "entry_at st' js k = entry_at st js k" if "length js = 3" for js k
  proof (cases "take (length is + 1) js = is @ [i]")
    case True
    then show ?thesis using L[of js] none[OF True] that tn by (simp add: entry_at_def st')
  next
    case False
    then have r: "reach ?T' ?r js = reach ?T ?r js" using L[of js] that by (auto split: if_splits)
    show ?thesis
    proof (cases "reach ?T ?r js")
      case (Some u)
      have "u \<noteq> t" using pt_okD(3)[OF ok _ _ Some, of "is"] at(1,2) that by auto
      moreover have "u \<noteq> n" using fresh[of js] Some that by auto
      ultimately show ?thesis using Some r by (simp add: entry_at_def st')
    qed (use r in \<open>simp add: entry_at_def st'\<close>)
  qed
  ultimately show ?thesis using st'(2) by blast
qed

lemma walk_spec:
  assumes "pt_ok st" "reach (tabs st) (pml4 st) is = Some t" "length is + length ss = 3" "walk True virt ss t st = Some (u, st')"
  shows "\<exists>t'. u = Some t' \<and> pt_ok st' \<and> pml4 st' = pml4 st \<and> reach (tabs st') (pml4 st') (is @ map (pt_index virt) ss) = Some t' \<and>
         (\<forall>js k. length js = 3 \<longrightarrow> entry_at st' js k = entry_at st js k)"
  using assms
proof (induction ss arbitrary: "is" t st)
  case (Cons s ss)
  let ?i = "pt_index virt s"
  show ?case
  proof (cases "tabs st t ?i AND PAGE_PRESENT = 0")
    case True
    then obtain n st1 where c: "create_next_page_table t ?i st = Some (n, st1)" "walk True virt ss n st1 = Some (u, st')"
      using Cons.prems(4) by (auto simp: Let_def split: bind_splits)
    have "length is < 3" using Cons.prems(3) by simp
    note s1 = create_next_spec[OF Cons.prems(1,2) this True c(1)]
    have "\<exists>t'. u = Some t' \<and> pt_ok st' \<and> pml4 st' = pml4 st1 \<and> reach (tabs st') (pml4 st') ((is @ [?i]) @ map (pt_index virt) ss) = Some t' \<and>
         (\<forall>js k. length js = 3 \<longrightarrow> entry_at st' js k = entry_at st1 js k)"
      using s1 Cons.prems(3) c(2) by (intro Cons.IH) auto
    then show ?thesis using s1 by auto
  next
    case False
    then have "reach (tabs st) (pml4 st) (is @ [?i]) = Some (tabs st t ?i AND ADDR_MASK)" using Cons.prems(2) by (simp add: reach_snoc)
    moreover have "walk True virt ss (tabs st t ?i AND ADDR_MASK) st = Some (u, st')" using Cons.prems(4) False by (simp add: Let_def)
    ultimately show ?thesis using Cons.IH[OF Cons.prems(1), of "is @ [?i]"] Cons.prems(3) by simp
  qed
next
  case Nil
  then have "u = Some t" "st' = st" by simp_all
  then show ?case using Nil by simp
qed

text \<open>Writing an entry of a last-level table changes that entry only.\<close>

lemma set_leaf_spec:
  assumes ok: "pt_ok st" and t: "reach (tabs st) (pml4 st) is = Some t" "length is = 3"
  shows "pt_ok (set_entry t k e st)" "length js = 3 \<Longrightarrow> entry_at (set_entry t k e st) js l = (if js = is \<and> l = k then e else entry_at st js l)"
proof -
  let ?T = "tabs st" and ?r = "pml4 st" and ?T' = "(tabs st)(t := (tabs st t)(k := e))"
  have R: "length js \<le> 3 \<Longrightarrow> reach ?T' ?r js = reach ?T ?r js" for js
  proof (induction js rule: rev_induct)
    case (snoc j js)
    show ?case
    proof (cases "reach ?T ?r js")
      case (Some u)
      have "u \<noteq> t" using pt_okD(3)[OF ok _ _ Some, of "is"] t snoc.prems by auto
      then show ?thesis using snoc Some by (simp add: reach_snoc)
    qed (use snoc in \<open>simp add: reach_snoc\<close>)
  qed simp
  show "pt_ok (set_entry t k e st)" using ok R unfolding pt_ok_def set_entry_def by simp
  assume js: "length js = 3"
  show "entry_at (set_entry t k e st) js l = (if js = is \<and> l = k then e else entry_at st js l)"
  proof (cases "reach ?T ?r js")
    case (Some u)
    have "u = t \<longleftrightarrow> js = is" using pt_okD(3)[OF ok _ _ Some, of "is"] t js Some by auto
    then show ?thesis using R[of js] js Some by (auto simp: entry_at_def set_entry_def)
  next
    case None
    then show ?thesis using R[of js] js t by (auto simp: entry_at_def set_entry_def)
  qed
qed

lemma pte_entry_at: "pte st v = entry_at st (indices v) (pt_index v 12)"
  by (simp add: pte_def entry_at_def)


section \<open>The tree as a map from page numbers\<close>

lemma pt_index_eq: "pt_index v s = pt_index w s \<longleftrightarrow> (\<forall>n<9. bit v (s + n) = bit w (s + n))"
proof -
  have m: "(0x1FF :: u64) = mask 9" by (simp add: mask_eq_exp_minus_1)
  have "pt_index v s = pt_index w s \<longleftrightarrow> drop_bit s v AND mask 9 = drop_bit s w AND mask 9"
    unfolding pt_index_def m by (rule word_unat_eq_iff[symmetric])
  also have "\<dots> \<longleftrightarrow> (\<forall>n<64. n < 9 \<longrightarrow> bit v (s + n) = bit w (s + n))"
    by (auto simp: bit_eq_iff bit_simps)
  also have "\<dots> \<longleftrightarrow> (\<forall>n<9. bit v (s + n) = bit w (s + n))" by auto
  finally show ?thesis .
qed

lemma vpn_eq: "vpn v = vpn w \<longleftrightarrow> (\<forall>n<36. bit v (12 + n) = bit w (12 + n))"
proof -
  have "vpn v = vpn w \<longleftrightarrow> take_bit 36 (drop_bit 12 v) = take_bit 36 (drop_bit 12 w)"
    unfolding vpn_def by (rule word_unat_eq_iff[symmetric])
  also have "\<dots> \<longleftrightarrow> (\<forall>n<64. n < 36 \<longrightarrow> bit v (12 + n) = bit w (12 + n))" by (auto simp: bit_eq_iff bit_simps)
  also have "\<dots> \<longleftrightarrow> (\<forall>n<36. bit v (12 + n) = bit w (12 + n))" by auto
  finally show ?thesis .
qed

lemma indices_vpn: "indices v = indices w \<and> pt_index v 12 = pt_index w 12 \<longleftrightarrow> vpn v = vpn w"
proof -
  have "(\<forall>n<36. P (12 + n)) \<longleftrightarrow> (\<forall>n<9. P (39 + n)) \<and> (\<forall>n<9. P (30 + n)) \<and> (\<forall>n<9. P (21 + n)) \<and> (\<forall>n<9. P (12 + n))"
    (is "?L \<longleftrightarrow> ?R") for P :: "nat \<Rightarrow> bool"
  proof
    assume L: ?L
    then have "P m" if "12 \<le> m" "m < 48" for m using that L[rule_format, of "m - 12"] by simp
    then show ?R by simp
  next
    assume R: ?R
    have "P m" if "12 \<le> m" "m < 48" for m
    proof -
      have c: "(\<exists>n<9. m = 39 + n) \<or> (\<exists>n<9. m = 30 + n) \<or> (\<exists>n<9. m = 21 + n) \<or> (\<exists>n<9. m = 12 + n)" using that by presburger
      show ?thesis using c R by blast
    qed
    then show ?L by simp
  qed
  from this[of "\<lambda>k. bit v k = bit w k"] show ?thesis by (simp add: indices_def pt_index_eq vpn_eq)
qed

text \<open>
  What the users of a page map rely on: writing the entry of a page changes what is read for that
  page and for no other.
\<close>

locale page_map =
  fixes put :: "uptr \<Rightarrow> u64 \<Rightarrow> 's \<Rightarrow> 's option"
    and get :: "'s \<Rightarrow> uptr \<Rightarrow> u64"
    and key :: "uptr \<Rightarrow> nat"
    and inv :: "'s \<Rightarrow> bool"
  assumes put_spec: "inv s \<Longrightarrow> put v e s = Some s' \<Longrightarrow> inv s' \<and> (\<forall>w. get s' w = (if key w = key v then e else get s w))"
begin

fun put_all :: "(uptr \<times> u64) list \<Rightarrow> 's \<Rightarrow> 's option" where
  "put_all [] s = Some s"
| "put_all ((v, e) # ves) s = do { s \<leftarrow> put v e s; put_all ves s }"

lemma put_all_spec:
  assumes "inv s" "put_all ves s = Some s'" "distinct (map (key \<circ> fst) ves)"
  shows "inv s' \<and> (\<forall>w. get s' w = (case find (\<lambda>(v, e). key v = key w) ves of None \<Rightarrow> get s w | Some (v, e) \<Rightarrow> e))"
  using assms
proof (induction ves arbitrary: s)
  case (Cons ve ves)
  obtain v e where ve: "ve = (v, e)" by fastforce
  then obtain s1 where s1: "put v e s = Some s1" "put_all ves s1 = Some s'" using Cons.prems(2) by (auto split: bind_splits)
  note p = put_spec[OF Cons.prems(1) s1(1)]
  have IH: "inv s' \<and> (\<forall>w. get s' w = (case find (\<lambda>(v, e). key v = key w) ves of None \<Rightarrow> get s1 w | Some (v, e) \<Rightarrow> e))"
    using Cons.IH[OF conjunct1[OF p] s1(2)] Cons.prems(3) by simp
  have "find (\<lambda>(u, e). key u = key w) ves = None" if "key v = key w" for w
    using that Cons.prems(3) ve by (force simp: find_None_iff)
  then show ?case using IH p ve by (auto split: option.splits)
qed simp

end

definition put_pte :: "uptr \<Rightarrow> u64 \<Rightarrow> pagetables \<Rightarrow> pagetables option" where
  "put_pte virt e st =
     do { (loc, st) \<leftarrow> find_page_table_entry virt True st; (t, i) \<leftarrow> loc; Some (set_entry t i e st) }"

lemma put_pte_spec:
  assumes "pt_ok st" "put_pte virt e st = Some st'"
  shows "pt_ok st' \<and> (\<forall>v. pte st' v = (if vpn v = vpn virt then e else pte st v))"
proof -
  obtain t st1 where w: "walk True virt [39, 30, 21] (pml4 st) st = Some (Some t, st1)"
    and st': "st' = set_entry t (pt_index virt 12) e st1"
    using assms(2) by (auto simp: put_pte_def find_page_table_entry_def split: bind_splits)
  have r0: "reach (tabs st) (pml4 st) [] = Some (pml4 st)" by simp
  have l0: "length ([] :: nat list) + length [39 :: nat, 30, 21] = 3" by simp
  have s1: "pt_ok st1" "reach (tabs st1) (pml4 st1) (indices virt) = Some t" "\<And>js k. length js = 3 \<Longrightarrow> entry_at st1 js k = entry_at st js k"
    using walk_spec[OF assms(1) r0 l0 w, unfolded append_Nil indices_def[symmetric]] by blast+
  have len: "length (indices v) = 3" for v by (simp add: indices_def)
  note leaf = set_leaf_spec[OF s1(1,2) len]
  have "pte st' v = (if vpn v = vpn virt then e else pte st v)" for v
    using leaf(2)[OF len, of "pt_index virt 12" e v "pt_index v 12"] s1(3)[OF len] indices_vpn[of v virt]
    by (auto simp: pte_entry_at st')
  then show ?thesis using leaf(1) st' by blast
qed

interpretation tree: page_map put_pte pte vpn pt_ok
  by unfold_locales (rule put_pte_spec)

lemma map_page_put: "map_page phy virt flags st = put_pte virt ((phy AND ADDR_MASK) OR flags) st"
  by (simp add: map_page_def put_pte_def)

lemma map_pages_loop_put:
  "map_pages_loop phy virt flags i n st =
   tree.put_all (map (\<lambda>j. (virt + of_nat j * PAGE_SIZE, ((phy + of_nat j * PAGE_SIZE) AND ADDR_MASK) OR flags)) [i..<i + n]) st"
proof (induction n arbitrary: i st)
  case (Suc n)
  have "map_pages_loop phy virt flags (Suc i) n = tree.put_all (map (\<lambda>j. (virt + of_nat j * PAGE_SIZE,
      ((phy + of_nat j * PAGE_SIZE) AND ADDR_MASK) OR flags)) [Suc i..<i + Suc n])"
    by (rule ext) (use Suc.IH[of "Suc i"] in simp)
  then show ?case by (simp add: map_page_put upt_conv_Cons del: upt_Suc)
qed simp


lemma vpn_unat: "vpn v = unat v div 4096 mod 2 ^ 36"
  unfolding vpn_def by (simp add: take_bit_eq_mod drop_bit_eq_div unat_div unat_mod)

lemma vpn_page:
  assumes "unat virt + j * 4096 < 2 ^ 64"
  shows "vpn (virt + of_nat j * PAGE_SIZE) = (unat virt div 4096 + j) mod 2 ^ 36"
proof -
  have "unat (of_nat j * PAGE_SIZE :: u64) = j * 4096"
    using assms by (subst unat_mult_no_wrap) (simp_all add: unat_of_nat)
  then have "unat (virt + of_nat j * PAGE_SIZE) = unat virt + j * 4096" using assms by (subst unat_add_no_wrap) simp_all
  then show ?thesis by (simp add: vpn_unat add.commute)
qed

text \<open>
  C8: The page tables are a map. In a tree of tables without sharing, \<^verbatim>\<open>map_pages\<close> over a range of
  fewer than \<open>2 ^ 36\<close> pages that does not pass the end of the address space gives every page of the
  range exactly the entry for its physical page and flags, leaves the entry of every other page as
  it was although tables are allocated and linked on the way, and keeps the tables a tree that owns
  its pages.
\<close>

theorem map_pages_translates:
  assumes "pt_ok st" "map_pages phy virt sz flags st = Some st'"
    and "n = unat (align_up sz PAGE_SIZE div PAGE_SIZE)" "unat virt + n * 4096 \<le> 2 ^ 64" "n < 2 ^ 36"
  shows "pt_ok st' \<and>
         (\<forall>i<n. pte st' (virt + of_nat i * PAGE_SIZE) = ((phy + of_nat i * PAGE_SIZE) AND ADDR_MASK) OR flags) \<and>
         (\<forall>w. (\<forall>i<n. vpn w \<noteq> vpn (virt + of_nat i * PAGE_SIZE)) \<longrightarrow> pte st' w = pte st w)"
proof -
  let ?ves = "map (\<lambda>j. (virt + of_nat j * PAGE_SIZE, ((phy + of_nat j * PAGE_SIZE) AND ADDR_MASK) OR flags)) [0..<n]"
  have run: "tree.put_all ?ves st = Some st'"
    using assms(2,3) map_pages_loop_put[of phy virt flags 0 n st] by (simp add: map_pages_def)
  have key: "vpn (virt + of_nat i * PAGE_SIZE) = (unat virt div 4096 + i) mod 2 ^ 36" if "i < n" for i
  proof -
    have "unat virt + i * 4096 < 2 ^ 64" using assms(4) that by linarith
    then show ?thesis by (rule vpn_page)
  qed
  have inj: "i = j" if "i < n" "j < n" "vpn (virt + of_nat i * PAGE_SIZE) = vpn (virt + of_nat j * PAGE_SIZE)" for i j
  proof -
    let ?b = "unat virt div 4096"
    have "(?b + i) mod 2 ^ 36 = (?b + j) mod 2 ^ 36" using key that by simp
    then have "i mod 2 ^ 36 = j mod 2 ^ 36" by (simp add: nat_mod_eq_iff)
    then show ?thesis using that(1,2) assms(5) by simp
  qed
  have "distinct (map (vpn \<circ> fst) ?ves)" using inj by (auto simp: distinct_map inj_on_def)
  from tree.put_all_spec[OF assms(1) run this] have
    ok: "pt_ok st'" and g: "\<And>w. pte st' w = (case find (\<lambda>(v, e). vpn v = vpn w) ?ves of None \<Rightarrow> pte st w | Some (v, e) \<Rightarrow> e)" by blast+
  have "pte st' (virt + of_nat i * PAGE_SIZE) = ((phy + of_nat i * PAGE_SIZE) AND ADDR_MASK) OR flags" if i: "i < n" for i
  proof -
    have "vpn (virt + of_nat j * PAGE_SIZE) \<noteq> vpn (virt + of_nat i * PAGE_SIZE)" if "j < i" for j
      using inj[of j i] i that by auto
    then have "find (\<lambda>(v, e). vpn v = vpn (virt + of_nat i * PAGE_SIZE)) ?ves = Some (?ves ! i)"
      using i by (auto simp: find_Some_iff intro!: exI[of _ i])
    then show ?thesis using g[of "virt + of_nat i * PAGE_SIZE"] i by simp
  qed
  moreover have "pte st' w = pte st w" if w: "\<forall>i<n. vpn w \<noteq> vpn (virt + of_nat i * PAGE_SIZE)" for w
  proof -
    have "find (\<lambda>(v, e). vpn v = vpn w) ?ves = None" using w by (auto simp: find_None_iff)
    then show ?thesis using g[of w] by simp
  qed
  ultimately show ?thesis using ok by blast
qed

definition example_pt :: pagetables where
  "example_pt = \<lparr>pml4 = 0x1000, tabs = (\<lambda>_ _. 0), page_table_pages_list = [1],
     pmem = \<lparr>page_structs = (\<lambda>p. if 1 \<le> p \<and> p \<le> 5 then Some \<lparr>free = 2 \<le> p, mapped_addr = 0\<rparr> else None),
             page_freelist = [2, 3, 4, 5], region_list = [], stats = \<lparr>total_pages_usable = 5, total_pages_reserved = 0, total_free_pages = 4\<rparr>\<rparr>\<rparr>"


lemma example_pt_ok: "pt_ok example_pt"
proof -
  have r: "reach (tabs example_pt) (pml4 example_pt) is = Some t \<longleftrightarrow> is = [] \<and> t = 0x1000" for "is" t
    by (cases "is") (auto simp: example_pt_def)
  have f: "free_set (pmem example_pt) = {2, 3, 4, 5}" by (auto simp: example_pt_def free_set_def)
  have iff: "(p :: u64) \<in> {2, 3, 4, 5} \<longleftrightarrow> 2 \<le> p \<and> p \<le> 5" for p
  proof
    assume "2 \<le> p \<and> p \<le> 5"
    then have "unat p \<in> {2..5}" by (simp add: word_le_nat_alt)
    then have "unat p \<in> {2, 3, 4, 5}" by auto
    then show "p \<in> {2, 3, 4, 5}" by (auto simp: word_unat_eq_iff)
  qed auto
  have struct: "(\<exists>pg. page_structs (pmem example_pt) p = Some pg \<and> free pg) \<longleftrightarrow> 2 \<le> p \<and> p \<le> 5" for p
    by (auto simp: example_pt_def word_le_nat_alt)
  have "pmm_ok (pmem example_pt)" unfolding pmm_ok_def struct using iff by (simp add: example_pt_def)
  moreover have "(0x1000 :: u64) \<notin> (\<lambda>p. p * PAGE_SIZE) ` {2, 3, 4, 5}" by (simp add: PAGE_SIZE_def)
  ultimately show ?thesis unfolding pt_ok_def r f by auto
qed

theorem map_pages_translates_witness:
  "\<exists>st'. map_pages 0x7000 0x400000 0x1000 3 example_pt = Some st' \<and> pt_ok st' \<and> pte st' 0x400000 = 0x7003 \<and> pte st' 0x401000 = 0"
proof -
  have "map_pages 0x7000 0x400000 0x1000 3 example_pt \<noteq> None" by code_simp
  then obtain st' where run: "map_pages 0x7000 0x400000 0x1000 3 example_pt = Some st'" by blast
  have n: "unat (align_up 0x1000 PAGE_SIZE div PAGE_SIZE) = 1" "vpn 0x401000 \<noteq> vpn 0x400000" "pte example_pt 0x401000 = 0" by code_simp+
  show ?thesis using map_pages_translates[OF example_pt_ok run n(1)[symmetric]] run n(2,3) by (simp add: ADDR_MASK_def)
qed

end
