(* ===== verification/Mem_Ranges.thy ===== *)
theory Mem_Ranges
  imports Mem_Paging
begin

text \<open>
  Address spaces: the mapped ranges of \<^verbatim>\<open>mem/vmm.cpp\<close> and the memory system calls. A range carries a
  number that stands for its address; \<open>range_list\<close> is the sequence of its ring. The page tables are
  the map from page numbers to entries that \<open>Mem_Paging\<close> shows them to be. \<open>contents\<close> are the bytes of
  the physical pages and \<open>read_page f off\<close> is what a page filled from file \<open>f\<close> at an offset holds
  (zeroes, overwritten by the \<^verbatim>\<open>read\<close> of the file's vnode).
\<close>

section \<open>State\<close>

datatype range_type = TNONE | TDIRECT | TANONYMOUS | TFILE | TDIRECT_VIRTUAL

record mapped_range =
  range_id :: nat
  range_base :: uptr
  original_base :: uptr
  range_length :: usize
  page_flags :: u64
  range_type :: range_type
  phy_base :: uptr
  range_file :: "nat option"
  file_offset :: usize
  page_list :: "u64 list"

record vm =
  range_list :: "mapped_range list"
  ptes :: "nat \<Rightarrow> u64"
  vmem_pages :: pmm
  contents :: "u64 \<Rightarrow> u8 list"
  cached_range_lookup :: "nat option"
  file_refs :: "nat \<Rightarrow> int"
  next_id :: nat

definition range_end :: "mapped_range \<Rightarrow> uptr" where
  "range_end r = range_base r + range_length r"

definition upd_range :: "nat \<Rightarrow> (mapped_range \<Rightarrow> mapped_range) \<Rightarrow> vm \<Rightarrow> vm" where
  "upd_range i f v = v\<lparr>range_list := map (\<lambda>r. if range_id r = i then f r else r) (range_list v)\<rparr>"

definition get_range :: "nat \<Rightarrow> vm \<Rightarrow> mapped_range option" where
  "get_range i v = find (\<lambda>r. range_id r = i) (range_list v)"

section \<open>Pages\<close>

text \<open>Taking a page out of the ring it is in: no range lists it any more.\<close>

definition unlink_page :: "u64 \<Rightarrow> vm \<Rightarrow> vm" where
  "unlink_page p v = v\<lparr>range_list := map (\<lambda>r. r\<lparr>page_list := removeAll p (page_list r)\<rparr>) (range_list v)\<rparr>"

definition set_mapped_addr :: "u64 \<Rightarrow> uptr \<Rightarrow> pmm \<Rightarrow> pmm option" where
  "set_mapped_addr p a m =
     do { pg \<leftarrow> page_structs m p; Some (m\<lparr>page_structs := (page_structs m)(p \<mapsto> pg\<lparr>mapped_addr := a\<rparr>)\<rparr>) }"

text \<open>The page a present entry refers to, unlinked; \<open>None\<close> inside when the address is not in a region.\<close>

definition take_page :: "u64 \<Rightarrow> vm \<Rightarrow> (u64 option \<times> vm) option" where
  "take_page phy v =
     do { page \<leftarrow> find_page phy (vmem_pages v);
          case page of
            None \<Rightarrow> Some (None, v)
          | Some p \<Rightarrow>
              do { pg \<leftarrow> page_structs (vmem_pages v) p;
                   if free pg then None else Some (Some p, unlink_page p v) } }"

definition invalidate_page :: "uptr \<Rightarrow> nat option \<Rightarrow> vm \<Rightarrow> vm option" where
  "invalidate_page virt rg v =
     (let e = ptes v (vpn virt) in
      if e AND PAGE_PRESENT = 0 then Some v
      else do {
        (page, v) \<leftarrow> take_page (e AND ADDR_MASK) v;
        case rg of
          Some i \<Rightarrow>
            do { r \<leftarrow> get_range i v;
                 if page_flags r AND PAGE_PRESENT = 0 then None
                 else do {
                   (p, m) \<leftarrow> (case page of Some p \<Rightarrow> Some (p, vmem_pages v) | None \<Rightarrow> alloc_page (vmem_pages v));
                   m \<leftarrow> set_mapped_addr p virt m;
                   let phy = (if page = None then p * PAGE_SIZE else e AND ADDR_MASK);
                   Some (upd_range i (\<lambda>r. r\<lparr>page_list := page_list r @ [p]\<rparr>)
                     (v\<lparr>vmem_pages := m, ptes := (ptes v)(vpn virt := phy OR page_flags r)\<rparr>)) } }
        | None \<Rightarrow>
            do { m \<leftarrow> (case page of Some p \<Rightarrow> free_page p (vmem_pages v) | None \<Rightarrow> Some (vmem_pages v));
                 Some (v\<lparr>vmem_pages := m, ptes := (ptes v)(vpn virt := 0)\<rparr>) } })"

fun invalidate_loop :: "uptr \<Rightarrow> nat option \<Rightarrow> nat \<Rightarrow> nat \<Rightarrow> vm \<Rightarrow> vm option" where
  "invalidate_loop base rg i 0 v = Some v"
| "invalidate_loop base rg i (Suc n) v =
     do { v \<leftarrow> invalidate_page (base + of_nat i * PAGE_SIZE) rg v; invalidate_loop base rg (Suc i) n v }"

definition invalidate_pages :: "uptr \<Rightarrow> usize \<Rightarrow> nat option \<Rightarrow> vm \<Rightarrow> vm option" where
  "invalidate_pages base len rg v =
     invalidate_loop base rg 0 (unat (align_up len PAGE_SIZE div PAGE_SIZE)) v"

section \<open>Ranges\<close>

text \<open>The destructor: the range leaves the list, its pages are freed, the file is released.\<close>

fun free_pages :: "u64 list \<Rightarrow> pmm \<Rightarrow> pmm option" where
  "free_pages [] m = Some m"
| "free_pages (p # ps) m = do { m \<leftarrow> free_page p m; free_pages ps m }"

definition delete_range :: "nat \<Rightarrow> vm \<Rightarrow> vm option" where
  "delete_range i v =
     do { r \<leftarrow> get_range i v;
          m \<leftarrow> free_pages (page_list r) (vmem_pages v);
          Some (v\<lparr>range_list := filter (\<lambda>r. range_id r \<noteq> i) (range_list v), vmem_pages := m,
                  file_refs := (case range_file r of None \<Rightarrow> file_refs v | Some f \<Rightarrow> (file_refs v)(f := file_refs v f - 1))\<rparr>) }"

record range_request =
  q_base :: uptr
  q_length :: usize
  q_flags :: u64
  q_type :: range_type
  q_phy :: uptr
  q_file :: "nat option"
  q_offset :: usize

definition q_end :: "range_request \<Rightarrow> uptr" where
  "q_end q = q_base q + q_length q"

text \<open>
  Where the new range is linked in: after the first range, or after the last one before a range
  with a larger base. (A range with the smallest base so comes second.)
\<close>

fun insert_range :: "mapped_range \<Rightarrow> mapped_range list \<Rightarrow> mapped_range list" where
  "insert_range r [] = [r]"
| "insert_range r [a] = [a, r]"
| "insert_range r (a # b # rest) =
     (if range_base b > range_base r then a # r # b # rest else a # insert_range r (b # rest))"

text \<open>The end of \<^verbatim>\<open>add_range\<close>: a new range object.\<close>

definition new_range :: "range_request \<Rightarrow> nat \<Rightarrow> mapped_range" where
  "new_range q i = \<lparr>range_id = i, range_base = q_base q, original_base = q_base q, range_length = q_length q,
     page_flags = q_flags q, range_type = q_type q, phy_base = q_phy q, range_file = q_file q,
     file_offset = q_offset q, page_list = []\<rparr>"

definition link_new_range :: "range_request \<Rightarrow> vm \<Rightarrow> nat \<times> vm" where
  "link_new_range q v =
     (next_id v, v\<lparr>range_list := insert_range (new_range q (next_id v)) (range_list v), next_id := next_id v + 1,
        file_refs := (case q_file q of None \<Rightarrow> file_refs v | Some f \<Rightarrow> (file_refs v)(f := file_refs v f + 1))\<rparr>)"

definition overlaps :: "range_request \<Rightarrow> mapped_range \<Rightarrow> bool" where
  "overlaps q r \<longleftrightarrow> \<not> (q_base q \<ge> range_end r \<or> q_end q \<le> range_base r)"

text \<open>
  What the loop does with one existing range: \<open>Inl i\<close> when \<^verbatim>\<open>add_range\<close> returns it, otherwise
  whether there was an overlap.
\<close>

definition split_request :: "range_request \<Rightarrow> mapped_range \<Rightarrow> range_request" where
  "split_request q r =
     (let base2 = q_end q; split_offset = base2 - range_base r in
      \<lparr>q_base = base2, q_length = range_end r - q_end q, q_flags = page_flags r, q_type = range_type r,
       q_phy = (if phy_base r \<noteq> 0 then phy_base r + split_offset else 0), q_file = range_file r,
       q_offset = file_offset r + split_offset\<rparr>)"

definition split_range :: "range_request \<Rightarrow> mapped_range \<Rightarrow> vm \<Rightarrow> vm option" where
  "split_range q r v =
     do { let v = upd_range (range_id r) (\<lambda>r. r\<lparr>range_length := q_base q - range_base r\<rparr>) v;
          let (s, v) = link_new_range (split_request q r) v;
          invalidate_pages (q_base (split_request q r)) (q_length (split_request q r)) (Some s) v }"

definition resolve_one :: "range_request \<Rightarrow> bool \<Rightarrow> nat \<Rightarrow> vm \<Rightarrow> ((nat + bool) \<times> vm) option" where
  "resolve_one q keep_pages i v =
     do { r \<leftarrow> get_range i v;
          if \<not> overlaps q r then Some (Inr False, v)
          else if q_base q \<le> range_base r then
            if q_end q \<ge> range_end r then
              if keep_pages \<and> q_base q = range_base r \<and> q_end q = range_end r \<and> q_type q = range_type r
              then if page_flags r \<noteq> q_flags q
                   then do { v \<leftarrow> invalidate_pages (range_base r) (range_length r) (Some i)
                                    (upd_range i (\<lambda>r. r\<lparr>page_flags := q_flags q\<rparr>) v);
                             Some (Inl i, v) }
                   else Some (Inl i, v)
              else do { v \<leftarrow> invalidate_pages (range_base r) (range_length r) None v;
                        v \<leftarrow> delete_range i v;
                        Some (Inr True, v) }
            else let overlap = q_end q - range_base r in
                 Some (Inr True, upd_range i (\<lambda>r. r\<lparr>range_base := range_base r + overlap,
                                                 range_length := range_length r - overlap\<rparr>) v)
          else if q_end q \<ge> range_end r
          then Some (Inr True, upd_range i (\<lambda>r. r\<lparr>range_length := range_length r - (range_end r - q_base q)\<rparr>) v)
          else do { v \<leftarrow> split_range q r v; Some (Inr True, v) } }"

text \<open>
  One pass of the loop over the ranges. A split-off range that is linked in during the pass does not
  overlap the request, so passing over it or not makes no difference.
\<close>

fun resolve_pass :: "range_request \<Rightarrow> bool \<Rightarrow> nat list \<Rightarrow> bool \<Rightarrow> vm \<Rightarrow> ((nat + bool) \<times> vm) option" where
  "resolve_pass q keep [] had v = Some (Inr had, v)"
| "resolve_pass q keep (i # is) had v =
     do { (r, v) \<leftarrow> resolve_one q keep i v;
          case r of Inl j \<Rightarrow> Some (Inl j, v) | Inr b \<Rightarrow> resolve_pass q keep is (had \<or> b) v }"

partial_function (option) resolve_loop :: "range_request \<Rightarrow> bool \<Rightarrow> bool \<Rightarrow> vm \<Rightarrow> ((nat + bool) \<times> vm) option" where
  "resolve_loop q keep had v =
     do { (r, v) \<leftarrow> resolve_pass q keep (map range_id (range_list v)) False v;
          case r of
            Inl j \<Rightarrow> Some (Inl j, v)
          | Inr again \<Rightarrow> if again then resolve_loop q keep True v else Some (Inr had, v) }"

declare resolve_loop.simps [code]

text \<open>The attempt to extend an anonymous neighbour: the range it has been merged into.\<close>

definition merge_target :: "range_request \<Rightarrow> vm \<Rightarrow> mapped_range option" where
  "merge_target q v =
     find (\<lambda>r. q_type q = range_type r \<and> q_flags q = page_flags r \<and> (q_base q = range_end r \<or> q_end q = range_base r)) (range_list v)"

definition merge_into :: "range_request \<Rightarrow> mapped_range \<Rightarrow> mapped_range \<Rightarrow> mapped_range" where
  "merge_into q r0 r =
     (if q_base q = range_end r0 then r\<lparr>range_length := range_length r + q_length q\<rparr>
      else r\<lparr>range_base := range_base r - q_length q, range_length := range_length r + q_length q\<rparr>)"

text \<open>\<^verbatim>\<open>Pagemap::add_range\<close>: the range it returns, \<open>None\<close> inside for a null pointer.\<close>

definition place_range :: "range_request \<Rightarrow> bool \<Rightarrow> bool \<Rightarrow> vm \<Rightarrow> (nat option \<times> vm) option" where
  "place_range q merge had v =
     (case (if merge \<and> q_type q = TANONYMOUS then merge_target q v else None) of
        Some r \<Rightarrow>
          do { let v = upd_range (range_id r) (merge_into q r) v;
               v \<leftarrow> (if had then invalidate_pages (q_base q) (q_length q) (Some (range_id r)) v else Some v);
               Some (None, v) }
      | None \<Rightarrow>
          if q_type q = TNONE then do { v \<leftarrow> invalidate_pages (q_base q) (q_length q) None v; Some (None, v) }
          else do { let (i, v) = link_new_range q v;
                    v \<leftarrow> (if had then invalidate_pages (q_base q) (q_length q) (Some i) v else Some v);
                    Some (Some i, v) })"

definition add_range :: "range_request \<Rightarrow> bool \<Rightarrow> bool \<Rightarrow> bool \<Rightarrow> vm \<Rightarrow> (nat option \<times> vm) option" where
  "add_range q merge resolve keep_pages v =
     do { let v = v\<lparr>cached_range_lookup := None\<rparr>;
          (r, v) \<leftarrow> (if resolve then resolve_loop q keep_pages False v else Some (Inr False, v));
          case r of Inl i \<Rightarrow> Some (Some i, v) | Inr had \<Rightarrow> place_range q merge had v }"

definition map_anonymous :: "uptr \<Rightarrow> usize \<Rightarrow> u64 \<Rightarrow> bool \<Rightarrow> vm \<Rightarrow> vm option" where
  "map_anonymous base len flags keep_pages v =
     (if flags AND PAGE_PRESENT = 0 then None
      else map_option snd (add_range \<lparr>q_base = base, q_length = len, q_flags = flags, q_type = TANONYMOUS, q_phy = 0,
             q_file = None, q_offset = 0\<rparr> True True keep_pages v))"

definition map_direct :: "uptr \<Rightarrow> usize \<Rightarrow> u64 \<Rightarrow> uptr \<Rightarrow> vm \<Rightarrow> vm option" where
  "map_direct base len flags phy v =
     (if flags AND PAGE_PRESENT = 0 then None
      else map_option snd (add_range \<lparr>q_base = base, q_length = len, q_flags = flags, q_type = TDIRECT, q_phy = phy,
             q_file = None, q_offset = 0\<rparr> False True False v))"

definition map_file :: "uptr \<Rightarrow> usize \<Rightarrow> u64 \<Rightarrow> nat \<Rightarrow> usize \<Rightarrow> vm \<Rightarrow> vm option" where
  "map_file base len flags f off v =
     (if flags AND PAGE_PRESENT = 0 then None
      else map_option snd (add_range \<lparr>q_base = base, q_length = len, q_flags = flags, q_type = TFILE, q_phy = 0,
             q_file = Some f, q_offset = off\<rparr> False True False v))"

section \<open>Lookups and faults\<close>

definition has_addr :: "uptr \<Rightarrow> mapped_range \<Rightarrow> bool" where
  "has_addr virt r \<longleftrightarrow> virt \<ge> range_base r \<and> virt < range_end r"

text \<open>
  \<^verbatim>\<open>addr_to_range\<close> with the kernel's ranges as the last resort; the cache is a pointer, so a cached
  range that no longer exists is \<open>None\<close>.
\<close>

definition addr_to_range :: "mapped_range list \<Rightarrow> uptr \<Rightarrow> vm \<Rightarrow> (mapped_range option \<times> vm) option" where
  "addr_to_range kranges virt v =
     (let search = (case find (has_addr virt) (range_list v @ kranges) of
                      Some r \<Rightarrow> (Some r, v\<lparr>cached_range_lookup := Some (range_id r)\<rparr>)
                    | None \<Rightarrow> (None, v)) in
      case cached_range_lookup v of
        None \<Rightarrow> Some search
      | Some i \<Rightarrow>
          do { r \<leftarrow> find (\<lambda>r. range_id r = i) (range_list v @ kranges);
               Some (if has_addr virt r then (Some r, v) else search) })"

definition add_page :: "nat \<Rightarrow> uptr \<Rightarrow> u8 list \<Rightarrow> u64 \<Rightarrow> vm \<Rightarrow> (u64 \<times> vm) option" where
  "add_page i page_virt bytes flags v =
     do { (p, m) \<leftarrow> alloc_page (vmem_pages v);
          m \<leftarrow> set_mapped_addr p page_virt m;
          Some (p * PAGE_SIZE, upd_range i (\<lambda>r. r\<lparr>page_list := page_list r @ [p]\<rparr>)
            (v\<lparr>vmem_pages := m, contents := (contents v)(p := bytes), ptes := (ptes v)(vpn page_virt := p * PAGE_SIZE OR flags)\<rparr>)) }"

definition range_offset :: "mapped_range \<Rightarrow> uptr \<Rightarrow> usize" where
  "range_offset r a = a - original_base r + file_offset r"

text \<open>
  \<^verbatim>\<open>handle_page_fault\<close>. For a range that mirrors other addresses the fault on those is taken first if
  they have no page table, which \<open>has_table\<close> decides; a chain of more than \<open>depth\<close> such ranges is
  \<open>None\<close> (the kernel never maps one mirrored range onto another, so a depth of 2 is enough).
\<close>

definition zero_page :: "u8 list" where
  "zero_page = replicate 4096 0"

definition direct_phy :: "mapped_range \<Rightarrow> uptr \<Rightarrow> uptr" where
  "direct_phy r a = a - original_base r + phy_base r"

fun handle_page_fault ::
  "nat \<Rightarrow> (nat \<Rightarrow> usize \<Rightarrow> u8 list) \<Rightarrow> (vm \<Rightarrow> uptr \<Rightarrow> bool) \<Rightarrow> mapped_range list \<Rightarrow> uptr \<Rightarrow> vm \<Rightarrow> (u64 res \<times> vm) option" where
  "handle_page_fault 0 read_page has_table kranges virt v = None"
| "handle_page_fault (Suc depth) read_page has_table kranges virt v =
     (let page_virt = align_down virt PAGE_SIZE in
      if ptes v (vpn virt) AND PAGE_PRESENT \<noteq> 0 then Some (Inl EFAULT, v)
      else do {
        (rg, v) \<leftarrow> addr_to_range kranges virt v;
        case rg of
          None \<Rightarrow> Some (Inl EFAULT, v)
        | Some r \<Rightarrow>
            (case range_type r of
               TANONYMOUS \<Rightarrow>
                 do { (phy, v) \<leftarrow> add_page (range_id r) page_virt zero_page (page_flags r) v; Some (Inr phy, v) }
             | TDIRECT \<Rightarrow>
                 Some (Inr (direct_phy r page_virt),
                       v\<lparr>ptes := (ptes v)(vpn virt := (direct_phy r page_virt AND ADDR_MASK) OR page_flags r)\<rparr>)
             | TFILE \<Rightarrow>
                 do { f \<leftarrow> range_file r;
                      (phy, v) \<leftarrow> add_page (range_id r) page_virt (read_page f (range_offset r page_virt)) (page_flags r) v;
                      Some (Inr phy, v) }
             | TDIRECT_VIRTUAL \<Rightarrow>
                 do { let target = direct_phy r page_virt;
                      v \<leftarrow> (if has_table v target then Some v
                            else map_option snd (handle_page_fault depth read_page has_table kranges target v));
                      if \<not> has_table v target then Some (Inl EFAULT, v)
                      else let phy = ptes v (vpn target) AND ADDR_MASK in
                           Some (Inr phy, v\<lparr>ptes := (ptes v)(vpn virt := phy OR page_flags r)\<rparr>) }
             | TNONE \<Rightarrow> Some (Inl EFAULT, v)) })"

definition get_physical_addr ::
  "nat \<Rightarrow> (nat \<Rightarrow> usize \<Rightarrow> u8 list) \<Rightarrow> (vm \<Rightarrow> uptr \<Rightarrow> bool) \<Rightarrow> mapped_range list \<Rightarrow> uptr \<Rightarrow> vm \<Rightarrow> (u64 res \<times> vm) option" where
  "get_physical_addr depth read_page has_table kranges virt v =
     (if ptes v (vpn virt) AND PAGE_PRESENT \<noteq> 0 then Some (Inr (ptes v (vpn virt) AND ADDR_MASK), v)
      else handle_page_fault depth read_page has_table kranges virt v)"


section \<open>System calls\<close>

definition PROT_READ :: u32 where "PROT_READ = 1"
definition PROT_WRITE :: u32 where "PROT_WRITE = 2"
definition PROT_EXEC :: u32 where "PROT_EXEC = 4"
definition MAP_SHARED :: u32 where "MAP_SHARED = 1"
definition MAP_FIXED :: u32 where "MAP_FIXED = 0x10"
definition MAP_ANONYMOUS :: u32 where "MAP_ANONYMOUS = 0x20"

definition mmap_prot_to_page_flags :: "u32 \<Rightarrow> u64" where
  "mmap_prot_to_page_flags prot =
     (let f = PAGE_PRESENT OR PAGE_USER;
          f = (if prot AND PROT_WRITE \<noteq> 0 then f OR PAGE_WRITABLE else f)
      in if prot AND PROT_EXEC = 0 then f OR PAGE_NO_EXECUTE else f)"

record process_memory =
  pagemap :: vm
  mmap_anon_base :: uptr
  brk :: uptr

text \<open>
  The address \<^verbatim>\<open>mmap\<close> uses, and \<^verbatim>\<open>mmap\<close> itself. For a file, \<open>file\<close> is the description of the
  descriptor (whether it can be read and written, and its number) and the mapping is made by the
  \<^verbatim>\<open>mmap\<close> operation of its vnode, a parameter here.
\<close>

definition mmap_base :: "uptr \<Rightarrow> usize \<Rightarrow> u32 \<Rightarrow> process_memory \<Rightarrow> uptr \<times> process_memory" where
  "mmap_base addr aligned_size flags pm =
     (if flags AND MAP_FIXED \<noteq> 0
      then (addr, pm\<lparr>mmap_anon_base := align_up (kmax (mmap_anon_base pm) (addr + aligned_size)) PAGE_SIZE\<rparr>)
      else (mmap_anon_base pm, pm\<lparr>mmap_anon_base := mmap_anon_base pm + aligned_size\<rparr>))"

definition syscall_mmap ::
  "(nat \<Rightarrow> uptr \<Rightarrow> usize \<Rightarrow> usize \<Rightarrow> u32 \<Rightarrow> u32 \<Rightarrow> vm \<Rightarrow> (uptr res \<times> vm) option) \<Rightarrow> (bool \<times> bool \<times> nat) option \<Rightarrow>
   uptr \<Rightarrow> usize \<Rightarrow> u32 \<Rightarrow> u32 \<Rightarrow> usize \<Rightarrow> process_memory \<Rightarrow> (uptr res \<times> process_memory) option" where
  "syscall_mmap vnode_mmap file addr len prot flags offset pm =
     (if len = 0 then Some (Inl EINVAL, pm)
      else do {
        let aligned_size = align_up len PAGE_SIZE;
        let (base, pm) = mmap_base addr aligned_size flags pm;
        if flags AND MAP_ANONYMOUS \<noteq> 0
        then do { v \<leftarrow> map_anonymous base aligned_size (mmap_prot_to_page_flags prot) (flags AND MAP_FIXED = 0) (pagemap pm);
                  Some (Inr base, pm\<lparr>pagemap := v\<rparr>) }
        else case file of
          None \<Rightarrow> Some (Inl EBADF, pm)
        | Some (can_rd, can_wr, f) \<Rightarrow>
            if \<not> can_rd then Some (Inl EACCES, pm)
            else if flags AND MAP_SHARED \<noteq> 0 \<and> prot AND PROT_WRITE \<noteq> 0 \<and> \<not> can_wr then Some (Inl EACCES, pm)
            else do { (r, v) \<leftarrow> vnode_mmap f base aligned_size offset prot flags (pagemap pm);
                      Some (r, pm\<lparr>pagemap := v\<rparr>) } })"

definition unmap_request :: "uptr \<Rightarrow> usize \<Rightarrow> range_request" where
  "unmap_request base len = \<lparr>q_base = base, q_length = len, q_flags = 0, q_type = TNONE, q_phy = 0, q_file = None, q_offset = 0\<rparr>"

definition syscall_munmap :: "uptr \<Rightarrow> usize \<Rightarrow> process_memory \<Rightarrow> (unit res \<times> process_memory) option" where
  "syscall_munmap addr len pm =
     (if addr mod PAGE_SIZE \<noteq> 0 then Some (Inl EINVAL, pm)
      else do {
        let len = align_up len PAGE_SIZE;
        (r, v) \<leftarrow> add_range (unmap_request addr len) False True False (pagemap pm);
        Some (Inr (), pm\<lparr>pagemap := v, mmap_anon_base := (if mmap_anon_base pm = addr + len then addr else mmap_anon_base pm)\<rparr>) })"

text \<open>The loop of \<^verbatim>\<open>mprotect\<close>, over the ranges that cover the addresses.\<close>

partial_function (option) mprotect_loop :: "mapped_range list \<Rightarrow> uptr \<Rightarrow> uptr \<Rightarrow> u32 \<Rightarrow> vm \<Rightarrow> (unit res \<times> vm) option" where
  "mprotect_loop kranges current end' prot v =
     (if \<not> current < end' then Some (Inr (), v)
      else do {
        (rg, v) \<leftarrow> addr_to_range kranges current v;
        case rg of
          None \<Rightarrow> Some (Inl ENOMEM, v)
        | Some r \<Rightarrow>
            do { let len = range_end r - current;
                 let range_len = (if current + len > end' then end' - current else len);
                 (x, v) \<leftarrow> add_range \<lparr>q_base = current, q_length = range_len, q_flags = mmap_prot_to_page_flags prot,
                     q_type = range_type r, q_phy = (if phy_base r \<noteq> 0 then phy_base r + (current - range_base r) else 0),
                     q_file = range_file r, q_offset = file_offset r + (current - range_base r)\<rparr> True True True v;
                 mprotect_loop kranges (current + range_len) end' prot v } })"

declare mprotect_loop.simps [code]

definition syscall_mprotect :: "mapped_range list \<Rightarrow> uptr \<Rightarrow> usize \<Rightarrow> u32 \<Rightarrow> vm \<Rightarrow> (unit res \<times> vm) option" where
  "syscall_mprotect kranges addr len prot v =
     (if addr mod PAGE_SIZE \<noteq> 0 then Some (Inl EINVAL, v)
      else mprotect_loop kranges addr (addr + align_up len PAGE_SIZE) prot v)"

text \<open>\<^verbatim>\<open>mincore\<close>: the bytes it has stored when it returns.\<close>

fun mincore_loop :: "mapped_range list \<Rightarrow> uptr \<Rightarrow> nat \<Rightarrow> nat \<Rightarrow> u8 list \<Rightarrow> vm \<Rightarrow> ((unit res \<times> u8 list) \<times> vm) option" where
  "mincore_loop kranges addr i 0 vec v = Some ((Inr (), vec), v)"
| "mincore_loop kranges addr i (Suc n) vec v =
     do { (rg, v) \<leftarrow> addr_to_range kranges (addr + of_nat i * PAGE_SIZE) v;
          if rg = None then Some ((Inl ENOMEM, vec), v)
          else mincore_loop kranges addr (Suc i) n (vec @ [1]) v }"

definition syscall_mincore :: "mapped_range list \<Rightarrow> uptr \<Rightarrow> usize \<Rightarrow> vm \<Rightarrow> ((unit res \<times> u8 list) \<times> vm) option" where
  "syscall_mincore kranges addr len v =
     (if addr mod PAGE_SIZE \<noteq> 0 then Some ((Inl EINVAL, []), v)
      else mincore_loop kranges addr 0 (unat (align_up len PAGE_SIZE div PAGE_SIZE)) [] v)"

text \<open>\<^verbatim>\<open>madvise\<close>, by the numbers of the advice values.\<close>

definition syscall_madvise :: "uptr \<Rightarrow> usize \<Rightarrow> int \<Rightarrow> vm \<Rightarrow> (unit res \<times> vm) option" where
  "syscall_madvise addr len advice v =
     (if addr mod PAGE_SIZE \<noteq> 0 then Some (Inl EINVAL, v)
      else if advice \<in> {0, 1, 2, 3, 16, 17, 14, 15, 12, 13, 10} then Some (Inr (), v)
      else if advice \<in> {8, 4}
      then do { v \<leftarrow> invalidate_loop addr None 0 (unat (align_up len PAGE_SIZE div PAGE_SIZE)) v; Some (Inr (), v) }
      else Some (Inl EINVAL, v))"

definition syscall_brk :: "uptr \<Rightarrow> process_memory \<Rightarrow> (uptr \<times> process_memory) option" where
  "syscall_brk addr pm =
     (if addr = 0 then Some (brk pm, pm)
      else do {
        let old_page_brk = align_up (brk pm) PAGE_SIZE;
        let new_page_brk = align_up addr PAGE_SIZE;
        v \<leftarrow> (if new_page_brk > old_page_brk
              then map_anonymous old_page_brk (new_page_brk - old_page_brk) (mmap_prot_to_page_flags (PROT_READ OR PROT_WRITE)) True (pagemap pm)
              else if new_page_brk < old_page_brk
              then map_option snd (add_range (unmap_request new_page_brk (old_page_brk - new_page_brk)) False True False (pagemap pm))
              else Some (pagemap pm));
        Some (addr, pm\<lparr>pagemap := v, brk := addr\<rparr>) })"

section \<open>Fork\<close>

text \<open>Copying the pages of one range into the new address space, and the ranges one by one.\<close>

fun fork_pages :: "u64 list \<Rightarrow> nat \<Rightarrow> u64 \<Rightarrow> vm \<Rightarrow> vm option" where
  "fork_pages [] i flags v = Some v"
| "fork_pages (p # ps) i flags v =
     do { old \<leftarrow> page_structs (vmem_pages v) p;
          (np, m) \<leftarrow> alloc_page (vmem_pages v);
          m \<leftarrow> set_mapped_addr np (mapped_addr old) m;
          fork_pages ps i flags
            (upd_range i (\<lambda>r. r\<lparr>page_list := page_list r @ [np]\<rparr>)
              (v\<lparr>vmem_pages := m, contents := (contents v)(np := contents v p),
                 ptes := (ptes v)(vpn (mapped_addr old) := ((np * PAGE_SIZE) AND ADDR_MASK) OR flags)\<rparr>)) }"

fun fork_ranges :: "mapped_range list \<Rightarrow> vm \<Rightarrow> vm option" where
  "fork_ranges [] v = Some v"
| "fork_ranges (r # rs) v =
     do { (i, v) \<leftarrow> add_range \<lparr>q_base = range_base r, q_length = range_length r, q_flags = page_flags r, q_type = range_type r,
            q_phy = phy_base r, q_file = range_file r, q_offset = file_offset r\<rparr> False False False v;
          i \<leftarrow> i;
          v \<leftarrow> (if range_type r = TANONYMOUS \<or> range_type r = TFILE then fork_pages (page_list r) i (page_flags r) v
                else if range_type r = TDIRECT \<or> range_type r = TDIRECT_VIRTUAL then Some v else None);
          fork_ranges rs v }"

text \<open>
  \<^verbatim>\<open>Pagemap::fork\<close>: entries of the lower half that are present start empty in the copy, the upper
  half (page numbers from \<open>0x800000000\<close>, the entries 256 to 511 of the top table) is shared. Physical memory and file references belong to both.
\<close>

definition pagemap_fork :: "vm \<Rightarrow> vm option" where
  "pagemap_fork v =
     fork_ranges (range_list v)
       (v\<lparr>range_list := [], cached_range_lookup := None,
          ptes := (\<lambda>n. if n < 0x800000000 \<and> ptes v n AND PAGE_PRESENT \<noteq> 0 then 0 else ptes v n)\<rparr>)"


section \<open>Page operations leave the ranges alone\<close>

text \<open>A range without its pages.\<close>

definition shape :: "mapped_range \<Rightarrow> mapped_range" where
  "shape r = r\<lparr>page_list := []\<rparr>"

lemma shape_simps [simp]:
  "range_id (shape r) = range_id r" "range_base (shape r) = range_base r" "range_length (shape r) = range_length r"
  "page_flags (shape r) = page_flags r" "range_type (shape r) = range_type r" "range_end (shape r) = range_end r"
  "original_base (shape r) = original_base r" "file_offset (shape r) = file_offset r" "range_file (shape r) = range_file r"
  "phy_base (shape r) = phy_base r" "shape (r\<lparr>page_list := ps\<rparr>) = shape r" "shape (shape r) = shape r"
  by (simp_all add: shape_def range_end_def)

definition same_ranges :: "vm \<Rightarrow> vm \<Rightarrow> bool" where
  "same_ranges v v' \<longleftrightarrow> map shape (range_list v') = map shape (range_list v) \<and> next_id v' = next_id v"

lemma same_ranges_refl [simp]: "same_ranges v v"
  by (simp add: same_ranges_def)

lemma same_ranges_trans: "same_ranges a b \<Longrightarrow> same_ranges b c \<Longrightarrow> same_ranges a c"
  by (simp add: same_ranges_def)

lemma same_ranges_pages:
  "same_ranges v (upd_range i (\<lambda>r. r\<lparr>page_list := f r\<rparr>) (v\<lparr>vmem_pages := m, ptes := t\<rparr>))"
  "same_ranges v (unlink_page p v)" "same_ranges v (v\<lparr>vmem_pages := m, ptes := t\<rparr>)"
  by (simp_all add: same_ranges_def upd_range_def unlink_page_def comp_def)

lemma take_page_same: "take_page phy v = Some (p, v') \<Longrightarrow> same_ranges v v'"
  by (auto simp: take_page_def same_ranges_pages split: bind_splits option.splits if_splits)

lemma invalidate_page_same:
  assumes "invalidate_page virt rg v = Some v'"
  shows "same_ranges v v'"
proof (cases "ptes v (vpn virt) AND PAGE_PRESENT = 0")
  case True
  then show ?thesis using assms by (simp add: invalidate_page_def Let_def)
next
  case False
  then obtain pg v1 where v1: "take_page (ptes v (vpn virt) AND ADDR_MASK) v = Some (pg, v1)"
    using assms by (auto simp: invalidate_page_def Let_def split: bind_splits)
  have "same_ranges v1 v'"
    using assms v1 False by (cases rg) (auto simp: invalidate_page_def Let_def same_ranges_pages split: bind_splits if_splits)
  then show ?thesis using same_ranges_trans[OF take_page_same[OF v1]] by blast
qed

lemma invalidate_loop_same: "invalidate_loop base rg i n v = Some v' \<Longrightarrow> same_ranges v v'"
proof (induction n arbitrary: i v)
  case (Suc n)
  then show ?case using invalidate_page_same same_ranges_trans by (fastforce split: bind_splits)
qed simp

lemma invalidate_pages_same: "invalidate_pages base len rg v = Some v' \<Longrightarrow> same_ranges v v'"
  unfolding invalidate_pages_def by (rule invalidate_loop_same)

section \<open>What the ranges cover\<close>

definition in_range :: "mapped_range \<Rightarrow> nat \<Rightarrow> bool" where
  "in_range r a \<longleftrightarrow> unat (range_base r) \<le> a \<and> a < unat (range_base r) + unat (range_length r)"

definition in_request :: "range_request \<Rightarrow> nat \<Rightarrow> bool" where
  "in_request q a \<longleftrightarrow> unat (q_base q) \<le> a \<and> a < unat (q_base q) + unat (q_length q)"

definition range_ok :: "mapped_range \<Rightarrow> bool" where
  "range_ok r \<longleftrightarrow> 0 < unat (range_length r) \<and> unat (range_base r) + unat (range_length r) < 2 ^ 64"

definition request_ok :: "range_request \<Rightarrow> bool" where
  "request_ok q \<longleftrightarrow> 0 < unat (q_length q) \<and> unat (q_base q) + unat (q_length q) < 2 ^ 64"

definition apart :: "mapped_range \<Rightarrow> mapped_range \<Rightarrow> bool" where
  "apart r s \<longleftrightarrow> (\<forall>a. \<not> (in_range r a \<and> in_range s a))"

text \<open>The ranges of an address space: nonempty, without wrap-around, pairwise disjoint, with unique numbers.\<close>

definition rset :: "vm \<Rightarrow> mapped_range set" where
  "rset v = shape ` set (range_list v)"

definition vm_ok :: "vm \<Rightarrow> bool" where
  "vm_ok v \<longleftrightarrow> distinct (map range_id (range_list v)) \<and> (\<forall>r\<in>rset v. range_ok r \<and> range_id r < next_id v) \<and>
     (\<forall>r\<in>rset v. \<forall>s\<in>rset v. range_id r \<noteq> range_id s \<longrightarrow> apart r s)"

text \<open>The type and flags of the ranges that cover an address.\<close>

definition attrs :: "vm \<Rightarrow> nat \<Rightarrow> (range_type \<times> u64) set" where
  "attrs v a = {(range_type r, page_flags r) | r. r \<in> rset v \<and> in_range r a}"

lemma in_range_shape [simp]: "in_range (shape r) a = in_range r a" "range_ok (shape r) = range_ok r"
  by (simp_all add: in_range_def range_ok_def)

lemma same_rset: "same_ranges v v' \<Longrightarrow> rset v' = rset v \<and> map range_id (range_list v') = map range_id (range_list v) \<and> next_id v' = next_id v"
proof -
  assume s: "same_ranges v v'"
  have "map range_id xs = map range_id (map shape xs)" for xs by (simp add: comp_def)
  then show ?thesis using s by (metis rset_def same_ranges_def set_map)
qed

lemma same_ranges_ok: "same_ranges v v' \<Longrightarrow> vm_ok v' = vm_ok v" "same_ranges v v' \<Longrightarrow> attrs v' = attrs v"
  using same_rset[of v v'] by (auto simp: vm_ok_def attrs_def)

lemma range_end_unat: "range_ok r \<Longrightarrow> unat (range_end r) = unat (range_base r) + unat (range_length r)"
  by (simp add: range_ok_def range_end_def unat_add_no_wrap)

lemma q_end_unat: "request_ok q \<Longrightarrow> unat (q_end q) = unat (q_base q) + unat (q_length q)"
  by (simp add: request_ok_def q_end_def unat_add_no_wrap)

lemma overlaps_iff:
  assumes "request_ok q" "range_ok r"
  shows "overlaps q r \<longleftrightarrow> (\<exists>a. in_request q a \<and> in_range r a)"
proof -
  have "overlaps q r \<longleftrightarrow> unat (q_base q) < unat (range_base r) + unat (range_length r) \<and> unat (range_base r) < unat (q_base q) + unat (q_length q)"
    using range_end_unat[OF assms(2)] q_end_unat[OF assms(1)] by (auto simp: overlaps_def word_le_nat_alt)
  also have "\<dots> \<longleftrightarrow> (\<exists>a. in_request q a \<and> in_range r a)"
  proof
    assume "unat (q_base q) < unat (range_base r) + unat (range_length r) \<and> unat (range_base r) < unat (q_base q) + unat (q_length q)"
    then show "\<exists>a. in_request q a \<and> in_range r a" using assms
      by (intro exI[of _ "max (unat (q_base q)) (unat (range_base r))"]) (auto simp: in_request_def in_range_def request_ok_def range_ok_def max_def)
  qed (auto simp: in_request_def in_range_def)
  finally show ?thesis .
qed

lemma get_range_rset:
  assumes "vm_ok v"
  shows "get_range i v = Some r \<Longrightarrow> r \<in> set (range_list v) \<and> range_id r = i"
    "r \<in> set (range_list v) \<Longrightarrow> get_range (range_id r) v = Some r"
proof -
  show "get_range i v = Some r \<Longrightarrow> r \<in> set (range_list v) \<and> range_id r = i"
    by (auto simp: get_range_def find_Some_iff)
  assume r: "r \<in> set (range_list v)"
  then have "get_range (range_id r) v \<noteq> None" by (auto simp: get_range_def find_None_iff)
  then obtain s where s: "get_range (range_id r) v = Some s" by blast
  then have "s \<in> set (range_list v)" "range_id s = range_id r" by (auto simp: get_range_def find_Some_iff)
  then have "s = r" using r assms by (auto simp: vm_ok_def distinct_map inj_on_def)
  then show "get_range (range_id r) v = Some r" using s by simp
qed


section \<open>Cutting a request out of the ranges\<close>

text \<open>The range \<open>r\<close> has been replaced by pieces that cover what of it lies outside the request.\<close>

definition pieces_ok :: "range_request \<Rightarrow> mapped_range \<Rightarrow> nat \<Rightarrow> nat \<Rightarrow> mapped_range set \<Rightarrow> bool" where
  "pieces_ok q r lo hi P \<longleftrightarrow>
     (\<forall>p\<in>P. range_type p = range_type r \<and> page_flags p = page_flags r \<and> range_ok p \<and>
        (range_id p = range_id r \<or> lo \<le> range_id p \<and> range_id p < hi) \<and>
        (\<forall>a. in_range p a \<longrightarrow> in_range r a \<and> \<not> in_request q a)) \<and>
     (\<forall>a. in_range r a \<longrightarrow> \<not> in_request q a \<longrightarrow> (\<exists>p\<in>P. in_range p a)) \<and>
     (\<forall>p\<in>P. \<forall>p'\<in>P. range_id p \<noteq> range_id p' \<longrightarrow> apart p p')"

definition cut :: "range_request \<Rightarrow> mapped_range \<Rightarrow> vm \<Rightarrow> vm \<Rightarrow> bool" where
  "cut q r v v' \<longleftrightarrow> (\<exists>P. rset v' = (rset v - {r}) \<union> P \<and> distinct (map range_id (range_list v')) \<and>
     next_id v \<le> next_id v' \<and> pieces_ok q r (next_id v) (next_id v') P)"

lemma vm_okD:
  assumes "vm_ok v"
  shows "r \<in> rset v \<Longrightarrow> range_ok r" "r \<in> rset v \<Longrightarrow> range_id r < next_id v"
    "r \<in> rset v \<Longrightarrow> s \<in> rset v \<Longrightarrow> range_id r \<noteq> range_id s \<Longrightarrow> apart r s" "distinct (map range_id (range_list v))"
    "r \<in> rset v \<Longrightarrow> s \<in> rset v \<Longrightarrow> range_id r = range_id s \<Longrightarrow> r = s"
proof -
  show "r \<in> rset v \<Longrightarrow> range_ok r" "r \<in> rset v \<Longrightarrow> range_id r < next_id v"
    "r \<in> rset v \<Longrightarrow> s \<in> rset v \<Longrightarrow> range_id r \<noteq> range_id s \<Longrightarrow> apart r s" "distinct (map range_id (range_list v))"
    using assms unfolding vm_ok_def by blast+
  show "r = s" if rs: "r \<in> rset v" "s \<in> rset v" "range_id r = range_id s"
  proof -
    obtain x y where xy: "x \<in> set (range_list v)" "y \<in> set (range_list v)" "r = shape x" "s = shape y" using rs(1,2) unfolding rset_def by blast
    then have "range_id x = range_id y" using rs(3) by simp
    moreover have "inj_on range_id (set (range_list v))" using assms by (simp add: vm_ok_def distinct_map)
    ultimately have "x = y" using xy(1,2) by (simp add: inj_on_eq_iff)
    then show ?thesis using xy by simp
  qed
qed

lemma apart_sym: "apart r s \<Longrightarrow> apart s r"
  by (auto simp: apart_def)

lemma cut_ok:
  assumes ok: "vm_ok v" and r: "r \<in> rset v" and c: "cut q r v v'"
  shows "vm_ok v'" "\<And>a. \<not> in_request q a \<Longrightarrow> attrs v' a = attrs v a"
    "\<And>s. s \<in> rset v \<Longrightarrow> range_id s \<noteq> range_id r \<Longrightarrow> s \<in> rset v'"
    "\<And>s. s \<in> rset v' \<Longrightarrow> s \<in> rset v \<and> range_id s \<noteq> range_id r \<or> (\<forall>a. in_range s a \<longrightarrow> \<not> in_request q a)"
proof -
  obtain P where P: "rset v' = (rset v - {r}) \<union> P" "distinct (map range_id (range_list v'))" "next_id v \<le> next_id v'"
    and pk: "pieces_ok q r (next_id v) (next_id v') P" using c unfolding cut_def by blast
  have p1: "range_type p = range_type r" "page_flags p = page_flags r" "range_ok p"
    "range_id p = range_id r \<or> next_id v \<le> range_id p \<and> range_id p < next_id v'" "\<And>a. in_range p a \<Longrightarrow> in_range r a \<and> \<not> in_request q a"
    if "p \<in> P" for p using pk that unfolding pieces_ok_def by blast+
  have p2: "\<exists>p\<in>P. in_range p a" if "in_range r a" "\<not> in_request q a" for a using pk that unfolding pieces_ok_def by blast
  have p3: "apart p p'" if "p \<in> P" "p' \<in> P" "range_id p \<noteq> range_id p'" for p p' using pk that unfolding pieces_ok_def by blast
  have old: "apart s p" if "s \<in> rset v - {r}" "p \<in> P" for s p
  proof -
    have "range_id s \<noteq> range_id r" using vm_okD(5)[OF ok, of s r] that r by auto
    then have "apart s r" using vm_okD(3)[OF ok, of s r] that r by blast
    then show ?thesis using p1(5)[OF that(2)] by (auto simp: apart_def)
  qed
  show "vm_ok v'" unfolding vm_ok_def
  proof (intro conjI ballI impI)
    show "distinct (map range_id (range_list v'))" by (rule P(2))
    fix s assume s: "s \<in> rset v'"
    show "range_ok s" using s P(1) vm_okD(1)[OF ok, of s] p1(3)[of s] by auto
    show "range_id s < next_id v'"
      using s P(1,3) vm_okD(2)[OF ok, of s] p1(4)[of s] vm_okD(2)[OF ok r] by fastforce
    fix u assume u: "u \<in> rset v'" "range_id s \<noteq> range_id u"
    show "apart s u"
      using s u P(1) vm_okD(3)[OF ok, of s u] old[of s u] apart_sym[OF old[of u s]] p3[of s u] by blast
  qed
  show "attrs v' a = attrs v a" if na: "\<not> in_request q a" for a
  proof -
    have "(\<exists>s\<in>rset v'. in_range s a \<and> x = (range_type s, page_flags s)) \<longleftrightarrow> (\<exists>s\<in>rset v. in_range s a \<and> x = (range_type s, page_flags s))" for x
    proof
      assume "\<exists>s\<in>rset v'. in_range s a \<and> x = (range_type s, page_flags s)"
      then obtain s where s: "s \<in> rset v'" "in_range s a" "x = (range_type s, page_flags s)" by blast
      then show "\<exists>s\<in>rset v. in_range s a \<and> x = (range_type s, page_flags s)"
        using P(1) r p1(1,2)[of s] p1(5)[of s a] by (cases "s \<in> P") auto
    next
      assume "\<exists>s\<in>rset v. in_range s a \<and> x = (range_type s, page_flags s)"
      then obtain s where s: "s \<in> rset v" "in_range s a" "x = (range_type s, page_flags s)" by blast
      show "\<exists>s\<in>rset v'. in_range s a \<and> x = (range_type s, page_flags s)"
      proof (cases "s = r")
        case True
        then obtain p where "p \<in> P" "in_range p a" using p2 s(2) na by blast
        then show ?thesis using True s(3) P(1) p1(1,2)[of p] by (intro bexI[of _ p]) auto
      qed (use s P(1) in blast)
    qed
    then show ?thesis unfolding attrs_def by blast
  qed
  show "s \<in> rset v'" if "s \<in> rset v" "range_id s \<noteq> range_id r" for s using that P(1) by auto
  show "s \<in> rset v \<and> range_id s \<noteq> range_id r \<or> (\<forall>a. in_range s a \<longrightarrow> \<not> in_request q a)" if "s \<in> rset v'" for s
    using that P(1) p1(5)[of s] vm_okD(5)[OF ok, of s r] r by auto
qed

lemma rset_upd:
  assumes "vm_ok v" "r \<in> set (range_list v)" "range_id (f r) = range_id r"
  shows "rset (upd_range (range_id r) f v) = (rset v - {shape r}) \<union> {shape (f r)}"
    "map range_id (range_list (upd_range (range_id r) f v)) = map range_id (range_list v)" "next_id (upd_range (range_id r) f v) = next_id v"
proof -
  have inj: "s = r" if "s \<in> set (range_list v)" "range_id s = range_id r" for s
    using that assms(1,2) by (auto simp: vm_ok_def distinct_map inj_on_def)
  have "(\<lambda>s. if range_id s = range_id r then f s else s) ` set (range_list v) = (set (range_list v) - {r}) \<union> {f r}"
  proof (intro set_eqI iffI)
    fix x assume "x \<in> (\<lambda>s. if range_id s = range_id r then f s else s) ` set (range_list v)"
    then obtain s where s: "s \<in> set (range_list v)" "x = (if range_id s = range_id r then f s else s)" by blast
    then show "x \<in> (set (range_list v) - {r}) \<union> {f r}" using inj[OF s(1)] by (cases "range_id s = range_id r") auto
  next
    fix x assume "x \<in> (set (range_list v) - {r}) \<union> {f r}"
    then consider "x \<in> set (range_list v)" "x \<noteq> r" | "x = f r" by blast
    then show "x \<in> (\<lambda>s. if range_id s = range_id r then f s else s) ` set (range_list v)"
    proof cases
      case 1
      then have "range_id x \<noteq> range_id r" using inj by blast
      then show ?thesis using 1 by (intro image_eqI[of _ _ x]) simp_all
    next
      case 2
      then show ?thesis using assms(2) by (intro image_eqI[of _ _ r]) simp_all
    qed
  qed
  moreover have "shape ` (set (range_list v) - {r}) = shape ` set (range_list v) - {shape r}"
  proof -
    have "inj_on range_id (set (range_list v))" using assms(1) by (simp add: vm_ok_def distinct_map)
    then have "inj_on shape (set (range_list v))" by (metis (no_types, lifting) inj_on_def shape_simps(1))
    then show ?thesis using inj_on_image_set_diff[of shape "set (range_list v)" "set (range_list v)" "{r}"] assms(2) by simp
  qed
  ultimately show "rset (upd_range (range_id r) f v) = (rset v - {shape r}) \<union> {shape (f r)}"
    by (simp add: rset_def upd_range_def image_Un)
  show "map range_id (range_list (upd_range (range_id r) f v)) = map range_id (range_list v)"
    using assms(3) inj by (auto simp: upd_range_def)
  show "next_id (upd_range (range_id r) f v) = next_id v" by (simp add: upd_range_def)
qed

lemma set_insert_range [simp]: "set (insert_range r l) = insert r (set l)"
  by (induction r l rule: insert_range.induct) auto

lemma distinct_insert_range:
  "distinct (map range_id (insert_range r l)) \<longleftrightarrow> distinct (map range_id l) \<and> range_id r \<notin> range_id ` set l"
  by (induction r l rule: insert_range.induct) auto


lemma inj_shape: "vm_ok v \<Longrightarrow> inj_on shape (set (range_list v))"
proof -
  assume "vm_ok v"
  then have "inj_on range_id (set (range_list v))" by (simp add: vm_ok_def distinct_map)
  then show ?thesis by (metis (no_types, lifting) inj_on_def shape_simps(1))
qed

text \<open>Replacing a range by one piece of itself.\<close>

lemma cut_single:
  assumes "vm_ok v" "r \<in> set (range_list v)" "range_id (f r) = range_id r" "range_type (f r) = range_type r" "page_flags (f r) = page_flags r"
    and "range_ok (f r)" "\<And>a. in_range (f r) a \<longleftrightarrow> in_range r a \<and> \<not> in_request q a"
  shows "cut q (shape r) v (upd_range (range_id r) f v)"
proof -
  note u = rset_upd[of v r f, OF assms(1-3)]
  have "pieces_ok q (shape r) (next_id v) (next_id v) {shape (f r)}" using assms(3-7) unfolding pieces_ok_def by simp
  then show ?thesis unfolding cut_def using u vm_okD(4)[OF assms(1)] by (intro exI[of _ "{shape (f r)}"]) simp
qed

lemma delete_range_cut:
  assumes "vm_ok v" "r \<in> set (range_list v)" "delete_range (range_id r) v = Some v'" "\<And>a. in_range r a \<Longrightarrow> in_request q a"
  shows "cut q (shape r) v v'"
proof -
  have v': "range_list v' = filter (\<lambda>s. range_id s \<noteq> range_id r) (range_list v)" "next_id v' = next_id v"
    using assms(3) by (auto simp: delete_range_def split: bind_splits)
  have "inj_on range_id (set (range_list v))" using assms(1) by (simp add: vm_ok_def distinct_map)
  then have "set (range_list v') = set (range_list v) - {r}" using assms(2) v'(1) by (auto simp: inj_on_def)
  then have "rset v' = rset v - {shape r}"
    using inj_on_image_set_diff[OF inj_shape[OF assms(1)], of "set (range_list v)" "{r}"] assms(2) by (simp add: rset_def)
  moreover have "distinct (map range_id (range_list v'))" using vm_okD(4)[OF assms(1)] v'(1) by (simp add: distinct_map_filter)
  ultimately show ?thesis using assms(4) v'(2) unfolding cut_def by (intro exI[of _ "{}"]) (simp add: pieces_ok_def)
qed

lemma cut_same: "cut q r v v1 \<Longrightarrow> same_ranges v1 v' \<Longrightarrow> cut q r v v'"
  using same_rset[of v1 v'] unfolding cut_def by metis

lemma same_cut: "same_ranges v v1 \<Longrightarrow> cut q r v1 v' \<Longrightarrow> cut q r v v'"
  using same_rset[of v v1] unfolding cut_def by metis

lemma link_new_rset:
  assumes "link_new_range q v = (i, v')"
  shows "rset v' = insert (shape (new_range q (next_id v))) (rset v)" "next_id v' = next_id v + 1" "i = next_id v"
    "distinct (map range_id (range_list v')) \<longleftrightarrow> distinct (map range_id (range_list v)) \<and> next_id v \<notin> range_id ` rset v"
proof -
  have v': "v' = v\<lparr>range_list := insert_range (new_range q (next_id v)) (range_list v), next_id := next_id v + 1,
      file_refs := (case q_file q of None \<Rightarrow> file_refs v | Some f \<Rightarrow> (file_refs v)(f := file_refs v f + 1))\<rparr>" and i: "i = next_id v"
    using assms by (auto simp: link_new_range_def)
  show "i = next_id v" by (rule i)
  have "range_list v' = insert_range (new_range q (next_id v)) (range_list v)" using v' by simp
  then show "rset v' = insert (shape (new_range q (next_id v))) (rset v)"
    "distinct (map range_id (range_list v')) \<longleftrightarrow> distinct (map range_id (range_list v)) \<and> next_id v \<notin> range_id ` rset v"
    by (simp_all add: rset_def distinct_insert_range image_image new_range_def)
  show "next_id v' = next_id v + 1" using v' by simp
qed

lemma split_range_cut:
  assumes ok: "vm_ok v" and q: "request_ok q" and r: "r \<in> set (range_list v)" "unat (range_base r) < unat (q_base q)" "unat (q_end q) < unat (range_end r)"
    and run: "split_range q r v = Some v'"
  shows "cut q (shape r) v v'"
proof -
  let ?f = "\<lambda>r. r\<lparr>range_length := q_base q - range_base r\<rparr>" and ?s = "split_request q r"
  define v1 where "v1 = upd_range (range_id r) ?f v"
  obtain i v2 where v2: "link_new_range ?s v1 = (i, v2)" by fastforce
  have same: "same_ranges v2 v'"
    using run v2 unfolding split_range_def v1_def[symmetric] Let_def by (auto intro: invalidate_pages_same)
  have rok: "range_ok r" using vm_okD(1)[OF ok, of "shape r"] r(1) by (auto simp: rset_def)
  have e: "unat (range_end r) = unat (range_base r) + unat (range_length r)" "unat (q_end q) = unat (q_base q) + unat (q_length q)"
    using range_end_unat[OF rok] q_end_unat[OF q] by auto
  have l1: "unat (q_base q - range_base r) = unat (q_base q) - unat (range_base r)"
    using r(2) by (intro unat_sub_le) (simp add: word_le_nat_alt)
  have l2: "unat (range_end r - q_end q) = unat (range_end r) - unat (q_end q)"
    using r(3) by (intro unat_sub_le) (simp add: word_le_nat_alt)
  let ?L = "shape (?f r)" and ?R = "shape (new_range ?s (next_id v1))"
  note u = rset_upd[of v r ?f, OF ok r(1), folded v1_def, simplified]
  note ln = link_new_rset[OF v2]
  have "range_id r < next_id v" using vm_okD(2)[OF ok, of "shape r"] r(1) by (simp add: rset_def)
  then have nid: "next_id v1 \<notin> range_id ` rset v1" using u vm_okD(2)[OF ok] by force
  have rs: "rset v2 = (rset v - {shape r}) \<union> {?L, ?R}" using ln(1) u(1) by auto
  have d: "distinct (map range_id (range_list v2))" using ln(4) nid u(2) vm_okD(4)[OF ok] by simp
  have inL: "in_range ?L a \<longleftrightarrow> unat (range_base r) \<le> a \<and> a < unat (q_base q)" for a
    using l1 r(2) by (auto simp: in_range_def)
  have inR: "in_range ?R a \<longleftrightarrow> unat (q_end q) \<le> a \<and> a < unat (range_end r)" for a
    using l2 r(3) by (auto simp: in_range_def new_range_def split_request_def Let_def)
  have okL: "range_ok ?L" using rok l1 r(2,3) e by (simp add: range_ok_def)
  have okR: "range_ok ?R" using l2 r(3) unat_lt_64[of "range_end r"] by (simp add: range_ok_def new_range_def split_request_def Let_def)
  have idR: "range_id ?R = next_id v" "next_id v2 = next_id v + 1" using u(3) ln(2) by (simp_all add: new_range_def)
  have lr: "a < unat (q_base q) \<Longrightarrow> unat (q_end q) \<le> a \<Longrightarrow> False" for a using e by linarith
  have "pieces_ok q (shape r) (next_id v) (next_id v2) {?L, ?R}" unfolding pieces_ok_def
  proof (intro conjI ballI allI impI)
    fix p assume p: "p \<in> {?L, ?R}"
    show "range_type p = range_type (shape r)" "page_flags p = page_flags (shape r)" "range_ok p"
      using p okL okR by (auto simp: new_range_def split_request_def Let_def)
    show "range_id p = range_id (shape r) \<or> next_id v \<le> range_id p \<and> range_id p < next_id v2" using p idR by auto
    fix a assume a: "in_range p a"
    then have "(unat (range_base r) \<le> a \<and> a < unat (q_base q)) \<or> (unat (q_end q) \<le> a \<and> a < unat (range_end r))" using p inL inR by blast
    then show "in_range (shape r) a" "\<not> in_request q a" using r(2,3) e by (auto simp: in_range_def in_request_def)
  next
    fix a assume "in_range (shape r) a" "\<not> in_request q a"
    then have "in_range ?L a \<or> in_range ?R a" using e unfolding inL inR by (auto simp: in_range_def in_request_def)
    then show "\<exists>p\<in>{?L, ?R}. in_range p a" by blast
  next
    fix p p' assume "p \<in> {?L, ?R}" "p' \<in> {?L, ?R}" "range_id p \<noteq> range_id p'"
    then have "(p = ?L \<and> p' = ?R) \<or> (p = ?R \<and> p' = ?L)" by auto
    then show "apart p p'" unfolding apart_def using inL inR lr by blast
  qed
  then have "cut q (shape r) v v2" unfolding cut_def using rs d idR(2) by (intro exI[of _ "{?L, ?R}"]) simp
  then show ?thesis by (rule cut_same[OF _ same])
qed


lemma resolve_one_cut:
  assumes ok: "vm_ok v" and q: "request_ok q" and g: "get_range i v = Some r" and run: "resolve_one q keep i v = Some (Inr b, v')"
  shows "b = overlaps q r" "\<not> b \<Longrightarrow> v' = v" "b \<Longrightarrow> cut q (shape r) v v'"
proof -
  have r: "r \<in> set (range_list v)" "range_id r = i" using get_range_rset(1)[OF ok g] by auto
  have rok: "range_ok r" using vm_okD(1)[OF ok, of "shape r"] r(1) by (auto simp: rset_def)
  note e = range_end_unat[OF rok] q_end_unat[OF q]
  show b: "b = overlaps q r" using run g by (auto simp: resolve_one_def Let_def split: if_splits bind_splits)
  show "\<not> b \<Longrightarrow> v' = v" using run g by (auto simp: resolve_one_def Let_def split: if_splits bind_splits)
  assume b
  then have ov: "overlaps q r" using b by simp
  then have lt: "unat (q_base q) < unat (range_end r)" "unat (range_base r) < unat (q_end q)" by (auto simp: overlaps_def word_le_nat_alt)
  consider (whole) v1 where "q_base q \<le> range_base r" "q_end q \<ge> range_end r" "invalidate_pages (range_base r) (range_length r) None v = Some v1"
      "delete_range i v1 = Some v'"
    | (front) "q_base q \<le> range_base r" "\<not> q_end q \<ge> range_end r"
        "v' = upd_range i (\<lambda>r'. r'\<lparr>range_base := range_base r' + (q_end q - range_base r), range_length := range_length r' - (q_end q - range_base r)\<rparr>) v"
    | (tail) "\<not> q_base q \<le> range_base r" "q_end q \<ge> range_end r"
        "v' = upd_range i (\<lambda>r. r\<lparr>range_length := range_length r - (range_end r - q_base q)\<rparr>) v"
    | (mid) "\<not> q_base q \<le> range_base r" "\<not> q_end q \<ge> range_end r" "split_range q r v = Some v'"
    using run g ov by (auto simp: resolve_one_def Let_def split: if_splits bind_splits)
  then show "cut q (shape r) v v'"
  proof cases
    case whole
    note same = invalidate_pages_same[OF whole(3)]
    have "shape r \<in> rset v1" using same_rset[OF same] r(1) by (simp add: rset_def)
    then obtain r1 where r1: "r1 \<in> set (range_list v1)" "shape r1 = shape r" by (auto simp: rset_def)
    then have id1: "range_id r1 = i" using r(2) by (metis shape_simps(1))
    have "in_request q a" if "in_range r1 a" for a
    proof -
      have "in_range r a" using that r1(2) by (metis in_range_shape(1))
      then show ?thesis using whole(1,2) e by (auto simp: in_range_def in_request_def word_le_nat_alt)
    qed
    then have "cut q (shape r1) v1 v'"
      using delete_range_cut[of v1 r1 v' q] r1(1) whole(4) id1 same_ranges_ok(1)[OF same] ok by simp
    then show ?thesis using same_cut[OF same] r1(2) by simp
  next
    case front
    let ?f = "\<lambda>r'. r'\<lparr>range_base := range_base r' + (q_end q - range_base r), range_length := range_length r' - (q_end q - range_base r)\<rparr>"
    have o: "unat (q_end q - range_base r) = unat (q_end q) - unat (range_base r)" using lt by (intro unat_sub_le) (simp add: word_le_nat_alt)
    have le: "unat (q_end q) \<le> unat (range_end r)" using front(2) by (simp add: word_le_nat_alt)
    have l: "unat (range_length r - (q_end q - range_base r)) = unat (range_end r) - unat (q_end q)"
      using o lt le e by (subst unat_sub_le) (simp_all add: word_le_nat_alt)
    have f: "range_base (?f r) = q_end q" "range_length (?f r) = range_length r - (q_end q - range_base r)" by simp_all
    have "cut q (shape r) v (upd_range (range_id r) ?f v)"
    proof (rule cut_single[OF ok r(1)])
      show "range_ok (?f r)" unfolding range_ok_def f l using front(2) unat_lt_64[of "range_end r"] by (simp add: word_le_nat_alt)
      show "in_range (?f r) a \<longleftrightarrow> in_range r a \<and> \<not> in_request q a" for a
        unfolding in_range_def f l using front(1) lt le e by (auto simp: in_request_def word_le_nat_alt)
    qed simp_all
    then show ?thesis using front(3) r(2) by simp
  next
    case tail
    let ?f = "\<lambda>r. r\<lparr>range_length := range_length r - (range_end r - q_base q)\<rparr>"
    have o: "unat (range_end r - q_base q) = unat (range_end r) - unat (q_base q)" using lt by (intro unat_sub_le) (simp add: word_le_nat_alt)
    have gt: "unat (range_base r) < unat (q_base q)" using tail(1) by (simp add: word_le_nat_alt)
    have l: "unat (range_length r - (range_end r - q_base q)) = unat (q_base q) - unat (range_base r)"
      using o lt gt e by (subst unat_sub_le) (simp_all add: word_le_nat_alt)
    have f: "range_base (?f r) = range_base r" "range_length (?f r) = range_length r - (range_end r - q_base q)" by simp_all
    have "cut q (shape r) v (upd_range (range_id r) ?f v)"
    proof (rule cut_single[OF ok r(1)])
      show "range_ok (?f r)" unfolding range_ok_def f l using gt unat_lt_64[of "q_base q"] by simp
      show "in_range (?f r) a \<longleftrightarrow> in_range r a \<and> \<not> in_request q a" for a
        unfolding in_range_def f l using tail(2) gt lt e by (auto simp: in_request_def word_le_nat_alt)
    qed simp_all
    then show ?thesis using tail(3) r(2) by simp
  next
    case mid
    then show ?thesis using split_range_cut[OF ok q r(1) _ _ mid(3)] by (simp add: word_le_nat_alt)
  qed
qed

text \<open>The effect of \<^verbatim>\<open>add_range\<close> on what is mapped where.\<close>

definition mapped_as :: "range_request \<Rightarrow> vm \<Rightarrow> vm \<Rightarrow> bool" where
  "mapped_as q v v' \<longleftrightarrow> vm_ok v' \<and>
     (\<forall>a. attrs v' a = (if in_request q a then (if q_type q = TNONE then {} else {(q_type q, q_flags q)}) else attrs v a))"

lemma attrs_single:
  assumes "vm_ok v" "r \<in> rset v" "in_range r a"
  shows "attrs v a = {(range_type r, page_flags r)}"
proof -
  have "s = r" if "s \<in> rset v" "in_range s a" for s
    using vm_okD(3)[OF assms(1,2), of s] vm_okD(5)[OF assms(1,2), of s] that assms(3) unfolding apart_def by metis
  then show ?thesis unfolding attrs_def using assms(2,3) by blast
qed

lemma resolve_one_returns:
  assumes ok: "vm_ok v" and q: "request_ok q" and run: "resolve_one q keep i v = Some (Inl j, v')"
  shows "\<exists>r\<in>rset v. range_id r = i \<and> range_type r = q_type q \<and> (\<forall>a. in_range r a \<longleftrightarrow> in_request q a) \<and> j = i \<and>
    vm_ok v' \<and> (\<forall>a. attrs v' a = (if in_request q a then {(q_type q, q_flags q)} else attrs v a))"
proof -
  obtain r where g: "get_range i v = Some r" and ex: "q_base q = range_base r" "q_end q = range_end r" "q_type q = range_type r" "j = i"
    and v': "(page_flags r = q_flags q \<and> v' = v) \<or>
      invalidate_pages (range_base r) (range_length r) (Some i) (upd_range i (\<lambda>r. r\<lparr>page_flags := q_flags q\<rparr>) v) = Some v'"
    using run by (auto simp: resolve_one_def Let_def split: if_splits bind_splits)
  have r: "r \<in> set (range_list v)" "range_id r = i" using get_range_rset(1)[OF ok g] by auto
  have rr: "shape r \<in> rset v" using r(1) by (simp add: rset_def)
  have rok: "range_ok r" using vm_okD(1)[OF ok rr] by simp
  have len: "in_range r a \<longleftrightarrow> in_request q a" for a
    using range_end_unat[OF rok] q_end_unat[OF q] ex(1,2) by (simp add: in_range_def in_request_def)
  let ?f = "\<lambda>r. r\<lparr>page_flags := q_flags q\<rparr>"
  define v1 where "v1 = upd_range (range_id r) ?f v"
  note u = rset_upd[of v r ?f, OF ok r(1), folded v1_def, simplified]
  have apart: "apart s (shape (?f r))" if "s \<in> rset v - {shape r}" for s
  proof -
    have "range_id s \<noteq> range_id r" using vm_okD(5)[OF ok, of s "shape r"] that rr by auto
    then have "apart s (shape r)" using vm_okD(3)[OF ok, of s "shape r"] that rr by simp
    then show ?thesis by (simp add: apart_def in_range_def)
  qed
  have ok1: "vm_ok v1" unfolding vm_ok_def u(2)
  proof (intro conjI ballI impI)
    show "distinct (map range_id (range_list v))" by (rule vm_okD(4)[OF ok])
    fix s assume s: "s \<in> rset v1"
    show "range_ok s" "range_id s < next_id v1" using s u rr vm_okD(1,2)[OF ok, of s] vm_okD(1,2)[OF ok rr] by (auto simp: range_ok_def)
    fix t assume t: "t \<in> rset v1" "range_id s \<noteq> range_id t"
    show "apart s t" using s t u(1) vm_okD(3)[OF ok, of s t] apart[of s] apart_sym[OF apart[of t]] by auto
  qed
  have at1: "attrs v1 a = (if in_request q a then {(q_type q, q_flags q)} else attrs v a)" for a
  proof (cases "in_request q a")
    case True
    have "shape (?f r) \<in> rset v1" "in_range (shape (?f r)) a" using u(1) True len by (simp_all add: in_range_def)
    from attrs_single[OF ok1 this] show ?thesis using True ex(3) by simp
  next
    case False
    then have "\<not> in_range (shape r) a" "\<not> in_range (shape (?f r)) a" using len by (simp_all add: in_range_def)
    then show ?thesis using False u(1) unfolding attrs_def by auto
  qed
  have at0: "attrs v a = (if in_request q a then {(q_type q, q_flags q)} else attrs v a)" if "page_flags r = q_flags q" for a
    using attrs_single[OF ok rr, of a] len that ex(3) by simp
  have "vm_ok v' \<and> (\<forall>a. attrs v' a = (if in_request q a then {(q_type q, q_flags q)} else attrs v a))"
    using v'
  proof
    assume "invalidate_pages (range_base r) (range_length r) (Some i) (upd_range i ?f v) = Some v'"
    then have "same_ranges v1 v'" using invalidate_pages_same r(2) v1_def by simp
    then show ?thesis using ok1 at1 same_ranges_ok by metis
  qed (use ok at0 in auto)
  then show ?thesis using rr r(2) ex len by (intro bexI[of _ "shape r"]) auto
qed


lemma in_rset_get:
  assumes "vm_ok v" "s \<in> rset v"
  shows "\<exists>r. get_range (range_id s) v = Some r \<and> shape r = s"
proof -
  obtain r where "r \<in> set (range_list v)" "s = shape r" using assms(2) by (auto simp: rset_def)
  then show ?thesis using get_range_rset(2)[OF assms(1)] by auto
qed

definition clear_of :: "range_request \<Rightarrow> mapped_range \<Rightarrow> bool" where
  "clear_of q s \<longleftrightarrow> (\<forall>a. in_range s a \<longrightarrow> \<not> in_request q a)"

lemma resolve_pass_spec:
  assumes "vm_ok v" "request_ok q" "distinct is" "\<forall>i\<in>set is. \<exists>r\<in>rset v. range_id r = i" "resolve_pass q keep is had v = Some (res, v')"
  shows "case res of
      Inl j \<Rightarrow> vm_ok v' \<and> (\<forall>a. attrs v' a = (if in_request q a then {(q_type q, q_flags q)} else attrs v a))
    | Inr b \<Rightarrow> vm_ok v' \<and> (\<forall>a. \<not> in_request q a \<longrightarrow> attrs v' a = attrs v a) \<and>
        (\<forall>s\<in>rset v'. s \<in> rset v \<and> range_id s \<notin> set is \<or> clear_of q s) \<and> (\<not> b \<longrightarrow> \<not> had \<and> v' = v)"
  using assms
proof (induction "is" arbitrary: had v)
  case Nil
  then show ?case by auto
next
  case (Cons i "is")
  obtain r1 where r1: "r1 \<in> rset v" "range_id r1 = i" using Cons.prems(4) by auto
  obtain r where g: "get_range i v = Some r" "shape r = r1" using in_rset_get[OF Cons.prems(1) r1(1)] r1(2) by auto
  obtain x v1 where x: "resolve_one q keep i v = Some (x, v1)" using Cons.prems(5) by (auto split: bind_splits)
  show ?case
  proof (cases x)
    case (Inl j)
    have "vm_ok v1 \<and> (\<forall>a. attrs v1 a = (if in_request q a then {(q_type q, q_flags q)} else attrs v a))"
      using resolve_one_returns[OF Cons.prems(1,2) x[unfolded Inl]] by blast
    moreover have "res = Inl j" "v' = v1" using Cons.prems(5) x Inl by simp_all
    ultimately show ?thesis by simp
  next
    case (Inr b)
    have rest: "resolve_pass q keep is (had \<or> b) v1 = Some (res, v')" using Cons.prems(5) x Inr by simp
    note one = resolve_one_cut[OF Cons.prems(1,2) g(1) x[unfolded Inr]]
    have step: "vm_ok v1 \<and> (\<forall>a. \<not> in_request q a \<longrightarrow> attrs v1 a = attrs v a) \<and>
        (\<forall>s\<in>rset v. range_id s \<noteq> i \<longrightarrow> s \<in> rset v1) \<and> (\<forall>s\<in>rset v1. s \<in> rset v \<and> range_id s \<noteq> i \<or> clear_of q s)"
    proof (cases b)
      case True
      have "cut q r1 v v1" using one(3)[OF True] g(2) by simp
      note c = cut_ok[OF Cons.prems(1) r1(1) this, unfolded r1(2)]
      show ?thesis
      proof (intro conjI allI ballI impI)
        show "vm_ok v1" by (rule c(1))
        show "attrs v1 a = attrs v a" if h: "\<not> in_request q a" for a by (rule c(2)[OF h])
        show "s \<in> rset v1" if h: "s \<in> rset v" "range_id s \<noteq> i" for s by (rule c(3)[OF h])
        show "s \<in> rset v \<and> range_id s \<noteq> i \<or> clear_of q s" if h: "s \<in> rset v1" for s
          using c(4)[OF h] unfolding clear_of_def .
      qed
    next
      case False
      have "\<not> overlaps q r" using False one(1) by simp
      moreover have "range_ok r" using vm_okD(1)[OF Cons.prems(1) r1(1)] g(2) by auto
      ultimately have "clear_of q r1" using overlaps_iff[OF Cons.prems(2)] g(2) unfolding clear_of_def by (metis in_range_shape(1))
      moreover have "s = r1" if h: "s \<in> rset v" "range_id s = i" for s
        using vm_okD(5)[OF Cons.prems(1) h(1) r1(1)] h(2) r1(2) by simp
      ultimately show ?thesis using one(2)[OF False] Cons.prems(1) by metis
    qed
    have ex: "\<forall>k\<in>set is. \<exists>r\<in>rset v1. range_id r = k"
    proof
      fix k assume k: "k \<in> set is"
      then obtain s where "s \<in> rset v" "range_id s = k" using Cons.prems(4) by auto
      moreover have "k \<noteq> i" using k Cons.prems(3) by auto
      ultimately show "\<exists>r\<in>rset v1. range_id r = k" using step by blast
    qed
    have dis: "distinct is" using Cons.prems(3) by simp
    note IH = Cons.IH[OF conjunct1[OF step] Cons.prems(2) dis ex rest]
    have unchanged: "v1 = v" if "\<not> b" using one(2) that by blast
    show ?thesis
    proof (cases res)
      case (Inl j)
      then show ?thesis using IH step by simp
    next
      case (Inr c)
      then have "vm_ok v'" "\<forall>a. \<not> in_request q a \<longrightarrow> attrs v' a = attrs v1 a"
        "\<forall>s\<in>rset v'. s \<in> rset v1 \<and> range_id s \<notin> set is \<or> clear_of q s" "\<not> c \<longrightarrow> \<not> (had \<or> b) \<and> v' = v1" using IH by simp_all
      note f = this
      have "s \<in> rset v \<and> range_id s \<notin> set (i # is) \<or> clear_of q s" if h: "s \<in> rset v'" for s
        using f(3) step h by (metis set_ConsD)
      moreover have "\<forall>a. \<not> in_request q a \<longrightarrow> attrs v' a = attrs v a" using f(2) step by metis
      moreover have "\<not> c \<longrightarrow> \<not> had \<and> v' = v" using f(4) unchanged by metis
      ultimately show ?thesis using Inr f(1) by simp
    qed
  qed
qed

lemma resolve_pass_clear:
  assumes "vm_ok v" "request_ok q" "\<forall>s\<in>rset v. clear_of q s" "\<forall>i\<in>set is. \<exists>r\<in>rset v. range_id r = i"
  shows "resolve_pass q keep is had v = Some (Inr had, v)"
  using assms(4)
proof (induction "is")
  case (Cons i "is")
  then obtain r1 where r1: "r1 \<in> rset v" "range_id r1 = i" by auto
  obtain r where g: "get_range i v = Some r" "shape r = r1" using in_rset_get[OF assms(1) r1(1)] r1(2) by auto
  have "range_ok r" using vm_okD(1)[OF assms(1) r1(1)] g(2) by auto
  then have "\<not> overlaps q r" using overlaps_iff[OF assms(2)] assms(3) r1(1) g(2) unfolding clear_of_def by (metis in_range_shape(1))
  then have "resolve_one q keep i v = Some (Inr False, v)" using g(1) by (simp add: resolve_one_def)
  then show ?case using Cons by simp
qed simp

text \<open>
  The loop ends after at most two passes: the first one removes every overlap, so the second one
  finds none.
\<close>

lemma all_ids: "\<forall>i\<in>set (map range_id (range_list v)). \<exists>r\<in>rset v. range_id r = i"
  by (auto simp: rset_def)

lemma resolve_loop_two_passes:
  assumes "vm_ok v" "request_ok q"
  shows "resolve_loop q keep False v = do { (r, v') \<leftarrow> resolve_pass q keep (map range_id (range_list v)) False v; Some (r, v') }"
proof -
  let ?p = "resolve_pass q keep (map range_id (range_list v)) False v"
  have again: "resolve_loop q keep True v' = Some (Inr True, v')" if p: "?p = Some (Inr True, v')" for v'
  proof -
    note sp = resolve_pass_spec[OF assms vm_okD(4)[OF assms(1)] all_ids p, simplified]
    have "clear_of q s" if s: "s \<in> rset v'" for s
    proof -
      have "s \<in> rset v \<and> range_id s \<notin> range_id ` set (range_list v) \<or> clear_of q s" using sp s by blast
      moreover have "s \<in> rset v \<Longrightarrow> range_id s \<in> range_id ` set (range_list v)" by (auto simp: rset_def)
      ultimately show ?thesis by blast
    qed
    then have "resolve_pass q keep (map range_id (range_list v')) False v' = Some (Inr False, v')"
      using resolve_pass_clear[OF conjunct1[OF sp] assms(2) _ all_ids] by blast
    then show ?thesis by (subst resolve_loop.simps) simp
  qed
  show ?thesis
  proof (cases ?p)
    case None
    then show ?thesis by (subst resolve_loop.simps) simp
  next
    case (Some x)
    obtain r v' where x: "x = (r, v')" by fastforce
    show ?thesis
    proof (cases r)
      case (Inl j)
      then show ?thesis using Some x by (subst resolve_loop.simps) simp
    next
      case (Inr b)
      then show ?thesis using Some x again[of v'] by (cases b) (subst resolve_loop.simps, simp)+
    qed
  qed
qed

lemma resolve_loop_spec:
  assumes "vm_ok v" "request_ok q" "resolve_loop q keep False v = Some (res, v')"
  shows "case res of
      Inl j \<Rightarrow> vm_ok v' \<and> (\<forall>a. attrs v' a = (if in_request q a then {(q_type q, q_flags q)} else attrs v a))
    | Inr b \<Rightarrow> vm_ok v' \<and> (\<forall>a. \<not> in_request q a \<longrightarrow> attrs v' a = attrs v a) \<and> (\<forall>s\<in>rset v'. clear_of q s) \<and> (\<not> b \<longrightarrow> v' = v)"
proof -
  have p: "resolve_pass q keep (map range_id (range_list v)) False v = Some (res, v')"
    using assms(3) resolve_loop_two_passes[OF assms(1,2)] by (auto split: bind_splits)
  note sp = resolve_pass_spec[OF assms(1,2) vm_okD(4)[OF assms(1)] all_ids p]
  have "range_id s \<in> set (map range_id (range_list v))" if "s \<in> rset v" for s using that by (auto simp: rset_def)
  then show ?thesis using sp by (cases res) auto
qed

text \<open>Only a request that may keep the pages returns an existing range.\<close>

lemma resolve_pass_keeps: "resolve_pass q keep is had v = Some (Inl j, v') \<Longrightarrow> keep"
proof (induction "is" arbitrary: had v)
  case (Cons i "is")
  obtain x v1 where x: "resolve_one q keep i v = Some (x, v1)" using Cons.prems by (auto split: bind_splits)
  show ?case
  proof (cases x)
    case (Inl j)
    then show ?thesis using x by (auto simp: resolve_one_def Let_def split: bind_splits if_splits)
  next
    case (Inr b)
    then show ?thesis using Cons.prems x Cons.IH by simp
  qed
qed simp

lemma resolve_loop_keeps:
  assumes "vm_ok v" "request_ok q" "resolve_loop q keep False v = Some (Inl j, v')"
  shows keep
proof -
  have "resolve_pass q keep (map range_id (range_list v)) False v = Some (Inl j, v')"
    using assms(3) resolve_loop_two_passes[OF assms(1,2)] by (auto split: bind_splits)
  then show ?thesis by (rule resolve_pass_keeps)
qed

section \<open>Placing the request\<close>

lemma put_range:
  assumes ok: "vm_ok v" and clear: "\<forall>s\<in>rset v. clear_of q s" and rs: "rset v' = (rset v - D) \<union> {n}"
    and d: "distinct (map range_id (range_list v'))" and id: "range_id n < next_id v'" "next_id v \<le> next_id v'"
    and n: "range_ok n" "range_type n = q_type q" "page_flags n = q_flags q"
    and inn: "\<And>a. in_range n a \<longleftrightarrow> in_request q a \<or> (\<exists>m\<in>D. in_range m a)"
    and D: "\<And>m. m \<in> D \<Longrightarrow> m \<in> rset v \<and> range_type m = q_type q \<and> page_flags m = q_flags q"
  shows "vm_ok v' \<and> (\<forall>a. attrs v' a = (if in_request q a then {(q_type q, q_flags q)} else attrs v a))"
proof
  have new: "apart s n" if s: "s \<in> rset v - D" for s unfolding apart_def
  proof (intro allI notI)
    fix a assume a: "in_range s a \<and> in_range n a"
    then have "\<not> in_request q a" using clear s unfolding clear_of_def by blast
    then obtain m where m: "m \<in> D" "in_range m a" using inn a by blast
    then have "range_id s \<noteq> range_id m" using vm_okD(5)[OF ok, of s m] D[OF m(1)] s by blast
    then have "apart s m" using vm_okD(3)[OF ok, of s m] D[OF m(1)] s by blast
    then show False using a m(2) unfolding apart_def by blast
  qed
  show ok': "vm_ok v'" unfolding vm_ok_def
  proof (intro conjI ballI impI)
    show "distinct (map range_id (range_list v'))" by (rule d)
    fix s assume s: "s \<in> rset v'"
    show "range_ok s" using s rs n(1) vm_okD(1)[OF ok, of s] by blast
    show "range_id s < next_id v'" using s rs id vm_okD(2)[OF ok, of s] by fastforce
    fix t assume t: "t \<in> rset v'" "range_id s \<noteq> range_id t"
    show "apart s t" using s t rs vm_okD(3)[OF ok, of s t] new[of s] apart_sym[OF new[of t]] by blast
  qed
  show "\<forall>a. attrs v' a = (if in_request q a then {(q_type q, q_flags q)} else attrs v a)"
  proof
    fix a
    have nr: "n \<in> rset v'" using rs by blast
    show "attrs v' a = (if in_request q a then {(q_type q, q_flags q)} else attrs v a)"
    proof (cases "in_range n a")
      case True
      then have at: "attrs v' a = {(q_type q, q_flags q)}" using attrs_single[OF ok' nr] n(2,3) by simp
      show ?thesis
      proof (cases "in_request q a")
        case False
        then obtain m where "m \<in> D" "in_range m a" using inn True by blast
        then have "attrs v a = {(q_type q, q_flags q)}" using attrs_single[OF ok, of m a] D[of m] by simp
        then show ?thesis using at False by simp
      qed (use at in simp)
    next
      case False
      then have "\<not> in_request q a" "\<And>s. s \<in> D \<Longrightarrow> \<not> in_range s a" using inn by blast+
      moreover have "attrs v' a = attrs v a" unfolding attrs_def using rs False calculation(2) by blast
      ultimately show ?thesis by simp
    qed
  qed
qed

lemma link_new_maps:
  assumes ok: "vm_ok v" and q: "request_ok q" and clear: "\<forall>s\<in>rset v. clear_of q s" and run: "link_new_range q v = (i, v')"
  shows "vm_ok v' \<and> (\<forall>a. attrs v' a = (if in_request q a then {(q_type q, q_flags q)} else attrs v a))"
proof -
  note l = link_new_rset[OF run]
  have "next_id v \<notin> range_id ` rset v" using vm_okD(2)[OF ok] by (metis imageE less_irrefl)
  then have d: "distinct (map range_id (range_list v'))" using l(4) vm_okD(4)[OF ok] by simp
  have rs: "rset v' = (rset v - {}) \<union> {shape (new_range q (next_id v))}" using l(1) by simp
  show ?thesis
    by (rule put_range[OF ok clear rs d]) (use l(2) q in \<open>simp_all add: new_range_def range_ok_def request_ok_def in_range_def in_request_def\<close>)
qed

lemma merge_maps:
  assumes ok: "vm_ok v" and q: "request_ok q" and clear: "\<forall>s\<in>rset v. clear_of q s" and t: "merge_target q v = Some r"
  shows "vm_ok (upd_range (range_id r) (merge_into q r) v) \<and>
    (\<forall>a. attrs (upd_range (range_id r) (merge_into q r) v) a = (if in_request q a then {(q_type q, q_flags q)} else attrs v a))"
proof -
  have r: "r \<in> set (range_list v)" "q_type q = range_type r" "q_flags q = page_flags r" "q_base q = range_end r \<or> q_end q = range_base r"
    using t by (auto simp: merge_target_def find_Some_iff)
  have rr: "shape r \<in> rset v" using r(1) by (simp add: rset_def)
  have rok: "range_ok r" using vm_okD(1)[OF ok rr] by simp
  note e = range_end_unat[OF rok] q_end_unat[OF q]
  have same: "range_id (merge_into q r r) = range_id r" "range_type (merge_into q r r) = range_type r" "page_flags (merge_into q r r) = page_flags r"
    by (simp_all add: merge_into_def)
  note u = rset_upd[of v r "merge_into q r", OF ok r(1) same(1)]
  have bounds: "range_ok (merge_into q r r) \<and> (\<forall>a. in_range (merge_into q r r) a \<longleftrightarrow> in_request q a \<or> in_range r a)"
  proof (cases "q_base q = range_end r")
    case True
    have "unat (range_length r + q_length q) = unat (range_length r) + unat (q_length q)"
      using True e q rok by (intro unat_add_no_wrap) (simp add: request_ok_def range_ok_def)
    then show ?thesis using True e q rok by (auto simp: merge_into_def request_ok_def range_ok_def in_range_def in_request_def)
  next
    case False
    then have b: "q_end q = range_base r" using r(4) by simp
    have "unat (range_length r + q_length q) = unat (range_length r) + unat (q_length q)"
      using b e q rok by (intro unat_add_no_wrap) (simp add: request_ok_def range_ok_def)
    moreover have "range_base r - q_length q = q_base q" using b by (simp add: q_end_def flip: b)
    ultimately show ?thesis using False b e q rok by (auto simp: merge_into_def request_ok_def range_ok_def in_range_def in_request_def)
  qed
  show ?thesis
    by (rule put_range[OF ok clear u(1)])
      (use u vm_okD(2)[OF ok rr] vm_okD(4)[OF ok] bounds same r rr in simp_all)
qed

lemma clear_attrs: "\<forall>s\<in>rset v. clear_of q s \<Longrightarrow> in_request q a \<Longrightarrow> attrs v a = {}"
  unfolding attrs_def clear_of_def by blast

lemma mapped_as_same: "mapped_as q v v1 \<Longrightarrow> same_ranges v1 v' \<Longrightarrow> mapped_as q v v'"
  unfolding mapped_as_def using same_ranges_ok by metis

lemma place_range_maps:
  assumes ok: "vm_ok v" and q: "request_ok q" and clear: "\<forall>s\<in>rset v. clear_of q s" and run: "place_range q merge had v = Some (x, v')"
  shows "mapped_as q v v'"
proof (cases "if merge \<and> q_type q = TANONYMOUS then merge_target q v else None")
  case (Some r)
  then have t: "merge_target q v = Some r" "q_type q \<noteq> TNONE" by (auto split: if_splits)
  let ?v1 = "upd_range (range_id r) (merge_into q r) v"
  have "mapped_as q v ?v1" using merge_maps[OF ok q clear t(1)] t(2) unfolding mapped_as_def by simp
  moreover have "same_ranges ?v1 v'" using run Some by (auto simp: place_range_def Let_def invalidate_pages_same split: if_splits bind_splits)
  ultimately show ?thesis by (rule mapped_as_same)
next
  case None
  show ?thesis
  proof (cases "q_type q = TNONE")
    case True
    then have "same_ranges v v'" using run None by (auto simp: place_range_def invalidate_pages_same split: bind_splits)
    moreover have "mapped_as q v v" using True ok clear_attrs[OF clear] unfolding mapped_as_def by simp
    ultimately show ?thesis using mapped_as_same by blast
  next
    case False
    obtain i v1 where l: "link_new_range q v = (i, v1)" by fastforce
    have "mapped_as q v v1" using link_new_maps[OF ok q clear l] False unfolding mapped_as_def by simp
    moreover have "same_ranges v1 v'" using run None False l by (auto simp: place_range_def invalidate_pages_same split: bind_splits if_splits)
    ultimately show ?thesis by (rule mapped_as_same)
  qed
qed

lemma add_range_mapped_as:
  assumes ok: "vm_ok v" and q: "request_ok q" and k: "q_type q = TNONE \<longrightarrow> \<not> keep"
    and run: "add_range q merge True keep v = Some (x, v')"
  shows "mapped_as q v v'"
proof -
  let ?v0 = "v\<lparr>cached_range_lookup := None\<rparr>"
  have s0: "same_ranges v ?v0" by (simp add: same_ranges_def)
  have ok0: "vm_ok ?v0" "attrs ?v0 = attrs v" using same_ranges_ok[OF s0] ok by simp_all
  obtain res v1 where l: "resolve_loop q keep False ?v0 = Some (res, v1)" using run by (auto simp: add_range_def split: bind_splits)
  note sp = resolve_loop_spec[OF ok0(1) q l]
  show ?thesis
  proof (cases res)
    case (Inl j)
    then have "v' = v1" using run l by (simp add: add_range_def)
    moreover have "q_type q \<noteq> TNONE"
      using k resolve_loop_keeps[OF ok0(1) q l[unfolded Inl]] by blast
    ultimately show ?thesis using sp Inl ok0(2) unfolding mapped_as_def by simp
  next
    case (Inr had)
    then have p: "place_range q merge had v1 = Some (x, v')" using run l by (simp add: add_range_def)
    have "mapped_as q v1 v'" using place_range_maps[OF _ q _ p] sp Inr by simp
    then show ?thesis using sp Inr ok0(2) unfolding mapped_as_def by simp
  qed
qed

section \<open>Properties of address spaces\<close>

text \<open>An address space with one page of data, made by the model: a fixed anonymous mapping and a fault in it.\<close>

definition empty_space :: process_memory where
  "empty_space = \<lparr>pagemap = \<lparr>range_list = [], ptes = (\<lambda>_. 0), vmem_pages = pmm_init example_memmap, contents = (\<lambda>_. []),
     cached_range_lookup = None, file_refs = (\<lambda>_. 0), next_id = 0\<rparr>, mmap_anon_base = 0x80000000, brk = 0x600000\<rparr>"

definition no_file_mmap :: "nat \<Rightarrow> uptr \<Rightarrow> usize \<Rightarrow> usize \<Rightarrow> u32 \<Rightarrow> u32 \<Rightarrow> vm \<Rightarrow> (uptr res \<times> vm) option" where
  "no_file_mmap f base len off prot flags v = Some (Inl ENODEV, v)"

definition mmap_fixed :: "uptr \<Rightarrow> usize \<Rightarrow> process_memory \<Rightarrow> (uptr res \<times> process_memory) option" where
  "mmap_fixed addr len pm = syscall_mmap no_file_mmap None addr len (PROT_READ OR PROT_WRITE) (MAP_FIXED OR MAP_ANONYMOUS) 0 pm"

definition touch_page :: "uptr \<Rightarrow> u8 list \<Rightarrow> process_memory \<Rightarrow> process_memory option" where
  "touch_page a bytes pm =
     do { (r, v) \<leftarrow> handle_page_fault 1 (\<lambda>f off. []) (\<lambda>v t. False) [] a (pagemap pm);
          case r of Inl e \<Rightarrow> None
          | Inr phy \<Rightarrow> Some (pm\<lparr>pagemap := v\<lparr>contents := (contents v)(phy div PAGE_SIZE := bytes)\<rparr>\<rparr>) }"

definition data_at :: "uptr \<Rightarrow> process_memory \<Rightarrow> u8 list option" where
  "data_at a pm = (let e = ptes (pagemap pm) (vpn a) in
     if e AND PAGE_PRESENT = 0 then None else Some (contents (pagemap pm) ((e AND ADDR_MASK) div PAGE_SIZE)))"


text \<open>
  C3: \<^verbatim>\<open>add_range\<close> with overlap resolution implements the update of a map from addresses to attributes. If the
  ranges are nonempty, disjoint and do not wrap around, they are so again afterwards, every address of
  the request is covered with exactly the requested type and flags (by nothing if the request
  unmaps), and every other address is covered as before, however the request lies over the existing
  ranges and whether it is merged into a neighbour or not.
\<close>

theorem add_range_maps:
  assumes "vm_ok v" "request_ok q" "q_type q = TNONE \<longrightarrow> \<not> keep" "add_range q merge True keep v = Some (x, v')"
  shows "vm_ok v' \<and>
    (\<forall>a. attrs v' a = (if in_request q a then (if q_type q = TNONE then {} else {(q_type q, q_flags q)}) else attrs v a))"
  using add_range_mapped_as[OF assms] unfolding mapped_as_def .

definition example_request :: range_request where
  "example_request = \<lparr>q_base = 0x400000, q_length = 0x3000, q_flags = 7, q_type = TANONYMOUS, q_phy = 0, q_file = None, q_offset = 0\<rparr>"

theorem add_range_maps_witness:
  "\<exists>v1 v2. vm_ok v1 \<and> vm_ok v2 \<and> attrs v1 0x401000 = {(TANONYMOUS, 7)} \<and> attrs v2 0x401000 = {} \<and> attrs v2 0x402000 = {(TANONYMOUS, 7)}"
proof -
  let ?v = "pagemap empty_space" and ?u = "unmap_request 0x401000 0x1000"
  have ok: "vm_ok ?v" by (simp add: vm_ok_def empty_space_def rset_def)
  have rq: "request_ok example_request" "request_ok ?u" by (simp_all add: request_ok_def example_request_def unmap_request_def)
  have t: "q_type example_request = TANONYMOUS" "q_flags example_request = 7" "q_type ?u = TNONE"
    by (simp_all add: example_request_def unmap_request_def)
  have "Option.is_none (do { (x, v) \<leftarrow> add_range example_request True True True ?v; add_range ?u False True False v }) = False"
    by code_simp
  then obtain x v1 y v2 where run: "add_range example_request True True True ?v = Some (x, v1)" "add_range ?u False True False v1 = Some (y, v2)"
    by (auto simp: Option.is_none_def split: bind_splits)
  have inr: "in_request example_request 0x401000" "in_request example_request 0x402000" "in_request ?u 0x401000" "\<not> in_request ?u 0x402000"
    by (simp_all add: in_request_def example_request_def unmap_request_def)
  have k: "q_type example_request = TNONE \<longrightarrow> \<not> True" "q_type ?u = TNONE \<longrightarrow> \<not> False" using t by simp_all
  note a1 = add_range_maps[OF ok rq(1) k(1) run(1)]
  note a2 = add_range_maps[OF conjunct1[OF a1] rq(2) k(2) run(2)]
  have "attrs v1 0x401000 = {(TANONYMOUS, 7)}" "attrs v1 0x402000 = {(TANONYMOUS, 7)}" "attrs v2 0x401000 = {}" "attrs v2 0x402000 = attrs v1 0x402000"
    using conjunct2[OF a1] conjunct2[OF a2] inr t by simp_all
  then show ?thesis using a1 a2 by metis
qed

lemma find_append: "find P (xs @ ys) = (case find P xs of Some x \<Rightarrow> Some x | None \<Rightarrow> find P ys)"
  by (induction xs) simp_all

text \<open>The first range that has an address is the only one.\<close>

lemma find_has_addr:
  assumes ok: "vm_ok v" and r: "r \<in> set (range_list v)" "has_addr a r"
  shows "find (has_addr a) (range_list v @ kr) = Some r"
proof -
  have inr: "in_range s (unat a)" if s: "s \<in> set (range_list v)" "has_addr a s" for s
  proof -
    have "range_ok s" using vm_okD(1)[OF ok, of "shape s"] s(1) by (simp add: rset_def)
    then show ?thesis using s(2) range_end_unat[of s] by (simp add: has_addr_def in_range_def word_le_nat_alt word_less_nat_alt)
  qed
  have uniq: "s = r" if s: "s \<in> set (range_list v)" "has_addr a s" for s
  proof -
    have rs: "shape s \<in> rset v" "shape r \<in> rset v" using s r by (simp_all add: rset_def)
    have "\<not> apart (shape s) (shape r)" using inr[OF s] inr[OF r] unfolding apart_def by auto
    then have "range_id s = range_id r" using vm_okD(3)[OF ok rs] by auto
    then show ?thesis using get_range_rset(2)[OF ok s(1)] get_range_rset(2)[OF ok r(1)] by (metis option.inject)
  qed
  obtain s where s: "find (has_addr a) (range_list v) = Some s"
    using r by (cases "find (has_addr a) (range_list v)") (auto simp: find_None_iff)
  then have "s = r" using uniq by (auto simp: find_Some_iff)
  then have "find (has_addr a) (range_list v) = Some r" using s by simp
  then show ?thesis by (simp add: find_append)
qed

lemma vpn_align_down: "vpn (align_down a PAGE_SIZE) = vpn a"
  by (simp add: vpn_unat unat_align_down PAGE_SIZE_def)


definition anonymous_space :: vm where
  "anonymous_space = (pagemap empty_space)\<lparr>range_list := [new_range example_request 0], next_id := 1\<rparr>"


text \<open>
  A fixed anonymous mapping over the end of a mapping with the same protection does not give fresh
  zeroes. The overlap is first cut away and then merged back into the range it was cut from, and
  because \<^verbatim>\<open>add_range\<close> invalidates with the range rather than without it, the present pages stay mapped:
  a process reads its old data at an address that \<^verbatim>\<open>mmap\<close> has just mapped anew.
\<close>

theorem fixed_mapping_keeps_data:
  "(do { (r, pm) \<leftarrow> mmap_fixed 0x400000 0x3000 empty_space;
         pm \<leftarrow> touch_page 0x401000 [42] pm;
         (r, pm) \<leftarrow> mmap_fixed 0x401000 0x2000 pm;
         Some (r, data_at 0x401000 pm) }) = Some (Inr 0x401000, Some [42])"
  by code_simp

text \<open>
  A file mapping whose first page has been unmapped, and the file offset an address is read from.
\<close>

definition file_space :: "process_memory option" where
  "file_space = do { v \<leftarrow> map_file 0x400000 0x4000 (mmap_prot_to_page_flags PROT_READ) 7 0 (pagemap empty_space);
     (r, pm) \<leftarrow> syscall_munmap 0x400000 0x1000 (empty_space\<lparr>pagemap := v\<rparr>); Some pm }"

definition offset_at :: "uptr \<Rightarrow> vm \<Rightarrow> usize option" where
  "offset_at a v = map_option (\<lambda>r. range_offset r a) (find (has_addr a) (range_list v))"

text \<open>
  Cutting a hole into a file mapping whose front has been unmapped shifts the data behind the hole,
  and so does forking it. The offset of the split-off range is computed from the current base of the
  range while its file offset belongs to the original base; here the address \<open>0x403000\<close> maps offset
  \<open>0x3000\<close> of the file before \<^verbatim>\<open>munmap\<close> and offset \<open>0x2000\<close> after it, and offset \<open>0x2000\<close> in a forked child.
\<close>

theorem split_shifts_file_offset:
  "((do { pm \<leftarrow> file_space; (r, pm') \<leftarrow> syscall_munmap 0x402000 0x1000 pm;
         Some (offset_at 0x403000 (pagemap pm), offset_at 0x403000 (pagemap pm')) }) = Some (Some 0x3000, Some 0x2000)) \<and>
   ((do { v \<leftarrow> map_option pagemap file_space; child \<leftarrow> fork_ranges (range_list v) (v\<lparr>range_list := []\<rparr>);
         Some (offset_at 0x403000 child) }) = Some (Some 0x2000))"
  by (intro conjI) code_simp+

end
