(* ===== verification/Vfs_Files.thy ===== *)
theory Vfs_Files
  imports Vfs_Descriptors Mem_Ranges
begin

text \<open>
  File contents: the nodes of \<^verbatim>\<open>fs/tmpfs.cpp\<close> and \<^verbatim>\<open>userland/memfd.cpp\<close>, and the system calls of
  \<^verbatim>\<open>fs/vfs.cpp\<close> that move bytes between a description and its node. The calls take the virtual
  functions of the node as arguments; the locale \<open>byte_file\<close> states what they rely on and the nodes
  of tmpfs provide it.

  A count of bytes that a function returns is the list of the bytes it has copied. \<open>None\<close> is a copy
  that leaves the memory of the node, or a loop that does not end.
\<close>

section \<open>Nodes of tmpfs\<close>

record tmpfs_node =
  tnode_type :: node_type
  storage :: "u8 list"
  tsize :: usize
  capacity :: usize

definition tmpfs_new :: "node_type \<Rightarrow> tmpfs_node" where
  "tmpfs_new ty = \<lparr>tnode_type = ty, storage = [], tsize = 0, capacity = 0\<rparr>"

text \<open>
  \<^verbatim>\<open>grow_to\<close>. The block that \<^verbatim>\<open>realloc\<close> returns begins with the old bytes; \<open>heap i\<close> is the byte that
  happens to be at index \<open>i\<close> of the new block behind them.
\<close>

partial_function (option) tmpfs_capacity :: "usize \<Rightarrow> usize \<Rightarrow> usize option" where
  "tmpfs_capacity cap len = (if cap < len then tmpfs_capacity (kmax 1 (cap * 4)) len else Some cap)"

declare tmpfs_capacity.simps [code]

definition grow_to :: "(nat \<Rightarrow> u8) \<Rightarrow> usize \<Rightarrow> tmpfs_node \<Rightarrow> tmpfs_node option" where
  "grow_to heap len n =
     (let n = n\<lparr>tsize := len\<rparr> in
      if capacity n < tsize n
      then do { c \<leftarrow> tmpfs_capacity (capacity n) (tsize n);
                Some (n\<lparr>capacity := c, storage := storage n @ map heap [length (storage n)..<unat c]\<rparr>) }
      else Some n)"

definition tmpfs_read :: "tmpfs_node \<Rightarrow> usize \<Rightarrow> usize \<Rightarrow> u8 list res option" where
  "tmpfs_read n cnt offset =
     (if tnode_type n = DIRECTORY then Some (Inl EISDIR)
      else if offset \<ge> tsize n then Some (Inr [])
      else let actual_count = (if offset + cnt > tsize n then tsize n - offset else cnt)
           in map_option Inr (mem_read (storage n) (unat offset) (unat actual_count)))"

definition tmpfs_write :: "(nat \<Rightarrow> u8) \<Rightarrow> tmpfs_node \<Rightarrow> u8 list \<Rightarrow> usize \<Rightarrow> (usize res \<times> tmpfs_node) option" where
  "tmpfs_write heap n buf offset =
     (let cnt = of_nat (length buf) in
      if tnode_type n = DIRECTORY then Some (Inl EISDIR, n)
      else if cnt = 0 then Some (Inr 0, n)
      else do { n \<leftarrow> (if offset + cnt > tsize n then grow_to heap (offset + cnt) n else Some n);
                st \<leftarrow> mem_write (storage n) (unat offset) buf;
                Some (Inr cnt, n\<lparr>storage := st\<rparr>) })"

text \<open>Positions are returned as they are computed: a negative \<open>Inr\<close> value is taken for an error number.\<close>

definition SEEK_SET :: int where "SEEK_SET = 0"
definition SEEK_CUR :: int where "SEEK_CUR = 1"
definition SEEK_END :: int where "SEEK_END = 2"
definition SEEK_DATA :: int where "SEEK_DATA = 3"
definition SEEK_HOLE :: int where "SEEK_HOLE = 4"

definition seek_in :: "usize \<Rightarrow> usize \<Rightarrow> usize \<Rightarrow> int \<Rightarrow> usize res" where
  "seek_in len position offset whence =
     (if whence = SEEK_SET then Inr offset
      else if whence = SEEK_CUR then Inr (position + offset)
      else if whence = SEEK_END then Inr (len + offset)
      else if whence = SEEK_DATA then (if offset \<ge> len then Inl ENXIO else Inr offset)
      else if whence = SEEK_HOLE then (if offset \<ge> len then Inl ENXIO else Inr len)
      else Inl EINVAL)"

definition tmpfs_seek :: "tmpfs_node \<Rightarrow> usize \<Rightarrow> usize \<Rightarrow> int \<Rightarrow> usize res" where
  "tmpfs_seek n position offset whence = seek_in (tsize n) position offset whence"

definition tmpfs_mmap :: "nat \<Rightarrow> uptr \<Rightarrow> usize \<Rightarrow> usize \<Rightarrow> u32 \<Rightarrow> u32 \<Rightarrow> vm \<Rightarrow> (uptr res \<times> vm) option" where
  "tmpfs_mmap fd addr len offset prot fl v =
     do { v \<leftarrow> map_file addr len (mmap_prot_to_page_flags prot) fd offset v; Some (Inr addr, v) }"

text \<open>\<^verbatim>\<open>grow_to\<close> has already set the size when the new bytes are to be cleared.\<close>

definition tmpfs_truncate :: "(nat \<Rightarrow> u8) \<Rightarrow> usize \<Rightarrow> tmpfs_node \<Rightarrow> (unit res \<times> tmpfs_node) option" where
  "tmpfs_truncate heap len n =
     (if tnode_type n = DIRECTORY then Some (Inl EISDIR, n)
      else do { n \<leftarrow> (if len > tsize n
                      then do { n \<leftarrow> grow_to heap len n;
                                st \<leftarrow> mem_write (storage n) (unat (tsize n)) (replicate (unat (len - tsize n)) 0);
                                Some (n\<lparr>storage := st\<rparr>) }
                      else Some n);
                Some (Inr (), n\<lparr>tsize := len\<rparr>) })"

section \<open>Memory files\<close>

text \<open>
  \<open>next_base\<close> is where the kernel will map the next block, \<open>mdata\<close> are the bytes mapped at the
  address of the file: a new anonymous mapping of the kernel holds zeroes.
\<close>

record memfd =
  msize :: usize
  mcapacity :: usize
  maddress :: uptr
  mdata :: "u8 list"

definition memfd_new :: memfd where
  "memfd_new = \<lparr>msize = 0, mcapacity = 0, maddress = 0, mdata = []\<rparr>"

definition virt_alloc :: "usize \<Rightarrow> uptr \<Rightarrow> uptr \<times> uptr" where
  "virt_alloc len kernel_virt_alloc_base = (kernel_virt_alloc_base, kernel_virt_alloc_base + align_up len PAGE_SIZE)"

definition memfd_grow_to :: "usize \<Rightarrow> memfd \<Rightarrow> uptr \<Rightarrow> memfd \<times> uptr" where
  "memfd_grow_to len m next_base =
     (let m = m\<lparr>msize := len\<rparr> in
      if mcapacity m < msize m
      then let c = align_up (msize m) PAGE_SIZE; (a, next_base) = virt_alloc c next_base
           in (m\<lparr>mcapacity := c, maddress := a, mdata := replicate (unat c) 0\<rparr>, next_base)
      else (m, next_base))"

definition memfd_read :: "memfd \<Rightarrow> usize \<Rightarrow> usize \<Rightarrow> u8 list res option" where
  "memfd_read m cnt offset =
     (if offset \<ge> msize m then Some (Inr [])
      else let actual_count = (if offset + cnt > msize m then msize m - offset else cnt)
           in map_option Inr (mem_read (mdata m) (unat offset) (unat actual_count)))"

definition memfd_write :: "memfd \<Rightarrow> u8 list \<Rightarrow> usize \<Rightarrow> uptr \<Rightarrow> ((usize res \<times> memfd) \<times> uptr) option" where
  "memfd_write m buf offset next_base =
     (let cnt = of_nat (length buf) in
      if cnt = 0 then Some ((Inr 0, m), next_base)
      else do { let (m, next_base) = (if offset + cnt > msize m then memfd_grow_to (offset + cnt) m next_base else (m, next_base));
                st \<leftarrow> mem_write (mdata m) (unat offset) buf;
                Some ((Inr cnt, m\<lparr>mdata := st\<rparr>), next_base) })"

definition memfd_seek :: "memfd \<Rightarrow> usize \<Rightarrow> usize \<Rightarrow> int \<Rightarrow> usize res" where
  "memfd_seek m position offset whence = seek_in (msize m) position offset whence"

definition MAP_PRIVATE :: u32 where "MAP_PRIVATE = 2"

definition memfd_mmap :: "memfd \<Rightarrow> nat \<Rightarrow> uptr \<Rightarrow> usize \<Rightarrow> usize \<Rightarrow> u32 \<Rightarrow> u32 \<Rightarrow> vm \<Rightarrow> (uptr res \<times> vm) option" where
  "memfd_mmap m fd addr len offset prot fl v =
     (if fl AND MAP_SHARED \<noteq> 0
      then do { (r, v) \<leftarrow> add_range \<lparr>q_base = addr, q_length = len, q_flags = mmap_prot_to_page_flags prot, q_type = TDIRECT_VIRTUAL,
                            q_phy = maddress m, q_file = None, q_offset = 0\<rparr> False True False v;
                Some (Inr addr, v) }
      else if fl AND MAP_PRIVATE \<noteq> 0
      then do { v \<leftarrow> map_file addr len (mmap_prot_to_page_flags prot) fd offset v; Some (Inr addr, v) }
      else Some (Inl EINVAL, v))"

definition memfd_truncate :: "usize \<Rightarrow> memfd \<Rightarrow> uptr \<Rightarrow> ((unit res \<times> memfd) \<times> uptr) option" where
  "memfd_truncate len m next_base =
     do { (m, next_base) \<leftarrow>
            (if len > msize m then Some (memfd_grow_to len m next_base)
             else do { st \<leftarrow> mem_write (mdata m) (unat len) (replicate (unat (msize m - len)) 0);
                       Some (m\<lparr>mdata := st\<rparr>, next_base) });
          Some ((Inr (), m\<lparr>msize := len\<rparr>), next_base) }"

section \<open>System calls on an open file\<close>

text \<open>
  A call that finds no description returns \<^verbatim>\<open>EBADF\<close>; otherwise it works on the description and the
  state of its node.
\<close>

type_synonym 'n open_file = "description \<times> 'n"

definition with_description ::
  "('n open_file \<Rightarrow> ('a res \<times> 'n open_file) option) \<Rightarrow> 'n open_file option \<Rightarrow> ('a res \<times> 'n open_file option) option" where
  "with_description f fd =
     (case fd of None \<Rightarrow> Some (Inl EBADF, None) | Some x \<Rightarrow> do { (r, x) \<leftarrow> f x; Some (r, Some x) })"

definition advance :: "nat \<Rightarrow> description \<Rightarrow> description" where
  "advance k d = d\<lparr>cursor := cursor d + of_nat k\<rparr>"

definition seek_to_end_if_append :: "('n \<Rightarrow> usize \<Rightarrow> usize \<Rightarrow> int \<Rightarrow> usize res) \<Rightarrow> 'n open_file \<Rightarrow> description" where
  "seek_to_end_if_append vseek x =
     (let (d, n) = x in
      if flags d AND O_APPEND \<noteq> 0
      then case vseek n (cursor d) 0 SEEK_END of Inl e \<Rightarrow> d | Inr p \<Rightarrow> if sint p \<ge> 0 then d\<lparr>cursor := p\<rparr> else d
      else d)"

definition syscall_read ::
  "('n \<Rightarrow> usize \<Rightarrow> usize \<Rightarrow> u8 list res option) \<Rightarrow> usize \<Rightarrow> 'n open_file option \<Rightarrow> (u8 list res \<times> 'n open_file option) option" where
  "syscall_read vread cnt = with_description (\<lambda>(d, n).
     do { r \<leftarrow> vread n cnt (cursor d);
          Some (case r of Inl e \<Rightarrow> (Inl e, (d, n)) | Inr bs \<Rightarrow> (Inr bs, (advance (length bs) d, n))) })"

definition syscall_write ::
  "('n \<Rightarrow> u8 list \<Rightarrow> usize \<Rightarrow> (usize res \<times> 'n) option) \<Rightarrow> ('n \<Rightarrow> usize \<Rightarrow> usize \<Rightarrow> int \<Rightarrow> usize res) \<Rightarrow> u8 list \<Rightarrow>
   'n open_file option \<Rightarrow> (usize res \<times> 'n open_file option) option" where
  "syscall_write vwrite vseek buf = with_description (\<lambda>(d, n).
     do { let d = seek_to_end_if_append vseek (d, n);
          (r, n) \<leftarrow> vwrite n buf (cursor d);
          Some (case r of Inl e \<Rightarrow> (Inl e, (d, n)) | Inr k \<Rightarrow> (Inr k, (advance (unat k) d, n))) })"

definition syscall_pread64 ::
  "('n \<Rightarrow> usize \<Rightarrow> usize \<Rightarrow> u8 list res option) \<Rightarrow> usize \<Rightarrow> usize \<Rightarrow> 'n open_file option \<Rightarrow> (u8 list res \<times> 'n open_file option) option" where
  "syscall_pread64 vread cnt offset = with_description (\<lambda>(d, n). do { r \<leftarrow> vread n cnt offset; Some (r, (d, n)) })"

definition syscall_pwrite64 ::
  "('n \<Rightarrow> u8 list \<Rightarrow> usize \<Rightarrow> (usize res \<times> 'n) option) \<Rightarrow> u8 list \<Rightarrow> usize \<Rightarrow> 'n open_file option \<Rightarrow>
   (usize res \<times> 'n open_file option) option" where
  "syscall_pwrite64 vwrite buf offset = with_description (\<lambda>(d, n). do { (r, n) \<leftarrow> vwrite n buf offset; Some (r, (d, n)) })"

text \<open>
  The vectored default operations: the bytes so far are those of all buffers filled; a short transfer
  ends the loop.
\<close>

fun vnode_readv :: "('n \<Rightarrow> usize \<Rightarrow> usize \<Rightarrow> u8 list res option) \<Rightarrow> 'n \<Rightarrow> usize list \<Rightarrow> usize \<Rightarrow> u8 list \<Rightarrow> u8 list res option" where
  "vnode_readv vread n [] offset acc = Some (Inr acc)"
| "vnode_readv vread n (len # iovs) offset acc =
     (if len = 0 then vnode_readv vread n iovs offset acc
      else do { r \<leftarrow> vread n len offset;
                case r of
                  Inl e \<Rightarrow> Some (if acc \<noteq> [] then Inr acc else Inl e)
                | Inr bs \<Rightarrow> if int (length bs) < sint len then Some (Inr (acc @ bs))
                           else vnode_readv vread n iovs (offset + of_nat (length bs)) (acc @ bs) })"

fun vnode_writev :: "('n \<Rightarrow> u8 list \<Rightarrow> usize \<Rightarrow> (usize res \<times> 'n) option) \<Rightarrow> 'n \<Rightarrow> u8 list list \<Rightarrow> usize \<Rightarrow> usize \<Rightarrow> (usize res \<times> 'n) option" where
  "vnode_writev vwrite n [] offset transferred = Some (Inr transferred, n)"
| "vnode_writev vwrite n (buf # iovs) offset transferred =
     (if buf = [] then vnode_writev vwrite n iovs offset transferred
      else do { (r, n) \<leftarrow> vwrite n buf offset;
                case r of
                  Inl e \<Rightarrow> Some (if transferred \<noteq> 0 then Inr transferred else Inl e, n)
                | Inr k \<Rightarrow> if sint k < int (length buf) then Some (Inr (transferred + k), n)
                           else vnode_writev vwrite n iovs (offset + k) (transferred + k) })"

definition syscall_readv ::
  "('n \<Rightarrow> usize \<Rightarrow> usize \<Rightarrow> u8 list res option) \<Rightarrow> usize list \<Rightarrow> 'n open_file option \<Rightarrow> (u8 list res \<times> 'n open_file option) option" where
  "syscall_readv vread iovs = with_description (\<lambda>(d, n).
     do { r \<leftarrow> vnode_readv vread n iovs (cursor d) [];
          Some (case r of Inl e \<Rightarrow> (Inl e, (d, n)) | Inr bs \<Rightarrow> (Inr bs, (advance (length bs) d, n))) })"

definition syscall_writev ::
  "('n \<Rightarrow> u8 list \<Rightarrow> usize \<Rightarrow> (usize res \<times> 'n) option) \<Rightarrow> ('n \<Rightarrow> usize \<Rightarrow> usize \<Rightarrow> int \<Rightarrow> usize res) \<Rightarrow> u8 list list \<Rightarrow>
   'n open_file option \<Rightarrow> (usize res \<times> 'n open_file option) option" where
  "syscall_writev vwrite vseek iovs = with_description (\<lambda>(d, n).
     do { let d = seek_to_end_if_append vseek (d, n);
          (r, n) \<leftarrow> vnode_writev vwrite n iovs (cursor d) 0;
          Some (case r of Inl e \<Rightarrow> (Inl e, (d, n)) | Inr k \<Rightarrow> (Inr k, (advance (unat k) d, n))) })"

definition join_offset :: "usize \<Rightarrow> usize \<Rightarrow> usize" where
  "join_offset offset_low offset_high = push_bit 32 offset_high OR offset_low"

definition syscall_preadv ::
  "('n \<Rightarrow> usize \<Rightarrow> usize \<Rightarrow> u8 list res option) \<Rightarrow> usize list \<Rightarrow> usize \<Rightarrow> usize \<Rightarrow> 'n open_file option \<Rightarrow> (u8 list res \<times> 'n open_file option) option" where
  "syscall_preadv vread iovs offset_low offset_high = with_description (\<lambda>(d, n).
     do { r \<leftarrow> vnode_readv vread n iovs (join_offset offset_low offset_high) []; Some (r, (d, n)) })"

definition syscall_pwritev ::
  "('n \<Rightarrow> u8 list \<Rightarrow> usize \<Rightarrow> (usize res \<times> 'n) option) \<Rightarrow> u8 list list \<Rightarrow> usize \<Rightarrow> usize \<Rightarrow> 'n open_file option \<Rightarrow>
   (usize res \<times> 'n open_file option) option" where
  "syscall_pwritev vwrite iovs offset_low offset_high = with_description (\<lambda>(d, n).
     do { (r, n) \<leftarrow> vnode_writev vwrite n iovs (join_offset offset_low offset_high) 0; Some (r, (d, n)) })"

definition syscall_lseek ::
  "('n \<Rightarrow> usize \<Rightarrow> usize \<Rightarrow> int \<Rightarrow> usize res) \<Rightarrow> usize \<Rightarrow> int \<Rightarrow> 'n open_file option \<Rightarrow> (usize res \<times> 'n open_file option) option" where
  "syscall_lseek vseek offset whence = with_description (\<lambda>(d, n).
     (let r = vseek n (cursor d) offset whence in
      Some (r, (case r of Inl e \<Rightarrow> d | Inr p \<Rightarrow> if sint p \<ge> 0 then d\<lparr>cursor := p\<rparr> else d, n))))"

definition syscall_ftruncate ::
  "(usize \<Rightarrow> 'n \<Rightarrow> (unit res \<times> 'n) option) \<Rightarrow> usize \<Rightarrow> 'n open_file option \<Rightarrow> (unit res \<times> 'n open_file option) option" where
  "syscall_ftruncate vtruncate len fd =
     (if sint len < 0 then Some (Inl EINVAL, fd)
      else with_description (\<lambda>(d, n). do { (r, n) \<leftarrow> vtruncate len n; Some (r, (d, n)) }) fd)"

section \<open>Growing\<close>

text \<open>The capacities that occur: zero and the powers of four that fit a word.\<close>

definition cap_ok :: "usize \<Rightarrow> bool" where
  "cap_ok c \<longleftrightarrow> c = 0 \<or> (\<exists>k\<le>31. c = 4 ^ k)"

lemma pow4_double: "(4::'a::comm_semiring_1) ^ k = 2 ^ (2 * k)"
proof -
  have "(4::'a) = 2 ^ 2" by simp
  then show ?thesis by (metis power_mult)
qed

lemma unat_of_nat_64: "n < 2 ^ 64 \<Longrightarrow> unat (of_nat n :: u64) = n"
  by (simp add: unat_of_nat take_bit_eq_mod)

lemma unat_pow4: "k \<le> 31 \<Longrightarrow> unat (4 ^ k :: u64) = 4 ^ k"
proof -
  assume k: "k \<le> 31"
  have "(4::nat) ^ k \<le> 4 ^ 31" using k by (intro power_increasing) auto
  then have "(4::nat) ^ k < 2 ^ 64" by (rule le_less_trans) simp
  moreover have "(4 ^ k :: u64) = of_nat (4 ^ k)" by simp
  ultimately show ?thesis by (metis unat_of_nat_64)
qed

lemma cap_ok_step: "cap_ok c \<Longrightarrow> cap_ok (kmax 1 (c * 4))"
proof -
  assume "cap_ok c"
  then consider "c = 0" | k where "k < 31" "c = 4 ^ k" | "c = 4 ^ 31" unfolding cap_ok_def using le_neq_implies_less by blast
  then show ?thesis
  proof cases
    case (2 k)
    then have e: "c * 4 = 4 ^ Suc k" by simp
    have "(1::nat) < 4 ^ Suc k" by (rule one_less_power) simp_all
    moreover have "unat (4 ^ Suc k :: u64) = 4 ^ Suc k" using 2(1) by (intro unat_pow4) simp
    ultimately have "(1 :: u64) < 4 ^ Suc k" by (metis unat_1 word_less_nat_alt)
    then have "kmax 1 (c * 4) = 4 ^ Suc k" unfolding e by (simp add: kmax_def)
    then show ?thesis using 2(1) unfolding cap_ok_def by (intro disjI2 exI[of _ "Suc k"]) simp
  qed (auto simp: kmax_def cap_ok_def intro: exI[of _ 0])
qed

lemma cap_ok_le: "cap_ok c \<Longrightarrow> unat c \<le> 2 ^ 62"
proof -
  assume "cap_ok c"
  then consider "c = 0" | k where "k \<le> 31" "c = 4 ^ k" unfolding cap_ok_def by blast
  then show ?thesis
  proof cases
    case (2 k)
    have "(4::nat) ^ k \<le> 4 ^ 31" using 2(1) by (intro power_increasing) auto
    then show ?thesis using 2 by (simp add: unat_pow4)
  qed simp
qed

lemma tmpfs_capacity_result: "tmpfs_capacity cap len = Some c \<Longrightarrow> cap_ok cap \<Longrightarrow> len \<le> c \<and> cap_ok c \<and> (cap \<le> len \<longrightarrow> cap \<le> c)"
proof -
  assume r: "tmpfs_capacity cap len = Some c" "cap_ok cap"
  from r(1) have "cap_ok cap \<longrightarrow> len \<le> c \<and> cap_ok c"
  proof (rule tmpfs_capacity.raw_induct[rotated])
    fix grow cap len c
    assume IH: "\<And>cap len c. grow cap len = Some c \<Longrightarrow> cap_ok cap \<longrightarrow> len \<le> c \<and> cap_ok c"
      and run: "(if cap < len then grow (kmax 1 (cap * 4)) len else Some cap) = Some c"
    show "cap_ok cap \<longrightarrow> len \<le> c \<and> cap_ok c"
      using IH[of "kmax 1 (cap * 4)" len c] run cap_ok_step[of cap] by (cases "cap < len") auto
  qed
  then show ?thesis using r(2) by auto
qed

lemma tmpfs_capacity_pow4:
  assumes "k \<le> 31" "unat len \<le> 2 ^ 62"
  shows "\<exists>c. tmpfs_capacity (4 ^ k) len = Some c"
  using assms(1)
proof (induction "31 - k" arbitrary: k)
  case 0
  then have "k = 31" by simp
  then have "\<not> (4 ^ k :: u64) < len" using assms(2) unat_pow4[of k] by (simp add: word_less_nat_alt)
  then show ?case by (subst tmpfs_capacity.simps) simp
next
  case (Suc m)
  then have "\<exists>c. tmpfs_capacity (4 ^ Suc k) len = Some c" by (intro Suc.hyps(1)) simp_all
  moreover have "kmax 1 (4 ^ k * 4 :: u64) = 4 ^ Suc k"
  proof -
    have "unat (4 ^ Suc k :: u64) = 4 ^ Suc k" using Suc by (intro unat_pow4) simp
    moreover have "(1::nat) < 4 ^ Suc k" by (rule one_less_power) simp_all
    ultimately have "(1 :: u64) < 4 ^ Suc k" by (metis unat_1 word_less_nat_alt)
    then show ?thesis by (simp add: kmax_def mult.commute)
  qed
  ultimately show ?case by (subst tmpfs_capacity.simps) auto
qed

lemma tmpfs_capacity_returns:
  assumes "cap_ok cap" "unat len \<le> 2 ^ 62"
  shows "\<exists>c. tmpfs_capacity cap len = Some c"
proof (cases "cap = 0")
  case True
  have "kmax 1 (0 * 4 :: u64) = 4 ^ 0" by (simp add: kmax_def)
  then show ?thesis using True tmpfs_capacity_pow4[of 0 len] assms(2) by (subst tmpfs_capacity.simps) auto
qed (use assms tmpfs_capacity_pow4 in \<open>auto simp: cap_ok_def\<close>)

text \<open>
  C40: the loop that enlarges the capacity of a tmpfs file ends exactly when the new size is at most
  \<open>2 ^ 62\<close>. Beyond that the capacity wraps around to one and the kernel loops forever; the size is
  whatever \<^verbatim>\<open>ftruncate\<close> or a write at a large offset asks for.
\<close>

theorem tmpfs_capacity_terminates_iff:
  assumes "cap_ok cap"
  shows "(\<exists>c. tmpfs_capacity cap len = Some c) \<longleftrightarrow> unat len \<le> 2 ^ 62"
proof
  assume "\<exists>c. tmpfs_capacity cap len = Some c"
  then obtain c where "len \<le> c" "cap_ok c" using tmpfs_capacity_result[OF _ assms] by blast
  then show "unat len \<le> 2 ^ 62" using cap_ok_le[of c] by (simp add: word_le_nat_alt)
qed (use assms tmpfs_capacity_returns in blast)

theorem tmpfs_capacity_terminates_iff_witness:
  "cap_ok 0 \<and> (\<exists>c. tmpfs_capacity 0 4096 = Some c) \<and> tmpfs_capacity 0 0x7000000000000000 = None"
proof -
  have ok: "cap_ok 0" by (simp add: cap_ok_def)
  have "\<exists>c. tmpfs_capacity 0 4096 = Some c" using tmpfs_capacity_terminates_iff[OF ok, of 4096] by simp
  moreover have "\<not> (\<exists>c. tmpfs_capacity 0 0x7000000000000000 = Some c)"
    using tmpfs_capacity_terminates_iff[OF ok, of "0x7000000000000000"] by simp
  ultimately show ?thesis using ok by (metis not_None_eq)
qed

section \<open>Contents\<close>

definition tcontent :: "tmpfs_node \<Rightarrow> u8 list" where
  "tcontent n = take (unat (tsize n)) (storage n)"

definition tnode_ok :: "tmpfs_node \<Rightarrow> bool" where
  "tnode_ok n \<longleftrightarrow> tnode_type n \<noteq> DIRECTORY \<and> length (storage n) = unat (capacity n) \<and> tsize n \<le> capacity n \<and> cap_ok (capacity n)"

lemma length_tcontent: "tnode_ok n \<Longrightarrow> length (tcontent n) = unat (tsize n)"
  by (simp add: tnode_ok_def tcontent_def word_le_nat_alt)

lemma tnode_ok_new [simp]: "ty \<noteq> DIRECTORY \<Longrightarrow> tnode_ok (tmpfs_new ty)" "tcontent (tmpfs_new ty) = []"
  by (simp_all add: tnode_ok_def tmpfs_new_def cap_ok_def tcontent_def)

text \<open>Growing keeps the old bytes and makes room for the new size.\<close>

lemma grow_to_spec:
  assumes "tnode_ok n" "unat len \<le> 2 ^ 62"
  shows "\<exists>n'. grow_to heap len n = Some n' \<and> tsize n' = len \<and> tnode_type n' = tnode_type n \<and> len \<le> capacity n' \<and>
    cap_ok (capacity n') \<and> length (storage n') = unat (capacity n') \<and> unat (capacity n) \<le> unat (capacity n') \<and>
    take (unat (capacity n)) (storage n') = storage n"
proof (cases "capacity n < len")
  case True
  obtain c where c: "tmpfs_capacity (capacity n) len = Some c" using tmpfs_capacity_returns assms by (auto simp: tnode_ok_def)
  have r: "len \<le> c" "cap_ok c" using tmpfs_capacity_result[OF c] assms(1) by (auto simp: tnode_ok_def)
  then have "unat (capacity n) \<le> unat c" using True by (simp add: word_le_nat_alt word_less_nat_alt)
  then show ?thesis using True c r assms(1) by (simp add: grow_to_def tnode_ok_def)
qed (use assms in \<open>auto simp: grow_to_def tnode_ok_def\<close>)

lemma tmpfs_read_law:
  assumes ok: "tnode_ok n" and nw: "unat offset + unat cnt < 2 ^ 64"
  shows "tmpfs_read n cnt offset = Some (Inr (take (unat cnt) (drop (unat offset) (tcontent n))))"
proof (cases "offset \<ge> tsize n")
  case True
  then show ?thesis using ok length_tcontent[OF ok] by (simp add: tmpfs_read_def tnode_ok_def word_le_nat_alt)
next
  case False
  let ?a = "if offset + cnt > tsize n then tsize n - offset else cnt"
  have s: "unat (offset + cnt) = unat offset + unat cnt" using nw by (rule unat_add_no_wrap)
  have lt: "unat offset < unat (tsize n)" using False by (simp add: word_le_nat_alt)
  have sub: "unat (tsize n - offset) = unat (tsize n) - unat offset" using False by (intro unat_sub_le) simp
  have a: "unat ?a = min (unat cnt) (unat (tsize n) - unat offset)" using s lt sub by (auto simp: word_less_nat_alt)
  have st: "unat (tsize n) \<le> length (storage n)" using ok by (simp add: tnode_ok_def word_le_nat_alt)
  have "mem_read (storage n) (unat offset) (unat ?a) = Some (take (unat ?a) (drop (unat offset) (storage n)))"
    using a st lt by (intro mem_read_in) simp
  moreover have "take (unat ?a) (drop (unat offset) (storage n)) = take (unat cnt) (drop (unat offset) (tcontent n))"
    unfolding a tcontent_def by (simp add: drop_take)
  ultimately show ?thesis using ok False by (simp add: tmpfs_read_def tnode_ok_def)
qed

lemma tmpfs_write_law:
  assumes ok: "tnode_ok n" and off: "unat offset \<le> length (tcontent n)" and lim: "unat offset + length buf \<le> 2 ^ 62"
  shows "\<exists>n'. tmpfs_write heap n buf offset = Some (Inr (of_nat (length buf)), n') \<and> tnode_ok n' \<and>
    tcontent n' = take (unat offset) (tcontent n) @ buf @ drop (unat offset + length buf) (tcontent n)"
proof (cases "buf = []")
  case True
  then show ?thesis using ok by (simp add: tmpfs_write_def tnode_ok_def)
next
  case False
  let ?k = "of_nat (length buf) :: usize" and ?e = "unat offset + length buf"
  have k: "unat ?k = length buf" using lim by (intro unat_of_nat_64) simp
  have e: "unat (offset + ?k) = ?e" using k lim by (subst unat_add_no_wrap) simp_all
  have k0: "?k \<noteq> 0" using k False by (metis length_0_conv unat_0)
  have offs: "unat offset \<le> unat (tsize n)" using off length_tcontent[OF ok] by simp
  have lens: "unat (tsize n) \<le> length (storage n)" using ok by (simp add: tnode_ok_def word_le_nat_alt)
  define n1 where "n1 = (if offset + ?k > tsize n then grow_to heap (offset + ?k) n else Some n)"
  obtain m where m: "n1 = Some m" "tnode_type m = tnode_type n" "cap_ok (capacity m)" "length (storage m) = unat (capacity m)"
    "unat (tsize m) = max ?e (unat (tsize n))" "unat (tsize m) \<le> unat (capacity m)" "take (length (storage n)) (storage m) = storage n"
  proof (cases "offset + ?k > tsize n")
    case True
    obtain m where "grow_to heap (offset + ?k) n = Some m" "tsize m = offset + ?k" "tnode_type m = tnode_type n" "offset + ?k \<le> capacity m"
      "cap_ok (capacity m)" "length (storage m) = unat (capacity m)" "take (unat (capacity n)) (storage m) = storage n"
      using grow_to_spec[OF ok, of "offset + ?k" heap] e lim by auto
    then show ?thesis using that[of m] True e ok by (simp add: n1_def word_le_nat_alt word_less_nat_alt tnode_ok_def)
  next
    case False
    then show ?thesis using that[of n] e ok by (simp add: n1_def word_le_nat_alt word_less_nat_alt tnode_ok_def)
  qed
  let ?st = "take (unat offset) (storage m) @ buf @ drop ?e (storage m)"
  have w: "mem_write (storage m) (unat offset) buf = Some ?st" using m(4-6) by (intro mem_write_in) simp
  have run: "tmpfs_write heap n buf offset = Some (Inr ?k, m\<lparr>storage := ?st\<rparr>)"
    using ok k0 m(1) w unfolding n1_def by (simp add: tmpfs_write_def Let_def tnode_ok_def)
  have old: "take j (drop i (storage m)) = take j (drop i (storage n))" if "i + j \<le> length (storage n)" for i j
  proof -
    have "take j (drop i (storage m)) = take j (drop i (take (length (storage n)) (storage m)))" using that by (simp add: drop_take min_def)
    then show ?thesis using m(7) by simp
  qed
  have ok': "tnode_ok (m\<lparr>storage := ?st\<rparr>)" using ok m(2-6) by (simp add: tnode_ok_def word_le_nat_alt)
  have "tcontent (m\<lparr>storage := ?st\<rparr>) = take (max ?e (unat (tsize n))) ?st" using m(5) by (simp add: tcontent_def)
  also have "\<dots> = take (unat offset) (storage m) @ buf @ take (unat (tsize n) - ?e) (drop ?e (storage m))"
    using m(4-6) offs by (auto simp: max_def)
  also have "\<dots> = take (unat offset) (storage n) @ buf @ take (unat (tsize n) - ?e) (drop ?e (storage n))"
    using old[of 0 "unat offset"] old[of ?e "unat (tsize n) - ?e"] offs lens by (cases "?e \<le> unat (tsize n)") simp_all
  also have "\<dots> = take (unat offset) (tcontent n) @ buf @ drop ?e (tcontent n)"
    using offs by (simp add: tcontent_def drop_take)
  finally show ?thesis using run ok' by blast
qed

section \<open>The interface of a file's node\<close>

text \<open>
  What the system calls may rely on: a node holds a sequence of bytes, a read returns the bytes from
  an offset as far as there are any, a write within or at the end of the file replaces bytes or
  appends, and the end can be found with a seek.
\<close>

locale byte_file =
  fixes content :: "'n \<Rightarrow> u8 list" and ok :: "'n \<Rightarrow> bool"
    and vread :: "'n \<Rightarrow> usize \<Rightarrow> usize \<Rightarrow> u8 list res option"
    and vwrite :: "'n \<Rightarrow> u8 list \<Rightarrow> usize \<Rightarrow> (usize res \<times> 'n) option"
    and vseek :: "'n \<Rightarrow> usize \<Rightarrow> usize \<Rightarrow> int \<Rightarrow> usize res"
  assumes small: "ok n \<Longrightarrow> length (content n) \<le> 2 ^ 62"
    and read_law: "ok n \<Longrightarrow> unat offset + unat cnt < 2 ^ 64 \<Longrightarrow>
      vread n cnt offset = Some (Inr (take (unat cnt) (drop (unat offset) (content n))))"
    and write_law: "ok n \<Longrightarrow> unat offset \<le> length (content n) \<Longrightarrow> unat offset + length buf \<le> 2 ^ 62 \<Longrightarrow>
      \<exists>n'. vwrite n buf offset = Some (Inr (of_nat (length buf)), n') \<and> ok n' \<and>
        content n' = take (unat offset) (content n) @ buf @ drop (unat offset + length buf) (content n)"
    and seek_law: "ok n \<Longrightarrow> vseek n p offset SEEK_SET = Inr offset \<and> vseek n p 0 SEEK_END = Inr (of_nat (length (content n)))"

text \<open>Reads and writes in pieces of any size.\<close>

fun read_chunks ::
  "('n \<Rightarrow> usize \<Rightarrow> usize \<Rightarrow> u8 list res option) \<Rightarrow> usize list \<Rightarrow> 'n open_file option \<Rightarrow> (u8 list \<times> 'n open_file option) option" where
  "read_chunks vread [] f = Some ([], f)"
| "read_chunks vread (c # cs) f =
     do { (r, f) \<leftarrow> syscall_read vread c f;
          case r of Inl e \<Rightarrow> None | Inr bs \<Rightarrow> do { (rest, f) \<leftarrow> read_chunks vread cs f; Some (bs @ rest, f) } }"

fun write_chunks ::
  "('n \<Rightarrow> u8 list \<Rightarrow> usize \<Rightarrow> (usize res \<times> 'n) option) \<Rightarrow> ('n \<Rightarrow> usize \<Rightarrow> usize \<Rightarrow> int \<Rightarrow> usize res) \<Rightarrow> u8 list list \<Rightarrow>
   'n open_file option \<Rightarrow> 'n open_file option option" where
  "write_chunks vwrite vseek [] f = Some f"
| "write_chunks vwrite vseek (b # bs) f =
     do { (r, f) \<leftarrow> syscall_write vwrite vseek b f; case r of Inl e \<Rightarrow> None | Inr k \<Rightarrow> write_chunks vwrite vseek bs f }"

lemma sint_nonneg: "n < 2 ^ 63 \<Longrightarrow> 0 \<le> sint (of_nat n :: u64)"
proof -
  assume n: "n < 2 ^ 63"
  then have "uint (of_nat n :: u64) = int n" by (simp add: uint_nat unat_of_nat_64)
  then have "\<not> bit (uint (of_nat n :: u64)) 63" using n by (simp add: bit_iff_odd)
  then show ?thesis by (simp add: sint_uint signed_take_bit_nonnegative_iff)
qed

context byte_file
begin

lemma read_step:
  assumes "ok n" "unat (cursor d) \<le> length (content n)" "unat cnt \<le> 2 ^ 63"
  shows "syscall_read vread cnt (Some (d, n)) =
    Some (Inr (take (unat cnt) (drop (unat (cursor d)) (content n))),
          Some (advance (min (unat cnt) (length (content n) - unat (cursor d))) d, n))"
proof -
  have "unat (cursor d) + unat cnt < 2 ^ 64" using assms small[OF assms(1)] by simp
  then show ?thesis using read_law[OF assms(1)] by (simp add: syscall_read_def with_description_def min.commute)
qed

lemma unat_advance: "unat (cursor d) + k < 2 ^ 64 \<Longrightarrow> unat (cursor (advance k d)) = unat (cursor d) + k"
  by (simp add: advance_def unat_add_no_wrap unat_of_nat_64)

lemma read_chunks_spec:
  assumes "ok n" "unat (cursor d) \<le> length (content n)" "\<forall>c\<in>set cs. unat c \<le> 2 ^ 63"
  shows "\<exists>d'. read_chunks vread cs (Some (d, n)) =
    Some (take (sum_list (map unat cs)) (drop (unat (cursor d)) (content n)), Some (d', n))"
  using assms(2,3)
proof (induction cs arbitrary: d)
  case (Cons c cs)
  let ?l = "length (content n)" and ?p = "unat (cursor d)"
  let ?d = "advance (min (unat c) (?l - ?p)) d"
  have p: "unat (cursor ?d) = ?p + min (unat c) (?l - ?p)"
    using Cons.prems(1) small[OF assms(1)] by (intro unat_advance) simp
  then have "unat (cursor ?d) \<le> ?l" using Cons.prems(1) by simp
  then obtain d' where d': "read_chunks vread cs (Some (?d, n)) =
      Some (take (sum_list (map unat cs)) (drop (unat (cursor ?d)) (content n)), Some (d', n))"
    using Cons.IH[of ?d] Cons.prems(2) by auto
  have "take (unat c) (drop ?p (content n)) @ take (sum_list (map unat cs)) (drop (unat (cursor ?d)) (content n)) =
      take (unat c + sum_list (map unat cs)) (drop ?p (content n))"
    unfolding p take_add by (simp add: min_def add.commute)
  then show ?case using d' read_step[OF assms(1) Cons.prems(1), of c] Cons.prems(2) by simp
qed simp

lemma write_step:
  assumes "ok n" "flags d AND O_APPEND = 0" "unat (cursor d) \<le> length (content n)" "unat (cursor d) + length buf \<le> 2 ^ 62"
  shows "\<exists>n'. syscall_write vwrite vseek buf (Some (d, n)) = Some (Inr (of_nat (length buf)), Some (advance (length buf) d, n')) \<and> ok n' \<and>
    content n' = take (unat (cursor d)) (content n) @ buf @ drop (unat (cursor d) + length buf) (content n)"
proof -
  have "unat (of_nat (length buf) :: usize) = length buf" using assms(4) by (intro unat_of_nat_64) simp
  then show ?thesis using write_law[OF assms(1,3,4)] assms(2)
    by (auto simp: syscall_write_def with_description_def seek_to_end_if_append_def Let_def)
qed

lemma append_step:
  assumes "ok n" "flags d AND O_APPEND \<noteq> 0" "length (content n) + length buf \<le> 2 ^ 62"
  shows "\<exists>n' d'. syscall_write vwrite vseek buf (Some (d, n)) = Some (Inr (of_nat (length buf)), Some (d', n')) \<and> ok n' \<and>
    content n' = content n @ buf \<and> flags d' = flags d"
proof -
  let ?e = "of_nat (length (content n)) :: usize"
  have e: "unat ?e = length (content n)" using assms(3) by (intro unat_of_nat_64) simp
  have "0 \<le> sint ?e" using assms(3) by (intro sint_nonneg) simp
  then have s: "seek_to_end_if_append vseek (d, n) = d\<lparr>cursor := ?e\<rparr>"
    using assms(2) seek_law[OF assms(1)] by (simp add: seek_to_end_if_append_def)
  have "unat ?e + length buf \<le> 2 ^ 62" using e assms(3) by simp
  from write_law[OF assms(1) _ this] e obtain n' where "vwrite n buf ?e = Some (Inr (of_nat (length buf)), n')" "ok n'" "content n' = content n @ buf"
    by auto
  then show ?thesis using s by (simp add: syscall_write_def with_description_def advance_def)
qed

lemma write_chunks_spec:
  assumes "ok n" "flags d AND O_APPEND = 0" "unat (cursor d) \<le> length (content n)" "unat (cursor d) + length (concat bufs) \<le> 2 ^ 62"
  shows "\<exists>n' d'. write_chunks vwrite vseek bufs (Some (d, n)) = Some (Some (d', n')) \<and> ok n' \<and>
    content n' = take (unat (cursor d)) (content n) @ concat bufs @ drop (unat (cursor d) + length (concat bufs)) (content n)"
  using assms
proof (induction bufs arbitrary: d n)
  case (Cons b bufs)
  let ?p = "unat (cursor d)" and ?d = "advance (length b) d"
  have lb: "?p + length b \<le> 2 ^ 62" using Cons.prems(4) by simp
  obtain n1 where n1: "syscall_write vwrite vseek b (Some (d, n)) = Some (Inr (of_nat (length b)), Some (?d, n1))" "ok n1"
    "content n1 = take ?p (content n) @ b @ drop (?p + length b) (content n)" using write_step[OF Cons.prems(1-3) lb] by auto
  have p: "unat (cursor ?d) = ?p + length b" using lb by (intro unat_advance) simp
  have "flags ?d AND O_APPEND = 0" using Cons.prems(2) by (simp add: advance_def)
  moreover have "unat (cursor ?d) \<le> length (content n1)" using p n1(3) Cons.prems(3) by simp
  moreover have "unat (cursor ?d) + length (concat bufs) \<le> 2 ^ 62" using p Cons.prems(4) by simp
  ultimately obtain n2 d2 where n2: "write_chunks vwrite vseek bufs (Some (?d, n1)) = Some (Some (d2, n2))" "ok n2"
    "content n2 = take (?p + length b) (content n1) @ concat bufs @ drop (?p + length b + length (concat bufs)) (content n1)"
    using Cons.IH[OF n1(2), of ?d] unfolding p by blast
  have "content n2 = take ?p (content n) @ concat (b # bufs) @ drop (?p + length (concat (b # bufs))) (content n)"
    using n2(3) n1(3) Cons.prems(3) by (simp add: drop_append add.assoc add.left_commute add.commute)
  then show ?case using n1(1) n2(1,2) by simp
qed simp

lemma stream_round_trip:
  assumes n: "ok n" and d: "flags d AND O_APPEND = 0" "unat (cursor d) \<le> length (content n)"
    and b: "unat (cursor d) + length (concat bufs) \<le> 2 ^ 62" and c: "\<forall>c\<in>set cs. unat c \<le> 2 ^ 63"
  shows "\<exists>f1 f2 f3. write_chunks vwrite vseek bufs (Some (d, n)) = Some f1 \<and> syscall_lseek vseek 0 SEEK_SET f1 = Some (Inr 0, f2) \<and>
    read_chunks vread cs f2 = Some (take (sum_list (map unat cs))
      (take (unat (cursor d)) (content n) @ concat bufs @ drop (unat (cursor d) + length (concat bufs)) (content n)), f3)"
proof -
  obtain n1 d1 where w: "write_chunks vwrite vseek bufs (Some (d, n)) = Some (Some (d1, n1))" "ok n1"
    "content n1 = take (unat (cursor d)) (content n) @ concat bufs @ drop (unat (cursor d) + length (concat bufs)) (content n)"
    using write_chunks_spec[OF n d b] by blast
  have s: "syscall_lseek vseek 0 SEEK_SET (Some (d1, n1)) = Some (Inr 0, Some (d1\<lparr>cursor := 0\<rparr>, n1))"
    using seek_law[OF w(2), of "cursor d1" 0] by (simp add: syscall_lseek_def with_description_def)
  obtain d2 where "read_chunks vread cs (Some (d1\<lparr>cursor := 0\<rparr>, n1)) = Some (take (sum_list (map unat cs)) (content n1), Some (d2, n1))"
    using read_chunks_spec[OF w(2), of "d1\<lparr>cursor := 0\<rparr>" cs] c by auto
  then show ?thesis using w s by metis
qed

lemma append_chunks_spec:
  assumes "ok n" "flags d AND O_APPEND \<noteq> 0" "length (content n) + length (concat bufs) \<le> 2 ^ 62"
  shows "\<exists>n' d'. write_chunks vwrite vseek bufs (Some (d, n)) = Some (Some (d', n')) \<and> ok n' \<and> content n' = content n @ concat bufs"
  using assms
proof (induction bufs arbitrary: d n)
  case (Cons b bufs)
  then obtain n1 d1 where "syscall_write vwrite vseek b (Some (d, n)) = Some (Inr (of_nat (length b)), Some (d1, n1))" "ok n1"
    "content n1 = content n @ b" "flags d1 = flags d" using append_step[OF Cons.prems(1,2), of b] by auto
  then show ?case using Cons.IH[of n1 d1] Cons.prems(2,3) by auto
qed simp

end

interpretation tmpfs: byte_file tcontent tnode_ok tmpfs_read "tmpfs_write heap" tmpfs_seek for heap
proof
  fix n :: tmpfs_node assume ok: "tnode_ok n"
  have "unat (tsize n) \<le> unat (capacity n)" using ok by (simp add: tnode_ok_def word_le_nat_alt)
  then show l: "length (tcontent n) \<le> 2 ^ 62" using length_tcontent[OF ok] cap_ok_le[of "capacity n"] ok by (simp add: tnode_ok_def)
  show "tmpfs_seek n p offset SEEK_SET = Inr offset \<and> tmpfs_seek n p 0 SEEK_END = Inr (of_nat (length (tcontent n)))" for p offset
    using length_tcontent[OF ok] by (simp add: tmpfs_seek_def seek_in_def SEEK_SET_def SEEK_END_def SEEK_CUR_def)
qed (rule tmpfs_read_law tmpfs_write_law; assumption)+

section \<open>Properties of file contents\<close>

text \<open>
  C13: what is written to a tmpfs file is what is read back, whatever the pieces. Writing buffers of any
  lengths one after the other at the cursor, seeking to the start and reading in pieces of any sizes
  returns, without any error, the first bytes of the file in which exactly the written part has been
  replaced or appended.
\<close>

theorem tmpfs_stream_round_trip:
  assumes "tnode_ok n" "flags d AND O_APPEND = 0" "unat (cursor d) \<le> length (tcontent n)"
    and "unat (cursor d) + length (concat bufs) \<le> 2 ^ 62" "\<forall>c\<in>set cs. unat c \<le> 2 ^ 63"
  shows "\<exists>f1 f2 f3. write_chunks (tmpfs_write heap) tmpfs_seek bufs (Some (d, n)) = Some f1 \<and>
    syscall_lseek tmpfs_seek 0 SEEK_SET f1 = Some (Inr 0, f2) \<and>
    read_chunks tmpfs_read cs f2 = Some (take (sum_list (map unat cs))
      (take (unat (cursor d)) (tcontent n) @ concat bufs @ drop (unat (cursor d) + length (concat bufs)) (tcontent n)), f3)"
  by (rule tmpfs.stream_round_trip[OF assms])

theorem tmpfs_stream_round_trip_witness:
  "\<exists>f1 f2 f3. write_chunks (tmpfs_write (\<lambda>i. 99)) tmpfs_seek [[1, 2], [3]] (Some (description_new 0 O_RDWR, tmpfs_new REGULAR)) = Some f1 \<and>
    syscall_lseek tmpfs_seek 0 SEEK_SET f1 = Some (Inr 0, f2) \<and> read_chunks tmpfs_read [1, 5] f2 = Some ([1, 2, 3], f3)"
proof -
  let ?d = "description_new 0 O_RDWR"
  have d: "flags ?d AND O_APPEND = 0" "unat (cursor ?d) = 0" by (simp_all add: description_new_def O_RDWR_def O_APPEND_def)
  have c: "\<forall>c\<in>set [1, 5 :: usize]. unat c \<le> 2 ^ 63" by simp
  have p: "unat (cursor ?d) \<le> length (tcontent (tmpfs_new REGULAR))" "unat (cursor ?d) + length (concat [[1, 2], [3 :: u8]]) \<le> 2 ^ 62"
    using d(2) by simp_all
  show ?thesis using tmpfs_stream_round_trip[OF _ d(1) p c, of "\<lambda>i. 99"] unfolding d(2) by simp
qed

text \<open>
  Shrinking a tmpfs file and growing it again brings the old data back. \<^verbatim>\<open>truncate\<close> means to clear the
  bytes it adds, but \<^verbatim>\<open>grow_to\<close> has already stored the new size when the number of bytes to clear is
  computed, so none is cleared.
\<close>

theorem truncate_reveals_old_data:
  assumes "tnode_ok n" "len \<le> tsize n"
  shows "\<exists>n1 n2. tmpfs_truncate heap 0 n = Some (Inr (), n1) \<and> tcontent n1 = [] \<and>
    tmpfs_truncate heap len n1 = Some (Inr (), n2) \<and> tcontent n2 = take (unat len) (tcontent n)"
proof -
  let ?n1 = "n\<lparr>tsize := 0\<rparr>"
  have c: "len \<le> capacity n" "unat len \<le> unat (tsize n)" "unat len \<le> length (storage n)" "tnode_type n \<noteq> DIRECTORY"
    using assms by (auto simp: tnode_ok_def word_le_nat_alt)
  then have "\<not> capacity n < len" by simp
  then have g: "grow_to heap len ?n1 = Some (n\<lparr>tsize := len\<rparr>)" by (simp add: grow_to_def)
  have t: "tmpfs_truncate heap len ?n1 = Some (Inr (), n\<lparr>tsize := len\<rparr>)"
    using g c by (auto simp: tmpfs_truncate_def mem_write_def word_gt_0_no)
  have "tmpfs_truncate heap 0 n = Some (Inr (), ?n1)" using c(4) by (simp add: tmpfs_truncate_def)
  moreover have "tcontent ?n1 = []" "tcontent (n\<lparr>tsize := len\<rparr>) = take (unat len) (tcontent n)"
    using c(2) by (simp_all add: tcontent_def min_def)
  ultimately show ?thesis using t by blast
qed

definition secret_file :: tmpfs_node where
  "secret_file = \<lparr>tnode_type = REGULAR, storage = [7, 7, 7, 0], tsize = 3, capacity = 4\<rparr>"

theorem truncate_reveals_old_data_witness:
  "\<exists>n1 n2. tmpfs_truncate (\<lambda>i. 0) 0 secret_file = Some (Inr (), n1) \<and> tcontent n1 = [] \<and>
    tmpfs_truncate (\<lambda>i. 0) 2 n1 = Some (Inr (), n2) \<and> tcontent n2 = [7, 7]"
proof -
  have ok: "tnode_ok secret_file" unfolding tnode_ok_def cap_ok_def secret_file_def by (auto intro: exI[of _ 1])
  have l: "2 \<le> tsize secret_file" by (simp add: secret_file_def)
  show ?thesis using truncate_reveals_old_data[OF ok l, of "\<lambda>i. 0"] by (simp add: secret_file_def tcontent_def)
qed

definition mcontent :: "memfd \<Rightarrow> u8 list" where
  "mcontent m = take (unat (msize m)) (mdata m)"

definition memfd_ok :: "memfd \<Rightarrow> bool" where
  "memfd_ok m \<longleftrightarrow> length (mdata m) = unat (mcapacity m) \<and> msize m \<le> mcapacity m"

text \<open>
  A write that outgrows the pages of a memory file wipes the file. \<^verbatim>\<open>grow_to\<close> maps a new block and never
  copies the old one, so everything in front of the bytes just written reads as zeroes.
\<close>

theorem memfd_growth_loses_data:
  assumes "memfd_ok m" "unat (mcapacity m) < unat offset + length buf" "unat offset + length buf \<le> 2 ^ 62" "buf \<noteq> []"
  shows "\<exists>m' b'. memfd_write m buf offset b = Some ((Inr (of_nat (length buf)), m'), b') \<and> mcontent m' = replicate (unat offset) 0 @ buf"
proof -
  let ?k = "of_nat (length buf) :: usize" and ?e = "unat offset + length buf"
  have k: "unat ?k = length buf" using assms(3) by (intro unat_of_nat_64) simp
  have e: "unat (offset + ?k) = ?e" using k assms(3) by (subst unat_add_no_wrap) simp_all
  have k0: "?k \<noteq> 0" using k assms(4) by (metis length_0_conv unat_0)
  have gt: "offset + ?k > msize m" "mcapacity m < offset + ?k"
    using e assms(1,2) by (simp_all add: memfd_ok_def word_less_nat_alt word_le_nat_alt)
  let ?c = "align_up (offset + ?k) PAGE_SIZE"
  have "unat ?c = (?e + 4095) div 4096 * 4096" using unat_align_up[of PAGE_SIZE "offset + ?k"] e assms(3) by simp
  then have c: "?e \<le> unat ?c" using div_mult_mod_eq[of "?e + 4095" 4096] mod_less_divisor[of 4096 "?e + 4095"] by linarith
  define m1 where "m1 = m\<lparr>msize := offset + ?k, mcapacity := ?c, maddress := b, mdata := replicate (unat ?c) 0\<rparr>"
  define st where "st = replicate (unat offset) (0 :: u8) @ buf @ replicate (unat ?c - ?e) 0"
  have g: "memfd_grow_to (offset + ?k) m b = (m1, b + align_up ?c PAGE_SIZE)"
    using gt(2) by (simp add: memfd_grow_to_def virt_alloc_def m1_def Let_def)
  have w: "mem_write (mdata m1) (unat offset) buf = Some st"
    using c by (simp add: m1_def st_def mem_write_def)
  have run: "memfd_write m buf offset b = Some ((Inr ?k, m1\<lparr>mdata := st\<rparr>), b + align_up ?c PAGE_SIZE)"
    using gt(1) g w k0 by (simp add: memfd_write_def Let_def)
  have "mcontent (m1\<lparr>mdata := st\<rparr>) = replicate (unat offset) 0 @ buf" using e c by (simp add: mcontent_def m1_def st_def)
  then show ?thesis using run by blast
qed

definition full_memfd :: memfd where
  "full_memfd = \<lparr>msize = 4096, mcapacity = 4096, maddress = 0x1000, mdata = replicate 4096 7\<rparr>"

theorem memfd_growth_loses_data_witness:
  "\<exists>m' b'. memfd_write full_memfd [1] 4096 0x9000 = Some ((Inr 1, m'), b') \<and> mcontent full_memfd = replicate 4096 7 \<and>
    mcontent m' = replicate 4096 0 @ [1]"
proof -
  have "memfd_ok full_memfd" "unat (mcapacity full_memfd) < unat (4096 :: usize) + length [1 :: u8]"
    by (simp_all add: memfd_ok_def full_memfd_def)
  from memfd_growth_loses_data[OF this, of "0x9000"] show ?thesis by (simp add: full_memfd_def mcontent_def)
qed

end
