(* ===== verification/Vfs_Tree.thy ===== *)
theory Vfs_Tree
  imports Vfs_Files
begin

text \<open>
  The tree of names of \<^verbatim>\<open>fs/vfs.cpp\<close> with tmpfs as its file system: entries and nodes in stores indexed
  by numbers, path resolution and the system calls that create, remove, rename and inspect names.

  Names and paths are the bytes in front of the terminating zero; \<open>str\<close> turns a literal into them. A
  null pointer that the code follows, a write past the end of a buffer and a resolution that does not
  end are \<open>None\<close>.
\<close>

section \<open>State\<close>

definition str :: "string \<Rightarrow> u8 list" where
  "str s = map of_char s"

definition slash :: u8 where
  "slash = 0x2F"

record inode =
  ndata :: tmpfs_node
  inode_num :: nat
  nuid :: u32
  ngid :: u32
  nmode :: u32
  nrefs :: int

record entry =
  evnode :: "nat option"
  eparent :: "nat option"
  eredirect :: "nat option"
  children_list :: "nat list"
  ename :: "u8 list"

record vfs =
  entries :: "nat \<Rightarrow> entry"
  nodes :: "nat \<Rightarrow> inode"
  num_entries :: nat
  num_nodes :: nat
  last_inode_num :: nat
  root :: nat
  null_entry :: nat

definition upd_entry :: "nat \<Rightarrow> (entry \<Rightarrow> entry) \<Rightarrow> vfs \<Rightarrow> vfs" where
  "upd_entry e f v = v\<lparr>entries := (entries v)(e := f (entries v e))\<rparr>"

definition upd_node :: "nat \<Rightarrow> (inode \<Rightarrow> inode) \<Rightarrow> vfs \<Rightarrow> vfs" where
  "upd_node n f v = v\<lparr>nodes := (nodes v)(n := f (nodes v n))\<rparr>"

definition type_of :: "vfs \<Rightarrow> nat \<Rightarrow> node_type" where
  "type_of v n = tnode_type (ndata (nodes v n))"

section \<open>Entries\<close>

definition construct :: "nat option \<Rightarrow> nat option \<Rightarrow> u8 list \<Rightarrow> nat option \<Rightarrow> vfs \<Rightarrow> nat \<times> vfs" where
  "construct vn parent name redirect v =
     (num_entries v,
      v\<lparr>entries := (entries v)(num_entries v :=
            \<lparr>evnode = vn, eparent = parent, eredirect = redirect, children_list = [], ename = name\<rparr>),
        num_entries := num_entries v + 1\<rparr>)"

definition add_entry :: "nat \<Rightarrow> nat \<Rightarrow> vfs \<Rightarrow> vfs" where
  "add_entry p c v = upd_entry p (\<lambda>e. e\<lparr>children_list := c # children_list e\<rparr>) v"

definition remove_from_parent :: "nat \<Rightarrow> vfs \<Rightarrow> vfs" where
  "remove_from_parent c v =
     (case eparent (entries v c) of None \<Rightarrow> v
      | Some p \<Rightarrow> upd_entry p (\<lambda>e. e\<lparr>children_list := removeAll c (children_list e)\<rparr>) v)"

partial_function (option) reduce :: "nat \<Rightarrow> vfs \<Rightarrow> nat option" where
  "reduce e v = (case eredirect (entries v e) of None \<Rightarrow> Some e | Some r \<Rightarrow> reduce r v)"

declare reduce.simps [code]

text \<open>Names are compared as strings: equal names have equal hashes.\<close>

definition find_child :: "nat \<Rightarrow> u8 list \<Rightarrow> vfs \<Rightarrow> nat option" where
  "find_child p name v = find (\<lambda>c. ename (entries v c) = name) (children_list (entries v p))"

text \<open>\<^verbatim>\<open>Entry::lookup\<close> on tmpfs, whose own lookup does nothing: the entry without a node is remembered.\<close>

definition entry_lookup :: "nat \<Rightarrow> vfs \<Rightarrow> vfs option" where
  "entry_lookup e v =
     do { p \<leftarrow> eparent (entries v e);
          pv \<leftarrow> evnode (entries v p);
          rp \<leftarrow> reduce p v;
          Some (if find_child rp (ename (entries v e)) v = None then add_entry p e v else v) }"

definition vfs_lookup :: "nat \<Rightarrow> u8 list \<Rightarrow> vfs \<Rightarrow> (nat \<times> vfs) option" where
  "vfs_lookup parent filename v =
     (case find_child parent filename v of
        Some c \<Rightarrow> Some (c, v)
      | None \<Rightarrow> do { let (e, v) = construct None (Some parent) filename None v; v \<leftarrow> entry_lookup e v; Some (e, v) })"

text \<open>
  \<^verbatim>\<open>tmpfs::Filesystem::create\<close> and \<^verbatim>\<open>Entry::create\<close>; an id or mode of \<open>None\<close> is the \<open>-1\<close> that leaves it.
  A fresh node starts without owner and mode.
\<close>

definition tmpfs_create :: "nat \<Rightarrow> node_type \<Rightarrow> vfs \<Rightarrow> vfs option" where
  "tmpfs_create e ty v =
     (case evnode (entries v e) of
        Some n \<Rightarrow> Some ((upd_node n (\<lambda>i. i\<lparr>ndata := tmpfs_new (tnode_type (ndata i)), inode_num := last_inode_num v\<rparr>) v)
                          \<lparr>last_inode_num := last_inode_num v + 1\<rparr>)
      | None \<Rightarrow>
          if ty = HARD_LINK then None
          else let n = num_nodes v in
               Some ((upd_entry e (\<lambda>x. x\<lparr>evnode := Some n\<rparr>) v)
                 \<lparr>nodes := (nodes v)(n := \<lparr>ndata = tmpfs_new ty, inode_num = last_inode_num v, nuid = -1, ngid = -1, nmode = 0, nrefs = 0\<rparr>),
                  num_nodes := n + 1, last_inode_num := last_inode_num v + 1\<rparr>))"

definition add_dots :: "nat \<Rightarrow> nat \<Rightarrow> nat \<Rightarrow> vfs \<Rightarrow> vfs" where
  "add_dots e p n v =
     (let (d, v) = construct (Some n) (Some e) (str ''.'') (Some e) v;
          v = add_entry e d v;
          (dd, v) = construct (evnode (entries v p)) (Some e) (str ''..'') (Some p) v
      in add_entry e dd v)"

definition set_owner :: "node_type \<Rightarrow> u32 option \<Rightarrow> u32 option \<Rightarrow> u32 option \<Rightarrow> inode \<Rightarrow> inode" where
  "set_owner ty uid gid mode i =
     i\<lparr>nrefs := nrefs i + 1,
       nuid := (case uid of Some u \<Rightarrow> u | None \<Rightarrow> nuid i),
       ngid := (case gid of Some g \<Rightarrow> g | None \<Rightarrow> ngid i),
       nmode := (if ty = SYMLINK then 511 else case mode of Some m \<Rightarrow> m | None \<Rightarrow> nmode i)\<rparr>"

definition entry_create :: "nat \<Rightarrow> node_type \<Rightarrow> u32 option \<Rightarrow> u32 option \<Rightarrow> u32 option \<Rightarrow> vfs \<Rightarrow> vfs option" where
  "entry_create e ty uid gid mode v =
     do { p \<leftarrow> eparent (entries v e);
          v \<leftarrow> (if ty \<noteq> HARD_LINK then tmpfs_create e ty v else Some v);
          let v = (if find_child p (ename (entries v e)) v = None then add_entry p e v else v);
          case evnode (entries v e) of
            None \<Rightarrow> Some v
          | Some n \<Rightarrow>
              let v = (if type_of v n = DIRECTORY then add_dots e p n v else v)
              in Some (upd_node n (set_owner ty uid gid mode) v) }"

definition entry_remove :: "nat \<Rightarrow> vfs \<Rightarrow> vfs option" where
  "entry_remove e v =
     do { n \<leftarrow> evnode (entries v e);
          Some (upd_node n (\<lambda>i. i\<lparr>nrefs := nrefs i - 1\<rparr>) (remove_from_parent e v)) }"

text \<open>\<^verbatim>\<open>vfs::init\<close>: the root directory of tmpfs with its two dot entries, and the null entry.\<close>

definition vfs_init :: vfs where
  "vfs_init =
     (let e0 = \<lparr>evnode = Some 0, eparent = None, eredirect = None, children_list = [3, 2], ename = []\<rparr>;
          dot = (\<lambda>s. \<lparr>evnode = Some 0, eparent = Some 0, eredirect = Some 0, children_list = [], ename = str s\<rparr>);
          none = \<lparr>evnode = None, eparent = None, eredirect = None, children_list = [], ename = []\<rparr>
      in \<lparr>entries = (\<lambda>_. none)(0 := e0, 2 := dot ''.'', 3 := dot ''..''),
          nodes = (\<lambda>_. \<lparr>ndata = tmpfs_new DIRECTORY, inode_num = 2, nuid = 0, ngid = 0, nmode = 493, nrefs = 0\<rparr>),
          num_entries = 4, num_nodes = 1, last_inode_num = 3, root = 0, null_entry = 1\<rparr>)"

section \<open>Path resolution\<close>

text \<open>Where a resolution starts: an entry at once, or the rest of the path, its length and a directory.\<close>

definition path_start :: "u8 list \<Rightarrow> nat option \<Rightarrow> vfs \<Rightarrow> (nat + (u8 list \<times> nat \<times> nat)) option" where
  "path_start path starting_point v =
     (if path = [] then Some (Inl (null_entry v))
      else do { cur \<leftarrow> (case starting_point of None \<Rightarrow> Some None | Some s \<Rightarrow> map_option Some (reduce s v));
                if hd path = slash
                then if tl path = [] then Some (Inl (root v)) else Some (Inr (tl path, length path - 1, root v))
                else case cur of None \<Rightarrow> Some (Inl (null_entry v)) | Some c \<Rightarrow> Some (Inr (path, length path, c)) })"

text \<open>
  The position of the next slash and whether the component in front of it is the last; \<open>None\<close> for a
  slash that is skipped. \<open>path_len\<close> is the code's count of the remaining bytes, which skipping a slash
  does not reduce.
\<close>

definition next_component :: "u8 list \<Rightarrow> nat \<Rightarrow> (nat \<times> bool) option" where
  "next_component path path_len =
     (let s = length (takeWhile (\<lambda>c. c \<noteq> slash) path) in
      if s = length path then Some (path_len, True)
      else if s + 1 = path_len then Some (s, True)
      else if s = 0 then None
      else Some (s, False))"

text \<open>The path that replaces a symbolic link: its target, then the rest, in a buffer of 256 bytes.\<close>

definition link_path :: "vfs \<Rightarrow> nat \<Rightarrow> u8 list \<Rightarrow> nat \<Rightarrow> u8 list res option" where
  "link_path v n path s =
     do { r \<leftarrow> tmpfs_read (ndata (nodes v n)) 128 0;
          case r of
            Inl e \<Rightarrow> Some (Inl e)
          | Inr bs \<Rightarrow>
              if length bs > 127 then Some (Inl ENOENT)
              else if s > length path \<or> length bs + (length path - s) \<ge> 256 then None
              else Some (Inr (takeWhile (\<lambda>c. c \<noteq> 0) (bs @ drop s path))) }"

text \<open>One turn of the loop: the resulting entry, or the rest of the path, its length and the directory to go on with.\<close>

definition path_step :: "u8 list \<Rightarrow> nat \<Rightarrow> nat \<Rightarrow> bool \<Rightarrow> vfs \<Rightarrow> ((nat + (u8 list \<times> nat \<times> nat)) \<times> vfs) option" where
  "path_step path path_len cur follow v =
     do { n \<leftarrow> evnode (entries v cur);
          if type_of v n \<noteq> DIRECTORY then Some (Inl (null_entry v), v)
          else case next_component path path_len of
            None \<Rightarrow> Some (Inr (tl path, path_len, cur), v)
          | Some (s, is_last) \<Rightarrow>
              do { (e, v) \<leftarrow> vfs_lookup cur (take s path) v;
                   case evnode (entries v e) of
                     None \<Rightarrow> Some (Inl (if is_last then e else null_entry v), v)
                   | Some m \<Rightarrow>
                       if (\<not> is_last \<or> follow) \<and> type_of v m = SYMLINK
                       then do { np \<leftarrow> link_path v m path s;
                                 case np of
                                   Inl err \<Rightarrow> Some (Inl (null_entry v), v)
                                 | Inr np \<Rightarrow> do { st \<leftarrow> path_start np (Some cur) v; Some (st, v) } }
                       else if is_last then Some (Inl e, v)
                       else do { c \<leftarrow> reduce e v; Some (Inr (drop (s + 1) path, path_len - (s + 1), c), v) } } }"

partial_function (option) path_loop :: "u8 list \<Rightarrow> nat \<Rightarrow> nat \<Rightarrow> bool \<Rightarrow> vfs \<Rightarrow> (nat \<times> vfs) option" where
  "path_loop path path_len cur follow v =
     do { (r, v) \<leftarrow> path_step path path_len cur follow v;
          case r of Inl x \<Rightarrow> Some (x, v) | Inr q \<Rightarrow> path_loop (fst q) (fst (snd q)) (snd (snd q)) follow v }"

declare path_loop.simps [code]

definition path_to_entry :: "u8 list \<Rightarrow> nat option \<Rightarrow> bool \<Rightarrow> vfs \<Rightarrow> (nat \<times> vfs) option" where
  "path_to_entry path starting_point follow v =
     do { st \<leftarrow> path_start path starting_point v;
          case st of Inl x \<Rightarrow> Some (x, v) | Inr (p, l, c) \<Rightarrow> path_loop p l c follow v }"

definition create_entry :: "nat \<Rightarrow> u8 list \<Rightarrow> nat \<Rightarrow> u32 \<Rightarrow> u32 \<Rightarrow> u32 \<Rightarrow> vfs \<Rightarrow> (nat \<times> vfs) option" where
  "create_entry parent filename vn uid gid mode v =
     do { (e, v) \<leftarrow> vfs_lookup parent filename v;
          if evnode (entries v e) \<noteq> None then None
          else do { v \<leftarrow> entry_create e (type_of v vn) (Some uid) (Some gid) (Some mode) (upd_entry e (\<lambda>x. x\<lparr>evnode := Some vn\<rparr>) v);
                    Some (e, v) } }"

partial_function (option) print_path :: "nat \<Rightarrow> vfs \<Rightarrow> u8 list option" where
  "print_path e v =
     do { up \<leftarrow> (case eparent (entries v e) of
                   None \<Rightarrow> Some []
                 | Some p \<Rightarrow> if eparent (entries v p) = None then Some [] else print_path p v);
          Some (up @ slash # ename (entries v e)) }"

declare print_path.simps [code]

section \<open>System calls\<close>

text \<open>
  The calling process: its directory, its open descriptors as node and entry, its ids and umask.
  \<^verbatim>\<open>AT_FDCWD\<close> is \<open>-100\<close>.
\<close>

record caller =
  cwd :: nat
  open_fds :: "int \<Rightarrow> (nat \<times> nat) option"
  euid :: u32
  egid :: u32
  umask :: u32

definition AT_FDCWD :: int where "AT_FDCWD = -100"
definition AT_SYMLINK_NOFOLLOW :: u32 where "AT_SYMLINK_NOFOLLOW = 0x100"
definition AT_REMOVEDIR :: u32 where "AT_REMOVEDIR = 0x200"
definition AT_EMPTY_PATH :: u32 where "AT_EMPTY_PATH = 0x1000"

definition get_starting_point :: "caller \<Rightarrow> int \<Rightarrow> u8 list \<Rightarrow> vfs \<Rightarrow> nat option res" where
  "get_starting_point me dirfd path v =
     (if path \<noteq> [] \<and> hd path = slash then Inr None
      else if dirfd = AT_FDCWD then Inr (Some (cwd me))
      else case open_fds me dirfd of
        None \<Rightarrow> Inl EBADF
      | Some (n, e) \<Rightarrow> if type_of v n \<noteq> DIRECTORY then Inl ENOTDIR else Inr (Some e))"

text \<open>Resolving the path of a call: the error of the starting point, or the entry.\<close>

definition resolve_at :: "caller \<Rightarrow> int \<Rightarrow> u8 list \<Rightarrow> bool \<Rightarrow> vfs \<Rightarrow> (nat res \<times> vfs) option" where
  "resolve_at me dirfd path follow v =
     (case get_starting_point me dirfd path v of
        Inl e \<Rightarrow> Some (Inl e, v)
      | Inr s \<Rightarrow> do { (x, v) \<leftarrow> path_to_entry path s follow v; Some (Inr x, v) })"

definition get_vnode_from_dirfd_path :: "caller \<Rightarrow> int \<Rightarrow> u8 list \<Rightarrow> u32 \<Rightarrow> vfs \<Rightarrow> (nat res \<times> vfs) option" where
  "get_vnode_from_dirfd_path me fd path fl v =
     (if fl AND AT_EMPTY_PATH \<noteq> 0 \<and> path = []
      then if fd = AT_FDCWD then do { n \<leftarrow> evnode (entries v (cwd me)); Some (Inr n, v) }
           else Some (case open_fds me fd of None \<Rightarrow> Inl EBADF | Some (n, e) \<Rightarrow> Inr n, v)
      else do { (r, v) \<leftarrow> resolve_at me fd path (fl AND AT_SYMLINK_NOFOLLOW = 0) v;
                case r of
                  Inl e \<Rightarrow> Some (Inl e, v)
                | Inr x \<Rightarrow>
                    if evnode (entries v x) = None then Some (Inl ENOENT, v)
                    else do { y \<leftarrow> reduce x v; n \<leftarrow> evnode (entries v y); Some (Inr n, v) } })"

text \<open>
  \<^verbatim>\<open>openat\<close>: the entry of the new description. \<open>vopen\<close> is the \<^verbatim>\<open>open\<close> operation of the node, which does
  nothing for files and directories of tmpfs.
\<close>

definition open_existing :: "node_type \<Rightarrow> usize \<Rightarrow> bool res option" where
  "open_existing ty fl =
     (if ty = SYMLINK then (if fl AND O_NOFOLLOW = 0 then None else Some (Inl ELOOP))
      else if fl AND O_EXCL \<noteq> 0 then Some (Inl EEXIST)
      else if ty = DIRECTORY
      then Some (if fl AND O_ACCMODE = O_RDWR \<or> fl AND O_ACCMODE = O_WRONLY \<or> fl AND O_CREAT \<noteq> 0 then Inl EISDIR else Inr False)
      else if fl AND O_DIRECTORY \<noteq> 0 then Some (Inl ENOTDIR)
      else Some (Inr (fl AND O_TRUNC \<noteq> 0 \<and> ty = REGULAR)))"

definition openat_impl ::
  "(nat \<Rightarrow> usize \<Rightarrow> errno option) \<Rightarrow> (nat \<Rightarrow> u8) \<Rightarrow> caller \<Rightarrow> int \<Rightarrow> u8 list \<Rightarrow> usize \<Rightarrow> u32 \<Rightarrow> vfs \<Rightarrow> (nat res \<times> vfs) option" where
  "openat_impl vopen heap me dirfd path fl mode v =
     do { (r, v) \<leftarrow> resolve_at me dirfd path (fl AND O_NOFOLLOW = 0) v;
          case r of
            Inl e \<Rightarrow> Some (Inl e, v)
          | Inr x \<Rightarrow>
              do { (t, v) \<leftarrow>
                     (case evnode (entries v x) of
                        None \<Rightarrow>
                          if fl AND O_CREAT = 0 then Some (Inl ENOENT, v)
                          else if eparent (entries v x) = None then Some (Inl ENOENT, v)
                          else do { v \<leftarrow> entry_create x REGULAR (Some (euid me)) (Some (egid me)) (Some (mode AND NOT (umask me))) v;
                                    Some (Inr False, v) }
                      | Some n \<Rightarrow> do { t \<leftarrow> open_existing (type_of v n) fl; Some (t, v) });
                   case t of
                     Inl e \<Rightarrow> Some (Inl e, v)
                   | Inr should_truncate \<Rightarrow>
                       do { n \<leftarrow> evnode (entries v x);
                            case vopen n (fl AND NOT O_CLOEXEC) of
                              Some e \<Rightarrow> Some (Inl e, v)
                            | None \<Rightarrow>
                                do { v \<leftarrow> (if should_truncate
                                          then do { (u, d) \<leftarrow> tmpfs_truncate heap 0 (ndata (nodes v n)); Some (upd_node n (\<lambda>i. i\<lparr>ndata := d\<rparr>) v) }
                                          else Some v);
                                     Some (Inr x, v) } } } }"

text \<open>The calls that make a new name for an entry that does not exist yet.\<close>

definition mkdirat_impl :: "caller \<Rightarrow> int \<Rightarrow> u8 list \<Rightarrow> u32 \<Rightarrow> vfs \<Rightarrow> (unit res \<times> vfs) option" where
  "mkdirat_impl me dirfd path mode v =
     do { (r, v) \<leftarrow> resolve_at me dirfd path True v;
          case r of
            Inl e \<Rightarrow> Some (Inl e, v)
          | Inr x \<Rightarrow>
              if evnode (entries v x) \<noteq> None then Some (Inl EEXIST, v)
              else if eparent (entries v x) = None then Some (Inl ENOENT, v)
              else do { v \<leftarrow> entry_create x DIRECTORY (Some (euid me)) (Some (egid me)) (Some (mode AND NOT (umask me) AND 511)) v;
                        Some (Inr (), v) } }"

definition symlinkat_impl :: "(nat \<Rightarrow> u8) \<Rightarrow> caller \<Rightarrow> u8 list \<Rightarrow> int \<Rightarrow> u8 list \<Rightarrow> vfs \<Rightarrow> (unit res \<times> vfs) option" where
  "symlinkat_impl heap me target dirfd path v =
     do { (r, v) \<leftarrow> resolve_at me dirfd path True v;
          case r of
            Inl e \<Rightarrow> Some (Inl e, v)
          | Inr x \<Rightarrow>
              if eparent (entries v x) = None then Some (Inl ENOENT, v)
              else if evnode (entries v x) \<noteq> None then Some (Inl EEXIST, v)
              else do { v \<leftarrow> entry_create x SYMLINK (Some (euid me)) (Some (egid me)) (Some 511) v;
                        n \<leftarrow> evnode (entries v x);
                        (u, d) \<leftarrow> tmpfs_write heap (ndata (nodes v n)) target 0;
                        Some (Inr (), upd_node n (\<lambda>i. i\<lparr>ndata := d\<rparr>) v) } }"

definition linkat_impl :: "caller \<Rightarrow> int \<Rightarrow> u8 list \<Rightarrow> int \<Rightarrow> u8 list \<Rightarrow> vfs \<Rightarrow> (unit res \<times> vfs) option" where
  "linkat_impl me old_dirfd old_path new_dirfd new_path v =
     do { (r, v) \<leftarrow> resolve_at me old_dirfd old_path True v;
          case r of
            Inl e \<Rightarrow> Some (Inl e, v)
          | Inr old \<Rightarrow>
              if evnode (entries v old) = None then Some (Inl ENOENT, v)
              else do { (r, v) \<leftarrow> resolve_at me new_dirfd new_path True v;
                        case r of
                          Inl e \<Rightarrow> Some (Inl e, v)
                        | Inr new \<Rightarrow>
                            if evnode (entries v new) \<noteq> None then Some (Inl EEXIST, v)
                            else do { v \<leftarrow> entry_create new HARD_LINK None None None
                                             (upd_entry new (\<lambda>x. x\<lparr>evnode := evnode (entries v old)\<rparr>) v);
                                      Some (Inr (), v) } } }"

definition renameat_impl :: "caller \<Rightarrow> int \<Rightarrow> u8 list \<Rightarrow> int \<Rightarrow> u8 list \<Rightarrow> vfs \<Rightarrow> (unit res \<times> vfs) option" where
  "renameat_impl me old_dirfd old_path new_dirfd new_path v =
     do { (r, v) \<leftarrow> resolve_at me old_dirfd old_path True v;
          case r of
            Inl e \<Rightarrow> Some (Inl e, v)
          | Inr old \<Rightarrow>
              if evnode (entries v old) = None then Some (Inl ENOENT, v)
              else do { (r, v) \<leftarrow> resolve_at me new_dirfd new_path True v;
                        case r of
                          Inl e \<Rightarrow> Some (Inl e, v)
                        | Inr new \<Rightarrow>
                            do { v \<leftarrow> (if evnode (entries v new) \<noteq> None then entry_remove new v else Some v);
                                 v \<leftarrow> entry_create new HARD_LINK None None None
                                        (upd_entry new (\<lambda>x. x\<lparr>evnode := evnode (entries v old)\<rparr>) v);
                                 v \<leftarrow> entry_remove old v;
                                 Some (Inr (), v) } } }"

definition unlinkat_impl :: "caller \<Rightarrow> int \<Rightarrow> u8 list \<Rightarrow> u32 \<Rightarrow> vfs \<Rightarrow> (unit res \<times> vfs) option" where
  "unlinkat_impl me dirfd path fl v =
     do { (r, v) \<leftarrow> resolve_at me dirfd path True v;
          case r of
            Inl e \<Rightarrow> Some (Inl e, v)
          | Inr x \<Rightarrow>
              (case evnode (entries v x) of
                 None \<Rightarrow> Some (Inl ENOENT, v)
               | Some n \<Rightarrow>
                   if type_of v n = DIRECTORY \<and> fl AND AT_REMOVEDIR = 0 then Some (Inl EISDIR, v)
                   else do { v \<leftarrow> entry_remove x v; Some (Inr (), v) }) }"

definition readlinkat_impl :: "caller \<Rightarrow> int \<Rightarrow> u8 list \<Rightarrow> usize \<Rightarrow> vfs \<Rightarrow> (u8 list res \<times> vfs) option" where
  "readlinkat_impl me dirfd path cnt v =
     do { (r, v) \<leftarrow> resolve_at me dirfd path False v;
          case r of
            Inl e \<Rightarrow> Some (Inl e, v)
          | Inr x \<Rightarrow>
              (case evnode (entries v x) of
                 None \<Rightarrow> Some (Inl ENOENT, v)
               | Some n \<Rightarrow>
                   if type_of v n \<noteq> SYMLINK then Some (Inl EINVAL, v)
                   else do { b \<leftarrow> tmpfs_read (ndata (nodes v n)) cnt 0; Some (b, v) }) }"

definition MODE_TYPE_MASK :: u32 where "MODE_TYPE_MASK = 0xF000"

text \<open>
  \<^verbatim>\<open>mknod\<close>: the node of a device or pipe exists before the entry is created. \<open>has_dev\<close> tells whether a
  driver knows the device number.
\<close>

definition new_vnode :: "nat \<Rightarrow> node_type \<Rightarrow> vfs \<Rightarrow> vfs" where
  "new_vnode e ty v =
     (upd_entry e (\<lambda>x. x\<lparr>evnode := Some (num_nodes v)\<rparr>) v)
       \<lparr>nodes := (nodes v)(num_nodes v := \<lparr>ndata = tmpfs_new ty, inode_num = 0, nuid = -1, ngid = -1, nmode = 0, nrefs = 0\<rparr>),
        num_nodes := num_nodes v + 1\<rparr>"

definition mknod_node :: "(node_type \<Rightarrow> u64 \<Rightarrow> bool) \<Rightarrow> u32 \<Rightarrow> u64 \<Rightarrow> nat \<Rightarrow> vfs \<Rightarrow> (node_type \<times> vfs) res" where
  "mknod_node has_dev requested_type dev e v =
     (if requested_type = 0 \<or> requested_type = 0x8000 then Inr (REGULAR, v)
      else if requested_type = 0x2000
      then (if has_dev CHAR_DEVICE dev then Inr (CHAR_DEVICE, new_vnode e CHAR_DEVICE v) else Inl EINVAL)
      else if requested_type = 0x6000
      then (if has_dev BLOCK_DEVICE dev then Inr (BLOCK_DEVICE, new_vnode e BLOCK_DEVICE v) else Inl EINVAL)
      else if requested_type = 0x1000 then Inr (FIFO, new_vnode e FIFO v)
      else Inl EINVAL)"

definition mknodat_impl ::
  "(node_type \<Rightarrow> u64 \<Rightarrow> bool) \<Rightarrow> caller \<Rightarrow> int \<Rightarrow> u8 list \<Rightarrow> u32 \<Rightarrow> u64 \<Rightarrow> vfs \<Rightarrow> (unit res \<times> vfs) option" where
  "mknodat_impl has_dev me dirfd path mode dev v =
     do { (r, v) \<leftarrow> resolve_at me dirfd path True v;
          case r of
            Inl e \<Rightarrow> Some (Inl e, v)
          | Inr x \<Rightarrow>
              if evnode (entries v x) \<noteq> None then Some (Inl EEXIST, v)
              else if eparent (entries v x) = None then Some (Inl ENOENT, v)
              else case mknod_node has_dev (mode AND MODE_TYPE_MASK) dev x v of
                Inl e \<Rightarrow> Some (Inl e, v)
              | Inr (ty, v) \<Rightarrow>
                  do { v \<leftarrow> entry_create x ty (Some (euid me)) (Some (egid me))
                             (Some (mode AND NOT MODE_TYPE_MASK AND NOT (umask me) AND 511)) v;
                       Some (Inr (), v) } }"

text \<open>Owner, mode and type of a node.\<close>

definition type_mode :: "node_type \<Rightarrow> u32" where
  "type_mode ty =
     (case ty of REGULAR \<Rightarrow> 0x8000 | DIRECTORY \<Rightarrow> 0x4000 | BLOCK_DEVICE \<Rightarrow> 0x6000 | CHAR_DEVICE \<Rightarrow> 0x2000
      | SYMLINK \<Rightarrow> 0xA000 | FIFO \<Rightarrow> 0x1000 | SOCKET \<Rightarrow> 0xC000 | _ \<Rightarrow> 0)"

text \<open>The fields of \<^verbatim>\<open>struct stat\<close> that depend on the state of the tree; device numbers, times and constants are left out.\<close>

record statbuf =
  st_mode :: u32
  st_uid :: u32
  st_gid :: u32
  st_ino :: nat
  st_size :: usize
  st_blocks :: usize

definition entry_struct_size :: usize where "entry_struct_size = 64"

definition tmpfs_stat :: "inode \<Rightarrow> statbuf \<Rightarrow> statbuf" where
  "tmpfs_stat i b =
     (let sz = (if tnode_type (ndata i) = DIRECTORY then entry_struct_size else tsize (ndata i))
      in b\<lparr>st_ino := inode_num i, st_size := sz, st_blocks := (sz + PAGE_SIZE - 1) div PAGE_SIZE\<rparr>)"

definition fstatat_impl :: "caller \<Rightarrow> int \<Rightarrow> u8 list \<Rightarrow> u32 \<Rightarrow> vfs \<Rightarrow> (statbuf res \<times> vfs) option" where
  "fstatat_impl me fd path fl v =
     do { (r, v) \<leftarrow> get_vnode_from_dirfd_path me fd path fl v;
          case r of
            Inl e \<Rightarrow> Some (Inl e, v)
          | Inr n \<Rightarrow>
              let i = nodes v n;
                  b = \<lparr>st_mode = (nmode i AND NOT MODE_TYPE_MASK) OR type_mode (type_of v n), st_uid = nuid i, st_gid = ngid i,
                       st_ino = 0, st_size = 0, st_blocks = 0\<rparr>
              in Some (Inr (tmpfs_stat i b), v) }"

definition faccessat2_impl :: "caller \<Rightarrow> int \<Rightarrow> u8 list \<Rightarrow> u32 \<Rightarrow> vfs \<Rightarrow> (unit res \<times> vfs) option" where
  "faccessat2_impl me dirfd path fl v =
     do { (r, v) \<leftarrow> fstatat_impl me dirfd path (fl AND (AT_EMPTY_PATH OR AT_SYMLINK_NOFOLLOW)) v;
          Some (case r of Inl e \<Rightarrow> Inl e | Inr b \<Rightarrow> Inr (), v) }"

definition fchownat_impl :: "caller \<Rightarrow> int \<Rightarrow> u8 list \<Rightarrow> u32 option \<Rightarrow> u32 option \<Rightarrow> u32 \<Rightarrow> vfs \<Rightarrow> (unit res \<times> vfs) option" where
  "fchownat_impl me fd path owner grp fl v =
     do { (r, v) \<leftarrow> get_vnode_from_dirfd_path me fd path fl v;
          Some (case r of
                  Inl e \<Rightarrow> (Inl e, v)
                | Inr n \<Rightarrow> (Inr (), upd_node n (\<lambda>i. i\<lparr>nuid := (case owner of Some u \<Rightarrow> u | None \<Rightarrow> nuid i),
                                                   ngid := (case grp of Some g \<Rightarrow> g | None \<Rightarrow> ngid i)\<rparr>) v)) }"

definition fchmodat2_impl :: "caller \<Rightarrow> int \<Rightarrow> u8 list \<Rightarrow> u32 \<Rightarrow> u32 \<Rightarrow> vfs \<Rightarrow> (unit res \<times> vfs) option" where
  "fchmodat2_impl me fd path mode fl v =
     do { (r, v) \<leftarrow> get_vnode_from_dirfd_path me fd path fl v;
          Some (case r of Inl e \<Rightarrow> (Inl e, v) | Inr n \<Rightarrow> (Inr (), upd_node n (\<lambda>i. i\<lparr>nmode := mode\<rparr>) v)) }"

definition syscall_truncate :: "(nat \<Rightarrow> u8) \<Rightarrow> caller \<Rightarrow> u8 list \<Rightarrow> usize \<Rightarrow> vfs \<Rightarrow> (unit res \<times> vfs) option" where
  "syscall_truncate heap me path len v =
     (if sint len < 0 then Some (Inl EINVAL, v)
      else do { (x, v) \<leftarrow> path_to_entry path (Some (cwd me)) True v;
                case evnode (entries v x) of
                  None \<Rightarrow> Some (Inl ENOENT, v)
                | Some n \<Rightarrow> do { (r, d) \<leftarrow> tmpfs_truncate heap len (ndata (nodes v n)); Some (r, upd_node n (\<lambda>i. i\<lparr>ndata := d\<rparr>) v) } })"

text \<open>
  \<^verbatim>\<open>readdir\<close>: the directory entries stored (number, position, record length, type and name of each) and the
  new cursor. The size of a \<^verbatim>\<open>Dirent\<close> without its name is 24 bytes.
\<close>

record dirent =
  d_ino :: nat
  d_off :: nat
  d_reclen :: nat
  d_type :: u8
  d_name :: "u8 list"

definition d_type_from_node_type :: "node_type \<Rightarrow> u8" where
  "d_type_from_node_type ty =
     (case ty of REGULAR \<Rightarrow> 8 | DIRECTORY \<Rightarrow> 4 | BLOCK_DEVICE \<Rightarrow> 6 | CHAR_DEVICE \<Rightarrow> 2 | SYMLINK \<Rightarrow> 10 | _ \<Rightarrow> 0)"

definition dirent_len :: "u8 list \<Rightarrow> nat" where
  "dirent_len name = (24 + length name + 1 + 7) div 8 * 8"

fun readdir_loop :: "vfs \<Rightarrow> nat list \<Rightarrow> nat \<Rightarrow> nat \<Rightarrow> nat \<Rightarrow> nat \<Rightarrow> dirent list \<Rightarrow> dirent list \<times> nat" where
  "readdir_loop v [] i pos cnt max_size acc = (acc, i)"
| "readdir_loop v (c # cs) i pos cnt max_size acc =
     (case evnode (entries v c) of
        None \<Rightarrow> readdir_loop v cs (i + 1) pos cnt max_size acc
      | Some n \<Rightarrow>
          if i < pos then readdir_loop v cs (i + 1) pos cnt max_size acc
          else let name = ename (entries v c); len = dirent_len name in
            if cnt + len > max_size then (acc, i)
            else readdir_loop v cs (i + 1) pos (cnt + len) max_size
                   (acc @ [\<lparr>d_ino = inode_num (nodes v n), d_off = i, d_reclen = len,
                            d_type = d_type_from_node_type (type_of v n), d_name = name\<rparr>]))"

definition syscall_getdents64 :: "int \<Rightarrow> nat \<Rightarrow> nat \<Rightarrow> caller \<Rightarrow> vfs \<Rightarrow> ((dirent list \<times> nat) res) option" where
  "syscall_getdents64 fd max_size pos me v =
     (case open_fds me fd of
        None \<Rightarrow> Some (Inl EBADF)
      | Some (n, e) \<Rightarrow>
          if type_of v n \<noteq> DIRECTORY then Some (Inl ENOTDIR)
          else do { d \<leftarrow> reduce e v; Some (Inr (readdir_loop v (children_list (entries v d)) 0 pos 0 max_size [])) })"

text \<open>The directory of the process.\<close>

definition syscall_chdir :: "u8 list \<Rightarrow> caller \<Rightarrow> vfs \<Rightarrow> ((unit res \<times> caller) \<times> vfs) option" where
  "syscall_chdir path me v =
     do { (x, v) \<leftarrow> path_to_entry path (Some (cwd me)) True v;
          Some (case evnode (entries v x) of
                  None \<Rightarrow> ((Inl ENOENT, me), v)
                | Some n \<Rightarrow> if type_of v n \<noteq> DIRECTORY then ((Inl ENOTDIR, me), v) else ((Inr (), me\<lparr>cwd := x\<rparr>), v)) }"

definition syscall_fchdir :: "int \<Rightarrow> caller \<Rightarrow> vfs \<Rightarrow> unit res \<times> caller" where
  "syscall_fchdir fd me v =
     (case open_fds me fd of
        None \<Rightarrow> (Inl EBADF, me)
      | Some (n, e) \<Rightarrow> if type_of v n \<noteq> DIRECTORY then (Inl ENOTDIR, me) else (Inr (), me\<lparr>cwd := e\<rparr>))"

text \<open>\<^verbatim>\<open>getcwd\<close>: the bytes it has stored in front of the terminating zero.\<close>

definition syscall_getcwd :: "usize \<Rightarrow> caller \<Rightarrow> vfs \<Rightarrow> u8 list res option" where
  "syscall_getcwd len me v =
     do { p \<leftarrow> print_path (cwd me) v;
          let written = take (unat len - 1) p;
          Some (if length written + 1 \<ge> unat len then Inl ERANGE else Inr written) }"

end
