(* ===== verification/Vfs_Names.thy ===== *)
theory Vfs_Names
  imports Vfs_Tree
begin

text \<open>
  Correctness of the tree of names: path resolution against a component-wise reference, the pointer
  invariant of all system calls on names, what creating a directory changes, reading directories,
  and the defects of the calls.
\<close>

section \<open>Path resolution against a reference\<close>

text \<open>
  The reference: following names from a directory through directories, with no symbolic link on the
  way, one component at a time.
\<close>

definition is_dir :: "vfs \<Rightarrow> nat \<Rightarrow> bool" where
  "is_dir v e \<longleftrightarrow> (case evnode (entries v e) of None \<Rightarrow> False | Some n \<Rightarrow> type_of v n = DIRECTORY)"

fun dir_walk :: "vfs \<Rightarrow> nat \<Rightarrow> u8 list list \<Rightarrow> nat option" where
  "dir_walk v cur [] = Some cur"
| "dir_walk v cur (name # names) =
     do { c \<leftarrow> find_child cur name v;
          n \<leftarrow> evnode (entries v c);
          if type_of v n = SYMLINK then None
          else do { d \<leftarrow> reduce c v; if is_dir v d then dir_walk v d names else None } }"

fun join_path :: "u8 list list \<Rightarrow> u8 list" where
  "join_path [] = []"
| "join_path [x] = x"
| "join_path (x # y # xs) = x @ slash # join_path (y # xs)"

definition name_ok :: "u8 list \<Rightarrow> bool" where
  "name_ok name \<longleftrightarrow> name \<noteq> [] \<and> slash \<notin> set name"

lemma is_dir_node: "is_dir v e \<Longrightarrow> \<exists>n. evnode (entries v e) = Some n \<and> type_of v n = DIRECTORY"
  by (auto simp: is_dir_def split: option.splits)

lemma takeWhile_name: "name_ok x \<Longrightarrow> takeWhile (\<lambda>c. c \<noteq> slash) (x @ slash # r) = x"
  "name_ok x \<Longrightarrow> takeWhile (\<lambda>c. c \<noteq> slash) x = x"
  by (auto simp: name_ok_def takeWhile_append takeWhile_eq_all_conv)

lemma next_component_inner:
  assumes "name_ok x" "r \<noteq> []"
  shows "next_component (x @ slash # r) (length (x @ slash # r)) = Some (length x, False)"
  using assms by (simp add: next_component_def takeWhile_name(1) name_ok_def)

lemma next_component_last:
  assumes "name_ok x" "t = [] \<or> t = [slash]"
  shows "next_component (x @ t) (length (x @ t)) = Some (length x, True)"
  using assms(2)
proof
  assume "t = [slash]"
  then show ?thesis using takeWhile_name(1)[OF assms(1), of "[]"] by (simp add: next_component_def)
qed (simp add: next_component_def takeWhile_name(2)[OF assms(1)])

text \<open>One component that is there and is not the last one.\<close>

lemma path_loop_step:
  assumes "is_dir v cur" "name_ok x" "r \<noteq> []" "find_child cur x v = Some c" "evnode (entries v c) = Some n" "type_of v n \<noteq> SYMLINK" "reduce c v = Some d"
  shows "path_loop (x @ slash # r) (length (x @ slash # r)) cur follow v = path_loop r (length r) d follow v"
proof -
  obtain m where m: "evnode (entries v cur) = Some m" "type_of v m = DIRECTORY" using is_dir_node[OF assms(1)] by blast
  show ?thesis
    using m next_component_inner[OF assms(2,3)] assms(4-7)
    by (subst path_loop.simps) (simp add: path_step_def vfs_lookup_def)
qed

lemma join_path_neq: "\<forall>x\<in>set xs. name_ok x \<Longrightarrow> xs \<noteq> [] \<Longrightarrow> join_path xs \<noteq> []"
  by (cases xs rule: join_path.cases) (auto simp: name_ok_def)

lemma path_loop_walk:
  assumes "\<forall>x\<in>set (names @ ls). name_ok x" "ls \<noteq> []" "is_dir v cur" "dir_walk v cur names = Some d"
  shows "path_loop (join_path (names @ ls) @ t) (length (join_path (names @ ls) @ t)) cur follow v =
    path_loop (join_path ls @ t) (length (join_path ls @ t)) d follow v"
  using assms(1,3,4)
proof (induction names arbitrary: cur)
  case (Cons x names)
  obtain c n d1 where st: "find_child cur x v = Some c" "evnode (entries v c) = Some n" "type_of v n \<noteq> SYMLINK" "reduce c v = Some d1" "is_dir v d1"
    "dir_walk v d1 names = Some d" using Cons.prems(3) by (auto split: bind_splits if_splits)
  let ?r = "join_path (names @ ls) @ t"
  have j: "join_path ((x # names) @ ls) @ t = x @ slash # ?r" using assms(2) by (cases "names @ ls") auto
  have ne: "?r \<noteq> []" using join_path_neq[of "names @ ls"] Cons.prems(1) assms(2) by auto
  have "path_loop (x @ slash # ?r) (length (x @ slash # ?r)) cur follow v = path_loop ?r (length ?r) d1 follow v"
    using path_loop_step[OF Cons.prems(2) _ ne st(1-4)] Cons.prems(1) by simp
  then show ?case using Cons.IH[of d1] Cons.prems(1) st(5,6) unfolding j by simp
qed simp

lemma path_loop_last:
  assumes "is_dir v d" "name_ok l" "t = [] \<or> t = [slash]"
  shows "find_child d l v = Some e \<Longrightarrow> evnode (entries v e) = Some n \<Longrightarrow> \<not> (follow \<and> type_of v n = SYMLINK) \<Longrightarrow>
      path_loop (l @ t) (length (l @ t)) d follow v = Some (e, v)"
    and "find_child d l v = Some e \<Longrightarrow> evnode (entries v e) = None \<Longrightarrow> path_loop (l @ t) (length (l @ t)) d follow v = Some (e, v)"
    and "vfs_lookup d l v = Some (e, v') \<Longrightarrow> evnode (entries v' e) = None \<Longrightarrow> path_loop (l @ t) (length (l @ t)) d follow v = Some (e, v')"
proof -
  obtain m where m: "evnode (entries v d) = Some m" "type_of v m = DIRECTORY" using is_dir_node[OF assms(1)] by blast
  note c = next_component_last[OF assms(2,3)]
  show "path_loop (l @ t) (length (l @ t)) d follow v = Some (e, v)"
    if "find_child d l v = Some e" "evnode (entries v e) = Some n" "\<not> (follow \<and> type_of v n = SYMLINK)"
    using that m c by (subst path_loop.simps) (auto simp: path_step_def vfs_lookup_def)
  show "path_loop (l @ t) (length (l @ t)) d follow v = Some (e, v)" if "find_child d l v = Some e" "evnode (entries v e) = None"
    using that m c by (subst path_loop.simps) (simp add: path_step_def vfs_lookup_def)
  show "path_loop (l @ t) (length (l @ t)) d follow v = Some (e, v')" if "vfs_lookup d l v = Some (e, v')" "evnode (entries v' e) = None"
    using that m c by (subst path_loop.simps) (simp add: path_step_def)
qed

text \<open>A component that is missing in front of others.\<close>

lemma path_loop_missing:
  assumes "is_dir v d" "name_ok x" "r \<noteq> []" "vfs_lookup d x v = Some (e, v')" "evnode (entries v' e) = None"
  shows "path_loop (x @ slash # r) (length (x @ slash # r)) d follow v = Some (null_entry v', v')"
proof -
  obtain m where m: "evnode (entries v d) = Some m" "type_of v m = DIRECTORY" using is_dir_node[OF assms(1)] by blast
  show ?thesis using m next_component_inner[OF assms(2,3)] assms(4,5) by (subst path_loop.simps) (simp add: path_step_def)
qed

lemma path_to_entry_abs:
  assumes "p \<noteq> []"
  shows "path_to_entry (slash # p) None follow v = path_loop p (length p) (root v) follow v"
  using assms by (simp add: path_to_entry_def path_start_def)

text \<open>What a lookup of a missing name leaves behind: an entry without a node below the directory.\<close>

definition with_missing :: "nat \<Rightarrow> u8 list \<Rightarrow> vfs \<Rightarrow> vfs" where
  "with_missing d name v = add_entry d (num_entries v) (snd (construct None (Some d) name None v))"

lemma dir_walk_dir: "is_dir v cur \<Longrightarrow> dir_walk v cur names = Some d \<Longrightarrow> is_dir v d"
proof (induction names arbitrary: cur)
  case (Cons x names)
  then obtain c d1 where "is_dir v d1" "dir_walk v d1 names = Some d" by (auto split: bind_splits if_splits)
  then show ?case using Cons.IH by blast
qed simp

lemma reduce_self: "eredirect (entries v e) = None \<Longrightarrow> reduce e v = Some e"
  by (subst reduce.simps) simp

section \<open>No dangling pointers\<close>

text \<open>
  Every pointer of an entry leads to an entry or node that exists. \<open>grows\<close> relates the states around an
  operation that keeps this.
\<close>

definition entry_ok :: "vfs \<Rightarrow> entry \<Rightarrow> bool" where
  "entry_ok v x \<longleftrightarrow> (\<forall>n. evnode x = Some n \<longrightarrow> n < num_nodes v) \<and> (\<forall>p. eparent x = Some p \<longrightarrow> p < num_entries v) \<and>
     (\<forall>r. eredirect x = Some r \<longrightarrow> r < num_entries v) \<and> (\<forall>c\<in>set (children_list x). c < num_entries v)"

definition vfs_ok :: "vfs \<Rightarrow> bool" where
  "vfs_ok v \<longleftrightarrow> root v < num_entries v \<and> null_entry v < num_entries v \<and> (\<forall>e<num_entries v. entry_ok v (entries v e))"

definition grows :: "vfs \<Rightarrow> vfs \<Rightarrow> bool" where
  "grows v v' \<longleftrightarrow> vfs_ok v' \<and> num_entries v \<le> num_entries v' \<and> num_nodes v \<le> num_nodes v'"

lemma grows_refl [simp]: "grows v v \<longleftrightarrow> vfs_ok v"
  by (simp add: grows_def)

lemma grows_trans: "grows u v \<Longrightarrow> grows v w \<Longrightarrow> grows u w"
  by (simp add: grows_def)

lemma growsD: "grows v v' \<Longrightarrow> vfs_ok v'" "grows v v' \<Longrightarrow> e < num_entries v \<Longrightarrow> e < num_entries v'" "grows v v' \<Longrightarrow> n < num_nodes v \<Longrightarrow> n < num_nodes v'"
  by (auto simp: grows_def)

lemma vfs_okD:
  assumes "vfs_ok v" "e < num_entries v"
  shows "evnode (entries v e) = Some n \<Longrightarrow> n < num_nodes v" "eparent (entries v e) = Some p \<Longrightarrow> p < num_entries v"
    "eredirect (entries v e) = Some r \<Longrightarrow> r < num_entries v" "c \<in> set (children_list (entries v e)) \<Longrightarrow> c < num_entries v"
proof -
  have "entry_ok v (entries v e)" using assms unfolding vfs_ok_def by blast
  then show "evnode (entries v e) = Some n \<Longrightarrow> n < num_nodes v" "eparent (entries v e) = Some p \<Longrightarrow> p < num_entries v"
    "eredirect (entries v e) = Some r \<Longrightarrow> r < num_entries v" "c \<in> set (children_list (entries v e)) \<Longrightarrow> c < num_entries v"
    unfolding entry_ok_def by blast+
qed

lemma vfs_ok_entry: "vfs_ok v \<Longrightarrow> e < num_entries v \<Longrightarrow> entry_ok v (entries v e)"
  unfolding vfs_ok_def by blast

lemma entry_ok_mono: "entry_ok v x \<Longrightarrow> num_entries v \<le> num_entries v' \<Longrightarrow> num_nodes v \<le> num_nodes v' \<Longrightarrow> entry_ok v' x"
  unfolding entry_ok_def by (meson less_le_trans)

lemma construct_grows:
  assumes "vfs_ok v" "construct vn parent name redirect v = (e, v')"
    and "\<forall>n. vn = Some n \<longrightarrow> n < num_nodes v" "\<forall>p. parent = Some p \<longrightarrow> p < num_entries v" "\<forall>r. redirect = Some r \<longrightarrow> r < num_entries v"
  shows "grows v v'" "e < num_entries v'" "e = num_entries v"
    "entries v' = (entries v)(e := \<lparr>evnode = vn, eparent = parent, eredirect = redirect, children_list = [], ename = name\<rparr>)"
    "nodes v' = nodes v" "num_nodes v' = num_nodes v"
proof -
  let ?x = "\<lparr>evnode = vn, eparent = parent, eredirect = redirect, children_list = [], ename = name\<rparr>"
  have v': "v' = v\<lparr>entries := (entries v)(num_entries v := ?x), num_entries := num_entries v + 1\<rparr>" and e: "e = num_entries v"
    using assms(2) by (auto simp: construct_def)
  have x: "entry_ok v' ?x" using assms(3-5) v' by (auto simp: entry_ok_def)
  have "entry_ok v' (entries v' k)" if k: "k < num_entries v'" for k
  proof (cases "k = num_entries v")
    case True
    then show ?thesis using x v' by simp
  next
    case False
    then have "entry_ok v (entries v k)" using k v' assms(1) by (simp add: vfs_ok_def)
    then show ?thesis using entry_ok_mono[of v "entries v k" v'] False v' by simp
  qed
  then show "grows v v'" using assms(1) v' by (auto simp: grows_def vfs_ok_def)
  show "e < num_entries v'" "e = num_entries v" "entries v' = (entries v)(e := ?x)" "nodes v' = nodes v" "num_nodes v' = num_nodes v"
    using v' e by simp_all
qed

lemma upd_entry_grows:
  assumes "vfs_ok v" "e < num_entries v \<Longrightarrow> entry_ok v (f (entries v e))"
  shows "grows v (upd_entry e f v)"
proof -
  have "entry_ok (upd_entry e f v) = entry_ok v" by (rule ext) (simp add: entry_ok_def upd_entry_def)
  then show ?thesis using assms by (auto simp: grows_def vfs_ok_def upd_entry_def)
qed

lemma add_entry_grows: "vfs_ok v \<Longrightarrow> c < num_entries v \<Longrightarrow> grows v (add_entry p c v)"
  unfolding add_entry_def by (rule upd_entry_grows) (auto dest: vfs_ok_entry simp: entry_ok_def)

lemma remove_from_parent_grows: "vfs_ok v \<Longrightarrow> grows v (remove_from_parent c v)"
proof (cases "eparent (entries v c)")
  case (Some p)
  assume ok: "vfs_ok v"
  have "entry_ok v ((entries v p)\<lparr>children_list := removeAll c (children_list (entries v p))\<rparr>)" if "p < num_entries v"
    using vfs_ok_entry[OF ok that] by (simp add: entry_ok_def)
  then show ?thesis using upd_entry_grows[OF ok, of p] Some by (simp add: remove_from_parent_def)
qed (simp add: remove_from_parent_def)

lemma upd_node_grows: "vfs_ok v \<Longrightarrow> grows v (upd_node n f v)"
proof -
  assume ok: "vfs_ok v"
  have "entry_ok (upd_node n f v) = entry_ok v" by (rule ext) (simp add: entry_ok_def upd_node_def)
  then show ?thesis using ok by (auto simp: grows_def vfs_ok_def upd_node_def)
qed

lemma set_vnode_grows: "vfs_ok v \<Longrightarrow> n < num_nodes v \<Longrightarrow> grows v (upd_entry e (\<lambda>x. x\<lparr>evnode := Some n\<rparr>) v)"
  by (rule upd_entry_grows) (auto dest: vfs_ok_entry simp: entry_ok_def)

lemma reduce_bound: "reduce e v = Some r \<Longrightarrow> vfs_ok v \<Longrightarrow> e < num_entries v \<Longrightarrow> r < num_entries v"
proof -
  assume run: "reduce e v = Some r" and pre: "vfs_ok v" "e < num_entries v"
  from run have "vfs_ok v \<longrightarrow> e < num_entries v \<longrightarrow> r < num_entries v"
  proof (rule reduce.raw_induct[rotated])
    fix red e v r
    assume IH: "\<And>e v r. red e v = Some r \<Longrightarrow> vfs_ok v \<longrightarrow> e < num_entries v \<longrightarrow> r < num_entries v"
      and run: "(case eredirect (entries v e) of None \<Rightarrow> Some e | Some r \<Rightarrow> red r v) = Some r"
    show "vfs_ok v \<longrightarrow> e < num_entries v \<longrightarrow> r < num_entries v"
    proof (cases "eredirect (entries v e)")
      case (Some x)
      then show ?thesis using IH[of x v r] run vfs_okD(3)[of v e x] by simp
    qed (use run in simp)
  qed
  then show ?thesis using pre by blast
qed

lemma find_child_bound: "find_child p name v = Some c \<Longrightarrow> vfs_ok v \<Longrightarrow> p < num_entries v \<Longrightarrow> c < num_entries v"
proof -
  assume "find_child p name v = Some c" and ok: "vfs_ok v" "p < num_entries v"
  then have "c \<in> set (children_list (entries v p))" unfolding find_child_def find_Some_iff by (metis nth_mem)
  then show ?thesis by (rule vfs_okD(4)[OF ok])
qed

lemma vfs_lookup_grows:
  assumes "vfs_lookup p name v = Some (e, v')" "vfs_ok v" "p < num_entries v"
  shows "grows v v'" "e < num_entries v'"
proof -
  have "grows v v' \<and> e < num_entries v'"
  proof (cases "find_child p name v")
    case (Some c)
    then show ?thesis using assms find_child_bound by (simp add: vfs_lookup_def)
  next
    case None
    obtain e1 v1 where c: "construct None (Some p) name None v = (e1, v1)" by fastforce
    note g = construct_grows[OF assms(2) c]
    have g1: "grows v v1" "e1 < num_entries v1" using g assms(3) by auto
    obtain v2 where v2: "entry_lookup e1 v1 = Some v2" "e = e1" "v' = v2"
      using assms(1) None c by (auto simp: vfs_lookup_def split: bind_splits)
    then have "v' = add_entry p e1 v1 \<or> v' = v1"
      using c by (auto simp: entry_lookup_def construct_def split: bind_splits if_splits)
    then have "grows v1 v'" using add_entry_grows[OF growsD(1)[OF g1(1)] g1(2)] growsD(1)[OF g1(1)] by auto
    then show ?thesis using g1 v2(2) grows_trans growsD(2) by blast
  qed
  then show "grows v v'" "e < num_entries v'" by blast+
qed

lemma path_start_bound:
  assumes "path_start path sp v = Some st" "vfs_ok v" "\<forall>s. sp = Some s \<longrightarrow> s < num_entries v"
  shows "case st of Inl x \<Rightarrow> x < num_entries v | Inr (p, l, c) \<Rightarrow> c < num_entries v"
  using assms reduce_bound[of _ v] unfolding path_start_def vfs_ok_def
  by (auto split: if_splits option.splits bind_splits)

lemma null_bound: "vfs_ok v \<Longrightarrow> null_entry v < num_entries v"
  by (simp add: vfs_ok_def)

text \<open>What a turn of the loop ends with or goes on with exists.\<close>

abbreviation turn_ok :: "nat + (u8 list \<times> nat \<times> nat) \<Rightarrow> vfs \<Rightarrow> bool" where
  "turn_ok r v \<equiv> (case r of Inl x \<Rightarrow> x < num_entries v | Inr (p, l, c) \<Rightarrow> c < num_entries v)"

lemma path_step_grows:
  assumes run: "path_step path len cur follow v = Some (r, v')" and ok: "vfs_ok v" and cur: "cur < num_entries v"
  shows "grows v v' \<and> turn_ok r v'"
proof -
  obtain n where n: "evnode (entries v cur) = Some n" using run by (auto simp: path_step_def split: bind_splits)
  consider (other) "type_of v n \<noteq> DIRECTORY" | (dup) "type_of v n = DIRECTORY" "next_component path len = None"
    | (comp) s is_last where "type_of v n = DIRECTORY" "next_component path len = Some (s, is_last)" by fastforce
  then show ?thesis
  proof cases
    case other
    then show ?thesis using run n ok null_bound by (auto simp: path_step_def)
  next
    case dup
    then show ?thesis using run n ok cur by (auto simp: path_step_def)
  next
    case (comp s is_last)
    obtain e v1 where l: "vfs_lookup cur (take s path) v = Some (e, v1)" using run n comp by (auto simp: path_step_def split: bind_splits)
    note g = vfs_lookup_grows[OF l ok cur]
    note ok1 = growsD(1)[OF g(1)] and cur1 = growsD(2)[OF g(1) cur]
    have step: "path_step path len cur follow v =
        (case evnode (entries v1 e) of
           None \<Rightarrow> Some (Inl (if is_last then e else null_entry v1), v1)
         | Some m \<Rightarrow>
             if (\<not> is_last \<or> follow) \<and> type_of v1 m = SYMLINK
             then do { np \<leftarrow> link_path v1 m path s;
                       case np of Inl err \<Rightarrow> Some (Inl (null_entry v1), v1) | Inr np \<Rightarrow> do { st \<leftarrow> path_start np (Some cur) v1; Some (st, v1) } }
             else if is_last then Some (Inl e, v1)
             else do { c \<leftarrow> reduce e v1; Some (Inr (drop (s + 1) path, len - (s + 1), c), v1) })"
      using comp by (simp add: path_step_def n l)
    have "v' = v1 \<and> (r = Inl e \<or> r = Inl (null_entry v1) \<or> (\<exists>np. path_start np (Some cur) v1 = Some r) \<or> (\<exists>q l c. reduce e v1 = Some c \<and> r = Inr (q, l, c)))"
      using run unfolding step by (auto split: option.splits if_splits bind_splits sum.splits)
    then show ?thesis
      using g ok1 null_bound[OF ok1] path_start_bound[OF _ ok1, of _ "Some cur" r] cur1 reduce_bound[OF _ ok1 g(2)] by auto
  qed
qed

lemma path_loop_grows:
  assumes "path_loop path len cur follow v = Some (x, v')" "vfs_ok v" "cur < num_entries v"
  shows "grows v v' \<and> x < num_entries v'"
proof -
  from assms(1) have "vfs_ok v \<longrightarrow> cur < num_entries v \<longrightarrow> grows v (snd (x, v')) \<and> fst (x, v') < num_entries (snd (x, v'))"
  proof (rule path_loop.raw_induct[rotated])
    fix loop :: "u8 list \<Rightarrow> nat \<Rightarrow> nat \<Rightarrow> bool \<Rightarrow> vfs \<Rightarrow> (nat \<times> vfs) option"
      and path :: "u8 list" and len cur :: nat and follow :: bool and v :: vfs and res :: "nat \<times> vfs"
    let ?goal = "\<lambda>v res. grows v (snd res) \<and> fst res < num_entries (snd res)"
    assume IH: "\<And>path len cur follow v res. loop path len cur follow v = Some res \<Longrightarrow> vfs_ok v \<longrightarrow> cur < num_entries v \<longrightarrow> ?goal v res"
      and run: "do { (r, v) \<leftarrow> path_step path len cur follow v;
          case r of Inl x \<Rightarrow> Some (x, v) | Inr q \<Rightarrow> loop (fst q) (fst (snd q)) (snd (snd q)) follow v } = Some res"
    show "vfs_ok v \<longrightarrow> cur < num_entries v \<longrightarrow> ?goal v res"
    proof (intro impI)
      assume ok: "vfs_ok v" and cur: "cur < num_entries v"
      obtain r v1 where s: "path_step path len cur follow v = Some (r, v1)" using run by (auto split: bind_splits)
      have g: "grows v v1" "turn_ok r v1" using path_step_grows[OF s ok cur] by auto
      show "?goal v res"
      proof (cases r)
        case (Inl y)
        then show ?thesis using run s g by auto
      next
        case (Inr q)
        then have "loop (fst q) (fst (snd q)) (snd (snd q)) follow v1 = Some res" "snd (snd q) < num_entries v1"
          using run s g(2) by (simp_all add: split_beta)
        then have "?goal v1 res" using IH growsD(1)[OF g(1)] by blast
        then show ?thesis using grows_trans[OF g(1)] by blast
      qed
    qed
  qed
  then show ?thesis using assms(2,3) by simp
qed

lemma path_to_entry_grows:
  assumes "path_to_entry path sp follow v = Some (x, v')" "vfs_ok v" "\<forall>s. sp = Some s \<longrightarrow> s < num_entries v"
  shows "grows v v'" "x < num_entries v'"
proof -
  obtain st where st: "path_start path sp v = Some st" using assms(1) by (auto simp: path_to_entry_def split: bind_splits)
  note b = path_start_bound[OF st assms(2,3)]
  have "grows v v' \<and> x < num_entries v'"
  proof (cases st)
    case (Inl y)
    then show ?thesis using assms(1,2) st b by (simp add: path_to_entry_def)
  next
    case (Inr q)
    obtain p l c where q: "q = (p, l, c)" by (cases q)
    then have "path_loop p l c follow v = Some (x, v')" using assms(1) st Inr by (simp add: path_to_entry_def)
    then show ?thesis using path_loop_grows assms(2) b Inr q by simp
  qed
  then show "grows v v'" "x < num_entries v'" by blast+
qed

definition caller_ok :: "caller \<Rightarrow> vfs \<Rightarrow> bool" where
  "caller_ok me v \<longleftrightarrow> cwd me < num_entries v \<and> (\<forall>fd n e. open_fds me fd = Some (n, e) \<longrightarrow> n < num_nodes v \<and> e < num_entries v)"

lemma caller_ok_grows: "caller_ok me v \<Longrightarrow> grows v v' \<Longrightarrow> caller_ok me v'"
  unfolding caller_ok_def by (meson growsD(2,3))

lemma resolve_at_grows:
  assumes "resolve_at me dirfd path follow v = Some (r, v')" "vfs_ok v" "caller_ok me v"
  shows "grows v v'" "r = Inr x \<Longrightarrow> x < num_entries v'"
proof -
  have "grows v v' \<and> (\<forall>x. r = Inr x \<longrightarrow> x < num_entries v')"
  proof (cases "get_starting_point me dirfd path v")
    case (Inl e)
    then show ?thesis using assms by (auto simp: resolve_at_def)
  next
    case (Inr s)
    have s: "\<forall>e. s = Some e \<longrightarrow> e < num_entries v"
      using Inr assms(3) by (auto simp: get_starting_point_def caller_ok_def split: if_splits option.splits)
    obtain x where x: "path_to_entry path s follow v = Some (x, v')" "r = Inr x"
      using assms(1) Inr by (auto simp: resolve_at_def split: bind_splits)
    then show ?thesis using path_to_entry_grows[OF x(1) assms(2) s] by simp
  qed
  then show "grows v v'" "r = Inr x \<Longrightarrow> x < num_entries v'" by blast+
qed

lemma tmpfs_create_grows:
  assumes "tmpfs_create e ty v = Some v'" "vfs_ok v" "e < num_entries v"
  shows "grows v v'"
proof (cases "evnode (entries v e)")
  case (Some n)
  let ?u = "upd_node n (\<lambda>i. i\<lparr>ndata := tmpfs_new (tnode_type (ndata i)), inode_num := last_inode_num v\<rparr>) v"
  have "v' = ?u\<lparr>last_inode_num := last_inode_num v + 1\<rparr>" using assms(1) Some by (simp add: tmpfs_create_def)
  moreover have "grows v ?u" by (rule upd_node_grows[OF assms(2)])
  moreover have "entry_ok (?u\<lparr>last_inode_num := k\<rparr>) = entry_ok ?u" for k by (rule ext) (simp add: entry_ok_def)
  ultimately show ?thesis by (simp add: grows_def vfs_ok_def)
next
  case None
  have e': "entries v' = (entries v)(e := (entries v e)\<lparr>evnode := Some (num_nodes v)\<rparr>)" "num_entries v' = num_entries v"
    "num_nodes v' = num_nodes v + 1" "root v' = root v" "null_entry v' = null_entry v"
    using assms(1) None by (auto simp: tmpfs_create_def upd_entry_def Let_def split: if_splits)
  have "entry_ok v' (entries v' k)" if k: "k < num_entries v'" for k
  proof -
    have "entry_ok v' (entries v k)" using vfs_ok_entry[OF assms(2), of k] k e'(2,3) entry_ok_mono[of v "entries v k" v'] by simp
    then show ?thesis unfolding e'(1) by (auto simp: entry_ok_def e'(3))
  qed
  then show ?thesis using assms(2) e' by (simp add: grows_def vfs_ok_def)
qed

lemma add_dots_grows:
  assumes "vfs_ok v" "e < num_entries v" "p < num_entries v" "n < num_nodes v"
  shows "grows v (add_dots e p n v)"
proof -
  obtain d v1 where c1: "construct (Some n) (Some e) (str ''.'') (Some e) v = (d, v1)" by fastforce
  note g1 = construct_grows[OF assms(1) c1]
  have g1': "grows v v1" "d < num_entries v1" using g1 assms(2,4) by auto
  let ?v2 = "add_entry e d v1"
  have g2: "grows v1 ?v2" by (rule add_entry_grows[OF growsD(1)[OF g1'(1)] g1'(2)])
  have g12: "grows v ?v2" by (rule grows_trans[OF g1'(1) g2])
  have b: "e < num_entries ?v2" "p < num_entries ?v2" using growsD(2)[OF g12] assms(2,3) by auto
  obtain dd v3 where c3: "construct (evnode (entries ?v2 p)) (Some e) (str ''..'') (Some p) ?v2 = (dd, v3)" by fastforce
  note g3 = construct_grows[OF growsD(1)[OF g2] c3]
  have g3': "grows ?v2 v3" "dd < num_entries v3" using g3 b vfs_okD(1)[OF growsD(1)[OF g2] b(2)] by auto
  have "grows v3 (add_entry e dd v3)" by (rule add_entry_grows[OF growsD(1)[OF g3'(1)] g3'(2)])
  then have "grows v (add_entry e dd v3)" using grows_trans[OF grows_trans[OF g12 g3'(1)]] by blast
  then show ?thesis using c1 c3 by (simp add: add_dots_def Let_def)
qed

lemma entry_create_grows:
  assumes "entry_create e ty uid gid mode v = Some v'" "vfs_ok v" "e < num_entries v"
  shows "grows v v'"
proof -
  obtain p v1 where p: "eparent (entries v e) = Some p" and v1: "(if ty \<noteq> HARD_LINK then tmpfs_create e ty v else Some v) = Some v1"
    using assms(1) by (auto simp: entry_create_def split: bind_splits)
  have pb: "p < num_entries v" by (rule vfs_okD(2)[OF assms(2,3) p])
  have g1: "grows v v1" using v1 tmpfs_create_grows[OF _ assms(2,3)] assms(2) by (auto split: if_splits)
  define v2 where "v2 = (if find_child p (ename (entries v1 e)) v1 = None then add_entry p e v1 else v1)"
  have g2: "grows v1 v2" using add_entry_grows[OF growsD(1)[OF g1] growsD(2)[OF g1 assms(3)]] growsD(1)[OF g1] by (simp add: v2_def)
  have run: "(case evnode (entries v2 e) of None \<Rightarrow> Some v2
      | Some n \<Rightarrow> let v = (if type_of v2 n = DIRECTORY then add_dots e p n v2 else v2) in Some (upd_node n (set_owner ty uid gid mode) v)) = Some v'"
    using assms(1) by (simp only: entry_create_def p v1 Option.bind.simps v2_def Let_def)
  note g12 = grows_trans[OF g1 g2]
  have "grows v2 v'"
  proof (cases "evnode (entries v2 e)")
    case None
    then show ?thesis using run growsD(1)[OF g2] by simp
  next
    case (Some n)
    have n: "n < num_nodes v2" by (rule vfs_okD(1)[OF growsD(1)[OF g2] growsD(2)[OF g12 assms(3)] Some])
    define v3 where "v3 = (if type_of v2 n = DIRECTORY then add_dots e p n v2 else v2)"
    have g3: "grows v2 v3"
      using add_dots_grows[OF growsD(1)[OF g2] growsD(2)[OF g12 assms(3)] growsD(2)[OF g12 pb] n] growsD(1)[OF g2] by (simp add: v3_def)
    have "v' = upd_node n (set_owner ty uid gid mode) v3" using run Some by (simp add: v3_def Let_def)
    then show ?thesis using grows_trans[OF g3 upd_node_grows[OF growsD(1)[OF g3]]] by simp
  qed
  then show ?thesis by (rule grows_trans[OF g12])
qed

lemma entry_remove_grows: "entry_remove e v = Some v' \<Longrightarrow> vfs_ok v \<Longrightarrow> grows v v'"
proof -
  assume r: "entry_remove e v = Some v'" and ok: "vfs_ok v"
  obtain n where "v' = upd_node n (\<lambda>i. i\<lparr>nrefs := nrefs i - 1\<rparr>) (remove_from_parent e v)"
    using r by (auto simp: entry_remove_def split: bind_splits)
  then show ?thesis
    using grows_trans[OF remove_from_parent_grows[OF ok] upd_node_grows[OF growsD(1)[OF remove_from_parent_grows[OF ok]]]] by simp
qed

text \<open>
  The calls. Each starts with a resolution; \<open>resolved\<close> reduces a call to what it does with the entry.
\<close>

lemma resolved:
  assumes "do { (r, v) \<leftarrow> resolve_at me dirfd path follow v; case r of Inl e \<Rightarrow> Some (Inl e, v) | Inr x \<Rightarrow> f x v } = Some (y, v')"
    and "vfs_ok v" "caller_ok me v"
    and "\<And>x v1. grows v v1 \<Longrightarrow> vfs_ok v1 \<Longrightarrow> caller_ok me v1 \<Longrightarrow> x < num_entries v1 \<Longrightarrow> f x v1 = Some (y, v') \<Longrightarrow> grows v1 v'"
  shows "grows v v'"
proof -
  obtain r v1 where r: "resolve_at me dirfd path follow v = Some (r, v1)" using assms(1) by (auto split: bind_splits)
  note g = resolve_at_grows[OF r assms(2,3)]
  show ?thesis
  proof (cases r)
    case (Inl e)
    then show ?thesis using assms(1) r g(1) by simp
  next
    case (Inr x)
    then have "f x v1 = Some (y, v')" using assms(1) r by simp
    then have "grows v1 v'" using assms(4)[OF g(1) growsD(1)[OF g(1)] caller_ok_grows[OF assms(3) g(1)] g(2)[OF Inr]] by blast
    then show ?thesis by (rule grows_trans[OF g(1)])
  qed
qed

lemma mkdirat_grows: "mkdirat_impl me dirfd path mode v = Some (y, v') \<Longrightarrow> vfs_ok v \<Longrightarrow> caller_ok me v \<Longrightarrow> grows v v'"
  unfolding mkdirat_impl_def
  by (erule resolved) (auto split: if_splits bind_splits intro: entry_create_grows)

lemma new_vnode_grows:
  assumes "vfs_ok v" "e < num_entries v"
  shows "grows v (new_vnode e ty v)"
proof -
  let ?w = "new_vnode e ty v"
  have e': "entries ?w = (entries v)(e := (entries v e)\<lparr>evnode := Some (num_nodes v)\<rparr>)" "num_entries ?w = num_entries v"
    "num_nodes ?w = num_nodes v + 1" "root ?w = root v" "null_entry ?w = null_entry v"
    by (simp_all add: new_vnode_def upd_entry_def)
  have "entry_ok ?w (entries ?w k)" if k: "k < num_entries ?w" for k
  proof -
    have "entry_ok ?w (entries v k)" using vfs_ok_entry[OF assms(1), of k] k e'(2,3) entry_ok_mono[of v "entries v k" ?w] by simp
    then show ?thesis unfolding e'(1) by (auto simp: entry_ok_def e'(3))
  qed
  then show ?thesis using assms(1) e' by (simp add: grows_def vfs_ok_def)
qed

lemma mknodat_grows:
  assumes "mknodat_impl has_dev me dirfd path mode dev v = Some (y, v')" "vfs_ok v" "caller_ok me v"
  shows "grows v v'"
  using assms unfolding mknodat_impl_def
proof (rule resolved)
  fix x v1
  assume ok: "vfs_ok v1" and x: "x < num_entries v1"
    and run: "(if evnode (entries v1 x) \<noteq> None then Some (Inl EEXIST, v1)
        else if eparent (entries v1 x) = None then Some (Inl ENOENT, v1)
        else case mknod_node has_dev (mode AND MODE_TYPE_MASK) dev x v1 of
          Inl e \<Rightarrow> Some (Inl e, v1)
        | Inr (ty, v) \<Rightarrow>
            do { v \<leftarrow> entry_create x ty (Some (euid me)) (Some (egid me)) (Some (mode AND NOT MODE_TYPE_MASK AND NOT (umask me) AND 511)) v;
                 Some (Inr (), v) }) = Some (y, v')"
  have node: "grows v1 v2" if "mknod_node has_dev t dev x v1 = Inr (ty, v2)" for t ty v2
    using that new_vnode_grows[OF ok x] ok by (auto simp: mknod_node_def split: if_splits)
  consider "v' = v1" | ty v2 m where "mknod_node has_dev (mode AND MODE_TYPE_MASK) dev x v1 = Inr (ty, v2)"
      "entry_create x ty (Some (euid me)) (Some (egid me)) (Some m) v2 = Some v'"
    using run by (auto split: if_splits sum.splits bind_splits)
  then show "grows v1 v'"
  proof cases
    case (2 ty v2 m)
    then show ?thesis using grows_trans[OF node entry_create_grows] growsD(1,2)[OF node] x by blast
  qed (simp add: ok)
qed

lemma symlinkat_grows: "symlinkat_impl heap me target dirfd path v = Some (y, v') \<Longrightarrow> vfs_ok v \<Longrightarrow> caller_ok me v \<Longrightarrow> grows v v'"
  unfolding symlinkat_impl_def
  by (erule resolved) (auto split: if_splits bind_splits intro: grows_trans[OF entry_create_grows upd_node_grows] dest: entry_create_grows growsD(1))

lemma unlinkat_grows: "unlinkat_impl me dirfd path fl v = Some (y, v') \<Longrightarrow> vfs_ok v \<Longrightarrow> caller_ok me v \<Longrightarrow> grows v v'"
  unfolding unlinkat_impl_def
  by (erule resolved) (auto split: if_splits bind_splits option.splits intro: entry_remove_grows)

lemma readlinkat_grows: "readlinkat_impl me dirfd path cnt v = Some (y, v') \<Longrightarrow> vfs_ok v \<Longrightarrow> caller_ok me v \<Longrightarrow> grows v v'"
  unfolding readlinkat_impl_def
  by (erule resolved) (auto split: if_splits bind_splits option.splits)

text \<open>Giving an entry the node of another one.\<close>

lemma share_node_grows:
  assumes "entry_create new HARD_LINK None None None (upd_entry new (\<lambda>x. x\<lparr>evnode := evnode (entries v old)\<rparr>) v) = Some v'"
    and "vfs_ok v" "new < num_entries v" "old < num_entries v"
  shows "grows v v'"
proof -
  let ?u = "upd_entry new (\<lambda>x. x\<lparr>evnode := evnode (entries v old)\<rparr>) v"
  have "entry_ok v ((entries v new)\<lparr>evnode := evnode (entries v old)\<rparr>)"
    using vfs_ok_entry[OF assms(2,3)] vfs_ok_entry[OF assms(2,4)] by (simp add: entry_ok_def)
  then have u: "grows v ?u" by (intro upd_entry_grows[OF assms(2)])
  then show ?thesis using grows_trans[OF u entry_create_grows[OF assms(1)]] growsD[OF u] assms(3) by blast
qed

lemma linkat_grows:
  assumes "linkat_impl me od op nd np v = Some (y, v')" "vfs_ok v" "caller_ok me v"
  shows "grows v v'"
  using assms unfolding linkat_impl_def
proof (rule resolved)
  fix old v1
  assume ok: "vfs_ok v1" "caller_ok me v1" and old: "old < num_entries v1"
    and run: "(if evnode (entries v1 old) = None then Some (Inl ENOENT, v1)
      else do { (r, v) \<leftarrow> resolve_at me nd np True v1;
                case r of
                  Inl e \<Rightarrow> Some (Inl e, v)
                | Inr new \<Rightarrow>
                    if evnode (entries v new) \<noteq> None then Some (Inl EEXIST, v)
                    else do { v \<leftarrow> entry_create new HARD_LINK None None None (upd_entry new (\<lambda>x. x\<lparr>evnode := evnode (entries v old)\<rparr>) v);
                              Some (Inr (), v) } }) = Some (y, v')"
  show "grows v1 v'"
  proof (cases "evnode (entries v1 old) = None")
    case False
    show ?thesis
      by (rule resolved[OF run[unfolded if_not_P[OF False]] ok])
        (use old growsD(2) in \<open>auto split: if_splits bind_splits intro!: share_node_grows\<close>)
  qed (use run ok in auto)
qed

lemma renameat_grows:
  assumes "renameat_impl me od op nd np v = Some (y, v')" "vfs_ok v" "caller_ok me v"
  shows "grows v v'"
  using assms unfolding renameat_impl_def
proof (rule resolved)
  fix old v1
  assume ok: "vfs_ok v1" "caller_ok me v1" and old: "old < num_entries v1"
    and run: "(if evnode (entries v1 old) = None then Some (Inl ENOENT, v1)
      else do { (r, v) \<leftarrow> resolve_at me nd np True v1;
                case r of
                  Inl e \<Rightarrow> Some (Inl e, v)
                | Inr new \<Rightarrow>
                    do { v \<leftarrow> (if evnode (entries v new) \<noteq> None then entry_remove new v else Some v);
                         v \<leftarrow> entry_create new HARD_LINK None None None (upd_entry new (\<lambda>x. x\<lparr>evnode := evnode (entries v old)\<rparr>) v);
                         v \<leftarrow> entry_remove old v;
                         Some (Inr (), v) } }) = Some (y, v')"
  show "grows v1 v'"
  proof (cases "evnode (entries v1 old) = None")
    case False
    show ?thesis
    proof (rule resolved[OF run[unfolded if_not_P[OF False]] ok])
      fix new v2
      assume g2: "grows v1 v2" and ok2: "vfs_ok v2" and new: "new < num_entries v2"
        and r: "do { v \<leftarrow> (if evnode (entries v2 new) \<noteq> None then entry_remove new v2 else Some v2);
                     v \<leftarrow> entry_create new HARD_LINK None None None (upd_entry new (\<lambda>x. x\<lparr>evnode := evnode (entries v old)\<rparr>) v);
                     v \<leftarrow> entry_remove old v; Some (Inr (), v) } = Some (y, v')"
      obtain v3 v4 where v3: "(if evnode (entries v2 new) \<noteq> None then entry_remove new v2 else Some v2) = Some v3"
        and v4: "entry_create new HARD_LINK None None None (upd_entry new (\<lambda>x. x\<lparr>evnode := evnode (entries v3 old)\<rparr>) v3) = Some v4"
        and v5: "entry_remove old v4 = Some v'"
        using r by (auto split: bind_splits)
      have g3: "grows v2 v3" using v3 entry_remove_grows[OF _ ok2] ok2 by (auto split: if_splits)
      have g4: "grows v3 v4" by (rule share_node_grows[OF v4 growsD(1)[OF g3] growsD(2)[OF g3 new] growsD(2)[OF g3 growsD(2)[OF g2 old]]])
      show "grows v2 v'" using grows_trans[OF g3 grows_trans[OF g4 entry_remove_grows[OF v5 growsD(1)[OF g4]]]] .
    qed
  qed (use run ok in auto)
qed

lemma openat_grows:
  assumes "openat_impl vopen heap me dirfd path fl mode v = Some (y, v')" "vfs_ok v" "caller_ok me v"
  shows "grows v v'"
  using assms unfolding openat_impl_def
  by (rule resolved) (auto split: if_splits bind_splits option.splits sum.splits
      intro: entry_create_grows upd_node_grows grows_trans[OF entry_create_grows upd_node_grows] dest: entry_create_grows growsD(1))

lemma get_vnode_grows:
  assumes "get_vnode_from_dirfd_path me fd path fl v = Some (y, v')" "vfs_ok v" "caller_ok me v"
  shows "grows v v'"
proof (cases "fl AND AT_EMPTY_PATH \<noteq> 0 \<and> path = []")
  case True
  then show ?thesis using assms by (auto simp: get_vnode_from_dirfd_path_def split: if_splits bind_splits)
next
  case False
  show ?thesis
    using assms(1) unfolding get_vnode_from_dirfd_path_def if_not_P[OF False]
    by (rule resolved) (use assms(2,3) in \<open>auto split: if_splits bind_splits\<close>)
qed

lemma fstatat_grows: "fstatat_impl me fd path fl v = Some (y, v') \<Longrightarrow> vfs_ok v \<Longrightarrow> caller_ok me v \<Longrightarrow> grows v v'"
  unfolding fstatat_impl_def by (auto split: bind_splits sum.splits simp: Let_def intro: get_vnode_grows)

lemma node_update_grows:
  assumes "do { (r, v) \<leftarrow> get_vnode_from_dirfd_path me fd path fl v;
      Some (case r of Inl e \<Rightarrow> (Inl e, v) | Inr n \<Rightarrow> (Inr (), upd_node n f v)) } = Some (y, v')"
    and ok: "vfs_ok v" "caller_ok me v"
  shows "grows v v'"
proof -
  obtain r v1 where r: "get_vnode_from_dirfd_path me fd path fl v = Some (r, v1)" using assms(1) by (auto split: bind_splits)
  note g = get_vnode_grows[OF r ok]
  have "grows v1 v'" using assms(1) r growsD(1)[OF g] upd_node_grows[OF growsD(1)[OF g]] by (auto split: sum.splits)
  then show ?thesis by (rule grows_trans[OF g])
qed

lemma fchownat_grows: "fchownat_impl me fd path owner grp fl v = Some (y, v') \<Longrightarrow> vfs_ok v \<Longrightarrow> caller_ok me v \<Longrightarrow> grows v v'"
  unfolding fchownat_impl_def by (rule node_update_grows)

lemma fchmodat2_grows: "fchmodat2_impl me fd path mode fl v = Some (y, v') \<Longrightarrow> vfs_ok v \<Longrightarrow> caller_ok me v \<Longrightarrow> grows v v'"
  unfolding fchmodat2_impl_def by (rule node_update_grows)

section \<open>What a new directory changes\<close>

text \<open>Everything that could be found before is found again and is the same.\<close>

definition keeps :: "vfs \<Rightarrow> vfs \<Rightarrow> bool" where
  "keeps v v' \<longleftrightarrow> root v' = root v \<and>
     (\<forall>p<num_entries v. \<forall>x c. find_child p x v = Some c \<longrightarrow> find_child p x v' = Some c) \<and>
     (\<forall>c<num_entries v. evnode (entries v c) \<noteq> None \<longrightarrow> evnode (entries v' c) = evnode (entries v c)) \<and>
     (\<forall>c<num_entries v. eredirect (entries v' c) = eredirect (entries v c)) \<and>
     (\<forall>n<num_nodes v. nodes v' n = nodes v n)"

lemma keeps_reduce: "reduce e v = Some r \<Longrightarrow> keeps v v' \<Longrightarrow> vfs_ok v \<Longrightarrow> e < num_entries v \<Longrightarrow> reduce e v' = Some r"
proof -
  assume run: "reduce e v = Some r" and pre: "keeps v v'" "vfs_ok v" "e < num_entries v"
  from run have "keeps v v' \<longrightarrow> vfs_ok v \<longrightarrow> e < num_entries v \<longrightarrow> reduce e v' = Some r"
  proof (rule reduce.raw_induct[rotated])
    fix red e v r
    assume IH: "\<And>e v r. red e v = Some r \<Longrightarrow> keeps v v' \<longrightarrow> vfs_ok v \<longrightarrow> e < num_entries v \<longrightarrow> reduce e v' = Some r"
      and run: "(case eredirect (entries v e) of None \<Rightarrow> Some e | Some r \<Rightarrow> red r v) = Some r"
    show "keeps v v' \<longrightarrow> vfs_ok v \<longrightarrow> e < num_entries v \<longrightarrow> reduce e v' = Some r"
    proof (intro impI)
      assume k: "keeps v v'" "vfs_ok v" "e < num_entries v"
      then have s: "eredirect (entries v' e) = eredirect (entries v e)" unfolding keeps_def by blast
      show "reduce e v' = Some r"
      proof (cases "eredirect (entries v e)")
        case None
        then show ?thesis using run s by (subst reduce.simps) simp
      next
        case (Some x)
        then have "red x v = Some r" "x < num_entries v" using run vfs_okD(3)[OF k(2,3)] by simp_all
        then show ?thesis using IH k s Some by (subst reduce.simps) simp
      qed
    qed
  qed
  then show ?thesis using pre by blast
qed

lemma keeps_node:
  assumes "keeps v v'" "vfs_ok v" "c < num_entries v" "evnode (entries v c) = Some n"
  shows "evnode (entries v' c) = Some n" "type_of v' n = type_of v n"
proof -
  show "evnode (entries v' c) = Some n" using assms unfolding keeps_def by simp
  have "n < num_nodes v" by (rule vfs_okD(1)[OF assms(2-4)])
  then show "type_of v' n = type_of v n" using assms(1) unfolding keeps_def by (simp add: type_of_def)
qed

lemma keeps_walk:
  assumes "keeps v v'" "vfs_ok v"
  shows "cur < num_entries v \<Longrightarrow> dir_walk v cur names = Some d \<Longrightarrow> dir_walk v' cur names = Some d"
proof (induction names arbitrary: cur)
  case (Cons x names)
  obtain c n d1 where st: "find_child cur x v = Some c" "evnode (entries v c) = Some n" "type_of v n \<noteq> SYMLINK" "reduce c v = Some d1" "is_dir v d1"
    "dir_walk v d1 names = Some d" using Cons.prems(2) by (auto split: bind_splits if_splits)
  have c: "c < num_entries v" by (rule find_child_bound[OF st(1) assms(2) Cons.prems(1)])
  have d1: "d1 < num_entries v" by (rule reduce_bound[OF st(4) assms(2) c])
  obtain m where m: "evnode (entries v d1) = Some m" "type_of v m = DIRECTORY" using is_dir_node[OF st(5)] by blast
  have "find_child cur x v' = Some c" using st(1) Cons.prems(1) assms(1) unfolding keeps_def by blast
  moreover have "is_dir v' d1" using keeps_node[OF assms d1 m(1)] m(2) by (simp add: is_dir_def)
  ultimately show ?case
    using keeps_node[OF assms c st(2)] st(3) keeps_reduce[OF st(4) assms c] Cons.IH[OF d1 st(6)] by simp
qed simp

text \<open>The state after a lookup of a name that is not there.\<close>

lemma find_child_cong:
  assumes "children_list (entries v' p) = children_list (entries v p)" "\<And>c. c \<in> set (children_list (entries v p)) \<Longrightarrow> ename (entries v' c) = ename (entries v c)"
  shows "find_child p x v' = find_child p x v"
  unfolding find_child_def assms(1) using assms(2) by (intro find_cong) auto

lemma lookup_missing:
  assumes ok: "vfs_ok v" and d: "d < num_entries v" "is_dir v d" "eredirect (entries v d) = None" and none: "find_child d l v = None"
  shows "vfs_lookup d l v = Some (num_entries v, with_missing d l v)"
proof -
  obtain e v1 where c: "construct None (Some d) l None v = (e, v1)" by fastforce
  then have v1: "e = num_entries v" "entries v1 = (entries v)(e := \<lparr>evnode = None, eparent = Some d, eredirect = None, children_list = [], ename = l\<rparr>)"
    by (auto simp: construct_def)
  have de: "d \<noteq> e" using d(1) v1(1) by simp
  have "ename (entries v1 k) = ename (entries v k)" if "k \<in> set (children_list (entries v d))" for k
    using vfs_okD(4)[OF ok d(1) that] v1 by simp
  then have "find_child d l v1 = None" using find_child_cong[of v1 d v l] de v1(2) none by simp
  moreover have "reduce d v1 = Some d" using d(3) de v1(2) by (intro reduce_self) simp
  moreover obtain n where "evnode (entries v1 d) = Some n" using is_dir_node[OF d(2)] de v1(2) by auto
  ultimately have "entry_lookup e v1 = Some (add_entry d e v1)" using v1(2) by (simp add: entry_lookup_def)
  then show ?thesis using none c v1(1) by (simp add: vfs_lookup_def with_missing_def)
qed

text \<open>The state after \<^verbatim>\<open>mkdir\<close>: three entries and one node more.\<close>

definition with_dir :: "caller \<Rightarrow> nat \<Rightarrow> u8 list \<Rightarrow> u32 \<Rightarrow> vfs \<Rightarrow> vfs" where
  "with_dir me d l mode v =
     (let e = num_entries v; n = num_nodes v in
      v\<lparr>entries := (entries v)
          (d := (entries v d)\<lparr>children_list := e # children_list (entries v d)\<rparr>,
           e := \<lparr>evnode = Some n, eparent = Some d, eredirect = None, children_list = [e + 2, e + 1], ename = l\<rparr>,
           e + 1 := \<lparr>evnode = Some n, eparent = Some e, eredirect = Some e, children_list = [], ename = str ''.''\<rparr>,
           e + 2 := \<lparr>evnode = evnode (entries v d), eparent = Some e, eredirect = Some d, children_list = [], ename = str ''..''\<rparr>),
        nodes := (nodes v)(n := \<lparr>ndata = tmpfs_new DIRECTORY, inode_num = last_inode_num v, nuid = euid me, ngid = egid me,
                                nmode = mode AND NOT (umask me) AND 511, nrefs = 1\<rparr>),
        num_entries := e + 3, num_nodes := n + 1, last_inode_num := last_inode_num v + 1\<rparr>)"

lemma create_dir:
  assumes "d < num_entries v"
  shows "entry_create (num_entries v) DIRECTORY (Some (euid me)) (Some (egid me)) (Some (mode AND NOT (umask me) AND 511)) (with_missing d l v) =
    Some (with_dir me d l mode v)"
proof -
  let ?e = "num_entries v" and ?n = "num_nodes v"
  let ?i = "\<lparr>ndata = tmpfs_new DIRECTORY, inode_num = last_inode_num v, nuid = -1, ngid = -1, nmode = 0, nrefs = 0\<rparr>"
  define v1 where "v1 = v\<lparr>entries := (entries v)(d := (entries v d)\<lparr>children_list := ?e # children_list (entries v d)\<rparr>,
      ?e := \<lparr>evnode = Some ?n, eparent = Some d, eredirect = None, children_list = [], ename = l\<rparr>),
      nodes := (nodes v)(?n := ?i), num_entries := ?e + 1, num_nodes := ?n + 1, last_inode_num := last_inode_num v + 1\<rparr>"
  have de: "d \<noteq> ?e" using assms by simp
  have p: "eparent (entries (with_missing d l v) ?e) = Some d"
    using de by (simp add: with_missing_def construct_def add_entry_def upd_entry_def)
  have t: "tmpfs_create ?e DIRECTORY (with_missing d l v) = Some v1"
    using de by (simp add: with_missing_def construct_def add_entry_def upd_entry_def tmpfs_create_def v1_def Let_def fun_upd_twist)
  have f: "find_child d l v1 = Some ?e" "evnode (entries v1 ?e) = Some ?n" "type_of v1 ?n = DIRECTORY" "ename (entries v1 ?e) = l"
    using de by (simp_all add: find_child_def v1_def type_of_def tmpfs_new_def)
  have dots: "upd_node ?n (set_owner DIRECTORY (Some (euid me)) (Some (egid me)) (Some (mode AND NOT (umask me) AND 511))) (add_dots ?e d ?n v1) =
      with_dir me d l mode v"
    using de assms by (simp add: add_dots_def construct_def add_entry_def upd_entry_def upd_node_def set_owner_def v1_def with_dir_def Let_def fun_upd_twist)
  show ?thesis using p t f dots by (simp add: entry_create_def Let_def)
qed

lemma with_dir_keeps:
  assumes "vfs_ok v" "d < num_entries v" "find_child d l v = None"
  shows "keeps v (with_dir me d l mode v)"
proof -
  let ?w = "with_dir me d l mode v" and ?e = "num_entries v"
  have ent: "entries ?w c = (if c = d then (entries v d)\<lparr>children_list := ?e # children_list (entries v d)\<rparr> else entries v c)"
    if "c < num_entries v" for c using that by (simp add: with_dir_def Let_def)
  have e: "ename (entries ?w ?e) = l" by (simp add: with_dir_def Let_def)
  have "find_child p x ?w = Some c" if p: "p < num_entries v" and f: "find_child p x v = Some c" for p x c
  proof -
    have nm: "ename (entries ?w k) = ename (entries v k)" if "k \<in> set (children_list (entries v p))" for k
      using ent[OF vfs_okD(4)[OF assms(1) p that]] by simp
    then have old: "find (\<lambda>k. ename (entries ?w k) = x) (children_list (entries v p)) = Some c"
      using f find_cong[OF refl, of "children_list (entries v p)" "\<lambda>k. ename (entries v k) = x" "\<lambda>k. ename (entries ?w k) = x"]
      by (simp add: find_child_def)
    show ?thesis
    proof (cases "p = d")
      case True
      then have "x \<noteq> l" using f assms(3) by auto
      then show ?thesis using old e True ent[OF p] by (simp add: find_child_def)
    qed (use old ent[OF p] in \<open>simp add: find_child_def\<close>)
  qed
  moreover have "nodes ?w n = nodes v n" if "n < num_nodes v" for n using that by (simp add: with_dir_def Let_def)
  moreover have "root ?w = root v" by (simp add: with_dir_def Let_def)
  ultimately show ?thesis using ent unfolding keeps_def by simp
qed

lemma resolve_abs:
  assumes "p \<noteq> []"
  shows "resolve_at me dirfd (slash # p) follow v = do { (x, v) \<leftarrow> path_loop p (length p) (root v) follow v; Some (Inr x, v) }"
  using path_to_entry_abs[OF assms] by (simp add: resolve_at_def get_starting_point_def)

lemma walk_bound: "vfs_ok v \<Longrightarrow> cur < num_entries v \<Longrightarrow> dir_walk v cur names = Some d \<Longrightarrow> d < num_entries v"
proof (induction names arbitrary: cur)
  case (Cons x names)
  obtain c d1 where st: "find_child cur x v = Some c" "reduce c v = Some d1" "dir_walk v d1 names = Some d"
    using Cons.prems(3) by (auto split: bind_splits if_splits)
  then show ?case using Cons.IH[OF Cons.prems(1)] reduce_bound[OF st(2) Cons.prems(1)] find_child_bound[OF st(1) Cons.prems(1,2)] by blast
qed simp

section \<open>Properties of the tree\<close>



lemma vfs_init_simps:
  "root vfs_init = 0" "num_entries vfs_init = 4" "num_nodes vfs_init = 1" "null_entry vfs_init = 1"
  "entries vfs_init 0 = \<lparr>evnode = Some 0, eparent = None, eredirect = None, children_list = [3, 2], ename = []\<rparr>"
  "type_of vfs_init n = DIRECTORY"
  by (simp_all add: vfs_init_def Let_def type_of_def tmpfs_new_def)

lemma vfs_init_ok: "vfs_ok vfs_init" "is_dir vfs_init (root vfs_init)" "eredirect (entries vfs_init 0) = None"
proof -
  have "entry_ok vfs_init (entries vfs_init e)" for e
    by (simp add: entry_ok_def vfs_init_simps(2,3)) (simp add: vfs_init_def Let_def)
  then show "vfs_ok vfs_init" by (simp add: vfs_ok_def vfs_init_simps)
qed (simp_all add: is_dir_def vfs_init_simps)

lemma vfs_init_missing:
  assumes "x \<noteq> str ''.''" "x \<noteq> str ''..''"
  shows "find_child 0 x vfs_init = None"
  using assms by (auto simp: find_child_def vfs_init_def Let_def)


definition superuser :: caller where
  "superuser = \<lparr>cwd = 0, open_fds = (\<lambda>_. None), euid = 0, egid = 0, umask = 18\<rparr>"


text \<open>Sequences of system calls by one process, which may change its ids and umask in between.\<close>

inductive vfs_reachable :: "caller \<Rightarrow> vfs \<Rightarrow> bool" where
  boot: "cwd me = 0 \<Longrightarrow> open_fds me = (\<lambda>_. None) \<Longrightarrow> vfs_reachable me vfs_init"
| become: "vfs_reachable me v \<Longrightarrow> vfs_reachable (me\<lparr>euid := u, egid := g, umask := m\<rparr>) v"
| mkdir: "vfs_reachable me v \<Longrightarrow> mkdirat_impl me fd path mode v = Some (r, v') \<Longrightarrow> vfs_reachable me v'"
| mknod: "vfs_reachable me v \<Longrightarrow> mknodat_impl has_dev me fd path mode dev v = Some (r, v') \<Longrightarrow> vfs_reachable me v'"
| symlink: "vfs_reachable me v \<Longrightarrow> symlinkat_impl heap me target fd path v = Some (r, v') \<Longrightarrow> vfs_reachable me v'"
| link: "vfs_reachable me v \<Longrightarrow> linkat_impl me fd path fd' path' v = Some (r, v') \<Longrightarrow> vfs_reachable me v'"
| rename: "vfs_reachable me v \<Longrightarrow> renameat_impl me fd path fd' path' v = Some (r, v') \<Longrightarrow> vfs_reachable me v'"
| unlink: "vfs_reachable me v \<Longrightarrow> unlinkat_impl me fd path fl v = Some (r, v') \<Longrightarrow> vfs_reachable me v'"
| readlink: "vfs_reachable me v \<Longrightarrow> readlinkat_impl me fd path cnt v = Some (b, v') \<Longrightarrow> vfs_reachable me v'"
| stat: "vfs_reachable me v \<Longrightarrow> fstatat_impl me fd path fl v = Some (b, v') \<Longrightarrow> vfs_reachable me v'"
| chown: "vfs_reachable me v \<Longrightarrow> fchownat_impl me fd path owner grp fl v = Some (r, v') \<Longrightarrow> vfs_reachable me v'"
| chmod: "vfs_reachable me v \<Longrightarrow> fchmodat2_impl me fd path mode fl v = Some (r, v') \<Longrightarrow> vfs_reachable me v'"
| trunc: "vfs_reachable me v \<Longrightarrow> syscall_truncate heap me path len v = Some (r, v') \<Longrightarrow> vfs_reachable me v'"
| open_fail: "vfs_reachable me v \<Longrightarrow> openat_impl vopen heap me fd path fl mode v = Some (Inl err, v') \<Longrightarrow> vfs_reachable me v'"
| open_ok: "vfs_reachable me v \<Longrightarrow> openat_impl vopen heap me fd path fl mode v = Some (Inr x, v') \<Longrightarrow> evnode (entries v' x) = Some n \<Longrightarrow>
    vfs_reachable (me\<lparr>open_fds := (open_fds me)(k := Some (n, x))\<rparr>) v'"
| close: "vfs_reachable me v \<Longrightarrow> vfs_reachable (me\<lparr>open_fds := (open_fds me)(k := None)\<rparr>) v"
| chdir: "vfs_reachable me v \<Longrightarrow> syscall_chdir path me v = Some ((r, me'), v') \<Longrightarrow> vfs_reachable me' v'"
| fchdir: "vfs_reachable me v \<Longrightarrow> syscall_fchdir fd me v = (r, me') \<Longrightarrow> vfs_reachable me' v"

lemma truncate_grows:
  assumes "syscall_truncate heap me path len v = Some (r, v')" "vfs_ok v" "caller_ok me v"
  shows "grows v v'"
proof (cases "sint len < 0")
  case True
  then show ?thesis using assms by (auto simp: syscall_truncate_def)
next
  case False
  obtain x v1 where x: "path_to_entry path (Some (cwd me)) True v = Some (x, v1)" using assms(1) False by (auto simp: syscall_truncate_def split: bind_splits)
  have g: "grows v v1" using path_to_entry_grows(1)[OF x assms(2)] assms(3) by (simp add: caller_ok_def)
  have "grows v1 v'" using assms(1) False x growsD(1)[OF g] by (auto simp: syscall_truncate_def upd_node_grows split: option.splits bind_splits)
  then show ?thesis by (rule grows_trans[OF g])
qed

text \<open>The entry that \<^verbatim>\<open>openat\<close> returns exists.\<close>

lemma openat_bound:
  assumes "openat_impl vopen heap me dirfd path fl mode v = Some (Inr x, v')" "vfs_ok v" "caller_ok me v"
  shows "x < num_entries v'"
proof -
  obtain v1 where r: "resolve_at me dirfd path (fl AND O_NOFOLLOW = 0) v = Some (Inr x, v1)" and le: "num_entries v1 \<le> num_entries v'"
  proof -
    obtain r v1 where r: "resolve_at me dirfd path (fl AND O_NOFOLLOW = 0) v = Some (r, v1)" using assms(1) by (auto simp: openat_impl_def split: bind_splits)
    note g = resolve_at_grows[OF r assms(2,3)]
    show ?thesis
    proof (cases r)
      case (Inl e)
      then show ?thesis using assms(1) r by (simp add: openat_impl_def)
    next
      case (Inr y)
      have "y = x" using assms(1) r Inr by (auto simp: openat_impl_def split: bind_splits option.splits sum.splits)
      moreover have "grows v1 v'" using assms(1) r Inr growsD(1)[OF g(1)] g(2)[OF Inr]
        by (auto simp: openat_impl_def split: if_splits bind_splits option.splits sum.splits
          intro: entry_create_grows upd_node_grows grows_trans[OF entry_create_grows upd_node_grows] dest: entry_create_grows growsD(1))
      ultimately show ?thesis using that r Inr by (simp add: grows_def)
    qed
  qed
  show ?thesis using resolve_at_grows(2)[OF r assms(2,3) refl] le by simp
qed

lemmas call_grows = mkdirat_grows mknodat_grows symlinkat_grows linkat_grows renameat_grows unlinkat_grows
  readlinkat_grows fstatat_grows fchownat_grows fchmodat2_grows truncate_grows openat_grows



text \<open>
  A symbolic link to its own path is never resolved. Every turn of the loop starts the same
  resolution again, without a limit on the number of links followed; in the kernel it is a recursion
  that overflows the stack.
\<close>

theorem self_link_never_resolves:
  assumes "is_dir v (root v)" "find_child (root v) l v = Some e" "evnode (entries v e) = Some n" "type_of v n = SYMLINK"
    and "tmpfs_read (ndata (nodes v n)) 128 0 = Some (Inr (slash # l))" "name_ok l" "0 \<notin> set l" "length l < 127"
    and "eredirect (entries v (root v)) = None"
  shows "path_to_entry (slash # l) None True v = None"
proof -
  obtain m where m: "evnode (entries v (root v)) = Some m" "type_of v m = DIRECTORY" using is_dir_node[OF assms(1)] by blast
  have c: "next_component l (length l) = Some (length l, True)" using next_component_last[OF assms(6), of "[]"] by simp
  have "takeWhile (\<lambda>c. c \<noteq> 0) (slash # l) = slash # l" using assms(7) by (simp add: takeWhile_eq_all_conv slash_def) metis
  then have lp: "link_path v n l (length l) = Some (Inr (slash # l))" using assms(5,8) by (simp add: link_path_def)
  have ps: "path_start (slash # l) (Some (root v)) v = Some (Inr (l, length l, root v))"
    using assms(6) reduce_self[OF assms(9)] by (simp add: path_start_def name_ok_def)
  have step: "path_step l (length l) (root v) True v = Some (Inr (l, length l, root v), v)"
    using m c assms(2-4) lp ps by (simp add: path_step_def vfs_lookup_def)
  have "\<not> (p = l \<and> k = length l \<and> c = root v \<and> f \<and> w = v)" if run: "path_loop p k c f w = Some res" for p k c f w res
    using run
  proof (rule path_loop.raw_induct[rotated])
    fix loop :: "u8 list \<Rightarrow> nat \<Rightarrow> nat \<Rightarrow> bool \<Rightarrow> vfs \<Rightarrow> (nat \<times> vfs) option" and p k c f w res
    assume IH: "\<And>p k c f w res. loop p k c f w = Some res \<Longrightarrow> \<not> (p = l \<and> k = length l \<and> c = root v \<and> f \<and> w = v)"
      and r: "do { (r, v) \<leftarrow> path_step p k c f w; case r of Inl x \<Rightarrow> Some (x, v) | Inr q \<Rightarrow> loop (fst q) (fst (snd q)) (snd (snd q)) f v } = Some res"
    show "\<not> (p = l \<and> k = length l \<and> c = root v \<and> f \<and> w = v)"
    proof
      assume "p = l \<and> k = length l \<and> c = root v \<and> f \<and> w = v"
      then have "loop l (length l) (root v) True v = Some res" using r step by simp
      then show False using IH by blast
    qed
  qed
  then have "path_loop l (length l) (root v) True v = None" by (metis not_Some_eq)
  then show ?thesis using path_to_entry_abs[of l True v] assms(6) by (simp add: name_ok_def)
qed

definition loop_fs :: "vfs option" where
  "loop_fs = map_option snd (symlinkat_impl (\<lambda>i. 0) superuser (str ''/x'') AT_FDCWD (str ''/x'') vfs_init)"

theorem self_link_never_resolves_witness:
  "\<exists>v. loop_fs = Some v \<and> path_to_entry (str ''/x'') None True v = None"
proof -
  let ?l = "str ''x''"
  have "map_option (\<lambda>v. (root v, find_child 0 ?l v, evnode (entries v 4), evnode (entries v 0), eredirect (entries v 0))) loop_fs =
      Some (0, Some 4, Some 1, Some 0, None)" by code_simp
  then obtain v where v: "loop_fs = Some v" "root v = 0" "find_child 0 ?l v = Some 4" "evnode (entries v 4) = Some 1" "evnode (entries v 0) = Some 0"
    "eredirect (entries v 0) = None" by auto
  have "map_option (\<lambda>v. (type_of v 1, type_of v 0, tmpfs_read (ndata (nodes v 1)) 128 0)) loop_fs =
      Some (SYMLINK, DIRECTORY, Some (Inr (slash # ?l)))" by code_simp
  then have t: "type_of v 1 = SYMLINK" "type_of v 0 = DIRECTORY" "tmpfs_read (ndata (nodes v 1)) 128 0 = Some (Inr (slash # ?l))"
    unfolding v(1) by auto
  have l: "name_ok ?l" "0 \<notin> set ?l" "length ?l < 127" by (simp_all add: name_ok_def str_def slash_def)
  have s: "str ''/x'' = slash # ?l" by (simp add: str_def slash_def)
  have "is_dir v (root v)" using v t by (simp add: is_dir_def)
  from self_link_never_resolves[OF this _ v(4) t(1) t(3) l] show ?thesis using v unfolding s by auto
qed

section \<open>Defects of the calls\<close>

text \<open>A file \<open>/f\<close>, a file \<open>f\<close> in a directory \<open>/a\<close>, and what paths name.\<close>

definition no_open :: "nat \<Rightarrow> usize \<Rightarrow> errno option" where
  "no_open n fl = None"

definition creat_at :: "string \<Rightarrow> vfs \<Rightarrow> vfs option" where
  "creat_at path v =
     map_option snd (openat_impl no_open (\<lambda>i. 0) superuser AT_FDCWD (str path) (O_CREAT OR O_WRONLY) 438 v)"

definition file_fs :: "vfs option" where
  "file_fs = creat_at ''/f'' vfs_init"

definition example_fs :: "vfs option" where
  "example_fs = do { (r, v) \<leftarrow> mkdirat_impl superuser AT_FDCWD (str ''/a'') 511 vfs_init; creat_at ''/a/f'' v }"

definition kind_of_path :: "string \<Rightarrow> bool \<Rightarrow> vfs \<Rightarrow> node_type option option" where
  "kind_of_path path follow v =
     do { (x, v) \<leftarrow> path_to_entry (str path) None follow v; Some (map_option (type_of v) (evnode (entries v x))) }"

definition kinds :: "string list \<Rightarrow> vfs \<Rightarrow> node_type option option list" where
  "kinds ps v = map (\<lambda>p. kind_of_path p False v) ps"

text \<open>
  \<^verbatim>\<open>unlink\<close> of a symbolic link removes the file it points to and leaves the link, because the last
  component is resolved through links.
\<close>

theorem unlink_removes_target:
  "(do { v \<leftarrow> file_fs;
         (r, v) \<leftarrow> symlinkat_impl (\<lambda>i. 0) superuser (str ''f'') AT_FDCWD (str ''/l'') v;
         (r, w) \<leftarrow> unlinkat_impl superuser AT_FDCWD (str ''/l'') 0 v;
         Some (kinds [''/l'', ''/f''] v, r, kinds [''/l'', ''/f''] w) }) =
   Some ([Some (Some SYMLINK), Some (Some REGULAR)], Inr (), [Some (Some SYMLINK), Some None])"
  by code_simp

definition child_names :: "nat \<Rightarrow> vfs \<Rightarrow> u8 list list" where
  "child_names d v = map (\<lambda>c. ename (entries v c)) (children_list (entries v d))"

text \<open>
  \<^verbatim>\<open>rename\<close> loses files. The children of a directory belong to its entry, and the new entry has none,
  so renaming a directory loses everything in it; renaming a file to its own name reports success and
  removes the file; renaming into a directory that does not exist follows the null pointer that is
  the parent of the null entry.
\<close>

theorem rename_loses_files:
  "(do { v \<leftarrow> example_fs; (r, w) \<leftarrow> renameat_impl superuser AT_FDCWD (str ''/a'') AT_FDCWD (str ''/b'') v;
         Some (map_option (\<lambda>d. child_names d v) (find_child 0 (str ''a'') v), r, map_option (\<lambda>d. child_names d w) (find_child 0 (str ''b'') w)) }) =
     Some (Some [str ''f'', str ''..'', str ''.''], Inr (), Some [str ''..'', str ''.'']) \<and>
   (do { v \<leftarrow> file_fs; (r, w) \<leftarrow> renameat_impl superuser AT_FDCWD (str ''/f'') AT_FDCWD (str ''/f'') v;
         Some (kinds [''/f''] v, r, kinds [''/f''] w) }) = Some ([Some (Some REGULAR)], Inr (), [Some None]) \<and>
   Option.is_none (do { v \<leftarrow> file_fs; renameat_impl superuser AT_FDCWD (str ''/f'') AT_FDCWD (str ''/no/f'') v })"
  by (intro conjI) code_simp+

text \<open>
  A path with a doubled slash at its end is not found although the path without it is; and a process
  that has changed to the parent directory is told a path that ends in the dots.
\<close>

lemma doubled_slash_not_found:
  "(do { v \<leftarrow> example_fs; Some (kinds [''/a'', ''/a/'', ''/a//''] v) }) =
   Some [Some (Some DIRECTORY), Some (Some DIRECTORY), Some None]"
  by code_simp

lemma getcwd_after_dotdot:
  "(do { v \<leftarrow> example_fs; ((r, me), v) \<leftarrow> syscall_chdir (str ''/a'') superuser v; ((r', me), v) \<leftarrow> syscall_chdir (str ''..'') me v;
         p \<leftarrow> syscall_getcwd 100 me v; Some (r, r', p) }) = Some (Inr (), Inr (), Inr (str ''/a/..''))"
  by code_simp

section \<open>Reading directories\<close>

text \<open>The entries of a directory from a position on, without those that have no node.\<close>

fun listing :: "vfs \<Rightarrow> nat list \<Rightarrow> nat \<Rightarrow> nat \<Rightarrow> dirent list" where
  "listing v [] i pos = []"
| "listing v (c # cs) i pos =
     (case evnode (entries v c) of
        None \<Rightarrow> listing v cs (i + 1) pos
      | Some n \<Rightarrow>
          if i < pos then listing v cs (i + 1) pos
          else \<lparr>d_ino = inode_num (nodes v n), d_off = i, d_reclen = dirent_len (ename (entries v c)),
                d_type = d_type_from_node_type (type_of v n), d_name = ename (entries v c)\<rparr> # listing v cs (i + 1) pos)"

fun getdents_run :: "vfs \<Rightarrow> nat list \<Rightarrow> nat list \<Rightarrow> nat \<Rightarrow> dirent list \<times> nat" where
  "getdents_run v cs [] pos = ([], pos)"
| "getdents_run v cs (sz # szs) pos =
     (let (ds, pos) = readdir_loop v cs 0 pos 0 sz []; (rest, pos) = getdents_run v cs szs pos in (ds @ rest, pos))"

lemma listing_pos: "pos \<le> i \<Longrightarrow> listing v cs i pos = listing v cs i 0"
proof (induction cs arbitrary: i)
  case (Cons c cs)
  then show ?case using Cons.IH[of "i + 1"] by (auto split: option.splits)
qed simp

lemma readdir_listing:
  "readdir_loop v cs i pos cnt sz acc = (ds, p) \<Longrightarrow> \<exists>ds0. ds = acc @ ds0 \<and> listing v cs i pos = ds0 @ listing v cs i p \<and> i \<le> p"
proof (induction cs arbitrary: i cnt acc)
  case Nil
  then show ?case by simp
next
  case (Cons c cs)
  show ?case
  proof (cases "evnode (entries v c)")
    case None
    then obtain ds0 where "ds = acc @ ds0" "listing v cs (i + 1) pos = ds0 @ listing v cs (i + 1) p" "i + 1 \<le> p"
      using Cons.IH[of "i + 1" cnt acc] Cons.prems by auto
    then show ?thesis using None by auto
  next
    case (Some n)
    let ?name = "ename (entries v c)"
    let ?d = "\<lparr>d_ino = inode_num (nodes v n), d_off = i, d_reclen = dirent_len ?name, d_type = d_type_from_node_type (type_of v n), d_name = ?name\<rparr>"
    consider "i < pos" | "pos \<le> i" "cnt + dirent_len ?name > sz" | "pos \<le> i" "cnt + dirent_len ?name \<le> sz" by linarith
    then show ?thesis
    proof cases
      case 1
      then obtain ds0 where "ds = acc @ ds0" "listing v cs (i + 1) pos = ds0 @ listing v cs (i + 1) p" "i + 1 \<le> p"
        using Cons.IH[of "i + 1" cnt acc] Cons.prems Some by auto
      then show ?thesis using 1 Some by auto
    next
      case 2
      then have "ds = acc" "p = i" using Cons.prems Some by (auto simp: Let_def)
      then show ?thesis using 2 listing_pos[of pos i v "c # cs"] listing_pos[of i i v "c # cs"] by simp
    next
      case 3
      then have "readdir_loop v cs (i + 1) pos (cnt + dirent_len ?name) sz (acc @ [?d]) = (ds, p)" using Cons.prems Some by (simp add: Let_def)
      then obtain ds0 where "ds = acc @ ?d # ds0" "listing v cs (i + 1) pos = ds0 @ listing v cs (i + 1) p" "i + 1 \<le> p"
        using Cons.IH by fastforce
      then show ?thesis using 3 Some by (intro exI[of _ "?d # ds0"]) auto
    qed
  qed
qed

text \<open>A buffer that holds any entry makes progress.\<close>

lemma readdir_progress:
  "\<forall>c\<in>set cs. dirent_len (ename (entries v c)) \<le> sz \<Longrightarrow> readdir_loop v cs i pos 0 sz [] = ([], p) \<Longrightarrow> listing v cs i pos = []"
proof (induction cs arbitrary: i)
  case (Cons c cs)
  show ?case
  proof (cases "evnode (entries v c) = None \<or> i < pos")
    case True
    then show ?thesis using Cons.IH[of "i + 1"] Cons.prems by (auto split: option.splits)
  next
    case False
    then obtain n where n: "evnode (entries v c) = Some n" by (cases "evnode (entries v c)") auto
    obtain ds q where r: "readdir_loop v cs (i + 1) pos (dirent_len (ename (entries v c))) sz
        [\<lparr>d_ino = inode_num (nodes v n), d_off = i, d_reclen = dirent_len (ename (entries v c)),
          d_type = d_type_from_node_type (type_of v n), d_name = ename (entries v c)\<rparr>] = (ds, q)" by fastforce
    then have "ds \<noteq> []" using readdir_listing[OF r] by auto
    then show ?thesis using False n r Cons.prems by (simp add: Let_def)
  qed
qed simp

lemma getdents_listing: "getdents_run v cs szs pos = (ds, p) \<Longrightarrow> listing v cs 0 pos = ds @ listing v cs 0 p"
proof (induction szs arbitrary: pos ds p)
  case (Cons sz szs)
  obtain ds1 p1 where 1: "readdir_loop v cs 0 pos 0 sz [] = (ds1, p1)" by fastforce
  obtain ds2 p2 where 2: "getdents_run v cs szs p1 = (ds2, p2)" by fastforce
  have "listing v cs 0 pos = ds1 @ listing v cs 0 p1" using readdir_listing[OF 1] by auto
  then show ?case using Cons.IH[OF 2] Cons.prems 1 2 by simp
qed simp

text \<open>
  Reading a directory that does not change returns every entry once and in order, whatever the buffer
  sizes: what any number of calls have returned and what is left together are the whole listing, and
  nothing is left once a call with a buffer large enough for every name returns nothing.
\<close>

theorem getdents_complete:
  assumes "getdents_run v cs szs 0 = (ds, p)"
  shows "ds @ listing v cs 0 p = listing v cs 0 0 \<and>
    (\<forall>sz. (\<forall>c\<in>set cs. dirent_len (ename (entries v c)) \<le> sz) \<and> fst (readdir_loop v cs 0 p 0 sz []) = [] \<longrightarrow> ds = listing v cs 0 0)"
proof -
  have l: "listing v cs 0 0 = ds @ listing v cs 0 p" by (rule getdents_listing[OF assms])
  have "listing v cs 0 p = []" if "\<forall>c\<in>set cs. dirent_len (ename (entries v c)) \<le> sz" "fst (readdir_loop v cs 0 p 0 sz []) = []" for sz
    using readdir_progress[OF that(1), of 0 p] that(2) by (metis prod.collapse)
  then show ?thesis using l by auto
qed

theorem getdents_complete_witness:
  "map d_name (fst (getdents_run vfs_init [3, 2] [32, 32] 0)) = [str ''..'', str ''.''] \<and>
   listing vfs_init [3, 2] 0 0 = fst (getdents_run vfs_init [3, 2] [32, 32] 0)"
proof -
  have n: "map d_name (fst (getdents_run vfs_init [3, 2] [32, 32] 0)) = [str ''..'', str ''.'']" by code_simp
  obtain ds p where r: "getdents_run vfs_init [3, 2] [32, 32] 0 = (ds, p)" by fastforce
  have "snd (getdents_run vfs_init [3, 2] [32, 32] 0) = 2" by code_simp
  then have p: "p = 2" using r by simp
  have "fst (readdir_loop vfs_init [3, 2] 0 2 0 32 []) = []" "\<forall>c\<in>set [3, 2]. dirent_len (ename (entries vfs_init c)) \<le> 32" by code_simp+
  then show ?thesis using getdents_complete[OF r] n r unfolding p by auto
qed

end
