(* ===== verification/Dev_Net.thy ===== *)
theory Dev_Net
  imports Klib_Containers Klib_Ring_Buffer
begin

text \<open>
  The network layer: \<^verbatim>\<open>dev/net.cpp\<close>, \<^verbatim>\<open>dev/net.hpp\<close> and the packet side of
  \<^verbatim>\<open>userland/socket/udp.cpp\<close>. A packet is the list of its bytes from the header a function is given a
  pointer to; reading past it is \<open>None\<close>. A coroutine runs to its end: what it waits for (the callback
  of an ARP request) is an argument, and the packets it hands to the \<^verbatim>\<open>send_packet\<close> of the driver are
  part of its result, with the driver's answers given by \<open>drv\<close>. TCP packets are dropped: its port table
  stays empty, since \<^verbatim>\<open>socket\<close> refuses to create TCP sockets.
\<close>

section \<open>Big-endian fields\<close>

definition be16_bytes :: "u16 \<Rightarrow> u8 list" where
  "be16_bytes x = [ucast (drop_bit 8 x), ucast x]"

definition be32_bytes :: "u32 \<Rightarrow> u8 list" where
  "be32_bytes x = [ucast (drop_bit 24 x), ucast (drop_bit 16 x), ucast (drop_bit 8 x), ucast x]"

definition get8 :: "u8 list \<Rightarrow> nat \<Rightarrow> u8 option" where
  "get8 bs i = rd bs i"

definition get16 :: "u8 list \<Rightarrow> nat \<Rightarrow> u16 option" where
  "get16 bs i = do { a \<leftarrow> rd bs i; b \<leftarrow> rd bs (i + 1); Some (push_bit 8 (ucast a) OR ucast b) }"

definition get32 :: "u8 list \<Rightarrow> nat \<Rightarrow> u32 option" where
  "get32 bs i = do { a \<leftarrow> get16 bs i; b \<leftarrow> get16 bs (i + 2); Some (push_bit 16 (ucast a) OR ucast b) }"

section \<open>Headers\<close>

type_synonym mac_addr = "u8 list"

definition BROADCAST_MAC :: mac_addr where
  "BROADCAST_MAC = replicate 6 0xff"

definition Ipv4 :: "u32 \<Rightarrow> u32 \<Rightarrow> u32 \<Rightarrow> u32 \<Rightarrow> u32" where
  "Ipv4 a0 a1 a2 a3 = push_bit 24 a0 OR push_bit 16 a1 OR push_bit 8 a2 OR a3"

definition BROADCAST_IPV4 :: u32 where
  "BROADCAST_IPV4 = Ipv4 0xff 0xff 0xff 0xff"

definition PROTOCOL_IPV4 :: u16 where "PROTOCOL_IPV4 = 0x800"
definition PROTOCOL_ARP :: u16 where "PROTOCOL_ARP = 0x806"
definition PROTOCOL_TCP :: u8 where "PROTOCOL_TCP = 6"
definition PROTOCOL_UDP :: u8 where "PROTOCOL_UDP = 17"
definition OPCODE_REQUEST :: u16 where "OPCODE_REQUEST = 1"
definition OPCODE_REPLY :: u16 where "OPCODE_REPLY = 2"
definition VERSION_AND_HEADER_LENGTH :: u8 where "VERSION_AND_HEADER_LENGTH = push_bit 4 4 OR 5"
definition FLAG_MORE_FRAGMENTS :: u16 where "FLAG_MORE_FRAGMENTS = 1"

lemmas net_consts = PROTOCOL_IPV4_def PROTOCOL_ARP_def PROTOCOL_TCP_def PROTOCOL_UDP_def
  OPCODE_REQUEST_def OPCODE_REPLY_def VERSION_AND_HEADER_LENGTH_def FLAG_MORE_FRAGMENTS_def

record arp_header =
  hardware_type :: u16
  protocol_type :: u16
  hardware_len :: u8
  protocol_len :: u8
  opcode :: u16
  src_hardware :: mac_addr
  src_protocol :: u32
  dst_hardware :: mac_addr
  dst_protocol :: u32

definition arp_bytes :: "arp_header \<Rightarrow> u8 list" where
  "arp_bytes h = be16_bytes (hardware_type h) @ be16_bytes (protocol_type h) @ [hardware_len h, protocol_len h] @
     be16_bytes (opcode h) @ src_hardware h @ be32_bytes (src_protocol h) @ dst_hardware h @ be32_bytes (dst_protocol h)"

definition arp_parse :: "u8 list \<Rightarrow> arp_header option" where
  "arp_parse bs = do {
     ht \<leftarrow> get16 bs 0; pt \<leftarrow> get16 bs 2; hl \<leftarrow> get8 bs 4; pl \<leftarrow> get8 bs 5; op \<leftarrow> get16 bs 6;
     sh \<leftarrow> mem_read bs 8 6; sp \<leftarrow> get32 bs 14; dh \<leftarrow> mem_read bs 18 6; dp \<leftarrow> get32 bs 24;
     Some \<lparr>hardware_type = ht, protocol_type = pt, hardware_len = hl, protocol_len = pl, opcode = op,
           src_hardware = sh, src_protocol = sp, dst_hardware = dh, dst_protocol = dp\<rparr> }"

record ipv4_header =
  version_and_header_length :: u8
  dscp_and_ecn :: u8
  packet_length :: u16
  ip_id :: u16
  flags_and_frag_offset :: u16
  time_to_live :: u8
  protocol :: u8
  header_checksum :: u16
  src_addr :: u32
  dst_addr :: u32

definition ipv4_bytes :: "ipv4_header \<Rightarrow> u8 list" where
  "ipv4_bytes h = [version_and_header_length h, dscp_and_ecn h] @ be16_bytes (packet_length h) @ be16_bytes (ip_id h) @
     be16_bytes (flags_and_frag_offset h) @ [time_to_live h, protocol h] @ be16_bytes (header_checksum h) @
     be32_bytes (src_addr h) @ be32_bytes (dst_addr h)"

definition ipv4_parse :: "u8 list \<Rightarrow> ipv4_header option" where
  "ipv4_parse bs = do {
     v \<leftarrow> get8 bs 0; d \<leftarrow> get8 bs 1; l \<leftarrow> get16 bs 2; i \<leftarrow> get16 bs 4; f \<leftarrow> get16 bs 6; t \<leftarrow> get8 bs 8; p \<leftarrow> get8 bs 9;
     c \<leftarrow> get16 bs 10; s \<leftarrow> get32 bs 12; e \<leftarrow> get32 bs 16;
     Some \<lparr>version_and_header_length = v, dscp_and_ecn = d, packet_length = l, ip_id = i, flags_and_frag_offset = f,
           time_to_live = t, protocol = p, header_checksum = c, src_addr = s, dst_addr = e\<rparr> }"

definition get_ip_flags :: "ipv4_header \<Rightarrow> u16" where
  "get_ip_flags h = drop_bit 13 (flags_and_frag_offset h) AND 7"

definition get_frag_offset :: "ipv4_header \<Rightarrow> u16" where
  "get_frag_offset h = push_bit 3 (flags_and_frag_offset h AND 0x1fff)"

definition set_flags_and_frag_offset :: "u16 \<Rightarrow> u16 \<Rightarrow> ipv4_header \<Rightarrow> ipv4_header" where
  "set_flags_and_frag_offset fl off h = h\<lparr>flags_and_frag_offset := push_bit 13 fl OR drop_bit 3 off\<rparr>"

record udp_header =
  udp_src_port :: u16
  udp_dst_port :: u16
  udp_length :: u16
  udp_checksum :: u16

definition udp_bytes :: "udp_header \<Rightarrow> u8 list" where
  "udp_bytes h = be16_bytes (udp_src_port h) @ be16_bytes (udp_dst_port h) @ be16_bytes (udp_length h) @
     be16_bytes (udp_checksum h)"

definition udp_parse :: "u8 list \<Rightarrow> udp_header option" where
  "udp_parse bs = do { s \<leftarrow> get16 bs 0; d \<leftarrow> get16 bs 2; l \<leftarrow> get16 bs 4; c \<leftarrow> get16 bs 6;
     Some \<lparr>udp_src_port = s, udp_dst_port = d, udp_length = l, udp_checksum = c\<rparr> }"

section \<open>Checksums\<close>

text \<open>
  The sum is a C \<^verbatim>\<open>int\<close>; it stays below \<open>2 ^ 31\<close> for up to \<open>65524\<close> bytes (\<open>checksum_fits_int\<close>). Words
  are read in the byte order of the machine, low byte first.
\<close>

fun partial_checksum :: "u8 list \<Rightarrow> nat" where
  "partial_checksum (a # b # bs) = (unat a + 256 * unat b) + partial_checksum bs"
| "partial_checksum [a] = unat a"
| "partial_checksum [] = 0"

text \<open>\<^verbatim>\<open>while (sum >> 16) sum = (sum & 0xffff) + (sum >> 16);\<close>\<close>

function fold_carry :: "nat \<Rightarrow> nat" where
  "fold_carry s = (if s div 65536 \<noteq> 0 then fold_carry (s mod 65536 + s div 65536) else s)"
  by pat_completeness auto
termination
proof (relation "measure id")
  fix s :: nat assume "s div 65536 \<noteq> 0"
  moreover have "s = s mod 65536 + 65536 * (s div 65536)" by simp
  ultimately show "(s mod 65536 + s div 65536, s) \<in> measure id" by (simp only: in_measure id_apply)
qed simp

declare fold_carry.simps [simp del]

definition compute_header_checksum :: "u8 list \<Rightarrow> u16 option" where
  "compute_header_checksum bs = do {
     hdr \<leftarrow> mem_read bs 0 20;
     Some (bswap16 (NOT (of_nat (fold_carry (partial_checksum hdr))))) }"

definition pseudo_header :: "u32 \<Rightarrow> u32 \<Rightarrow> u8 \<Rightarrow> nat \<Rightarrow> u8 list" where
  "pseudo_header src dst proto len = be32_bytes src @ be32_bytes dst @ [0, proto] @ be16_bytes (of_nat len)"

definition ipv4_transport_checksum :: "u8 list \<Rightarrow> nat \<Rightarrow> u32 \<Rightarrow> u32 \<Rightarrow> u8 \<Rightarrow> u16 option" where
  "ipv4_transport_checksum bs len src dst proto = do {
     seg \<leftarrow> mem_read bs 0 len;
     Some (bswap16 (NOT (of_nat (fold_carry (partial_checksum (pseudo_header src dst proto len) + partial_checksum seg))))) }"

section \<open>Interfaces, routes and sending\<close>

record iface =
  mac :: mac_addr
  mtu :: usize
  ipv4 :: u32
  ipv4_packet_id :: u32
  arp_cache :: "(u32, mac_addr) hash_table"

record route =
  r_interface :: "nat option"
  destination :: u32
  netmask :: u32
  gateway :: u32
  metric :: int

text \<open>A packet handed to the driver: the bytes after the Ethernet header, the address and the protocol for it.\<close>

record frame =
  payload :: "u8 list"
  target_mac :: mac_addr
  ethertype :: u16

definition no_route :: route where
  "no_route = \<lparr>r_interface = None, destination = 0, netmask = 0, gateway = 0, metric = 2 ^ 31 - 1\<rparr>"

fun lookup_route_loop :: "u32 \<Rightarrow> route \<Rightarrow> route list \<Rightarrow> route" where
  "lookup_route_loop ip chosen [] = chosen"
| "lookup_route_loop ip chosen (r # rs) =
     (if ip AND netmask r \<noteq> destination r AND netmask r then lookup_route_loop ip chosen rs
      else if metric r < metric chosen then lookup_route_loop ip r rs
      else lookup_route_loop ip chosen rs)"

definition lookup_route :: "route list \<Rightarrow> u32 \<Rightarrow> route" where
  "lookup_route rs ip = lookup_route_loop ip no_route rs"

text \<open>\<^verbatim>\<open>klib::hash\<close> of an address goes through its only conversion to a number, \<^verbatim>\<open>operator bool\<close>.\<close>

definition hash_ipv4 :: "u32 \<Rightarrow> u64" where
  "hash_ipv4 ip = hash_u64 (if ip \<noteq> 0 then 1 else 0)"

definition arp_send :: "iface \<Rightarrow> u16 \<Rightarrow> mac_addr \<Rightarrow> u32 \<Rightarrow> mac_addr \<Rightarrow> u32 \<Rightarrow> frame option" where
  "arp_send ifc op sh sp dh dp =
     (if 28 > mtu ifc then None
      else Some \<lparr>payload = arp_bytes \<lparr>hardware_type = 1, protocol_type = 0x0800, hardware_len = 6, protocol_len = 4,
                    opcode = op, src_hardware = sh, src_protocol = sp, dst_hardware = dh, dst_protocol = dp\<rparr>,
             target_mac = (if op = OPCODE_REPLY then dh else BROADCAST_MAC), ethertype = PROTOCOL_ARP\<rparr>)"

text \<open>\<open>later\<close> is the interface as the callback of the request finds it.\<close>

definition arp_lookup :: "iface \<Rightarrow> iface \<Rightarrow> u32 \<Rightarrow> (mac_addr res \<times> frame list) option" where
  "arp_lookup later ifc ip = do {
     c \<leftarrow> ht_lookup hash_ipv4 (arp_cache ifc) ip;
     case c of
       Some m \<Rightarrow> Some (Inr m, [])
     | None \<Rightarrow> do {
         f \<leftarrow> arp_send ifc OPCODE_REQUEST (mac ifc) (ipv4 ifc) (replicate 6 0) ip;
         c \<leftarrow> ht_lookup hash_ipv4 (arp_cache later) ip;
         case c of Some m \<Rightarrow> Some (Inr m, [f]) | None \<Rightarrow> Some (Inl ENETUNREACH, [f]) } }"

text \<open>The header and data of one fragment; \<^verbatim>\<open>alloc_packet\<close> asserts the size and is taken to find a page.\<close>

definition ipv4_send_fragment :: "iface \<Rightarrow> u8 list \<Rightarrow> u16 \<Rightarrow> bool \<Rightarrow> u32 \<Rightarrow> u16 \<Rightarrow> u8 \<Rightarrow> u8 list option" where
  "ipv4_send_fragment ifc frag off is_last target pid proto =
     (if of_nat (length frag) + 20 > mtu ifc then None
      else let h = set_flags_and_frag_offset (if is_last then 0 else FLAG_MORE_FRAGMENTS) off
                 \<lparr>version_and_header_length = VERSION_AND_HEADER_LENGTH, dscp_and_ecn = 0,
                  packet_length = of_nat (length frag + 20), ip_id = pid, flags_and_frag_offset = 0, time_to_live = 0xFF,
                  protocol = proto, header_checksum = 0, src_addr = ipv4 ifc, dst_addr = target\<rparr>
           in do { c \<leftarrow> compute_header_checksum (ipv4_bytes h);
                   Some (ipv4_bytes (h\<lparr>header_checksum := c\<rparr>) @ frag) })"

text \<open>
  The loop over the fragments: \<open>k\<close> more to send, the next at \<open>off\<close>. Length and offset of a fragment
  are truncated to the 16 bits of the parameters.
\<close>

fun send_fragments ::
  "iface \<Rightarrow> (frame \<Rightarrow> errno option) \<Rightarrow> u8 list \<Rightarrow> usize \<Rightarrow> u32 \<Rightarrow> mac_addr \<Rightarrow> u16 \<Rightarrow> u8 \<Rightarrow> nat \<Rightarrow> usize \<Rightarrow>
   (errno option \<times> frame list) option" where
  "send_fragments ifc drv dat maxlen target tmac pid proto 0 off = Some (None, [])"
| "send_fragments ifc drv dat maxlen target tmac pid proto (Suc k) off = do {
     let flen = kmin maxlen (of_nat (length dat) - off);
     frag \<leftarrow> mem_read dat (unat off) (unat (ucast flen :: u16));
     p \<leftarrow> ipv4_send_fragment ifc frag (ucast off) (k = 0) target pid proto;
     let f = \<lparr>payload = p, target_mac = tmac, ethertype = PROTOCOL_IPV4\<rparr>;
     case drv f of
       Some e \<Rightarrow> Some (Some e, [f])
     | None \<Rightarrow> do { (r, fs) \<leftarrow> send_fragments ifc drv dat maxlen target tmac pid proto k (off + maxlen);
                     Some (r, f # fs) } }"

text \<open>The position of the checksum in the two transport headers.\<close>

definition checksum_offset :: "u8 \<Rightarrow> nat option" where
  "checksum_offset proto = (if proto = PROTOCOL_UDP then Some 6 else if proto = PROTOCOL_TCP then Some 16 else None)"

record 'd net =
  routing_table :: "route list"
  ifaces :: "nat \<Rightarrow> iface"
  port_table :: "u16 \<Rightarrow> nat option"
  usocks :: "nat \<Rightarrow> 'd"

definition add_route :: "route \<Rightarrow> 'd net \<Rightarrow> 'd net" where
  "add_route r n = n\<lparr>routing_table := routing_table n @ [r]\<rparr>"

definition with_checksum :: "u8 list \<Rightarrow> u32 \<Rightarrow> u32 \<Rightarrow> u8 \<Rightarrow> u8 list option" where
  "with_checksum dat src dst proto =
     (case checksum_offset proto of
        None \<Rightarrow> Some dat
      | Some o' \<Rightarrow> do { c \<leftarrow> ipv4_transport_checksum dat (length dat) src dst proto; mem_write dat o' (be16_bytes c) })"

definition ipv4_send ::
  "(nat \<Rightarrow> iface) \<Rightarrow> (frame \<Rightarrow> errno option) \<Rightarrow> u8 list \<Rightarrow> u32 \<Rightarrow> u8 \<Rightarrow> bool \<Rightarrow> 'd net \<Rightarrow>
   (unit res \<times> frame list \<times> 'd net) option" where
  "ipv4_send later drv dat target proto compute n =
     (if target = BROADCAST_IPV4 then Some (Inl EHOSTUNREACH, [], n)
      else let r = lookup_route (routing_table n) target in
      case r_interface r of
        None \<Rightarrow> Some (Inl EHOSTUNREACH, [], n)
      | Some i \<Rightarrow> do {
          (m, fs) \<leftarrow> arp_lookup (later i) (ifaces n i) (if gateway r \<noteq> 0 then gateway r else target);
          case m of
            Inl e \<Rightarrow> Some (Inl e, fs, n)
          | Inr tmac \<Rightarrow> do {
              let ifc = (if fs = [] then ifaces n i else later i);
              dat \<leftarrow> (if compute then with_checksum dat (ipv4 ifc) target proto else Some dat);
              let n = n\<lparr>ifaces := (ifaces n)(i := ifc\<lparr>ipv4_packet_id := ipv4_packet_id ifc + 1\<rparr>)\<rparr>;
              let maxlen = align_down (mtu ifc - 20) 8;
              if maxlen = 0 then None
              else do {
                (e, gs) \<leftarrow> send_fragments ifc drv dat maxlen target tmac (ucast (ipv4_packet_id ifc)) proto
                             (unat (of_nat (length dat) div maxlen + 1)) 0;
                Some (case e of None \<Rightarrow> Inr () | Some e \<Rightarrow> Inl e, fs @ gs, n) } } })"

section \<open>Reading back what was written\<close>

lemma be16_join [simp]: "push_bit 8 (ucast (ucast (drop_bit 8 x) :: u8)) OR ucast (ucast x :: u8) = (x :: u16)"
  by (rule bit_word_eqI) (auto simp: bit_simps)

lemma be32_join [simp]:
  "push_bit 16 (ucast (push_bit 8 (ucast (ucast (drop_bit 24 x) :: u8)) OR ucast (ucast (drop_bit 16 x) :: u8) :: u16)) OR
   ucast (push_bit 8 (ucast (ucast (drop_bit 8 x) :: u8)) OR ucast (ucast x :: u8) :: u16) = (x :: u32)"
proof (rule bit_word_eqI)
  fix n assume "n < LENGTH(32)"
  then consider "n < 8" | "8 \<le> n" "n < 16" | "16 \<le> n" "n < 24" | "24 \<le> n" "n < 32" by fastforce
  then show "bit (push_bit 16 (ucast (push_bit 8 (ucast (ucast (drop_bit 24 x) :: u8)) OR
      ucast (ucast (drop_bit 16 x) :: u8) :: u16)) OR
      ucast (push_bit 8 (ucast (ucast (drop_bit 8 x) :: u8)) OR ucast (ucast x :: u8) :: u16) :: u32) n = bit x n"
    by cases (auto simp: bit_simps)
qed

lemmas get_fields = get8_def get16_def get32_def rd_def be16_bytes_def be32_bytes_def

lemma ipv4_parse_bytes [simp]: "ipv4_parse (ipv4_bytes h @ bs) = Some h"
  by (simp add: ipv4_parse_def ipv4_bytes_def get_fields)

lemma udp_parse_bytes [simp]: "udp_parse (udp_bytes h @ bs) = Some h"
  by (simp add: udp_parse_def udp_bytes_def get_fields)

lemma length_bytes [simp]:
  "length (be16_bytes x) = 2" "length (be32_bytes y) = 4" "length (ipv4_bytes h) = 20" "length (udp_bytes u) = 8"
  "length (pseudo_header src dst proto len) = 12"
  by (simp_all add: be16_bytes_def be32_bytes_def ipv4_bytes_def udp_bytes_def pseudo_header_def)

section \<open>Checksums verify\<close>

lemma fold_carry_le: "fold_carry s \<le> 65535"
proof (induction s rule: fold_carry.induct)
  case (1 s)
  then show ?case by (subst fold_carry.simps) (simp add: div_eq_0_iff)
qed

lemma fold_carry_mod: "fold_carry s mod 65535 = s mod 65535"
proof (induction s rule: fold_carry.induct)
  case (1 s)
  have "(s mod 65536 + s div 65536) mod 65535 = s mod 65535"
  proof -
    have "s = (s mod 65536 + s div 65536) + 65535 * (s div 65536)" by simp
    then show ?thesis by (metis mod_mult_self2)
  qed
  then show ?case using 1 by (subst fold_carry.simps) simp
qed

lemma fold_carry_pos: "0 < s \<Longrightarrow> 0 < fold_carry s"
proof (induction s rule: fold_carry.induct)
  case (1 s)
  then show ?case by (subst fold_carry.simps) (auto simp: div_greater_zero_iff)
qed

text \<open>Adding the complement of the folded sum makes the folded sum all ones.\<close>

lemma fold_carry_complement: "fold_carry (s + (65535 - fold_carry s)) = 65535"
proof -
  let ?t = "s + (65535 - fold_carry s)"
  have "(?t + fold_carry s) mod 65535 = s mod 65535"
    using fold_carry_le[of s] by simp
  then have "(?t + s) mod 65535 = s mod 65535"
    by (metis fold_carry_mod mod_add_right_eq)
  then have "65535 dvd ?t" using mod_eq_dvd_iff_nat[of s "?t + s" 65535] by simp
  then have "?t mod 65535 = 0" by simp
  then have "fold_carry ?t mod 65535 = 0" by (simp add: fold_carry_mod)
  moreover have "0 < ?t" using fold_carry_pos[of s] fold_carry_le[of s] fold_carry.simps[of 0] by (cases "s = 0") auto
  then have "0 < fold_carry ?t" by (rule fold_carry_pos)
  ultimately show ?thesis using fold_carry_le[of ?t] by (metis le_neq_implies_less mod_less not_less_iff_gr_or_eq)
qed

lemma partial_checksum_append:
  "even (length xs) \<Longrightarrow> partial_checksum (xs @ ys) = partial_checksum xs + partial_checksum ys"
  by (induction xs rule: partial_checksum.induct) auto

lemma partial_checksum_le: "partial_checksum bs \<le> 65535 * ((length bs + 1) div 2)"
proof (induction bs rule: partial_checksum.induct)
  case (1 a b bs)
  have "unat a < 256" "unat b < 256" using unsigned_less[of a] unsigned_less[of b] by simp_all
  then have "unat a + 256 * unat b \<le> 65535" by linarith
  with 1 show ?case by simp
next
  case (2 a)
  have "unat a < 256" using unsigned_less[of a] by simp
  then show ?case by simp
qed simp

lemma unat_u8_u16: "unat (ucast (y :: u8) :: u16) = unat y"
proof -
  have "unat y < 256" using unsigned_less[of y] by simp
  then have "unat y < 2 ^ 16" by simp
  then show ?thesis by (simp add: unsigned_ucast_eq take_bit_nat_eq_self)
qed

lemma checksum_word: "unat (ucast (drop_bit 8 c) :: u8) + 256 * unat (ucast c :: u8) = unat (bswap16 c)"
proof -
  have "bswap16 c = ucast (ucast (drop_bit 8 c) :: u8) OR push_bit 8 (ucast (ucast c :: u8))"
    by (rule bit_word_eqI) (auto simp: bswap16_def bit_simps dest: bit_imp_le_length)
  also have "\<dots> = ucast (ucast (drop_bit 8 c) :: u8) + push_bit 8 (ucast (ucast c :: u8))"
    by (rule disjunctive_add [symmetric]) (auto simp: bit_simps)
  finally have e: "bswap16 c = ucast (ucast (drop_bit 8 c) :: u8) + 256 * ucast (ucast c :: u8)"
    by (simp add: push_bit_eq_mult)
  have "unat (ucast (drop_bit 8 c) :: u8) < 256" "unat (ucast c :: u8) < 256"
    using unsigned_less[of "ucast (drop_bit 8 c) :: u8"] unsigned_less[of "ucast c :: u8"] by simp_all
  then show ?thesis by (simp add: e unat_word_ariths unat_u8_u16)
qed

lemma partial_checksum_be16: "partial_checksum (be16_bytes c) = unat (bswap16 c)"
  using checksum_word[of c] by (simp add: be16_bytes_def)

lemma unat_numeral_u16: "unat (65535 :: u16) = 65535"
  by simp

lemma unat_not: "unat (NOT x :: u16) = 65535 - unat x"
proof -
  have "NOT x = - 1 - x" by (simp add: not_eq_complement)
  moreover have "x \<le> - 1" by simp
  ultimately have "unat (NOT x) = unat (- 1 :: u16) - unat x" by (simp add: unat_sub)
  moreover have "(- 1 :: u16) = 65535" by simp
  ultimately show ?thesis by (metis unat_numeral_u16)
qed

lemma checksum_field:
  assumes "c = bswap16 (NOT (of_nat (fold_carry s)))"
  shows "partial_checksum (be16_bytes c) = 65535 - fold_carry s"
proof -
  have "unat (of_nat (fold_carry s) :: u16) = fold_carry s" using fold_carry_le[of s] by (simp add: unat_of_nat)
  then have "unat (NOT (of_nat (fold_carry s)) :: u16) = 65535 - fold_carry s"
    by (simp add: unat_not)
  then show ?thesis using assms by (simp add: partial_checksum_be16)
qed

lemma checksum_verifies:
  assumes "c = bswap16 (NOT (of_nat (fold_carry s)))"
  shows "bswap16 (NOT (of_nat (fold_carry (s + partial_checksum (be16_bytes c)))) :: u16) = 0"
proof -
  have "fold_carry (s + partial_checksum (be16_bytes c)) = 65535"
    using checksum_field[OF assms] fold_carry_complement by simp
  then show ?thesis by (simp add: bswap16_def)
qed

lemma partial_checksum_zero: "partial_checksum (be16_bytes 0) = 0"
  by (simp add: be16_bytes_def)

text \<open>A header whose checksum field was filled from the header with a zero field passes the check.\<close>

lemma ipv4_bytes_split:
  "\<exists>a b. (\<forall>c. ipv4_bytes (h\<lparr>header_checksum := c\<rparr>) = a @ be16_bytes c @ b) \<and> length a = 10 \<and> length b = 8"
  by (rule exI[of _ "take 10 (ipv4_bytes h)"], rule exI[of _ "drop 12 (ipv4_bytes h)"])
    (simp add: ipv4_bytes_def be16_bytes_def be32_bytes_def)

lemma compute_header_checksum_bytes:
  "compute_header_checksum (ipv4_bytes h @ bs) =
     Some (bswap16 (NOT (of_nat (fold_carry (partial_checksum (ipv4_bytes h))))))"
  by (simp add: compute_header_checksum_def)

lemma ipv4_header_verifies:
  assumes "compute_header_checksum (ipv4_bytes (h\<lparr>header_checksum := 0\<rparr>)) = Some c"
  shows "compute_header_checksum (ipv4_bytes (h\<lparr>header_checksum := c\<rparr>) @ bs) = Some 0"
proof -
  obtain a b where ab: "\<And>c. ipv4_bytes (h\<lparr>header_checksum := c\<rparr>) = a @ be16_bytes c @ b" "length a = 10"
    using ipv4_bytes_split[of h] by blast
  have p: "partial_checksum (a @ be16_bytes c @ b) = partial_checksum a + partial_checksum b + partial_checksum (be16_bytes c)" for c
    using ab(2) by (simp add: partial_checksum_append)
  have "c = bswap16 (NOT (of_nat (fold_carry (partial_checksum a + partial_checksum b))))"
    using assms compute_header_checksum_bytes[of "h\<lparr>header_checksum := 0\<rparr>" "[]"] p[of 0] ab(1)
    by (simp add: partial_checksum_zero)
  from checksum_verifies[OF this] show ?thesis
    by (subst compute_header_checksum_bytes) (simp only: ab(1) p)
qed

text \<open>The same for a transport segment whose checksum field, at an even position, is zero.\<close>

lemma transport_checksum_verifies:
  assumes "even (length a)"
    and c: "ipv4_transport_checksum (a @ be16_bytes 0 @ b) (length a + 2 + length b) src dst proto = Some c"
  shows "ipv4_transport_checksum (a @ be16_bytes c @ b) (length a + 2 + length b) src dst proto = Some 0"
proof -
  let ?p = "partial_checksum (pseudo_header src dst proto (length a + 2 + length b))"
  have t: "ipv4_transport_checksum (a @ be16_bytes x @ b) (length a + 2 + length b) src dst proto =
      Some (bswap16 (NOT (of_nat (fold_carry (?p + partial_checksum a + partial_checksum b + partial_checksum (be16_bytes x))))))" for x
    using assms(1) by (simp add: ipv4_transport_checksum_def partial_checksum_append ac_simps)
  have "c = bswap16 (NOT (of_nat (fold_carry (?p + partial_checksum a + partial_checksum b))))"
    using c t[of 0] by (simp add: partial_checksum_zero)
  from checksum_verifies[OF this] show ?thesis by (simp only: t)
qed

text \<open>The sum of a segment and its pseudo header fits a C \<^verbatim>\<open>int\<close>.\<close>

lemma checksum_fits_int:
  assumes "length bs \<le> 65524"
  shows "partial_checksum (pseudo_header src dst proto len) + partial_checksum bs < 2 ^ 31"
proof -
  have "partial_checksum (pseudo_header src dst proto len) \<le> 65535 * 6"
    using partial_checksum_le[of "pseudo_header src dst proto len"] by simp
  moreover have "(length bs + 1) div 2 \<le> 32762" using assms by linarith
  then have "65535 * ((length bs + 1) div 2) \<le> 65535 * (32762 :: nat)" by simp
  with partial_checksum_le[of bs] have "partial_checksum bs \<le> 65535 * 32762" by linarith
  ultimately show ?thesis by simp
qed

section \<open>Fragments\<close>

lemma frag_fields:
  assumes "take_bit 3 off = (0 :: u16)" "fl = 0 \<or> fl = 1"
  shows "get_frag_offset (set_flags_and_frag_offset fl off h) = off"
    and "get_ip_flags (set_flags_and_frag_offset fl off h) = fl"
proof -
  have z: "bit off n \<Longrightarrow> 3 \<le> n" for n
    using assms(1) by (metis bit_take_bit_iff bit_0_eq bot_apply bot_bool_def not_le)
  have m: "(0x1fff :: u16) = mask 13" "(7 :: u16) = mask 3" by (simp_all add: mask_eq_exp_minus_1)
  show "get_frag_offset (set_flags_and_frag_offset fl off h) = off"
    using assms(2) z unfolding get_frag_offset_def set_flags_and_frag_offset_def m
    by (intro bit_word_eqI) (auto simp: bit_simps)
  show "get_ip_flags (set_flags_and_frag_offset fl off h) = fl"
    using assms(2) unfolding get_ip_flags_def set_flags_and_frag_offset_def m
    by (intro bit_word_eqI) (auto simp: bit_simps dest: bit_imp_le_length)
qed

lemma fragment_packet:
  assumes "length frag + 20 \<le> unat (mtu ifc)" "length frag < 65516" "take_bit 3 off = 0"
  shows "\<exists>h. ipv4_send_fragment ifc frag off lst target pid proto = Some (ipv4_bytes h @ frag) \<and>
     compute_header_checksum (ipv4_bytes h @ frag) = Some 0 \<and>
     version_and_header_length h = VERSION_AND_HEADER_LENGTH \<and>
     get_frag_offset h = off \<and> get_ip_flags h = (if lst then 0 else FLAG_MORE_FRAGMENTS) \<and>
     unat (packet_length h) = length frag + 20 \<and> protocol h = proto \<and> src_addr h = ipv4 ifc \<and> dst_addr h = target"
proof -
  define fl where "fl = (if lst then 0 else FLAG_MORE_FRAGMENTS)"
  define h where "h = set_flags_and_frag_offset fl off
                 \<lparr>version_and_header_length = VERSION_AND_HEADER_LENGTH, dscp_and_ecn = 0,
                  packet_length = of_nat (length frag + 20), ip_id = pid, flags_and_frag_offset = 0, time_to_live = 0xFF,
                  protocol = proto, header_checksum = 0, src_addr = ipv4 ifc, dst_addr = target\<rparr>"
  have fl: "fl = 0 \<or> fl = 1" by (simp add: fl_def FLAG_MORE_FRAGMENTS_def)
  obtain c where c: "compute_header_checksum (ipv4_bytes h) = Some c"
    using compute_header_checksum_bytes[of h "[]"] by simp
  have z: "h\<lparr>header_checksum := 0\<rparr> = h" by (simp add: h_def set_flags_and_frag_offset_def)
  have u: "unat (of_nat (length frag) + 20 :: usize) = length frag + 20"
    using assms(2) by (simp add: unat_word_ariths unat_of_nat)
  have "\<not> of_nat (length frag) + 20 > mtu ifc" using assms(1) u by (simp add: word_less_nat_alt)
  then have s: "ipv4_send_fragment ifc frag off lst target pid proto = Some (ipv4_bytes (h\<lparr>header_checksum := c\<rparr>) @ frag)"
    using c by (simp add: ipv4_send_fragment_def h_def fl_def Let_def)
  have l: "unat (of_nat (length frag + 20) :: u16) = length frag + 20"
    using assms(2) by (subst unat_of_nat) simp
  have "get_frag_offset (h\<lparr>header_checksum := c\<rparr>) = get_frag_offset h" "get_ip_flags (h\<lparr>header_checksum := c\<rparr>) = get_ip_flags h"
    by (simp_all add: get_frag_offset_def get_ip_flags_def)
  moreover have "get_frag_offset h = off" "get_ip_flags h = fl"
    unfolding h_def using frag_fields[OF assms(3) fl] by blast+
  ultimately show ?thesis using s ipv4_header_verifies[of h c frag] c z l
    by (intro exI[of _ "h\<lparr>header_checksum := c\<rparr>"]) (simp add: h_def set_flags_and_frag_offset_def fl_def)
qed

text \<open>The whole loop, from a position that is a multiple of eight.\<close>

definition frames_carry :: "iface \<Rightarrow> nat \<Rightarrow> u32 \<Rightarrow> u8 \<Rightarrow> nat \<Rightarrow> frame list \<Rightarrow> bool" where
  "frames_carry ifc m target proto off fs \<longleftrightarrow>
     (\<forall>i < length fs. \<exists>h. payload (fs ! i) = ipv4_bytes h @ drop 20 (payload (fs ! i)) \<and>
        compute_header_checksum (payload (fs ! i)) = Some 0 \<and>
        version_and_header_length h = VERSION_AND_HEADER_LENGTH \<and>
        unat (get_frag_offset h) = off + i * m \<and>
        get_ip_flags h = (if i + 1 = length fs then 0 else FLAG_MORE_FRAGMENTS) \<and>
        unat (packet_length h) = length (payload (fs ! i)) \<and> length (payload (fs ! i)) \<le> unat (mtu ifc) \<and>
        protocol h = proto \<and> src_addr h = ipv4 ifc \<and> dst_addr h = target)"

lemma frames_carry_Cons:
  assumes "frames_carry ifc m target proto (off + m) fs" "payload f = ipv4_bytes h @ frag"
    "compute_header_checksum (ipv4_bytes h @ frag) = Some 0"
    "version_and_header_length h = VERSION_AND_HEADER_LENGTH" "unat (get_frag_offset h) = off"
    "get_ip_flags h = (if fs = [] then 0 else FLAG_MORE_FRAGMENTS)" "unat (packet_length h) = length frag + 20"
    "length frag + 20 \<le> unat (mtu ifc)" "protocol h = proto" "src_addr h = ipv4 ifc" "dst_addr h = target"
  shows "frames_carry ifc m target proto off (f # fs)"
  unfolding frames_carry_def
proof (intro allI impI)
  fix i assume i: "i < length (f # fs)"
  show "\<exists>h. payload ((f # fs) ! i) = ipv4_bytes h @ drop 20 (payload ((f # fs) ! i)) \<and>
        compute_header_checksum (payload ((f # fs) ! i)) = Some 0 \<and>
        version_and_header_length h = VERSION_AND_HEADER_LENGTH \<and>
        unat (get_frag_offset h) = off + i * m \<and>
        get_ip_flags h = (if i + 1 = length (f # fs) then 0 else FLAG_MORE_FRAGMENTS) \<and>
        unat (packet_length h) = length (payload ((f # fs) ! i)) \<and>
        length (payload ((f # fs) ! i)) \<le> unat (mtu ifc) \<and>
        protocol h = proto \<and> src_addr h = ipv4 ifc \<and> dst_addr h = target"
  proof (cases i)
    case 0
    then show ?thesis using assms(2-) by (intro exI[of _ h]) auto
  next
    case (Suc j)
    then have "j < length fs" using i by simp
    with assms(1) Suc show ?thesis by (auto simp: frames_carry_def add.assoc)
  qed
qed

lemma send_fragment_step:
  assumes "\<forall>f. drv f = None" "length dat < 65516" "unat maxlen = m" "m + 20 \<le> unat (mtu ifc)"
    and "8 dvd off" "off \<le> length dat" and frag: "frag = take (min m (length dat - off)) (drop off dat)"
  shows "\<exists>h. send_fragments ifc drv dat maxlen target tmac pid proto (Suc k) (of_nat off) =
      map_option (\<lambda>(r, fs). (r, \<lparr>payload = ipv4_bytes h @ frag, target_mac = tmac, ethertype = PROTOCOL_IPV4\<rparr> # fs))
        (send_fragments ifc drv dat maxlen target tmac pid proto k (of_nat (off + m))) \<and>
     compute_header_checksum (ipv4_bytes h @ frag) = Some 0 \<and>
     version_and_header_length h = VERSION_AND_HEADER_LENGTH \<and>
     unat (get_frag_offset h) = off \<and> get_ip_flags h = (if k = 0 then 0 else FLAG_MORE_FRAGMENTS) \<and>
     unat (packet_length h) = length frag + 20 \<and> protocol h = proto \<and> src_addr h = ipv4 ifc \<and> dst_addr h = target"
proof -
  let ?flen = "kmin maxlen (of_nat (length dat) - of_nat off)"
  have off: "unat (of_nat off :: usize) = off" "unat (of_nat off :: u16) = off"
    using assms(2,6) by (simp_all add: unat_of_nat)
  have "unat (of_nat (length dat) - of_nat off :: usize) = length dat - off"
    using assms(2,6) by (subst unat_sub) (simp_all add: unat_of_nat word_le_nat_alt)
  then have u: "unat ?flen = min m (length dat - off)" using assms(3) by (simp add: unat_kmin)
  moreover have "unat (ucast ?flen :: u16) = unat ?flen"
    using assms(2) u by (simp add: unsigned_ucast_eq take_bit_nat_eq_self)
  ultimately have r: "mem_read dat off (unat (ucast ?flen :: u16)) = Some frag"
    using frag assms(6) by simp
  have c: "(ucast (of_nat off :: usize) :: u16) = of_nat off" 
    using assms(2,6) by (simp add: unsigned_of_nat take_bit_nat_eq_self)
  have "take_bit 3 (of_nat off :: u16) = of_nat (off mod 8)" 
    by (simp only: take_bit_of_nat take_bit_eq_mod[of 3 off]) simp
  then have t: "take_bit 3 (of_nat off :: u16) = 0" using assms(5) by simp
  have "length frag + 20 \<le> unat (mtu ifc)" "length frag < 65516" using frag assms(2,4) by auto
  from fragment_packet[OF this t, of "k = 0" target pid proto] obtain h where
    h: "ipv4_send_fragment ifc frag (of_nat off) (k = 0) target pid proto = Some (ipv4_bytes h @ frag)"
      "compute_header_checksum (ipv4_bytes h @ frag) = Some 0" "version_and_header_length h = VERSION_AND_HEADER_LENGTH"
      "get_frag_offset h = of_nat off" "get_ip_flags h = (if k = 0 then 0 else FLAG_MORE_FRAGMENTS)"
      "unat (packet_length h) = length frag + 20" "protocol h = proto" "src_addr h = ipv4 ifc" "dst_addr h = target"
    by blast
  have m: "of_nat off + maxlen = of_nat (off + m)" using assms(3) by (metis of_nat_add of_nat_unat ucast_id)
  show ?thesis using h off assms(1)
    by (intro exI[of _ h]) (auto simp: r c m Let_def map_option_case split: option.splits)
qed

lemma send_fragments_carry:
  assumes drv: "\<forall>f. drv f = None" and len: "length dat < 65516" and m: "unat maxlen = m" "8 dvd m" "m + 20 \<le> unat (mtu ifc)"
  shows "8 dvd off \<Longrightarrow> off + k * m \<le> length dat \<Longrightarrow> length dat < off + Suc k * m \<Longrightarrow>
    \<exists>fs. send_fragments ifc drv dat maxlen target tmac pid proto (Suc k) (of_nat off) = Some (None, fs) \<and>
         length fs = Suc k \<and> concat (map (\<lambda>f. drop 20 (payload f)) fs) = drop off dat \<and>
         (\<forall>f\<in>set fs. target_mac f = tmac \<and> ethertype f = PROTOCOL_IPV4) \<and> frames_carry ifc m target proto off fs"
proof (induction k arbitrary: off)
  case (0 off)
  then have off: "off \<le> length dat" "min m (length dat - off) = length dat - off" by simp_all
  from send_fragment_step[OF drv len m(1,3) 0(1) off(1) refl, where target = target and tmac = tmac and pid = pid and proto = proto and k = 0] obtain h where
    h: "send_fragments ifc drv dat maxlen target tmac pid proto (Suc 0) (of_nat off) =
        Some (None, [\<lparr>payload = ipv4_bytes h @ drop off dat, target_mac = tmac, ethertype = PROTOCOL_IPV4\<rparr>])"
      "compute_header_checksum (ipv4_bytes h @ drop off dat) = Some 0"
      "version_and_header_length h = VERSION_AND_HEADER_LENGTH"
      "unat (get_frag_offset h) = off" "get_ip_flags h = 0"
      "unat (packet_length h) = length (drop off dat) + 20" "protocol h = proto" "src_addr h = ipv4 ifc" "dst_addr h = target"
    by (auto simp: off(2) simp del: send_fragments.simps(2))
  have "length (drop off dat) + 20 \<le> unat (mtu ifc)" using off(2) m(3) by simp
  moreover have "frames_carry ifc m target proto (off + m) []" by (simp add: frames_carry_def)
  ultimately show ?case using h frames_carry_Cons[of ifc m target proto off "[]" _ h "drop off dat"] by (simp del: send_fragments.simps)
next
  case (Suc k off)
  have off: "off \<le> length dat" "min m (length dat - off) = m" using Suc.prems by simp_all
  let ?frag = "take m (drop off dat)"
  from send_fragment_step[OF drv len m(1,3) Suc.prems(1) off(1) refl, where target = target and tmac = tmac and pid = pid and proto = proto and k = "Suc k"] obtain h where
    h: "send_fragments ifc drv dat maxlen target tmac pid proto (Suc (Suc k)) (of_nat off) =
        map_option (\<lambda>(r, fs). (r, \<lparr>payload = ipv4_bytes h @ ?frag, target_mac = tmac, ethertype = PROTOCOL_IPV4\<rparr> # fs))
          (send_fragments ifc drv dat maxlen target tmac pid proto (Suc k) (of_nat (off + m)))"
      "compute_header_checksum (ipv4_bytes h @ ?frag) = Some 0"
      "version_and_header_length h = VERSION_AND_HEADER_LENGTH"
      "unat (get_frag_offset h) = off" "get_ip_flags h = FLAG_MORE_FRAGMENTS"
      "unat (packet_length h) = length ?frag + 20" "protocol h = proto" "src_addr h = ipv4 ifc" "dst_addr h = target"
    unfolding off(2) by (auto simp del: send_fragments.simps)
  have d: "8 dvd off + m" using Suc.prems(1) m(2) by simp
  obtain fs where
    fs: "send_fragments ifc drv dat maxlen target tmac pid proto (Suc k) (of_nat (off + m)) = Some (None, fs)"
      "length fs = Suc k" "concat (map (\<lambda>f. drop 20 (payload f)) fs) = drop (off + m) dat"
      "\<forall>f\<in>set fs. target_mac f = tmac \<and> ethertype f = PROTOCOL_IPV4" "frames_carry ifc m target proto (off + m) fs"
    using Suc.IH[OF d] Suc.prems by (auto simp: algebra_simps simp del: send_fragments.simps)
  have "length ?frag + 20 \<le> unat (mtu ifc)" "fs \<noteq> []" using m(3) fs(2) by auto
  moreover have "?frag @ drop (off + m) dat = drop off dat" by (metis append_take_drop_id drop_drop add.commute)
  ultimately show ?case using h fs frames_carry_Cons[OF fs(5), of _ h ?frag]
    by (auto simp del: send_fragments.simps)
qed

lemma max_fragment_length:
  assumes "28 \<le> unat t"
  shows "unat (align_down (t - 20) 8) = (unat t - 20) div 8 * 8" and "8 \<le> unat (align_down (t - 20) 8)"
proof -
  have "(20 :: usize) \<le> t" using assms by (simp add: word_le_nat_alt)
  then have u: "unat (t - 20) = unat t - 20" by (simp add: unat_sub)
  show "unat (align_down (t - 20) 8) = (unat t - 20) div 8 * 8" using unat_align_down[of 8 "t - 20"] u by simp
  then show "8 \<le> unat (align_down (t - 20) 8)" using assms by simp
qed

lemma with_checksum_udp:
  assumes "length a = 6"
  shows "\<exists>c. with_checksum (a @ be16_bytes 0 @ b) src dst PROTOCOL_UDP = Some (a @ be16_bytes c @ b) \<and>
             ipv4_transport_checksum (a @ be16_bytes c @ b) (8 + length b) src dst PROTOCOL_UDP = Some 0"
proof -
  obtain c where c: "ipv4_transport_checksum (a @ be16_bytes 0 @ b) (length a + 2 + length b) src dst PROTOCOL_UDP = Some c"
    using assms by (simp add: ipv4_transport_checksum_def)
  have "with_checksum (a @ be16_bytes 0 @ b) src dst PROTOCOL_UDP = Some (a @ be16_bytes c @ b)"
    using c assms by (simp add: with_checksum_def checksum_offset_def mem_write_def)
  moreover have "even (length a)" using assms by simp
  from transport_checksum_verifies[OF this c] have
    "ipv4_transport_checksum (a @ be16_bytes c @ b) (8 + length b) src dst PROTOCOL_UDP = Some 0"
    using assms by simp
  ultimately show ?thesis by blast
qed

lemma lookup_route_loop_best:
  "\<forall>r \<in> set rs. ip AND netmask r = destination r AND netmask r \<longrightarrow> metric (lookup_route_loop ip ch rs) \<le> metric r"
  "metric (lookup_route_loop ip ch rs) \<le> metric ch"
  "lookup_route_loop ip ch rs = ch \<or> lookup_route_loop ip ch rs \<in> set rs \<and>
     ip AND netmask (lookup_route_loop ip ch rs) = destination (lookup_route_loop ip ch rs) AND netmask (lookup_route_loop ip ch rs)"
proof (induction rs arbitrary: ch)
  case (Cons r rs)
  { case 1 show ?case using Cons.IH(1,2)[of r] Cons.IH(1,2)[of ch] by (auto intro: order_trans)
  next
    case 2 show ?case using Cons.IH(2)[of r] Cons.IH(2)[of ch] by auto
  next
    case 3 show ?case using Cons.IH(3)[of r] Cons.IH(3)[of ch] by auto }
qed simp_all

section \<open>Sending a UDP segment\<close>

lemma ipv4_send_udp:
  assumes "target \<noteq> BROADCAST_IPV4" and r: "r = lookup_route (routing_table n) target" "r_interface r = Some i"
    and arp: "ht_lookup hash_ipv4 (arp_cache (ifaces n i)) (if gateway r \<noteq> 0 then gateway r else target) = Some (Some tmac)"
    and drv: "\<forall>f. drv f = None"
    and mtu: "28 \<le> unat (mtu (ifaces n i))"
    and dat: "dat = a @ be16_bytes 0 @ b" "length a = 6" "length dat < 65516"
  shows "\<exists>c fs n'. ipv4_send later drv dat target PROTOCOL_UDP True n = Some (Inr (), fs, n') \<and>
     length fs = Suc (length dat div ((unat (mtu (ifaces n i)) - 20) div 8 * 8)) \<and>
     (\<forall>f\<in>set fs. target_mac f = tmac \<and> ethertype f = PROTOCOL_IPV4) \<and>
     frames_carry (ifaces n i) ((unat (mtu (ifaces n i)) - 20) div 8 * 8) target PROTOCOL_UDP 0 fs \<and>
     concat (map (\<lambda>f. drop 20 (payload f)) fs) = a @ be16_bytes c @ b \<and>
     ipv4_transport_checksum (a @ be16_bytes c @ b) (length dat) (ipv4 (ifaces n i)) target PROTOCOL_UDP = Some 0 \<and>
     r \<in> set (routing_table n) \<and> target AND netmask r = destination r AND netmask r \<and>
     (\<forall>q\<in>set (routing_table n). target AND netmask q = destination q AND netmask q \<longrightarrow> metric r \<le> metric q)"
proof -
  let ?ifc = "ifaces n i"
  let ?max = "align_down (mtu ?ifc - 20) 8" and ?m = "(unat (mtu ?ifc) - 20) div 8 * 8"
  note max = max_fragment_length[OF mtu]
  obtain c D where c: "with_checksum dat (ipv4 ?ifc) target PROTOCOL_UDP = Some D" and D: "D = a @ be16_bytes c @ b"
    "ipv4_transport_checksum (a @ be16_bytes c @ b) (8 + length b) (ipv4 ?ifc) target PROTOCOL_UDP = Some 0"
    using with_checksum_udp[OF dat(2)] dat(1) by blast
  let ?k = "length D div ?m"
  have pos: "0 < ?m" "?m + 20 \<le> unat (mtu ?ifc)" "8 dvd ?m" using max mtu by auto
  have fit: "0 + ?k * ?m \<le> length D" "length D < 0 + Suc ?k * ?m"
    using pos(1) by (simp, metis add_0 dividend_less_div_times mult.commute mult_Suc add.commute)
  have lt: "length D < 65516" using dat D by simp
  have k: "unat (of_nat (length D) div ?max + 1) = Suc ?k"
  proof -
    have "unat (of_nat (length D) :: usize) = length D" using lt by (simp add: unat_of_nat)
    then have d: "unat (of_nat (length D) div ?max) = ?k" using max(1) by (simp add: unat_div)
    moreover have "?k < 65516" using lt by (metis div_le_dividend le_less_trans)
    ultimately show ?thesis by (subst unat_add_no_wrap) simp_all
  qed
  obtain fs where fs: "send_fragments ?ifc drv D ?max target tmac (ucast (ipv4_packet_id ?ifc)) PROTOCOL_UDP (Suc ?k) 0 = Some (None, fs)"
    "length fs = Suc ?k" "concat (map (\<lambda>f. drop 20 (payload f)) fs) = D" "\<forall>f\<in>set fs. target_mac f = tmac \<and> ethertype f = PROTOCOL_IPV4"
    "frames_carry ?ifc ?m target PROTOCOL_UDP 0 fs"
    using send_fragments_carry[OF drv lt max(1) pos(3,2) dvd_0_right fit, where target = target and tmac = tmac
        and proto = PROTOCOL_UDP and pid = "ucast (ipv4_packet_id ?ifc)"] by (auto simp del: send_fragments.simps)
  have "?max \<noteq> 0" using max(2) by auto
  moreover have "arp_lookup (later i) ?ifc (if gateway r \<noteq> 0 then gateway r else target) = Some (Inr tmac, [])"
    using arp by (simp add: arp_lookup_def)
  ultimately have "\<exists>n'. ipv4_send later drv dat target PROTOCOL_UDP True n = Some (Inr (), fs, n')"
    using assms(1) r(2) c fs(1) k by (simp add: ipv4_send_def Let_def r(1)[symmetric] del: send_fragments.simps split del: if_split)
  moreover have "r \<in> set (routing_table n) \<and> target AND netmask r = destination r AND netmask r"
    using lookup_route_loop_best(3)[of target no_route "routing_table n"] r by (auto simp: lookup_route_def no_route_def)
  ultimately show ?thesis using fs D dat lookup_route_loop_best(1)[where ip = target and ch = no_route and rs = "routing_table n"] r(1)
    unfolding lookup_route_def by auto
qed

section \<open>Properties\<close>

text \<open>An interface that knows one neighbour, and a route to it.\<close>

definition example_mac :: mac_addr where
  "example_mac = [2, 0, 0, 0, 0, 1]"

definition example_iface :: iface where
  "example_iface = \<lparr>mac = [2, 0, 0, 0, 0, 2], mtu = 1500, ipv4 = 0x0A000001, ipv4_packet_id = 0,
     arp_cache = \<lparr>table = [[(0x0A000002, example_mac)]], table_size = 1, num_stored = 1\<rparr>\<rparr>"

definition example_route :: route where
  "example_route = \<lparr>r_interface = Some 0, destination = 0x0A000000, netmask = 0xFF000000, gateway = 0, metric = 100\<rparr>"

text \<open>
  C32: What \<^verbatim>\<open>ipv4_send\<close> hands to the driver for a UDP segment whose next hop is known: the packets are
  addressed to the next hop, none is larger than the MTU, every IP header carries a checksum that the
  receiver accepts and its own length, the fragment offsets follow each other without a gap, only the
  last packet has no more-fragments flag, and the data behind the headers, put together, is the
  segment with only its checksum field changed, to one the receiver accepts. The route is one that
  matches the address with the least metric.
\<close>

theorem ipv4_send_carries_data:
  assumes "target \<noteq> BROADCAST_IPV4" and r: "r = lookup_route (routing_table n) target" "r_interface r = Some i"
    and arp: "ht_lookup hash_ipv4 (arp_cache (ifaces n i)) (if gateway r \<noteq> 0 then gateway r else target) = Some (Some tmac)"
    and drv: "\<forall>f. drv f = None"
    and mtu: "28 \<le> unat (mtu (ifaces n i))"
    and dat: "dat = a @ be16_bytes 0 @ b" "length a = 6" "length dat < 65516"
  shows "\<exists>c fs n'. ipv4_send later drv dat target PROTOCOL_UDP True n = Some (Inr (), fs, n') \<and>
     (\<forall>f\<in>set fs. target_mac f = tmac \<and> ethertype f = PROTOCOL_IPV4) \<and>
     frames_carry (ifaces n i) ((unat (mtu (ifaces n i)) - 20) div 8 * 8) target PROTOCOL_UDP 0 fs \<and>
     concat (map (\<lambda>f. drop 20 (payload f)) fs) = a @ be16_bytes c @ b \<and>
     ipv4_transport_checksum (a @ be16_bytes c @ b) (length dat) (ipv4 (ifaces n i)) target PROTOCOL_UDP = Some 0 \<and>
     r \<in> set (routing_table n) \<and> target AND netmask r = destination r AND netmask r \<and>
     (\<forall>q\<in>set (routing_table n). target AND netmask q = destination q AND netmask q \<longrightarrow> metric r \<le> metric q)"
  using ipv4_send_udp[OF assms, of later] by blast

theorem ipv4_send_carries_data_witness:
  "\<exists>c fs n'. ipv4_send (\<lambda>_. example_iface) (\<lambda>_. None) (replicate 6 7 @ be16_bytes 0 @ [1, 2, 3]) 0x0A000002 PROTOCOL_UDP True
       \<lparr>routing_table = [example_route], ifaces = (\<lambda>_. example_iface), port_table = Map.empty, usocks = (\<lambda>_. ())\<rparr> =
     Some (Inr (), fs, n') \<and>
     concat (map (\<lambda>f. drop 20 (payload f)) fs) = replicate 6 7 @ be16_bytes c @ [1, 2, 3]"
proof -
  let ?n = "\<lparr>routing_table = [example_route], ifaces = (\<lambda>_. example_iface), port_table = Map.empty, usocks = (\<lambda>_. ())\<rparr>"
  have r: "example_route = lookup_route (routing_table ?n) 0x0A000002"
    by (simp add: lookup_route_def no_route_def example_route_def)
  show ?thesis
    using ipv4_send_carries_data[OF _ r, of 0 example_mac "\<lambda>_. None" _ "replicate 6 7" "[1, 2, 3]" "\<lambda>_. example_iface"]
    by (simp add: BROADCAST_IPV4_def Ipv4_def example_route_def example_iface_def ht_lookup_def get_hash_bucket_def) blast
qed

end
