(* ===== verification/Userland_Udp.thy ===== *)
theory Userland_Udp
  imports Dev_Net Userland_Channels
begin

text \<open>
  UDP sockets (\<^verbatim>\<open>userland/socket/udp.cpp\<close>) and the receiving side of \<^verbatim>\<open>dev/net.cpp\<close> that feeds them. A
  queued datagram is a value instead of a pointer to one; the code frees each after taking it out of
  the queue. Received data is what the call copies to the caller's buffers, in their order.
\<close>

section \<open>State\<close>

record udp_datagram =
  dg_addr :: u32
  dg_port :: u16
  dg_data :: "u8 list"

record udp_sock =
  us_ring :: "udp_datagram ring_buffer"
  bound_ip :: u32
  bound_port :: u16
  connected_ip :: u32
  connected_port :: u16
  has_port :: bool
  is_connected :: bool

definition no_datagram :: udp_datagram where
  "no_datagram = \<lparr>dg_addr = 0, dg_port = 0, dg_data = []\<rparr>"

definition udp_sock_new :: udp_sock where
  "udp_sock_new = \<lparr>us_ring = \<lparr>rb_size = 256, read_index = 0, write_index = 0, data = replicate 256 no_datagram\<rparr>,
     bound_ip = 0, bound_port = 0, connected_ip = 0, connected_port = 0, has_port = False, is_connected = False\<rparr>"

type_synonym udp_net = "udp_sock net"

definition upd_sock :: "nat \<Rightarrow> (udp_sock \<Rightarrow> udp_sock) \<Rightarrow> udp_net \<Rightarrow> udp_net" where
  "upd_sock s f n = n\<lparr>usocks := (usocks n)(s := f (usocks n s))\<rparr>"

section \<open>Ports\<close>

definition PORT_ALLOC_RANGE_START :: u16 where "PORT_ALLOC_RANGE_START = 32768"
definition PORT_ALLOC_RANGE_END :: u16 where "PORT_ALLOC_RANGE_END = 60999"

definition alloc_port :: "nat \<Rightarrow> u16 \<Rightarrow> udp_net \<Rightarrow> u16 res \<times> udp_net" where
  "alloc_port s chosen n =
     (let chosen = (if chosen = 0
                    then case find (\<lambda>i. port_table n i = None)
                                (map of_nat [unat PORT_ALLOC_RANGE_START..<unat PORT_ALLOC_RANGE_END]) of
                           Some i \<Rightarrow> i | None \<Rightarrow> chosen
                    else chosen)
      in if port_table n chosen \<noteq> None then (Inl EADDRINUSE, n)
         else (Inr chosen, n\<lparr>port_table := (port_table n)(chosen \<mapsto> s)\<rparr>))"

definition free_port :: "nat \<Rightarrow> udp_net \<Rightarrow> udp_net" where
  "free_port s n =
     (if has_port (usocks n s)
      then upd_sock s (\<lambda>u. u\<lparr>bound_port := 0, has_port := False\<rparr>)
             (n\<lparr>port_table := (port_table n)(bound_port (usocks n s) := None)\<rparr>)
      else n)"

text \<open>The address arguments are the values of the fields, in the byte order of the machine.\<close>

definition udp_bind :: "nat \<Rightarrow> u32 \<Rightarrow> u16 \<Rightarrow> udp_net \<Rightarrow> unit res \<times> udp_net" where
  "udp_bind s ip port n =
     (case alloc_port s port n of
        (Inl e, n) \<Rightarrow> (Inl e, n)
      | (Inr ret, n) \<Rightarrow>
          let n = upd_sock s (\<lambda>u. u\<lparr>bound_ip := ip, bound_port := port\<rparr>) n;
              n = free_port s n
          in (Inr (), upd_sock s (\<lambda>u. u\<lparr>bound_port := ret, has_port := True\<rparr>) n))"

definition udp_connect :: "nat \<Rightarrow> u32 \<Rightarrow> u16 \<Rightarrow> udp_net \<Rightarrow> udp_net" where
  "udp_connect s ip port n =
     upd_sock s (\<lambda>u. u\<lparr>connected_ip := ip, connected_port := port, is_connected := True\<rparr>) n"

definition udp_getsockname :: "udp_sock \<Rightarrow> u32 \<times> u16" where
  "udp_getsockname u = (bound_ip u, bound_port u)"

definition udp_getpeername :: "udp_sock \<Rightarrow> (u32 \<times> u16) res" where
  "udp_getpeername u = (if is_connected u then Inr (connected_ip u, connected_port u) else Inl ENOTCONN)"

definition udp_poll :: "u64 \<Rightarrow> udp_sock \<Rightarrow> u64" where
  "udp_poll events u = (if events AND POLLIN \<noteq> 0 \<and> \<not> rb_is_empty (us_ring u) then 0 OR POLLIN else 0)"

section \<open>Receiving packets\<close>

definition udp_process :: "u8 list \<Rightarrow> ipv4_header \<Rightarrow> udp_net \<Rightarrow> udp_net option" where
  "udp_process bs ip n = do {
     h \<leftarrow> udp_parse bs;
     if unat (udp_length h) < 8 then Some n
     else do {
       c \<leftarrow> ipv4_transport_checksum bs (unat (udp_length h)) (src_addr ip) (dst_addr ip) (protocol ip);
       if c \<noteq> 0 then Some n
       else case port_table n (udp_dst_port h) of
         None \<Rightarrow> Some n
       | Some s \<Rightarrow> do {
           dat \<leftarrow> mem_read bs 8 (unat (udp_length h) - 8);
           let d = \<lparr>dg_addr = src_addr ip, dg_port = udp_src_port h, dg_data = dat\<rparr>;
           let rb = us_ring (usocks n s);
           rb \<leftarrow> (if rb_is_full rb then map_option (\<lambda>(_, _, rb). rb) (rb_read rb 1) else Some rb);
           (_, rb) \<leftarrow> rb_write rb [d] 1;
           Some (upd_sock s (\<lambda>u. u\<lparr>us_ring := rb\<rparr>) n) } } }"

definition ipv4_process :: "nat \<Rightarrow> u8 list \<Rightarrow> udp_net \<Rightarrow> udp_net option" where
  "ipv4_process i bs n = do {
     h \<leftarrow> ipv4_parse bs;
     c \<leftarrow> compute_header_checksum bs;
     if version_and_header_length h \<noteq> VERSION_AND_HEADER_LENGTH \<or>
        (dst_addr h \<noteq> BROADCAST_IPV4 \<and> dst_addr h \<noteq> ipv4 (ifaces n i)) \<or> c \<noteq> 0 then Some n
     else if get_ip_flags h AND FLAG_MORE_FRAGMENTS \<noteq> 0 \<or> get_frag_offset h > 0 then Some n
     else if protocol h = PROTOCOL_UDP then udp_process (drop 20 bs) h n
     else Some n }"

text \<open>An ARP packet: the answer to send, if any, and the new state.\<close>

definition arp_process :: "nat \<Rightarrow> u8 list \<Rightarrow> udp_net \<Rightarrow> (frame list \<times> udp_net) option" where
  "arp_process i bs n = do {
     h \<leftarrow> arp_parse bs;
     let ifc = ifaces n i;
     if hardware_type h \<noteq> 1 \<or> protocol_type h \<noteq> 0x0800 \<or> hardware_len h \<noteq> 6 \<or> protocol_len h \<noteq> 4 \<or>
        (opcode h = OPCODE_REPLY \<and> dst_hardware h \<noteq> mac ifc) \<or>
        (opcode h = OPCODE_REQUEST \<and> dst_protocol h \<noteq> ipv4 ifc) then Some ([], n)
     else if opcode h = OPCODE_REPLY then do {
       c \<leftarrow> ht_emplace hash_ipv4 (arp_cache ifc) (src_protocol h) (src_hardware h);
       Some ([], n\<lparr>ifaces := (ifaces n)(i := ifc\<lparr>arp_cache := c\<rparr>)\<rparr>) }
     else if opcode h = OPCODE_REQUEST then do {
       f \<leftarrow> arp_send ifc OPCODE_REPLY (mac ifc) (ipv4 ifc) (src_hardware h) (src_protocol h);
       Some ([f], n) }
     else Some ([], n) }"

definition eth_process :: "nat \<Rightarrow> u8 list \<Rightarrow> udp_net \<Rightarrow> (frame list \<times> udp_net) option" where
  "eth_process i bs n = do {
     dst \<leftarrow> mem_read bs 0 6;
     ty \<leftarrow> get16 bs 12;
     if dst \<noteq> mac (ifaces n i) \<and> dst \<noteq> BROADCAST_MAC then Some ([], n)
     else if ty = PROTOCOL_ARP then arp_process i (drop 14 bs) n
     else if ty = PROTOCOL_IPV4 then do { n \<leftarrow> ipv4_process i (drop 14 bs) n; Some ([], n) }
     else Some ([], n) }"

text \<open>The Ethernet header the network driver puts in front of a packet it is given.\<close>

definition eth_frame :: "mac_addr \<Rightarrow> frame \<Rightarrow> u8 list" where
  "eth_frame source f = target_mac f @ source @ be16_bytes (ethertype f) @ payload f"

section \<open>Sending and receiving datagrams\<close>

definition udp_sendmsg ::
  "(nat \<Rightarrow> iface) \<Rightarrow> (frame \<Rightarrow> errno option) \<Rightarrow> nat \<Rightarrow> (u32 \<times> u16) option \<Rightarrow> u8 list list \<Rightarrow> udp_net \<Rightarrow>
   (usize res \<times> frame list \<times> udp_net) option" where
  "udp_sendmsg later drv s name iovs n =
     (let (e, n) = (if has_port (usocks n s) then (None, n)
                    else case alloc_port s 0 n of
                           (Inl e, n) \<Rightarrow> (Some e, n)
                         | (Inr ret, n) \<Rightarrow> (None, upd_sock s (\<lambda>u. u\<lparr>bound_port := ret, has_port := True\<rparr>) n))
      in case e of
           Some e \<Rightarrow> Some (Inl e, [], n)
         | None \<Rightarrow>
             let u = usocks n s;
                 t = (case name of Some a \<Rightarrow> Some a
                      | None \<Rightarrow> if is_connected u then Some (connected_ip u, connected_port u) else None)
             in case t of
                  None \<Rightarrow> Some (Inl EDESTADDRREQ, [], n)
                | Some (ip, port) \<Rightarrow> do {
                    let dat = concat iovs;
                    let hdr = \<lparr>udp_src_port = bound_port u, udp_dst_port = port,
                               udp_length = of_nat (length dat + 8), udp_checksum = 0\<rparr>;
                    (r, fs, n) \<leftarrow> ipv4_send later drv (udp_bytes hdr @ dat) ip PROTOCOL_UDP True n;
                    case r of Inl e \<Rightarrow> Some (Inl e, fs, n) | Inr _ \<Rightarrow> Some (Inr (of_nat (length dat)), fs, n) })"

text \<open>
  Copying a datagram into buffers of the given sizes: the pieces, and whether something was left over.
  The loop ends at the first buffer that is not filled.
\<close>

fun scatter :: "u8 list \<Rightarrow> nat list \<Rightarrow> u8 list list" where
  "scatter dat [] = []"
| "scatter dat (k # ks) =
     (if k = 0 then [] # scatter dat ks
      else let c = min (length dat) k in
           take c dat # (if c < k then [] else scatter (drop c dat) ks))"

definition MSG_DONTWAIT :: usize where "MSG_DONTWAIT = 0x40"
definition MSG_TRUNC :: usize where "MSG_TRUNC = 0x20"

definition udp_recv_attempt :: "usize \<Rightarrow> usize \<Rightarrow> nat list \<Rightarrow> udp_sock \<Rightarrow> ((u8 list list \<times> usize) res \<times> udp_sock) attempt option" where
  "udp_recv_attempt fl mfl lens u =
     (if rb_is_empty (us_ring u)
      then if fl AND O_NONBLOCK \<noteq> 0 \<or> mfl AND MSG_DONTWAIT \<noteq> 0 then Some (Return (Inl EWOULDBLOCK, u)) else Some Wait
      else do {
        (k, ds, rb) \<leftarrow> rb_read (us_ring u) 1;
        if k \<noteq> 1 then None
        else do {
          d \<leftarrow> rd ds 0;
          let out = scatter (dg_data d) lens;
          Some (Return (Inr (out, if length (concat out) < length (dg_data d) then MSG_TRUNC else 0),
                        u\<lparr>us_ring := rb\<rparr>)) } })"

definition udp_recvmsg :: "udp_sock option list \<Rightarrow> usize \<Rightarrow> usize \<Rightarrow> nat list \<Rightarrow> udp_sock \<Rightarrow> ((u8 list list \<times> usize) res \<times> udp_sock) attempt option" where
  "udp_recvmsg env fl mfl lens u = wait_loop (udp_recv_attempt fl mfl lens) env u"

section \<open>What a socket receives\<close>

lemma transport_checksum_tail:
  "len \<le> length bs \<Longrightarrow> ipv4_transport_checksum (bs @ pad) len src dst proto = ipv4_transport_checksum bs len src dst proto"
  by (simp add: ipv4_transport_checksum_def)

text \<open>The queue after a datagram arrived: the oldest makes room when it is full.\<close>

definition enqueue_datagram :: "'a \<Rightarrow> 'a list \<Rightarrow> 'a list" where
  "enqueue_datagram d q = (if length q = 256 then tl q else q) @ [d]"

lemma udp_enqueue:
  assumes "rb_ok rb" "rb_size rb = 256"
  shows "\<exists>rb0 k rb'. (if rb_is_full rb then map_option (\<lambda>(_, _, rb). rb) (rb_read rb 1) else Some rb) = Some rb0 \<and>
     rb_write rb0 [d] 1 = Some (k, rb') \<and> rb_ok rb' \<and> rb_size rb' = 256 \<and> rb_items rb' = enqueue_datagram d (rb_items rb)"
proof -
  have full: "rb_is_full rb \<longleftrightarrow> length (rb_items rb) = 256" using rb_full_iff[of rb] assms(2) by simp
  have le: "length (rb_items rb) \<le> 256" using ring.bounded[OF assms(1)] assms(2) by simp
  obtain rb0 where rb0: "(if rb_is_full rb then map_option (\<lambda>(_, _, rb). rb) (rb_read rb 1) else Some rb) = Some rb0"
    "rb_ok rb0" "rb_size rb0 = 256" "rb_items rb0 = (if length (rb_items rb) = 256 then tl (rb_items rb) else rb_items rb)"
  proof (cases "rb_is_full rb")
    case True
    then have "1 = min (unat (1 :: usize)) (length (rb_items rb))" using full by simp
    from rb_read_spec[OF assms(1) this] True full that assms(2) show ?thesis by (auto simp: drop_Suc)
  next
    case False
    then show ?thesis using that full assms by (simp del: length_rb_items)
  qed
  have "length (rb_items rb0) < 256" using rb0(4) le by (auto simp del: length_rb_items)
  then have "1 = min (unat (1 :: usize)) (unat (rb_size rb0) - length (rb_items rb0))" using rb0(3) by simp
  from rb_write_spec[OF rb0(2) _ this, of "[d]"] rb0 show ?thesis by (auto simp: enqueue_datagram_def)
qed

lemma udp_process_delivers:
  assumes h: "unat (udp_length h) = 8 + length dat"
    and c: "ipv4_transport_checksum (udp_bytes h @ dat) (8 + length dat) (src_addr ip) (dst_addr ip) (protocol ip) = Some 0"
    and t: "port_table n (udp_dst_port h) = Some t" "rb_ok (us_ring (usocks n t))" "rb_size (us_ring (usocks n t)) = 256"
  shows "\<exists>rb. udp_process (udp_bytes h @ dat @ pad) ip n = Some (upd_sock t (\<lambda>u. u\<lparr>us_ring := rb\<rparr>) n) \<and>
     rb_ok rb \<and> rb_size rb = 256 \<and>
     rb_items rb = enqueue_datagram \<lparr>dg_addr = src_addr ip, dg_port = udp_src_port h, dg_data = dat\<rparr> (rb_items (us_ring (usocks n t)))"
proof -
  let ?d = "\<lparr>dg_addr = src_addr ip, dg_port = udp_src_port h, dg_data = dat\<rparr>"
  obtain rb0 k rb where rb: "(if rb_is_full (us_ring (usocks n t)) then map_option (\<lambda>(_, _, rb). rb) (rb_read (us_ring (usocks n t)) 1)
      else Some (us_ring (usocks n t))) = Some rb0" "rb_write rb0 [?d] 1 = Some (k, rb)" "rb_ok rb" "rb_size rb = 256"
    "rb_items rb = enqueue_datagram ?d (rb_items (us_ring (usocks n t)))"
    using udp_enqueue[OF t(2,3), of ?d] by blast
  have c': "ipv4_transport_checksum (udp_bytes h @ dat @ pad) (8 + length dat) (src_addr ip) (dst_addr ip) (protocol ip) = Some 0"
    using c transport_checksum_tail[of "8 + length dat" "udp_bytes h @ dat" pad] by simp
  have "mem_read (udp_bytes h @ dat @ pad) 8 (length dat) = Some dat" by simp
  then have "udp_process (udp_bytes h @ dat @ pad) ip n = Some (upd_sock t (\<lambda>u. u\<lparr>us_ring := rb\<rparr>) n)"
    using h c' t(1) rb(1,2) by (simp add: udp_process_def Let_def split del: if_split)
  then show ?thesis using rb by blast
qed

text \<open>A packet of one fragment for this machine reaches the socket through all layers.\<close>

lemma eth_process_delivers:
  assumes f: "length smac = 6" "length (mac (ifaces n j)) = 6" "target_mac f = mac (ifaces n j)" "ethertype f = PROTOCOL_IPV4"
    "payload f = ipv4_bytes h @ udp_bytes u @ dat" "compute_header_checksum (payload f) = Some 0"
    "version_and_header_length h = VERSION_AND_HEADER_LENGTH" "get_frag_offset h = 0" "get_ip_flags h = 0"
    "protocol h = PROTOCOL_UDP" "dst_addr h = ipv4 (ifaces n j)"
    and u: "unat (udp_length u) = 8 + length dat"
      "ipv4_transport_checksum (udp_bytes u @ dat) (8 + length dat) (src_addr h) (dst_addr h) PROTOCOL_UDP = Some 0"
    and t: "port_table n (udp_dst_port u) = Some t" "rb_ok (us_ring (usocks n t))" "rb_size (us_ring (usocks n t)) = 256"
  shows "\<exists>rb. eth_process j (eth_frame smac f @ pad) n = Some ([], upd_sock t (\<lambda>u. u\<lparr>us_ring := rb\<rparr>) n) \<and>
     rb_ok rb \<and> rb_size rb = 256 \<and>
     rb_items rb = enqueue_datagram \<lparr>dg_addr = src_addr h, dg_port = udp_src_port u, dg_data = dat\<rparr> (rb_items (us_ring (usocks n t)))"
proof -
  let ?bs = "eth_frame smac f @ pad"
  have bs: "?bs = (mac (ifaces n j) @ smac) @ be16_bytes PROTOCOL_IPV4 @ payload f @ pad"
    using f by (simp add: eth_frame_def)
  have 1: "mem_read ?bs 0 6 = Some (mac (ifaces n j))" unfolding bs using f(1,2) by simp
  have 2: "get16 ?bs 12 = Some PROTOCOL_IPV4" unfolding bs using f(1,2)
    by (simp add: get_fields nth_append)
  have 3: "drop 14 ?bs = payload f @ pad" unfolding bs using f(1,2) by (simp add: be16_bytes_def)
  have p: "ipv4_parse (payload f @ pad) = Some h" using f(5) by simp
  have c: "compute_header_checksum (payload f @ pad) = Some 0"
    using f(5,6) by (simp add: compute_header_checksum_bytes)
  obtain rb where rb: "udp_process (udp_bytes u @ dat @ pad) h n = Some (upd_sock t (\<lambda>u. u\<lparr>us_ring := rb\<rparr>) n)"
    "rb_ok rb" "rb_size rb = 256"
    "rb_items rb = enqueue_datagram \<lparr>dg_addr = src_addr h, dg_port = udp_src_port u, dg_data = dat\<rparr> (rb_items (us_ring (usocks n t)))"
    using udp_process_delivers[OF u(1) _ t, of h pad] u(2) f(10) by auto
  have "drop 20 (payload f @ pad) = udp_bytes u @ dat @ pad" using f(5) by simp
  then have "ipv4_process j (payload f @ pad) n = Some (upd_sock t (\<lambda>u. u\<lparr>us_ring := rb\<rparr>) n)"
    using p c rb(1) f(7-11) by (simp add: ipv4_process_def)
  then show ?thesis using 1 2 3 rb by (intro exI[of _ rb]) (simp add: eth_process_def net_consts)
qed

section \<open>Properties\<close>


definition example_net :: udp_net where
  "example_net = \<lparr>routing_table = [example_route], ifaces = (\<lambda>_. example_iface), port_table = [53 \<mapsto> 0],
     usocks = (\<lambda>_. udp_sock_new\<lparr>bound_port := 53, has_port := True\<rparr>)\<rparr>"

lemma udp_sock_new_ok: "rb_ok (us_ring udp_sock_new)" "rb_size (us_ring udp_sock_new) = 256" "rb_items (us_ring udp_sock_new) = []"
proof -
  have "(256 :: nat) dvd 2 ^ 64" using le_imp_power_dvd[of 8 64 "2 :: nat"] by simp
  then show "rb_ok (us_ring udp_sock_new)" by (simp add: rb_ok_def udp_sock_new_def data_count_def)
qed (simp_all add: udp_sock_new_def rb_items_def data_count_def)

definition example_peer :: udp_net where
  "example_peer = example_net\<lparr>ifaces := (\<lambda>_. example_iface\<lparr>mac := example_mac, ipv4 := 0x0A000002\<rparr>)\<rparr>"


text \<open>
  The first \<^verbatim>\<open>bind\<close> of a socket registers it at the port, or fails without an effect when the port is
  taken. A second one stores the new port before it frees the old: it removes the new registration
  and keeps the old one, so the socket says it has a port at which it gets nothing.
\<close>

lemma udp_bind_registers:
  assumes "port \<noteq> 0" "\<not> has_port (usocks n s)"
  shows "udp_bind s ip port n =
    (if port_table n port \<noteq> None then (Inl EADDRINUSE, n)
     else (Inr (), upd_sock s (\<lambda>u. u\<lparr>bound_ip := ip, bound_port := port, has_port := True\<rparr>)
                     (n\<lparr>port_table := (port_table n)(port \<mapsto> s)\<rparr>)))"
  using assms by (simp add: udp_bind_def alloc_port_def free_port_def upd_sock_def Let_def)

lemma udp_rebind_loses_port:
  assumes "port \<noteq> 0" "has_port (usocks n s)" "port_table n port = None"
  shows "\<exists>n'. udp_bind s ip port n = (Inr (), n') \<and> bound_port (usocks n' s) = port \<and> has_port (usocks n' s) \<and>
    port_table n' = port_table n"
  using assms by (auto simp: udp_bind_def alloc_port_def free_port_def upd_sock_def Let_def)

text \<open>A received datagram is the oldest one, cut to the buffers.\<close>

lemma scatter_prefix: "concat (scatter dat ks) = take (sum_list ks) dat"
  by (induction dat ks rule: scatter.induct) (auto simp: Let_def take_add min_def)

lemma udp_recv_oldest:
  assumes "rb_ok (us_ring u)" "rb_items (us_ring u) = d # ds"
  shows "\<exists>u'. udp_recv_attempt fl mfl lens u = Some (Return (Inr (scatter (dg_data d) lens,
      if sum_list lens < length (dg_data d) then MSG_TRUNC else 0), u')) \<and> rb_ok (us_ring u') \<and> rb_items (us_ring u') = ds"
proof -
  have "1 = min (unat (1 :: usize)) (length (rb_items (us_ring u)))" using assms(2) by simp
  from rb_read_spec[OF assms(1) this] obtain rb where "rb_read (us_ring u) 1 = Some (1, [d], rb)" "rb_ok rb" "rb_items rb = ds"
    using assms(2) by auto
  moreover have "length (concat (scatter (dg_data d) lens)) < length (dg_data d) \<longleftrightarrow> sum_list lens < length (dg_data d)"
    by (simp add: scatter_prefix min_def del: length_concat)
  ultimately show ?thesis using assms(2)
    by (simp add: udp_recv_attempt_def rb_empty_iff Let_def del: length_concat)
qed

end
