(* ===== verification/Userland_Sockets.thy ===== *)
theory Userland_Sockets
  imports Vfs_Tree Userland_Udp Klib_List
begin

text \<open>
  Sockets of one machine: \<^verbatim>\<open>userland/socket/socket.cpp\<close>, \<^verbatim>\<open>local/stream.cpp\<close> (stream and packet sockets)
  and \<^verbatim>\<open>local/datagram.cpp\<close>. A socket is named by its node; nodes are never deleted. The state joins the
  sockets with the links of their \<^verbatim>\<open>pending_list\<close> members (one list node per socket), the tree of names
  they are bound in and the descriptor tables. Following a null pointer, using a socket of one class as
  one of another, and a failed assertion are \<open>None\<close>. Blocking calls are loops around waits as in the
  theory of the pipes. Message headers are passed as their contents: the buffers to send, the sizes of
  the buffers to fill, the control messages.
\<close>

section \<open>State\<close>

record ucred =
  uc_pid :: int
  uc_uid :: u32
  uc_gid :: u32

record cmsg =
  cmsg_level :: int
  cmsg_type :: int
  cmsg_data :: "u8 list"

text \<open>Credentials that were never stored are \<open>None\<close>: the member is not initialised.\<close>

record stream_sock =
  ls_ring :: "u8 ring_buffer option"
  ls_ancillary :: "cmsg ring_buffer"
  ls_peer :: "nat option"
  ls_address :: "u8 list"
  ls_num_pending :: usize
  ls_max_pending :: usize
  ls_credentials :: "ucred option"
  ls_passcred :: bool
  ls_seqpacket :: bool

record local_datagram =
  lg_from :: nat
  lg_data :: "u8 list"

record dgram_sock =
  ld_ring :: "local_datagram ring_buffer"
  ld_connected :: "nat option"
  ld_address :: "u8 list"

text \<open>The state of a UDP socket is part of the network state, under the same number.\<close>

datatype sock = Stream stream_sock | Dgram dgram_sock | Udp

record sockets =
  socks :: "nat \<Rightarrow> sock option"
  pend :: "nat links"
  tree :: vfs
  fdst :: fd_state
  unet :: udp_net

definition ring_new :: "usize \<Rightarrow> 'a \<Rightarrow> 'a ring_buffer" where
  "ring_new n x = \<lparr>rb_size = n, read_index = 0, write_index = 0, data = replicate (unat n) x\<rparr>"

definition stream_ring :: "u8 ring_buffer" where
  "stream_ring = ring_new (208 * 1024) 0"

definition stream_new :: "bool \<Rightarrow> stream_sock" where
  "stream_new seqpacket =
     \<lparr>ls_ring = None, ls_ancillary = ring_new 8 \<lparr>cmsg_level = 0, cmsg_type = 0, cmsg_data = []\<rparr>, ls_peer = None,
      ls_address = [], ls_num_pending = 0, ls_max_pending = 0, ls_credentials = None, ls_passcred = False,
      ls_seqpacket = seqpacket\<rparr>"

definition dgram_new :: dgram_sock where
  "dgram_new = \<lparr>ld_ring = ring_new 256 \<lparr>lg_from = 0, lg_data = []\<rparr>, ld_connected = None, ld_address = []\<rparr>"

definition get_stream :: "nat \<Rightarrow> sockets \<Rightarrow> stream_sock option" where
  "get_stream s st = (case socks st s of Some (Stream x) \<Rightarrow> Some x | _ \<Rightarrow> None)"

definition get_dgram :: "nat \<Rightarrow> sockets \<Rightarrow> dgram_sock option" where
  "get_dgram s st = (case socks st s of Some (Dgram x) \<Rightarrow> Some x | _ \<Rightarrow> None)"

definition put_sock :: "nat \<Rightarrow> sock \<Rightarrow> sockets \<Rightarrow> sockets" where
  "put_sock s x st = st\<lparr>socks := (socks st)(s \<mapsto> x)\<rparr>"

text \<open>\<^verbatim>\<open>new\<close>: a fresh node of type \<^verbatim>\<open>SOCKET\<close> in the store of nodes; a stream socket initialises its list.\<close>

definition new_sock :: "sock \<Rightarrow> sockets \<Rightarrow> nat \<times> sockets" where
  "new_sock x st =
     (let n = num_nodes (tree st);
          v = (tree st)\<lparr>nodes := (nodes (tree st))(n := \<lparr>ndata = tmpfs_new SOCKET, inode_num = 0, nuid = -1, ngid = -1,
                                                       nmode = 0, nrefs = 0\<rparr>), num_nodes := n + 1\<rparr>;
          st = put_sock n x (st\<lparr>tree := v\<rparr>)
      in (n, case x of Stream _ \<Rightarrow> st\<lparr>pend := list_init n (pend st)\<rparr>
             | Udp \<Rightarrow> st\<lparr>unet := upd_sock n (\<lambda>_. udp_sock_new) (unet st)\<rparr> | Dgram _ \<Rightarrow> st))"

section \<open>Descriptors of sockets\<close>

definition SOCK_CLOEXEC :: usize where "SOCK_CLOEXEC = 0x80000"
definition SOCK_NONBLOCK :: usize where "SOCK_NONBLOCK = 0x800"

text \<open>\<open>pr\<close> is the calling process, \<open>p\<close> the address of the new description.\<close>

definition create_socket_fd :: "nat \<Rightarrow> usize \<Rightarrow> nat \<Rightarrow> usize \<Rightarrow> sockets \<Rightarrow> (nat \<times> sockets) option" where
  "create_socket_fd pr p s fl st = do {
     (fd, fs) \<leftarrow> install_description pr p s (O_RDONLY OR (if fl AND SOCK_NONBLOCK \<noteq> 0 then O_NONBLOCK else 0))
                   (fl AND SOCK_CLOEXEC \<noteq> 0) (fdst st);
     Some (fd, st\<lparr>fdst := fs\<rparr>) }"

definition AF_LOCAL :: int where "AF_LOCAL = 1"
definition AF_INET :: int where "AF_INET = 2"
definition SOCK_STREAM :: usize where "SOCK_STREAM = 1"
definition SOCK_DGRAM :: usize where "SOCK_DGRAM = 2"
definition SOCK_SEQPACKET :: usize where "SOCK_SEQPACKET = 5"

text \<open>The class \<^verbatim>\<open>socket\<close> creates for a family and type.\<close>

definition socket_class :: "int \<Rightarrow> usize \<Rightarrow> sock option" where
  "socket_class family ty =
     (if family = AF_LOCAL \<and> ty = SOCK_STREAM then Some (Stream (stream_new False))
      else if family = AF_LOCAL \<and> ty = SOCK_DGRAM then Some (Dgram dgram_new)
      else if family = AF_LOCAL \<and> ty = SOCK_SEQPACKET then Some (Stream (stream_new True))
      else if family = AF_INET \<and> ty = SOCK_DGRAM then Some Udp
      else None)"

definition syscall_socket :: "nat \<Rightarrow> usize \<Rightarrow> int \<Rightarrow> usize \<Rightarrow> sockets \<Rightarrow> (nat res \<times> sockets) option" where
  "syscall_socket pr p family type0 st =
     (let fl = type0 AND (SOCK_CLOEXEC OR SOCK_NONBLOCK);
          ty = type0 AND NOT fl
      in case socket_class family ty of
           None \<Rightarrow> Some (Inl EAFNOSUPPORT, st)
         | Some x \<Rightarrow> let (s, st) = new_sock x st in do { (fd, st) \<leftarrow> create_socket_fd pr p s fl st; Some (Inr fd, st) })"

definition syscall_socketpair ::
  "nat \<Rightarrow> usize \<Rightarrow> usize \<Rightarrow> ucred \<Rightarrow> int \<Rightarrow> usize \<Rightarrow> sockets \<Rightarrow> ((nat \<times> nat) res \<times> sockets) option" where
  "syscall_socketpair pr p1 p2 cred family type0 st =
     (let fl = type0 AND (SOCK_CLOEXEC OR SOCK_NONBLOCK);
          ty = type0 AND NOT fl
      in if family \<noteq> AF_LOCAL then Some (Inl EAFNOSUPPORT, st)
         else if ty = SOCK_STREAM \<or> ty = SOCK_SEQPACKET
         then let x = (stream_new (ty = SOCK_SEQPACKET))\<lparr>ls_ring := Some stream_ring, ls_credentials := Some cred\<rparr>;
                  (a, st) = new_sock (Stream x) st;
                  (b, st) = new_sock (Stream x) st;
                  st = put_sock b (Stream (x\<lparr>ls_peer := Some a\<rparr>)) (put_sock a (Stream (x\<lparr>ls_peer := Some b\<rparr>)) st)
              in do { (f1, st) \<leftarrow> create_socket_fd pr p1 a fl st; (f2, st) \<leftarrow> create_socket_fd pr p2 b fl st;
                      Some (Inr (f1, f2), st) }
         else if ty = SOCK_DGRAM
         then let (a, st) = new_sock (Dgram dgram_new) st;
                  (b, st) = new_sock (Dgram dgram_new) st;
                  st = put_sock b (Dgram (dgram_new\<lparr>ld_connected := Some a\<rparr>)) (put_sock a (Dgram (dgram_new\<lparr>ld_connected := Some b\<rparr>)) st)
              in do { (f1, st) \<leftarrow> create_socket_fd pr p1 a fl st; (f2, st) \<leftarrow> create_socket_fd pr p2 b fl st;
                      Some (Inr (f1, f2), st) }
         else Some (Inl EINVAL, st))"

text \<open>The macro \<^verbatim>\<open>get_socket\<close>: the flags of the description and the socket, or the error.\<close>

definition get_socket :: "nat \<Rightarrow> int \<Rightarrow> sockets \<Rightarrow> (usize \<times> nat) res option" where
  "get_socket pr fd st = do {
     p \<leftarrow> get_file_description pr fd (fdst st);
     if p = 0 then Some (Inl EBADF)
     else do { d \<leftarrow> descs (fdst st) p;
               if type_of (tree st) (vnode d) \<noteq> SOCKET then Some (Inl ENOTSOCK) else Some (Inr (flags d, vnode d)) } }"

section \<open>Stream sockets: names and connections\<close>

text \<open>Addresses passed to the calls, by their family.\<close>

datatype sockaddr = SA_Local "u8 list" | SA_Inet u32 u16 | SA_Other int

definition sa_family :: "sockaddr \<Rightarrow> int" where
  "sa_family a = (case a of SA_Local _ \<Rightarrow> AF_LOCAL | SA_Inet _ _ \<Rightarrow> AF_INET | SA_Other f \<Rightarrow> f)"

text \<open>The bytes of \<^verbatim>\<open>sun_path\<close> that a copy of the address keeps; its length as a socket address.\<close>

definition local_path :: "u8 list \<Rightarrow> u8 list" where
  "local_path path = take 108 (takeWhile (\<lambda>c. c \<noteq> 0) path)"

definition get_local_addr_length :: "u8 list \<Rightarrow> nat" where
  "get_local_addr_length path = min (2 + length (takeWhile (\<lambda>c. c \<noteq> 0) path)) 110"

text \<open>The part \<^verbatim>\<open>bind\<close> of stream and datagram sockets share: naming the node in the tree.\<close>

definition bind_node :: "caller \<Rightarrow> nat \<Rightarrow> u8 list \<Rightarrow> sockets \<Rightarrow> (unit res \<times> sockets) option" where
  "bind_node me s path st = do {
     (e, v) \<leftarrow> path_to_entry path (Some (cwd me)) True (tree st);
     if evnode (entries v e) \<noteq> None then Some (Inl EADDRINUSE, st\<lparr>tree := v\<rparr>)
     else if eparent (entries v e) = None then Some (Inl ENOENT, st\<lparr>tree := v\<rparr>)
     else do {
       v \<leftarrow> entry_create e SOCKET (Some (euid me)) (Some (egid me)) (Some (0x1FF AND NOT (umask me)))
              (upd_entry e (\<lambda>x. x\<lparr>evnode := Some s\<rparr>) v);
       Some (Inr (), st\<lparr>tree := v\<rparr>) } }"

definition stream_bind :: "caller \<Rightarrow> nat \<Rightarrow> u8 list \<Rightarrow> sockets \<Rightarrow> (unit res \<times> sockets) option" where
  "stream_bind me s path st = do {
     (r, st) \<leftarrow> bind_node me s path st;
     case r of
       Inl e \<Rightarrow> Some (Inl e, st)
     | Inr _ \<Rightarrow> do { x \<leftarrow> get_stream s st; Some (Inr (), put_sock s (Stream (x\<lparr>ls_address := local_path path\<rparr>)) st) } }"

definition stream_listen :: "ucred \<Rightarrow> nat \<Rightarrow> int \<Rightarrow> sockets \<Rightarrow> (unit res \<times> sockets) option" where
  "stream_listen cred s backlog st = do {
     x \<leftarrow> get_stream s st;
     Some (Inr (), put_sock s (Stream (x\<lparr>ls_max_pending := of_int backlog, ls_credentials := Some cred\<rparr>)) st) }"

text \<open>\<^verbatim>\<open>connect\<close> up to its wait: the error it returns, or the state in which it sleeps.\<close>

definition stream_connect_begin :: "caller \<Rightarrow> nat \<Rightarrow> sockaddr \<Rightarrow> sockets \<Rightarrow> (unit res \<times> sockets) option" where
  "stream_connect_begin me s addr st =
     (case addr of
        SA_Local path \<Rightarrow> do {
          (e, v) \<leftarrow> path_to_entry path (Some (cwd me)) True (tree st);
          let st = st\<lparr>tree := v\<rparr>;
          case evnode (entries v e) of
            None \<Rightarrow> Some (Inl ENOENT, st)
          | Some t \<Rightarrow>
              if type_of v t \<noteq> SOCKET then Some (Inl ECONNREFUSED, st)
              else do {
                x \<leftarrow> get_stream t st;
                if ls_num_pending x \<ge> ls_max_pending x then Some (Inl ECONNREFUSED, st)
                else do { h \<leftarrow> list_add_before t s (pend st); Some (Inr (), st\<lparr>pend := h\<rparr>) } } }
      | _ \<Rightarrow> Some (Inl EAFNOSUPPORT, st))"

definition stream_connect_end :: "ucred \<Rightarrow> nat \<Rightarrow> sockets \<Rightarrow> sockets option" where
  "stream_connect_end cred s st = do {
     x \<leftarrow> get_stream s st; Some (put_sock s (Stream (x\<lparr>ls_credentials := Some cred\<rparr>)) st) }"

definition stream_connect ::
  "sockets option list \<Rightarrow> caller \<Rightarrow> ucred \<Rightarrow> nat \<Rightarrow> sockaddr \<Rightarrow> sockets \<Rightarrow> (unit res \<times> sockets) attempt option" where
  "stream_connect env me cred s addr st = do {
     (r, st) \<leftarrow> stream_connect_begin me s addr st;
     case r of
       Inl e \<Rightarrow> Some (Return (Inl e, st))
     | Inr _ \<Rightarrow>
         (case env of
            [] \<Rightarrow> Some Wait
          | None # _ \<Rightarrow> Some (Return (Inl EINTR, st))
          | Some st' # _ \<Rightarrow> do { st \<leftarrow> stream_connect_end cred s st'; Some (Return (Inr (), st)) }) }"

text \<open>One pass of the loop of \<^verbatim>\<open>accept\<close>: the number of the new descriptor and the address of the peer.\<close>

definition stream_accept_attempt ::
  "nat \<Rightarrow> usize \<Rightarrow> usize \<Rightarrow> usize \<Rightarrow> nat \<Rightarrow> sockets \<Rightarrow> ((nat \<times> u8 list) res \<times> sockets) attempt option" where
  "stream_accept_attempt pr p dfl fl s st =
     (if list_is_empty s (pend st)
      then if dfl AND O_NONBLOCK \<noteq> 0 then Some (Return (Inl EWOULDBLOCK, st)) else Some Wait
      else do {
        x \<leftarrow> get_stream s st;
        q \<leftarrow> nextp (pend st) s;
        h \<leftarrow> list_remove q (pend st);
        y \<leftarrow> get_stream q st;
        let new = (stream_new (ls_seqpacket x))\<lparr>ls_peer := Some q, ls_ring := Some stream_ring, ls_address := ls_address x\<rparr>;
        let (c, st) = new_sock (Stream new) (st\<lparr>pend := h\<rparr>);
        let y' = y\<lparr>ls_peer := Some c, ls_ring := (case ls_ring y of None \<Rightarrow> Some stream_ring | Some r \<Rightarrow> Some r)\<rparr>;
        (fd, st) \<leftarrow> create_socket_fd pr p c fl (put_sock q (Stream y') st);
        Some (Return (Inr (fd, ls_address y), st)) })"

definition stream_accept ::
  "sockets option list \<Rightarrow> nat \<Rightarrow> usize \<Rightarrow> usize \<Rightarrow> usize \<Rightarrow> nat \<Rightarrow> sockets \<Rightarrow> ((nat \<times> u8 list) res \<times> sockets) attempt option" where
  "stream_accept env pr p dfl fl s st = wait_loop (stream_accept_attempt pr p dfl fl s) env st"

definition stream_close :: "nat \<Rightarrow> sockets \<Rightarrow> sockets option" where
  "stream_close s st = do {
     x \<leftarrow> get_stream s st;
     st \<leftarrow> (case ls_peer x of
              None \<Rightarrow> Some st
            | Some q \<Rightarrow> do { y \<leftarrow> get_stream q st; Some (put_sock q (Stream (y\<lparr>ls_peer := None\<rparr>)) st) });
     x \<leftarrow> get_stream s st;
     Some (put_sock s (Stream (x\<lparr>ls_ring := None\<rparr>)) st) }"

definition stream_poll :: "u64 \<Rightarrow> nat \<Rightarrow> sockets \<Rightarrow> u64 option" where
  "stream_poll events s st = do {
     x \<leftarrow> get_stream s st;
     let r1 = (if events AND POLLIN \<noteq> 0 \<and> (case ls_ring x of None \<Rightarrow> False | Some rb \<Rightarrow> \<not> rb_is_empty rb) then POLLIN else 0);
     let r2 = (if events AND POLLIN \<noteq> 0 \<and> ls_max_pending x > 0 \<and> \<not> list_is_empty s (pend st) then r1 OR POLLIN else r1);
     if events AND POLLOUT = 0 then Some r2
     else case ls_peer x of
       None \<Rightarrow> Some r2
     | Some q \<Rightarrow> do { y \<leftarrow> get_stream q st;
                       Some (case ls_ring y of None \<Rightarrow> r2 | Some rb \<Rightarrow> if rb_is_full rb then r2 else r2 OR POLLOUT) } }"

section \<open>Stream sockets: messages\<close>

definition SOL_SOCKET :: int where "SOL_SOCKET = 1"
definition SCM_CREDENTIALS :: int where "SCM_CREDENTIALS = 2"
definition MSG_CTRUNC :: usize where "MSG_CTRUNC = 8"

text \<open>\<^verbatim>\<open>CMSG_ALIGN(cmsg_len)\<close>: header and data of a control message, rounded up to a word.\<close>

definition cmsg_space :: "cmsg \<Rightarrow> nat" where
  "cmsg_space c = (16 + length (cmsg_data c) + 7) div 8 * 8"

text \<open>Taking all control messages out of the queue; those that do not fit the buffer are dropped.\<close>

fun take_ancillary :: "nat \<Rightarrow> nat \<Rightarrow> nat \<Rightarrow> cmsg ring_buffer \<Rightarrow> (cmsg list \<times> usize \<times> cmsg ring_buffer) option" where
  "take_ancillary 0 len used rb = Some ([], 0, rb)"
| "take_ancillary (Suc k) len used rb = do {
     (n, cs, rb) \<leftarrow> rb_read rb 1;
     if n = 0 then Some ([], 0, rb)
     else do {
       c \<leftarrow> rd cs 0;
       if used + cmsg_space c \<le> len
       then do { (out, fl, rb) \<leftarrow> take_ancillary k len (used + cmsg_space c) rb; Some (c # out, fl, rb) }
       else do { (out, fl, rb) \<leftarrow> take_ancillary k len used rb; Some (out, fl OR MSG_CTRUNC, rb) } } }"

text \<open>
  The loop over the buffers of \<^verbatim>\<open>recvmsg\<close>: the pieces it copies. \<open>lim\<close> is what is left of the packet of a
  packet socket.
\<close>

fun read_iovs :: "nat option \<Rightarrow> usize list \<Rightarrow> u8 ring_buffer \<Rightarrow> (u8 list list \<times> u8 ring_buffer) option" where
  "read_iovs lim [] rb = Some ([], rb)"
| "read_iovs lim (k # ks) rb =
     (if k = 0 then do { (out, rb) \<leftarrow> read_iovs lim ks rb; Some ([] # out, rb) }
      else let amount = (case lim of None \<Rightarrow> k | Some l \<Rightarrow> kmin k (of_nat l)) in
           if lim \<noteq> None \<and> amount = 0 then Some ([], rb)
           else do {
             (n, bs, rb) \<leftarrow> rb_read rb amount;
             if rb_is_empty rb then Some ([bs], rb)
             else do { (out, rb) \<leftarrow> read_iovs (map_option (\<lambda>l. l - unat n) lim) ks rb; Some (bs # out, rb) } })"

definition le32_bytes :: "u32 \<Rightarrow> u8 list" where
  "le32_bytes x = rev (be32_bytes x)"

definition le32_value :: "u8 list \<Rightarrow> u32 option" where
  "le32_value bs = get32 (rev bs) 0"

text \<open>Reading from the queue of a connected socket, with what is left of a packet dropped.\<close>

definition stream_read :: "bool \<Rightarrow> usize list \<Rightarrow> u8 ring_buffer \<Rightarrow> (u8 list list \<times> usize \<times> u8 ring_buffer) option" where
  "stream_read seqpacket lens rb =
     (if \<not> seqpacket then do { (out, rb) \<leftarrow> read_iovs None lens rb; Some (out, 0, rb) }
      else do {
        (n, hd, rb) \<leftarrow> rb_read rb 4;
        if n \<noteq> 4 then None
        else do {
          len \<leftarrow> le32_value hd;
          (out, rb) \<leftarrow> read_iovs (Some (unat len)) lens rb;
          let got = length (concat out);
          if got > unat len then None
          else if got < unat len then Some (out, MSG_TRUNC, snd (rb_truncate rb (of_nat (unat len - got))))
          else Some (out, 0, rb) } })"

definition stream_recv_attempt ::
  "usize \<Rightarrow> usize \<Rightarrow> usize list \<Rightarrow> nat \<Rightarrow> sockets \<Rightarrow> ((u8 list list \<times> usize) res \<times> sockets) attempt option" where
  "stream_recv_attempt dfl mfl lens s st = do {
     x \<leftarrow> get_stream s st;
     rb \<leftarrow> ls_ring x;
     if rb_is_empty rb
     then if dfl AND O_NONBLOCK \<noteq> 0 \<or> mfl AND MSG_DONTWAIT \<noteq> 0 then Some (Return (Inl EWOULDBLOCK, st)) else Some Wait
     else do {
       (out, fl, rb) \<leftarrow> stream_read (ls_seqpacket x) lens rb;
       q \<leftarrow> ls_peer x;
       Some (Return (Inr (out, fl), put_sock s (Stream (x\<lparr>ls_ring := Some rb\<rparr>)) st)) } }"

text \<open>The part of \<^verbatim>\<open>recvmsg\<close> in front of its loop: the control messages copied and the flags so far.\<close>

definition stream_recv_control :: "nat \<Rightarrow> nat \<Rightarrow> sockets \<Rightarrow> (cmsg list \<times> usize \<times> sockets) option" where
  "stream_recv_control ctl s st =
     (if ctl = 0 then Some ([], 0, st)
      else do {
        x \<leftarrow> get_stream s st;
        (cs, fl, rb) \<leftarrow> take_ancillary (Suc (unat (data_count (ls_ancillary x)))) ctl 0 (ls_ancillary x);
        Some (cs, fl, put_sock s (Stream (x\<lparr>ls_ancillary := rb\<rparr>)) st) })"

definition stream_recvmsg ::
  "sockets option list \<Rightarrow> usize \<Rightarrow> usize \<Rightarrow> usize list \<Rightarrow> nat \<Rightarrow> nat \<Rightarrow> sockets \<Rightarrow>
   (cmsg list \<times> usize \<times> ((u8 list list \<times> usize) res \<times> sockets) attempt) option" where
  "stream_recvmsg env dfl mfl lens ctl s st = do {
     (cs, fl, st) \<leftarrow> stream_recv_control ctl s st;
     x \<leftarrow> get_stream s st;
     if ls_peer x = None \<or> ls_ring x = None then Some (cs, fl, Return (Inl ENOTCONN, st))
     else do { r \<leftarrow> wait_loop (stream_recv_attempt dfl mfl lens s) env st; Some (cs, fl, r) } }"

text \<open>The control messages of \<^verbatim>\<open>sendmsg\<close>: credentials go to the peer, which is not checked to exist.\<close>

fun send_ancillary :: "nat option \<Rightarrow> cmsg list \<Rightarrow> sockets \<Rightarrow> sockets option" where
  "send_ancillary q [] st = Some st"
| "send_ancillary q (c # cs) st =
     (if cmsg_level c = SOL_SOCKET \<and> cmsg_type c = SCM_CREDENTIALS
      then do {
        q' \<leftarrow> q;
        y \<leftarrow> get_stream q' st;
        (n, rb) \<leftarrow> rb_write (ls_ancillary y) [c] 1;
        send_ancillary q cs (put_sock q' (Stream (y\<lparr>ls_ancillary := rb\<rparr>)) st) }
      else send_ancillary q cs st)"

text \<open>The loop over the buffers of \<^verbatim>\<open>sendmsg\<close>: how many bytes the queue took.\<close>

fun write_iovs :: "u8 list list \<Rightarrow> u8 ring_buffer \<Rightarrow> (nat \<times> u8 ring_buffer) option" where
  "write_iovs [] rb = Some (0, rb)"
| "write_iovs (bs # rest) rb =
     (if bs = [] then write_iovs rest rb
      else do {
        (n, rb) \<leftarrow> rb_write rb bs (of_nat (length bs));
        if rb_is_full rb then Some (unat n, rb)
        else do { (m, rb) \<leftarrow> write_iovs rest rb; Some (unat n + m, rb) } })"

definition stream_write :: "bool \<Rightarrow> u8 list list \<Rightarrow> u8 ring_buffer \<Rightarrow> (nat \<times> u8 ring_buffer) option" where
  "stream_write seqpacket iovs rb =
     (if \<not> seqpacket then write_iovs iovs rb
      else do {
        (n, rb) \<leftarrow> rb_write rb (le32_bytes (of_nat (length (concat iovs)))) 4;
        if n \<noteq> 4 then None else write_iovs iovs rb })"

definition stream_send_attempt ::
  "usize \<Rightarrow> usize \<Rightarrow> u8 list list \<Rightarrow> nat \<Rightarrow> sockets \<Rightarrow> (nat res \<times> sockets) attempt option" where
  "stream_send_attempt dfl mfl iovs s st = do {
     x \<leftarrow> get_stream s st;
     q \<leftarrow> ls_peer x;
     y \<leftarrow> get_stream q st;
     rb \<leftarrow> ls_ring y;
     if rb_is_full rb
     then if dfl AND O_NONBLOCK \<noteq> 0 \<or> mfl AND MSG_DONTWAIT \<noteq> 0 then Some (Return (Inl EWOULDBLOCK, st)) else Some Wait
     else do {
       (n, rb) \<leftarrow> stream_write (ls_seqpacket x) iovs rb;
       Some (Return (Inr n, put_sock q (Stream (y\<lparr>ls_ring := Some rb\<rparr>)) st)) } }"

definition stream_sendmsg ::
  "sockets option list \<Rightarrow> usize \<Rightarrow> usize \<Rightarrow> nat \<Rightarrow> cmsg list \<Rightarrow> u8 list list \<Rightarrow> nat \<Rightarrow> sockets \<Rightarrow> (nat res \<times> sockets) attempt option" where
  "stream_sendmsg env dfl mfl namelen ctl iovs s st =
     (if namelen \<noteq> 0 then Some (Return (Inl EISCONN, st))
      else do {
        x \<leftarrow> get_stream s st;
        st \<leftarrow> send_ancillary (ls_peer x) ctl st;
        case ls_peer x of
          None \<Rightarrow> Some (Return (Inl ENOTCONN, st))
        | Some q \<Rightarrow> do {
            y \<leftarrow> get_stream q st;
            if ls_ring y = None then Some (Return (Inl ENOTCONN, st))
            else wait_loop (stream_send_attempt dfl mfl iovs s) env st } })"

text \<open>\<^verbatim>\<open>Socket::read\<close>, \<^verbatim>\<open>write\<close>, \<^verbatim>\<open>readv\<close> and \<^verbatim>\<open>writev\<close> on a stream socket: a message without control data.\<close>

definition socket_readv ::
  "sockets option list \<Rightarrow> usize \<Rightarrow> usize list \<Rightarrow> nat \<Rightarrow> sockets \<Rightarrow> (cmsg list \<times> usize \<times> ((u8 list list \<times> usize) res \<times> sockets) attempt) option" where
  "socket_readv env dfl lens s st = stream_recvmsg env dfl 0 lens 0 s st"

definition socket_writev :: "sockets option list \<Rightarrow> usize \<Rightarrow> u8 list list \<Rightarrow> nat \<Rightarrow> sockets \<Rightarrow> (nat res \<times> sockets) attempt option" where
  "socket_writev env dfl iovs s st = stream_sendmsg env dfl 0 0 [] iovs s st"

section \<open>Stream sockets: options and addresses\<close>

definition SO_PASSCRED :: int where "SO_PASSCRED = 16"
definition SO_PEERCRED :: int where "SO_PEERCRED = 17"
definition SO_SNDBUF :: int where "SO_SNDBUF = 7"
definition SO_RCVBUF :: int where "SO_RCVBUF = 8"
definition SO_KEEPALIVE :: int where "SO_KEEPALIVE = 9"
definition SO_TYPE :: int where "SO_TYPE = 3"
definition SO_DOMAIN :: int where "SO_DOMAIN = 39"

datatype sockopt = Opt_Int int | Opt_Cred "ucred option"

definition stream_getsockopt :: "int \<Rightarrow> int \<Rightarrow> nat \<Rightarrow> sockets \<Rightarrow> sockopt res option" where
  "stream_getsockopt layer number s st = do {
     x \<leftarrow> get_stream s st;
     if layer = SOL_SOCKET \<and> number = SO_PASSCRED then Some (Inr (Opt_Int (if ls_passcred x then 1 else 0)))
     else if layer = SOL_SOCKET \<and> number = SO_PEERCRED
     then do { q \<leftarrow> ls_peer x; y \<leftarrow> get_stream q st; Some (Inr (Opt_Cred (ls_credentials y))) }
     else if layer = SOL_SOCKET \<and> (number = SO_SNDBUF \<or> number = SO_RCVBUF) then Some (Inr (Opt_Int (208 * 1024)))
     else if layer = SOL_SOCKET \<and> number = SO_KEEPALIVE then Some (Inr (Opt_Int 0))
     else Some (Inl ENOPROTOOPT) }"

definition stream_setsockopt :: "int \<Rightarrow> int \<Rightarrow> int \<Rightarrow> nat \<Rightarrow> sockets \<Rightarrow> (unit res \<times> sockets) option" where
  "stream_setsockopt layer number value s st =
     (if layer = SOL_SOCKET \<and> number = SO_PASSCRED
      then do { x \<leftarrow> get_stream s st; Some (Inr (), put_sock s (Stream (x\<lparr>ls_passcred := value \<noteq> 0\<rparr>)) st) }
      else if layer = SOL_SOCKET \<and> (number = SO_SNDBUF \<or> number = SO_RCVBUF) then Some (Inr (), st)
      else if layer = 6 then Some (Inl EOPNOTSUPP, st)
      else Some (Inl ENOPROTOOPT, st))"

text \<open>The bytes copied to a buffer of size \<open>room\<close>, after the two of the family, and the length reported.\<close>

definition addr_out :: "u8 list \<Rightarrow> nat \<Rightarrow> u8 list \<times> nat" where
  "addr_out a room = (let l = get_local_addr_length a in (take (min l room) ([1, 0] @ a), l))"

definition stream_getsockname :: "nat \<Rightarrow> nat \<Rightarrow> sockets \<Rightarrow> (u8 list \<times> nat) option" where
  "stream_getsockname room s st = do { x \<leftarrow> get_stream s st; Some (addr_out (ls_address x) room) }"

definition stream_getpeername :: "nat \<Rightarrow> nat \<Rightarrow> sockets \<Rightarrow> (u8 list \<times> nat) option" where
  "stream_getpeername room s st = do {
     x \<leftarrow> get_stream s st; q \<leftarrow> ls_peer x; y \<leftarrow> get_stream q st; Some (addr_out (ls_address y) room) }"

definition stream_ioctl :: "usize \<Rightarrow> nat \<Rightarrow> sockets \<Rightarrow> u32 res option" where
  "stream_ioctl cmd s st = do {
     x \<leftarrow> get_stream s st;
     if cmd = FIONREAD
     then Some (case ls_ring x of None \<Rightarrow> Inl EINVAL | Some rb \<Rightarrow> Inr (ucast (data_count rb)))
     else Some (case vnode_ioctl cmd of Inl e \<Rightarrow> Inl e | Inr n \<Rightarrow> Inr (ucast n)) }"

section \<open>Datagram sockets\<close>

definition dgram_bind :: "caller \<Rightarrow> nat \<Rightarrow> u8 list \<Rightarrow> sockets \<Rightarrow> (unit res \<times> sockets) option" where
  "dgram_bind me s path st = do {
     (r, st) \<leftarrow> bind_node me s path st;
     case r of
       Inl e \<Rightarrow> Some (Inl e, st)
     | Inr _ \<Rightarrow> do { x \<leftarrow> get_dgram s st; Some (Inr (), put_sock s (Dgram (x\<lparr>ld_address := local_path path\<rparr>)) st) } }"

text \<open>Resolving the name of a datagram socket, for \<^verbatim>\<open>connect\<close> and for a message with an address.\<close>

definition dgram_target :: "caller \<Rightarrow> sockaddr \<Rightarrow> sockets \<Rightarrow> (nat res \<times> sockets) option" where
  "dgram_target me addr st =
     (case addr of
        SA_Local path \<Rightarrow> do {
          (e, v) \<leftarrow> path_to_entry path (Some (cwd me)) True (tree st);
          let st = st\<lparr>tree := v\<rparr>;
          case evnode (entries v e) of
            None \<Rightarrow> Some (Inl ENOENT, st)
          | Some t \<Rightarrow>
              if type_of v t \<noteq> SOCKET then Some (Inl ECONNREFUSED, st)
              else do { x \<leftarrow> socks st t;
                        case x of Dgram _ \<Rightarrow> Some (Inr t, st) | _ \<Rightarrow> Some (Inl EPROTOTYPE, st) } }
      | _ \<Rightarrow> Some (Inl EAFNOSUPPORT, st))"

definition dgram_connect :: "caller \<Rightarrow> nat \<Rightarrow> sockaddr \<Rightarrow> sockets \<Rightarrow> (unit res \<times> sockets) option" where
  "dgram_connect me s addr st = do {
     (r, st) \<leftarrow> dgram_target me addr st;
     case r of
       Inl e \<Rightarrow> Some (Inl e, st)
     | Inr t \<Rightarrow> do { x \<leftarrow> get_dgram s st; Some (Inr (), put_sock s (Dgram (x\<lparr>ld_connected := Some t\<rparr>)) st) } }"

definition dgram_recv_attempt ::
  "usize \<Rightarrow> usize \<Rightarrow> nat list \<Rightarrow> nat \<Rightarrow> sockets \<Rightarrow> ((u8 list list \<times> usize) res \<times> sockets) attempt option" where
  "dgram_recv_attempt dfl mfl lens s st = do {
     x \<leftarrow> get_dgram s st;
     if rb_is_empty (ld_ring x)
     then if dfl AND O_NONBLOCK \<noteq> 0 \<or> mfl AND MSG_DONTWAIT \<noteq> 0 then Some (Return (Inl EWOULDBLOCK, st)) else Some Wait
     else do {
       (k, ds, rb) \<leftarrow> rb_read (ld_ring x) 1;
       if k \<noteq> 1 then None
       else do {
         d \<leftarrow> rd ds 0;
         let out = scatter (lg_data d) lens;
         Some (Return (Inr (out, if length (concat out) < length (lg_data d) then MSG_TRUNC else 0),
                       put_sock s (Dgram (x\<lparr>ld_ring := rb\<rparr>)) st)) } } }"

definition dgram_recvmsg ::
  "sockets option list \<Rightarrow> usize \<Rightarrow> usize \<Rightarrow> nat list \<Rightarrow> nat \<Rightarrow> sockets \<Rightarrow> ((u8 list list \<times> usize) res \<times> sockets) attempt option" where
  "dgram_recvmsg env dfl mfl lens s st = wait_loop (dgram_recv_attempt dfl mfl lens s) env st"

text \<open>The length of a datagram is stored in 32 bits; a longer one would be copied past its block.\<close>

definition dgram_send_attempt ::
  "usize \<Rightarrow> usize \<Rightarrow> u8 list list \<Rightarrow> nat \<Rightarrow> nat \<Rightarrow> sockets \<Rightarrow> (nat res \<times> sockets) attempt option" where
  "dgram_send_attempt dfl mfl iovs s t st = do {
     y \<leftarrow> get_dgram t st;
     if rb_is_full (ld_ring y)
     then if dfl AND O_NONBLOCK \<noteq> 0 \<or> mfl AND MSG_DONTWAIT \<noteq> 0 then Some (Return (Inl EWOULDBLOCK, st)) else Some Wait
     else if length (concat iovs) \<ge> 2 ^ 32 then None
     else do {
       (k, rb) \<leftarrow> rb_write (ld_ring y) [\<lparr>lg_from = s, lg_data = concat iovs\<rparr>] 1;
       if k \<noteq> 1 then None
       else Some (Return (Inr (length (concat iovs)), put_sock t (Dgram (y\<lparr>ld_ring := rb\<rparr>)) st)) } }"

definition dgram_sendmsg ::
  "sockets option list \<Rightarrow> caller \<Rightarrow> usize \<Rightarrow> usize \<Rightarrow> sockaddr option \<Rightarrow> u8 list list \<Rightarrow> nat \<Rightarrow> sockets \<Rightarrow>
   (nat res \<times> sockets) attempt option" where
  "dgram_sendmsg env me dfl mfl name iovs s st = do {
     x \<leftarrow> get_dgram s st;
     (r, st) \<leftarrow> (case ld_connected x of
                   Some t \<Rightarrow> Some (Inr t, st)
                 | None \<Rightarrow> (case name of
                     None \<Rightarrow> Some (Inl EDESTADDRREQ, st)
                   | Some addr \<Rightarrow> dgram_target me addr st));
     case r of
       Inl e \<Rightarrow> Some (Return (Inl e, st))
     | Inr t \<Rightarrow> wait_loop (dgram_send_attempt dfl mfl iovs s t) env st }"

definition dgram_poll :: "u64 \<Rightarrow> nat \<Rightarrow> sockets \<Rightarrow> u64 option" where
  "dgram_poll events s st = do {
     x \<leftarrow> get_dgram s st;
     let r1 = (if events AND POLLIN \<noteq> 0 \<and> \<not> rb_is_empty (ld_ring x) then POLLIN else 0);
     if events AND POLLOUT = 0 then Some r1
     else case ld_connected x of
       None \<Rightarrow> Some r1
     | Some q \<Rightarrow> do { y \<leftarrow> get_dgram q st; Some (if rb_is_full (ld_ring y) then r1 else r1 OR POLLOUT) } }"

definition dgram_ioctl :: "usize \<Rightarrow> nat \<Rightarrow> sockets \<Rightarrow> u32 res option" where
  "dgram_ioctl cmd s st = do {
     x \<leftarrow> get_dgram s st;
     if cmd = FIONREAD
     then if rb_is_empty (ld_ring x) then Some (Inr 0)
          else do { (k, ds) \<leftarrow> rb_peek (ld_ring x); d \<leftarrow> rd ds 0; Some (Inr (of_nat (length (lg_data d)))) }
     else Some (case vnode_ioctl cmd of Inl e \<Rightarrow> Inl e | Inr n \<Rightarrow> Inr (ucast n)) }"

definition dgram_getsockname :: "nat \<Rightarrow> nat \<Rightarrow> sockets \<Rightarrow> (u8 list \<times> nat) option" where
  "dgram_getsockname room s st = do { x \<leftarrow> get_dgram s st; Some (addr_out (ld_address x) room) }"

definition dgram_getpeername :: "nat \<Rightarrow> nat \<Rightarrow> sockets \<Rightarrow> (u8 list \<times> nat) option" where
  "dgram_getpeername room s st = do {
     x \<leftarrow> get_dgram s st; q \<leftarrow> ld_connected x; y \<leftarrow> get_dgram q st; Some (addr_out (ld_address y) room) }"

section \<open>System calls on socket descriptors\<close>

definition sock_family :: "sock \<Rightarrow> int" where
  "sock_family x = (case x of Udp \<Rightarrow> AF_INET | _ \<Rightarrow> AF_LOCAL)"

definition sock_type :: "sock \<Rightarrow> usize" where
  "sock_type x = (case x of Stream y \<Rightarrow> if ls_seqpacket y then SOCK_SEQPACKET else SOCK_STREAM | _ \<Rightarrow> SOCK_DGRAM)"

definition syscall_bind :: "caller \<Rightarrow> nat \<Rightarrow> int \<Rightarrow> sockaddr \<Rightarrow> sockets \<Rightarrow> (unit res \<times> sockets) option" where
  "syscall_bind me pr fd addr st = do {
     g \<leftarrow> get_socket pr fd st;
     case g of
       Inl e \<Rightarrow> Some (Inl e, st)
     | Inr (dfl, s) \<Rightarrow> do {
         x \<leftarrow> socks st s;
         if sa_family addr \<noteq> sock_family x then Some (Inl EINVAL, st)
         else case (x, addr) of
           (Stream _, SA_Local path) \<Rightarrow> stream_bind me s path st
         | (Dgram _, SA_Local path) \<Rightarrow> dgram_bind me s path st
         | (Udp, SA_Inet ip port) \<Rightarrow> (let (r, n) = udp_bind s ip port (unet st) in Some (r, st\<lparr>unet := n\<rparr>))
         | _ \<Rightarrow> None } }"

definition syscall_connect ::
  "sockets option list \<Rightarrow> caller \<Rightarrow> ucred \<Rightarrow> nat \<Rightarrow> int \<Rightarrow> sockaddr \<Rightarrow> sockets \<Rightarrow> (unit res \<times> sockets) attempt option" where
  "syscall_connect env me cred pr fd addr st = do {
     g \<leftarrow> get_socket pr fd st;
     case g of
       Inl e \<Rightarrow> Some (Return (Inl e, st))
     | Inr (dfl, s) \<Rightarrow> do {
         x \<leftarrow> socks st s;
         if sa_family addr \<noteq> sock_family x then Some (Return (Inl EAFNOSUPPORT, st))
         else case (x, addr) of
           (Stream _, _) \<Rightarrow> stream_connect env me cred s addr st
         | (Dgram _, _) \<Rightarrow> map_option Return (dgram_connect me s addr st)
         | (Udp, SA_Inet ip port) \<Rightarrow> Some (Return (Inr (), st\<lparr>unet := udp_connect s ip port (unet st)\<rparr>))
         | _ \<Rightarrow> None } }"

definition syscall_listen :: "ucred \<Rightarrow> nat \<Rightarrow> int \<Rightarrow> int \<Rightarrow> sockets \<Rightarrow> (unit res \<times> sockets) option" where
  "syscall_listen cred pr fd backlog st = do {
     g \<leftarrow> get_socket pr fd st;
     case g of
       Inl e \<Rightarrow> Some (Inl e, st)
     | Inr (dfl, s) \<Rightarrow> do {
         x \<leftarrow> socks st s;
         case x of Stream _ \<Rightarrow> stream_listen cred s backlog st | _ \<Rightarrow> Some (Inl EOPNOTSUPP, st) } }"

definition syscall_accept4 ::
  "sockets option list \<Rightarrow> nat \<Rightarrow> usize \<Rightarrow> int \<Rightarrow> usize \<Rightarrow> sockets \<Rightarrow> ((nat \<times> u8 list) res \<times> sockets) attempt option" where
  "syscall_accept4 env pr p fd fl st = do {
     g \<leftarrow> get_socket pr fd st;
     case g of
       Inl e \<Rightarrow> Some (Return (Inl e, st))
     | Inr (dfl, s) \<Rightarrow>
         if fl AND NOT (SOCK_NONBLOCK OR SOCK_CLOEXEC) \<noteq> 0 then Some (Return (Inl EINVAL, st))
         else do {
           x \<leftarrow> socks st s;
           case x of Stream _ \<Rightarrow> stream_accept env pr p dfl fl s st | _ \<Rightarrow> Some (Return (Inl EOPNOTSUPP, st)) } }"

definition syscall_getsockopt :: "nat \<Rightarrow> int \<Rightarrow> int \<Rightarrow> int \<Rightarrow> sockets \<Rightarrow> sockopt res option" where
  "syscall_getsockopt pr fd layer number st = do {
     g \<leftarrow> get_socket pr fd st;
     case g of
       Inl e \<Rightarrow> Some (Inl e)
     | Inr (dfl, s) \<Rightarrow> do {
         x \<leftarrow> socks st s;
         if layer = SOL_SOCKET \<and> number = SO_TYPE then Some (Inr (Opt_Int (uint (sock_type x))))
         else if layer = SOL_SOCKET \<and> number = SO_DOMAIN then Some (Inr (Opt_Int (sock_family x)))
         else case x of Stream _ \<Rightarrow> stream_getsockopt layer number s st | _ \<Rightarrow> Some (Inl ENOPROTOOPT) } }"

end
