(* ===== verification/Userland_Streams.thy ===== *)
theory Userland_Streams
  imports Vfs_Names Userland_Sockets
begin

text \<open>
  Correctness of the sockets of one machine: the invariant of their state under every operation, the
  streams and packets they carry, and the connections \<^verbatim>\<open>accept\<close> makes.
\<close>

section \<open>Reading and writing buffers in pieces\<close>

definition stream_ring_ok :: "u8 ring_buffer \<Rightarrow> bool" where
  "stream_ring_ok rb \<longleftrightarrow> rb_lin rb \<and> rb_size rb = 208 * 1024"

lemma stream_ring_new: "stream_ring_ok stream_ring" "rb_items stream_ring = []" "write_index stream_ring = 0"
  by (simp_all add: stream_ring_ok_def stream_ring_def ring_new_def rb_lin_def data_count_def rb_items_def)

lemma stream_ring_bound: "stream_ring_ok rb \<Longrightarrow> length (rb_items rb) \<le> 212992"
  by (auto simp: stream_ring_ok_def rb_lin_def word_le_nat_alt)

lemma stream_ring_full: "stream_ring_ok rb \<Longrightarrow> rb_is_full rb \<longleftrightarrow> length (rb_items rb) = 212992"
  using rb_full_iff[of rb] by (simp add: stream_ring_ok_def)

lemma ring_read:
  assumes "stream_ring_ok rb" "k = min (unat n) (length (rb_items rb))"
  shows "\<exists>rb'. rb_read rb n = Some (of_nat k, take k (rb_items rb), rb') \<and> stream_ring_ok rb' \<and>
           rb_items rb' = drop k (rb_items rb) \<and> write_index rb' = write_index rb"
  using rb_read_lin[of rb k n] assms by (auto simp: stream_ring_ok_def)

lemma ring_write:
  assumes "stream_ring_ok rb" "length bs < 2 ^ 64" "unat (write_index rb) + length bs < 2 ^ 64"
    and k: "k = min (length bs) (212992 - length (rb_items rb))"
  shows "\<exists>rb'. rb_write rb bs (of_nat (length bs)) = Some (of_nat k, rb') \<and> stream_ring_ok rb' \<and>
           rb_items rb' = rb_items rb @ take k bs \<and> unat (write_index rb') = unat (write_index rb) + k"
proof -
  have n: "unat (of_nat (length bs) :: usize) = length bs" using assms(2) by (simp add: unat_of_nat)
  have k': "k = min (unat (of_nat (length bs) :: usize)) (unat (rb_size rb) - length (rb_items rb))"
    using k n assms(1) by (simp add: stream_ring_ok_def)
  have w: "unat (write_index rb) + k < 2 ^ 64" using assms(3) k by linarith
  from rb_write_lin[of rb "of_nat (length bs)" bs k] obtain rb' where
    "rb_write rb bs (of_nat (length bs)) = Some (of_nat k, rb')" "rb_lin rb'" "rb_items rb' = rb_items rb @ take k bs"
    "rb_size rb' = rb_size rb" "write_index rb' = write_index rb + of_nat k"
    using assms(1) n k' w by (auto simp: stream_ring_ok_def)
  moreover have "unat (write_index rb + of_nat k) = unat (write_index rb) + k"
  proof -
    have "unat (of_nat k :: usize) = k" using w by (simp add: unat_of_nat)
    then show ?thesis using unat_add_no_wrap[of "write_index rb" "of_nat k"] w by simp
  qed
  ultimately show ?thesis using assms(1) by (auto simp: stream_ring_ok_def)
qed

text \<open>What the loops over the buffers do to the queue.\<close>

lemma read_iovs_plain:
  "stream_ring_ok rb \<Longrightarrow>
   \<exists>out rb'. read_iovs None lens rb = Some (out, rb') \<and> stream_ring_ok rb' \<and> rb_items rb = concat out @ rb_items rb' \<and>
     length (concat out) = min (sum_list (map unat lens)) (length (rb_items rb)) \<and> write_index rb' = write_index rb"
proof (induction lens arbitrary: rb)
  case (Cons k ks)
  show ?case
  proof (cases "k = 0")
    case True
    then show ?thesis using Cons.IH[OF Cons.prems] by (auto simp del: length_rb_items)
  next
    case False
    let ?n = "min (unat k) (length (rb_items rb))"
    obtain rb1 where r: "rb_read rb k = Some (of_nat ?n, take ?n (rb_items rb), rb1)" "stream_ring_ok rb1"
      "rb_items rb1 = drop ?n (rb_items rb)" "write_index rb1 = write_index rb"
      using ring_read[OF Cons.prems refl, of k] by blast
    show ?thesis
    proof (cases "rb_is_empty rb1")
      case True
      then have "length (rb_items rb) \<le> unat k" "rb_items rb1 = []" using r(3) by (auto simp: rb_empty_iff simp del: length_rb_items)
      then show ?thesis using False r True by (auto simp del: length_rb_items)
    next
      case ne: False
      obtain out rb' where o: "read_iovs None ks rb1 = Some (out, rb')" "stream_ring_ok rb'" "rb_items rb1 = concat out @ rb_items rb'"
        "length (concat out) = min (sum_list (map unat ks)) (length (rb_items rb1))" "write_index rb' = write_index rb1"
        using Cons.IH[OF r(2)] by blast
      have "rb_items rb = take ?n (rb_items rb) @ rb_items rb1" using r(3) by simp
      moreover have "unat k < length (rb_items rb)" using ne r(3) by (auto simp: rb_empty_iff simp del: length_rb_items)
      ultimately show ?thesis using False ne r o by (auto simp del: length_rb_items)
    qed
  qed
qed simp

lemma write_iovs_spec:
  "stream_ring_ok rb \<Longrightarrow> unat (write_index rb) + length (concat iovs) < 2 ^ 64 \<Longrightarrow>
   \<exists>n rb'. write_iovs iovs rb = Some (n, rb') \<and> stream_ring_ok rb' \<and> n = min (length (concat iovs)) (212992 - length (rb_items rb)) \<and>
     rb_items rb' = rb_items rb @ take n (concat iovs) \<and> unat (write_index rb') = unat (write_index rb) + n"
proof (induction iovs arbitrary: rb)
  case (Cons bs rest)
  show ?case
  proof (cases "bs = []")
    case True
    then show ?thesis using Cons.IH[OF Cons.prems(1)] Cons.prems(2) by simp
  next
    case False
    let ?k = "min (length bs) (212992 - length (rb_items rb))"
    have l: "length bs < 2 ^ 64" "unat (write_index rb) + length bs < 2 ^ 64" using Cons.prems(2) by simp_all
    obtain rb1 where w: "rb_write rb bs (of_nat (length bs)) = Some (of_nat ?k, rb1)" "stream_ring_ok rb1"
      "rb_items rb1 = rb_items rb @ take ?k bs" "unat (write_index rb1) = unat (write_index rb) + ?k"
      using ring_write[OF Cons.prems(1) l refl] by blast
    have u: "unat (of_nat ?k :: usize) = ?k" using l(1) by (simp add: unat_of_nat)
    have b: "length (rb_items rb) \<le> 212992" by (rule stream_ring_bound[OF Cons.prems(1)])
    have l1: "length (rb_items rb1) = length (rb_items rb) + ?k" using w(3) by (simp only: length_append length_take)
    show ?thesis
    proof (cases "rb_is_full rb1")
      case True
      then have "length (rb_items rb1) = 212992" using stream_ring_full[OF w(2)] by blast
      then have k: "?k = 212992 - length (rb_items rb)" using l1 by linarith
      then have "take ?k bs = take ?k (concat (bs # rest))" by simp
      moreover have "?k = min (length (concat (bs # rest))) (212992 - length (rb_items rb))" using k by simp
      ultimately show ?thesis using False w u True by (simp del: length_rb_items length_concat)
    next
      case ne: False
      then have "length (rb_items rb1) \<noteq> 212992" using stream_ring_full[OF w(2)] by blast
      then have k: "?k = length bs" using l1 b by linarith
      obtain m rb' where o: "write_iovs rest rb1 = Some (m, rb')" "stream_ring_ok rb'"
        "m = min (length (concat rest)) (212992 - length (rb_items rb1))"
        "rb_items rb' = rb_items rb1 @ take m (concat rest)" "unat (write_index rb') = unat (write_index rb1) + m"
        using Cons.IH[OF w(2)] w(4) k Cons.prems(2) by auto
      have "length bs + m = min (length (concat (bs # rest))) (212992 - length (rb_items rb))"
        using o(3) l1 k b by simp
      moreover have "rb_items rb' = rb_items rb @ take (length bs + m) (concat (bs # rest))" using o(4) w(3) k by simp
      moreover have "write_iovs (bs # rest) rb = Some (length bs + m, rb')" using False ne w(1) o(1) u k by simp
      ultimately show ?thesis using o(2,5) w(4) k by simp
    qed
  qed
qed simp

section \<open>Packets\<close>

definition packet_bytes :: "u8 list \<Rightarrow> u8 list" where
  "packet_bytes p = le32_bytes (of_nat (length p)) @ p"

lemma length_le32 [simp]: "length (le32_bytes x) = 4"
  by (simp add: le32_bytes_def)

lemma le32_round_trip [simp]: "le32_value (le32_bytes x) = Some x"
  by (simp add: le32_value_def le32_bytes_def get_fields)

lemma read_iovs_packet:
  "stream_ring_ok rb \<Longrightarrow> rb_items rb = p @ rest \<Longrightarrow>
   \<exists>out rb'. read_iovs (Some (length p)) lens rb = Some (out, rb') \<and> stream_ring_ok rb' \<and>
     concat out = take (sum_list (map unat lens)) p \<and> rb_items rb' = drop (sum_list (map unat lens)) p @ rest"
proof (induction lens arbitrary: rb p)
  case (Cons k ks)
  have len: "length p \<le> 212992" using stream_ring_bound[OF Cons.prems(1)] Cons.prems(2) by simp
  then have l: "unat (of_nat (length p) :: usize) = length p" by (simp add: unat_of_nat)
  let ?a = "kmin k (of_nat (length p))"
  have a: "unat ?a = min (unat k) (length p)" by (simp add: unat_kmin l)
  consider (zero) "k = 0" | (empty) "k \<noteq> 0" "p = []" | (some) "k \<noteq> 0" "?a \<noteq> 0"
    using a l by (metis length_0_conv min_def unat_eq_zero)
  then show ?case
  proof cases
    case zero
    then show ?thesis using Cons.IH[OF Cons.prems] by auto
  next
    case empty
    then show ?thesis using Cons.prems by (simp add: kmin_def word_gt_0)
  next
    case some
    let ?n = "min (unat k) (length p)"
    have "?n = min (unat ?a) (length (rb_items rb))" using a Cons.prems(2) by simp
    then obtain rb1 where r: "rb_read rb ?a = Some (of_nat ?n, take ?n (rb_items rb), rb1)" "stream_ring_ok rb1"
      "rb_items rb1 = drop ?n (rb_items rb)" using ring_read[OF Cons.prems(1)] by blast
    have t: "take ?n (rb_items rb) = take (unat k) p" "rb_items rb1 = drop (unat k) p @ rest"
      using r(3) Cons.prems(2) by (simp_all add: min_def)
    have u: "unat (of_nat ?n :: usize) = ?n" using len by (simp add: unat_of_nat)
    show ?thesis
    proof (cases "rb_is_empty rb1")
      case True
      then have "rb_items rb1 = []" by (simp add: rb_empty_iff)
      then have "length p \<le> unat k" "rest = []" using t(2) by auto
      then show ?thesis using some r t True by simp
    next
      case False
      obtain out rb' where o: "read_iovs (Some (length (drop (unat k) p))) ks rb1 = Some (out, rb')" "stream_ring_ok rb'"
        "concat out = take (sum_list (map unat ks)) (drop (unat k) p)"
        "rb_items rb' = drop (sum_list (map unat ks)) (drop (unat k) p) @ rest"
        using Cons.IH[OF r(2) t(2)] by blast
      have "length p - ?n = length (drop (unat k) p)" by simp
      then have "read_iovs (Some (length p)) (k # ks) rb = Some (take (unat k) p # out, rb')"
        using some r(1) t(1) False o(1) u by (simp add: Let_def)
      then show ?thesis using o by (simp add: take_add add.commute)
    qed
  qed
qed simp

lemma stream_read_packet:
  assumes "stream_ring_ok rb" "rb_items rb = packet_bytes p @ rest"
  shows "\<exists>out rb'. stream_read True lens rb = Some (out, if sum_list (map unat lens) < length p then MSG_TRUNC else 0, rb') \<and>
     stream_ring_ok rb' \<and> concat out = take (sum_list (map unat lens)) p \<and> rb_items rb' = rest"
proof -
  let ?s = "sum_list (map unat lens)"
  have len: "length p \<le> 212992" using stream_ring_bound[OF assms(1)] assms(2) by (simp add: packet_bytes_def)
  then have l: "unat (of_nat (length p) :: u32) = length p" "unat (of_nat (length p) :: usize) = length p" by (simp_all add: unat_of_nat)
  have "4 = min (unat (4 :: usize)) (length (rb_items rb))" using assms(2) by (simp add: packet_bytes_def)
  from ring_read[OF assms(1) this] obtain rb1 where r: "rb_read rb 4 = Some (4, le32_bytes (of_nat (length p)), rb1)"
    "stream_ring_ok rb1" "rb_items rb1 = p @ rest" using assms(2) by (auto simp: packet_bytes_def)
  obtain out rb2 where o: "read_iovs (Some (length p)) lens rb1 = Some (out, rb2)" "stream_ring_ok rb2"
    "concat out = take ?s p" "rb_items rb2 = drop ?s p @ rest" using read_iovs_packet[OF r(2,3)] by blast
  have g: "length (concat out) = min ?s (length p)" using o(3) by simp
  show ?thesis
  proof (cases "?s < length p")
    case True
    let ?d = "length p - min ?s (length p)"
    have "unat (of_nat m :: usize) = m" if "m \<le> 212992" for m using that by (simp add: unat_of_nat)
    from this[of ?d] have d: "unat (of_nat ?d :: usize) = ?d" using len by linarith
    have lin: "rb_lin rb2" using o(2) by (simp add: stream_ring_ok_def)
    note tr = rb_truncate_lin[OF lin refl, of "of_nat ?d"]
    have "rb_items (snd (rb_truncate rb2 (of_nat ?d))) = rest"
      using tr(3) d o(4) True by simp
    then show ?thesis using r o l g True tr(2,4)
      by (simp add: stream_read_def Let_def stream_ring_ok_def del: length_concat)
  next
    case False
    then show ?thesis using r o l g by (simp add: stream_read_def Let_def del: length_concat)
  qed
qed

lemma stream_write_packet:
  assumes "stream_ring_ok rb" "unat (write_index rb) + 4 + length (concat iovs) < 2 ^ 64"
    and room: "4 + length (concat iovs) \<le> 212992 - length (rb_items rb)"
  shows "\<exists>rb'. stream_write True iovs rb = Some (length (concat iovs), rb') \<and> stream_ring_ok rb' \<and>
     rb_items rb' = rb_items rb @ packet_bytes (concat iovs)"
proof -
  let ?h = "le32_bytes (of_nat (length (concat iovs)))"
  have k: "4 = min (length ?h) (212992 - length (rb_items rb))" using room unfolding length_le32 by linarith
  have l: "length ?h < 2 ^ 64" "unat (write_index rb) + length ?h < 2 ^ 64" using assms(2) unfolding length_le32 by simp_all
  have e: "(of_nat (length ?h) :: usize) = 4" unfolding length_le32 by simp
  obtain rb1 where w: "rb_write rb ?h 4 = Some (4, rb1)" "stream_ring_ok rb1" "rb_items rb1 = rb_items rb @ ?h"
    "unat (write_index rb1) = unat (write_index rb) + 4"
    using ring_write[OF assms(1) l k] unfolding e by (metis length_le32 of_nat_numeral order_refl take_all)
  have "unat (write_index rb1) + length (concat iovs) < 2 ^ 64" using assms(2) w(4) by simp
  from write_iovs_spec[OF w(2) this] obtain n rb2 where o: "write_iovs iovs rb1 = Some (n, rb2)" "stream_ring_ok rb2"
    "n = min (length (concat iovs)) (212992 - length (rb_items rb1))" "rb_items rb2 = rb_items rb1 @ take n (concat iovs)" by blast
  have "length (rb_items rb1) = length (rb_items rb) + 4" using w(3) by (simp only: length_append length_le32)
  then have "n = length (concat iovs)" using o(3) room by linarith
  then show ?thesis using w o by (simp add: stream_write_def packet_bytes_def)
qed

section \<open>The invariant of the sockets\<close>

text \<open>
  Every socket has a node, its queues are well formed, and its peer is a socket of its own class. \<open>kept B\<close>
  relates the states around an operation that keeps all this, turns no socket into another and changes
  no queue of stream sockets outside \<open>B\<close>.
\<close>

definition stream_ok :: "sockets \<Rightarrow> stream_sock \<Rightarrow> bool" where
  "stream_ok st x \<longleftrightarrow> (\<forall>rb. ls_ring x = Some rb \<longrightarrow> stream_ring_ok rb) \<and> rb_ok (ls_ancillary x) \<and>
     (\<forall>q. ls_peer x = Some q \<longrightarrow> get_stream q st \<noteq> None)"

definition dgram_ok :: "sockets \<Rightarrow> dgram_sock \<Rightarrow> bool" where
  "dgram_ok st x \<longleftrightarrow> rb_ok (ld_ring x) \<and> rb_size (ld_ring x) = 256 \<and>
     (\<forall>q. ld_connected x = Some q \<longrightarrow> get_dgram q st \<noteq> None)"

definition socks_ok :: "sockets \<Rightarrow> bool" where
  "socks_ok st \<longleftrightarrow> vfs_ok (tree st) \<and> (\<forall>s. socks st s \<noteq> None \<longrightarrow> s < num_nodes (tree st)) \<and>
     (\<forall>s x. get_stream s st = Some x \<longrightarrow> stream_ok st x) \<and> (\<forall>s x. get_dgram s st = Some x \<longrightarrow> dgram_ok st x)"

definition kept :: "nat set \<Rightarrow> sockets \<Rightarrow> sockets \<Rightarrow> bool" where
  "kept B st st' \<longleftrightarrow> socks_ok st' \<and> num_entries (tree st) \<le> num_entries (tree st') \<and>
     (\<forall>s x. get_stream s st = Some x \<longrightarrow>
        (\<exists>x'. get_stream s st' = Some x' \<and> ls_seqpacket x' = ls_seqpacket x \<and>
              (s \<notin> B \<and> ls_ring x \<noteq> None \<longrightarrow> ls_ring x' = ls_ring x))) \<and>
     (\<forall>s. get_dgram s st \<noteq> None \<longrightarrow> get_dgram s st' \<noteq> None)"

lemma get_put [simp]:
  "get_stream s (put_sock t (Stream x) st) = (if s = t then Some x else get_stream s st)"
  "get_dgram s (put_sock t (Dgram y) st) = (if s = t then Some y else get_dgram s st)"
  "s \<noteq> t \<Longrightarrow> get_dgram s (put_sock t (Stream x) st) = get_dgram s st"
  "s \<noteq> t \<Longrightarrow> get_stream s (put_sock t (Dgram y) st) = get_stream s st"
  "get_dgram t (put_sock t (Stream x) st) = None" "get_stream t (put_sock t (Dgram y) st) = None"
  "tree (put_sock t z st) = tree st" "pend (put_sock t z st) = pend st" "fdst (put_sock t z st) = fdst st"
  by (simp_all add: get_stream_def get_dgram_def put_sock_def)

lemma get_upd [simp]:
  "get_stream s (st\<lparr>pend := h\<rparr>) = get_stream s st" "get_dgram s (st\<lparr>pend := h\<rparr>) = get_dgram s st"
  "get_stream s (st\<lparr>fdst := f\<rparr>) = get_stream s st" "get_dgram s (st\<lparr>fdst := f\<rparr>) = get_dgram s st"
  "get_stream s (st\<lparr>unet := u\<rparr>) = get_stream s st" "get_dgram s (st\<lparr>unet := u\<rparr>) = get_dgram s st"
  "get_stream s (st\<lparr>tree := v\<rparr>) = get_stream s st" "get_dgram s (st\<lparr>tree := v\<rparr>) = get_dgram s st"
  by (simp_all add: get_stream_def get_dgram_def)

lemma socks_okD:
  "socks_ok st \<Longrightarrow> vfs_ok (tree st)" "socks_ok st \<Longrightarrow> socks st s = Some z \<Longrightarrow> s < num_nodes (tree st)"
  "socks_ok st \<Longrightarrow> get_stream s st = Some x \<Longrightarrow> stream_ok st x" "socks_ok st \<Longrightarrow> get_dgram s st = Some y \<Longrightarrow> dgram_ok st y"
  by (auto simp: socks_ok_def)

lemma kept_refl: "socks_ok st \<Longrightarrow> kept {} st st"
  by (auto simp: kept_def)

lemma keptD:
  "kept B st st' \<Longrightarrow> socks_ok st'" "kept B st st' \<Longrightarrow> num_entries (tree st) \<le> num_entries (tree st')"
  by (auto simp: kept_def)

lemma kept_stream:
  assumes "kept B st st'" "get_stream s st = Some x"
  obtains x' where "get_stream s st' = Some x'" "ls_seqpacket x' = ls_seqpacket x"
    "s \<notin> B \<Longrightarrow> ls_ring x \<noteq> None \<Longrightarrow> ls_ring x' = ls_ring x"
  using assms unfolding kept_def by blast

lemma kept_trans:
  assumes "kept B st st1" "kept C st1 st2"
  shows "kept (B \<union> C) st st2"
  unfolding kept_def
proof (intro conjI allI impI)
  show "socks_ok st2" "num_entries (tree st) \<le> num_entries (tree st2)"
    using keptD[OF assms(1)] keptD[OF assms(2)] by simp_all
  fix s
  show "get_dgram s st \<noteq> None \<Longrightarrow> get_dgram s st2 \<noteq> None" using assms by (simp add: kept_def)
  fix x assume x: "get_stream s st = Some x"
  obtain x1 where 1: "get_stream s st1 = Some x1" "ls_seqpacket x1 = ls_seqpacket x"
    "s \<notin> B \<Longrightarrow> ls_ring x \<noteq> None \<Longrightarrow> ls_ring x1 = ls_ring x" by (rule kept_stream[OF assms(1) x]) blast
  obtain x2 where 2: "get_stream s st2 = Some x2" "ls_seqpacket x2 = ls_seqpacket x1"
    "s \<notin> C \<Longrightarrow> ls_ring x1 \<noteq> None \<Longrightarrow> ls_ring x2 = ls_ring x1" by (rule kept_stream[OF assms(2) 1(1)]) blast
  show "\<exists>x'. get_stream s st2 = Some x' \<and> ls_seqpacket x' = ls_seqpacket x \<and>
      (s \<notin> B \<union> C \<and> ls_ring x \<noteq> None \<longrightarrow> ls_ring x' = ls_ring x)"
    using 1 2 by auto
qed

text \<open>Replacing the state of a stream socket.\<close>

lemma put_stream_kept:
  assumes "socks_ok st" "get_stream s st = Some x" "stream_ok st x'" "ls_seqpacket x' = ls_seqpacket x"
    and "s \<in> B \<or> ls_ring x = None \<or> ls_ring x' = ls_ring x"
  shows "kept B st (put_sock s (Stream x') st)"
proof -
  let ?st = "put_sock s (Stream x') st"
  have ex: "get_stream q st \<noteq> None \<Longrightarrow> get_stream q ?st \<noteq> None" for q by simp
  have s: "get_dgram s st = None" using assms(2) by (auto simp: get_stream_def get_dgram_def split: option.splits sock.splits)
  then have dg: "get_dgram q ?st = get_dgram q st" for q by (cases "q = s") simp_all
  have str: "stream_ok ?st y" if "stream_ok st y" for y using that ex by (auto simp: stream_ok_def)
  have "socks_ok ?st"
    unfolding socks_ok_def
  proof (intro conjI allI impI)
    show "vfs_ok (tree ?st)" using socks_okD(1)[OF assms(1)] by simp
    fix t
    show "socks ?st t \<noteq> None \<Longrightarrow> t < num_nodes (tree ?st)"
      using assms(1,2) by (auto simp: put_sock_def socks_ok_def get_stream_def split: if_splits option.splits)
    fix y
    show "get_stream t ?st = Some y \<Longrightarrow> stream_ok ?st y"
      using str assms(3) socks_okD(3)[OF assms(1)] by (auto split: if_splits)
    fix z
    show "get_dgram t ?st = Some z \<Longrightarrow> dgram_ok ?st z" using socks_okD(4)[OF assms(1)] dg by (auto simp: dgram_ok_def)
  qed
  then show ?thesis using assms(2,4,5) dg by (auto simp: kept_def)
qed

lemma put_dgram_kept:
  assumes "socks_ok st" "get_dgram s st = Some x" "dgram_ok st x'"
  shows "kept {} st (put_sock s (Dgram x') st)"
proof -
  let ?st = "put_sock s (Dgram x') st"
  have s: "get_stream s st = None" using assms(2) by (auto simp: get_stream_def get_dgram_def split: option.splits sock.splits)
  then have dg: "get_stream q ?st = get_stream q st" for q by (cases "q = s") simp_all
  have str: "dgram_ok ?st y" if "dgram_ok st y" for y using that by (auto simp: dgram_ok_def)
  have "socks_ok ?st"
    unfolding socks_ok_def
  proof (intro conjI allI impI)
    show "vfs_ok (tree ?st)" using socks_okD(1)[OF assms(1)] by simp
    fix t
    show "socks ?st t \<noteq> None \<Longrightarrow> t < num_nodes (tree ?st)"
      using assms(1,2) by (auto simp: put_sock_def socks_ok_def get_dgram_def split: if_splits option.splits)
    fix y
    show "get_stream t ?st = Some y \<Longrightarrow> stream_ok ?st y"
      using socks_okD(3)[OF assms(1)] dg by (auto simp: stream_ok_def)
    fix z
    show "get_dgram t ?st = Some z \<Longrightarrow> dgram_ok ?st z" using str assms(3) socks_okD(4)[OF assms(1)] by (auto split: if_splits)
  qed
  then show ?thesis using assms(2) dg by (auto simp: kept_def)
qed

text \<open>Changes outside the sockets.\<close>

lemma outside_kept [simp]:
  "kept B st (st'\<lparr>pend := h\<rparr>) \<longleftrightarrow> kept B st st'" "kept B st (st'\<lparr>fdst := f\<rparr>) \<longleftrightarrow> kept B st st'"
  "kept B st (st'\<lparr>unet := u\<rparr>) \<longleftrightarrow> kept B st st'"
  by (simp_all add: kept_def socks_ok_def stream_ok_def dgram_ok_def)

lemma tree_kept:
  assumes "socks_ok st" "grows (tree st) v"
  shows "kept {} st (st\<lparr>tree := v\<rparr>)"
  using assms by (fastforce simp: kept_def socks_ok_def stream_ok_def dgram_ok_def grows_def)

text \<open>A new socket.\<close>

definition sock_ok :: "sockets \<Rightarrow> sock \<Rightarrow> bool" where
  "sock_ok st x = (case x of Stream y \<Rightarrow> stream_ok st y | Dgram y \<Rightarrow> dgram_ok st y | Udp \<Rightarrow> True)"

lemma new_sock_kept:
  assumes "socks_ok st" "sock_ok st x" "new_sock x st = (n, st')"
  shows "kept {} st st'" "socks st' n = Some x" "n = num_nodes (tree st)" "get_stream n st = None" "fdst st' = fdst st"
    and "q \<noteq> n \<Longrightarrow> socks st' q = socks st q"
proof -
  define v where "v = (tree st)\<lparr>nodes := (nodes (tree st))(num_nodes (tree st) := \<lparr>ndata = tmpfs_new SOCKET, inode_num = 0, nuid = -1,
    ngid = -1, nmode = 0, nrefs = 0\<rparr>), num_nodes := num_nodes (tree st) + 1\<rparr>"
  define st1 where "st1 = put_sock n x (st\<lparr>tree := v\<rparr>)"
  have n: "n = num_nodes (tree st)" using assms(3) by (simp add: new_sock_def Let_def)
  have st': "st' = (case x of Stream _ \<Rightarrow> st1\<lparr>pend := list_init n (pend st1)\<rparr>
      | Udp \<Rightarrow> st1\<lparr>unet := upd_sock n (\<lambda>_. udp_sock_new) (unet st1)\<rparr> | Dgram _ \<Rightarrow> st1)"
    using assms(3) unfolding st1_def v_def n new_sock_def Let_def by simp
  show "n = num_nodes (tree st)" by (rule n)
  have fresh: "socks st n = None" using socks_okD(2)[OF assms(1)] n by fastforce
  then show "get_stream n st = None" by (simp add: get_stream_def)
  have fd: "get_dgram n st = None" using fresh by (simp add: get_dgram_def)
  show "socks st' n = Some x" by (simp add: st' st1_def put_sock_def split: sock.splits)
  show "fdst st' = fdst st" by (simp add: st' st1_def put_sock_def split: sock.splits)
  show "q \<noteq> n \<Longrightarrow> socks st' q = socks st q" by (simp add: st' st1_def put_sock_def split: sock.splits)
  have v: "vfs_ok v" 
  proof -
    have "entry_ok v (entries v e)" if "e < num_entries v" for e
      using entry_ok_mono[OF vfs_ok_entry[OF socks_okD(1)[OF assms(1)], of e], of v] that by (simp add: v_def)
    then show ?thesis using socks_okD(1)[OF assms(1)] by (simp add: vfs_ok_def) (simp add: v_def)
  qed
  have gs: "get_stream q st1 = (if q = n then (case x of Stream y \<Rightarrow> Some y | _ \<Rightarrow> None) else get_stream q st)" for q
    by (simp add: st1_def get_stream_def put_sock_def split: sock.splits)
  have gd: "get_dgram q st1 = (if q = n then (case x of Dgram y \<Rightarrow> Some y | _ \<Rightarrow> None) else get_dgram q st)" for q
    by (simp add: st1_def get_dgram_def put_sock_def split: sock.splits)
  have up: "stream_ok st y \<Longrightarrow> stream_ok st1 y" "dgram_ok st z \<Longrightarrow> dgram_ok st1 z" for y z
    using gs gd \<open>get_stream n st = None\<close> fd by (auto simp: stream_ok_def dgram_ok_def)
  have "socks_ok st1"
    unfolding socks_ok_def
  proof (intro conjI allI impI)
    show "vfs_ok (tree st1)" using v by (simp add: st1_def)
    fix t
    show "socks st1 t \<noteq> None \<Longrightarrow> t < num_nodes (tree st1)"
      using socks_okD(2)[OF assms(1)] n by (auto simp: st1_def v_def put_sock_def less_Suc_eq split: if_splits)
    fix y
    show "get_stream t st1 = Some y \<Longrightarrow> stream_ok st1 y"
      using up socks_okD(3)[OF assms(1)] assms(2) by (auto simp: gs sock_ok_def split: if_splits sock.splits)
    fix z
    show "get_dgram t st1 = Some z \<Longrightarrow> dgram_ok st1 z"
      using up socks_okD(4)[OF assms(1)] assms(2) by (auto simp: gd sock_ok_def split: if_splits sock.splits)
  qed
  then have "kept {} st st1" using gs gd \<open>get_stream n st = None\<close> fd by (auto simp: kept_def st1_def v_def)
  then show "kept {} st st'" by (simp add: st' split: sock.splits)
qed

lemma create_socket_fd_kept:
  assumes "create_socket_fd pr p s fl st = Some (fd, st')" "kept B st0 st"
  shows "kept B st0 st'" "socks st' = socks st" "pend st' = pend st" "tree st' = tree st"
  using assms by (auto simp: create_socket_fd_def split: bind_splits)

lemma new_ok: "stream_ok st (stream_new b)" "dgram_ok st dgram_new"
proof -
  have "(8 :: nat) dvd 2 ^ 64" "(256 :: nat) dvd 2 ^ 64"
    using le_imp_power_dvd[of 3 64 "2 :: nat"] le_imp_power_dvd[of 8 64 "2 :: nat"] by simp_all
  then show "stream_ok st (stream_new b)" "dgram_ok st dgram_new"
    by (simp_all add: stream_ok_def dgram_ok_def stream_new_def dgram_new_def ring_new_def rb_ok_def data_count_def)
qed

section \<open>Every operation keeps the invariant\<close>

lemma socket_class_ok: "socket_class family ty = Some x \<Longrightarrow> sock_ok st x"
  using new_ok by (auto simp: socket_class_def sock_ok_def split: if_splits)

lemma syscall_socket_kept:
  assumes "syscall_socket pr p family ty st = Some (r, st')" "socks_ok st"
  shows "kept {} st st'"
proof -
  let ?fl = "ty AND (SOCK_CLOEXEC OR SOCK_NONBLOCK)"
  show ?thesis
  proof (cases "socket_class family (ty AND NOT ?fl)")
    case None
    then show ?thesis using assms kept_refl by (simp add: syscall_socket_def Let_def)
  next
    case (Some x)
    obtain s st1 where n: "new_sock x st = (s, st1)" by (cases "new_sock x st")
    then obtain fd where "create_socket_fd pr p s ?fl st1 = Some (fd, st')"
      using assms(1) unfolding syscall_socket_def Let_def Some by (auto split: bind_splits)
    then show ?thesis
      using create_socket_fd_kept(1) new_sock_kept(1)[OF assms(2) socket_class_ok[OF Some] n] by blast
  qed
qed

lemma bind_node_kept:
  assumes "bind_node me s path st = Some (r, st')" "socks_ok st" "socks st s \<noteq> None" "cwd me < num_entries (tree st)"
  shows "kept {} st st'"
proof -
  obtain e v where pe: "path_to_entry path (Some (cwd me)) True (tree st) = Some (e, v)"
    using assms(1) by (auto simp: bind_node_def split: bind_splits)
  have sp: "\<forall>q. Some (cwd me) = Some q \<longrightarrow> q < num_entries (tree st)" using assms(4) by simp
  note g = path_to_entry_grows[OF pe socks_okD(1)[OF assms(2)] sp]
  obtain z where "socks st s = Some z" using assms(3) by blast
  then have n: "s < num_nodes v" using socks_okD(2)[OF assms(2)] growsD(3)[OF g(1)] by blast
  have "grows (tree st) (tree st')"
  proof (cases "r = Inr ()")
    case True
    then have "entry_create e SOCKET (Some (euid me)) (Some (egid me)) (Some (0x1FF AND NOT (umask me)))
        (upd_entry e (\<lambda>x. x\<lparr>evnode := Some s\<rparr>) v) = Some (tree st')"
      using assms(1) pe by (auto simp: bind_node_def split: if_splits bind_splits)
    moreover have g2: "grows v (upd_entry e (\<lambda>x. x\<lparr>evnode := Some s\<rparr>) v)" by (rule set_vnode_grows[OF growsD(1)[OF g(1)] n])
    ultimately have "grows (upd_entry e (\<lambda>x. x\<lparr>evnode := Some s\<rparr>) v) (tree st')"
      using entry_create_grows growsD(1)[OF g2] growsD(2)[OF g2 g(2)] by blast
    then show ?thesis using grows_trans[OF g(1) grows_trans[OF g2]] by blast
  next
    case False
    then have "tree st' = v" using assms(1) pe by (auto simp: bind_node_def split: if_splits bind_splits)
    then show ?thesis using g(1) by simp
  qed
  moreover have "\<exists>v. st' = st\<lparr>tree := v\<rparr>" using assms(1) by (auto simp: bind_node_def split: if_splits bind_splits)
  ultimately show ?thesis using tree_kept[OF assms(2)] by auto
qed

lemma stream_okD:
  "stream_ok st x \<Longrightarrow> ls_ring x = Some rb \<Longrightarrow> stream_ring_ok rb" "stream_ok st x \<Longrightarrow> rb_ok (ls_ancillary x)"
  "stream_ok st x \<Longrightarrow> ls_peer x = Some q \<Longrightarrow> \<exists>y. get_stream q st = Some y"
  by (auto simp: stream_ok_def)

text \<open>Members that the invariant does not speak of.\<close>

lemma stream_ok_upd [simp]:
  "stream_ok st (x\<lparr>ls_address := a\<rparr>) = stream_ok st x" "stream_ok st (x\<lparr>ls_max_pending := m\<rparr>) = stream_ok st x"
  "stream_ok st (x\<lparr>ls_credentials := c\<rparr>) = stream_ok st x" "stream_ok st (x\<lparr>ls_passcred := p\<rparr>) = stream_ok st x"
  by (simp_all add: stream_ok_def)

lemma simple_calls_kept:
  assumes "socks_ok st"
  shows "stream_listen cred s backlog st = Some (r, st') \<Longrightarrow> kept {} st st'"
    and "stream_connect_end cred s st = Some st' \<Longrightarrow> kept {} st st'"
    and "stream_setsockopt layer number val s st = Some (r, st') \<Longrightarrow> kept {} st st'"
  using assms kept_refl[OF assms] socks_okD(3)[OF assms]
  by (auto simp: stream_listen_def stream_connect_end_def stream_setsockopt_def split: bind_splits if_splits
      intro!: put_stream_kept)

lemma connect_begin_kept:
  assumes "stream_connect_begin me s addr st = Some (r, st')" "socks_ok st" "cwd me < num_entries (tree st)"
  shows "kept {} st st'"
proof (cases addr)
  case (SA_Local path)
  obtain e v where pe: "path_to_entry path (Some (cwd me)) True (tree st) = Some (e, v)"
    using assms(1) SA_Local by (auto simp: stream_connect_begin_def split: bind_splits)
  have sp: "\<forall>q. Some (cwd me) = Some q \<longrightarrow> q < num_entries (tree st)" using assms(3) by simp
  have "kept {} st (st\<lparr>tree := v\<rparr>)"
    by (rule tree_kept[OF assms(2) path_to_entry_grows(1)[OF pe socks_okD(1)[OF assms(2)] sp]])
  moreover have "st' = st\<lparr>tree := v\<rparr> \<or> (\<exists>h. st' = st\<lparr>tree := v, pend := h\<rparr>)"
    using assms(1) SA_Local pe by (auto simp: stream_connect_begin_def Let_def split: option.splits if_splits bind_splits)
  ultimately show ?thesis by auto
qed (use assms kept_refl in \<open>auto simp: stream_connect_begin_def\<close>)

lemma get_stream_cong: "socks st q = socks st' q \<Longrightarrow> get_stream q st = get_stream q st'"
  by (simp add: get_stream_def)

text \<open>What \<^verbatim>\<open>accept\<close> does with the first socket \<open>q\<close> of the pending list.\<close>

lemma accept_step:
  assumes "stream_accept_attempt pr p dfl fl s st = Some (Return (Inr (fd, a), st'))" "socks_ok st"
  shows "\<exists>x q h y c x' y'. get_stream s st = Some x \<and> nextp (pend st) s = Some q \<and> list_remove q (pend st) = Some h \<and>
     get_stream q st = Some y \<and> a = ls_address y \<and> get_stream c st = None \<and>
     get_stream c st' = Some x' \<and> get_stream q st' = Some y' \<and> ls_peer x' = Some q \<and> ls_peer y' = Some c \<and>
     ls_ring x' = Some stream_ring \<and> ls_ring y' = (case ls_ring y of None \<Rightarrow> Some stream_ring | Some r \<Rightarrow> Some r) \<and>
     ls_seqpacket x' = ls_seqpacket x \<and> pend st' = list_init c h \<and> kept {} st st' \<and>
     install_description pr p c (O_RDONLY OR (if fl AND SOCK_NONBLOCK \<noteq> 0 then O_NONBLOCK else 0)) (fl AND SOCK_CLOEXEC \<noteq> 0) (fdst st) =
       Some (fd, fdst st')"
proof -
  obtain x q h y where x: "get_stream s st = Some x" and q: "nextp (pend st) s = Some q" and h: "list_remove q (pend st) = Some h"
    and y: "get_stream q st = Some y"
    using assms(1) by (auto simp: stream_accept_attempt_def split: if_splits bind_splits)
  define new where "new = (stream_new (ls_seqpacket x))\<lparr>ls_peer := Some q, ls_ring := Some stream_ring, ls_address := ls_address x\<rparr>"
  define y' where "y' c = y\<lparr>ls_peer := Some c, ls_ring := (case ls_ring y of None \<Rightarrow> Some stream_ring | Some r \<Rightarrow> Some r)\<rparr>" for c
  define st0 where "st0 = st\<lparr>pend := h\<rparr>"
  obtain c st1 where n: "new_sock (Stream new) st0 = (c, st1)" by (cases "new_sock (Stream new) st0")
  have run: "create_socket_fd pr p c fl (put_sock q (Stream (y' c)) st1) = Some (fd, st')" and a: "a = ls_address y"
    using assms(1) x q h y n by (auto simp: stream_accept_attempt_def new_def st0_def y'_def Let_def split: if_splits bind_splits)
  have k0: "kept {} st st0" using kept_refl[OF assms(2)] by (simp add: st0_def)
  have "stream_ok st0 new" using y stream_ring_new(1) new_ok(1)[of st0 "ls_seqpacket x"] by (simp add: stream_ok_def new_def st0_def)
  then have "sock_ok st0 (Stream new)" by (simp add: sock_ok_def)
  note ns = new_sock_kept[OF keptD(1)[OF k0] this n]
  have qc: "q \<noteq> c" using ns(4) y by (auto simp: st0_def)
  have y1: "get_stream q st1 = Some y" using get_stream_cong[OF ns(6)[OF qc]] y by (simp add: st0_def)
  have c1: "get_stream c st1 = Some new" using ns(2) by (simp add: get_stream_def)
  have "stream_ok st1 (y' c)"
    using socks_okD(3)[OF keptD(1)[OF ns(1)] y1] stream_ring_new(1) c1 by (auto simp: stream_ok_def y'_def split: option.splits)
  then have k1: "kept {} st1 (put_sock q (Stream (y' c)) st1)"
    by (intro put_stream_kept[OF keptD(1)[OF ns(1)] y1]) (auto simp: y'_def split: option.splits)
  have "kept {} st (put_sock q (Stream (y' c)) st1)"
    using kept_trans[OF kept_trans[OF k0 ns(1)] k1] by simp
  note cf = create_socket_fd_kept[OF run this]
  have st': "get_stream c st' = Some new" "get_stream q st' = Some (y' c)"
    using get_stream_cong[of st' _ "put_sock q (Stream (y' c)) st1"] cf(2) c1 qc by simp_all
  have pend: "pend st' = list_init c h"
    using cf(3) n by (auto simp: new_sock_def st0_def put_sock_def Let_def)
  have fds: "install_description pr p c (O_RDONLY OR (if fl AND SOCK_NONBLOCK \<noteq> 0 then O_NONBLOCK else 0)) (fl AND SOCK_CLOEXEC \<noteq> 0) (fdst st) =
       Some (fd, fdst st')"
    using run ns(5) by (auto simp: create_socket_fd_def st0_def split: bind_splits)
  have fresh: "get_stream c st = None" using ns(4) by (simp add: st0_def)
  show ?thesis
    using x q h y a fresh st' pend cf(1) fds
    by (intro exI[of _ x] exI[of _ q] exI[of _ h] exI[of _ y] exI[of _ c] exI[of _ new] exI[of _ "y' c"])
      (simp add: new_def y'_def stream_new_def)
qed

lemma accept_kept:
  assumes "stream_accept_attempt pr p dfl fl s st = Some (Return (r, st'))" "socks_ok st"
  shows "kept {} st st'"
proof (cases r)
  case (Inl e)
  then have "st' = st" using assms(1)
    by (auto simp: stream_accept_attempt_def split: if_splits bind_splits prod.splits)
  then show ?thesis using kept_refl[OF assms(2)] by simp
next
  case (Inr z)
  then obtain fd a where "stream_accept_attempt pr p dfl fl s st = Some (Return (Inr (fd, a), st'))" using assms(1) by (cases z) simp
  from accept_step[OF this assms(2)] show ?thesis by blast
qed

lemma close_kept:
  assumes "stream_close s st = Some st'" "socks_ok st"
  shows "kept {s} st st'"
proof -
  obtain x where x: "get_stream s st = Some x" using assms(1) by (auto simp: stream_close_def split: bind_splits)
  have "\<exists>st1. (case ls_peer x of None \<Rightarrow> Some st
      | Some q \<Rightarrow> do { y \<leftarrow> get_stream q st; Some (put_sock q (Stream (y\<lparr>ls_peer := None\<rparr>)) st) }) = Some st1 \<and> kept {} st st1"
  proof (cases "ls_peer x")
    case None
    then show ?thesis using kept_refl[OF assms(2)] by simp
  next
    case (Some q)
    then obtain y where y: "get_stream q st = Some y" using stream_okD(3)[OF socks_okD(3)[OF assms(2) x]] by blast
    have "stream_ok st (y\<lparr>ls_peer := None\<rparr>)" using socks_okD(3)[OF assms(2) y] by (simp add: stream_ok_def)
    then show ?thesis using Some y put_stream_kept[OF assms(2) y] by simp
  qed
  then obtain st1 where st1: "(case ls_peer x of None \<Rightarrow> Some st
      | Some q \<Rightarrow> do { y \<leftarrow> get_stream q st; Some (put_sock q (Stream (y\<lparr>ls_peer := None\<rparr>)) st) }) = Some st1" "kept {} st st1" by blast
  obtain x1 where x1: "get_stream s st1 = Some x1" by (rule kept_stream[OF st1(2) x])
  have "stream_ok st1 (x1\<lparr>ls_ring := None\<rparr>)" using socks_okD(3)[OF keptD(1)[OF st1(2)] x1] by (simp add: stream_ok_def)
  then have "kept {s} st1 (put_sock s (Stream (x1\<lparr>ls_ring := None\<rparr>)) st1)"
    by (intro put_stream_kept[OF keptD(1)[OF st1(2)] x1]) simp_all
  moreover have "st' = put_sock s (Stream (x1\<lparr>ls_ring := None\<rparr>)) st1"
    using assms(1) x st1(1) x1 by (simp add: stream_close_def)
  ultimately show ?thesis using kept_trans[OF st1(2)] by simp
qed

text \<open>Control messages change only the queue of control messages.\<close>

lemma ancillary_kept:
  assumes "socks_ok st" "get_stream q st = Some y" "rb_ok rb"
  shows "kept {} st (put_sock q (Stream (y\<lparr>ls_ancillary := rb\<rparr>)) st)"
  using socks_okD(3)[OF assms(1,2)] assms by (intro put_stream_kept) (auto simp: stream_ok_def)

lemma send_ancillary_kept: "send_ancillary q cs st = Some st' \<Longrightarrow> socks_ok st \<Longrightarrow> kept {} st st'"
proof (induction q cs st rule: send_ancillary.induct)
  case (1 q st)
  then show ?case using kept_refl by simp
next
  case (2 q c cs st)
  show ?case
  proof (cases "cmsg_level c = SOL_SOCKET \<and> cmsg_type c = SCM_CREDENTIALS")
    case True
    then obtain q' y n rb where w: "q = Some q'" "get_stream q' st = Some y" "rb_write (ls_ancillary y) [c] 1 = Some (n, rb)"
      "send_ancillary q cs (put_sock q' (Stream (y\<lparr>ls_ancillary := rb\<rparr>)) st) = Some st'"
      using "2.prems"(1) by (auto split: bind_splits)
    have "rb_ok rb" using ring.put_cases(1)[OF stream_okD(2)[OF socks_okD(3)[OF "2.prems"(2) w(2)]] w(3)] by simp
    then have k: "kept {} st (put_sock q' (Stream (y\<lparr>ls_ancillary := rb\<rparr>)) st)" by (rule ancillary_kept[OF "2.prems"(2) w(2)])
    have "kept {} (put_sock q' (Stream (y\<lparr>ls_ancillary := rb\<rparr>)) st) st'"
      using "2.IH"(1)[OF True w(1,2,3) refl w(4) keptD(1)[OF k]] .
    then show ?thesis using kept_trans[OF k] by simp
  next
    case False
    then show ?thesis using 2 by auto
  qed
qed

lemma take_ancillary_ok: "take_ancillary k len used rb = Some (cs, fl, rb') \<Longrightarrow> rb_ok rb \<Longrightarrow> rb_ok rb'"
proof (induction k len used rb arbitrary: cs fl rb' rule: take_ancillary.induct)
  case (2 k len used rb)
  then obtain n ds rb1 where r: "rb_read rb 1 = Some (n, ds, rb1)" by (auto split: bind_splits)
  have ok: "rb_ok rb1" by (rule ring.get_cases(1)[OF "2.prems"(2) r])
  show ?case
  proof (cases "n = 0")
    case True
    then show ?thesis using "2.prems" r ok by simp
  next
    case False
    then obtain c where c: "rd ds 0 = Some c" using "2.prems"(1) r by (auto split: bind_splits)
    then show ?thesis
    proof (cases "used + cmsg_space c \<le> len")
      case True
      then obtain out fl1 where "take_ancillary k len (used + cmsg_space c) rb1 = Some (out, fl1, rb')"
        using "2.prems"(1) r False c by (auto split: bind_splits)
      then show ?thesis using "2.IH"(1)[OF r refl refl False c True] ok by blast
    next
      case nf: False
      then obtain out fl1 where "take_ancillary k len used rb1 = Some (out, fl1, rb')"
        using "2.prems"(1) r False c by (auto split: bind_splits)
      then show ?thesis using "2.IH"(2)[OF r refl refl False c nf] ok by blast
    qed
  qed
qed simp

lemma recv_control_kept:
  assumes "stream_recv_control ctl s st = Some (cs, fl, st')" "socks_ok st"
  shows "kept {} st st'"
proof (cases "ctl = 0")
  case True
  then show ?thesis using assms kept_refl by (simp add: stream_recv_control_def)
next
  case False
  then obtain x rb where x: "get_stream s st = Some x"
    "take_ancillary (Suc (unat (data_count (ls_ancillary x)))) ctl 0 (ls_ancillary x) = Some (cs, fl, rb)"
    "st' = put_sock s (Stream (x\<lparr>ls_ancillary := rb\<rparr>)) st"
    using assms(1) unfolding stream_recv_control_def by (auto simp del: take_ancillary.simps split: bind_splits)
  have "rb_ok rb" using take_ancillary_ok[OF x(2)] stream_okD(2)[OF socks_okD(3)[OF assms(2) x(1)]] by blast
  then show ?thesis using ancillary_kept[OF assms(2) x(1)] x(3) by simp
qed

text \<open>
  One pass of \<^verbatim>\<open>sendmsg\<close> and of \<^verbatim>\<open>recvmsg\<close>: what it does to the queue of the receiving socket.
\<close>

lemma send_step:
  assumes "stream_send_attempt dfl mfl iovs s st = Some (Return (Inr n, st'))" "socks_ok st"
    and x: "get_stream s st = Some x" "ls_peer x = Some q" "get_stream q st = Some y" "ls_ring y = Some rb"
    and nw: "unat (write_index rb) + 4 + length (concat iovs) < 2 ^ 64"
  shows "\<exists>rb'. st' = put_sock q (Stream (y\<lparr>ls_ring := Some rb'\<rparr>)) st \<and> stream_ring_ok rb' \<and> n \<le> length (concat iovs) \<and>
     rb_items rb' = rb_items rb @ (if ls_seqpacket x then le32_bytes (of_nat (length (concat iovs))) else []) @ take n (concat iovs) \<and>
     kept {q} st st'"
proof -
  obtain rb' where w: "stream_write (ls_seqpacket x) iovs rb = Some (n, rb')" and st': "st' = put_sock q (Stream (y\<lparr>ls_ring := Some rb'\<rparr>)) st"
    using assms(1) x by (auto simp: stream_send_attempt_def split: bind_splits if_splits)
  have ok: "stream_ring_ok rb" by (rule stream_okD(1)[OF socks_okD(3)[OF assms(2) x(3)] x(4)])
  have r: "stream_ring_ok rb' \<and> n \<le> length (concat iovs) \<and>
     rb_items rb' = rb_items rb @ (if ls_seqpacket x then le32_bytes (of_nat (length (concat iovs))) else []) @ take n (concat iovs)"
  proof (cases "ls_seqpacket x")
    case False
    then show ?thesis using w write_iovs_spec[OF ok, of iovs] nw by (auto simp: stream_write_def)
  next
    case True
    let ?h = "le32_bytes (of_nat (length (concat iovs)))"
    obtain rb1 where h: "rb_write rb ?h 4 = Some (4, rb1)" "write_iovs iovs rb1 = Some (n, rb')"
      using w True by (auto simp: stream_write_def split: bind_splits if_splits)
    let ?k = "min (length ?h) (212992 - length (rb_items rb))"
    have l: "length ?h < 2 ^ 64" "unat (write_index rb) + length ?h < 2 ^ 64" using nw unfolding length_le32 by simp_all
    have e: "(of_nat (length ?h) :: usize) = 4" unfolding length_le32 by simp
    from ring_write[OF ok l refl] h(1) have h1: "(4 :: usize) = of_nat ?k" "stream_ring_ok rb1"
      "rb_items rb1 = rb_items rb @ take ?k ?h" "unat (write_index rb1) = unat (write_index rb) + ?k" unfolding e by auto
    have "?k \<le> 4" unfolding length_le32 by simp
    then have "unat (of_nat ?k :: usize) = ?k" by (simp add: unat_of_nat)
    moreover have "unat (4 :: usize) = 4" by simp
    ultimately have "?k = 4" using h1(1) by metis
    then have h2: "rb_items rb1 = rb_items rb @ ?h" "unat (write_index rb1) + length (concat iovs) < 2 ^ 64"
      using h1(3,4) nw by (simp_all add: \<open>?k = 4\<close>)
    from write_iovs_spec[OF h1(2) h2(2)] h(2) h2(1) True show ?thesis by auto
  qed
  have "kept {q} st st'"
    unfolding st' using r socks_okD(3)[OF assms(2) x(3)]
    by (intro put_stream_kept[OF assms(2) x(3)]) (auto simp: stream_ok_def)
  then show ?thesis using st' r by blast
qed

lemma ring_read_ok: "rb_read rb n = Some (k, bs, rb') \<Longrightarrow> stream_ring_ok rb \<Longrightarrow> stream_ring_ok rb'"
  using ring_read[of rb _ n] by fastforce

lemma read_iovs_ok: "read_iovs lim lens rb = Some (out, rb') \<Longrightarrow> stream_ring_ok rb \<Longrightarrow> stream_ring_ok rb'"
proof (induction lim lens rb arbitrary: out rule: read_iovs.induct)
  case (2 lim k ks rb)
  let ?a = "case lim of None \<Rightarrow> k | Some l \<Rightarrow> kmin k (of_nat l)"
  consider (zero) "k = 0" | (stop) "k \<noteq> 0" "lim \<noteq> None \<and> ?a = 0" | (read) "k \<noteq> 0" "\<not> (lim \<noteq> None \<and> ?a = 0)" by blast
  then show ?case
  proof cases
    case zero
    then show ?thesis using "2.prems" "2.IH"(1)[OF zero] by (auto split: bind_splits)
  next
    case stop
    then show ?thesis using "2.prems" by (simp add: Let_def)
  next
    case read
    then obtain n bs rb1 where r: "rb_read rb ?a = Some (n, bs, rb1)"
      using "2.prems"(1) by (auto simp: Let_def split: bind_splits)
    note ok = ring_read_ok[OF r "2.prems"(2)]
    show ?thesis
    proof (cases "rb_is_empty rb1")
      case True
      then show ?thesis using "2.prems"(1) read r ok by (auto simp: Let_def split: if_splits)
    next
      case False
      then obtain out' where "read_iovs (map_option (\<lambda>l. l - unat n) lim) ks rb1 = Some (out', rb')"
        using "2.prems"(1) read r by (auto simp: Let_def split: bind_splits)
      then show ?thesis using "2.IH"(2)[OF read(1) refl read(2) r refl refl False] ok by blast
    qed
  qed
qed simp

lemma stream_read_ok: "stream_read sq lens rb = Some (out, fl, rb') \<Longrightarrow> stream_ring_ok rb \<Longrightarrow> stream_ring_ok rb'"
proof (cases sq)
  case False
  then show "stream_read sq lens rb = Some (out, fl, rb') \<Longrightarrow> stream_ring_ok rb \<Longrightarrow> stream_ring_ok rb'"
    using read_iovs_ok by (auto simp: stream_read_def split: bind_splits)
next
  case True
  assume r: "stream_read sq lens rb = Some (out, fl, rb')" and ok: "stream_ring_ok rb"
  then obtain n h rb1 lim o2 rb2 where 1: "rb_read rb 4 = Some (n, h, rb1)" "read_iovs lim lens rb1 = Some (o2, rb2)"
    "rb' = rb2 \<or> (\<exists>m. rb' = snd (rb_truncate rb2 m))"
    using True by (auto simp: stream_read_def Let_def split: bind_splits if_splits) blast+
  have ok2: "stream_ring_ok rb2" using 1 ok ring_read_ok read_iovs_ok by blast
  then have "stream_ring_ok (snd (rb_truncate rb2 m))" for m
    using rb_truncate_lin(2,4)[of rb2 _ m] by (simp add: stream_ring_ok_def)
  then show ?thesis using 1(3) ok2 by auto
qed

lemma recv_step:
  assumes "stream_recv_attempt dfl mfl lens s st = Some (Return (Inr (out, fl), st'))" "socks_ok st"
  shows "\<exists>x rb rb'. get_stream s st = Some x \<and> ls_ring x = Some rb \<and> stream_read (ls_seqpacket x) lens rb = Some (out, fl, rb') \<and>
     st' = put_sock s (Stream (x\<lparr>ls_ring := Some rb'\<rparr>)) st \<and> stream_ring_ok rb \<and> stream_ring_ok rb' \<and> kept {s} st st'"
proof -
  obtain x rb rb' where x: "get_stream s st = Some x" "ls_ring x = Some rb" "stream_read (ls_seqpacket x) lens rb = Some (out, fl, rb')"
    "st' = put_sock s (Stream (x\<lparr>ls_ring := Some rb'\<rparr>)) st"
    using assms(1) by (auto simp: stream_recv_attempt_def split: bind_splits if_splits)
  note sx = socks_okD(3)[OF assms(2) x(1)]
  have ok: "stream_ring_ok rb" "stream_ring_ok rb'" using stream_okD(1)[OF sx x(2)] stream_read_ok[OF x(3)] by blast+
  have "kept {s} st st'"
    unfolding x(4) using ok sx by (intro put_stream_kept[OF assms(2) x(1)]) (auto simp: stream_ok_def)
  then show ?thesis using x ok by blast
qed

lemma dgram_send_kept:
  assumes "dgram_send_attempt dfl mfl iovs s t st = Some (Return (r, st'))" "socks_ok st"
  shows "kept {} st st'"
proof (cases "st' = st")
  case True
  then show ?thesis using kept_refl[OF assms(2)] by simp
next
  case False
  then obtain y k rb where y: "get_dgram t st = Some y" "rb_write (ld_ring y) [\<lparr>lg_from = s, lg_data = concat iovs\<rparr>] 1 = Some (k, rb)"
    "st' = put_sock t (Dgram (y\<lparr>ld_ring := rb\<rparr>)) st"
    using assms(1) by (auto simp: dgram_send_attempt_def split: bind_splits if_splits)
  have ok: "dgram_ok st y" by (rule socks_okD(4)[OF assms(2) y(1)])
  then have "rb_ok rb \<and> rb_size rb = 256"
    using rb_write_spec[of "ld_ring y" 1 "[\<lparr>lg_from = s, lg_data = concat iovs\<rparr>]"] y(2) by (auto simp: dgram_ok_def)
  then show ?thesis using put_dgram_kept[OF assms(2) y(1)] y(3) ok by (simp add: dgram_ok_def)
qed

lemma dgram_recv_kept:
  assumes "dgram_recv_attempt dfl mfl lens s st = Some (Return (r, st'))" "socks_ok st"
  shows "kept {} st st'"
proof (cases "st' = st")
  case True
  then show ?thesis using kept_refl[OF assms(2)] by simp
next
  case False
  then obtain y k ds rb where y: "get_dgram s st = Some y" "rb_read (ld_ring y) 1 = Some (k, ds, rb)"
    "st' = put_sock s (Dgram (y\<lparr>ld_ring := rb\<rparr>)) st"
    using assms(1) by (auto simp: dgram_recv_attempt_def Let_def split: bind_splits if_splits)
  have ok: "dgram_ok st y" by (rule socks_okD(4)[OF assms(2) y(1)])
  then have "rb_ok rb \<and> rb_size rb = 256" using rb_read_spec[of "ld_ring y" _ 1] y(2) by (fastforce simp: dgram_ok_def)
  then show ?thesis using put_dgram_kept[OF assms(2) y(1)] y(3) ok by (simp add: dgram_ok_def)
qed

lemma dgram_connect_kept:
  assumes "dgram_connect me s addr st = Some (r, st')" "socks_ok st" "cwd me < num_entries (tree st)"
  shows "kept {} st st'"
proof -
  obtain q st1 where t: "dgram_target me addr st = Some (q, st1)" using assms(1) by (auto simp: dgram_connect_def split: bind_splits)
  have 1: "kept {} st st1 \<and> (\<forall>t. q = Inr t \<longrightarrow> get_dgram t st1 \<noteq> None)"
  proof (cases addr)
    case (SA_Local path)
    obtain e v where pe: "path_to_entry path (Some (cwd me)) True (tree st) = Some (e, v)"
      using t SA_Local by (auto simp: dgram_target_def split: bind_splits)
    have sp: "\<forall>q. Some (cwd me) = Some q \<longrightarrow> q < num_entries (tree st)" using assms(3) by simp
    have "kept {} st (st\<lparr>tree := v\<rparr>)"
      by (rule tree_kept[OF assms(2) path_to_entry_grows(1)[OF pe socks_okD(1)[OF assms(2)] sp]])
    moreover have "st1 = st\<lparr>tree := v\<rparr> \<and> (\<forall>t. q = Inr t \<longrightarrow> get_dgram t st1 \<noteq> None)"
      using t SA_Local pe
      by (auto simp: dgram_target_def Let_def get_dgram_def split: option.splits if_splits bind_splits sock.splits)
    ultimately show ?thesis by auto
  qed (use t assms kept_refl in \<open>auto simp: dgram_target_def\<close>)
  show ?thesis
  proof (cases q)
    case (Inl e)
    then show ?thesis using assms(1) t 1 by (simp add: dgram_connect_def)
  next
    case (Inr d)
    then obtain x where x: "get_dgram s st1 = Some x" "st' = put_sock s (Dgram (x\<lparr>ld_connected := Some d\<rparr>)) st1"
      using assms(1) t by (auto simp: dgram_connect_def split: bind_splits)
    note ok1 = keptD(1)[OF conjunct1[OF 1]]
    have "kept {} st1 st'"
      unfolding x(2) using 1 Inr socks_okD(4)[OF ok1 x(1)] by (intro put_dgram_kept[OF ok1 x(1)]) (auto simp: dgram_ok_def)
    then show ?thesis using kept_trans[OF conjunct1[OF 1]] by simp
  qed
qed

text \<open>\<^verbatim>\<open>socketpair\<close>: two new sockets that are each other's peer.\<close>

definition stream_pair :: "stream_sock \<Rightarrow> sockets \<Rightarrow> nat \<times> nat \<times> sockets" where
  "stream_pair x st =
     (let (a, st) = new_sock (Stream x) st; (b, st) = new_sock (Stream x) st
      in (a, b, put_sock b (Stream (x\<lparr>ls_peer := Some a\<rparr>)) (put_sock a (Stream (x\<lparr>ls_peer := Some b\<rparr>)) st)))"

lemma stream_pair_kept:
  assumes "socks_ok st" "stream_ok st x" "ls_peer x = None" "stream_pair x st = (a, b, st')"
  shows "kept {} st st'" "a \<noteq> b" "get_stream a st = None" "get_stream b st = None"
    and "get_stream a st' = Some (x\<lparr>ls_peer := Some b\<rparr>)" "get_stream b st' = Some (x\<lparr>ls_peer := Some a\<rparr>)"
proof -
  obtain st1 where n1: "new_sock (Stream x) st = (a, st1)"
    using assms(4) by (auto simp: stream_pair_def Let_def split: prod.splits)
  obtain st2 where n2: "new_sock (Stream x) st1 = (b, st2)"
    using assms(4) n1 by (auto simp: stream_pair_def Let_def split: prod.splits)
  have st': "st' = put_sock b (Stream (x\<lparr>ls_peer := Some a\<rparr>)) (put_sock a (Stream (x\<lparr>ls_peer := Some b\<rparr>)) st2)"
    using assms(4) n1 n2 by (simp add: stream_pair_def)
  have any: "stream_ok s x" for s using assms(2,3) by (simp add: stream_ok_def)
  have "sock_ok st (Stream x)" using any by (simp add: sock_ok_def)
  note 1 = new_sock_kept[OF assms(1) this n1]
  have "sock_ok st1 (Stream x)" using any by (simp add: sock_ok_def)
  note 2 = new_sock_kept[OF keptD(1)[OF 1(1)] this n2]
  have a1: "get_stream a st1 = Some x" using 1(2) by (simp add: get_stream_def)
  show ab: "a \<noteq> b" using a1 2(4) by auto
  have a2: "get_stream a st2 = Some x" "get_stream b st2 = Some x"
    using get_stream_cong[OF 2(6)[OF ab]] a1 2(2) by (simp_all add: get_stream_def)
  have oka: "stream_ok st2 (x\<lparr>ls_peer := Some b\<rparr>)" using a2 any[of st2] by (simp add: stream_ok_def)
  have ka: "kept {} st2 (put_sock a (Stream (x\<lparr>ls_peer := Some b\<rparr>)) st2)"
    by (rule put_stream_kept[OF keptD(1)[OF 2(1)] a2(1) oka]) simp_all
  have okb: "stream_ok (put_sock a (Stream (x\<lparr>ls_peer := Some b\<rparr>)) st2) (x\<lparr>ls_peer := Some a\<rparr>)"
    using any[of st2] by (simp add: stream_ok_def)
  have b2: "get_stream b (put_sock a (Stream (x\<lparr>ls_peer := Some b\<rparr>)) st2) = Some x" using a2 ab by simp
  have kb: "kept {} (put_sock a (Stream (x\<lparr>ls_peer := Some b\<rparr>)) st2) st'"
    unfolding st' by (rule put_stream_kept[OF keptD(1)[OF ka] b2 okb]) simp_all
  show "kept {} st st'" using kept_trans[OF kept_trans[OF kept_trans[OF 1(1) 2(1)] ka] kb] by simp
  show "get_stream a st = None" by (rule 1(4))
  show "get_stream b st = None" using get_stream_cong[OF 1(6)[OF ab[symmetric]]] 2(4) by simp
  show "get_stream a st' = Some (x\<lparr>ls_peer := Some b\<rparr>)" "get_stream b st' = Some (x\<lparr>ls_peer := Some a\<rparr>)"
    using ab by (simp_all add: st')
qed

lemma socketpair_streams:
  assumes "syscall_socketpair pr p1 p2 cred family ty st = Some (Inr (f1, f2), st')" "socks_ok st"
    and "ty AND NOT (ty AND (SOCK_CLOEXEC OR SOCK_NONBLOCK)) = SOCK_STREAM"
  shows "\<exists>a b x y. kept {} st st' \<and> a \<noteq> b \<and> get_stream a st = None \<and> get_stream b st = None \<and>
     get_stream a st' = Some x \<and> get_stream b st' = Some y \<and> ls_peer x = Some b \<and> ls_peer y = Some a \<and>
     ls_ring x = Some stream_ring \<and> ls_ring y = Some stream_ring \<and> \<not> ls_seqpacket x \<and> \<not> ls_seqpacket y"
proof -
  let ?x = "(stream_new False)\<lparr>ls_ring := Some stream_ring, ls_credentials := Some cred\<rparr>"
  let ?fl = "ty AND (SOCK_CLOEXEC OR SOCK_NONBLOCK)"
  obtain a b st1 where p: "stream_pair ?x st = (a, b, st1)" by (cases "stream_pair ?x st") auto
  have ne: "SOCK_STREAM \<noteq> SOCK_SEQPACKET" by (simp add: SOCK_STREAM_def SOCK_SEQPACKET_def)
  have "\<exists>st2. create_socket_fd pr p1 a ?fl st1 = Some (f1, st2) \<and> create_socket_fd pr p2 b ?fl st2 = Some (f2, st')"
    using assms(1,3) p ne unfolding syscall_socketpair_def stream_pair_def Let_def
    by (auto split: prod.splits if_splits bind_splits)
  then obtain st2 where c: "create_socket_fd pr p1 a ?fl st1 = Some (f1, st2)" "create_socket_fd pr p2 b ?fl st2 = Some (f2, st')"
    by blast
  have ok: "stream_ok st ?x" using new_ok(1)[of st False] stream_ring_new(1) by (simp add: stream_ok_def)
  have np: "ls_peer ?x = None" by (simp add: stream_new_def)
  note k = stream_pair_kept[OF assms(2) ok np p]
  note c1 = create_socket_fd_kept[OF c(1) k(1)]
  note c2 = create_socket_fd_kept[OF c(2) c1(1)]
  have "get_stream a st' = get_stream a st1" "get_stream b st' = get_stream b st1"
    using get_stream_cong[of st' _ st1] c1(2) c2(2) by simp_all
  then show ?thesis using k c2(1) by (intro exI[of _ a] exI[of _ b]) (simp add: stream_new_def)
qed

lemma socketpair_kept:
  assumes "syscall_socketpair pr p1 p2 cred family ty st = Some (r, st')" "socks_ok st"
  shows "kept {} st st'"
proof -
  let ?fl = "ty AND (SOCK_CLOEXEC OR SOCK_NONBLOCK)" and ?t = "ty AND NOT (ty AND (SOCK_CLOEXEC OR SOCK_NONBLOCK))"
  consider (err) "st' = st" | (stream) "family = AF_LOCAL" "?t = SOCK_STREAM \<or> ?t = SOCK_SEQPACKET"
    | (dgram) "family = AF_LOCAL" "?t = SOCK_DGRAM" "?t \<noteq> SOCK_STREAM" "?t \<noteq> SOCK_SEQPACKET"
    using assms(1) unfolding syscall_socketpair_def Let_def by (auto split: if_splits)
  then show ?thesis
  proof cases
    case err
    then show ?thesis using kept_refl[OF assms(2)] by simp
  next
    case stream
    let ?x = "(stream_new (?t = SOCK_SEQPACKET))\<lparr>ls_ring := Some stream_ring, ls_credentials := Some cred\<rparr>"
    obtain a b st1 where p: "stream_pair ?x st = (a, b, st1)" by (cases "stream_pair ?x st") auto
    obtain f1 f2 st2 where c: "create_socket_fd pr p1 a ?fl st1 = Some (f1, st2)" "create_socket_fd pr p2 b ?fl st2 = Some (f2, st')"
      using assms(1) stream p unfolding syscall_socketpair_def stream_pair_def Let_def
      by (auto split: prod.splits if_splits bind_splits)
    have ok: "stream_ok st ?x" using new_ok(1)[of st "?t = SOCK_SEQPACKET"] stream_ring_new(1) by (simp add: stream_ok_def)
    have np: "ls_peer ?x = None" by (simp add: stream_new_def)
    note k = stream_pair_kept(1)[OF assms(2) ok np p]
    show ?thesis by (rule create_socket_fd_kept(1)[OF c(2) create_socket_fd_kept(1)[OF c(1) k]])
  next
    case dgram
    obtain a st1 where n1: "new_sock (Dgram dgram_new) st = (a, st1)" by (cases "new_sock (Dgram dgram_new) st")
    obtain b st2 where n2: "new_sock (Dgram dgram_new) st1 = (b, st2)" by (cases "new_sock (Dgram dgram_new) st1")
    let ?s3 = "put_sock a (Dgram (dgram_new\<lparr>ld_connected := Some b\<rparr>)) st2"
    let ?s4 = "put_sock b (Dgram (dgram_new\<lparr>ld_connected := Some a\<rparr>)) ?s3"
    obtain f1 f2 st5 where c: "create_socket_fd pr p1 a ?fl ?s4 = Some (f1, st5)" "create_socket_fd pr p2 b ?fl st5 = Some (f2, st')"
      using assms(1) dgram n1 n2 unfolding syscall_socketpair_def Let_def by (auto split: bind_splits)
    have any: "sock_ok s (Dgram dgram_new)" for s using new_ok(2) by (simp add: sock_ok_def)
    note 1 = new_sock_kept[OF assms(2) any n1]
    note 2 = new_sock_kept[OF keptD(1)[OF 1(1)] any n2]
    have g: "get_dgram a st2 \<noteq> None" "get_dgram b st2 = Some dgram_new"
      using 1(2) 2(1,2) by (auto simp: kept_def get_dgram_def)
    obtain z where a2: "get_dgram a st2 = Some z" using g(1) by blast
    have "dgram_ok st2 (dgram_new\<lparr>ld_connected := Some b\<rparr>)" using new_ok(2)[of st2] g by (simp add: dgram_ok_def)
    from put_dgram_kept[OF keptD(1)[OF 2(1)] a2 this] have k3: "kept {} st2 ?s3" .
    obtain w where b3: "get_dgram b ?s3 = Some w" using g(2) by (cases "b = a") auto
    have "dgram_ok ?s3 (dgram_new\<lparr>ld_connected := Some a\<rparr>)" using new_ok(2)[of ?s3] by (simp add: dgram_ok_def)
    from put_dgram_kept[OF keptD(1)[OF k3] b3 this] have k4: "kept {} ?s3 ?s4" .
    have "kept {} st ?s4" using kept_trans[OF kept_trans[OF kept_trans[OF 1(1) 2(1)] k3] k4] by simp
    then show ?thesis using create_socket_fd_kept(1) c by blast
  qed
qed

section \<open>Runs\<close>

text \<open>
  Any interleaving of operations on all sockets of the machine. The labels record the bytes that went
  into the queue of a stream socket (for a sender of the packet class with the packet's header), the
  bytes that a stream socket returned, and the sockets closed. A queue of 208 KiB is a queue until
  \<open>2 ^ 64\<close> bytes went through it; a step past that is not a step of the relation.
\<close>

datatype sock_label = Sent nat "u8 list" | Received nat "u8 list" | Shut nat | Quiet

inductive sock_step :: "sockets \<Rightarrow> sock_label \<Rightarrow> sockets \<Rightarrow> bool" where
  send: "stream_send_attempt dfl mfl iovs s st = Some (Return (Inr n, st')) \<Longrightarrow>
    get_stream s st = Some x \<Longrightarrow> ls_peer x = Some q \<Longrightarrow> get_stream q st = Some y \<Longrightarrow> ls_ring y = Some rb \<Longrightarrow>
    unat (write_index rb) + 4 + length (concat iovs) < 2 ^ 64 \<Longrightarrow>
    sock_step st (Sent q ((if ls_seqpacket x then le32_bytes (of_nat (length (concat iovs))) else []) @ take n (concat iovs))) st'"
| recv: "stream_recv_attempt dfl mfl lens s st = Some (Return (Inr (out, fl), st')) \<Longrightarrow> sock_step st (Received s (concat out)) st'"
| control_in: "stream_recv_control ctl s st = Some (cs, fl, st') \<Longrightarrow> sock_step st Quiet st'"
| control_out: "send_ancillary q cs st = Some st' \<Longrightarrow> sock_step st Quiet st'"
| create: "syscall_socket pr p family ty st = Some (r, st') \<Longrightarrow> sock_step st Quiet st'"
| pairs: "syscall_socketpair pr p p2 cred family ty st = Some (r2, st') \<Longrightarrow> sock_step st Quiet st'"
| binds: "bind_node me s path st = Some (r, st') \<Longrightarrow> socks st s \<noteq> None \<Longrightarrow> cwd me < num_entries (tree st) \<Longrightarrow> sock_step st Quiet st'"
| listens: "stream_listen cred s backlog st = Some (r, st') \<Longrightarrow> sock_step st Quiet st'"
| connects: "stream_connect_begin me s addr st = Some (r, st') \<Longrightarrow> cwd me < num_entries (tree st) \<Longrightarrow> sock_step st Quiet st'"
| connected: "stream_connect_end cred s st = Some st' \<Longrightarrow> sock_step st Quiet st'"
| accepts: "stream_accept_attempt pr p dfl fl s st = Some (Return (r, st')) \<Longrightarrow> sock_step st Quiet st'"
| option: "stream_setsockopt layer number val s st = Some (r, st') \<Longrightarrow> sock_step st Quiet st'"
| closes: "stream_close s st = Some st' \<Longrightarrow> sock_step st (Shut s) st'"
| dgram_out: "dgram_send_attempt dfl mfl iovs s t st = Some (Return (r, st')) \<Longrightarrow> sock_step st Quiet st'"
| dgram_in: "dgram_recv_attempt dfl mfl lens' s st = Some (Return (r, st')) \<Longrightarrow> sock_step st Quiet st'"
| dgram_to: "dgram_connect me s addr st = Some (r, st') \<Longrightarrow> cwd me < num_entries (tree st) \<Longrightarrow> sock_step st Quiet st'"

inductive sock_run :: "sockets \<Rightarrow> sock_label list \<Rightarrow> sockets \<Rightarrow> bool" where
  run_start: "sock_run st [] st"
| run_step: "sock_run st tr st1 \<Longrightarrow> sock_step st1 l st2 \<Longrightarrow> sock_run st (tr @ [l]) st2"

fun sent_to :: "nat \<Rightarrow> sock_label list \<Rightarrow> u8 list" where
  "sent_to b [] = []"
| "sent_to b (Sent q bs # tr) = (if q = b then bs else []) @ sent_to b tr"
| "sent_to b (_ # tr) = sent_to b tr"

fun received_by :: "nat \<Rightarrow> sock_label list \<Rightarrow> u8 list" where
  "received_by b [] = []"
| "received_by b (Received q bs # tr) = (if q = b then bs else []) @ received_by b tr"
| "received_by b (_ # tr) = received_by b tr"

lemma labels_append [simp]:
  "sent_to b (tr @ tr') = sent_to b tr @ sent_to b tr'" "received_by b (tr @ tr') = received_by b tr @ received_by b tr'"
  by (induction tr rule: sent_to.induct) simp_all

text \<open>The socket whose queue a step may change.\<close>

fun touched :: "sock_label \<Rightarrow> nat set" where
  "touched (Sent q bs) = {q}" | "touched (Received s bs) = {s}" | "touched (Shut s) = {s}" | "touched Quiet = {}"

lemma sock_step_kept:
  assumes "sock_step st l st'" "socks_ok st"
  shows "kept (touched l) st st'"
  using assms
proof (induction rule: sock_step.induct)
  case (send dfl mfl iovs s st n st' x q y rb)
  then show ?case using send_step[OF send.hyps(1) send.prems send.hyps(2-6)] by auto
next
  case (recv dfl mfl lens s st out fl st')
  then show ?case using recv_step by fastforce
next
  case (closes s st st')
  then show ?case using close_kept by simp
qed (simp_all add: recv_control_kept send_ancillary_kept syscall_socket_kept socketpair_kept bind_node_kept simple_calls_kept
    connect_begin_kept accept_kept dgram_send_kept dgram_recv_kept dgram_connect_kept)

text \<open>The queue of one stream socket over a run.\<close>

lemma sock_step_stream:
  assumes "sock_step st l st'" "socks_ok st" "get_stream b st = Some x" "ls_ring x = Some rb" "\<not> ls_seqpacket x" "l \<noteq> Shut b"
  shows "\<exists>x' rb'. get_stream b st' = Some x' \<and> ls_ring x' = Some rb' \<and> \<not> ls_seqpacket x' \<and>
     rb_items rb @ sent_to b [l] = received_by b [l] @ rb_items rb'"
proof (cases "b \<in> touched l")
  case False
  obtain x' where "get_stream b st' = Some x'" "ls_seqpacket x' = ls_seqpacket x" "ls_ring x' = ls_ring x"
    by (rule kept_stream[OF sock_step_kept[OF assms(1,2)] assms(3)]) (use False assms(4) in auto)
  moreover have "sent_to b [l] = []" "received_by b [l] = []" using False by (cases l; auto)+
  ultimately show ?thesis using assms(4,5) by simp
next
  case True
  from assms(1) show ?thesis
  proof cases
    case (send dfl mfl iovs s n z q y rb0)
    from send_step[OF send(2) assms(2) send(3-7)] obtain rb' where
      "st' = put_sock q (Stream (y\<lparr>ls_ring := Some rb'\<rparr>)) st"
      "rb_items rb' = rb_items rb0 @ (if ls_seqpacket z then le32_bytes (of_nat (length (concat iovs))) else []) @ take n (concat iovs)"
      by blast
    moreover have "q = b" using True send(1) by simp
    ultimately show ?thesis using send assms(3-5) by simp
  next
    case (recv dfl mfl lens s out fl)
    then have s: "s = b" using True by simp
    from recv_step[OF recv(2) assms(2)] obtain rb' where
      r: "stream_read False lens rb = Some (out, fl, rb')" "st' = put_sock b (Stream (x\<lparr>ls_ring := Some rb'\<rparr>)) st" "stream_ring_ok rb"
      using assms(3-5) s by auto
    have "rb_items rb = concat out @ rb_items rb'"
      using read_iovs_plain[OF r(3), of lens] r(1) by (auto simp: stream_read_def)
    then show ?thesis using r(2) recv(1) s assms(5) by simp
  qed (use True assms(6) in auto)
qed

lemma sock_run_stream:
  assumes "sock_run st tr st'" "socks_ok st" "get_stream b st = Some x" "ls_ring x = Some rb" "\<not> ls_seqpacket x"
  shows "socks_ok st' \<and> (Shut b \<notin> set tr \<longrightarrow> (\<exists>x' rb'. get_stream b st' = Some x' \<and> ls_ring x' = Some rb' \<and> \<not> ls_seqpacket x' \<and>
     rb_items rb @ sent_to b tr = received_by b tr @ rb_items rb'))"
  using assms
proof (induction rule: sock_run.induct)
  case (run_step st tr st1 l st2)
  then have ok: "socks_ok st1" by blast
  have ok2: "socks_ok st2" by (rule keptD(1)[OF sock_step_kept[OF run_step.hyps(2) ok]])
  show ?case
  proof (cases "Shut b \<in> set (tr @ [l])")
    case True
    then show ?thesis using ok2 by simp
  next
    case False
    then obtain x1 rb1 where 1: "get_stream b st1 = Some x1" "ls_ring x1 = Some rb1" "\<not> ls_seqpacket x1"
      "rb_items rb @ sent_to b tr = received_by b tr @ rb_items rb1" using run_step by auto
    have "l \<noteq> Shut b" using False by auto
    from sock_step_stream[OF run_step.hyps(2) ok 1(1-3) this] obtain x2 rb2 where
      2: "get_stream b st2 = Some x2" "ls_ring x2 = Some rb2" "\<not> ls_seqpacket x2"
      "rb_items rb1 @ sent_to b [l] = received_by b [l] @ rb_items rb2" by blast
    have "rb_items rb @ sent_to b (tr @ [l]) = received_by b (tr @ [l]) @ rb_items rb2"
      using 1(4) 2(4) by (simp only: labels_append) (metis append.assoc)
    then show ?thesis using ok2 2 by blast
  qed
qed simp

section \<open>Properties\<close>

text \<open>
  C11: Stream sockets deliver every byte once and in order, whatever else the machine's sockets do. Over
  any interleaving of sends, receives, control messages, connections, binds, option changes, datagrams
  and closes of any sockets, a stream socket that is not closed has returned, followed by what is in
  its queue, exactly what was in the queue at first followed by what was sent to it, and never holds
  more than 208 KiB; and every socket keeps a node, well-formed queues and a peer that exists.
\<close>

theorem streams_deliver_in_order:
  assumes "sock_run st tr st'" "socks_ok st" "get_stream b st = Some x" "ls_ring x = Some rb" "\<not> ls_seqpacket x"
    and "Shut b \<notin> set tr"
  shows "\<exists>x' rb'. get_stream b st' = Some x' \<and> ls_ring x' = Some rb' \<and>
     rb_items rb @ sent_to b tr = received_by b tr @ rb_items rb' \<and> length (rb_items rb') \<le> 208 * 1024 \<and> socks_ok st'"
proof -
  from sock_run_stream[OF assms(1-5)] assms(6) obtain x' rb' where
    "get_stream b st' = Some x'" "ls_ring x' = Some rb'" "rb_items rb @ sent_to b tr = received_by b tr @ rb_items rb'" "socks_ok st'"
    by blast
  moreover from this have "length (rb_items rb') \<le> 208 * 1024"
    using stream_ring_bound[OF stream_okD(1)[OF socks_okD(3)]] by fastforce
  ultimately show ?thesis by blast
qed

definition example_socks :: sockets where
  "example_socks = \<lparr>socks = Map.empty, pend = \<lparr>nextp = Map.empty, prevp = Map.empty\<rparr>, tree = vfs_init,
     fdst = \<lparr>tables = [\<lparr>file_descriptors = [], num_file_descriptors = 0, first_free_fdnum = 0\<rparr>], descs = Map.empty, closed = []\<rparr>,
     unet = example_net\<rparr>"

lemma example_socks_ok: "socks_ok example_socks"
  using vfs_init_ok(1) by (simp add: socks_ok_def example_socks_def get_stream_def get_dgram_def)

text \<open>Two connected sockets, and a message on its way.\<close>

lemma example_pair:
  "\<exists>st a b x y. socks_ok st \<and> get_stream a st = Some x \<and> get_stream b st = Some y \<and> ls_peer x = Some b \<and>
     ls_ring y = Some stream_ring \<and> \<not> ls_seqpacket x \<and> \<not> ls_seqpacket y"
proof -
  let ?x = "(stream_new False)\<lparr>ls_ring := Some stream_ring\<rparr>"
  obtain a b st where p: "stream_pair ?x example_socks = (a, b, st)" by (cases "stream_pair ?x example_socks") auto
  have ok: "stream_ok example_socks ?x" using new_ok(1)[of example_socks False] stream_ring_new(1) by (simp add: stream_ok_def)
  have np: "ls_peer ?x = None" by (simp add: stream_new_def)
  from stream_pair_kept[OF example_socks_ok ok np p] show ?thesis
    by (intro exI[of _ st] exI[of _ a] exI[of _ b]) (simp add: stream_new_def keptD(1))
qed

lemma example_send:
  assumes "socks_ok st" "get_stream a st = Some x" "get_stream b st = Some y" "ls_peer x = Some b" "ls_ring y = Some stream_ring" "\<not> ls_seqpacket x"
  shows "\<exists>st'. sock_step st (Sent b [1, 2]) st'"
proof -
  have l: "unat (write_index stream_ring) + length (concat [[1], [2 :: u8]]) < 2 ^ 64" by (simp add: stream_ring_new)
  obtain rb' where w: "write_iovs [[1], [2]] stream_ring = Some (2, rb')"
    using write_iovs_spec[OF stream_ring_new(1) l] by (auto simp: stream_ring_new simp del: write_iovs.simps)
  have "\<not> rb_is_full stream_ring" using stream_ring_full[OF stream_ring_new(1)] by (simp add: stream_ring_new del: length_rb_items)
  then have "stream_send_attempt 0 0 [[1], [2]] a st = Some (Return (Inr 2, put_sock b (Stream (y\<lparr>ls_ring := Some rb'\<rparr>)) st))"
    using assms w by (simp add: stream_send_attempt_def stream_write_def del: write_iovs.simps)
  from sock_step.send[OF this assms(2,4,3,5)] assms(6) have "sock_step st (Sent b ([] @ take 2 (concat [[1], [2]])))
      (put_sock b (Stream (y\<lparr>ls_ring := Some rb'\<rparr>)) st)" by (simp add: stream_ring_new)
  then show ?thesis by (intro exI) simp
qed

theorem streams_deliver_in_order_witness:
  "\<exists>st st' b x' rb'. sock_run st [Sent b [1, 2]] st' \<and> get_stream b st' = Some x' \<and> ls_ring x' = Some rb' \<and> rb_items rb' = [1, 2]"
proof -
  obtain st a b x y where 1: "socks_ok st" "get_stream a st = Some x" "get_stream b st = Some y" "ls_peer x = Some b"
    "ls_ring y = Some stream_ring" "\<not> ls_seqpacket x" "\<not> ls_seqpacket y" using example_pair by blast
  obtain st' where 2: "sock_step st (Sent b [1, 2]) st'" using example_send[OF 1(1-6)] by blast
  have run: "sock_run st [Sent b [1, 2]] st'" using run_step[OF run_start 2] by simp
  from streams_deliver_in_order[OF run 1(1,3,5,7)] obtain x' rb' where
    "get_stream b st' = Some x'" "ls_ring x' = Some rb'" "rb_items rb' = [1, 2]" by (auto simp: stream_ring_new)
  with run show ?thesis by blast
qed

text \<open>
  Packet sockets keep the boundaries of messages. When the queue of a socket holds the packets \<open>ps\<close>,
  a message that fits behind them is taken whole and becomes the last packet, and a receive returns
  the first packet cut to the caller's buffers, removes all of it from the queue, and says
  \<^verbatim>\<open>MSG_TRUNC\<close> exactly when something was cut off.
\<close>

theorem packets_keep_boundaries:
  assumes "socks_ok st" "get_stream a st = Some x" "ls_seqpacket x" "ls_peer x = Some b"
    and b: "get_stream b st = Some y" "ls_seqpacket y" "ls_peer y \<noteq> None" "ls_ring y = Some rb"
    and ps: "rb_items rb = concat (map packet_bytes (p # ps))"
    and room: "length (rb_items rb) + 4 + length (concat iovs) \<le> 208 * 1024" "unat (write_index rb) + 4 + length (concat iovs) < 2 ^ 64"
  shows "(\<exists>rb1. stream_send_attempt dfl mfl iovs a st =
        Some (Return (Inr (length (concat iovs)), put_sock b (Stream (y\<lparr>ls_ring := Some rb1\<rparr>)) st)) \<and>
        rb_items rb1 = concat (map packet_bytes (p # ps @ [concat iovs]))) \<and>
     (\<exists>out rb2. stream_recv_attempt dfl mfl lens b st =
        Some (Return (Inr (out, if sum_list (map unat lens) < length p then MSG_TRUNC else 0), put_sock b (Stream (y\<lparr>ls_ring := Some rb2\<rparr>)) st)) \<and>
        concat out = take (sum_list (map unat lens)) p \<and> rb_items rb2 = concat (map packet_bytes ps))"
proof
  have ok: "stream_ring_ok rb" by (rule stream_okD(1)[OF socks_okD(3)[OF assms(1) b(1)] b(4)])
  have "\<not> rb_is_full rb" using stream_ring_full[OF ok] room(1) by simp
  moreover have "4 + length (concat iovs) \<le> 212992 - length (rb_items rb)" using room(1) by simp
  from stream_write_packet[OF ok room(2) this] obtain rb1 where
    w: "stream_write True iovs rb = Some (length (concat iovs), rb1)" "rb_items rb1 = rb_items rb @ packet_bytes (concat iovs)" by blast
  ultimately show "\<exists>rb1. stream_send_attempt dfl mfl iovs a st =
        Some (Return (Inr (length (concat iovs)), put_sock b (Stream (y\<lparr>ls_ring := Some rb1\<rparr>)) st)) \<and>
        rb_items rb1 = concat (map packet_bytes (p # ps @ [concat iovs]))"
    using assms(2-4) b ps w by (intro exI[of _ rb1]) (simp add: stream_send_attempt_def del: length_concat)
  have "rb_items rb = packet_bytes p @ concat (map packet_bytes ps)" using ps by simp
  moreover from this have "\<not> rb_is_empty rb" by (simp add: rb_empty_iff packet_bytes_def le32_bytes_def be32_bytes_def)
  ultimately show "\<exists>out rb2. stream_recv_attempt dfl mfl lens b st =
        Some (Return (Inr (out, if sum_list (map unat lens) < length p then MSG_TRUNC else 0), put_sock b (Stream (y\<lparr>ls_ring := Some rb2\<rparr>)) st)) \<and>
        concat out = take (sum_list (map unat lens)) p \<and> rb_items rb2 = concat (map packet_bytes ps)"
    using stream_read_packet[OF ok, of p "concat (map packet_bytes ps)" lens] b by (auto simp: stream_recv_attempt_def)
qed

lemma example_packets:
  "\<exists>st a b x y rb. socks_ok st \<and> get_stream a st = Some x \<and> ls_seqpacket x \<and> ls_peer x = Some b \<and> get_stream b st = Some y \<and>
     ls_seqpacket y \<and> ls_peer y \<noteq> None \<and> ls_ring y = Some rb \<and> rb_items rb = packet_bytes [7, 8] \<and> unat (write_index rb) = 6"
proof -
  have l: "length (packet_bytes [7, 8]) = 6" by (simp add: packet_bytes_def)
  obtain rb where rb: "stream_ring_ok rb" "rb_items rb = packet_bytes [7, 8]" "unat (write_index rb) = 6"
  proof -
    have "length (packet_bytes [7, 8]) < 2 ^ 64" "unat (write_index stream_ring) + length (packet_bytes [7, 8]) < 2 ^ 64"
      "6 = min (length (packet_bytes [7, 8])) (212992 - length (rb_items stream_ring))" unfolding l stream_ring_new(2,3) by simp_all
    from ring_write[OF stream_ring_new(1) this] obtain rb where "stream_ring_ok rb" "rb_items rb = take 6 (packet_bytes [7, 8])"
      "unat (write_index rb) = 0 + 6" unfolding stream_ring_new(2,3) by auto
    then show ?thesis using that l by simp
  qed
  let ?x = "(stream_new True)\<lparr>ls_ring := Some rb\<rparr>"
  obtain a b st where p: "stream_pair ?x example_socks = (a, b, st)" by (cases "stream_pair ?x example_socks") auto
  have ok: "stream_ok example_socks ?x" using new_ok(1)[of example_socks True] rb(1) by (simp add: stream_ok_def)
  have np: "ls_peer ?x = None" by (simp add: stream_new_def)
  from stream_pair_kept[OF example_socks_ok ok np p] show ?thesis using rb
    by (intro exI[of _ st] exI[of _ a] exI[of _ b]) (simp add: stream_new_def keptD(1))
qed

theorem packets_keep_boundaries_witness:
  "\<exists>st a b r1 st1 out f st2. stream_send_attempt 0 0 [[1], [2, 3]] a st = Some (Return (Inr r1, st1)) \<and> r1 = 3 \<and>
     stream_recv_attempt 0 0 [1] b st = Some (Return (Inr (out, f), st2)) \<and> concat out = [7] \<and> f = MSG_TRUNC"
proof -
  obtain st a b x y rb where 1: "socks_ok st" "get_stream a st = Some x" "ls_seqpacket x" "ls_peer x = Some b" "get_stream b st = Some y"
    "ls_seqpacket y" "ls_peer y \<noteq> None" "ls_ring y = Some rb" "rb_items rb = packet_bytes [7, 8]" "unat (write_index rb) = 6"
    using example_packets by blast
  have "length (packet_bytes [7, 8]) = 6" by (simp add: packet_bytes_def length_le32)
  then have l: "length (rb_items rb) + 4 + length (concat [[1], [2, 3 :: u8]]) \<le> 208 * 1024" unfolding 1(9) by simp
  have i: "rb_items rb = concat (map packet_bytes ([7, 8] # []))" using 1(9) by simp
  have r: "unat (write_index rb) + 4 + length (concat [[1], [2, 3 :: u8]]) < 2 ^ 64" using 1(10) by simp
  have s: "sum_list (map unat [1 :: usize]) = 1" by simp
  from packets_keep_boundaries[OF 1(1-8) i l r, of 0 0 "[1]"] obtain rb1 out rb2 where
    "stream_send_attempt 0 0 [[1], [2, 3]] a st = Some (Return (Inr (length (concat [[1], [2, 3 :: u8]])), put_sock b (Stream (y\<lparr>ls_ring := Some rb1\<rparr>)) st))"
    "stream_recv_attempt 0 0 [1] b st = Some (Return (Inr (out, MSG_TRUNC), put_sock b (Stream (y\<lparr>ls_ring := Some rb2\<rparr>)) st))"
    "concat out = take 1 [7, 8]" unfolding s by auto
  moreover have "length (concat [[1], [2, 3 :: u8]]) = 3" by simp
  ultimately show ?thesis by (metis take_Cons_numeral take0 One_nat_def take_Suc_Cons take_0)
qed

text \<open>\<^verbatim>\<open>accept\<close> of a waiting socket succeeds.\<close>

lemma accept_total:
  assumes "socks_ok st" "get_stream t st = Some x" "is_list (pend st) t (q # ws)" "get_stream q st = Some y"
    and "fd_ok (fdst st)" "pr < length (tables (fdst st))" "p \<noteq> 0" "p AND 1 = 0" "descs (fdst st) p = None"
  shows "\<exists>fd st'. stream_accept_attempt pr p dfl fl t st = Some (Return (Inr (fd, ls_address y), st'))"
proof -
  obtain h where h: "list_remove q (pend st) = Some h" using klist.pop_front[OF assms(3)] by blast
  have n: "nextp (pend st) t = Some q" by (rule list_first[OF assms(3)])
  have ne: "\<not> list_is_empty t (pend st)" using list_is_empty_spec[OF assms(3)] by simp
  let ?new = "(stream_new (ls_seqpacket x))\<lparr>ls_peer := Some q, ls_ring := Some stream_ring, ls_address := ls_address x\<rparr>"
  obtain c st1 where c: "new_sock (Stream ?new) (st\<lparr>pend := h\<rparr>) = (c, st1)" by (cases "new_sock (Stream ?new) (st\<lparr>pend := h\<rparr>)")
  have f1: "fdst st1 = fdst st" using c by (auto simp: new_sock_def Let_def put_sock_def)
  let ?fl = "O_RDONLY OR (if fl AND SOCK_NONBLOCK \<noteq> 0 then O_NONBLOCK else 0)"
  obtain fd fs where "install_description pr p c ?fl (fl AND SOCK_CLOEXEC \<noteq> 0) (fdst st) = Some (fd, fs)"
    using install_description_spec[OF assms(5-9), of c ?fl "fl AND SOCK_CLOEXEC \<noteq> 0"] by blast
  then show ?thesis using assms(2,4) h n ne c f1
    by (simp add: stream_accept_attempt_def Let_def create_socket_fd_def split del: if_split)
qed

text \<open>
  C34: Connections are made in the order they were asked for. \<^verbatim>\<open>connect\<close> to the name of a listening socket
  puts the caller behind the sockets \<open>ws\<close> that wait there already; the \<^verbatim>\<open>accept\<close> that follows takes the
  first of them, returns a descriptor that refers to a new socket, makes this and the waiting one each
  other's peer, both with a queue to receive into, and leaves the others waiting in their order.
\<close>

theorem connections_in_order:
  assumes ok: "socks_ok st" "cwd me < num_entries (tree st)"
    and t: "get_stream t st = Some x" "is_list (pend st) t ws" "ls_num_pending x < ls_max_pending x"
    and name: "path_to_entry path (Some (cwd me)) True (tree st) = Some (e, v)" "evnode (entries v e) = Some t" "type_of v t = SOCKET"
    and s: "s \<notin> set (t # ws)" "\<forall>w\<in>set (ws @ [s]). get_stream w st \<noteq> None"
    and fds: "fd_ok (fdst st)" "pr < length (tables (fdst st))" "p \<noteq> 0" "p AND 1 = 0" "descs (fdst st) p = None"
  shows "\<exists>h fd a st' c x' y'. stream_connect_begin me s (SA_Local path) st = Some (Inr (), st\<lparr>tree := v, pend := h\<rparr>) \<and>
     stream_accept_attempt pr p dfl fl t (st\<lparr>tree := v, pend := h\<rparr>) = Some (Return (Inr (fd, a), st')) \<and>
     get_stream c st = None \<and> get_stream c st' = Some x' \<and> get_stream (hd (ws @ [s])) st' = Some y' \<and>
     ls_peer x' = Some (hd (ws @ [s])) \<and> ls_peer y' = Some c \<and> ls_ring x' = Some stream_ring \<and> ls_ring y' \<noteq> None \<and>
     is_list (pend st') t (tl (ws @ [s])) \<and> get_file_description pr (int fd) (fdst st') = Some p \<and>
     map_option vnode (descs (fdst st') p) = Some c"
proof -
  obtain h where h: "list_add_before t s (pend st) = Some h" "is_list h t (ws @ [s])"
    using klist.add_before_rep[OF t(2) s(1)] by blast
  let ?st = "st\<lparr>tree := v, pend := h\<rparr>"
  have start: "stream_connect_begin me s (SA_Local path) st = Some (Inr (), ?st)"
    using name t(1,3) h(1) by (simp add: stream_connect_begin_def Let_def)
  have ok1: "socks_ok ?st" by (rule keptD(1)[OF connect_begin_kept[OF start ok]])
  obtain q qs where q: "ws @ [s] = q # qs" by (cases "ws @ [s]") auto
  obtain y where y: "get_stream q ?st = Some y" using s(2) q by auto
  have t1: "get_stream t ?st = Some x" "is_list (pend ?st) t (q # qs)" using t(1) h(2) q by simp_all
  obtain fd st' where acc: "stream_accept_attempt pr p dfl fl t ?st = Some (Return (Inr (fd, ls_address y), st'))"
    using accept_total[OF ok1 t1 y, of pr p dfl fl] fds by auto
  from accept_step[OF acc ok1] obtain h2 c x' y' where
    a: "list_remove q h = Some h2" "get_stream c ?st = None" "get_stream c st' = Some x'" "get_stream q st' = Some y'"
      "ls_peer x' = Some q" "ls_peer y' = Some c" "ls_ring x' = Some stream_ring" "ls_ring y' \<noteq> None" "pend st' = list_init c h2"
      "install_description pr p c (O_RDONLY OR (if fl AND SOCK_NONBLOCK \<noteq> 0 then O_NONBLOCK else 0)) (fl AND SOCK_CLOEXEC \<noteq> 0) (fdst st) = Some (fd, fdst st')"
    using list_first[OF t1(2)] y by (fastforce split: option.splits)
  have "is_list h2 t qs" using klist.pop_front[OF t1(2)] a(1) by auto
  moreover have "c \<notin> set (t # qs)"
  proof
    assume "c \<in> set (t # qs)"
    moreover have "set qs \<subseteq> set (ws @ [s])" using q by auto
    ultimately have "get_stream c st \<noteq> None" using s(2) t(1) by auto
    then show False using a(2) by simp
  qed
  ultimately have "is_list (pend st') t qs" unfolding a(9) using is_list_frame[OF _ list_init_outside] by fastforce
  moreover have "get_file_description pr (int fd) (fdst st') = Some p" "map_option vnode (descs (fdst st') p) = Some c"
    using install_description_spec[OF fds, of c "O_RDONLY OR (if fl AND SOCK_NONBLOCK \<noteq> 0 then O_NONBLOCK else 0)" "fl AND SOCK_CLOEXEC \<noteq> 0"] a(10)
    by (auto simp: description_new_def)
  ultimately show ?thesis using start acc a q by (intro exI[of _ h] exI[of _ fd] exI[of _ "ls_address y"] exI[of _ st'] exI[of _ c]) simp
qed

text \<open>A socket bound to \<^verbatim>\<open>/s\<close> that listens, and one that will connect to it.\<close>

definition two_socks :: sockets where
  "two_socks = snd (new_sock (Stream ((stream_new False)\<lparr>ls_max_pending := 4\<rparr>)) (snd (new_sock (Stream (stream_new False)) example_socks)))"

lemma two_socks_simps:
  "get_stream 1 two_socks = Some (stream_new False)" "get_stream 2 two_socks = Some ((stream_new False)\<lparr>ls_max_pending := 4\<rparr>)"
  "is_list (pend two_socks) 2 []" "fdst two_socks = fdst example_socks" "num_entries (tree two_socks) = 4"
  by (simp_all add: two_socks_def new_sock_def Let_def example_socks_def vfs_init_simps get_stream_def put_sock_def list_init_spec flip: numeral_2_eq_2)

lemma two_socks_ok: "socks_ok two_socks"
proof -
  let ?x = "stream_new False" and ?y = "(stream_new False)\<lparr>ls_max_pending := 4\<rparr>"
  obtain n st where 1: "new_sock (Stream ?x) example_socks = (n, st)" by fastforce
  obtain m st' where 2: "new_sock (Stream ?y) st = (m, st')" by fastforce
  have "sock_ok s (Stream ?x)" "sock_ok s (Stream ?y)" for s using new_ok(1)[of s False] by (simp_all add: sock_ok_def)
  then have "socks_ok st'" using new_sock_kept(1)[OF _ _ 2] new_sock_kept(1)[OF example_socks_ok _ 1] keptD(1) by blast
  then show ?thesis using 1 2 by (simp add: two_socks_def)
qed

lemma two_socks_bind:
  "\<exists>v e v'. bind_node superuser 2 (str ''/s'') two_socks = Some (Inr (), two_socks\<lparr>tree := v\<rparr>) \<and>
     path_to_entry (str ''/s'') (Some (cwd superuser)) True v = Some (e, v') \<and> evnode (entries v' e) = Some 2 \<and> type_of v' 2 = SOCKET"
proof -
  have "map_option (\<lambda>(r, st). (r, map_option (\<lambda>(e, v). (evnode (entries v e), type_of v 2))
      (path_to_entry (str ''/s'') (Some (cwd superuser)) True (tree st)))) (bind_node superuser 2 (str ''/s'') two_socks) =
    Some (Inr (), Some (Some 2, SOCKET))" by code_simp
  then obtain st e v' where b: "bind_node superuser 2 (str ''/s'') two_socks = Some (Inr (), st)"
    "path_to_entry (str ''/s'') (Some (cwd superuser)) True (tree st) = Some (e, v')" "evnode (entries v' e) = Some 2" "type_of v' 2 = SOCKET"
    by auto
  moreover from b(1) have "\<exists>v. st = two_socks\<lparr>tree := v\<rparr>" by (auto simp: bind_node_def split: bind_splits if_splits)
  ultimately show ?thesis by auto
qed

theorem connections_in_order_witness:
  "\<exists>st st1 fd a st' c x' y'. stream_connect_begin superuser 1 (SA_Local (str ''/s'')) st = Some (Inr (), st1) \<and>
     stream_accept_attempt 0 2 0 0 2 st1 = Some (Return (Inr (fd, a), st')) \<and> get_stream c st' = Some x' \<and>
     get_stream 1 st' = Some y' \<and> ls_peer x' = Some 1 \<and> ls_peer y' = Some c \<and> is_list (pend st') 2 []"
proof -
  obtain v e v' where b: "bind_node superuser 2 (str ''/s'') two_socks = Some (Inr (), two_socks\<lparr>tree := v\<rparr>)"
    "path_to_entry (str ''/s'') (Some (cwd superuser)) True v = Some (e, v')" "evnode (entries v' e) = Some 2" "type_of v' 2 = SOCKET"
    using two_socks_bind by blast
  let ?st = "two_socks\<lparr>tree := v\<rparr>"
  have "socks two_socks 2 \<noteq> None" using two_socks_simps(2) by (auto simp: get_stream_def split: option.splits)
  then have k: "kept {} two_socks ?st"
    using bind_node_kept[OF b(1) two_socks_ok] two_socks_simps(5) by (simp add: superuser_def)
  have c: "cwd superuser < num_entries (tree ?st)" using keptD(2)[OF k] two_socks_simps(5) by (simp add: superuser_def)
  have l: "ls_num_pending ((stream_new False)\<lparr>ls_max_pending := 4\<rparr>) < ls_max_pending ((stream_new False)\<lparr>ls_max_pending := 4\<rparr>)"
    by (simp add: stream_new_def)
  have f: "fd_ok (fdst ?st)" "0 < length (tables (fdst ?st))" "descs (fdst ?st) 2 = None"
    using two_socks_simps(4) by (simp_all add: example_socks_def fd_ok_def refs_ok_def table_ok_def refs_def slot_refs_def)
  have g: "get_stream 2 ?st = Some ((stream_new False)\<lparr>ls_max_pending := 4\<rparr>)" "get_stream 1 ?st \<noteq> None" "is_list (pend ?st) 2 []"
    using two_socks_simps by simp_all
  have p: "path_to_entry (str ''/s'') (Some (cwd superuser)) True (tree ?st) = Some (e, v')" using b(2) by simp
  from connections_in_order[OF keptD(1)[OF k] c g(1,3) l p b(3,4), of 1 0 2 0 0] f g(2) show ?thesis by fastforce
qed

end
