(* ===== verification/Dev_Input.thy ===== *)
theory Dev_Input
  imports Klib_Containers Klib_Time Userland_Sockets
begin

text \<open>
  Input devices: the events and listeners of \<^verbatim>\<open>dev/input/input.cpp\<close>, the device files of
  \<^verbatim>\<open>dev/input/evdev.cpp\<close>, and the interrupt handlers of the PS/2 keyboard and mouse, which decode the bytes
  the controller delivers. Listeners are numbers in the order of the device's list. \<open>now\<close> is the time of
  the clock the code reads while interrupts are off; \<open>cb\<close> is what the callback of a listener does to the
  device and to the rest of the state, of type \<open>'s\<close>.
\<close>

section \<open>Events\<close>

record input_event =
  ie_time :: timeval
  ie_type :: u16
  ie_code :: u16
  ie_value :: u32

definition EV_SYN :: u16 where "EV_SYN = 0"
definition EV_KEY :: u16 where "EV_KEY = 1"
definition EV_REL :: u16 where "EV_REL = 2"
definition SYN_REPORT :: u16 where "SYN_REPORT = 0"
definition SYN_DROPPED :: u16 where "SYN_DROPPED = 3"

definition mk_event :: "timeval \<Rightarrow> u16 \<Rightarrow> u16 \<Rightarrow> u32 \<Rightarrow> input_event" where
  "mk_event now ty code v = \<lparr>ie_time = now, ie_type = ty, ie_code = code, ie_value = v\<rparr>"

definition no_event :: input_event where
  "no_event = mk_event \<lparr>tv_sec = 0, tv_usec = 0\<rparr> 0 0 0"

section \<open>Devices and listeners\<close>

record input_device =
  dev_events :: "input_event ring_buffer"
  dev_listeners :: "nat list"
  listener_events :: "nat \<Rightarrow> input_event ring_buffer"
  key_status :: bitmap
  caps_lock :: bool

text \<open>\<^verbatim>\<open>KEY_CNT\<close> is 768: the bitmap has 12 words.\<close>

definition input_device_new :: input_device where
  "input_device_new = \<lparr>dev_events = ring_new 128 no_event, dev_listeners = [], listener_events = (\<lambda>_. ring_new 128 no_event),
     key_status = \<lparr>bm_data = replicate 12 0\<rparr>, caps_lock = False\<rparr>"

definition create_listener :: "nat \<Rightarrow> input_device \<Rightarrow> input_device" where
  "create_listener l d = d\<lparr>dev_listeners := dev_listeners d @ [l], listener_events := (listener_events d)(l := ring_new 128 no_event)\<rparr>"

definition remove_listener :: "nat \<Rightarrow> input_device \<Rightarrow> input_device" where
  "remove_listener l d = d\<lparr>dev_listeners := remove1 l (dev_listeners d)\<rparr>"

definition listener_read_attempt ::
  "nat \<Rightarrow> usize \<Rightarrow> bool \<Rightarrow> input_device \<Rightarrow> (input_event list res \<times> input_device) attempt option" where
  "listener_read_attempt l cnt blocking d =
     (if rb_is_empty (listener_events d l)
      then Some (if \<not> blocking then Return (Inl EWOULDBLOCK, d) else Wait)
      else do { (n, evs, rb) \<leftarrow> rb_read (listener_events d l) cnt;
                Some (Return (Inr evs, d\<lparr>listener_events := (listener_events d)(l := rb)\<rparr>)) })"

definition listener_poll :: "nat \<Rightarrow> u64 \<Rightarrow> input_device \<Rightarrow> u64" where
  "listener_poll l evs d = (if evs AND POLLIN \<noteq> 0 \<and> \<not> rb_is_empty (listener_events d l) then POLLIN else 0)"

definition push_event :: "timeval \<Rightarrow> u16 \<Rightarrow> u16 \<Rightarrow> u32 \<Rightarrow> input_device \<Rightarrow> input_device option" where
  "push_event now ty code v d =
     do { (n, rb) \<leftarrow> rb_write_truncate (dev_events d) [mk_event now ty code v] 1; Some (d\<lparr>dev_events := rb\<rparr>) }"

text \<open>The body of the loop over the listeners, without the callback.\<close>

definition deliver_events :: "timeval \<Rightarrow> input_event list \<Rightarrow> input_event ring_buffer \<Rightarrow> input_event ring_buffer option" where
  "deliver_events now evs rb = do {
     rb \<leftarrow> (if free_count rb < of_nat (length evs)
            then do { (n, rb) \<leftarrow> rb_write (snd (rb_truncate rb (data_count rb))) [mk_event now EV_SYN SYN_DROPPED 0] 1; Some rb }
            else Some rb);
     (n, rb) \<leftarrow> rb_write rb evs (of_nat (length evs));
     Some rb }"

fun flush_listeners ::
  "(nat \<Rightarrow> input_device \<times> 's \<Rightarrow> (input_device \<times> 's) option) \<Rightarrow> timeval \<Rightarrow> input_event list \<Rightarrow> nat list \<Rightarrow>
     input_device \<times> 's \<Rightarrow> (input_device \<times> 's) option" where
  "flush_listeners cb now evs [] ds = Some ds"
| "flush_listeners cb now evs (l # ls) (d, s) = do {
     rb \<leftarrow> deliver_events now evs (listener_events d l);
     ds \<leftarrow> cb l (d\<lparr>listener_events := (listener_events d)(l := rb)\<rparr>, s);
     flush_listeners cb now evs ls ds }"

definition flush_events ::
  "(nat \<Rightarrow> input_device \<times> 's \<Rightarrow> (input_device \<times> 's) option) \<Rightarrow> timeval \<Rightarrow> input_device \<times> 's \<Rightarrow> (input_device \<times> 's) option" where
  "flush_events cb now = (\<lambda>(d, s). do {
     d \<leftarrow> (if \<not> rb_is_empty (dev_events d) then push_event now EV_SYN SYN_REPORT 0 d else Some d);
     (n, evs, rb) \<leftarrow> rb_read (dev_events d) 128;
     flush_listeners cb now evs (dev_listeners d) (d\<lparr>dev_events := rb\<rparr>, s) })"

section \<open>Event files\<close>

text \<open>An event is 24 bytes; \<^verbatim>\<open>fd->priv\<close> is the listener that \<^verbatim>\<open>open\<close> made.\<close>

definition evdev_read ::
  "input_device option list \<Rightarrow> nat \<Rightarrow> usize \<Rightarrow> usize \<Rightarrow> input_device \<Rightarrow> (input_event list res \<times> input_device) attempt option" where
  "evdev_read env l dfl cnt d = wait_loop (listener_read_attempt l (cnt div 24) (dfl AND O_NONBLOCK = 0)) env d"

section \<open>Keyboards\<close>

definition is_ctrl :: "input_device \<Rightarrow> bool option" where
  "is_ctrl d = do { a \<leftarrow> bm_get (key_status d) 29; if a then Some True else bm_get (key_status d) 97 }"

definition is_shift :: "input_device \<Rightarrow> bool option" where
  "is_shift d = do { a \<leftarrow> bm_get (key_status d) 42; if a then Some True else bm_get (key_status d) 54 }"

definition is_caps :: "input_device \<Rightarrow> bool option" where
  "is_caps d = do { s \<leftarrow> is_shift d; Some (caps_lock d \<noteq> s) }"

text \<open>The keys behind the prefix byte \<open>0xE0\<close>.\<close>

definition extended_key :: "u16 \<Rightarrow> u16" where
  "extended_key k = (case map_of [(0x1C, 96), (0x1D, 97), (0x35, 98), (0x38, 100), (0x47, 102), (0x48, 103), (0x49, 104),
     (0x4B, 105), (0x4D, 106), (0x4F, 107), (0x50, 108), (0x51, 109), (0x52, 110), (0x53, 111)] k of
       Some c \<Rightarrow> c | None \<Rightarrow> k)"

text \<open>\<^verbatim>\<open>Keyboard::irq\<close> for one byte of the controller; the first component is the member \<^verbatim>\<open>extended\<close>.\<close>

definition keyboard_irq ::
  "(nat \<Rightarrow> input_device \<times> 's \<Rightarrow> (input_device \<times> 's) option) \<Rightarrow> timeval \<Rightarrow> u8 \<Rightarrow> bool \<times> input_device \<times> 's \<Rightarrow>
     (bool \<times> input_device \<times> 's) option" where
  "keyboard_irq cb now scancode = (\<lambda>(extended, d, s).
     if scancode = 0xE0 then Some (True, d, s)
     else do {
       let release = (scancode AND 128 \<noteq> 0);
       let keycode = ucast (scancode AND 127);
       let keycode = (if extended then extended_key keycode else keycode);
       old \<leftarrow> bm_get (key_status d) (ucast keycode);
       let is_repeat = (\<not> release \<and> old);
       ks \<leftarrow> (if \<not> is_repeat then bm_set (key_status d) (ucast keycode) (\<not> release) else Some (key_status d));
       d \<leftarrow> push_event now EV_KEY keycode (if is_repeat then 2 else if release then 0 else 1) (d\<lparr>key_status := ks\<rparr>);
       (d, s) \<leftarrow> flush_events cb now (d, s);
       Some (False, d, s) })"

section \<open>Mice\<close>

record mouse =
  has_wheel :: bool
  has_five_buttons :: bool
  mouse_data :: "u8 list"
  mouse_data_count :: nat

definition process_button :: "timeval \<Rightarrow> u16 \<Rightarrow> bool \<Rightarrow> input_device \<Rightarrow> input_device option" where
  "process_button now index st d = do {
     old \<leftarrow> bm_get (key_status d) (ucast index);
     if st \<noteq> old
     then do { ks \<leftarrow> bm_set (key_status d) (ucast index) st;
               push_event now EV_KEY index (if st then 1 else 0) (d\<lparr>key_status := ks\<rparr>) }
     else Some d }"

definition push_rel :: "timeval \<Rightarrow> u16 \<Rightarrow> int \<Rightarrow> input_device \<Rightarrow> input_device option" where
  "push_rel now code v d = (if v \<noteq> 0 then push_event now EV_REL code (of_int v) d else Some d)"

text \<open>A complete packet; \<^verbatim>\<open>int y = ...; push_event(EV_REL, REL_Y, -y)\<close> is zero exactly when \<^verbatim>\<open>y\<close> is.\<close>

definition mouse_packet ::
  "(nat \<Rightarrow> input_device \<times> 's \<Rightarrow> (input_device \<times> 's) option) \<Rightarrow> timeval \<Rightarrow> mouse \<Rightarrow> input_device \<times> 's \<Rightarrow>
     (input_device \<times> 's) option" where
  "mouse_packet cb now m = (\<lambda>(d, s). do {
     b0 \<leftarrow> rd (mouse_data m) 0; b1 \<leftarrow> rd (mouse_data m) 1; b2 \<leftarrow> rd (mouse_data m) 2; b3 \<leftarrow> rd (mouse_data m) 3;
     d \<leftarrow> process_button now 0x110 (b0 AND 1 \<noteq> 0) d;
     d \<leftarrow> process_button now 0x111 (b0 AND 2 \<noteq> 0) d;
     d \<leftarrow> process_button now 0x112 (b0 AND 4 \<noteq> 0) d;
     d \<leftarrow> (if has_five_buttons m
           then do { d \<leftarrow> process_button now 0x113 (b3 AND 0x10 \<noteq> 0) d; process_button now 0x114 (b3 AND 0x20 \<noteq> 0) d }
           else Some d);
     d \<leftarrow> push_rel now 0 (uint b1 - (if b0 AND 0x10 \<noteq> 0 then 0x100 else 0)) d;
     d \<leftarrow> push_rel now 1 (- (uint b2 - (if b0 AND 0x20 \<noteq> 0 then 0x100 else 0))) d;
     d \<leftarrow> (if has_wheel m then push_rel now 8 (uint (b3 AND 7) * (if b3 AND 8 \<noteq> 0 then 1 else -1)) d else Some d);
     flush_events cb now (d, s) })"

definition mouse_irq ::
  "(nat \<Rightarrow> input_device \<times> 's \<Rightarrow> (input_device \<times> 's) option) \<Rightarrow> timeval \<Rightarrow> u8 \<Rightarrow> mouse \<times> input_device \<times> 's \<Rightarrow>
     (mouse \<times> input_device \<times> 's) option" where
  "mouse_irq cb now byte = (\<lambda>(m, d, s). do {
     dat \<leftarrow> wr (mouse_data m) (mouse_data_count m) byte;
     b0 \<leftarrow> rd dat 0;
     let m = m\<lparr>mouse_data := dat\<rparr>;
     if b0 AND 8 = 0 then Some (m\<lparr>mouse_data_count := 0\<rparr>, d, s)
     else let n = mouse_data_count m + 1 in
       if \<not> (has_wheel m \<and> n = 4 \<or> \<not> has_wheel m \<and> n = 3) then Some (m\<lparr>mouse_data_count := n\<rparr>, d, s)
       else do { (d, s) \<leftarrow> mouse_packet cb now m (d, s); Some (m\<lparr>mouse_data_count := 0\<rparr>, d, s) } })"

section \<open>Queues of events\<close>

definition events_ring_ok :: "input_event ring_buffer \<Rightarrow> bool" where
  "events_ring_ok rb \<longleftrightarrow> rb_ok rb \<and> rb_size rb = 128"

definition input_ok :: "input_device \<Rightarrow> bool" where
  "input_ok d \<longleftrightarrow> events_ring_ok (dev_events d) \<and> (\<forall>l. events_ring_ok (listener_events d l)) \<and> length (bm_data (key_status d)) = 12"

lemma ring_new_ok: "events_ring_ok (ring_new 128 x)" "rb_items (ring_new 128 x) = []"
proof -
  have "(128 :: nat) dvd 2 ^ 64" using le_imp_power_dvd[of 7 64 "2::nat"] by simp
  then show "events_ring_ok (ring_new 128 x)" by (simp add: events_ring_ok_def ring_new_def rb_ok_def data_count_def)
  show "rb_items (ring_new 128 x) = []" by (simp add: rb_items_def ring_new_def data_count_def)
qed

lemma input_device_new_ok: "input_ok input_device_new"
  using ring_new_ok by (simp add: input_ok_def input_device_new_def)

lemma events_bound: "events_ring_ok rb \<Longrightarrow> length (rb_items rb) \<le> 128"
  using ring.bounded[of rb] by (simp add: events_ring_ok_def)

lemma events_read:
  assumes "events_ring_ok rb" "128 \<le> unat n"
  shows "\<exists>rb'. rb_read rb n = Some (of_nat (length (rb_items rb)), rb_items rb, rb') \<and> events_ring_ok rb' \<and> rb_items rb' = []"
proof -
  have k: "length (rb_items rb) = min (unat n) (length (rb_items rb))" using events_bound[OF assms(1)] assms(2) by simp
  show ?thesis using rb_read_spec[of rb, OF _ k] assms(1) by (auto simp: events_ring_ok_def)
qed

lemma events_write:
  assumes "events_ring_ok rb" "length evs \<le> 128"
  shows "\<exists>n rb'. rb_write rb evs (of_nat (length evs)) = Some (n, rb') \<and> events_ring_ok rb' \<and>
     rb_items rb' = rb_items rb @ take (128 - length (rb_items rb)) evs"
proof -
  have n: "unat (of_nat (length evs) :: usize) = length evs" using assms(2) by (simp add: unat_of_nat)
  let ?k = "min (length evs) (128 - length (rb_items rb))"
  have "\<exists>rb'. rb_write rb evs (of_nat (length evs)) = Some (of_nat ?k, rb') \<and> rb_ok rb' \<and>
      rb_items rb' = rb_items rb @ take ?k evs \<and> rb_size rb' = rb_size rb"
    using rb_write_spec[of rb "of_nat (length evs)" evs ?k] assms(1) n by (auto simp: events_ring_ok_def simp del: length_rb_items)
  moreover have "take ?k evs = take (128 - length (rb_items rb)) evs" by (simp add: min_def)
  ultimately show ?thesis using assms(1) by (auto simp: events_ring_ok_def simp del: length_rb_items)
qed

lemma push_event_spec:
  assumes "input_ok d"
  shows "\<exists>rb. push_event now ty code v d = Some (d\<lparr>dev_events := rb\<rparr>) \<and> events_ring_ok rb \<and>
     rb_items rb = drop (length (rb_items (dev_events d)) - 127) (rb_items (dev_events d)) @ [mk_event now ty code v]"
proof -
  let ?rb = "dev_events d" and ?e = "[mk_event now ty code v]"
  let ?t = "if free_count ?rb < 1 then snd (rb_truncate ?rb 1) else ?rb"
  have ok: "events_ring_ok ?rb" using assms by (simp add: input_ok_def)
  then have ok': "rb_ok ?rb" "rb_size ?rb = 128" by (simp_all add: events_ring_ok_def)
  have free: "unat (free_count ?rb) = 128 - length (rb_items ?rb)" using rb_free[of ?rb] ok' by (simp add: rb_ok_lin)
  have t: "events_ring_ok ?t \<and> rb_items ?t = drop (length (rb_items ?rb) - 127) (rb_items ?rb)"
  proof (cases "length (rb_items ?rb) = 128")
    case True
    then have "free_count ?rb < 1" using free by (simp add: word_less_nat_alt del: length_rb_items)
    then show ?thesis using rb_truncate_spec[OF ok'(1), of 1 1] ok' True by (simp add: events_ring_ok_def del: length_rb_items)
  next
    case False
    then have "\<not> free_count ?rb < 1" "length (rb_items ?rb) - 127 = 0" using free events_bound[OF ok]
      by (simp_all add: word_less_nat_alt del: length_rb_items)
    then show ?thesis using ok by (simp del: length_rb_items)
  qed
  obtain n rb where "rb_write ?t ?e 1 = Some (n, rb)" "events_ring_ok rb" "rb_items rb = rb_items ?t @ take (128 - length (rb_items ?t)) ?e"
    using events_write[of ?t ?e] t by (auto simp del: length_rb_items)
  moreover have "length (rb_items ?t) \<le> 127" using t events_bound[OF ok] by (simp del: length_rb_items)
  then have "take (128 - length (rb_items ?t)) ?e = ?e" by (cases "128 - length (rb_items ?t)") (auto simp del: length_rb_items)
  ultimately show ?thesis using t by (auto simp: push_event_def rb_write_truncate_def Let_def simp del: length_rb_items)
qed

text \<open>What a listener has after a delivery: all of it, or a note that something is missing and what fits behind it.\<close>

definition received :: "timeval \<Rightarrow> input_event list \<Rightarrow> input_event list \<Rightarrow> input_event list" where
  "received now evs old =
     (if length old + length evs \<le> 128 then old @ evs else take 128 (mk_event now EV_SYN SYN_DROPPED 0 # evs))"

lemma deliver_events_spec:
  assumes "events_ring_ok rb" "length evs \<le> 128"
  shows "\<exists>rb'. deliver_events now evs rb = Some rb' \<and> events_ring_ok rb' \<and> rb_items rb' = received now evs (rb_items rb)"
proof -
  have ok: "rb_ok rb" "rb_size rb = 128" using assms(1) by (simp_all add: events_ring_ok_def)
  have free: "free_count rb < of_nat (length evs) \<longleftrightarrow> \<not> length (rb_items rb) + length evs \<le> 128"
    using rb_free[of rb] ok assms(2) events_bound[OF assms(1)]
    by (auto simp: rb_ok_lin word_less_nat_alt unat_of_nat)
  show ?thesis
  proof (cases "length (rb_items rb) + length evs \<le> 128")
    case True
    obtain n rb' where "rb_write rb evs (of_nat (length evs)) = Some (n, rb')" "events_ring_ok rb'"
      "rb_items rb' = rb_items rb @ take (128 - length (rb_items rb)) evs" using events_write[OF assms] by blast
    then show ?thesis using True free by (auto simp: deliver_events_def received_def simp del: length_rb_items)
  next
    case False
    let ?d = "mk_event now EV_SYN SYN_DROPPED 0"
    let ?t = "snd (rb_truncate rb (data_count rb))"
    have k: "unat (data_count rb) = min (unat (data_count rb)) (length (rb_items rb))" by simp
    have t: "events_ring_ok ?t" "rb_items ?t = []"
      using rb_truncate_spec[OF ok(1) k] ok(2) length_rb_items[of rb] by (auto simp: events_ring_ok_def simp del: length_rb_items)
    obtain n1 rb1 where w1: "rb_write ?t [?d] 1 = Some (n1, rb1)" "events_ring_ok rb1" "rb_items rb1 = [?d]"
      using events_write[OF t(1), of "[?d]"] t(2) by auto
    obtain n2 rb2 where "rb_write rb1 evs (of_nat (length evs)) = Some (n2, rb2)" "events_ring_ok rb2"
      "rb_items rb2 = [?d] @ take (128 - 1) evs" using events_write[OF w1(2) assms(2)] unfolding w1(3) by auto
    then show ?thesis using False free w1 by (auto simp: deliver_events_def received_def take_Cons' simp del: length_rb_items)
  qed
qed

section \<open>Callbacks\<close>

text \<open>
  What the code relies on of a callback, under an invariant \<open>I\<close> of the rest of the state: it returns, keeps
  the device in order and consumes events of its own listener only.
\<close>

locale event_callbacks =
  fixes cb :: "nat \<Rightarrow> input_device \<times> 's \<Rightarrow> (input_device \<times> 's) option"
    and I :: "'s \<Rightarrow> bool"
  assumes cb_keeps: "input_ok d \<Longrightarrow> I s \<Longrightarrow> \<exists>d' s'. cb l (d, s) = Some (d', s') \<and> input_ok d' \<and> I s' \<and>
    d' = d\<lparr>listener_events := (listener_events d)(l := listener_events d' l)\<rparr>"
begin

lemma flush_listeners_spec:
  assumes "input_ok d" "I s" "distinct ls" "length evs \<le> 128"
  shows "\<exists>d' s'. flush_listeners cb now evs ls (d, s) = Some (d', s') \<and> input_ok d' \<and> I s' \<and>
     d' = d\<lparr>listener_events := listener_events d'\<rparr> \<and>
     (\<forall>l. (l \<notin> set ls \<longrightarrow> listener_events d' l = listener_events d l) \<and>
          (l \<in> set ls \<and> (\<forall>ds. cb l ds = Some ds) \<longrightarrow>
             rb_items (listener_events d' l) = received now evs (rb_items (listener_events d l))))"
  using assms(1-3)
proof (induction ls arbitrary: d s)
  case (Cons l ls)
  have "events_ring_ok (listener_events d l)" using Cons.prems(1) by (simp add: input_ok_def)
  from deliver_events_spec[OF this assms(4)] obtain rb where rb: "deliver_events now evs (listener_events d l) = Some rb"
    "events_ring_ok rb" "rb_items rb = received now evs (rb_items (listener_events d l))" by blast
  let ?d = "d\<lparr>listener_events := (listener_events d)(l := rb)\<rparr>"
  have "input_ok ?d" using Cons.prems(1) rb(2) by (simp add: input_ok_def)
  from cb_keeps[OF this Cons.prems(2), of l] obtain d1 s1 where c: "cb l (?d, s) = Some (d1, s1)" "input_ok d1" "I s1"
    "d1 = ?d\<lparr>listener_events := (listener_events ?d)(l := listener_events d1 l)\<rparr>" by blast
  have l1: "listener_events d1 m = listener_events d m" if "m \<noteq> l" for m using fun_cong[OF arg_cong[OF c(4), of listener_events], of m] that by simp
  have p1: "rb_items (listener_events d1 l) = received now evs (rb_items (listener_events d l))" if "\<forall>ds. cb l ds = Some ds"
    using that c(1) rb(3) by auto
  have e1: "d1 = d\<lparr>listener_events := listener_events d1\<rparr>" using c(4) by (metis input_device.surjective input_device.update_convs(3))
  obtain d2 s2 where f: "flush_listeners cb now evs ls (d1, s1) = Some (d2, s2)" "input_ok d2" "I s2"
    "d2 = d1\<lparr>listener_events := listener_events d2\<rparr>"
    "\<forall>m. (m \<notin> set ls \<longrightarrow> listener_events d2 m = listener_events d1 m) \<and>
       (m \<in> set ls \<and> (\<forall>ds. cb m ds = Some ds) \<longrightarrow> rb_items (listener_events d2 m) = received now evs (rb_items (listener_events d1 m)))"
    using Cons.IH[OF c(2,3)] Cons.prems(3) by auto
  have e2: "d2 = d\<lparr>listener_events := listener_events d2\<rparr>" using f(4) e1 by (metis input_device.surjective input_device.update_convs(3))
  have "\<forall>m. (m \<notin> set (l # ls) \<longrightarrow> listener_events d2 m = listener_events d m) \<and>
      (m \<in> set (l # ls) \<and> (\<forall>ds. cb m ds = Some ds) \<longrightarrow> rb_items (listener_events d2 m) = received now evs (rb_items (listener_events d m)))"
    using f(5) l1 p1 Cons.prems(3) by (metis distinct.simps(2) set_ConsD list.set_intros)
  then show ?case using rb(1) c(1) f(1-3) e2 by auto
qed auto

text \<open>The events of a device with room in its own queue, all of them followed by the report.\<close>

lemma flush_events_spec:
  assumes "input_ok d" "I s" "distinct (dev_listeners d)" "rb_items (dev_events d) \<noteq> []" "length (rb_items (dev_events d)) < 128"
    and evs: "evs = rb_items (dev_events d) @ [mk_event now EV_SYN SYN_REPORT 0]"
  shows "\<exists>d' s'. flush_events cb now (d, s) = Some (d', s') \<and> input_ok d' \<and> I s' \<and> rb_items (dev_events d') = [] \<and>
     dev_listeners d' = dev_listeners d \<and> key_status d' = key_status d \<and>
     (\<forall>l\<in>set (dev_listeners d). (\<forall>ds. cb l ds = Some ds) \<longrightarrow>
        rb_items (listener_events d' l) = received now evs (rb_items (listener_events d l)))"
proof -
  obtain rb where p: "push_event now EV_SYN SYN_REPORT 0 d = Some (d\<lparr>dev_events := rb\<rparr>)" "events_ring_ok rb" "rb_items rb = evs"
    using push_event_spec[OF assms(1), of now EV_SYN SYN_REPORT 0] assms(5) evs by (auto simp del: length_rb_items)
  obtain rb' where r: "rb_read rb 128 = Some (of_nat (length (rb_items rb)), evs, rb')" "events_ring_ok rb'" "rb_items rb' = []"
    using events_read[OF p(2), of 128] p(3) by (auto simp del: length_rb_items)
  let ?d = "d\<lparr>dev_events := rb'\<rparr>"
  have "input_ok ?d" "length evs \<le> 128" using assms(1,5) r(2) evs by (simp_all add: input_ok_def del: length_rb_items)
  moreover have "distinct (dev_listeners ?d)" using assms(3) by simp
  ultimately obtain d' s' where f: "flush_listeners cb now evs (dev_listeners ?d) (?d, s) = Some (d', s')" "input_ok d'" "I s'"
    "d' = ?d\<lparr>listener_events := listener_events d'\<rparr>"
    "\<forall>l. l \<in> set (dev_listeners ?d) \<and> (\<forall>ds. cb l ds = Some ds) \<longrightarrow>
       rb_items (listener_events d' l) = received now evs (rb_items (listener_events ?d l))"
    using flush_listeners_spec[OF _ assms(2), of ?d "dev_listeners ?d" evs now] by blast
  have "\<not> rb_is_empty (dev_events d)" using assms(4) by (simp add: rb_empty_iff)
  then have "flush_events cb now (d, s) = Some (d', s')" using p(1) r(1) f(1) by (simp add: flush_events_def del: length_rb_items)
  moreover have "dev_events d' = rb'" "dev_listeners d' = dev_listeners d" "key_status d' = key_status d"
    using arg_cong[OF f(4), of dev_events] arg_cong[OF f(4), of dev_listeners] arg_cong[OF f(4), of key_status] by simp_all
  ultimately show ?thesis using f(2,3,5) r(3) by auto
qed

text \<open>One byte of the keyboard that ends a key code.\<close>

lemma keyboard_irq_spec:
  assumes "input_ok d" "I s" "distinct (dev_listeners d)" "rb_items (dev_events d) = []" "scancode \<noteq> 0xE0"
    and code: "k = ucast (scancode AND 127)" "code = (if ext then extended_key k else k)"
    and old: "bm_get (key_status d) (ucast code) = Some old" and down: "down \<longleftrightarrow> scancode AND 128 = 0"
    and evs: "evs = [mk_event now EV_KEY code (if down \<and> old then 2 else if down then 1 else 0), mk_event now EV_SYN SYN_REPORT 0]"
  shows "\<exists>d' s'. keyboard_irq cb now scancode (ext, d, s) = Some (False, d', s') \<and> input_ok d' \<and> I s' \<and> rb_items (dev_events d') = [] \<and>
     dev_listeners d' = dev_listeners d \<and> bm_get (key_status d') (ucast code) = Some down \<and>
     (\<forall>j. j \<noteq> ucast code \<longrightarrow> bm_get (key_status d') j = bm_get (key_status d) j) \<and>
     (\<forall>l\<in>set (dev_listeners d). (\<forall>ds. cb l ds = Some ds) \<longrightarrow>
        rb_items (listener_events d' l) = received now evs (rb_items (listener_events d l)))"
proof -
  have i: "unat (ucast code :: usize) div 64 < length (bm_data (key_status d))"
    using old by (auto simp: bm_get_bit rd_def split: bind_splits if_splits)
  obtain ks where ks: "(if \<not> (down \<and> old) then bm_set (key_status d) (ucast code) down else Some (key_status d)) = Some ks"
    "length (bm_data ks) = length (bm_data (key_status d))" "bm_get ks (ucast code) = Some down"
    "\<forall>j. j \<noteq> ucast code \<longrightarrow> bm_get ks j = bm_get (key_status d) j"
  proof (cases "down \<and> old")
    case True
    then show ?thesis using that[of "key_status d"] old by simp
  next
    case False
    obtain bm where "bm_set (key_status d) (ucast code) down = Some bm" "bm_get bm (ucast code) = Some down"
      "\<forall>j. j \<noteq> ucast code \<longrightarrow> bm_get bm j = bm_get (key_status d) j" using bitmap_get_set[OF i] by blast
    moreover from this(1) have "length (bm_data bm) = length (bm_data (key_status d))"
      by (auto simp: bm_set_def Let_def wr_def split: bind_splits if_splits)
    ultimately show ?thesis using that[of bm] False by simp
  qed
  let ?d = "d\<lparr>key_status := ks\<rparr>"
  have ok: "input_ok ?d" using assms(1) ks(2) by (simp add: input_ok_def)
  from push_event_spec[OF ok, of now EV_KEY code "if down \<and> old then 2 else if down then 1 else 0"] obtain rb where
    p: "push_event now EV_KEY code (if down \<and> old then 2 else if down then 1 else 0) ?d = Some (?d\<lparr>dev_events := rb\<rparr>)"
      "events_ring_ok rb" "rb_items rb = [mk_event now EV_KEY code (if down \<and> old then 2 else if down then 1 else 0)]"
    using assms(4) by (auto simp del: length_rb_items)
  let ?d1 = "?d\<lparr>dev_events := rb\<rparr>"
  have d1: "input_ok ?d1" "distinct (dev_listeners ?d1)" using ok p(2) assms(3) by (simp_all add: input_ok_def)
  have e: "rb_items (dev_events ?d1) \<noteq> []" "length (rb_items (dev_events ?d1)) < 128"
    "evs = rb_items (dev_events ?d1) @ [mk_event now EV_SYN SYN_REPORT 0]" using p(3) evs by (simp_all del: length_rb_items)
  obtain d' s' where f: "flush_events cb now (?d1, s) = Some (d', s')" "input_ok d'" "I s'" "rb_items (dev_events d') = []"
    "dev_listeners d' = dev_listeners d" "key_status d' = ks"
    "\<forall>l\<in>set (dev_listeners d). (\<forall>ds. cb l ds = Some ds) \<longrightarrow>
       rb_items (listener_events d' l) = received now evs (rb_items (listener_events d l))"
    using flush_events_spec[OF d1(1) assms(2) d1(2) e] by auto
  have "keyboard_irq cb now scancode (ext, d, s) = Some (False, d', s')"
    using assms(5) code old ks(1) p(1) f(1) down unfolding keyboard_irq_def
    by (cases ext; cases down; cases old) (simp_all add: Let_def)
  then show ?thesis using f ks(3,4) by blast
qed

end

text \<open>A device with event files only: nothing is called back.\<close>

interpretation quiet: event_callbacks "\<lambda>l. Some" "\<lambda>_. True"
  by unfold_locales auto

section \<open>Packets of a mouse\<close>

text \<open>The bytes of a packet are collected, however they arrive, and decoded once.\<close>

lemma mouse_packet_assembled:
  assumes "mouse_data_count m = 0" "length (mouse_data m) = 4" "\<not> has_wheel m" "b0 AND 8 \<noteq> 0"
    and "m' = m\<lparr>mouse_data := [b0, b1, b2, mouse_data m ! 3]\<rparr>"
  shows "do { x \<leftarrow> mouse_irq cb now b0 (m, d, s); x \<leftarrow> mouse_irq cb now b1 x; mouse_irq cb now b2 x } =
         do { (d, s) \<leftarrow> mouse_packet cb now m' (d, s); Some (m', d, s) }"
proof -
  obtain x y z w where m: "mouse_data m = [x, y, z, w]" using assms(2) by (auto simp: length_Suc_conv eval_nat_numeral)
  have c: "mouse_packet cb now (m\<lparr>mouse_data_count := k, mouse_data := bs\<rparr>) = mouse_packet cb now (m\<lparr>mouse_data := bs\<rparr>)" for k bs
    by (simp add: mouse_packet_def)
  have z: "m\<lparr>mouse_data := bs, mouse_data_count := 0\<rparr> = m\<lparr>mouse_data := bs\<rparr>" for bs using assms(1) by (cases m) simp
  show ?thesis using assms(1,3,4) unfolding assms(5)
    by (simp add: mouse_irq_def m rd_def wr_def Let_def eval_nat_numeral c z)
qed

text \<open>A byte that cannot start a packet is dropped.\<close>

lemma mouse_resynchronises:
  assumes "mouse_data_count m = 0" "mouse_data m \<noteq> []" "b0 AND 8 = 0"
  shows "mouse_irq cb now b0 (m, d, s) = Some (m\<lparr>mouse_data := (mouse_data m)[0 := b0]\<rparr>, d, s)"
  using assms by (cases "mouse_data m") (simp_all add: mouse_irq_def rd_def wr_def Let_def)

end
