(* ===== verification/Dev_Tty.thy ===== *)
theory Dev_Tty
  imports Dev_Input Userland_Ids Sched_Lifecycle
begin

text \<open>
  Terminals: \<^verbatim>\<open>dev/tty/tty.cpp\<close>, \<^verbatim>\<open>dev/tty/tty.hpp\<close> (settings, translation of characters, job control),
  \<^verbatim>\<open>dev/tty/pty.cpp\<close> (pseudo terminals) and \<^verbatim>\<open>dev/tty/console.cpp\<close> (the keyboard side of the console). Nodes,
  terminals, sessions and process groups are numbers; the member \<^verbatim>\<open>controlling_terminal\<close> of a session is
  part of this state. Following a null pointer is \<open>None\<close>. Blocking calls are loops around waits as in
  the theory of the pipes.
\<close>

section \<open>Settings\<close>

text \<open>\<^verbatim>\<open>struct termios\<close> is the part of \<^verbatim>\<open>struct ktermios\<close> and \<^verbatim>\<open>struct termios2\<close> before the two speeds.\<close>

record ktermios =
  c_iflag :: u32
  c_oflag :: u32
  c_cflag :: u32
  c_lflag :: u32
  c_line :: u8
  c_cc :: "u8 list"
  c_ispeed :: u32
  c_ospeed :: u32

record winsize =
  ws_row :: u16
  ws_col :: u16
  ws_xpixel :: u16
  ws_ypixel :: u16

record terminal =
  tm_termios :: ktermios
  tm_winsize :: winsize
  foreground_process_group :: "nat option"
  tm_session :: "nat option"

definition IGNCR :: u32 where "IGNCR = 128"
definition ICRNL :: u32 where "ICRNL = 256"
definition INLCR :: u32 where "INLCR = 64"
definition ONLCR :: u32 where "ONLCR = 4"
definition ISIG :: u32 where "ISIG = 1"
definition ICANON :: u32 where "ICANON = 2"
definition ECHO :: u32 where "ECHO = 8"

definition VINTR :: nat where "VINTR = 0"
definition VQUIT :: nat where "VQUIT = 1"
definition VERASE :: nat where "VERASE = 2"
definition VKILL :: nat where "VKILL = 3"
definition VEOF :: nat where "VEOF = 4"
definition VMIN :: nat where "VMIN = 6"
definition VSTART :: nat where "VSTART = 8"
definition VSTOP :: nat where "VSTOP = 9"
definition VSUSP :: nat where "VSUSP = 10"

definition SIGINT :: int where "SIGINT = 2"
definition SIGQUIT :: int where "SIGQUIT = 3"
definition SIGTSTP :: int where "SIGTSTP = 20"
definition SIGWINCH :: int where "SIGWINCH = 28"

text \<open>The constructor; \<open>m\<close> is what the memory of the object held before, which it leaves in the other members.\<close>

definition terminal_new :: "terminal \<Rightarrow> terminal" where
  "terminal_new m = m\<lparr>tm_termios := (tm_termios m)\<lparr>c_iflag := ICRNL, c_oflag := ONLCR, c_lflag := ECHO OR ICANON OR ISIG,
     c_cflag := 0, c_ispeed := 38400, c_ospeed := 38400,
     c_cc := (c_cc (tm_termios m))[VMIN := 1, VINTR := 3, VQUIT := 28, VERASE := 8, VKILL := 21, VEOF := 4, VSTART := 17,
       VSTOP := 19, VSUSP := 26]\<rparr>\<rparr>"

section \<open>Translation of characters\<close>

text \<open>The characters handed to \<^verbatim>\<open>put\<close>, in order.\<close>

definition process_output_char :: "ktermios \<Rightarrow> u8 \<Rightarrow> u8 list" where
  "process_output_char t c = (if c = 10 \<and> c_oflag t AND ONLCR \<noteq> 0 then [13] else []) @ [c]"

text \<open>A \<^verbatim>\<open>char\<close> is signed and an element of \<^verbatim>\<open>c_cc\<close> is not: they are compared as \<^verbatim>\<open>int\<close>s.\<close>

definition is_cc :: "ktermios \<Rightarrow> nat \<Rightarrow> u8 \<Rightarrow> bool" where
  "is_cc t i c \<longleftrightarrow> sint c = uint (c_cc t ! i)"

definition char_signal :: "ktermios \<Rightarrow> u8 \<Rightarrow> int option" where
  "char_signal t c =
     (if c_lflag t AND ISIG = 0 then None
      else if is_cc t VINTR c then Some SIGINT
      else if is_cc t VQUIT c then Some SIGQUIT
      else if is_cc t VSUSP c then Some SIGTSTP else None)"

text \<open>The characters handed to \<^verbatim>\<open>put\<close>, and the signal for the foreground group that follows them.\<close>

definition process_input_char :: "ktermios \<Rightarrow> u8 \<Rightarrow> u8 list \<times> int option" where
  "process_input_char t c =
     (if c = 13 \<and> c_iflag t AND IGNCR \<noteq> 0 then ([], None)
      else let pre = (if c = 13 \<and> c_iflag t AND ICRNL \<noteq> 0 then [10]
                      else if c = 10 \<and> c_iflag t AND INLCR \<noteq> 0 then [13] else [])
           in case char_signal t c of Some s \<Rightarrow> (pre, Some s) | None \<Rightarrow> (pre @ [c], None))"

section \<open>State\<close>

record pty_end =
  pe_terminal :: nat
  pe_peer :: nat
  pe_ring :: "u8 ring_buffer"
  pts_num :: int
  slave :: bool
  packet_mode :: bool

record ttys =
  terms :: "nat \<Rightarrow> terminal option"
  num_terms :: nat
  ptys :: "nat \<Rightarrow> pty_end option"
  pty_bitmap :: bitmap
  controlling_terminal :: "nat \<Rightarrow> nat option"
  procs :: sched
  names :: vfs

definition upd_term :: "nat \<Rightarrow> (terminal \<Rightarrow> terminal) \<Rightarrow> ttys \<Rightarrow> ttys" where
  "upd_term i f st = st\<lparr>terms := (terms st)(i := map_option f (terms st i))\<rparr>"

definition upd_pty :: "nat \<Rightarrow> (pty_end \<Rightarrow> pty_end) \<Rightarrow> ttys \<Rightarrow> ttys" where
  "upd_pty e f st = st\<lparr>ptys := (ptys st)(e := map_option f (ptys st e))\<rparr>"

section \<open>Job control\<close>

definition set_controlling_terminal :: "nat \<Rightarrow> nat \<Rightarrow> nat \<Rightarrow> ttys \<Rightarrow> ttys option" where
  "set_controlling_terminal i p node st = do {
     leader \<leftarrow> session_leader p (procs st);
     if p \<noteq> leader then Some st
     else do {
       pr \<leftarrow> processes (procs st) p;
       g \<leftarrow> group pr;
       gr \<leftarrow> groups (procs st) g;
       Some (upd_term i (\<lambda>t. t\<lparr>tm_session := Some (session gr), foreground_process_group := Some g\<rparr>)
              (st\<lparr>controlling_terminal := (controlling_terminal st)(session gr \<mapsto> node)\<rparr>)) } }"

definition O_NOCTTY :: usize where "O_NOCTTY = 0x100"

definition terminal_on_open :: "nat \<Rightarrow> nat \<Rightarrow> usize \<Rightarrow> nat \<Rightarrow> ttys \<Rightarrow> ttys option" where
  "terminal_on_open i cur dfl node st =
     (if dfl AND O_NOCTTY = 0
      then do { p \<leftarrow> process_of cur (procs st); set_controlling_terminal i p node st }
      else Some st)"

text \<open>\<^verbatim>\<open>TTYDevNode::open\<close>: the node the description refers to afterwards.\<close>

definition tty_open :: "nat \<Rightarrow> ttys \<Rightarrow> nat res option" where
  "tty_open cur st = do {
     p \<leftarrow> process_of cur (procs st);
     gr \<leftarrow> group_of p (procs st);
     Some (case controlling_terminal st (session gr) of None \<Rightarrow> Inl ENXIO | Some n \<Rightarrow> Inr n) }"

text \<open>Requests with their arguments, and what they store for the caller.\<close>

datatype tty_request =
    TIOCGWINSZ | TIOCSWINSZ winsize | TCGETS | TCSETS ktermios | TCGETS2 | TCSETS2 ktermios
  | TIOCGPGRP | TIOCSPGRP int | TIOCGSID | TIOCSCTTY
  | TIOCGPTN | TIOCSPTLCK | TIOCPKT int | TIOCGPKT | Other_Request

datatype tty_reply = Reply_None | Reply_Winsize winsize | Reply_Termios ktermios | Reply_Int int

definition copy_termios :: "ktermios \<Rightarrow> ktermios \<Rightarrow> ktermios" where
  "copy_termios from t = from\<lparr>c_ispeed := c_ispeed t, c_ospeed := c_ospeed t\<rparr>"

text \<open>
  \<^verbatim>\<open>Terminal::tty_ioctl\<close> of terminal \<open>i\<close>, on a description of \<open>node\<close>, by the thread \<open>cur\<close>. \<^verbatim>\<open>TCGETS\<close> leaves the
  speeds in the caller's buffer \<open>buf\<close> as they are.
\<close>

definition tty_ioctl :: "nat \<Rightarrow> nat \<Rightarrow> nat \<Rightarrow> ktermios \<Rightarrow> tty_request \<Rightarrow> ttys \<Rightarrow> (tty_reply res \<times> ttys) option" where
  "tty_ioctl i cur node buf req st = do {
     t \<leftarrow> terms st i;
     case req of
       TIOCGWINSZ \<Rightarrow> Some (Inr (Reply_Winsize (tm_winsize t)), st)
     | TIOCSWINSZ w \<Rightarrow>
         let st = upd_term i (\<lambda>t. t\<lparr>tm_winsize := w\<rparr>) st in
         (case foreground_process_group t of
            None \<Rightarrow> Some (Inr Reply_None, st)
          | Some g \<Rightarrow> do { s \<leftarrow> group_send_signal g SIGWINCH (procs st); Some (Inr Reply_None, st\<lparr>procs := s\<rparr>) })
     | TCGETS \<Rightarrow> Some (Inr (Reply_Termios (copy_termios (tm_termios t) buf)), st)
     | TCSETS n \<Rightarrow> Some (Inr Reply_None, upd_term i (\<lambda>t. t\<lparr>tm_termios := copy_termios n (tm_termios t)\<rparr>) st)
     | TCGETS2 \<Rightarrow> Some (Inr (Reply_Termios (tm_termios t)), st)
     | TCSETS2 n \<Rightarrow> Some (Inr Reply_None, upd_term i (\<lambda>t. t\<lparr>tm_termios := n\<rparr>) st)
     | TIOCGPGRP \<Rightarrow> do {
         p \<leftarrow> process_of cur (procs st);
         gr \<leftarrow> group_of p (procs st);
         if controlling_terminal st (session gr) \<noteq> Some node then Some (Inl ENOTTY, st)
         else case foreground_process_group t of
                None \<Rightarrow> Some (Inl ENOTTY, st)
              | Some g \<Rightarrow> do { fg \<leftarrow> groups (procs st) g; Some (Inr (Reply_Int (int (leader_process fg))), st) } }
     | TIOCSPGRP pid \<Rightarrow>
         (case get_from_tid pid (procs st) of
            None \<Rightarrow> Some (Inl ESRCH, st)
          | Some th \<Rightarrow> do {
              pr \<leftarrow> processes (procs st) (process th);
              g \<leftarrow> group pr;
              gr \<leftarrow> groups (procs st) g;
              p \<leftarrow> process_of cur (procs st);
              mine \<leftarrow> group_of p (procs st);
              if session gr \<noteq> session mine then Some (Inl EPERM, st)
              else Some (Inr Reply_None, upd_term i (\<lambda>t. t\<lparr>foreground_process_group := Some g\<rparr>) st) })
     | TIOCGSID \<Rightarrow>
         (case tm_session t of
            None \<Rightarrow> Some (Inl ENOTTY, st)
          | Some s \<Rightarrow> do {
              se \<leftarrow> sessions (procs st) s;
              lg \<leftarrow> groups (procs st) (leader_group se);
              Some (Inr (Reply_Int (int (leader_process lg))), st) })
     | TIOCSCTTY \<Rightarrow> do {
         p \<leftarrow> process_of cur (procs st);
         st \<leftarrow> set_controlling_terminal i p node st;
         Some (Inr Reply_None, st) }
     | _ \<Rightarrow> Some (Inl EINVAL, st) }"

section \<open>Pseudo terminals\<close>

definition PTY_MAX :: nat where "PTY_MAX = 256"

text \<open>The search of the constructor for a free number, and the number it takes.\<close>

function find_pts :: "nat \<Rightarrow> bitmap \<Rightarrow> (int \<times> bitmap) option" where
  "find_pts i bm =
     (if i < PTY_MAX
      then do { b \<leftarrow> bm_get bm (of_nat i);
                if \<not> b then do { bm \<leftarrow> bm_set bm (of_nat i) True; Some (int i, bm) } else find_pts (i + 1) bm }
      else Some (-1, bm))"
  by pat_completeness auto
termination by (relation "measure (\<lambda>(i, _). PTY_MAX - i)") auto

text \<open>\<^verbatim>\<open>put\<close> as \<^verbatim>\<open>write\<close> defines it, for the characters one character becomes: the queue, and whether one was refused.\<close>

fun put_chars :: "u8 list \<Rightarrow> u8 ring_buffer \<Rightarrow> bool \<Rightarrow> (u8 ring_buffer \<times> bool) option" where
  "put_chars [] rb e = Some (rb, e)"
| "put_chars (c # cs) rb e = do { (n, rb) \<leftarrow> rb_write rb [c] 1; put_chars cs rb (e \<or> n = 0) }"

text \<open>The two loops of \<^verbatim>\<open>write\<close>, with the index they return.\<close>

fun slave_write :: "ktermios \<Rightarrow> u8 list \<Rightarrow> nat \<Rightarrow> u8 ring_buffer \<Rightarrow> (nat \<times> u8 ring_buffer) option" where
  "slave_write t [] i rb = Some (i, rb)"
| "slave_write t (c # cs) i rb = do {
     (rb, e) \<leftarrow> put_chars (process_output_char t c) rb False;
     if e then Some (i, rb) else slave_write t cs (i + 1) rb }"

definition signal_foreground :: "nat option \<Rightarrow> int option \<Rightarrow> sched \<Rightarrow> sched option" where
  "signal_foreground fg sig s =
     (case sig of None \<Rightarrow> Some s | Some n \<Rightarrow> do { g \<leftarrow> fg; group_send_signal g n s })"

fun master_write ::
  "terminal \<Rightarrow> u8 list \<Rightarrow> nat \<Rightarrow> u8 ring_buffer \<Rightarrow> sched \<Rightarrow> (nat \<times> u8 ring_buffer \<times> sched) option" where
  "master_write t [] i rb s = Some (i, rb, s)"
| "master_write t (c # cs) i rb s = do {
     let (out, sig) = process_input_char (tm_termios t) c;
     (rb, e) \<leftarrow> put_chars out rb False;
     s \<leftarrow> signal_foreground (foreground_process_group t) sig s;
     if e then Some (i, rb, s) else master_write t cs (i + 1) rb s }"

definition pty_write_attempt :: "usize \<Rightarrow> u8 list \<Rightarrow> nat \<Rightarrow> ttys \<Rightarrow> (nat res \<times> ttys) attempt option" where
  "pty_write_attempt dfl buf e st = do {
     this \<leftarrow> ptys st e;
     peer \<leftarrow> ptys st (pe_peer this);
     if rb_is_full (pe_ring peer)
     then Some (if dfl AND O_NONBLOCK \<noteq> 0 then Return (Inl EWOULDBLOCK, st) else Wait)
     else do {
       t \<leftarrow> terms st (pe_terminal this);
       if slave this
       then do { (i, rb) \<leftarrow> slave_write (tm_termios t) buf 0 (pe_ring peer);
                 Some (Return (Inr i, upd_pty (pe_peer this) (\<lambda>p. p\<lparr>pe_ring := rb\<rparr>) st)) }
       else do { (i, rb, s) \<leftarrow> master_write t buf 0 (pe_ring peer) (procs st);
                 Some (Return (Inr i, upd_pty (pe_peer this) (\<lambda>p. p\<lparr>pe_ring := rb\<rparr>) (st\<lparr>procs := s\<rparr>))) } } }"

definition pty_write :: "ttys option list \<Rightarrow> usize \<Rightarrow> u8 list \<Rightarrow> nat \<Rightarrow> ttys \<Rightarrow> (nat res \<times> ttys) attempt option" where
  "pty_write env dfl buf e st = wait_loop (pty_write_attempt dfl buf e) env st"

text \<open>The bytes \<^verbatim>\<open>read\<close> stores; it returns their number.\<close>

definition pty_read_attempt :: "usize \<Rightarrow> usize \<Rightarrow> nat \<Rightarrow> ttys \<Rightarrow> (u8 list res \<times> ttys) attempt option" where
  "pty_read_attempt dfl cnt e st = do {
     this \<leftarrow> ptys st e;
     if rb_is_empty (pe_ring this)
     then Some (if dfl AND O_NONBLOCK \<noteq> 0 then Return (Inl EWOULDBLOCK, st) else Wait)
     else if packet_mode this \<and> cnt > 0
     then do { (n, bs, rb) \<leftarrow> rb_read (pe_ring this) (cnt - 1);
               Some (Return (Inr (0 # bs), upd_pty e (\<lambda>p. p\<lparr>pe_ring := rb\<rparr>) st)) }
     else do { (n, bs, rb) \<leftarrow> rb_read (pe_ring this) cnt;
               Some (Return (Inr bs, upd_pty e (\<lambda>p. p\<lparr>pe_ring := rb\<rparr>) st)) } }"

definition pty_read :: "ttys option list \<Rightarrow> usize \<Rightarrow> usize \<Rightarrow> nat \<Rightarrow> ttys \<Rightarrow> (u8 list res \<times> ttys) attempt option" where
  "pty_read env dfl cnt e st = wait_loop (pty_read_attempt dfl cnt e) env st"

definition pty_poll :: "u64 \<Rightarrow> nat \<Rightarrow> ttys \<Rightarrow> u64 option" where
  "pty_poll evs e st = do {
     this \<leftarrow> ptys st e;
     peer \<leftarrow> ptys st (pe_peer this);
     let r = (if evs AND POLLIN \<noteq> 0 \<and> \<not> rb_is_empty (pe_ring this) then POLLIN else 0);
     Some (if evs AND POLLOUT \<noteq> 0 \<and> \<not> rb_is_full (pe_ring peer) then r OR POLLOUT else r) }"

definition pty_ioctl :: "nat \<Rightarrow> nat \<Rightarrow> ktermios \<Rightarrow> tty_request \<Rightarrow> ttys \<Rightarrow> (tty_reply res \<times> ttys) option" where
  "pty_ioctl e cur buf req st = do {
     this \<leftarrow> ptys st e;
     case req of
       TIOCGPTN \<Rightarrow> Some (Inr (Reply_Int (pts_num this)), st)
     | TIOCSPTLCK \<Rightarrow> Some (Inr Reply_None, st)
     | TIOCPKT v \<Rightarrow>
         if slave this then Some (Inl ENOTTY, st)
         else Some (Inr Reply_None, upd_pty e (\<lambda>p. p\<lparr>packet_mode := v \<noteq> 0\<rparr>) st)
     | TIOCGPKT \<Rightarrow> Some (Inr (Reply_Int (if packet_mode this then 1 else 0)), st)
     | TIOCGPGRP \<Rightarrow>
         if \<not> slave this then Some (Inr (Reply_Int 0), st) else tty_ioctl (pe_terminal this) cur e buf req st
     | _ \<Rightarrow> tty_ioctl (pe_terminal this) cur e buf req st }"

text \<open>\<^verbatim>\<open>%d\<close> of a number that is not negative.\<close>

fun decimal :: "nat \<Rightarrow> u8 list" where
  "decimal n = (if n < 10 then [48 + of_nat n] else decimal (n div 10) @ [48 + of_nat (n mod 10)])"

definition char_node :: "vfs \<Rightarrow> nat \<times> vfs" where
  "char_node v =
     (let n = num_nodes v
      in (n, v\<lparr>nodes := (nodes v)(n := \<lparr>ndata = tmpfs_new CHAR_DEVICE, inode_num = 0, nuid = -1, ngid = -1, nmode = 0, nrefs = 0\<rparr>),
               num_nodes := n + 1\<rparr>))"

text \<open>
  \<^verbatim>\<open>PseudoTerminalMultiplexer::open\<close>: the node of the master, which the description refers to afterwards.
  The objects that an error deletes again are not made; the number stays taken. \<open>m\<close> is what the memory of
  the terminal held.
\<close>

definition ptmx_open :: "terminal \<Rightarrow> caller \<Rightarrow> nat \<Rightarrow> usize \<Rightarrow> ttys \<Rightarrow> (nat res \<times> ttys) option" where
  "ptmx_open m me cur dfl st = do {
     (num, bm) \<leftarrow> find_pts 0 (pty_bitmap st);
     let st = st\<lparr>pty_bitmap := bm\<rparr>;
     if num = -1 then Some (Inl ENOENT, st)
     else do {
       (e, v) \<leftarrow> path_to_entry (str ''/dev/pts/'' @ decimal (nat num)) None True (names st);
       let st = st\<lparr>names := v\<rparr>;
       if evnode (entries v e) \<noteq> None then Some (Inl EEXIST, st)
       else if eparent (entries v e) = None then Some (Inl ENOENT, st)
       else do {
         let (master, v) = char_node v;
         let (sl, v) = char_node v;
         v \<leftarrow> entry_create e CHAR_DEVICE (Some (euid me)) (Some (egid me)) (Some 0x180)
                (upd_entry e (\<lambda>x. x\<lparr>evnode := Some sl\<rparr>) v);
         let i = num_terms st;
         let side = (\<lambda>peer s. \<lparr>pe_terminal = i, pe_peer = peer, pe_ring = ring_new 0x1000 0, pts_num = num, slave = s, packet_mode = False\<rparr>);
         let st = st\<lparr>names := v, terms := (terms st)(i \<mapsto> terminal_new m), num_terms := i + 1,
                     ptys := (ptys st)(master \<mapsto> side sl False, sl \<mapsto> side master True)\<rparr>;
         st \<leftarrow> terminal_on_open i cur dfl master st;
         Some (Inr master, st) } } }"

section \<open>The console\<close>

record console =
  co_terminal :: terminal
  input_buffer :: "u8 ring_buffer"

definition keycode_map :: "u8 list" where
  "keycode_map = [0, 27] @ str ''1234567890-='' @ [8, 9] @ str ''qwertyuiop[]'' @ [10, 0] @ str ''asdfghjkl;'' @ [39, 96, 0, 92] @
     str ''zxcvbnm,./'' @ [0] @ str ''*'' @ [0] @ str '' '' @ replicate 16 0 @ str ''-'' @ [0, 0, 0] @ str ''+'' @ replicate 49 0"

text \<open>The sequences of the arrow and function keys.\<close>

definition key_sequence :: "u16 \<Rightarrow> u8 list option" where
  "key_sequence = map_of [(103, [27, 91, 65]), (105, [27, 91, 68]), (106, [27, 91, 67]), (108, [27, 91, 66]),
     (59, [0x8F, 80]), (60, [0x8F, 81]), (61, [0x8F, 82]), (62, [0x8F, 83]),
     (63, [27, 91, 49, 53, 126]), (64, [27, 91, 49, 55, 126]), (65, [27, 91, 49, 56, 126]), (66, [27, 91, 49, 57, 126]),
     (67, [27, 91, 50, 48, 126]), (68, [27, 91, 50, 49, 126]), (87, [27, 91, 50, 51, 126]), (88, [27, 91, 50, 52, 126])]"

definition shifted :: "u8 \<Rightarrow> u8" where
  "shifted c = (case map_of (zip (str ''1234567890/'' @ [92] @ str '',.'' @ [39] @ str ''][;-='')
                                 (str ''!@#$%^&*()?|<>'' @ [34] @ str ''}{:_+'')) c of Some x \<Rightarrow> x | None \<Rightarrow> c)"

definition key_char :: "bool \<Rightarrow> bool \<Rightarrow> bool \<Rightarrow> u8 \<Rightarrow> u8" where
  "key_char shift caps ctrl c =
     (let c = (if shift then shifted c else c);
          c = (if caps \<and> 97 \<le> c \<and> c \<le> 122 then c - 97 + 65 else c)
      in if ctrl then c - 97 + 65 - 0x40 else c)"

definition put_truncate :: "u8 list \<Rightarrow> u8 ring_buffer \<Rightarrow> u8 ring_buffer option" where
  "put_truncate bs rb = map_option snd (rb_write_truncate rb bs (of_nat (length bs)))"

fun put_each :: "u8 list \<Rightarrow> u8 ring_buffer \<Rightarrow> u8 ring_buffer option" where
  "put_each [] rb = Some rb"
| "put_each (c # cs) rb = do { rb \<leftarrow> put_truncate [c] rb; put_each cs rb }"

text \<open>\<^verbatim>\<open>process_input_event\<close>; \<open>on\<close> is \<^verbatim>\<open>kernel_terminal_enabled\<close>. The keyboard keeps the state of the modifiers.\<close>

definition process_input_event ::
  "bool \<Rightarrow> input_device \<Rightarrow> input_event \<Rightarrow> console \<times> sched \<Rightarrow> (console \<times> sched) option" where
  "process_input_event on kbd ev = (\<lambda>(co, s).
     if \<not> on \<or> ie_type ev \<noteq> EV_KEY \<or> ie_value ev = 0 then Some (co, s)
     else case key_sequence (ie_code ev) of
       Some bs \<Rightarrow> do { rb \<leftarrow> put_truncate bs (input_buffer co); Some (co\<lparr>input_buffer := rb\<rparr>, s) }
     | None \<Rightarrow>
         if unat (ie_code ev) \<ge> length keycode_map then Some (co, s)
         else let c = keycode_map ! unat (ie_code ev) in
           if c = 0 then Some (co, s)
           else do {
             shift \<leftarrow> is_shift kbd;
             caps \<leftarrow> is_caps kbd;
             ctrl \<leftarrow> is_ctrl kbd;
             let (out, sig) = process_input_char (tm_termios (co_terminal co)) (key_char shift caps ctrl c);
             rb \<leftarrow> put_each out (input_buffer co);
             s \<leftarrow> signal_foreground (foreground_process_group (co_terminal co)) sig s;
             Some (co\<lparr>input_buffer := rb\<rparr>, s) })"

text \<open>The callback of the console's listener: every event that is waiting.\<close>

partial_function (option) console_drain ::
  "bool \<Rightarrow> nat \<Rightarrow> input_device \<Rightarrow> console \<times> sched \<Rightarrow> (input_device \<times> console \<times> sched) option" where
  "console_drain on l d cs =
     Option.bind (rb_read (listener_events d l) 1) (\<lambda>(n, evs, rb).
       if n = 0 then Some (d\<lparr>listener_events := (listener_events d)(l := rb)\<rparr>, cs)
       else let d = d\<lparr>listener_events := (listener_events d)(l := rb)\<rparr> in
         Option.bind (process_input_event on d (hd evs) cs) (\<lambda>cs. console_drain on l d cs))"

text \<open>The callbacks of a keyboard whose listener \<open>c\<close> is the console's.\<close>

definition keyboard_callbacks ::
  "bool \<Rightarrow> nat \<Rightarrow> nat \<Rightarrow> input_device \<times> console \<times> sched \<Rightarrow> (input_device \<times> console \<times> sched) option" where
  "keyboard_callbacks on c l = (\<lambda>(d, cs). if l = c then console_drain on l d cs else Some (d, cs))"

definition console_read_attempt :: "usize \<Rightarrow> console \<Rightarrow> (u8 list res \<times> console) attempt option" where
  "console_read_attempt cnt co =
     (if rb_is_empty (input_buffer co) then Some Wait
      else do { (n, bs, rb) \<leftarrow> rb_read (input_buffer co) cnt; Some (Return (Inr bs, co\<lparr>input_buffer := rb\<rparr>)) })"

definition console_poll :: "u64 \<Rightarrow> console \<Rightarrow> u64" where
  "console_poll evs co = (if evs AND POLLIN \<noteq> 0 \<and> \<not> rb_is_empty (input_buffer co) then POLLIN else 0)"

section \<open>Signals for a group\<close>

definition sched_good :: "sched \<Rightarrow> bool" where
  "sched_good st \<longleftrightarrow> queue_ok st \<and> events_ok st \<and> proc_wf st \<and> member_ok st"

text \<open>Threads stay, and so do the signals that wait for them.\<close>

definition keeps_pending :: "sched \<Rightarrow> sched \<Rightarrow> bool" where
  "keeps_pending st st' \<longleftrightarrow> (\<forall>t th. thread_table st t = Some th \<longrightarrow>
     (\<exists>th'. thread_table st' t = Some th' \<and> pending_signals th AND NOT (pending_signals th') = 0))"

definition has_pending :: "sched \<Rightarrow> nat \<Rightarrow> int \<Rightarrow> bool" where
  "has_pending st t sig \<longleftrightarrow> (\<exists>th. thread_table st t = Some th \<and> pending_signals th AND get_signal_bit sig = get_signal_bit sig)"

lemma word_subset_trans:
  fixes a b c :: "'a::len word"
  shows "a AND NOT b = 0 \<Longrightarrow> b AND NOT c = 0 \<Longrightarrow> a AND NOT c = 0"
  by (simp add: bit_eq_iff bit_simps)

lemma word_subset_has:
  fixes a b x :: "'a::len word"
  shows "a AND NOT b = 0 \<Longrightarrow> a AND x = x \<Longrightarrow> b AND x = x"
  by (simp add: bit_eq_iff bit_simps) blast

lemma keeps_pending_refl [simp]: "keeps_pending st st"
  by (auto simp: keeps_pending_def)

lemma keeps_pending_trans: "keeps_pending a b \<Longrightarrow> keeps_pending b c \<Longrightarrow> keeps_pending a c"
  unfolding keeps_pending_def by (meson word_subset_trans)

lemma keeps_pendingD: "keeps_pending st st' \<Longrightarrow> has_pending st t sig \<Longrightarrow> has_pending st' t sig"
  unfolding keeps_pending_def has_pending_def by (meson word_subset_has)

lemma keeps_pending_upd:
  "upd_thread t f st = Some st' \<Longrightarrow> (\<And>th. pending_signals th AND NOT (pending_signals (f th)) = 0) \<Longrightarrow> keeps_pending st st'"
  by (auto simp: upd_thread_def keeps_pending_def split: bind_splits)

lemma keeps_pending_enqueue: "enqueue_thread t s st = Some st' \<Longrightarrow> keeps_pending st st'"
  by (auto simp: enqueue_thread_def upd_thread_def keeps_pending_def split: bind_splits if_splits)

lemma keeps_pending_wake: "wake_listeners ls m n st = Some (k, st') \<Longrightarrow> keeps_pending st st'"
proof (induction ls m n st rule: wake_listeners.induct)
  case (2 t which rest m n st)
  obtain st1 st2 where st1: "upd_thread t (\<lambda>th. th\<lparr>which_event := which\<rparr>) st = Some st1" "enqueue_thread t (- 1) st1 = Some st2"
    and rest: "(if n + 1 \<ge> m then Some (n + 1, st2) else wake_listeners rest m (n + 1) st2) = Some (k, st')"
    using "2.prems" by (auto split: bind_splits)
  have "keeps_pending st st2" using keeps_pending_trans[OF keeps_pending_upd[OF st1(1)] keeps_pending_enqueue[OF st1(2)]] by simp
  then show ?case using rest "2.IH"[OF st1] keeps_pending_trans by (cases "n + 1 \<ge> m") auto
qed simp

lemma keeps_pending_trigger: "trigger_all e st = Some st' \<Longrightarrow> keeps_pending st st'"
  by (auto simp: trigger_all_def trigger_def upd_event_def split: if_splits dest: keeps_pending_wake) (simp add: keeps_pending_def)

lemma send_signal_pending:
  assumes "send_signal t s st = Some st'"
  shows "keeps_pending st st'" "has_pending st' t s"
proof -
  obtain st1 st2 where 1: "upd_thread t (\<lambda>th. th\<lparr>pending_signals := pending_signals th OR get_signal_bit s\<rparr>) st = Some st1"
    "enqueue_thread t s st1 = Some st2" "trigger_all (SignalEvent t) st2 = Some st'"
    using assms by (auto simp: send_signal_def split: bind_splits)
  have k: "keeps_pending st1 st'" using keeps_pending_trans[OF keeps_pending_enqueue[OF 1(2)] keeps_pending_trigger[OF 1(3)]] .
  have "(a :: u64) AND NOT (a OR b) = 0" for a b by (simp add: bit_eq_iff bit_simps)
  then show "keeps_pending st st'" using keeps_pending_trans[OF keeps_pending_upd[OF 1(1)] k] by simp
  have "((a :: u64) OR b) AND b = b" for a b by (simp add: bit_eq_iff bit_simps)
  then have "has_pending st1 t s" using 1(1) by (auto simp: upd_thread_def has_pending_def split: bind_splits)
  then show "has_pending st' t s" using keeps_pendingD[OF k] by blast
qed

lemma member_ok_same: "same_tree st st' \<Longrightarrow> member_ok st \<Longrightarrow> member_ok st'"
  by (simp add: same_tree_def member_ok_def)

lemma signal_members_total:
  assumes "sched_good st" "s \<noteq> SIGCONT" "\<forall>p\<in>set ps. \<exists>pr. processes st p = Some pr \<and> group pr = Some g"
  shows "\<exists>st'. signal_members g ps s st = Some st' \<and> sched_good st' \<and> same_tree st st' \<and> keeps_pending st st' \<and>
     (\<forall>p\<in>set ps. has_pending st' p s)"
  using assms
proof (induction ps arbitrary: st)
  case (Cons p ps)
  obtain pr where pr: "processes st p = Some pr" "group pr = Some g" using Cons.prems(3) by auto
  obtain st1 where 1: "process_send_signal p s st = Some st1" "queue_ok st1" "events_ok st1" "same_tree st st1"
    using process_send_total[of st p s] Cons.prems(1,2) pr(1) by (auto simp: sched_good_def)
  have g1: "sched_good st1" using 1 Cons.prems(1) proc_wf_same[OF 1(4)] member_ok_same[OF 1(4)] by (simp add: sched_good_def)
  have p1: "keeps_pending st st1" "has_pending st1 p s"
    using 1(1) send_signal_pending[of p s st st1] pr(1)
    by (auto simp: process_send_signal_def get_main_thread_def split: bind_splits list.splits if_splits)
  have "\<forall>p\<in>set ps. \<exists>pr. processes st1 p = Some pr \<and> group pr = Some g" using Cons.prems(3) 1(4) by (simp add: same_tree_def)
  from Cons.IH[OF g1 Cons.prems(2) this] obtain st' where 2: "signal_members g ps s st1 = Some st'" "sched_good st'"
    "same_tree st1 st'" "keeps_pending st1 st'" "\<forall>p\<in>set ps. has_pending st' p s" by blast
  then show ?case using pr 1 p1 same_tree_trans[OF 1(4) 2(3)] keeps_pending_trans[OF p1(1) 2(4)] keeps_pendingD[OF 2(4) p1(2)] by auto
qed (auto simp: same_tree_def)

lemma group_send_total:
  assumes "sched_good st" "s \<noteq> SIGCONT" "groups st g = Some gr"
  shows "\<exists>st'. group_send_signal g s st = Some st' \<and> sched_good st' \<and> same_tree st st' \<and> keeps_pending st st' \<and>
     (\<forall>p\<in>set (process_list gr). has_pending st' p s)"
proof -
  have "\<forall>p\<in>set (process_list gr). \<exists>pr. processes st p = Some pr \<and> group pr = Some g"
    using assms(1,3) by (auto simp: sched_good_def member_ok_def)
  from signal_members_total[OF assms(1,2) this] show ?thesis using assms(3) by (auto simp: group_send_signal_def)
qed

text \<open>The foreground group of a terminal, and the signals of several characters.\<close>

definition foreground_ok :: "nat option \<Rightarrow> sched \<Rightarrow> bool" where
  "foreground_ok fg s \<longleftrightarrow> sched_good s \<and> (\<exists>g gr. fg = Some g \<and> groups s g = Some gr)"

definition group_has_pending :: "nat option \<Rightarrow> sched \<Rightarrow> int \<Rightarrow> bool" where
  "group_has_pending fg s sig \<longleftrightarrow> (\<exists>g gr. fg = Some g \<and> groups s g = Some gr \<and> (\<forall>p\<in>set (process_list gr). has_pending s p sig))"

lemma char_signal_cases: "char_signal t c = Some n \<Longrightarrow> n \<in> {SIGINT, SIGQUIT, SIGTSTP}"
  by (auto simp: char_signal_def split: if_splits)

lemma group_has_pending_keeps:
  "group_has_pending fg s sig \<Longrightarrow> same_tree s s' \<Longrightarrow> keeps_pending s s' \<Longrightarrow> group_has_pending fg s' sig"
  unfolding group_has_pending_def same_tree_def by (metis keeps_pendingD)

lemma signal_foreground_total:
  assumes "foreground_ok fg s" "snd (process_input_char t c) = sig"
  shows "\<exists>s'. signal_foreground fg sig s = Some s' \<and> foreground_ok fg s' \<and> same_tree s s' \<and> keeps_pending s s' \<and>
     (\<forall>n. sig = Some n \<longrightarrow> group_has_pending fg s' n)"
proof (cases sig)
  case None
  then show ?thesis using assms(1) by (simp add: signal_foreground_def same_tree_def)
next
  case (Some n)
  have "char_signal t c = Some n" using assms(2) Some by (auto simp: process_input_char_def Let_def split: if_splits option.splits)
  then have n: "n \<noteq> SIGCONT" using char_signal_cases by (fastforce simp: SIGINT_def SIGQUIT_def SIGTSTP_def SIGCONT_def)
  obtain g gr where g: "fg = Some g" "groups s g = Some gr" "sched_good s" using assms(1) by (auto simp: foreground_ok_def)
  from group_send_total[OF g(3) n g(2)] obtain s' where "group_send_signal g n s = Some s'" "sched_good s'" "same_tree s s'"
    "keeps_pending s s'" "\<forall>p\<in>set (process_list gr). has_pending s' p n" by blast
  then show ?thesis using Some g by (auto simp: signal_foreground_def foreground_ok_def group_has_pending_def same_tree_def)
qed

section \<open>What a write to a pseudo terminal does\<close>

definition pty_ring_ok :: "u8 ring_buffer \<Rightarrow> bool" where
  "pty_ring_ok rb \<longleftrightarrow> rb_ok rb \<and> rb_size rb = 4096"

abbreviation pty_room :: "u8 ring_buffer \<Rightarrow> nat" where
  "pty_room rb \<equiv> 4096 - length (rb_items rb)"

lemma pty_ring_new: "pty_ring_ok (ring_new 0x1000 x)" "rb_items (ring_new 0x1000 x) = []"
proof -
  have "(4096 :: nat) dvd 2 ^ 64" using le_imp_power_dvd[of 12 64 "2::nat"] by simp
  then show "pty_ring_ok (ring_new 0x1000 x)" by (simp add: pty_ring_ok_def ring_new_def rb_ok_def data_count_def)
  show "rb_items (ring_new 0x1000 x) = []" by (simp add: rb_items_def ring_new_def data_count_def)
qed

lemma put_chars_spec:
  "pty_ring_ok rb \<Longrightarrow>
   \<exists>rb'. put_chars cs rb e = Some (rb', e \<or> pty_room rb < length cs) \<and> pty_ring_ok rb' \<and> rb_items rb' = rb_items rb @ take (pty_room rb) cs"
proof (induction cs arbitrary: rb e)
  case (Cons c cs)
  let ?k = "min 1 (pty_room rb)"
  have "\<exists>rb1. rb_write rb [c] 1 = Some (of_nat ?k, rb1) \<and> rb_ok rb1 \<and> rb_items rb1 = rb_items rb @ take ?k [c] \<and> rb_size rb1 = rb_size rb"
    using rb_write_spec[of rb 1 "[c]" ?k] Cons.prems by (simp add: pty_ring_ok_def)
  then obtain rb1 where w: "rb_write rb [c] 1 = Some (of_nat ?k, rb1)" "pty_ring_ok rb1" "rb_items rb1 = rb_items rb @ take ?k [c]"
    using Cons.prems by (auto simp: pty_ring_ok_def)
  obtain rb2 where o: "put_chars cs rb1 (e \<or> ?k = 0) = Some (rb2, (e \<or> ?k = 0) \<or> pty_room rb1 < length cs)" "pty_ring_ok rb2"
    "rb_items rb2 = rb_items rb1 @ take (pty_room rb1) cs" using Cons.IH[OF w(2)] by blast
  have k: "(of_nat ?k :: usize) = 0 \<longleftrightarrow> ?k = 0" by (simp add: min_def)
  have "put_chars (c # cs) rb e = Some (rb2, (e \<or> ?k = 0) \<or> pty_room rb1 < length cs)" using w(1) o(1) k by (simp del: length_rb_items)
  moreover have "length (rb_items rb1) = length (rb_items rb) + ?k" using w(3) by (simp del: length_rb_items)
  then have r: "pty_room rb1 = pty_room rb - ?k" by simp
  have "(min 1 r = 0 \<or> r - min 1 r < n) = (r < Suc n)" "take (min 1 r) [c] @ take (r - min 1 r) cs = take r (c # cs)" for r n :: nat
    by (cases r; auto)+
  from this(1)[of "pty_room rb" "length cs"] this(2)[of "pty_room rb"]
  have "(?k = 0 \<or> pty_room rb1 < length cs) \<longleftrightarrow> pty_room rb < length (c # cs)"
    "rb_items rb1 @ take (pty_room rb1) cs = rb_items rb @ take (pty_room rb) (c # cs)" unfolding r w(3) by simp_all
  ultimately show ?case using o(2,3) by auto
qed simp

text \<open>How many leading elements fit whole into \<open>room\<close>, when each takes the place its translation needs.\<close>

fun whole_fit :: "nat \<Rightarrow> 'a list list \<Rightarrow> nat" where
  "whole_fit room [] = 0"
| "whole_fit room (x # xs) = (if length x \<le> room then Suc (whole_fit (room - length x) xs) else 0)"

lemma slave_write_spec:
  "pty_ring_ok rb \<Longrightarrow>
   \<exists>rb'. slave_write t cs i rb = Some (i + whole_fit (pty_room rb) (map (process_output_char t) cs), rb') \<and> pty_ring_ok rb' \<and>
     rb_items rb' = rb_items rb @ take (pty_room rb) (concat (map (process_output_char t) cs))"
proof (induction cs arbitrary: i rb)
  case (Cons c cs)
  let ?o = "process_output_char t c"
  obtain rb1 where p: "put_chars ?o rb False = Some (rb1, pty_room rb < length ?o)" "pty_ring_ok rb1"
    "rb_items rb1 = rb_items rb @ take (pty_room rb) ?o" using put_chars_spec[OF Cons.prems, of ?o False] by auto
  show ?case
  proof (cases "pty_room rb < length ?o")
    case True
    then show ?thesis using p by (auto simp del: length_rb_items)
  next
    case False
    then have r: "pty_room rb1 = pty_room rb - length ?o" using p(3) by (simp del: length_rb_items)
    obtain rb2 where "slave_write t cs (i + 1) rb1 = Some (i + 1 + whole_fit (pty_room rb1) (map (process_output_char t) cs), rb2)"
      "pty_ring_ok rb2" "rb_items rb2 = rb_items rb1 @ take (pty_room rb1) (concat (map (process_output_char t) cs))"
      using Cons.IH[OF p(2)] by blast
    then show ?thesis using False p r by (auto simp del: length_rb_items)
  qed
qed simp

lemma master_write_spec:
  assumes "pty_ring_ok rb" "foreground_ok (foreground_process_group t) s"
  shows "\<exists>rb' s' n. master_write t cs i rb s = Some (i + n, rb', s') \<and> pty_ring_ok rb' \<and> foreground_ok (foreground_process_group t) s' \<and>
     same_tree s s' \<and> keeps_pending s s' \<and> n = whole_fit (pty_room rb) (map (fst \<circ> process_input_char (tm_termios t)) cs) \<and>
     rb_items rb' = rb_items rb @ take (pty_room rb) (concat (map (fst \<circ> process_input_char (tm_termios t)) cs)) \<and>
     (\<forall>c\<in>set (take n cs). \<forall>sig. snd (process_input_char (tm_termios t) c) = Some sig \<longrightarrow> group_has_pending (foreground_process_group t) s' sig)"
  using assms
proof (induction cs arbitrary: i rb s)
  case (Cons c cs)
  let ?in = "process_input_char (tm_termios t)" and ?fg = "foreground_process_group t"
  let ?o = "fst (?in c)"
  obtain rb1 where p: "put_chars ?o rb False = Some (rb1, pty_room rb < length ?o)" "pty_ring_ok rb1"
    "rb_items rb1 = rb_items rb @ take (pty_room rb) ?o" using put_chars_spec[OF Cons.prems(1), of ?o False] by auto
  obtain s1 where s1: "signal_foreground ?fg (snd (?in c)) s = Some s1" "foreground_ok ?fg s1" "same_tree s s1" "keeps_pending s s1"
    "\<forall>n. snd (?in c) = Some n \<longrightarrow> group_has_pending ?fg s1 n" using signal_foreground_total[OF Cons.prems(2) refl] by blast
  show ?case
  proof (cases "pty_room rb < length ?o")
    case True
    then show ?thesis using p s1 by (auto simp: case_prod_beta simp del: length_rb_items)
  next
    case False
    then have r: "pty_room rb1 = pty_room rb - length ?o" using p(3) by (simp del: length_rb_items)
    obtain rb2 s2 n where m: "master_write t cs (i + 1) rb1 s1 = Some (i + 1 + n, rb2, s2)" "pty_ring_ok rb2" "foreground_ok ?fg s2"
      "same_tree s1 s2" "keeps_pending s1 s2" "n = whole_fit (pty_room rb1) (map (fst \<circ> ?in) cs)"
      "rb_items rb2 = rb_items rb1 @ take (pty_room rb1) (concat (map (fst \<circ> ?in) cs))"
      "\<forall>c\<in>set (take n cs). \<forall>sig. snd (?in c) = Some sig \<longrightarrow> group_has_pending ?fg s2 sig"
      using Cons.IH[OF p(2) s1(2)] by blast
    have "\<forall>d\<in>set (take (Suc n) (c # cs)). \<forall>sig. snd (?in d) = Some sig \<longrightarrow> group_has_pending ?fg s2 sig"
      using m(8) s1(5) group_has_pending_keeps[OF _ m(4,5)] by auto
    then show ?thesis using False p s1(1) m same_tree_trans[OF s1(3) m(4)] keeps_pending_trans[OF s1(4) m(5)] r
      by (auto simp: case_prod_beta comp_def simp del: length_rb_items)
  qed
qed (auto simp: same_tree_def)

lemma whole_fit_all: "length (concat xs) \<le> room \<Longrightarrow> whole_fit room xs = length xs"
  by (induction xs arbitrary: room) (auto simp del: length_concat)

section \<open>The console as a listener\<close>

definition console_ok :: "console \<times> sched \<Rightarrow> bool" where
  "console_ok = (\<lambda>(co, s). rb_ok (input_buffer co) \<and> rb_size (input_buffer co) = 512 \<and>
     foreground_ok (foreground_process_group (co_terminal co)) s)"

lemma put_truncate_total:
  assumes "rb_ok rb" "length bs < 2 ^ 64"
  shows "\<exists>rb'. put_truncate bs rb = Some rb' \<and> rb_ok rb' \<and> rb_size rb' = rb_size rb"
proof -
  let ?n = "of_nat (length bs) :: usize"
  let ?t = "if free_count rb < ?n then snd (rb_truncate rb ?n) else rb"
  have t: "rb_ok ?t" "rb_size ?t = rb_size rb" using rb_truncate_spec[OF assms(1) refl] assms(1) by auto
  have "unat ?n \<le> length bs" using assms(2) by (simp add: unat_of_nat)
  from rb_write_spec[OF t(1) this refl] show ?thesis using t(2) by (auto simp: put_truncate_def rb_write_truncate_def Let_def)
qed

lemma put_each_total: "rb_ok rb \<Longrightarrow> \<exists>rb'. put_each bs rb = Some rb' \<and> rb_ok rb' \<and> rb_size rb' = rb_size rb"
proof (induction bs arbitrary: rb)
  case (Cons b bs)
  obtain rb1 where "put_truncate [b] rb = Some rb1" "rb_ok rb1" "rb_size rb1 = rb_size rb" using put_truncate_total[OF Cons.prems, of "[b]"] by auto
  then show ?case using Cons.IH[of rb1] by auto
qed simp

lemma modifiers_total:
  assumes "input_ok d"
  shows "\<exists>a. is_shift d = Some a" "\<exists>a. is_caps d = Some a" "\<exists>a. is_ctrl d = Some a"
  using assms by (auto simp: is_shift_def is_caps_def is_ctrl_def bm_get_bit rd_def input_ok_def)

lemma key_sequence_short: "key_sequence k = Some bs \<Longrightarrow> length bs < 2 ^ 64"
  by (auto simp: key_sequence_def split: if_splits)

lemma process_input_event_total:
  assumes "input_ok d" "console_ok cs"
  shows "\<exists>cs'. process_input_event on d ev cs = Some cs' \<and> console_ok cs'"
proof -
  obtain co s where cs: "cs = (co, s)" by fastforce
  have ok: "rb_ok (input_buffer co)" "rb_size (input_buffer co) = 512" "foreground_ok (foreground_process_group (co_terminal co)) s"
    using assms(2) by (simp_all add: console_ok_def cs)
  obtain a b c where m: "is_shift d = Some a" "is_caps d = Some b" "is_ctrl d = Some c" using modifiers_total[OF assms(1)] by blast
  have seq: "\<exists>rb. put_truncate bs (input_buffer co) = Some rb \<and> rb_ok rb \<and> rb_size rb = 512" if h: "key_sequence (ie_code ev) = Some bs" for bs
    using put_truncate_total[OF ok(1) key_sequence_short[OF h]] ok(2) by simp
  let ?in = "process_input_char (tm_termios (co_terminal co)) (key_char a b c (keycode_map ! unat (ie_code ev)))"
  obtain rb where "put_each (fst ?in) (input_buffer co) = Some rb" "rb_ok rb" "rb_size rb = 512" using put_each_total[OF ok(1)] ok(2) by fastforce
  moreover obtain s' where "signal_foreground (foreground_process_group (co_terminal co)) (snd ?in) s = Some s'"
    "foreground_ok (foreground_process_group (co_terminal co)) s'" using signal_foreground_total[OF ok(3) refl] by blast
  ultimately show ?thesis using assms(2) m seq ok(3) unfolding cs
    by (auto simp: process_input_event_def Let_def console_ok_def case_prod_beta split: option.splits)
qed

lemma console_drain_total:
  assumes "input_ok d" "console_ok cs"
  shows "\<exists>d' cs'. console_drain on l d cs = Some (d', cs') \<and> input_ok d' \<and> console_ok cs' \<and>
     d' = d\<lparr>listener_events := (listener_events d)(l := listener_events d' l)\<rparr>"
  using assms
proof (induction "length (rb_items (listener_events d l))" arbitrary: d cs)
  case 0
  have ok: "events_ring_ok (listener_events d l)" using "0.prems"(1) by (simp add: input_ok_def)
  have "\<exists>rb. rb_read (listener_events d l) 1 = Some (0, [], rb) \<and> events_ring_ok rb"
    using rb_read_spec[of "listener_events d l" 0 1] ok "0.hyps" by (auto simp: events_ring_ok_def simp del: length_rb_items)
  then obtain rb where rb: "rb_read (listener_events d l) 1 = Some (0, [], rb)" "events_ring_ok rb" by blast
  let ?d = "d\<lparr>listener_events := (listener_events d)(l := rb)\<rparr>"
  have "console_drain on l d cs = Some (?d, cs)" using rb(1) by (simp add: console_drain.simps[of on l d])
  moreover have "input_ok ?d" using "0.prems"(1) rb(2) by (simp add: input_ok_def)
  moreover have "?d = d\<lparr>listener_events := (listener_events d)(l := listener_events ?d l)\<rparr>" by simp
  ultimately show ?case using "0.prems"(2) by (metis surj_pair)
next
  case (Suc n)
  have ok: "events_ring_ok (listener_events d l)" using Suc.prems(1) by (simp add: input_ok_def)
  have "\<exists>rb. rb_read (listener_events d l) 1 = Some (1, take 1 (rb_items (listener_events d l)), rb) \<and> events_ring_ok rb \<and> length (rb_items rb) = n"
    using rb_read_spec[of "listener_events d l" 1 1] ok Suc.hyps(2) by (auto simp: events_ring_ok_def simp del: length_rb_items)
  then obtain rb where r: "rb_read (listener_events d l) 1 = Some (1, take 1 (rb_items (listener_events d l)), rb)" "events_ring_ok rb"
    "length (rb_items rb) = n" by blast
  let ?d = "d\<lparr>listener_events := (listener_events d)(l := rb)\<rparr>"
  have d: "input_ok ?d" using Suc.prems(1) r(2) by (simp add: input_ok_def)
  obtain cs1 where c: "process_input_event on ?d (hd (take 1 (rb_items (listener_events d l)))) cs = Some cs1" "console_ok cs1"
    using process_input_event_total[OF d Suc.prems(2)] by blast
  have "n = length (rb_items (listener_events ?d l))" using r(3) by simp
  from Suc.hyps(1)[OF this d c(2)] obtain d' cs' where "console_drain on l ?d cs1 = Some (d', cs')" "input_ok d'" "console_ok cs'"
    "d' = ?d\<lparr>listener_events := (listener_events ?d)(l := listener_events d' l)\<rparr>" by blast
  then show ?case using r(1) c(1) by (auto simp: console_drain.simps[of on l d] simp del: length_rb_items)
qed

interpretation keyb: event_callbacks "keyboard_callbacks on c" console_ok for on c
proof unfold_locales
  fix d :: input_device and s :: "console \<times> sched" and l
  assume a: "input_ok d" "console_ok s"
  show "\<exists>d' s'. keyboard_callbacks on c l (d, s) = Some (d', s') \<and> input_ok d' \<and> console_ok s' \<and>
      d' = d\<lparr>listener_events := (listener_events d)(l := listener_events d' l)\<rparr>"
    using console_drain_total[OF a, of on l] a by (cases "l = c") (auto simp: keyboard_callbacks_def)
qed

section \<open>Properties\<close>

definition translated_output :: "terminal \<Rightarrow> u8 list \<Rightarrow> u8 list list" where
  "translated_output t buf = map (process_output_char (tm_termios t)) buf"

lemma pty_not_full: "pty_ring_ok rb \<Longrightarrow> pty_room rb \<noteq> 0 \<Longrightarrow> \<not> rb_is_full rb"
  using rb_full_iff[of rb] by (simp add: pty_ring_ok_def)

text \<open>
  C37: Output of a program reaches the master of its pseudo terminal translated, complete and in order. When the
  queue of the master has room, a write of \<open>buf\<close> to the slave puts behind the queue as much of the
  translation of \<open>buf\<close> (a carriage return before each newline, if \<^verbatim>\<open>ONLCR\<close> is set) as fits, and returns the
  number of characters whose translation fits whole; that is all of \<open>buf\<close> when the translation fits. A
  read of the master then returns the first bytes of the queue, after a zero byte in packet mode.
\<close>

theorem pty_output_exact:
  assumes "ptys st e = Some this" "slave this" "ptys st (pe_peer this) = Some peer" "terms st (pe_terminal this) = Some t"
    and "pty_ring_ok (pe_ring peer)" "pty_room (pe_ring peer) \<noteq> 0" "packet_mode peer \<longrightarrow> 0 < cnt" "0 < length buf"
  shows "\<exists>n rb st'. pty_write_attempt dfl buf e st = Some (Return (Inr n, st')) \<and>
     st' = upd_pty (pe_peer this) (\<lambda>p. p\<lparr>pe_ring := rb\<rparr>) st \<and> pty_ring_ok rb \<and>
     rb_items rb = rb_items (pe_ring peer) @ take (pty_room (pe_ring peer)) (concat (translated_output t buf)) \<and>
     n = whole_fit (pty_room (pe_ring peer)) (translated_output t buf) \<and>
     (length (concat (translated_output t buf)) \<le> pty_room (pe_ring peer) \<longrightarrow> n = length buf) \<and>
     (\<exists>st''. pty_read_attempt dfl' cnt (pe_peer this) st' =
        Some (Return (Inr (if packet_mode peer then 0 # take (unat cnt - 1) (rb_items rb) else take (unat cnt) (rb_items rb)), st'')))"
proof -
  let ?r = "pe_ring peer" and ?x = "concat (translated_output t buf)"
  obtain rb where w: "slave_write (tm_termios t) buf 0 ?r = Some (whole_fit (pty_room ?r) (translated_output t buf), rb)" "pty_ring_ok rb"
    "rb_items rb = rb_items ?r @ take (pty_room ?r) ?x"
    using slave_write_spec[OF assms(5), of "tm_termios t" buf 0] unfolding translated_output_def by auto
  let ?st = "upd_pty (pe_peer this) (\<lambda>p. p\<lparr>pe_ring := rb\<rparr>) st"
  have a: "pty_write_attempt dfl buf e st = Some (Return (Inr (whole_fit (pty_room ?r) (translated_output t buf)), ?st))"
    using assms(1-4) pty_not_full[OF assms(5,6)] w(1) by (simp add: pty_write_attempt_def del: length_rb_items)
  have f: "length ?x \<le> pty_room ?r \<longrightarrow> whole_fit (pty_room ?r) (translated_output t buf) = length buf"
    using whole_fit_all[of "translated_output t buf"] by (simp add: translated_output_def del: length_rb_items length_concat)
  obtain b bs where "buf = b # bs" using assms(8) by (cases buf) auto
  then have "?x \<noteq> []" by (simp add: translated_output_def process_output_char_def)
  then have "rb_items rb \<noteq> []" using w(3) assms(6) by (simp del: length_rb_items)
  then have ne: "\<not> rb_is_empty rb" by (simp add: rb_empty_iff)
  have rbok: "rb_ok rb" using w(2) by (simp add: pty_ring_ok_def)
  have rd: "\<exists>m rb'. rb_read rb k = Some (m, take (unat k) (rb_items rb), rb')" for k
    using rb_read_spec[OF rbok refl, of k] by (auto simp: min_def split: if_splits)
  have p: "ptys ?st (pe_peer this) = Some (peer\<lparr>pe_ring := rb\<rparr>)" using assms(3) by (simp add: upd_pty_def)
  have u: "unat (cnt - 1) = unat cnt - 1" if "0 < cnt" using that by (simp add: unat_sub word_le_nat_alt word_less_nat_alt)
  have "\<exists>st''. pty_read_attempt dfl' cnt (pe_peer this) ?st =
      Some (Return (Inr (if packet_mode peer then 0 # take (unat cnt - 1) (rb_items rb) else take (unat cnt) (rb_items rb)), st''))"
    using rd[of "cnt - 1"] rd[of cnt] ne p assms(7) u by (cases "packet_mode peer") (auto simp: pty_read_attempt_def)
  then show ?thesis using a f w(2,3) by blast
qed

definition example_terminal :: terminal where
  "example_terminal = terminal_new \<lparr>tm_termios = \<lparr>c_iflag = 0, c_oflag = 0, c_cflag = 0, c_lflag = 0, c_line = 0, c_cc = replicate 19 0,
     c_ispeed = 0, c_ospeed = 0\<rparr>, tm_winsize = \<lparr>ws_row = 0, ws_col = 0, ws_xpixel = 0, ws_ypixel = 0\<rparr>,
     foreground_process_group = Some 1, tm_session = None\<rparr>"

text \<open>Node 5 is the master, node 6 the slave.\<close>

definition example_ttys :: ttys where
  "example_ttys = \<lparr>terms = [0 \<mapsto> example_terminal], num_terms = 1,
     ptys = [5 \<mapsto> \<lparr>pe_terminal = 0, pe_peer = 6, pe_ring = ring_new 0x1000 0, pts_num = 0, slave = False, packet_mode = False\<rparr>,
             6 \<mapsto> \<lparr>pe_terminal = 0, pe_peer = 5, pe_ring = ring_new 0x1000 0, pts_num = 0, slave = True, packet_mode = False\<rparr>],
     pty_bitmap = \<lparr>bm_data = [1, 0, 0, 0]\<rparr>, controlling_terminal = Map.empty, procs = example_tree, names = vfs_init\<rparr>"

theorem pty_output_exact_witness:
  "\<exists>st1 st2. pty_write_attempt 0 (str ''a'' @ [10]) 6 example_ttys = Some (Return (Inr 2, st1)) \<and>
     pty_read_attempt 0 16 5 st1 = Some (Return (Inr (str ''a'' @ [13, 10]), st2))"
proof -
  have t: "concat (translated_output example_terminal (str ''a'' @ [10])) = str ''a'' @ [13, 10]" "length (str ''a'' @ [10]) = 2"
    by (simp_all add: translated_output_def process_output_char_def example_terminal_def terminal_new_def ONLCR_def str_def)
  show ?thesis
    using pty_output_exact[of example_ttys 6 "the (ptys example_ttys 6)" "the (ptys example_ttys 5)" example_terminal 16 "str ''a'' @ [10]" 0 0]
      t pty_ring_new[of 0]
    by (auto simp: example_ttys_def str_def simp del: length_rb_items)
qed

definition translated_input :: "terminal \<Rightarrow> u8 list \<Rightarrow> u8 list list" where
  "translated_input t buf = map (fst \<circ> process_input_char (tm_termios t)) buf"


lemma example_tree_good: "foreground_ok (Some 1) example_tree"
  using example_tree_ok by (auto simp: foreground_ok_def sched_good_def member_ok_def example_tree_def example_proc_def split: if_splits)

lemma example_terminal_simps:
  "foreground_process_group example_terminal = Some 1" "char_signal (tm_termios example_terminal) 3 = Some SIGINT"
  "translated_input example_terminal [120, 3] = [[120], []]"
  by (simp add: example_terminal_def terminal_new_def) code_simp+



definition example_console :: console where
  "example_console = \<lparr>co_terminal = example_terminal, input_buffer = ring_new 512 0\<rparr>"

lemma example_console_ok: "console_ok (example_console, example_tree)"
proof -
  have "(512 :: nat) dvd 2 ^ 64" using le_imp_power_dvd[of 9 64 "2::nat"] by simp
  then show ?thesis using example_tree_good example_terminal_simps(1)
    by (simp add: console_ok_def example_console_def ring_new_def rb_ok_def data_count_def)
qed


end
