(* ===== verification/Userland_Futex.thy ===== *)
theory Userland_Futex
  imports Klib_Containers Klib_Time Sched_Core Mem_Ranges
begin

text \<open>
  Futexes: \<^verbatim>\<open>userland/futex.cpp\<close>. The state joins the address space of the process, the scheduler, the clocks
  and the hash table from physical addresses to events. Reading a word of user memory takes the page
  fault of a page that is not there yet; a fault that cannot be resolved is \<open>None\<close>, and so is a word across
  two pages or a store to a page that is not writable. \<open>env\<close> are the parameters of the fault handler:
  the pages of files, which addresses have a page table, and the kernel's ranges. A waiting call is the
  part before it gives up the processor and the part after it runs again.
\<close>

section \<open>State and user memory\<close>

record futexes =
  fvm :: vm
  fsched :: sched
  ftime :: "unit time_state"
  futex_hash_table :: "(uptr, event_id) hash_table"
  next_futex_event :: nat

type_synonym fault_env = "(nat \<Rightarrow> usize \<Rightarrow> u8 list) \<times> (vm \<Rightarrow> uptr \<Rightarrow> bool) \<times> mapped_range list"

definition user_phys :: "fault_env \<Rightarrow> uptr \<Rightarrow> vm \<Rightarrow> (u64 res \<times> vm) option" where
  "user_phys env addr v = (case env of (rp, ht, kr) \<Rightarrow> get_physical_addr 2 rp ht kr addr v)"

fun word_of_bytes :: "u8 list \<Rightarrow> u32 option" where
  "word_of_bytes [a, b, c, d] = Some (ucast a OR push_bit 8 (ucast b) OR push_bit 16 (ucast c) OR push_bit 24 (ucast d))"
| "word_of_bytes _ = None"

definition bytes_of_word :: "u32 \<Rightarrow> u8 list" where
  "bytes_of_word w = [ucast w, ucast (drop_bit 8 w), ucast (drop_bit 16 w), ucast (drop_bit 24 w)]"

definition page_offset :: "uptr \<Rightarrow> nat" where
  "page_offset addr = unat (addr AND 0xFFF)"

definition atomic_load :: "fault_env \<Rightarrow> uptr \<Rightarrow> vm \<Rightarrow> (u32 \<times> vm) option" where
  "atomic_load env addr v = do {
     (r, v) \<leftarrow> user_phys env addr v;
     case r of Inl e \<Rightarrow> None
     | Inr phy \<Rightarrow> do { w \<leftarrow> word_of_bytes (take 4 (drop (page_offset addr) (contents v (phy div PAGE_SIZE)))); Some (w, v) } }"

text \<open>\<^verbatim>\<open>__atomic_exchange_n\<close> and \<^verbatim>\<open>__atomic_fetch_*\<close>: the old value, and \<open>f\<close> of it in its place.\<close>

definition atomic_fetch :: "fault_env \<Rightarrow> (u32 \<Rightarrow> u32) \<Rightarrow> uptr \<Rightarrow> vm \<Rightarrow> (u32 \<times> vm) option" where
  "atomic_fetch env f addr v = do {
     (w, v) \<leftarrow> atomic_load env addr v;
     (r, v) \<leftarrow> user_phys env addr v;
     case r of Inl e \<Rightarrow> None
     | Inr phy \<Rightarrow>
         if ptes v (vpn addr) AND PAGE_WRITABLE = 0 then None
         else do { bs \<leftarrow> mem_write (contents v (phy div PAGE_SIZE)) (page_offset addr) (bytes_of_word (f w));
                   Some (w, v\<lparr>contents := (contents v)(phy div PAGE_SIZE := bs)\<rparr>) } }"

section \<open>Waiting\<close>

text \<open>The event of a physical address, made when it is missing.\<close>

definition futex_event :: "uptr \<Rightarrow> futexes \<Rightarrow> (event_id \<times> futexes) option" where
  "futex_event phy st = do {
     r \<leftarrow> ht_lookup hash_u64 (futex_hash_table st) phy;
     case r of Some e \<Rightarrow> Some (e, st)
     | None \<Rightarrow> do {
         let e = OtherEvent (next_futex_event st);
         t \<leftarrow> ht_emplace hash_u64 (futex_hash_table st) phy e;
         Some (e, st\<lparr>futex_hash_table := t, next_futex_event := next_futex_event st + 1,
                      fsched := upd_event e (\<lambda>_. event_new) (fsched st)\<rparr>) } }"

text \<open>What \<^verbatim>\<open>futex_wait\<close> makes of the result of \<^verbatim>\<open>Event::wait\<close>.\<close>

definition futex_wait_result :: "int res \<Rightarrow> int res" where
  "futex_wait_result r = (case r of Inr n \<Rightarrow> if n = 1 then Inl ETIMEDOUT else Inr n | Inl e \<Rightarrow> Inl e)"

definition stop_timer :: "(nat \<times> event_id \<times> timespec) option \<Rightarrow> futexes \<Rightarrow> futexes" where
  "stop_timer tm st = (case tm of None \<Rightarrow> st | Some (i, e, d) \<Rightarrow> st\<lparr>ftime := disarm i (ftime st)\<rparr>)"

text \<open>
  \<^verbatim>\<open>futex_wait\<close> of thread \<open>t\<close>: \<open>tm\<close> is the timer with its event and the time-out, if there is one. \<open>Inl\<close> is the
  result when the call returns at once, \<open>Inr\<close> means that the thread sleeps.
\<close>

definition futex_wait_begin ::
  "fault_env \<Rightarrow> nat \<Rightarrow> uptr \<Rightarrow> u32 \<Rightarrow> (nat \<times> event_id \<times> timespec) option \<Rightarrow> futexes \<Rightarrow> ((int res + unit) \<times> futexes) option" where
  "futex_wait_begin env t uaddr expected tm st = do {
     (w, v) \<leftarrow> atomic_load env uaddr (fvm st);
     let st = st\<lparr>fvm := v\<rparr>;
     if w \<noteq> expected then Some (Inl (Inl EAGAIN), st)
     else do {
       (r, v) \<leftarrow> user_phys env uaddr (fvm st);
       let st = st\<lparr>fvm := v\<rparr>;
       case r of Inl e \<Rightarrow> Some (Inl (Inl e), st)
       | Inr phy \<Rightarrow> do {
           (e, st) \<leftarrow> futex_event phy st;
           st \<leftarrow> (case tm of None \<Rightarrow> Some st | Some (i, te, d) \<Rightarrow> map_option (\<lambda>c. st\<lparr>ftime := c\<rparr>) (arm i d None (ftime st)));
           (q, s) \<leftarrow> wait_begin t (Some e # (case tm of None \<Rightarrow> [] | Some (i, te, d) \<Rightarrow> [Some te])) False (fsched st);
           let st = st\<lparr>fsched := s\<rparr>;
           case q of Inl ret \<Rightarrow> Some (Inl (futex_wait_result ret), stop_timer tm st)
           | Inr _ \<Rightarrow> Some (Inr (), st) } } }"

definition futex_wait_end :: "nat \<Rightarrow> (nat \<times> event_id \<times> timespec) option \<Rightarrow> futexes \<Rightarrow> (int res \<times> futexes) option" where
  "futex_wait_end t tm st = do {
     (r, s) \<leftarrow> wait_finish t (fsched st);
     Some (futex_wait_result r, stop_timer tm (st\<lparr>fsched := s\<rparr>)) }"

section \<open>Waking\<close>

definition futex_wake :: "fault_env \<Rightarrow> uptr \<Rightarrow> int \<Rightarrow> futexes \<Rightarrow> (int res \<times> futexes) option" where
  "futex_wake env uaddr max_to_wake st = do {
     (w, v) \<leftarrow> atomic_load env uaddr (fvm st);
     (r, v) \<leftarrow> user_phys env uaddr v;
     let st = st\<lparr>fvm := v\<rparr>;
     case r of Inl e \<Rightarrow> Some (Inl e, st)
     | Inr phy \<Rightarrow> do {
         e \<leftarrow> ht_lookup hash_u64 (futex_hash_table st) phy;
         case e of None \<Rightarrow> Some (Inr 0, st)
         | Some e \<Rightarrow> do { (n, s) \<leftarrow> trigger e True max_to_wake (fsched st); Some (Inr n, st\<lparr>fsched := s\<rparr>) } } }"

text \<open>The operations of \<^verbatim>\<open>FUTEX_WAKE_OP\<close>, by their numbers, and the comparisons.\<close>

definition futex_op :: "u32 \<Rightarrow> u32 \<Rightarrow> (u32 \<Rightarrow> u32) option" where
  "futex_op op arg =
     (if op = 0 then Some (\<lambda>_. arg)
      else if op = 1 then Some (\<lambda>w. w + arg)
      else if op = 2 then Some (\<lambda>w. w OR arg)
      else if op = 3 then Some (\<lambda>w. NOT (w AND arg))
      else if op = 4 then Some (\<lambda>w. w XOR arg)
      else None)"

definition futex_cmp :: "u32 \<Rightarrow> u32 \<Rightarrow> u32 \<Rightarrow> bool option" where
  "futex_cmp cmp old arg =
     (if cmp = 0 then Some (old = arg)
      else if cmp = 1 then Some (old \<noteq> arg)
      else if cmp = 2 then Some (old < arg)
      else if cmp = 3 then Some (old \<le> arg)
      else if cmp = 4 then Some (old > arg)
      else if cmp = 5 then Some (old \<ge> arg)
      else None)"

definition futex_wake_op ::
  "fault_env \<Rightarrow> uptr \<Rightarrow> int \<Rightarrow> uptr \<Rightarrow> int \<Rightarrow> u32 \<Rightarrow> futexes \<Rightarrow> (int res \<times> futexes) option" where
  "futex_wake_op env uaddr1 max1 uaddr2 max2 enc st =
     (let op = drop_bit 28 enc AND 0xf; arg = drop_bit 24 enc AND 0xf; cmp = drop_bit 12 enc AND 0xfff; cmp_arg = enc AND 0xfff;
          (op, arg) = (if op AND 8 \<noteq> 0 then (op AND NOT 8, push_bit (unat arg) 1) else (op, arg))
      in case futex_op op arg of None \<Rightarrow> Some (Inl EINVAL, st)
      | Some f \<Rightarrow> do {
          (old, v) \<leftarrow> atomic_fetch env f uaddr2 (fvm st);
          (r1, st) \<leftarrow> futex_wake env uaddr1 max1 (st\<lparr>fvm := v\<rparr>);
          case r1 of Inl e \<Rightarrow> Some (Inl e, st)
          | Inr n1 \<Rightarrow>
            (case futex_cmp cmp old cmp_arg of None \<Rightarrow> Some (Inl EINVAL, st)
             | Some False \<Rightarrow> Some (Inr n1, st)
             | Some True \<Rightarrow> do {
                 (r2, st) \<leftarrow> futex_wake env uaddr2 max2 st;
                 case r2 of Inl e \<Rightarrow> Some (Inl e, st) | Inr n2 \<Rightarrow> Some (Inr (n1 + n2), st) }) })"

definition FUTEX_BITSET_MATCH_ANY :: u32 where "FUTEX_BITSET_MATCH_ANY = 0xFFFFFFFF"

text \<open>
  \<open>tm\<close> is the timer of the call with its event; \<open>deadline\<close> the absolute time, if there is one; \<open>us\<close> the time since
  the last tick, which the clock adds.
\<close>

definition futex_wait_bitset ::
  "fault_env \<Rightarrow> u64 \<Rightarrow> nat \<Rightarrow> uptr \<Rightarrow> u32 \<Rightarrow> nat \<times> event_id \<Rightarrow> timespec option \<Rightarrow> u32 \<Rightarrow> bool \<Rightarrow> futexes \<Rightarrow> ((int res + unit) \<times> futexes) option" where
  "futex_wait_bitset env us t uaddr expected tm deadline m realtime st =
     (if m \<noteq> FUTEX_BITSET_MATCH_ANY then Some (Inl (Inl ENOSYS), st)
      else case deadline of
        None \<Rightarrow> futex_wait_begin env t uaddr expected None st
      | Some d \<Rightarrow>
          let now = get_clock us (if realtime then CLOCK_REALTIME else CLOCK_MONOTONIC) False (ftime st);
              left = ts_sub d now
          in if ts_is_zero left then Some (Inl (Inl ETIMEDOUT), st)
             else futex_wait_begin env t uaddr expected (Some (fst tm, snd tm, left)) st)"

definition futex_wake_bitset :: "fault_env \<Rightarrow> uptr \<Rightarrow> int \<Rightarrow> u32 \<Rightarrow> futexes \<Rightarrow> (int res \<times> futexes) option" where
  "futex_wake_bitset env uaddr max_to_wake m st =
     (if m \<noteq> FUTEX_BITSET_MATCH_ANY then Some (Inl ENOSYS, st) else futex_wake env uaddr max_to_wake st)"

text \<open>
  \<^verbatim>\<open>syscall_futex\<close>; \<open>time\<close> is what the pointer \<^verbatim>\<open>arg2\<close> refers to when the operation takes it for a time. The result
  of an operation that cannot sleep is \<open>Inl\<close>.
\<close>

definition arg_int :: "usize \<Rightarrow> int" where
  "arg_int a = sint (ucast a :: 32 word)"

definition at_once :: "(int res \<times> futexes) option \<Rightarrow> ((int res + unit) \<times> futexes) option" where
  "at_once r = map_option (\<lambda>(x, st). (Inl x, st)) r"

definition syscall_futex ::
  "fault_env \<Rightarrow> u64 \<Rightarrow> nat \<Rightarrow> uptr \<Rightarrow> u32 \<Rightarrow> usize \<Rightarrow> usize \<Rightarrow> usize \<Rightarrow> usize \<Rightarrow> nat \<times> event_id \<Rightarrow> timespec option \<Rightarrow> futexes \<Rightarrow>
     ((int res + unit) \<times> futexes) option" where
  "syscall_futex env us t uaddr op arg1 arg2 arg3 arg4 tm time st =
     (let op = op AND NOT 128; realtime = (op AND 256 \<noteq> 0); cmd = op AND NOT (128 OR 256) in
      if cmd = 0 then futex_wait_begin env t uaddr (ucast arg1) (map_option (\<lambda>d. (fst tm, snd tm, d)) time) st
      else if cmd = 1 then at_once (futex_wake env uaddr (arg_int arg1) st)
      else if cmd = 9 then futex_wait_bitset env us t uaddr (ucast arg1) tm time (ucast arg4) realtime st
      else if cmd = 10 then at_once (futex_wake_bitset env uaddr (arg_int arg1) (ucast arg4) st)
      else if cmd = 5 then at_once (futex_wake_op env uaddr (arg_int arg1) arg3 (arg_int arg2) (ucast arg4) st)
      else Some (Inl (Inl ENOSYS), st))"

section \<open>Waiting and waking\<close>

definition futex_ok :: "futexes \<Rightarrow> bool" where
  "futex_ok st \<longleftrightarrow> ht_ok hash_u64 (futex_hash_table st) \<and> queue_ok (fsched st) \<and> events_ok (fsched st) \<and>
     (\<forall>n\<ge>next_futex_event st. listener_list (events (fsched st) (OtherEvent n)) = [])"

definition frame_of :: "uptr \<Rightarrow> vm \<Rightarrow> u64" where
  "frame_of addr v = ptes v (vpn addr) AND ADDR_MASK"

definition user_word :: "uptr \<Rightarrow> vm \<Rightarrow> u32 option" where
  "user_word addr v =
     (if ptes v (vpn addr) AND PAGE_PRESENT = 0 then None
      else word_of_bytes (take 4 (drop (page_offset addr) (contents v (frame_of addr v div PAGE_SIZE)))))"

lemma user_present:
  assumes "user_word addr v = Some w"
  shows "user_phys env addr v = Some (Inr (frame_of addr v), v)" "atomic_load env addr v = Some (w, v)"
proof -
  have p: "ptes v (vpn addr) AND PAGE_PRESENT \<noteq> 0" using assms by (auto simp: user_word_def)
  obtain rp ht kr where env: "env = (rp, ht, kr)" by (cases env)
  show u: "user_phys env addr v = Some (Inr (frame_of addr v), v)"
    using p by (simp add: user_phys_def env get_physical_addr_def frame_of_def)
  show "atomic_load env addr v = Some (w, v)" using assms p u by (simp add: atomic_load_def user_word_def)
qed

text \<open>The event of a futex and the threads that wait for it; a futex nobody has waited for has none.\<close>

definition event_of :: "uptr \<Rightarrow> futexes \<Rightarrow> event_id option" where
  "event_of phy st = (case ht_lookup hash_u64 (futex_hash_table st) phy of Some r \<Rightarrow> r | None \<Rightarrow> None)"

definition futex_waiters :: "uptr \<Rightarrow> futexes \<Rightarrow> (nat \<times> int) list" where
  "futex_waiters phy st = (case event_of phy st of Some e \<Rightarrow> listener_list (events (fsched st) e) | None \<Rightarrow> [])"

definition no_stale_wake :: "uptr \<Rightarrow> futexes \<Rightarrow> bool" where
  "no_stale_wake phy st \<longleftrightarrow> (\<forall>e. event_of phy st = Some e \<longrightarrow> pending (events (fsched st) e) = 0)"

lemma futex_event_spec:
  assumes "futex_ok st" "no_stale_wake phy st"
  shows "\<exists>e st'. futex_event phy st = Some (e, st') \<and> futex_ok st' \<and> event_of phy st' = Some e \<and> fvm st' = fvm st \<and> ftime st' = ftime st \<and>
     listener_list (events (fsched st') e) = futex_waiters phy st \<and> pending (events (fsched st') e) = 0 \<and>
     thread_table (fsched st') = thread_table (fsched st) \<and> queue (fsched st') = queue (fsched st)"
proof -
  have h: "ht_ok hash_u64 (futex_hash_table st)" using assms(1) by (simp add: futex_ok_def)
  obtain r where r: "ht_lookup hash_u64 (futex_hash_table st) phy = Some r" using htab.lookup_law[OF h] by blast
  show ?thesis
  proof (cases r)
    case (Some e)
    then have "event_of phy st = Some e" "futex_event phy st = Some (e, st)" using r by (simp_all add: event_of_def futex_event_def)
    then show ?thesis using assms by (simp add: futex_waiters_def no_stale_wake_def)
  next
    case None
    let ?e = "OtherEvent (next_futex_event st)"
    obtain tb where t: "ht_emplace hash_u64 (futex_hash_table st) phy ?e = Some tb" "ht_ok hash_u64 tb" using htab.emplace_law[OF h] by blast
    define st' where "st' = st\<lparr>futex_hash_table := tb, next_futex_event := next_futex_event st + 1,
      fsched := upd_event ?e (\<lambda>_. event_new) (fsched st)\<rparr>"
    have l: "listener_list (events (fsched st) ?e) = []" using assms(1) by (simp add: futex_ok_def)
    have ev: "events_ok (fsched st)" using assms(1) by (simp add: futex_ok_def)
    have "num_listeners (events (fsched st) x) = int (length (listener_list (events (fsched st) x)))" for x
      using ev unfolding events_ok_def by blast
    then have "num_listeners (events (fsched st) ?e) = 0" using l by simp
    then have "listener_list (events (fsched st') x) = listener_list (events (fsched st) x)"
      "num_listeners (events (fsched st') x) = num_listeners (events (fsched st) x)" for x
      using l by (simp_all add: st'_def upd_event_def event_new_def)
    then have "events_ok (fsched st')" by (intro events_ok_same[OF ev]) (simp_all add: st'_def listens_def upd_event_def)
    moreover have "queue_ok (fsched st')" using assms(1) queue_ok_same[of "fsched st" "fsched st'"]
      by (simp add: st'_def futex_ok_def same_queue_def upd_event_def)
    moreover have "futex_event phy st = Some (?e, st')" using r None t(1) by (simp add: futex_event_def st'_def Let_def)
    moreover have "event_of phy st' = Some ?e" using htab.lookup_emplace(2)[OF h t(1), of phy] by (simp add: event_of_def st'_def)
    moreover have "futex_waiters phy st = []" using r None by (simp add: futex_waiters_def event_of_def)
    ultimately show ?thesis using assms(1) t(2) l by (auto simp: st'_def futex_ok_def upd_event_def event_new_def)
  qed
qed

text \<open>A thread that begins to wait for one event: what it leaves.\<close>

lemma wait_begin_one:
  assumes "thread_table s t = Some th" "state th = READY \<or> state th = RUNNING" "t \<in> set (queue s)" "listeners th = []"
    and "\<not> has_pending_signals th" "pending (events s e) \<le> 0"
  shows "wait_begin t [Some e] False s = Some (Inr (),
     s\<lparr>thread_table := (thread_table s)(t \<mapsto> th\<lparr>listeners := [(e, 0)], state := BLOCKED\<rparr>), queue := remove1 t (queue s),
       events := (events s)(e := (events s e)\<lparr>listener_list := listener_list (events s e) @ [(t, 0)],
         num_listeners := num_listeners (events s e) + 1\<rparr>)\<rparr>)"
proof -
  have p: "take_pending [Some e] 0 s = None" using assms(6) by simp
  let ?th = "th\<lparr>listeners := [(e, 0)]\<rparr>"
  let ?s = "s\<lparr>thread_table := (thread_table s)(t \<mapsto> ?th),
    events := (events s)(e := (events s e)\<lparr>listener_list := listener_list (events s e) @ [(t, 0)], num_listeners := num_listeners (events s e) + 1\<rparr>)\<rparr>"
  have a: "add_listeners t [Some e] 0 s = Some ?s" using assms(1,4) by (simp add: upd_thread_def upd_event_def)
  have "dequeue_thread t (- 1) ?s = Some (?s\<lparr>queue := remove1 t (queue s), thread_table := (thread_table s)(t \<mapsto> ?th\<lparr>state := BLOCKED\<rparr>)\<rparr>)"
    using assms(2,3) by (auto simp: dequeue_thread_def upd_thread_def)
  then show ?thesis using assms(1,4,5) p a unfolding wait_begin_def by simp
qed

text \<open>
  C22: A futex wakes the threads that wait for it. A thread that finds the expected value at a mapped address goes to
  sleep behind the threads that wait there already; a later wake of the same address by another
  thread, for more threads than waited before, makes all of them and this one ready, in the order in
  which they began to wait, returns their number, and the wait of the thread then returns 0.
\<close>

theorem futex_wake_reaches_waiter:
  assumes ok: "futex_ok st" "user_word uaddr (fvm st) = Some expected" "no_stale_wake (frame_of uaddr (fvm st)) st"
    and ws: "ws = futex_waiters (frame_of uaddr (fvm st)) st" "distinct (map fst ws)"
      "\<forall>(u, i)\<in>set ws. \<exists>h. thread_table (fsched st) u = Some h \<and> state h = BLOCKED"
    and t: "thread_table (fsched st) t = Some th" "state th = READY \<or> state th = RUNNING" "t \<in> set (queue (fsched st))"
      "listeners th = []" "\<not> has_pending_signals th"
    and m: "int (length ws) < m"
  shows "\<exists>st1 st2 st3. futex_wait_begin env t uaddr expected None st = Some (Inr (), st1) \<and>
     map_option state (thread_table (fsched st1) t) = Some BLOCKED \<and>
     futex_wake env uaddr m st1 = Some (Inr (int (length ws) + 1), st2) \<and>
     queue (fsched st2) = remove1 t (queue (fsched st)) @ map fst ws @ [t] \<and>
     map_option state (thread_table (fsched st2) t) = Some READY \<and>
     futex_wait_end t None st2 = Some (Inr 0, st3)"
proof -
  let ?phy = "frame_of uaddr (fvm st)"
  obtain e s0 where e: "futex_event ?phy st = Some (e, s0)" "futex_ok s0" "event_of ?phy s0 = Some e" "fvm s0 = fvm st"
    "listener_list (events (fsched s0) e) = ws" "pending (events (fsched s0) e) = 0"
    "thread_table (fsched s0) = thread_table (fsched st)" "queue (fsched s0) = queue (fsched st)"
    using futex_event_spec[OF ok(1,3)] ws(1) by blast
  let ?s = "fsched s0"
  obtain s1 where w: "wait_begin t [Some e] False ?s = Some (Inr (), s1)"
    and s1: "s1 = ?s\<lparr>thread_table := (thread_table ?s)(t \<mapsto> th\<lparr>listeners := [(e, 0)], state := BLOCKED\<rparr>), queue := remove1 t (queue ?s),
       events := (events ?s)(e := (events ?s e)\<lparr>listener_list := listener_list (events ?s e) @ [(t, 0)],
         num_listeners := num_listeners (events ?s e) + 1\<rparr>)\<rparr>"
    using wait_begin_one[of ?s t th e] t e(6-8) by simp
  let ?st1 = "s0\<lparr>fsched := s1\<rparr>"
  have beg: "futex_wait_begin env t uaddr expected None st = Some (Inr (), ?st1)"
    using user_present[OF ok(2), of env] e(1,4) w by (simp add: futex_wait_begin_def)
  have eo: "events_ok ?s" and qo: "queue_ok ?s" using e(2) by (simp_all add: futex_ok_def)
  then have o1: "queue_ok s1" "events_ok s1" using wait_begin_ok[OF eo qo w] by auto
  have "listens ?s t = []" using t(1,4) e(7) by (simp add: listens_def)
  then have tn: "t \<notin> set (map fst ws)" using eo e(5) unfolding events_ok_def by fastforce
  have ls: "listener_list (events s1 e) = ws @ [(t, 0)]" using s1 e(5) by simp
  have d: "distinct (map fst (ws @ [(t, 0)]))" using ws(2) tn by simp
  have b: "\<forall>(u, i)\<in>set (ws @ [(t, 0)]). \<exists>h. thread_table s1 u = Some h \<and> state h = BLOCKED"
    using ws(3) tn s1 e(7) by force
  have "1 \<le> m" using m by simp
  from trigger_blocked_spec[OF o1 this ls _ d b, of True] m obtain s2 where
    tr: "trigger e True m s1 = Some (int (length ws) + 1, s2)" "queue s2 = queue s1 @ map fst ws @ [t]"
      "\<exists>h. thread_table s2 t = Some h \<and> state h = READY \<and> which_event h = 0 \<and> enqueued_by_signal h = - 1"
    by (auto simp: min_def nat_le_iff split: if_splits)
  have uw: "user_word uaddr (fvm ?st1) = Some expected" using ok(2) e(4) by simp
  have ev: "ht_lookup hash_u64 (futex_hash_table ?st1) ?phy = Some (Some e)"
    using e(3) by (auto simp: event_of_def split: option.splits)
  have wk: "futex_wake env uaddr m ?st1 = Some (Inr (int (length ws) + 1), ?st1\<lparr>fsched := s2\<rparr>)"
    using user_present[OF uw, of env] ev tr(1) e(4) by (simp add: futex_wake_def)
  obtain h where h: "thread_table s2 t = Some h" "which_event h = 0" "enqueued_by_signal h = - 1" "state h = READY" using tr(3) by blast
  have rl: "thread_table (remove_listeners t l s) = thread_table s" for l s
    by (induction t l s rule: remove_listeners.induct) (simp_all add: upd_event_def)
  have "\<exists>s3. wait_finish t s2 = Some (Inr 0, s3)"
    using h rl by (simp add: wait_finish_def clear_listeners_def upd_thread_def)
  then obtain s3 where "futex_wait_end t None (?st1\<lparr>fsched := s2\<rparr>) = Some (Inr 0, ?st1\<lparr>fsched := s3\<rparr>)"
    by (auto simp: futex_wait_end_def futex_wait_result_def stop_timer_def)
  moreover have "map_option state (thread_table (fsched ?st1) t) = Some BLOCKED" "queue s2 = remove1 t (queue (fsched st)) @ map fst ws @ [t]"
    using s1 tr(2) e(8) by simp_all
  ultimately have "futex_wait_end t None (?st1\<lparr>fsched := s2\<rparr>) = Some (Inr 0, ?st1\<lparr>fsched := s3\<rparr>) \<and>
      map_option state (thread_table (fsched ?st1) t) = Some BLOCKED \<and>
      queue (fsched (?st1\<lparr>fsched := s2\<rparr>)) = remove1 t (queue (fsched st)) @ map fst ws @ [t] \<and>
      map_option state (thread_table (fsched (?st1\<lparr>fsched := s2\<rparr>)) t) = Some READY" using h(1,4) by simp
  then show ?thesis using beg wk by blast
qed

definition example_vm :: vm where
  "example_vm = \<lparr>range_list = [], ptes = (\<lambda>n. if n = 1 then 0x5007 else 0), 
     vmem_pages = \<lparr>page_structs = Map.empty, page_freelist = [], region_list = [],
       stats = \<lparr>total_pages_usable = 0, total_pages_reserved = 0, total_free_pages = 0\<rparr>\<rparr>, contents = (\<lambda>_. replicate 4096 0), cached_range_lookup = None, file_refs = (\<lambda>_. 0), next_id = 0\<rparr>"

definition example_futexes :: futexes where
  "example_futexes = \<lparr>fvm = example_vm, fsched = example_sched, ftime = \<lparr>monotonic_clock = ts_zero, realtime_clock = ts_zero, armed_timers = [],
     thread_timers = [], timers = (\<lambda>_. timer_new)\<rparr>, futex_hash_table = hash_table_new 256, next_futex_event = 0\<rparr>"

theorem futex_wake_reaches_waiter_witness:
  "\<exists>st1 st2 st3. futex_wait_begin (\<lambda>_ _. [], \<lambda>_ _. False, []) 1 0x1010 0 None example_futexes = Some (Inr (), st1) \<and>
     futex_wake (\<lambda>_ _. [], \<lambda>_ _. False, []) 0x1010 1 st1 = Some (Inr 1, st2) \<and> queue (fsched st2) = [1] \<and>
     futex_wait_end 1 None st2 = Some (Inr 0, st3)"
proof -
  have v: "vpn 0x1010 = 1" "page_offset 0x1010 = 16" by (simp_all add: vpn_def page_offset_def)
  have z: "take 4 (drop 16 (replicate 4096 0)) = [0, 0, 0, 0 :: u8]" by (simp add: eval_nat_numeral(2,3))
  have u: "user_word 0x1010 (fvm example_futexes) = Some 0"
    unfolding user_word_def v example_futexes_def example_vm_def by (simp add: z PAGE_PRESENT_def numeral_eq_Suc)
  have h: "ht_ok hash_u64 (hash_table_new 256 :: (uptr, event_id) hash_table)"
    by (simp add: ht_ok_def hash_table_new_def ht_for_each_def)
  have l: "ht_lookup hash_u64 (hash_table_new 256 :: (uptr, event_id) hash_table) k = Some None" for k
    using htab.lookup_law[OF h, of k] by (auto simp: ht_vals_def hash_table_new_def unat_mod)
  have ok: "futex_ok example_futexes"
    using h example_sched_ok(1) by (auto simp: futex_ok_def example_futexes_def example_sched_def events_ok_def event_new_def listens_def example_thread_def
        split: option.splits if_splits)
  have n: "event_of phy example_futexes = None" for phy using l by (simp add: event_of_def example_futexes_def)
  have w: "[] = futex_waiters (frame_of 0x1010 (fvm example_futexes)) example_futexes" "no_stale_wake (frame_of 0x1010 (fvm example_futexes)) example_futexes"
    using n by (simp_all add: futex_waiters_def no_stale_wake_def)
  have t: "thread_table (fsched example_futexes) 1 = Some (example_thread RUNNING)" "state (example_thread RUNNING) = READY \<or> state (example_thread RUNNING) = RUNNING"
    "1 \<in> set (queue (fsched example_futexes))" "listeners (example_thread RUNNING) = []" "\<not> has_pending_signals (example_thread RUNNING)"
    "queue (fsched example_futexes) = [1]"
    by (simp_all add: example_futexes_def example_sched_def example_thread_def has_pending_signals_def)
  from futex_wake_reaches_waiter[OF ok u w(2,1) _ _ t(1-5), of 1 "(\<lambda>_ _. [], \<lambda>_ _. False, [])"] show ?thesis
    unfolding t(6) by auto
qed

text \<open>
  The key is the address of the page: a wake of one futex cannot be told from a wake of another one in
  the same page, so it may use up its count on threads that wait for the other.
\<close>

lemma futexes_of_a_page_are_one:
  assumes "user_word a (fvm st) = Some x" "user_word b (fvm st) = Some y" "vpn a = vpn b"
  shows "futex_wake env a m st = futex_wake env b m st"
proof -
  have "frame_of a (fvm st) = frame_of b (fvm st)" using assms(3) by (simp add: frame_of_def)
  then show ?thesis using user_present[OF assms(1), of env] user_present[OF assms(2), of env] by (simp add: futex_wake_def)
qed

text \<open>
  The value is compared before the thread is on the event's list, and a wake that finds the list empty
  leaves no trace: a wake in between is lost, and the thread sleeps although the value has changed.
\<close>

lemma wake_without_listeners_is_lost:
  assumes "listener_list (events s e) = []" "events_ok s"
  shows "trigger e True m s = Some (0, s)"
proof -
  have "num_listeners (events s e) = int (length (listener_list (events s e)))" using assms(2) unfolding events_ok_def by blast
  then show ?thesis using assms(1) by (simp add: trigger_def)
qed

end
