(* ===== verification/Userland_Poll.thy ===== *)
theory Userland_Poll
  imports Klib_Containers Klib_Time Userland_Channels Userland_Signal
begin

text \<open>
  Waiting for several files: \<^verbatim>\<open>ppoll_impl\<close> and \<^verbatim>\<open>pselect_impl\<close> of \<^verbatim>\<open>fs/vfs.cpp\<close> and the event sets of
  \<^verbatim>\<open>userland/epoll.cpp\<close>. \<open>pollf d events\<close> is what the virtual \<^verbatim>\<open>poll\<close> of the node behind the description \<open>d\<close>
  returns; the kinds of nodes define it in their own theories. Between two looks at the files the other
  threads run: each wait of a call takes an element of a list, \<open>None\<close> when a signal ends it and otherwise
  the descriptors, the behaviour of \<^verbatim>\<open>poll\<close> and the event set the thread finds when it runs again, and
  whether its timer has fired. Following a description that was freed is \<open>None\<close>.
\<close>

type_synonym pollf = "description \<Rightarrow> u64 \<Rightarrow> u64"

section \<open>poll and select\<close>

record pollfd =
  pfd :: int
  pevents :: u16
  prevents :: u16

text \<open>The start of the calls with a signal mask: the new mask, the old one saved, and whether a signal is pending under it.\<close>

definition set_poll_mask :: "u64 option \<Rightarrow> thread \<times> sigthread \<Rightarrow> (bool \<times> thread \<times> sigthread) option" where
  "set_poll_mask m = (\<lambda>(th, sg).
     case m of None \<Rightarrow> Some (False, th, sg)
     | Some k \<Rightarrow>
         if has_poll_saved_signal_mask sg then None
         else let th' = th\<lparr>signal_mask := k\<rparr>
              in Some (has_pending_signals th', th',
                       sg\<lparr>has_poll_saved_signal_mask := True, poll_saved_signal_mask := signal_mask th\<rparr>))"

definition poll_skips :: "pollfd \<Rightarrow> bool" where
  "poll_skips f \<longleftrightarrow> pfd f < 0 \<or> pevents f = 0"

text \<open>One pass over the array: the number of entries with an answer, and the array.\<close>

fun poll_scan :: "nat \<Rightarrow> fd_state \<Rightarrow> pollf \<Rightarrow> pollfd list \<Rightarrow> (nat \<times> pollfd list) option" where
  "poll_scan pr fs pollf [] = Some (0, [])"
| "poll_scan pr fs pollf (f # fds) = do {
     (n, f) \<leftarrow> (if poll_skips f then Some (0, f)
               else do {
                 p \<leftarrow> get_file_description pr (pfd f) fs;
                 if p = 0 then Some (1, f\<lparr>prevents := ucast POLLNVAL\<rparr>)
                 else do {
                   d \<leftarrow> descs fs p;
                   let r = pollf d (signed (pevents f));
                   Some (if r \<noteq> 0 then (1, f\<lparr>prevents := ucast r\<rparr>) else (0, f)) } });
     (m, fds) \<leftarrow> poll_scan pr fs pollf fds;
     Some (n + m, f # fds) }"

fun poll_loop ::
  "nat \<Rightarrow> bool \<Rightarrow> (fd_state \<times> pollf \<times> bool) option list \<Rightarrow> fd_state \<Rightarrow> pollf \<Rightarrow> pollfd list \<Rightarrow> (nat \<times> pollfd list) res attempt option" where
  "poll_loop pr block env fs pollf fds = do {
     (n, fds) \<leftarrow> poll_scan pr fs pollf fds;
     if n \<noteq> 0 then Some (Return (Inr (n, fds)))
     else if \<not> block then Some (Return (Inr (0, fds)))
     else case env of
       [] \<Rightarrow> Some Wait
     | None # _ \<Rightarrow> Some (Return (Inl EINTR))
     | Some (fs', pollf', tf) # env' \<Rightarrow>
         if tf then Some (Return (Inr (0, fds))) else poll_loop pr block env' fs' pollf' fds }"

definition ppoll_impl ::
  "nat \<Rightarrow> (fd_state \<times> pollf \<times> bool) option list \<Rightarrow> fd_state \<Rightarrow> pollf \<Rightarrow> pollfd list \<Rightarrow> timespec option \<Rightarrow> u64 option \<Rightarrow>
     thread \<times> sigthread \<Rightarrow> ((nat \<times> pollfd list) res attempt \<times> thread \<times> sigthread) option" where
  "ppoll_impl pr env fs pollf fds timeout sigmask ts =
     (if length fds > 1024 then Some (Return (Inl EINVAL), ts)
      else do {
        (intr, ts) \<leftarrow> set_poll_mask sigmask ts;
        if intr then Some (Return (Inl EINTR), ts)
        else do {
          let fds = map (\<lambda>f. f\<lparr>prevents := 0\<rparr>) fds;
          let block = (case timeout of Some d \<Rightarrow> \<not> ts_is_zero d | None \<Rightarrow> True);
          r \<leftarrow> poll_loop pr block env fs pollf fds;
          Some (r, ts) } })"

text \<open>The time-out of \<^verbatim>\<open>poll\<close> and \<^verbatim>\<open>epoll_wait\<close>, in milliseconds.\<close>

definition ms_timeout :: "int \<Rightarrow> timespec option" where
  "ms_timeout timeout =
     (if timeout \<ge> 0 then Some \<lparr>seconds = timeout div 1000, nanoseconds = (timeout mod 1000) * 1000000\<rparr> else None)"

definition syscall_poll ::
  "nat \<Rightarrow> (fd_state \<times> pollf \<times> bool) option list \<Rightarrow> fd_state \<Rightarrow> pollf \<Rightarrow> pollfd list \<Rightarrow> int \<Rightarrow>
     thread \<times> sigthread \<Rightarrow> ((nat \<times> pollfd list) res attempt \<times> thread \<times> sigthread) option" where
  "syscall_poll pr env fs pollf fds timeout ts = ppoll_impl pr env fs pollf fds (ms_timeout timeout) None ts"

text \<open>Sets of descriptors; a null pointer is \<open>None\<close>.\<close>

type_synonym fd_set = "(nat \<Rightarrow> bool) option"

definition fd_isset :: "nat \<Rightarrow> fd_set \<Rightarrow> bool" where
  "fd_isset i s = (case s of None \<Rightarrow> False | Some f \<Rightarrow> f i)"

definition select_pollfd :: "fd_set \<Rightarrow> fd_set \<Rightarrow> fd_set \<Rightarrow> nat \<Rightarrow> pollfd" where
  "select_pollfd rs ws xs i =
     (let ev = (if fd_isset i rs then ucast POLLIN else 0) OR (if fd_isset i ws then ucast POLLOUT else 0) OR
               (if fd_isset i xs then ucast POLLPRI else 0)
      in if ev = 0 then \<lparr>pfd = -1, pevents = 0, prevents = 0\<rparr> else \<lparr>pfd = int i, pevents = ev, prevents = 0\<rparr>)"

definition select_result :: "u64 \<Rightarrow> pollfd list \<Rightarrow> fd_set \<Rightarrow> fd_set" where
  "select_result bits fds s = map_option (\<lambda>f i. i < length fds \<and> f i \<and> (ucast (prevents (fds ! i)) :: u64) AND bits \<noteq> 0) s"

definition pselect_impl ::
  "nat \<Rightarrow> (fd_state \<times> pollf \<times> bool) option list \<Rightarrow> fd_state \<Rightarrow> pollf \<Rightarrow> nat \<Rightarrow> fd_set \<Rightarrow> fd_set \<Rightarrow> fd_set \<Rightarrow> timespec option \<Rightarrow> u64 option \<Rightarrow>
     thread \<times> sigthread \<Rightarrow> ((nat \<times> fd_set \<times> fd_set \<times> fd_set) res attempt \<times> thread \<times> sigthread) option" where
  "pselect_impl pr env fs pollf nfds rs ws xs timeout sigmask ts =
     (if nfds > 1024 then Some (Return (Inl EINVAL), ts)
      else do {
        (r, ts) \<leftarrow> ppoll_impl pr env fs pollf (map (select_pollfd rs ws xs) [0..<nfds]) timeout sigmask ts;
        Some (case r of
            Wait \<Rightarrow> Wait
          | Return (Inl e) \<Rightarrow> Return (Inl e)
          | Return (Inr (n, fds)) \<Rightarrow>
              Return (Inr (n, select_result (POLLIN OR POLLERR OR POLLHUP) fds rs, select_result (POLLOUT OR POLLERR OR POLLHUP) fds ws,
                           select_result POLLPRI fds xs)), ts) })"

definition syscall_select ::
  "nat \<Rightarrow> (fd_state \<times> pollf \<times> bool) option list \<Rightarrow> fd_state \<Rightarrow> pollf \<Rightarrow> nat \<Rightarrow> fd_set \<Rightarrow> fd_set \<Rightarrow> fd_set \<Rightarrow> timeval option \<Rightarrow>
     thread \<times> sigthread \<Rightarrow> ((nat \<times> fd_set \<times> fd_set \<times> fd_set) res attempt \<times> thread \<times> sigthread) option" where
  "syscall_select pr env fs pollf nfds rs ws xs timeout ts =
     pselect_impl pr env fs pollf nfds rs ws xs (map_option from_timeval timeout) None ts"

section \<open>Event sets\<close>

record registered =
  reg_description :: "usize option"
  old_revents :: u32
  user_events :: u32
  user_data :: u64

record epoll =
  key_to_events_index :: "(u64, nat) hash_table"
  ep_events :: "registered list"
  ep_wait_events :: "event_id option list"
  first_free_event :: nat

definition epoll_new :: epoll where
  "epoll_new = \<lparr>key_to_events_index = hash_table_new 16, ep_events = [], ep_wait_events = [None], first_free_event = 0\<rparr>"

definition empty_registration :: registered where
  "empty_registration = \<lparr>reg_description = None, old_revents = 0, user_events = 0, user_data = 0\<rparr>"

definition epoll_poll :: "u64 \<Rightarrow> u64" where
  "epoll_poll evs = (if evs AND POLLIN \<noteq> 0 then POLLIN else 0)"

definition allocate_events_index :: "epoll \<Rightarrow> nat \<times> epoll" where
  "allocate_events_index ep =
     (case find (\<lambda>i. reg_description (ep_events ep ! i) = None) [first_free_event ep..<length (ep_events ep)] of
        Some i \<Rightarrow> (i, ep\<lparr>first_free_event := i + 1\<rparr>)
      | None \<Rightarrow> (length (ep_events ep),
                 ep\<lparr>first_free_event := length (ep_events ep), ep_events := ep_events ep @ [empty_registration],
                    ep_wait_events := ep_wait_events ep @ [None]\<rparr>))"

definition calculate_key :: "int \<Rightarrow> usize \<Rightarrow> u64" where
  "calculate_key fd p = hash_combine (hash_u64 (of_int fd)) (hash_u64 p)"

definition EPOLL_CTL_ADD :: int where "EPOLL_CTL_ADD = 1"
definition EPOLL_CTL_DEL :: int where "EPOLL_CTL_DEL = 2"
definition EPOLL_CTL_MOD :: int where "EPOLL_CTL_MOD = 3"

text \<open>\<^verbatim>\<open>syscall_epoll_ctl\<close> once the descriptors are known: \<open>ev\<close> is the event of the target's node.\<close>

definition epoll_ctl_impl :: "int \<Rightarrow> u64 \<Rightarrow> usize \<Rightarrow> event_id option \<Rightarrow> u32 \<Rightarrow> u64 \<Rightarrow> epoll \<Rightarrow> (unit res \<times> epoll) option" where
  "epoll_ctl_impl op fd_key p ev evs dat ep = do {
     r \<leftarrow> ht_lookup hash_u64 (key_to_events_index ep) fd_key;
     if op = EPOLL_CTL_ADD then
       (if r \<noteq> None then Some (Inl EEXIST, ep)
        else let (i, ep) = allocate_events_index ep in do {
          es \<leftarrow> wr (ep_events ep) i \<lparr>reg_description = Some p, old_revents = 0, user_events = evs, user_data = dat\<rparr>;
          ws \<leftarrow> wr (ep_wait_events ep) (i + 1) ev;
          t \<leftarrow> ht_emplace hash_u64 (key_to_events_index ep) fd_key i;
          Some (Inr (), ep\<lparr>ep_events := es, ep_wait_events := ws, key_to_events_index := t\<rparr>) })
     else if op = EPOLL_CTL_MOD then
       (case r of None \<Rightarrow> Some (Inl ENOENT, ep)
        | Some i \<Rightarrow> do {
            x \<leftarrow> rd (ep_events ep) i;
            es \<leftarrow> wr (ep_events ep) i (x\<lparr>user_events := evs, user_data := dat\<rparr>);
            Some (Inr (), ep\<lparr>ep_events := es\<rparr>) })
     else if op = EPOLL_CTL_DEL then
       (case r of None \<Rightarrow> Some (Inl ENOENT, ep)
        | Some i \<Rightarrow> do {
            es \<leftarrow> wr (ep_events ep) i empty_registration;
            ws \<leftarrow> wr (ep_wait_events ep) (i + 1) None;
            t \<leftarrow> ht_remove hash_u64 (key_to_events_index ep) fd_key;
            Some (Inr (), ep\<lparr>ep_events := es, ep_wait_events := ws, key_to_events_index := t,
                            first_free_event := (if first_free_event ep > i then i else first_free_event ep)\<rparr>) })
     else Some (Inl EINVAL, ep) }"

text \<open>The event sets by their nodes, the descriptors, and the member \<^verbatim>\<open>event\<close> of the nodes.\<close>

record epolls =
  eps :: "nat \<Rightarrow> epoll option"
  efds :: fd_state
  node_event :: "nat \<Rightarrow> event_id option"

definition syscall_epoll_ctl :: "nat \<Rightarrow> int \<Rightarrow> int \<Rightarrow> int \<Rightarrow> u32 \<Rightarrow> u64 \<Rightarrow> epolls \<Rightarrow> (unit res \<times> epolls) option" where
  "syscall_epoll_ctl pr epfd op fd evs dat st = do {
     q \<leftarrow> get_file_description pr epfd (efds st);
     if q = 0 then Some (Inl EBADF, st)
     else do {
       d \<leftarrow> descs (efds st) q;
       case eps st (vnode d) of None \<Rightarrow> Some (Inl EINVAL, st)
       | Some ep \<Rightarrow> do {
           p \<leftarrow> get_file_description pr fd (efds st);
           if p = 0 then Some (Inl EBADF, st)
           else do {
             td \<leftarrow> descs (efds st) p;
             (r, ep) \<leftarrow> epoll_ctl_impl op (calculate_key fd p) p (node_event st (vnode td)) evs dat ep;
             Some (r, st\<lparr>eps := (eps st)(vnode d \<mapsto> ep)\<rparr>) } } } }"

definition EPOLL_CLOEXEC :: usize where "EPOLL_CLOEXEC = 0x80000"

text \<open>A new description \<open>p\<close> of a new node.\<close>

definition epoll_create1_impl :: "nat \<Rightarrow> usize \<Rightarrow> nat \<Rightarrow> usize \<Rightarrow> epolls \<Rightarrow> (nat res \<times> epolls) option" where
  "epoll_create1_impl pr p node fl st =
     (if fl AND NOT EPOLL_CLOEXEC \<noteq> 0 then Some (Inl EINVAL, st)
      else do {
        (fd, fs) \<leftarrow> install_description pr p node O_RDONLY (fl AND EPOLL_CLOEXEC \<noteq> 0) (efds st);
        Some (Inr fd, st\<lparr>efds := fs, eps := (eps st)(node \<mapsto> epoll_new)\<rparr>) })"

definition syscall_epoll_create :: "nat \<Rightarrow> usize \<Rightarrow> nat \<Rightarrow> int \<Rightarrow> epolls \<Rightarrow> (nat res \<times> epolls) option" where
  "syscall_epoll_create pr p node sz st = (if sz \<le> 0 then Some (Inl EINVAL, st) else epoll_create1_impl pr p node 0 st)"

definition EPOLLET :: u32 where "EPOLLET = 0x80000000"

text \<open>
  One pass over the registrations, from the \<open>n\<close>-th answer on: the answers and the registrations, of which the
  rest is not looked at once \<open>maxevents\<close> answers are there.
\<close>

fun epoll_scan :: "fd_state \<Rightarrow> pollf \<Rightarrow> nat \<Rightarrow> nat \<Rightarrow> registered list \<Rightarrow> ((u32 \<times> u64) list \<times> registered list) option" where
  "epoll_scan fs pollf maxevents n [] = Some ([], [])"
| "epoll_scan fs pollf maxevents n (e # es) =
     (case reg_description e of
        None \<Rightarrow> map_option (\<lambda>(out, es). (out, e # es)) (epoll_scan fs pollf maxevents n es)
      | Some p \<Rightarrow> do {
          d \<leftarrow> descs fs p;
          let new = pollf d (ucast (user_events e));
          let r = (if user_events e AND EPOLLET \<noteq> 0 then new AND ucast (NOT (old_revents e)) else new);
          let e = e\<lparr>old_revents := ucast new\<rparr>;
          if r \<noteq> 0
          then if n + 1 \<ge> maxevents then Some ([(ucast r, user_data e)], e # es)
               else map_option (\<lambda>(out, es). ((ucast r, user_data e) # out, e # es)) (epoll_scan fs pollf maxevents (n + 1) es)
          else map_option (\<lambda>(out, es). (out, e # es)) (epoll_scan fs pollf maxevents n es) })"

fun epoll_loop ::
  "bool \<Rightarrow> nat \<Rightarrow> (epoll \<times> fd_state \<times> pollf \<times> bool) option list \<Rightarrow> epoll \<Rightarrow> fd_state \<Rightarrow> pollf \<Rightarrow> ((u32 \<times> u64) list res \<times> epoll) attempt option" where
  "epoll_loop block maxevents env ep fs pollf = do {
     (out, es) \<leftarrow> epoll_scan fs pollf maxevents 0 (ep_events ep);
     let ep = ep\<lparr>ep_events := es\<rparr>;
     if out \<noteq> [] then Some (Return (Inr out, ep))
     else if \<not> block then Some (Return (Inr [], ep))
     else case env of
       [] \<Rightarrow> Some Wait
     | None # _ \<Rightarrow> Some (Return (Inl EINTR, ep))
     | Some (ep', fs', pollf', tf) # env' \<Rightarrow>
         if tf then Some (Return (Inr [], ep')) else epoll_loop block maxevents env' ep' fs' pollf' }"

text \<open>\<open>tev\<close> is the event of the timer on the stack of the call.\<close>

definition epoll_pwait2_impl ::
  "nat \<Rightarrow> event_id \<Rightarrow> (epoll \<times> fd_state \<times> pollf \<times> bool) option list \<Rightarrow> pollf \<Rightarrow> int \<Rightarrow> int \<Rightarrow> timespec option \<Rightarrow> u64 option \<Rightarrow>
     epolls \<Rightarrow> thread \<times> sigthread \<Rightarrow> (((u32 \<times> u64) list res \<times> epolls) attempt \<times> thread \<times> sigthread) option" where
  "epoll_pwait2_impl pr tev env pollf epfd maxevents timeout sigmask st ts =
     (if maxevents \<le> 0 then Some (Return (Inl EINVAL, st), ts)
      else do {
        q \<leftarrow> get_file_description pr epfd (efds st);
        if q = 0 then Some (Return (Inl EBADF, st), ts)
        else do {
          d \<leftarrow> descs (efds st) q;
          case eps st (vnode d) of None \<Rightarrow> Some (Return (Inl EINVAL, st), ts)
          | Some ep \<Rightarrow> do {
              (intr, ts) \<leftarrow> set_poll_mask sigmask ts;
              if intr then Some (Return (Inl EINTR, st), ts)
              else do {
                let block = (case timeout of Some t \<Rightarrow> \<not> ts_is_zero t | None \<Rightarrow> True);
                ws \<leftarrow> wr (ep_wait_events ep) 0 (if timeout \<noteq> None \<and> block then Some tev else None);
                r \<leftarrow> epoll_loop block (nat maxevents) env (ep\<lparr>ep_wait_events := ws\<rparr>) (efds st) pollf;
                Some (case r of Wait \<Rightarrow> Wait | Return (x, ep) \<Rightarrow> Return (x, st\<lparr>eps := (eps st)(vnode d \<mapsto> ep)\<rparr>), ts) } } } })"


definition syscall_epoll_wait ::
  "nat \<Rightarrow> event_id \<Rightarrow> (epoll \<times> fd_state \<times> pollf \<times> bool) option list \<Rightarrow> pollf \<Rightarrow> int \<Rightarrow> int \<Rightarrow> int \<Rightarrow>
     epolls \<Rightarrow> thread \<times> sigthread \<Rightarrow> (((u32 \<times> u64) list res \<times> epolls) attempt \<times> thread \<times> sigthread) option" where
  "syscall_epoll_wait pr tev env pollf epfd maxevents timeout st ts =
     epoll_pwait2_impl pr tev env pollf epfd maxevents (ms_timeout timeout) None st ts"

definition syscall_epoll_pwait ::
  "nat \<Rightarrow> event_id \<Rightarrow> (epoll \<times> fd_state \<times> pollf \<times> bool) option list \<Rightarrow> pollf \<Rightarrow> int \<Rightarrow> int \<Rightarrow> int \<Rightarrow> u64 option \<Rightarrow>
     epolls \<Rightarrow> thread \<times> sigthread \<Rightarrow> (((u32 \<times> u64) list res \<times> epolls) attempt \<times> thread \<times> sigthread) option" where
  "syscall_epoll_pwait pr tev env pollf epfd maxevents timeout sigmask st ts =
     epoll_pwait2_impl pr tev env pollf epfd maxevents (ms_timeout timeout) sigmask st ts"

section \<open>What poll answers\<close>

definition poll_answer :: "nat \<Rightarrow> fd_state \<Rightarrow> pollf \<Rightarrow> pollfd \<Rightarrow> u64" where
  "poll_answer pr fs pollf f =
     (if poll_skips f then 0
      else case get_file_description pr (pfd f) fs of
        Some p \<Rightarrow> if p = 0 then POLLNVAL else (case descs fs p of Some d \<Rightarrow> pollf d (signed (pevents f)) | None \<Rightarrow> 0)
      | None \<Rightarrow> 0)"

definition poll_mark :: "nat \<Rightarrow> fd_state \<Rightarrow> pollf \<Rightarrow> pollfd \<Rightarrow> pollfd" where
  "poll_mark pr fs pollf f = (if poll_answer pr fs pollf f = 0 then f else f\<lparr>prevents := ucast (poll_answer pr fs pollf f)\<rparr>)"

definition poll_ready :: "nat \<Rightarrow> fd_state \<Rightarrow> pollf \<Rightarrow> pollfd list \<Rightarrow> nat" where
  "poll_ready pr fs pollf fds = length (filter (\<lambda>f. poll_answer pr fs pollf f \<noteq> 0) fds)"

text \<open>No entry leads to a freed description.\<close>

definition poll_live :: "nat \<Rightarrow> fd_state \<Rightarrow> pollfd list \<Rightarrow> bool" where
  "poll_live pr fs fds \<longleftrightarrow>
     list_all (\<lambda>f. poll_skips f \<or>
       (case get_file_description pr (pfd f) fs of Some p \<Rightarrow> p = 0 \<or> descs fs p \<noteq> None | None \<Rightarrow> False)) fds"

lemma poll_scan_answers:
  "poll_live pr fs fds \<Longrightarrow> poll_scan pr fs pollf fds = Some (poll_ready pr fs pollf fds, map (poll_mark pr fs pollf) fds)"
proof (induction fds)
  case (Cons f fds)
  then show ?case
    by (cases "poll_skips f")
       (auto simp: poll_ready_def poll_mark_def poll_answer_def poll_live_def POLLNVAL_def Let_def split: option.splits if_splits)
qed (simp add: poll_ready_def)

lemma poll_mark_unready: "poll_ready pr fs pollf fds = 0 \<Longrightarrow> map (poll_mark pr fs pollf) fds = fds"
  by (auto simp: poll_ready_def poll_mark_def filter_empty_conv intro: map_idI)

lemma poll_answer_update [simp]: "poll_answer pr fs pollf (f\<lparr>prevents := v\<rparr>) = poll_answer pr fs pollf f"
  by (simp add: poll_answer_def poll_skips_def split: option.split)

lemma poll_ready_map [simp]:
  "poll_ready pr fs pollf (map (\<lambda>f. f\<lparr>prevents := 0\<rparr>) fds) = poll_ready pr fs pollf fds"
  by (simp add: poll_ready_def filter_map o_def)

lemma poll_live_map [simp]: "poll_live pr fs (map (\<lambda>f. f\<lparr>prevents := 0\<rparr>) fds) = poll_live pr fs fds"
  by (simp add: poll_live_def list.pred_map o_def poll_skips_def cong: option.case_cong)

text \<open>The looks at the files before the first one that finds something, and that one.\<close>

fun poll_waits :: "nat \<Rightarrow> pollfd list \<Rightarrow> (fd_state \<times> pollf) list \<Rightarrow> bool" where
  "poll_waits pr fds [] = False"
| "poll_waits pr fds [(fs, pollf)] = (poll_live pr fs fds \<and> poll_ready pr fs pollf fds \<noteq> 0)"
| "poll_waits pr fds ((fs, pollf) # y # snaps) =
     (poll_live pr fs fds \<and> poll_ready pr fs pollf fds = 0 \<and> poll_waits pr fds (y # snaps))"

abbreviation woken :: "(fd_state \<times> pollf) list \<Rightarrow> (fd_state \<times> pollf \<times> bool) option list" where
  "woken snaps \<equiv> map (\<lambda>(fs, pollf). Some (fs, pollf, False)) snaps"

lemma poll_loop_first:
  "poll_waits pr fds ((fs, pollf) # snaps) \<Longrightarrow>
   poll_loop pr True (woken snaps @ env) fs pollf fds =
     (case last ((fs, pollf) # snaps) of (fs', pollf') \<Rightarrow>
        Some (Return (Inr (poll_ready pr fs' pollf' fds, map (poll_mark pr fs' pollf') fds))))"
proof (induction snaps arbitrary: fs pollf)
  case Nil
  then show ?case by (simp add: poll_scan_answers)
next
  case (Cons y snaps)
  obtain fs2 pf2 where y: "y = (fs2, pf2)" by fastforce
  have w: "poll_live pr fs fds" "poll_ready pr fs pollf fds = 0" "poll_waits pr fds ((fs2, pf2) # snaps)"
    using Cons.prems y by auto
  have "poll_loop pr True (woken (y # snaps) @ env) fs pollf fds = poll_loop pr True (woken snaps @ env) fs2 pf2 fds"
    using w(1,2) by (subst poll_loop.simps) (simp add: poll_scan_answers poll_mark_unready y)
  then show ?case using Cons.IH[OF w(3)] y by simp
qed

text \<open>
  C35: A blocking \<^verbatim>\<open>poll\<close> sleeps through every wake-up that finds nothing and returns at the first one at
  which an entry has an answer. It then returns the number of such entries, and \<^verbatim>\<open>revents\<close> is the answer of
  each of them (\<^verbatim>\<open>POLLNVAL\<close> where the descriptor is closed) and zero for all others, entries with a negative
  descriptor or no events among them.
\<close>

theorem poll_returns_first_ready:
  assumes "length fds \<le> 1024" "poll_waits pr fds ((fs, pollf) # snaps)" "last ((fs, pollf) # snaps) = (fs', pollf')"
  shows "ppoll_impl pr (woken snaps @ env) fs pollf fds None None ts =
    Some (Return (Inr (poll_ready pr fs' pollf' fds, map (\<lambda>f. f\<lparr>prevents := ucast (poll_answer pr fs' pollf' f)\<rparr>) fds)), ts)"
proof -
  let ?z = "map (\<lambda>f. f\<lparr>prevents := 0\<rparr>) fds"
  have "poll_waits pr ?z ((fs, pollf) # snaps)"
    using assms(2) by (induction pr fds "(fs, pollf) # snaps" arbitrary: fs pollf snaps rule: poll_waits.induct) auto
  moreover have "map (poll_mark pr fs' pollf') ?z = map (\<lambda>f. f\<lparr>prevents := ucast (poll_answer pr fs' pollf' f)\<rparr>) fds"
    by (simp add: poll_mark_def)
  ultimately show ?thesis
    using assms(1,3) poll_loop_first[of pr ?z fs pollf snaps env]
    by (simp add: ppoll_impl_def set_poll_mask_def split_beta del: poll_loop.simps)
qed

text \<open>A process whose only descriptor is number 0.\<close>

definition example_files :: fd_state where
  "example_files = \<lparr>tables = [\<lparr>file_descriptors = [2], num_file_descriptors = 1, first_free_fdnum = 1\<rparr>],
     descs = [2 \<mapsto> description_new 5 O_RDWR], closed = []\<rparr>"

theorem poll_returns_first_ready_witness:
  "\<forall>ts. ppoll_impl 0 (woken [(example_files, \<lambda>_ events. events)]) example_files (\<lambda>_ _. 0)
      [\<lparr>pfd = 0, pevents = 1, prevents = 7\<rparr>, \<lparr>pfd = -3, pevents = 1, prevents = 7\<rparr>] None None ts =
    Some (Return (Inr (1, [\<lparr>pfd = 0, pevents = 1, prevents = 1\<rparr>, \<lparr>pfd = -3, pevents = 1, prevents = 0\<rparr>])), ts)"
proof -
  let ?fds = "[\<lparr>pfd = 0, pevents = 1, prevents = 7\<rparr>, \<lparr>pfd = -3, pevents = 1, prevents = 7\<rparr>] :: pollfd list"
  have g: "get_file_description 0 0 example_files = Some 2" "descs example_files 2 = Some (description_new 5 O_RDWR)"
    by (simp_all add: get_file_description_def example_files_def get_table_def get_description_def flags_mask_def)
  have a: "poll_answer 0 example_files pf (?fds ! 0) = pf (description_new 5 O_RDWR) 1"
    "poll_answer 0 example_files pf (?fds ! 1) = 0" for pf
    by (simp_all add: poll_answer_def poll_skips_def g)
  have "poll_live 0 example_files ?fds" by (simp add: poll_live_def poll_skips_def g)
  then have "poll_waits 0 ?fds [(example_files, \<lambda>_ _. 0), (example_files, \<lambda>_ events. events)]"
    using a[of "\<lambda>_ _. 0"] a[of "\<lambda>_ events. events"] by (simp add: poll_ready_def)
  moreover have "length ?fds \<le> 1024" by simp
  ultimately show ?thesis
    using poll_returns_first_ready[of ?fds 0 example_files "\<lambda>_ _. 0" "[(example_files, \<lambda>_ events. events)]"
        example_files "\<lambda>_ events. events" "[]"] a[of "\<lambda>_ events. events"]
    by (simp add: poll_ready_def)
qed

section \<open>Registrations\<close>

text \<open>The slot of a key, and what the set promises: one slot per key, one key per occupied slot, no hole below the first free slot.\<close>

definition ep_index :: "epoll \<Rightarrow> u64 \<Rightarrow> nat option" where
  "ep_index ep k = (case ht_lookup hash_u64 (key_to_events_index ep) k of Some r \<Rightarrow> r | None \<Rightarrow> None)"

definition occupied :: "epoll \<Rightarrow> nat \<Rightarrow> bool" where
  "occupied ep i \<longleftrightarrow> i < length (ep_events ep) \<and> reg_description (ep_events ep ! i) \<noteq> None"

definition slots_ok :: "(u64 \<Rightarrow> nat option) \<Rightarrow> (nat \<Rightarrow> bool) \<Rightarrow> nat \<Rightarrow> bool" where
  "slots_ok ix occ n \<longleftrightarrow> (\<forall>k i. ix k = Some i \<longrightarrow> occ i) \<and> (\<forall>k k' i. ix k = Some i \<longrightarrow> ix k' = Some i \<longrightarrow> k = k') \<and>
     (\<forall>i. occ i \<longrightarrow> (\<exists>k. ix k = Some i)) \<and> (\<forall>i<n. occ i)"

definition ep_ok :: "epoll \<Rightarrow> bool" where
  "ep_ok ep \<longleftrightarrow> ht_ok hash_u64 (key_to_events_index ep) \<and> (\<forall>k. length (ht_vals hash_u64 (key_to_events_index ep) k) \<le> 1) \<and>
     length (ep_wait_events ep) = Suc (length (ep_events ep)) \<and> slots_ok (ep_index ep) (occupied ep) (first_free_event ep)"

lemma slots_add:
  assumes "slots_ok ix occ n" "ix k = None" "\<not> occ i" "\<forall>j<i. occ j" "m \<le> Suc i"
  shows "slots_ok (ix(k \<mapsto> i)) (\<lambda>j. j = i \<or> occ j) m"
proof -
  have *: "ix k' \<noteq> Some i" for k' using assms(1,3) unfolding slots_ok_def by blast
  show ?thesis
    unfolding slots_ok_def
  proof (intro conjI allI impI)
    fix j assume "j = i \<or> occ j"
    then show "\<exists>k'. (ix(k \<mapsto> i)) k' = Some j"
      using assms(1,2) unfolding slots_ok_def by (metis fun_upd_other fun_upd_same option.distinct(1))
  next
    fix k1 k2 j assume "(ix(k \<mapsto> i)) k1 = Some j" "(ix(k \<mapsto> i)) k2 = Some j"
    then show "k1 = k2" using assms(1) * by (auto simp: slots_ok_def split: if_splits)
  next
    fix j assume "j < m"
    then show "j = i \<or> occ j" using assms(4,5) by (metis less_Suc_eq order.strict_trans2)
  qed (use assms in \<open>auto simp: slots_ok_def split: if_splits\<close>)
qed

lemma slots_del:
  assumes "slots_ok ix occ n" "ix k = Some i"
  shows "slots_ok (ix(k := None)) (\<lambda>j. j \<noteq> i \<and> occ j) (if n > i then i else n)"
proof -
  have *: "ix k' = Some i \<longleftrightarrow> k' = k" for k' using assms unfolding slots_ok_def by blast
  show ?thesis
    unfolding slots_ok_def
  proof (intro conjI allI impI)
    fix j assume "j \<noteq> i \<and> occ j"
    then show "\<exists>k'. (ix(k := None)) k' = Some j"
      using assms unfolding slots_ok_def by (metis fun_upd_other option.inject)
  next
    fix k1 k2 j assume "(ix(k := None)) k1 = Some j" "(ix(k := None)) k2 = Some j"
    then show "k1 = k2" using assms(1) by (auto simp: slots_ok_def split: if_splits)
  qed (use assms * in \<open>auto simp: slots_ok_def split: if_splits\<close>)
qed

text \<open>The set as a map from keys to the description, the events, the user's data and the event waited for.\<close>

type_synonym registration = "usize \<times> u32 \<times> u64 \<times> event_id option"

definition slot_view :: "epoll \<Rightarrow> nat \<Rightarrow> registration" where
  "slot_view ep i = (let e = ep_events ep ! i in (the (reg_description e), user_events e, user_data e, ep_wait_events ep ! (i + 1)))"

definition registrations :: "epoll \<Rightarrow> u64 \<Rightarrow> registration option" where
  "registrations ep k = map_option (slot_view ep) (ep_index ep k)"

lemma registrations_upd:
  assumes "ep_index e = (ep_index ep)(k := r)" "\<And>k' j. k' \<noteq> k \<Longrightarrow> ep_index ep k' = Some j \<Longrightarrow> slot_view e j = slot_view ep j"
  shows "registrations e = (registrations ep)(k := map_option (slot_view e) r)"
proof
  fix k'
  show "registrations e k' = ((registrations ep)(k := map_option (slot_view e) r)) k'"
    using assms by (cases "ep_index ep k'") (auto simp: registrations_def)
qed

definition ctl_spec ::
  "int \<Rightarrow> u64 \<Rightarrow> registration \<Rightarrow> (u64 \<Rightarrow> registration option) \<Rightarrow> unit res \<times> (u64 \<Rightarrow> registration option)" where
  "ctl_spec op k = (\<lambda>(p, evs, dat, ev) m.
     if op = EPOLL_CTL_ADD then if m k \<noteq> None then (Inl EEXIST, m) else (Inr (), m(k \<mapsto> (p, evs, dat, ev)))
     else if op = EPOLL_CTL_MOD then (case m k of None \<Rightarrow> (Inl ENOENT, m) | Some (p', _, _, ev') \<Rightarrow> (Inr (), m(k \<mapsto> (p', evs, dat, ev'))))
     else if op = EPOLL_CTL_DEL then if m k = None then (Inl ENOENT, m) else (Inr (), m(k := None))
     else (Inl EINVAL, m))"

lemma ep_okD:
  assumes "ep_ok ep"
  shows "ht_ok hash_u64 (key_to_events_index ep)" "length (ht_vals hash_u64 (key_to_events_index ep) k) \<le> 1"
    "length (ep_wait_events ep) = Suc (length (ep_events ep))"
    "slots_ok (ep_index ep) (occupied ep) (first_free_event ep)"
    "ep_index ep k = Some i \<Longrightarrow> occupied ep i" "ep_index ep k = Some i \<Longrightarrow> ep_index ep k' = Some i \<Longrightarrow> k = k'"
    "i < first_free_event ep \<Longrightarrow> occupied ep i"
  using assms unfolding ep_ok_def slots_ok_def by blast+

lemma ep_okI:
  assumes "ht_ok hash_u64 (key_to_events_index ep)" "\<And>k. length (ht_vals hash_u64 (key_to_events_index ep) k) \<le> 1"
    "length (ep_wait_events ep) = Suc (length (ep_events ep))" "ep_index ep = ix" "\<And>j. occupied ep j = occ j"
    "slots_ok ix occ (first_free_event ep)"
  shows "ep_ok ep"
proof -
  have "occupied ep = occ" using assms(5) by blast
  then show ?thesis using assms by (simp add: ep_ok_def)
qed

lemma ep_lookup: "ep_ok ep \<Longrightarrow> ht_lookup hash_u64 (key_to_events_index ep) k = Some (ep_index ep k)"
  by (simp add: ep_index_def htab.lookup_law ep_ok_def)

lemma find_upt_first:
  "find P [a..<b] = Some i \<Longrightarrow> a \<le> i \<and> i < b \<and> P i \<and> (\<forall>j. a \<le> j \<longrightarrow> j < i \<longrightarrow> \<not> P j)"
  by (auto simp: find_Some_iff) (metis le_iff_add nat_add_left_cancel_less)

text \<open>The slot a new registration takes: the lowest one that is free, or a new one behind all others.\<close>

lemma allocate_events_index_spec:
  assumes ok: "ep_ok ep"
  obtains i ep' where "allocate_events_index ep = (i, ep')" "\<not> occupied ep i" "\<forall>j<i. occupied ep j"
    "i < length (ep_events ep')" "length (ep_wait_events ep') = Suc (length (ep_events ep'))"
    "key_to_events_index ep' = key_to_events_index ep" "\<forall>j. occupied ep' j = occupied ep j"
    "\<forall>j. occupied ep j \<longrightarrow> ep_events ep' ! j = ep_events ep ! j \<and> ep_wait_events ep' ! Suc j = ep_wait_events ep ! Suc j"
    "first_free_event ep' \<le> Suc i" "length (ep_events ep') \<le> max (Suc i) (length (ep_events ep))"
proof (cases "find (\<lambda>i. reg_description (ep_events ep ! i) = None) [first_free_event ep..<length (ep_events ep)]")
  case (Some i)
  have f: "first_free_event ep \<le> i" "i < length (ep_events ep)" "reg_description (ep_events ep ! i) = None"
    "\<forall>j. first_free_event ep \<le> j \<longrightarrow> j < i \<longrightarrow> reg_description (ep_events ep ! j) \<noteq> None"
    using find_upt_first[OF Some] by auto
  have "\<forall>j<i. occupied ep j"
    using f ep_okD(7)[OF ok] by (metis leI occupied_def order.strict_trans)
  then show thesis
    using f Some ep_okD(3)[OF ok]
    by (intro that[of i "ep\<lparr>first_free_event := i + 1\<rparr>"]) (auto simp: allocate_events_index_def occupied_def)
next
  case None
  let ?n = "length (ep_events ep)"
  have "\<forall>j. first_free_event ep \<le> j \<longrightarrow> j < ?n \<longrightarrow> reg_description (ep_events ep ! j) \<noteq> None"
    using None by (auto simp: find_None_iff)
  then have all: "\<forall>j<?n. occupied ep j"
    using ep_okD(7)[OF ok] by (metis leI occupied_def)
  show thesis
    using None all ep_okD(3)[OF ok]
    by (intro that[of ?n "ep\<lparr>first_free_event := ?n, ep_events := ep_events ep @ [empty_registration],
          ep_wait_events := ep_wait_events ep @ [None]\<rparr>"])
       (auto simp: allocate_events_index_def occupied_def nth_append empty_registration_def)
qed


lemma ctl_add_refines:
  assumes ok: "ep_ok ep"
  shows "\<exists>r ep'. epoll_ctl_impl EPOLL_CTL_ADD k p ev evs dat ep = Some (r, ep') \<and> ep_ok ep' \<and>
    (r, registrations ep') = ctl_spec EPOLL_CTL_ADD k (p, evs, dat, ev) (registrations ep)"
proof (cases "ep_index ep k")
  case (Some i)
  then show ?thesis
    using ok by (cases "slot_view ep i") (simp add: epoll_ctl_impl_def ep_lookup ctl_spec_def registrations_def)
next
  case None
  obtain i e where al: "allocate_events_index ep = (i, e)" "\<not> occupied ep i" "\<forall>j<i. occupied ep j"
    "i < length (ep_events e)" "length (ep_wait_events e) = Suc (length (ep_events e))"
    "key_to_events_index e = key_to_events_index ep" "\<forall>j. occupied e j = occupied ep j"
    "\<forall>j. occupied ep j \<longrightarrow> ep_events e ! j = ep_events ep ! j \<and> ep_wait_events e ! Suc j = ep_wait_events ep ! Suc j"
    "first_free_event e \<le> Suc i" "length (ep_events e) \<le> max (Suc i) (length (ep_events ep))"
    by (rule allocate_events_index_spec[OF ok])
  obtain t where t: "ht_emplace hash_u64 (key_to_events_index ep) k i = Some t" "ht_ok hash_u64 t"
    "ht_vals hash_u64 t = (ht_vals hash_u64 (key_to_events_index ep))(k := i # ht_vals hash_u64 (key_to_events_index ep) k)"
    using htab.emplace_law[OF ep_okD(1)[OF ok]] by blast
  have nil: "ht_vals hash_u64 (key_to_events_index ep) k = []"
    using None ep_okD(1)[OF ok] by (auto simp: ep_index_def htab.lookup_law split: list.splits)
  let ?x = "\<lparr>reg_description = Some p, old_revents = 0, user_events = evs, user_data = dat\<rparr>"
  let ?e = "e\<lparr>ep_events := (ep_events e)[i := ?x], ep_wait_events := (ep_wait_events e)[Suc i := ev], key_to_events_index := t\<rparr>"
  have idx: "ep_index ?e = (ep_index ep)(k \<mapsto> i)"
    using htab.lookup_emplace(2)[OF ep_okD(1)[OF ok] t(1)] by (auto simp: ep_index_def fun_eq_iff)
  have occ: "occupied ?e j = (j = i \<or> occupied ep j)" for j
    using al(4,7) by (auto simp: occupied_def nth_list_update)
  have "ep_ok ?e"
    by (rule ep_okI[OF _ _ _ idx occ]) (use t nil al ep_okD(2)[OF ok] slots_add[OF ep_okD(4)[OF ok] None al(2,3,9)] in auto)
  moreover have "registrations ?e = (registrations ep)(k \<mapsto> (p, evs, dat, ev))"
  proof -
    have "slot_view ?e j = slot_view ep j" if "ep_index ep k' = Some j" for k' j
      using al(2,8) ep_okD(5)[OF ok that] by (cases "j = i") (simp_all add: slot_view_def)
    then show ?thesis using registrations_upd[OF idx] al(4,5) by (simp add: slot_view_def)
  qed
  moreover have "registrations ep k = None" using None by (simp add: registrations_def)
  moreover have "epoll_ctl_impl EPOLL_CTL_ADD k p ev evs dat ep = Some (Inr (), ?e)"
    using None ok al t by (simp add: epoll_ctl_impl_def ep_lookup)
  ultimately show ?thesis by (simp add: ctl_spec_def)
qed

lemma ctl_mod_refines:
  assumes ok: "ep_ok ep"
  shows "\<exists>r ep'. epoll_ctl_impl EPOLL_CTL_MOD k p ev evs dat ep = Some (r, ep') \<and> ep_ok ep' \<and>
    (r, registrations ep') = ctl_spec EPOLL_CTL_MOD k (p, evs, dat, ev) (registrations ep)"
proof (cases "ep_index ep k")
  case None
  then show ?thesis
    using ok by (simp add: epoll_ctl_impl_def ep_lookup ctl_spec_def registrations_def EPOLL_CTL_ADD_def EPOLL_CTL_MOD_def)
next
  case (Some i)
  have i: "occupied ep i" using ep_okD(5)[OF ok Some] .
  let ?x = "(ep_events ep ! i)\<lparr>user_events := evs, user_data := dat\<rparr>"
  let ?e = "ep\<lparr>ep_events := (ep_events ep)[i := ?x]\<rparr>"
  have idx: "ep_index ?e = ep_index ep" by (auto simp: ep_index_def)
  have occ: "occupied ?e j = occupied ep j" for j
    using i by (auto simp: occupied_def nth_list_update)
  have "ep_ok ?e" by (rule ep_okI[OF _ _ _ idx occ]) (use ep_okD[OF ok] in simp_all)
  moreover have "registrations ?e = (registrations ep)(k \<mapsto> (the (reg_description (ep_events ep ! i)), evs, dat, ep_wait_events ep ! Suc i))"
  proof -
    have "slot_view ?e j = slot_view ep j" if "k' \<noteq> k" "ep_index ep k' = Some j" for k' j
      using that ep_okD(6)[OF ok Some] by (cases "j = i") (auto simp: slot_view_def)
    moreover have "ep_index ?e = (ep_index ep)(k := Some i)" using idx Some by auto
    ultimately show ?thesis using registrations_upd[of ?e ep k "Some i"] i by (simp add: slot_view_def occupied_def)
  qed
  moreover have "registrations ep k = Some (the (reg_description (ep_events ep ! i)), user_events (ep_events ep ! i), user_data (ep_events ep ! i), ep_wait_events ep ! Suc i)"
    using Some by (simp add: registrations_def slot_view_def Let_def)
  moreover have "epoll_ctl_impl EPOLL_CTL_MOD k p ev evs dat ep = Some (Inr (), ?e)"
    using Some ok i by (simp add: epoll_ctl_impl_def ep_lookup occupied_def EPOLL_CTL_ADD_def EPOLL_CTL_MOD_def)
  ultimately show ?thesis by (simp add: ctl_spec_def EPOLL_CTL_ADD_def EPOLL_CTL_MOD_def)
qed

lemma ctl_del_refines:
  assumes ok: "ep_ok ep"
  shows "\<exists>r ep'. epoll_ctl_impl EPOLL_CTL_DEL k p ev evs dat ep = Some (r, ep') \<and> ep_ok ep' \<and>
    (r, registrations ep') = ctl_spec EPOLL_CTL_DEL k (p, evs, dat, ev) (registrations ep)"
proof (cases "ep_index ep k")
  case None
  then show ?thesis
    using ok by (simp add: epoll_ctl_impl_def ep_lookup ctl_spec_def registrations_def EPOLL_CTL_ADD_def EPOLL_CTL_MOD_def EPOLL_CTL_DEL_def)
next
  case (Some i)
  have i: "occupied ep i" using ep_okD(5)[OF ok Some] .
  obtain t where t: "ht_remove hash_u64 (key_to_events_index ep) k = Some t" "ht_ok hash_u64 t"
    "ht_vals hash_u64 t = (ht_vals hash_u64 (key_to_events_index ep))(k := tl (ht_vals hash_u64 (key_to_events_index ep) k))"
    using htab.remove_law[OF ep_okD(1)[OF ok]] by blast
  let ?e = "ep\<lparr>ep_events := (ep_events ep)[i := empty_registration], ep_wait_events := (ep_wait_events ep)[Suc i := None],
    key_to_events_index := t, first_free_event := (if first_free_event ep > i then i else first_free_event ep)\<rparr>"
  have idx: "ep_index ?e = (ep_index ep)(k := None)"
    using htab.lookup_remove_unique(2)[OF ep_okD(1)[OF ok] t(1) ep_okD(2)[OF ok]] by (auto simp: ep_index_def fun_eq_iff)
  have occ: "occupied ?e j = (j \<noteq> i \<and> occupied ep j)" for j
    using i by (auto simp: occupied_def nth_list_update empty_registration_def)
  have only: "ep_index ep k' = Some i \<longleftrightarrow> k' = k" for k' using ep_okD(6)[OF ok Some] Some by blast
  have "ep_ok ?e"
    by (rule ep_okI[OF _ _ _ idx occ])
       (use t ep_okD(3)[OF ok] slots_del[OF ep_okD(4)[OF ok] Some] le_trans[OF diff_le_self ep_okD(2)[OF ok]] ep_okD(2)[OF ok] in simp_all)
  moreover have "registrations ?e = (registrations ep)(k := None)"
  proof -
    have "slot_view ?e j = slot_view ep j" if "k' \<noteq> k" "ep_index ep k' = Some j" for k' j
      using that only by (cases "j = i") (auto simp: slot_view_def)
    then show ?thesis using registrations_upd[OF idx] by simp
  qed
  moreover have "registrations ep k \<noteq> None" using Some by (simp add: registrations_def)
  moreover have "epoll_ctl_impl EPOLL_CTL_DEL k p ev evs dat ep = Some (Inr (), ?e)"
    using Some ok i t ep_okD(3)[OF ok]
    by (simp add: epoll_ctl_impl_def ep_lookup occupied_def EPOLL_CTL_ADD_def EPOLL_CTL_MOD_def EPOLL_CTL_DEL_def)
  ultimately show ?thesis by (simp add: ctl_spec_def EPOLL_CTL_ADD_def EPOLL_CTL_MOD_def EPOLL_CTL_DEL_def)
qed

text \<open>
  C23: An event set is a map: \<^verbatim>\<open>epoll_ctl\<close> on a well-formed set never fails to return, keeps the set well-formed
  (one slot per key and one key per occupied slot, an event to wait for beside each slot, no hole below the
  first free slot), and does to the map from keys to registrations what the operation says: \<^verbatim>\<open>EPOLL_CTL_ADD\<close> enters a
  new key and refuses a known one with \<^verbatim>\<open>EEXIST\<close>, \<^verbatim>\<open>EPOLL_CTL_MOD\<close> replaces the events and the data of a known key,
  \<^verbatim>\<open>EPOLL_CTL_DEL\<close> forgets it, both refuse an unknown key with \<^verbatim>\<open>ENOENT\<close>, and any other operation is \<^verbatim>\<open>EINVAL\<close>.
\<close>

theorem epoll_tracks_registrations:
  assumes "ep_ok ep"
  shows "\<exists>r ep'. epoll_ctl_impl op k p ev evs dat ep = Some (r, ep') \<and> ep_ok ep' \<and>
    (r, registrations ep') = ctl_spec op k (p, evs, dat, ev) (registrations ep)"
proof -
  consider "op = EPOLL_CTL_ADD" | "op = EPOLL_CTL_MOD" | "op = EPOLL_CTL_DEL"
    | "op \<noteq> EPOLL_CTL_ADD" "op \<noteq> EPOLL_CTL_MOD" "op \<noteq> EPOLL_CTL_DEL" by blast
  then show ?thesis
  proof cases
    case 4
    then show ?thesis using assms by (simp add: epoll_ctl_impl_def ep_lookup ctl_spec_def)
  qed (use ctl_add_refines[OF assms] ctl_mod_refines[OF assms] ctl_del_refines[OF assms] in blast)+
qed

lemma epoll_new_ok: "ep_ok epoll_new \<and> registrations epoll_new = Map.empty"
proof -
  have v: "ht_vals hash_u64 (hash_table_new 16 :: (u64, nat) hash_table) k = []" for k
  proof -
    have "unat (hash_u64 k mod 16) < 16" by (simp add: unat_mod)
    then show ?thesis by (simp add: ht_vals_def hash_table_new_def)
  qed
  have ok: "ht_ok hash_u64 (hash_table_new 16 :: (u64, nat) hash_table)"
    by (simp add: ht_ok_def hash_table_new_def ht_for_each_def)
  have ix: "ep_index epoll_new = Map.empty" "occupied epoll_new = (\<lambda>_. False)"
    using v htab.lookup_law[OF ok] by (auto simp: ep_index_def epoll_new_def occupied_def)
  show ?thesis
    using ok v by (auto simp: ep_ok_def ix slots_ok_def registrations_def fun_eq_iff) (simp_all add: epoll_new_def)
qed

theorem epoll_tracks_registrations_witness:
  "\<exists>ep'. epoll_ctl_impl EPOLL_CTL_ADD (calculate_key 3 0x1000) 0x1000 None 1 42 epoll_new = Some (Inr (), ep') \<and>
     registrations ep' = [calculate_key 3 0x1000 \<mapsto> (0x1000, 1, 42, None)]"
  using epoll_tracks_registrations[OF conjunct1[OF epoll_new_ok], of EPOLL_CTL_ADD "calculate_key 3 0x1000" "0x1000" None 1 42]
  by (auto simp: ctl_spec_def epoll_new_ok)

section \<open>What a wait on an event set reports\<close>

definition epoll_report :: "fd_state \<Rightarrow> pollf \<Rightarrow> registered \<Rightarrow> (u32 \<times> u64) list" where
  "epoll_report fs pollf e =
     (case Option.bind (reg_description e) (descs fs) of
        None \<Rightarrow> []
      | Some d \<Rightarrow>
          let new = pollf d (ucast (user_events e));
              r = (if user_events e AND EPOLLET \<noteq> 0 then new AND ucast (NOT (old_revents e)) else new)
          in if r = 0 then [] else [(ucast r, user_data e)])"

definition epoll_seen :: "fd_state \<Rightarrow> pollf \<Rightarrow> registered \<Rightarrow> registered" where
  "epoll_seen fs pollf e =
     (case Option.bind (reg_description e) (descs fs) of
        None \<Rightarrow> e | Some d \<Rightarrow> e\<lparr>old_revents := ucast (pollf d (ucast (user_events e)))\<rparr>)"

definition reg_live :: "fd_state \<Rightarrow> registered list \<Rightarrow> bool" where
  "reg_live fs es \<longleftrightarrow> list_all (\<lambda>e. case reg_description e of None \<Rightarrow> True | Some p \<Rightarrow> descs fs p \<noteq> None) es"

text \<open>
  One pass reports, in the order of the slots, the first \<^verbatim>\<open>maxevents\<close> registrations with something to report;
  a registration behind the last reported one is left as it was, so an edge there is not lost.
\<close>

lemma epoll_scan_reports:
  assumes "reg_live fs es" "n < maxevents"
  shows "\<exists>k. epoll_scan fs pollf maxevents n es =
      Some (take (maxevents - n) (concat (map (epoll_report fs pollf) es)), map (epoll_seen fs pollf) (take k es) @ drop k es) \<and>
    take (maxevents - n) (concat (map (epoll_report fs pollf) es)) = concat (map (epoll_report fs pollf) (take k es))"
  using assms
proof (induction es arbitrary: n)
  case (Cons e es)
  have live: "reg_live fs es" using Cons.prems by (simp add: reg_live_def)
  show ?case
  proof (cases "epoll_report fs pollf e")
    case Nil
    obtain k where k: "epoll_scan fs pollf maxevents n es =
        Some (take (maxevents - n) (concat (map (epoll_report fs pollf) es)), map (epoll_seen fs pollf) (take k es) @ drop k es)"
      "take (maxevents - n) (concat (map (epoll_report fs pollf) es)) = concat (map (epoll_report fs pollf) (take k es))"
      using Cons.IH[OF live Cons.prems(2)] by blast
    have "epoll_scan fs pollf maxevents n (e # es) =
        map_option (\<lambda>(out, es). (out, epoll_seen fs pollf e # es)) (epoll_scan fs pollf maxevents n es)"
      using Nil Cons.prems(1) by (auto simp: epoll_report_def epoll_seen_def reg_live_def Let_def split: option.splits if_splits)
    then show ?thesis using k Nil by (intro exI[of _ "Suc k"]) simp
  next
    case (Cons x xs)
    then have x: "epoll_report fs pollf e = [x]"
      by (auto simp: epoll_report_def Let_def split: option.splits if_splits)
    have step: "epoll_scan fs pollf maxevents n (e # es) =
        (if Suc n \<ge> maxevents then Some ([x], epoll_seen fs pollf e # es)
         else map_option (\<lambda>(out, es). (x # out, epoll_seen fs pollf e # es)) (epoll_scan fs pollf maxevents (Suc n) es))"
      using x by (auto simp: epoll_report_def epoll_seen_def Let_def split: option.splits if_splits bind_splits)
    show ?thesis
    proof (cases "Suc n \<ge> maxevents")
      case True
      then have "maxevents - n = 1" using Cons.prems(2) by simp
      then show ?thesis using True step x by (intro exI[of _ 1]) simp
    next
      case False
      then have m: "maxevents - n = Suc (maxevents - Suc n)" by simp
      obtain k where "epoll_scan fs pollf maxevents (Suc n) es =
          Some (take (maxevents - Suc n) (concat (map (epoll_report fs pollf) es)), map (epoll_seen fs pollf) (take k es) @ drop k es)"
        "take (maxevents - Suc n) (concat (map (epoll_report fs pollf) es)) = concat (map (epoll_report fs pollf) (take k es))"
        using Cons.IH[OF live, of "Suc n"] False by auto
      then show ?thesis using False step x m by (intro exI[of _ "Suc k"]) simp
    qed
  qed
qed simp

lemma edge_reported_once:
  assumes "user_events e AND EPOLLET \<noteq> 0"
  shows "epoll_report fs pollf (epoll_seen fs pollf e) = []"
proof -
  have "(w :: u64) AND ucast (NOT (ucast w :: u32)) = 0" for w
    by (rule bit_word_eqI) (auto simp: bit_simps)
  then show ?thesis
    using assms by (auto simp: epoll_report_def epoll_seen_def Let_def split: option.splits)
qed

end
