(* ===== verification/Userland_Elf.thy ===== *)
theory Userland_Elf
  imports Klib_Algorithm Mem_Ranges Vfs_Files
begin

text \<open>
  Loading of executables: \<^verbatim>\<open>elf::load\<close> of \<^verbatim>\<open>userland/elf.cpp\<close>. \<open>rdf cnt off\<close> is the virtual \<^verbatim>\<open>read\<close> of the
  file; the locale \<open>readable\<close> states what the proofs use of it and \<^verbatim>\<open>TmpFS\<close> provides it. The address space is
  its ranges, changed by \<^verbatim>\<open>map_anonymous\<close>, and its bytes. A store to an address no range covers is a page
  fault in the kernel and gives \<open>None\<close>, as does a failed \<^verbatim>\<open>ASSERT\<close>.
\<close>

type_synonym read_fun = "usize \<Rightarrow> usize \<Rightarrow> u8 list res option"

section \<open>Headers\<close>

fun le_value :: "u8 list \<Rightarrow> u64" where
  "le_value [] = 0"
| "le_value (b # bs) = ucast b + 256 * le_value bs"

definition le_field :: "nat \<Rightarrow> nat \<Rightarrow> u8 list \<Rightarrow> u64" where
  "le_field off n bs = le_value (take n (drop off bs))"

record elf_header =
  e_ident :: "u8 list"
  eh_type :: u16
  arch :: u16
  entry_addr :: u64
  ph_table_offset :: u64
  ph_entry_size :: u16
  ph_count :: u16

definition parse_header :: "u8 list \<Rightarrow> elf_header" where
  "parse_header bs =
     \<lparr>e_ident = take 16 bs, eh_type = ucast (le_field 16 2 bs), arch = ucast (le_field 18 2 bs), entry_addr = le_field 24 8 bs,
      ph_table_offset = le_field 32 8 bs, ph_entry_size = ucast (le_field 54 2 bs), ph_count = ucast (le_field 56 2 bs)\<rparr>"

record program_header =
  ph_type :: u32
  ph_offset :: u64
  virt_addr :: u64
  file_size :: u64
  mem_size :: u64

definition parse_program_header :: "u8 list \<Rightarrow> program_header" where
  "parse_program_header bs =
     \<lparr>ph_type = ucast (le_field 0 4 bs), ph_offset = le_field 8 8 bs, virt_addr = le_field 16 8 bs,
      file_size = le_field 32 8 bs, mem_size = le_field 40 8 bs\<rparr>"

record auxval =
  at_entry :: u64
  at_phdr :: u64
  at_phent :: u64
  at_phnum :: u64

definition ET_EXEC :: u16 where "ET_EXEC = 2"
definition PT_LOAD :: u32 where "PT_LOAD = 1"
definition PT_INTERP :: u32 where "PT_INTERP = 3"
definition PT_PHDR :: u32 where "PT_PHDR = 6"

text \<open>A structure filled with zeroes that a read may fill only in part.\<close>

definition read_struct :: "read_fun \<Rightarrow> nat \<Rightarrow> usize \<Rightarrow> u8 list option" where
  "read_struct rdf n off =
     map_option (\<lambda>r. case r of Inl _ \<Rightarrow> replicate n 0 | Inr bs \<Rightarrow> bs @ replicate (n - length bs) 0) (rdf (of_nat n) off)"

definition header_ok :: "elf_header \<Rightarrow> bool" where
  "header_ok h \<longleftrightarrow> take 4 (e_ident h) = [0x7F, 0x45, 0x4C, 0x46] \<and>
     e_ident h ! 4 = 2 \<and> e_ident h ! 5 = 1 \<and> arch h = 62 \<and> (e_ident h ! 7 = 0 \<or> e_ident h ! 7 = 3)"

section \<open>The address space\<close>

record space =
  sp_vm :: vm
  sp_mem :: "uptr \<Rightarrow> u8"

definition mapped :: "vm \<Rightarrow> uptr \<Rightarrow> bool" where
  "mapped v a = list_ex (has_addr a) (range_list v)"

fun poke :: "uptr \<Rightarrow> u8 list \<Rightarrow> (uptr \<Rightarrow> u8) \<Rightarrow> uptr \<Rightarrow> u8" where
  "poke a [] m = m"
| "poke a (b # bs) m = poke (a + 1) bs (m(a := b))"

definition store :: "uptr \<Rightarrow> u8 list \<Rightarrow> space \<Rightarrow> space option" where
  "store a bs s =
     (if list_all (\<lambda>i. mapped (sp_vm s) (a + of_nat i)) [0..<length bs]
      then Some (s\<lparr>sp_mem := poke a bs (sp_mem s)\<rparr>) else None)"

definition map_space :: "uptr \<Rightarrow> usize \<Rightarrow> u64 \<Rightarrow> space \<Rightarrow> space option" where
  "map_space base len fl s = map_option (\<lambda>v. s\<lparr>sp_vm := v\<rparr>) (map_anonymous base len fl False (sp_vm s))"

section \<open>Segments\<close>

text \<open>The iteration of the page loop for the page \<open>i\<close>: the bytes of the file that belong to it, in a page of zeroes.\<close>

definition load_page ::
  "read_fun \<Rightarrow> program_header \<Rightarrow> uptr \<Rightarrow> usize \<Rightarrow> usize \<Rightarrow> usize \<Rightarrow> usize \<Rightarrow> uptr \<Rightarrow> space \<Rightarrow> (usize \<times> uptr \<times> space) option" where
  "load_page rdf ph base misalign file_page_count i tot first_free s = do {
     let dst = align_down base PAGE_SIZE + i * PAGE_SIZE;
     s \<leftarrow> store dst (replicate 4096 0) s;
     (tot, s) \<leftarrow>
       (if i < file_page_count then do {
          let off = ph_offset ph + i * PAGE_SIZE;
          let (dst, off, sz) = (if i = 0 then (dst + misalign, off, PAGE_SIZE - misalign) else (dst, off - misalign, PAGE_SIZE));
          let sz = (if i = file_page_count - 1 then file_size ph - tot else sz);
          r \<leftarrow> rdf sz off;
          s \<leftarrow> (case r of Inl _ \<Rightarrow> Some s | Inr bs \<Rightarrow> store dst bs s);
          Some (tot + sz, s) }
        else Some (tot, s));
     let page_virt = base + i * PAGE_SIZE;
     Some (tot, (if page_virt \<ge> first_free then page_virt + PAGE_SIZE else first_free), s) }"

fun load_pages ::
  "read_fun \<Rightarrow> program_header \<Rightarrow> uptr \<Rightarrow> usize \<Rightarrow> usize \<Rightarrow> nat \<Rightarrow> nat \<Rightarrow> usize \<Rightarrow> uptr \<Rightarrow> space \<Rightarrow> (usize \<times> uptr \<times> space) option" where
  "load_pages rdf ph base misalign fpc i 0 tot first_free s = Some (tot, first_free, s)"
| "load_pages rdf ph base misalign fpc i (Suc n) tot first_free s = do {
     (tot, first_free, s) \<leftarrow> load_page rdf ph base misalign fpc (of_nat i) tot first_free s;
     load_pages rdf ph base misalign fpc (Suc i) n tot first_free s }"

definition load_segment :: "read_fun \<Rightarrow> uptr \<Rightarrow> program_header \<Rightarrow> uptr \<Rightarrow> space \<Rightarrow> (uptr \<times> space) option" where
  "load_segment rdf load_base ph first_free s = do {
     let misalign = virt_addr ph AND 0xFFF;
     let mem_page_count = (mem_size ph + misalign + PAGE_SIZE - 1) div PAGE_SIZE;
     let file_page_count = (file_size ph + misalign + PAGE_SIZE - 1) div PAGE_SIZE;
     let base = load_base + virt_addr ph;
     s \<leftarrow> map_space (align_down base PAGE_SIZE) (mem_page_count * PAGE_SIZE) (PAGE_PRESENT OR PAGE_USER OR PAGE_WRITABLE) s;
     (tot, first_free, s) \<leftarrow> load_pages rdf ph base misalign file_page_count 0 (unat mem_page_count) 0 first_free s;
     if tot \<noteq> file_size ph then None else Some (first_free, s) }"

section \<open>The loader\<close>

record loader =
  l_space :: space
  l_aux :: auxval
  l_first_free :: uptr
  l_path :: "u8 list option"
  l_virt_base :: uptr

text \<open>The path of the interpreter is what the segment holds before its first zero byte; without one the string has no end.\<close>

definition interp_path :: "read_fun \<Rightarrow> program_header \<Rightarrow> u8 list option" where
  "interp_path rdf ph = do {
     r \<leftarrow> rdf (file_size ph) (ph_offset ph);
     case r of Inl _ \<Rightarrow> None
     | Inr bs \<Rightarrow> if 0 \<in> set bs then Some (takeWhile (\<lambda>b. b \<noteq> 0) bs) else None }"

definition load_ph :: "read_fun \<Rightarrow> uptr \<Rightarrow> bool \<Rightarrow> program_header \<Rightarrow> loader \<Rightarrow> loader option" where
  "load_ph rdf load_base want_ld ph l =
     (if ph_type ph = PT_LOAD then do {
        (ff, s) \<leftarrow> load_segment rdf load_base ph (l_first_free l) (l_space l);
        Some (l\<lparr>l_space := s, l_first_free := ff, l_virt_base := min (l_virt_base l) (load_base + virt_addr ph)\<rparr>) }
      else if ph_type ph = PT_PHDR then Some (l\<lparr>l_aux := (l_aux l)\<lparr>at_phdr := load_base + virt_addr ph\<rparr>\<rparr>)
      else if ph_type ph = PT_INTERP \<and> want_ld then do { p \<leftarrow> interp_path rdf ph; Some (l\<lparr>l_path := Some p\<rparr>) }
      else Some l)"

definition read_ph :: "read_fun \<Rightarrow> elf_header \<Rightarrow> nat \<Rightarrow> program_header option" where
  "read_ph rdf h i = map_option parse_program_header (read_struct rdf 56 (ph_table_offset h + of_nat i * ucast (ph_entry_size h)))"

fun load_phs :: "read_fun \<Rightarrow> elf_header \<Rightarrow> uptr \<Rightarrow> bool \<Rightarrow> nat list \<Rightarrow> loader \<Rightarrow> loader option" where
  "load_phs rdf h load_base want_ld [] l = Some l"
| "load_phs rdf h load_base want_ld (i # is) l = do {
     ph \<leftarrow> read_ph rdf h i;
     l \<leftarrow> load_ph rdf load_base want_ld ph l;
     load_phs rdf h load_base want_ld is l }"

definition elf_load :: "read_fun \<Rightarrow> uptr \<Rightarrow> bool \<Rightarrow> loader \<Rightarrow> (unit res \<times> loader) option" where
  "elf_load rdf load_base want_ld l = do {
     bs \<leftarrow> read_struct rdf 64 0;
     let h = parse_header bs;
     if \<not> header_ok h then Some (Inl ENOEXEC, l)
     else do {
       let load_base = (if eh_type h = ET_EXEC then 0 else load_base);
       l \<leftarrow> load_phs rdf h load_base want_ld [0..<unat (ph_count h)] (l\<lparr>l_virt_base := - 1\<rparr>);
       let a = l_aux l;
       Some (Inr (), l\<lparr>l_first_free := align_up (l_first_free l) PAGE_SIZE,
         l_aux := \<lparr>at_entry = load_base + entry_addr h,
                   at_phdr = (if at_phdr a = 0 then l_virt_base l + ph_table_offset h else at_phdr a),
                   at_phent = ucast (ph_entry_size h), at_phnum = ucast (ph_count h)\<rparr>\<rparr>) } }"

section \<open>Bytes of the address space\<close>

lemma poke_at: "length bs \<le> 2 ^ 64 \<Longrightarrow> poke a bs m x = (if unat (x - a) < length bs then bs ! unat (x - a) else m x)"
proof (induction bs arbitrary: a m)
  case (Cons b bs)
  have IH: "poke (a + 1) bs (m(a := b)) x =
      (if unat (x - (a + 1)) < length bs then bs ! unat (x - (a + 1)) else (m(a := b)) x)"
    using Cons by simp
  show ?case
  proof (cases "x = a")
    case True
    have "x - (a + 1) = - 1" using True by simp
    then have "unat (x - (a + 1)) = 2 ^ 64 - 1" by (simp add: unsigned_minus_1_eq_mask mask_eq_exp_minus_1)
    then show ?thesis using IH True Cons.prems by simp
  next
    case False
    then have "x - a \<noteq> 0" by simp
    then have "unat (x - a) = Suc (unat (x - a - 1))" using unat_minus_one[of "x - a"] unat_gt_0[of "x - a"] by simp
    then have "unat (x - a) = Suc (unat (x - (a + 1)))" by (simp only: diff_diff_eq)
    then show ?thesis using IH False by simp
  qed
qed simp

lemma store_mapped:
  assumes "\<And>i. i < length bs \<Longrightarrow> mapped (sp_vm s) (a + of_nat i)"
  shows "store a bs s = Some (s\<lparr>sp_mem := poke a bs (sp_mem s)\<rparr>)"
  using assms by (auto simp: store_def list_all_iff)

text \<open>A mapping of free addresses succeeds and makes them usable.\<close>

lemma mapped_attrs:
  assumes "vm_ok v" "attrs v (unat a) \<noteq> {}"
  shows "mapped v a"
proof -
  obtain r where r: "r \<in> set (range_list v)" "in_range r (unat a)" "shape r \<in> rset v"
    using assms(2) by (auto simp: attrs_def rset_def)
  then have "range_ok r" using vm_okD(1)[OF assms(1) r(3)] by simp
  then have "has_addr a r"
    using r(2) range_end_unat[of r] by (simp add: has_addr_def in_range_def word_le_nat_alt word_less_nat_alt)
  then show ?thesis using r(1) by (auto simp: mapped_def list_ex_iff)
qed

lemma map_anonymous_free:
  assumes ok: "vm_ok v" and len: "0 < unat len" "unat base + unat len < 2 ^ 64" and fl: "fl AND PAGE_PRESENT \<noteq> 0"
    and clear: "\<And>a. unat base \<le> a \<Longrightarrow> a < unat base + unat len \<Longrightarrow> attrs v a = {}"
  shows "\<exists>v'. map_anonymous base len fl keep v = Some v' \<and> vm_ok v' \<and>
    (\<forall>a. attrs v' a = (if unat base \<le> a \<and> a < unat base + unat len then {(TANONYMOUS, fl)} else attrs v a))"
proof -
  let ?q = "\<lparr>q_base = base, q_length = len, q_flags = fl, q_type = TANONYMOUS, q_phy = 0, q_file = None, q_offset = 0\<rparr> :: range_request"
  let ?v0 = "v\<lparr>cached_range_lookup := None\<rparr>"
  have q: "request_ok ?q" using len by (simp add: request_ok_def)
  have s0: "same_ranges v ?v0" by (simp add: same_ranges_def)
  have ok0: "vm_ok ?v0" "attrs ?v0 = attrs v" using same_ranges_ok[OF s0] ok by simp_all
  have cl: "\<forall>s\<in>rset ?v0. clear_of ?q s"
  proof
    fix s assume s: "s \<in> rset ?v0"
    have "attrs v a \<noteq> {}" if "in_range s a" for a using s that unfolding ok0(2)[symmetric] by (auto simp: attrs_def)
    then show "clear_of ?q s" using clear unfolding clear_of_def in_request_def by auto
  qed
  have "resolve_loop ?q keep False ?v0 = Some (Inr False, ?v0)"
    using resolve_loop_two_passes[OF ok0(1) q] resolve_pass_clear[OF ok0(1) q cl] all_ids by simp
  then have run: "add_range ?q True True keep v = place_range ?q True False ?v0" by (simp add: add_range_def)
  have "place_range ?q True False ?v0 \<noteq> None" by (simp add: place_range_def Let_def split: option.split prod.split)
  then obtain x v' where p: "place_range ?q True False ?v0 = Some (x, v')" by (metis option.exhaust surj_pair)
  have "mapped_as ?q ?v0 v'" by (rule place_range_maps[OF ok0(1) q cl p])
  then show ?thesis using run p fl ok0(2) by (auto simp: map_anonymous_def mapped_as_def in_request_def)
qed

section \<open>What a segment becomes\<close>

lemma sub_offset:
  fixes x a :: uptr
  assumes "d + n \<le> 2 ^ 64" "0 < n"
  shows "unat (x - (a + of_nat d)) < n \<longleftrightarrow> d \<le> unat (x - a) \<and> unat (x - a) < d + n"
    and "d \<le> unat (x - a) \<Longrightarrow> unat (x - (a + of_nat d)) = unat (x - a) - d"
proof -
  have "d < 2 ^ 64" using assms by simp
  then have u: "unat (of_nat d :: uptr) = d" by (simp add: unat_of_nat_64)
  have e: "x - (a + of_nat d) = (x - a) - of_nat d" by simp
  show "d \<le> unat (x - a) \<Longrightarrow> unat (x - (a + of_nat d)) = unat (x - a) - d"
    unfolding e by (simp add: unat_sub word_le_nat_alt u)
  then show "unat (x - (a + of_nat d)) < n \<longleftrightarrow> d \<le> unat (x - a) \<and> unat (x - a) < d + n"
  proof (cases "d \<le> unat (x - a)")
    case False
    then have "unat (x - (a + of_nat d)) = unat (x - a) + 2 ^ 64 - d"
      unfolding e by (simp add: unat_sub_if_size word_size u)
    then show ?thesis using False assms by linarith
  qed (simp add: less_diff_conv2 e, arith)
qed

text \<open>The bytes of the file read up to the start of page \<open>i\<close>, and the byte at an offset from the first page.\<close>

definition seg_done :: "program_header \<Rightarrow> nat \<Rightarrow> nat" where
  "seg_done ph i = min (unat (file_size ph)) (i * 4096 - unat (virt_addr ph) mod 4096)"

definition seg_byte :: "u8 list \<Rightarrow> program_header \<Rightarrow> nat \<Rightarrow> u8" where
  "seg_byte c ph j =
     (let m = unat (virt_addr ph) mod 4096
      in if m \<le> j \<and> j < m + unat (file_size ph) then c ! (unat (ph_offset ph) + (j - m)) else 0)"

definition seg_pages :: "program_header \<Rightarrow> nat" where
  "seg_pages ph = (unat (mem_size ph) + unat (virt_addr ph) mod 4096 + 4095) div 4096"

text \<open>The address of the first page of a segment, and the addresses of its pages.\<close>

definition seg_first :: "uptr \<Rightarrow> program_header \<Rightarrow> nat" where
  "seg_first lb ph = unat lb + unat (virt_addr ph) - unat (virt_addr ph) mod 4096"

definition seg_range :: "uptr \<Rightarrow> program_header \<Rightarrow> nat \<Rightarrow> bool" where
  "seg_range lb ph a \<longleftrightarrow> seg_first lb ph \<le> a \<and> a < seg_first lb ph + seg_pages ph * 4096"

lemma and_low_bits: "unat ((w :: u64) AND 0xFFF) = unat w mod 4096"
proof -
  have "(0xFFF :: u64) = mask 12" by (simp add: mask_eq_exp_minus_1)
  then have "w AND 0xFFF = take_bit 12 w" by (simp only: take_bit_eq_mask)
  then have "w AND 0xFFF = w mod 4096" by (simp only: take_bit_eq_mod) simp
  then show ?thesis by (simp add: unat_mod)
qed

lemma unat_inverse: "unat (x :: u64) = unat y \<Longrightarrow> x = y"
  by (simp add: word_unat_eq_iff)

lemma of_nat_pages: "x + 4095 < 2 ^ 64 \<Longrightarrow> (of_nat x + PAGE_SIZE - 1) div PAGE_SIZE = of_nat ((x + 4095) div 4096)"
proof (rule unat_inverse)
  assume x: "x + 4095 < 2 ^ 64"
  have e: "of_nat x + PAGE_SIZE - 1 = (of_nat (x + 4095) :: u64)" by (simp add: PAGE_SIZE_def)
  have "(x + 4095) div 4096 < 2 ^ 64" using x by (meson div_le_dividend le_less_trans)
  then show "unat ((of_nat x + PAGE_SIZE - 1) div PAGE_SIZE) = unat (of_nat ((x + 4095) div 4096) :: u64)"
    unfolding e by (simp only: unat_div unat_of_nat_64[OF x] unat_of_nat_64) (simp add: PAGE_SIZE_def)
qed

lemma align_down_of_nat:
  assumes "A mod 4096 = 0" "M < 4096" "A + M < 2 ^ 64"
  shows "align_down (of_nat (A + M)) PAGE_SIZE = of_nat A"
proof (rule unat_inverse)
  have "(A + M) div 4096 * 4096 = A" using assms(1,2) by (metis add.commute div_mult_mod_eq mod_add_left_eq mod_less add_0 add_right_cancel)
  then show "unat (align_down (of_nat (A + M)) PAGE_SIZE) = unat (of_nat A :: u64)"
    using assms(3) by (simp add: unat_align_down PAGE_SIZE_def unat_of_nat_64 del: of_nat_add)
qed

lemma seg_first_page: "unat lb mod 4096 = 0 \<Longrightarrow> seg_first lb ph mod 4096 = 0"
  by (simp add: seg_first_def)
    (metis mod_add_left_eq add_0 minus_mod_eq_mult_div mod_mult_self1_is_0 Nat.add_diff_assoc mod_less_eq_dividend)

text \<open>A segment that can be loaded: the part from the file exists and fits, and no address wraps around.\<close>

definition seg_ok :: "u8 list \<Rightarrow> uptr \<Rightarrow> program_header \<Rightarrow> bool" where
  "seg_ok c lb ph \<longleftrightarrow> file_size ph \<le> mem_size ph \<and> 0 < mem_size ph \<and> unat (ph_offset ph) + unat (file_size ph) \<le> length c \<and>
     length c < 2 ^ 63 \<and> unat lb mod 4096 = 0 \<and> unat lb + unat (virt_addr ph) + unat (mem_size ph) + 16384 < 2 ^ 64"

text \<open>What an executable says: its header, its program headers, where it is loaded and its segments.\<close>

definition elf_head :: "u8 list \<Rightarrow> elf_header" where
  "elf_head c = parse_header (take 64 c)"

definition elf_phs :: "u8 list \<Rightarrow> program_header list" where
  "elf_phs c =
     (let h = elf_head c
      in map (\<lambda>i. parse_program_header (take 56 (drop (unat (ph_table_offset h) + i * unat (ph_entry_size h)) c))) [0..<unat (ph_count h)])"

definition elf_base :: "u8 list \<Rightarrow> uptr \<Rightarrow> uptr" where
  "elf_base c lb = (if eh_type (elf_head c) = ET_EXEC then 0 else lb)"

definition seg_loads :: "program_header list \<Rightarrow> program_header list" where
  "seg_loads phs = filter (\<lambda>ph. ph_type ph = PT_LOAD) phs"

definition seg_apart :: "uptr \<Rightarrow> program_header \<Rightarrow> program_header \<Rightarrow> bool" where
  "seg_apart lb p q \<longleftrightarrow> seg_first lb p + seg_pages p * 4096 \<le> seg_first lb q \<or> seg_first lb q + seg_pages q * 4096 \<le> seg_first lb p"

definition interp_ok :: "u8 list \<Rightarrow> program_header \<Rightarrow> bool" where
  "interp_ok c ph \<longleftrightarrow> unat (ph_offset ph) + unat (file_size ph) \<le> length c \<and>
     0 \<in> set (take (unat (file_size ph)) (drop (unat (ph_offset ph)) c))"

text \<open>
  A segment in memory: every byte of it can be used, holds the byte of the file or zero behind the file's part,
  and lies below the first address the loader reports as free.
\<close>

definition segment_loaded :: "u8 list \<Rightarrow> uptr \<Rightarrow> program_header \<Rightarrow> loader \<Rightarrow> bool" where
  "segment_loaded c lb ph l \<longleftrightarrow>
     (\<forall>k<unat (mem_size ph). let a = lb + virt_addr ph + of_nat k in
        mapped (sp_vm (l_space l)) a \<and> a < l_first_free l \<and>
        sp_mem (l_space l) a = (if k < unat (file_size ph) then c ! (unat (ph_offset ph) + k) else 0))"

text \<open>
  A well-formed executable: a valid header, a program header table inside the file, segments that can be loaded
  and share no page, and interpreter paths that end with a zero byte.
\<close>

definition elf_wf :: "u8 list \<Rightarrow> uptr \<Rightarrow> bool" where
  "elf_wf c lb \<longleftrightarrow> 64 \<le> length c \<and> length c < 2 ^ 63 \<and> header_ok (elf_head c) \<and>
     unat (ph_table_offset (elf_head c)) + (unat (ph_count (elf_head c)) - 1) * unat (ph_entry_size (elf_head c)) + 56 \<le> length c \<and>
     list_all (seg_ok c (elf_base c lb)) (seg_loads (elf_phs c)) \<and> sorted_wrt (seg_apart (elf_base c lb)) (seg_loads (elf_phs c)) \<and>
     list_all (interp_ok c) (filter (\<lambda>ph. ph_type ph = PT_INTERP) (elf_phs c))"

locale readable =
  fixes fok :: "'n \<Rightarrow> bool" and rdf :: "'n \<Rightarrow> read_fun" and content :: "'n \<Rightarrow> u8 list"
  assumes read_law: "fok n \<Longrightarrow> unat off + unat cnt < 2 ^ 64 \<Longrightarrow> rdf n cnt off = Some (Inr (take (unat cnt) (drop (unat off) (content n))))"
begin

lemma read_piece:
  assumes "fok n" "o1 + k \<le> length (content n)" "length (content n) < 2 ^ 63"
  shows "rdf n (of_nat k) (of_nat o1) = Some (Inr (take k (drop o1 (content n))))"
  using read_law[OF assms(1), of "of_nat o1" "of_nat k"] assms(2,3) by (simp add: unat_of_nat_64)

text \<open>One page: \<open>F\<close> pages hold bytes of the file.\<close>

lemma load_page_fills:
  fixes ph :: program_header and A i :: nat
  defines "M \<equiv> unat (virt_addr ph) mod 4096"
  defines "F \<equiv> (unat (file_size ph) + M + 4095) div 4096"
  assumes n: "fok n" and seg: "seg_ok (content n) lb ph" and i: "i < seg_pages ph" and A: "A = seg_first lb ph"
    and base: "base = of_nat (A + M)" and mp: "\<And>j. j < seg_pages ph * 4096 \<Longrightarrow> mapped (sp_vm s) (of_nat (A + j))"
  shows "\<exists>ff' m. load_page (rdf n) ph base (of_nat M) (of_nat F) (of_nat i) (of_nat (seg_done ph i)) ff s =
      Some (of_nat (seg_done ph (Suc i)), ff', s\<lparr>sp_mem := m\<rparr>) \<and>
    (\<forall>x. m x = (let j = unat (x - of_nat A) in if i * 4096 \<le> j \<and> j < Suc i * 4096 then seg_byte (content n) ph j else sp_mem s x)) \<and>
    unat ff \<le> unat ff' \<and> A + i * 4096 < unat ff' \<and> unat ff' \<le> max (unat ff) (2 ^ 64 - 8192)"
proof -
  let ?c = "content n"
  define fs where "fs = unat (file_size ph)"
  define T where "T = seg_done ph"
  have T: "T j = min fs (j * 4096 - M)" for j by (simp add: T_def seg_done_def M_def fs_def)
  have M: "M < 4096" by (simp add: M_def)
  have sk: "fs \<le> unat (mem_size ph)" "unat (ph_offset ph) + fs \<le> length ?c" "length ?c < 2 ^ 63"
    "unat lb + unat (virt_addr ph) + unat (mem_size ph) + 16384 < 2 ^ 64" "unat lb mod 4096 = 0"
    using seg by (auto simp: seg_ok_def fs_def word_le_nat_alt)
  have N: "seg_pages ph * 4096 \<le> unat (mem_size ph) + M + 4095" by (simp add: seg_pages_def M_def)
  have AM: "A + M = unat lb + unat (virt_addr ph)" using A by (simp add: seg_first_def M_def)
  have top: "A + seg_pages ph * 4096 + 4096 < 2 ^ 64" using N AM sk(4) M by linarith
  have ad: "align_down base PAGE_SIZE + of_nat i * PAGE_SIZE = of_nat (A + i * 4096)"
  proof -
    have "A + M < 2 ^ 64" using AM sk(4) by linarith
    then have "align_down base PAGE_SIZE = of_nat A"
      unfolding base A by (rule align_down_of_nat[OF seg_first_page[OF sk(5)] M])
    then show ?thesis by (simp add: PAGE_SIZE_def)
  qed
  have F: "j < F \<Longrightarrow> j * 4096 < fs + M" "F \<le> i \<Longrightarrow> fs + M \<le> i * 4096" "F < 2 ^ 64" for j
    using sk(1,4) M by (auto simp: F_def fs_def)
  have i64: "i < 2 ^ 64" using i top by linarith
  have T_bound: "T (Suc i) \<le> fs" "T i \<le> T (Suc i)" by (auto simp: T)
  have off: "of_nat (unat (ph_offset ph)) = ph_offset ph" "of_nat fs = file_size ph" by (simp_all add: fs_def)
  have lt: "(of_nat i < (of_nat F :: u64)) = (i < F)" using i64 F(3) by (simp add: word_less_nat_alt unat_of_nat_64)
  have z: "((of_nat i :: u64) = 0) = (i = 0)" using unat_of_nat_64[OF i64] by (metis unat_eq_zero)
  have lst: "((of_nat i :: u64) = of_nat F - 1) = (Suc i = F)" if "i < F"
  proof -
    have "(of_nat F - 1 :: u64) = of_nat (F - 1)" using that by (simp add: of_nat_diff)
    moreover have "unat (of_nat (F - 1) :: u64) = F - 1" using F(3) by (simp add: unat_of_nat_64)
    ultimately have "((of_nat i :: u64) = of_nat F - 1) = (i = F - 1)" using unat_of_nat_64[OF i64] by metis
    then show ?thesis using that by auto
  qed
  have sz: "(if Suc i = F then file_size ph - of_nat (T i) else if i = 0 then PAGE_SIZE - of_nat M else PAGE_SIZE) = of_nat (T (Suc i) - T i)" if h: "i < F"
  proof (cases "Suc i = F")
    case True
    have "fs + M \<le> F * 4096" by (simp add: F_def fs_def)
    then have "T (Suc i) = fs" using True by (auto simp: T)
    then show ?thesis using True T_bound(2) off(2) by (simp add: of_nat_diff)
  next
    case False
    then have "Suc i * 4096 < fs + M" using h by (intro F(1)) simp
    then show ?thesis using False M by (cases "i = 0") (auto simp: T PAGE_SIZE_def of_nat_diff)
  qed
  have at: "(if i = 0 then of_nat (A + i * 4096) + of_nat M else of_nat (A + i * 4096)) = (of_nat (A + M + T i) :: u64)"
    "(if i = 0 then ph_offset ph + of_nat i * PAGE_SIZE else ph_offset ph + of_nat i * PAGE_SIZE - of_nat M) = of_nat (unat (ph_offset ph) + T i)" if h: "i < F"
    using F(1)[OF h] M by (auto simp: T PAGE_SIZE_def of_nat_diff)
  let ?z = "poke (of_nat (A + i * 4096)) (replicate 4096 0) (sp_mem s)"
  have st1: "store (of_nat (A + i * 4096)) (replicate 4096 0) s = Some (s\<lparr>sp_mem := ?z\<rparr>)"
  proof (rule store_mapped)
    fix k assume "k < length (replicate 4096 (0 :: u8))"
    then have "i * 4096 + k < seg_pages ph * 4096" using i by simp
    from mp[OF this] show "mapped (sp_vm s) (of_nat (A + i * 4096) + of_nat k)" by (simp add: add.assoc)
  qed
  let ?ff = "if base + of_nat i * PAGE_SIZE \<ge> ff then base + of_nat i * PAGE_SIZE + PAGE_SIZE else ff"
  let ?bs = "take (T (Suc i) - T i) (drop (unat (ph_offset ph) + T i) ?c)"
  have lb: "length ?bs = T (Suc i) - T i" using T_bound sk(2) by simp
  let ?m = "if i < F then poke (of_nat (A + M + T i)) ?bs ?z else ?z"
  have st2: "store (of_nat (A + M + T i)) ?bs (s\<lparr>sp_mem := ?z\<rparr>) = Some (s\<lparr>sp_mem := poke (of_nat (A + M + T i)) ?bs ?z\<rparr>)" if h: "i < F"
  proof (subst store_mapped)
    fix k assume k: "k < length ?bs"
    then have "M + T i + k < seg_pages ph * 4096"
      using k unfolding lb using i by (auto simp: T)
    from mp[OF this] show "mapped (sp_vm (s\<lparr>sp_mem := ?z\<rparr>)) (of_nat (A + M + T i) + of_nat k)" by (simp add: add.assoc)
  qed simp
  have run: "load_page (rdf n) ph base (of_nat M) (of_nat F) (of_nat i) (of_nat (T i)) ff s =
      Some (of_nat (T (Suc i)), ?ff, s\<lparr>sp_mem := ?m\<rparr>)"
  proof (cases "i < F")
    case True
    have rdp: "rdf n (of_nat (T (Suc i) - T i)) (of_nat (unat (ph_offset ph) + T i)) = Some (Inr ?bs)"
      using T_bound sk(2) by (intro read_piece[OF n _ sk(3)]) simp
    have tot: "(of_nat (T i) + of_nat (T (Suc i) - T i) :: u64) = of_nat (T (Suc i))"
      using T_bound(2) by (simp flip: of_nat_add)
    have pick: "(if of_nat i = (0 :: u64) then (of_nat (A + i * 4096) + of_nat M :: u64, ph_offset ph + of_nat i * PAGE_SIZE, PAGE_SIZE - of_nat M)
        else (of_nat (A + i * 4096), ph_offset ph + of_nat i * PAGE_SIZE - of_nat M, PAGE_SIZE)) =
      (of_nat (A + M + T i), of_nat (unat (ph_offset ph) + T i), if i = 0 then PAGE_SIZE - of_nat M else PAGE_SIZE)"
      using at[OF True] z by (auto split: if_splits)
    show ?thesis
      using True unfolding load_page_def Let_def ad st1 Option.bind.bind_lunit lt pick
      by (simp add: sz[OF True] lst[OF True] rdp st2[OF True] tot del: of_nat_add of_nat_mult)
  next
    case False
    then have "T (Suc i) = T i" using F(2) by (auto simp: T)
    then show ?thesis using False by (simp add: load_page_def Let_def ad st1 lt del: of_nat_add of_nat_mult)
  qed
  have len: "length ?bs \<le> 2 ^ 64" using lb T_bound sk by linarith
  have zero: "?z x = (if i * 4096 \<le> unat (x - of_nat A) \<and> unat (x - of_nat A) < Suc i * 4096 then 0 else sp_mem s x)" for x
  proof -
    have "i * 4096 + 4096 \<le> (2 :: nat) ^ 64" using top i by linarith
    then show ?thesis using sub_offset(1)[of "i * 4096" 4096 x "of_nat A"] by (simp add: poke_at add.commute)
  qed
  have fill: "?m x = (let j = unat (x - of_nat A) in if i * 4096 \<le> j \<and> j < Suc i * 4096 then seg_byte ?c ph j else sp_mem s x)" for x
  proof (cases "i < F \<and> T i < T (Suc i)")
    case True
    let ?j = "unat (x - of_nat A)"
    have d: "M + T i + (T (Suc i) - T i) \<le> 2 ^ 64" using T_bound sk(1,4) M by linarith
    have nthp: "?bs ! (k - (M + T i)) = ?c ! (unat (ph_offset ph) + (k - M))" if "M + T i \<le> k" "k < M + T (Suc i)" for k
    proof -
      have "?bs ! (k - (M + T i)) = ?c ! (unat (ph_offset ph) + T i + (k - (M + T i)))"
        using that T_bound sk(2) by (subst nth_take) (auto simp: less_diff_conv2)
      moreover have "unat (ph_offset ph) + T i + (k - (M + T i)) = unat (ph_offset ph) + (k - M)" using that by linarith
      ultimately show ?thesis by (simp only:)
    qed
    have pk: "?m x = (if M + T i \<le> ?j \<and> ?j < M + T (Suc i) then ?c ! (unat (ph_offset ph) + (?j - M)) else ?z x)"
    proof -
      have "?m x = poke (of_nat A + of_nat (M + T i)) ?bs ?z x" using True by (simp add: add.assoc)
      also have "\<dots> = (if M + T i \<le> ?j \<and> ?j < M + T (Suc i) then ?bs ! (?j - (M + T i)) else ?z x)"
        unfolding poke_at[OF len] lb using True sub_offset[OF d, of x "of_nat A"] by auto
      also have "\<dots> = (if M + T i \<le> ?j \<and> ?j < M + T (Suc i) then ?c ! (unat (ph_offset ph) + (?j - M)) else ?z x)"
        by (rule if_cong[OF refl nthp refl]) simp_all
      finally show ?thesis .
    qed
    have "i = 0 \<or> M + T i = i * 4096" using F(1)[of i] True M by (cases i) (auto simp: T)
    moreover have "T (Suc i) = fs \<or> M + T (Suc i) = Suc i * 4096" using M by (auto simp: T min_def)
    moreover have "M + T (Suc i) \<le> Suc i * 4096" "T 0 = 0" using M by (auto simp: T)
    ultimately show ?thesis
      using T_bound unfolding pk zero seg_byte_def M_def[symmetric] fs_def[symmetric] Let_def by auto
  next
    case False
    then have "fs + M \<le> i * 4096 \<or> T (Suc i) = T i" using F(2) T_bound by linarith
    moreover have "?m x = ?z x" using False T_bound(2) by (auto simp: le_antisym)
    ultimately show ?thesis
      unfolding zero seg_byte_def M_def[symmetric] fs_def[symmetric] Let_def using M by (auto simp: T min_def split: if_splits)
  qed
  have bv: "unat (base + of_nat i * PAGE_SIZE) = A + M + i * 4096" "unat (base + of_nat i * PAGE_SIZE + PAGE_SIZE) = A + M + i * 4096 + 4096"
  proof -
    have "base + of_nat i * PAGE_SIZE = of_nat (A + M + i * 4096)" "base + of_nat i * PAGE_SIZE + PAGE_SIZE = of_nat (A + M + i * 4096 + 4096)"
      using base by (simp_all add: PAGE_SIZE_def)
    moreover have "A + M + i * 4096 + 4096 < 2 ^ 64" using top i M by linarith
    ultimately show "unat (base + of_nat i * PAGE_SIZE) = A + M + i * 4096" "unat (base + of_nat i * PAGE_SIZE + PAGE_SIZE) = A + M + i * 4096 + 4096"
      by (simp_all add: unat_of_nat_64 del: of_nat_add of_nat_mult)
  qed
  have "A + M + i * 4096 + 4096 \<le> 2 ^ 64 - 8192" using AM N sk(4) M i by linarith
  then have "unat ff \<le> unat ?ff \<and> A + i * 4096 < unat ?ff \<and> unat ?ff \<le> max (unat ff) (2 ^ 64 - 8192)"
    using bv M by (auto simp: word_le_nat_alt)
  then show ?thesis using run fill unfolding T_def by blast
qed

lemma load_pages_fill:
  fixes ph :: program_header and A :: nat
  defines "M \<equiv> unat (virt_addr ph) mod 4096"
  defines "F \<equiv> (unat (file_size ph) + M + 4095) div 4096"
  assumes n: "fok n" and seg: "seg_ok (content n) lb ph" and A: "A = seg_first lb ph" and base: "base = of_nat (A + M)"
    and mp: "\<And>j. j < seg_pages ph * 4096 \<Longrightarrow> mapped (sp_vm s) (of_nat (A + j))" and i: "i + k = seg_pages ph"
  shows "\<exists>ff' m. load_pages (rdf n) ph base (of_nat M) (of_nat F) i k (of_nat (seg_done ph i)) ff s =
      Some (of_nat (seg_done ph (i + k)), ff', s\<lparr>sp_mem := m\<rparr>) \<and>
    (\<forall>x. m x = (let j = unat (x - of_nat A) in if i * 4096 \<le> j \<and> j < (i + k) * 4096 then seg_byte (content n) ph j else sp_mem s x)) \<and>
    unat ff \<le> unat ff' \<and> (k \<noteq> 0 \<longrightarrow> A + (i + k - 1) * 4096 < unat ff') \<and> unat ff' \<le> max (unat ff) (2 ^ 64 - 8192)"
  using mp i
proof (induction k arbitrary: i ff s)
  case 0
  show ?case by (intro exI[of _ ff] exI[of _ "sp_mem s"]) (auto simp: Let_def)
next
  case (Suc k)
  have "i < seg_pages ph" using Suc.prems(2) by simp
  from load_page_fills[OF n seg this A base[unfolded M_def], of s ff, folded M_def, folded F_def] Suc.prems(1)
  obtain f1 m1 where p: "load_page (rdf n) ph base (of_nat M) (of_nat F) (of_nat i) (of_nat (seg_done ph i)) ff s =
      Some (of_nat (seg_done ph (Suc i)), f1, s\<lparr>sp_mem := m1\<rparr>)"
    "\<forall>x. m1 x = (let j = unat (x - of_nat A) in if i * 4096 \<le> j \<and> j < Suc i * 4096 then seg_byte (content n) ph j else sp_mem s x)"
    "unat ff \<le> unat f1" "A + i * 4096 < unat f1" "unat f1 \<le> max (unat ff) (2 ^ 64 - 8192)" by blast
  have pre: "\<And>j. j < seg_pages ph * 4096 \<Longrightarrow> mapped (sp_vm (s\<lparr>sp_mem := m1\<rparr>)) (of_nat (A + j))" "Suc i + k = seg_pages ph"
    using Suc.prems by simp_all
  obtain f2 m2 where q: "load_pages (rdf n) ph base (of_nat M) (of_nat F) (Suc i) k (of_nat (seg_done ph (Suc i))) f1 (s\<lparr>sp_mem := m1\<rparr>) =
      Some (of_nat (seg_done ph (Suc i + k)), f2, s\<lparr>sp_mem := m1\<rparr>\<lparr>sp_mem := m2\<rparr>)"
    "\<forall>x. m2 x = (let j = unat (x - of_nat A) in if Suc i * 4096 \<le> j \<and> j < (Suc i + k) * 4096 then seg_byte (content n) ph j
       else sp_mem (s\<lparr>sp_mem := m1\<rparr>) x)"
    "unat f1 \<le> unat f2" "k \<noteq> 0 \<longrightarrow> A + (Suc i + k - 1) * 4096 < unat f2" "unat f2 \<le> max (unat f1) (2 ^ 64 - 8192)"
    using Suc.IH[of "s\<lparr>sp_mem := m1\<rparr>" "Suc i" f1, OF pre] by blast
  have "m2 x = (let j = unat (x - of_nat A) in if i * 4096 \<le> j \<and> j < (i + Suc k) * 4096 then seg_byte (content n) ph j else sp_mem s x)" for x
    using p(2) q(2) by (auto simp: Let_def)
  moreover have "A + (i + Suc k - 1) * 4096 < unat f2" using p(4) q(3,4) by (cases k) auto
  moreover have "load_pages (rdf n) ph base (of_nat M) (of_nat F) i (Suc k) (of_nat (seg_done ph i)) ff s =
      Some (of_nat (seg_done ph (i + Suc k)), f2, s\<lparr>sp_mem := m2\<rparr>)"
    using p(1) q(1) by simp
  moreover have "unat f2 \<le> max (unat ff) (2 ^ 64 - 8192)" using p(5) q(5) by linarith
  ultimately show ?case using le_trans[OF p(3) q(3)] by blast
qed

lemma load_segment_fills:
  assumes n: "fok n" and seg: "seg_ok (content n) lb ph" and ok: "vm_ok (sp_vm s)"
    and clear: "\<And>a. seg_range lb ph a \<Longrightarrow> attrs (sp_vm s) a = {}"
  shows "\<exists>ff' s'. load_segment (rdf n) lb ph ff s = Some (ff', s') \<and> vm_ok (sp_vm s') \<and>
    (\<forall>a. attrs (sp_vm s') a = (if seg_range lb ph a then {(TANONYMOUS, PAGE_PRESENT OR PAGE_USER OR PAGE_WRITABLE)} else attrs (sp_vm s) a)) \<and>
    (\<forall>x. sp_mem s' x = (if seg_range lb ph (unat x) then seg_byte (content n) ph (unat x - seg_first lb ph) else sp_mem s x)) \<and>
    unat ff \<le> unat ff' \<and> seg_first lb ph + seg_pages ph * 4096 \<le> unat ff' + 4095 \<and> unat ff' \<le> max (unat ff) (2 ^ 64 - 8192)"
proof -
  let ?P = "seg_pages ph"
  define M where "M = unat (virt_addr ph) mod 4096"
  define A where "A = seg_first lb ph"
  define fl where "fl = PAGE_PRESENT OR PAGE_USER OR PAGE_WRITABLE"
  let ?base = "lb + virt_addr ph"
  note so = seg[unfolded seg_ok_def word_le_nat_alt word_less_nat_alt]
  have M: "virt_addr ph AND 0xFFF = of_nat M"
    by (rule unat_inverse) (simp add: M_def and_low_bits unat_of_nat_64)
  have AM: "A + M = unat lb + unat (virt_addr ph)" by (simp add: A_def seg_first_def M_def)
  then have base: "?base = of_nat (A + M)" by (simp only:) simp
  have Mlt: "M < 4096" by (simp add: M_def)
  have pages: "(mem_size ph + of_nat M + PAGE_SIZE - 1) div PAGE_SIZE = of_nat ?P"
    "(file_size ph + of_nat M + PAGE_SIZE - 1) div PAGE_SIZE = of_nat ((unat (file_size ph) + M + 4095) div 4096)"
  proof -
    have b: "unat (mem_size ph) + M + 4095 < 2 ^ 64" "unat (file_size ph) + M + 4095 < 2 ^ 64" using so Mlt by linarith+
    show "(mem_size ph + of_nat M + PAGE_SIZE - 1) div PAGE_SIZE = of_nat ?P"
      "(file_size ph + of_nat M + PAGE_SIZE - 1) div PAGE_SIZE = of_nat ((unat (file_size ph) + M + 4095) div 4096)"
      using of_nat_pages[OF b(1)] of_nat_pages[OF b(2)] by (simp_all add: seg_pages_def M_def)
  qed
  have top: "A + ?P * 4096 + 4096 < 2 ^ 64" "0 < ?P"
    using so Mlt AM by (auto simp: seg_pages_def M_def)
  have first: "align_down ?base PAGE_SIZE = of_nat A"
    unfolding base A_def by (rule align_down_of_nat[OF seg_first_page Mlt]) (use so AM in \<open>simp_all add: A_def\<close>)
  obtain v where v: "map_anonymous (of_nat A) (of_nat (?P * 4096)) fl False (sp_vm s) = Some v" "vm_ok v"
    "\<forall>a. attrs v a = (if seg_range lb ph a then {(TANONYMOUS, fl)} else attrs (sp_vm s) a)"
  proof -
    have u: "unat (of_nat A :: u64) = A" "unat (of_nat (?P * 4096) :: u64) = ?P * 4096" using top by (simp_all add: unat_of_nat_64 del: of_nat_mult)
    show thesis
      using map_anonymous_free[OF ok, of "of_nat (?P * 4096)" "of_nat A" fl False] clear top that
      unfolding u seg_range_def A_def[symmetric] by (auto simp: fl_def PAGE_PRESENT_def PAGE_USER_def PAGE_WRITABLE_def)
  qed
  let ?s = "s\<lparr>sp_vm := v\<rparr>"
  have mp: "mapped (sp_vm ?s) (of_nat (A + j))" if "j < ?P * 4096" for j
  proof -
    have "A + j < 2 ^ 64" using that top by linarith
    then have "attrs v (unat (of_nat (A + j) :: u64)) \<noteq> {}"
      using v(3) that by (simp add: unat_of_nat_64 seg_range_def A_def del: of_nat_add)
    then show ?thesis using mapped_attrs[OF v(2)] by simp
  qed
  obtain ff' m where l: "load_pages (rdf n) ph ?base (of_nat M) (of_nat ((unat (file_size ph) + M + 4095) div 4096)) 0 ?P (of_nat (seg_done ph 0)) ff ?s =
      Some (of_nat (seg_done ph (0 + ?P)), ff', ?s\<lparr>sp_mem := m\<rparr>)"
    "\<forall>x. m x = (let j = unat (x - of_nat A) in if 0 * 4096 \<le> j \<and> j < (0 + ?P) * 4096 then seg_byte (content n) ph j else sp_mem ?s x)"
    "unat ff \<le> unat ff'" "?P \<noteq> 0 \<longrightarrow> A + (0 + ?P - 1) * 4096 < unat ff'" "unat ff' \<le> max (unat ff) (2 ^ 64 - 8192)"
    using load_pages_fill[OF n seg A_def base[unfolded M_def], of ?s 0 ?P ff, folded M_def] mp by auto
  have x: "unat (x - of_nat A) < ?P * 4096 \<longleftrightarrow> seg_range lb ph (unat x)" "seg_range lb ph (unat x) \<Longrightarrow> unat (x - of_nat A) = unat x - A" for x :: uptr
    using sub_offset[of A "?P * 4096" x 0] top by (auto simp: seg_range_def A_def)
  have full: "seg_done ph ?P = unat (file_size ph)"
  proof -
    have "unat (mem_size ph) + M \<le> ?P * 4096" by (simp add: seg_pages_def M_def)
    then have "unat (file_size ph) \<le> ?P * 4096 - M" using so by linarith
    then show ?thesis by (simp add: seg_done_def M_def)
  qed
  have "load_segment (rdf n) lb ph ff s = Some (ff', ?s\<lparr>sp_mem := m\<rparr>)"
  proof -
    have u: "unat (of_nat ?P :: u64) = ?P" using top(1) by (simp add: unat_of_nat_64)
    have len: "(of_nat ?P :: u64) * PAGE_SIZE = of_nat (?P * 4096)" by (simp add: PAGE_SIZE_def)
    have z: "of_nat (seg_done ph 0) = (0 :: u64)" by (simp add: seg_done_def)
    have ms: "map_space (of_nat A) (of_nat (?P * 4096)) (PAGE_PRESENT OR PAGE_USER OR PAGE_WRITABLE) s = Some ?s"
      using v(1) by (simp add: map_space_def fl_def)
    show ?thesis
      using l(1) unfolding load_segment_def Let_def M pages first len ms Option.bind.bind_lunit u z by (simp add: full)
  qed
  moreover have "m x = (if seg_range lb ph (unat x) then seg_byte (content n) ph (unat x - A) else sp_mem s x)" for x
    using l(2) x[of x] by (simp add: Let_def)
  moreover have "seg_first lb ph + ?P * 4096 \<le> unat ff' + 4095"
    using l(4) top(2) by (cases ?P) (auto simp: A_def)
  ultimately show ?thesis using v l(3,5) unfolding A_def fl_def by (intro exI[of _ ff'] exI[of _ "?s\<lparr>sp_mem := m\<rparr>"]) simp
qed

lemma read_interp:
  assumes "fok n" "length (content n) < 2 ^ 63" "interp_ok (content n) ph"
  shows "\<exists>p. interp_path (rdf n) ph = Some p"
  using read_piece[OF assms(1) _ assms(2), of "unat (ph_offset ph)" "unat (file_size ph)"] assms(3)
  by (simp add: interp_path_def interp_ok_def)

lemma load_phs_fill:
  assumes n: "fok n" and c: "length (content n) < 2 ^ 63" and lb: "list_all (seg_ok (content n) lb) (seg_loads phs)"
    and ap: "sorted_wrt (seg_apart lb) (seg_loads phs)"
    and ip: "list_all (interp_ok (content n)) (filter (\<lambda>ph. ph_type ph = PT_INTERP) phs)"
    and tab: "map (read_ph (rdf n) h) is = map Some phs" and ok: "vm_ok (sp_vm (l_space l))"
    and clear: "\<And>a ph. ph \<in> set (seg_loads phs) \<Longrightarrow> seg_range lb ph a \<Longrightarrow> attrs (sp_vm (l_space l)) a = {}"
  shows "\<exists>l'. load_phs (rdf n) h lb w is l = Some l' \<and> vm_ok (sp_vm (l_space l')) \<and>
    (\<forall>a. attrs (sp_vm (l_space l')) a = (if \<exists>ph\<in>set (seg_loads phs). seg_range lb ph a
       then {(TANONYMOUS, PAGE_PRESENT OR PAGE_USER OR PAGE_WRITABLE)} else attrs (sp_vm (l_space l)) a)) \<and>
    (\<forall>ph\<in>set (seg_loads phs). \<forall>x. seg_range lb ph (unat x) \<longrightarrow>
       sp_mem (l_space l') x = seg_byte (content n) ph (unat x - seg_first lb ph)) \<and>
    (\<forall>x. (\<forall>ph\<in>set (seg_loads phs). \<not> seg_range lb ph (unat x)) \<longrightarrow> sp_mem (l_space l') x = sp_mem (l_space l) x) \<and>
    unat (l_first_free l) \<le> unat (l_first_free l') \<and>
    (\<forall>ph\<in>set (seg_loads phs). seg_first lb ph + seg_pages ph * 4096 \<le> unat (l_first_free l') + 4095) \<and>
    unat (l_first_free l') \<le> max (unat (l_first_free l)) (2 ^ 64 - 8192)"
  using lb ap ip tab ok clear
proof (induction phs arbitrary: "is" l)
  case Nil
  then show ?case by (intro exI[of _ l]) (auto simp: seg_loads_def)
next
  case (Cons ph phs)
  obtain i is' where i: "is = i # is'" "read_ph (rdf n) h i = Some ph" "map (read_ph (rdf n) h) is' = map Some phs"
    using Cons.prems(4) by (cases "is") auto
  show ?case
  proof (cases "ph_type ph = PT_LOAD")
    case False
    then have eq: "seg_loads (ph # phs) = seg_loads phs" by (simp add: seg_loads_def)
    have "\<exists>l1. load_ph (rdf n) lb w ph l = Some l1 \<and> l_space l1 = l_space l \<and> l_first_free l1 = l_first_free l"
    proof (cases "ph_type ph = PT_INTERP \<and> ph_type ph \<noteq> PT_PHDR \<and> w")
      case True
      then obtain p where "interp_path (rdf n) ph = Some p" using read_interp[OF n c] Cons.prems(3) by auto
      then show ?thesis using True False by (simp add: load_ph_def)
    next
      case h: False
      then show ?thesis using False by (auto simp: load_ph_def)
    qed
    then obtain l1 where l1: "load_ph (rdf n) lb w ph l = Some l1" "l_space l1 = l_space l" "l_first_free l1 = l_first_free l" by blast
    have ip': "list_all (interp_ok (content n)) (filter (\<lambda>ph. ph_type ph = PT_INTERP) phs)"
      using Cons.prems(3) by (auto split: if_splits)
    have "load_phs (rdf n) h lb w is l = load_phs (rdf n) h lb w is' l1" using i l1 by simp
    then show ?thesis
      using Cons.IH[OF Cons.prems(1,2)[unfolded eq] ip' i(3), of l1] Cons.prems(5,6) unfolding eq l1 by auto
  next
    case True
    then have eq: "seg_loads (ph # phs) = ph # seg_loads phs" by (simp add: seg_loads_def)
    have ap: "\<not> (seg_range lb ph a \<and> seg_range lb q a)" if "q \<in> set (seg_loads phs)" for q a
      using Cons.prems(2) that unfolding eq by (auto simp: seg_apart_def seg_range_def)
    have so: "seg_ok (content n) lb ph" and free: "\<And>a. seg_range lb ph a \<Longrightarrow> attrs (sp_vm (l_space l)) a = {}"
      using Cons.prems(1) Cons.prems(6)[of ph] unfolding eq by simp_all
    obtain ff s where s: "load_segment (rdf n) lb ph (l_first_free l) (l_space l) = Some (ff, s)" "vm_ok (sp_vm s)"
      "\<forall>a. attrs (sp_vm s) a = (if seg_range lb ph a then {(TANONYMOUS, PAGE_PRESENT OR PAGE_USER OR PAGE_WRITABLE)} else attrs (sp_vm (l_space l)) a)"
      "\<forall>x. sp_mem s x = (if seg_range lb ph (unat x) then seg_byte (content n) ph (unat x - seg_first lb ph) else sp_mem (l_space l) x)"
      "unat (l_first_free l) \<le> unat ff" "seg_first lb ph + seg_pages ph * 4096 \<le> unat ff + 4095" "unat ff \<le> max (unat (l_first_free l)) (2 ^ 64 - 8192)"
      using load_segment_fills[OF n so Cons.prems(5), of "l_first_free l"] free by blast
    let ?l = "l\<lparr>l_space := s, l_first_free := ff, l_virt_base := min (l_virt_base l) (lb + virt_addr ph)\<rparr>"
    have "load_phs (rdf n) h lb w is l = load_phs (rdf n) h lb w is' ?l" using i s(1) True by (simp add: load_ph_def)
    moreover have ip': "list_all (interp_ok (content n)) (filter (\<lambda>ph. ph_type ph = PT_INTERP) phs)"
      and lb': "list_all (seg_ok (content n) lb) (seg_loads phs)" and ap': "sorted_wrt (seg_apart lb) (seg_loads phs)"
      using Cons.prems(1,2,3) unfolding eq by (auto split: if_splits)
    moreover have "attrs (sp_vm (l_space ?l)) a = {}" if "q \<in> set (seg_loads phs)" "seg_range lb q a" for q a
    proof -
      have "attrs (sp_vm (l_space l)) a = {}" using Cons.prems(6)[of q a] that unfolding eq by simp
      then show ?thesis using s(3) ap[OF that(1), of a] that(2) by simp
    qed
    then obtain l' where r: "load_phs (rdf n) h lb w is' ?l = Some l'" "vm_ok (sp_vm (l_space l'))"
      "\<forall>a. attrs (sp_vm (l_space l')) a = (if \<exists>ph\<in>set (seg_loads phs). seg_range lb ph a
         then {(TANONYMOUS, PAGE_PRESENT OR PAGE_USER OR PAGE_WRITABLE)} else attrs (sp_vm s) a)"
      "\<forall>ph\<in>set (seg_loads phs). \<forall>x. seg_range lb ph (unat x) \<longrightarrow>
         sp_mem (l_space l') x = seg_byte (content n) ph (unat x - seg_first lb ph)"
      "\<forall>x. (\<forall>ph\<in>set (seg_loads phs). \<not> seg_range lb ph (unat x)) \<longrightarrow> sp_mem (l_space l') x = sp_mem s x"
      "unat ff \<le> unat (l_first_free l')"
      "\<forall>ph\<in>set (seg_loads phs). seg_first lb ph + seg_pages ph * 4096 \<le> unat (l_first_free l') + 4095"
      "unat (l_first_free l') \<le> max (unat ff) (2 ^ 64 - 8192)"
      using Cons.IH[OF lb' ap' ip' i(3), of ?l] s(2) by auto
    ultimately have run: "load_phs (rdf n) h lb w is l = Some l'" by simp
    have m: "sp_mem (l_space l') x = seg_byte (content n) q (unat x - seg_first lb q)"
      if q: "q = ph \<or> q \<in> set (seg_loads phs)" "seg_range lb q (unat x)" for q x
    proof (cases "q \<in> set (seg_loads phs)")
      case False
      then have "\<forall>p\<in>set (seg_loads phs). \<not> seg_range lb p (unat x)" using q ap by blast
      then show ?thesis using r(5) s(4) q False by simp
    qed (use r(4) q in blast)
    have k: "sp_mem (l_space l') x = sp_mem (l_space l) x"
      if "\<not> seg_range lb ph (unat x)" "\<forall>p\<in>set (seg_loads phs). \<not> seg_range lb p (unat x)" for x
      using r(5) s(4) that by simp
    have "seg_first lb ph + seg_pages ph * 4096 \<le> unat (l_first_free l') + 4095"
      "unat (l_first_free l) \<le> unat (l_first_free l')" "unat (l_first_free l') \<le> max (unat (l_first_free l)) (2 ^ 64 - 8192)"
      using r(6,8) s(5,6,7) by linarith+
    moreover have "attrs (sp_vm (l_space l')) a = (if \<exists>p\<in>set (ph # seg_loads phs). seg_range lb p a
         then {(TANONYMOUS, PAGE_PRESENT OR PAGE_USER OR PAGE_WRITABLE)} else attrs (sp_vm (l_space l)) a)" for a
      using r(3) s(3) by simp
    ultimately show ?thesis unfolding eq using run r(2,7) m k by (intro exI[of _ l']) simp
  qed
qed

lemma read_tables:
  assumes n: "fok n" and wf: "elf_wf (content n) lb"
  shows "read_struct (rdf n) 64 0 = Some (take 64 (content n))"
    and "map (read_ph (rdf n) (elf_head (content n))) [0..<unat (ph_count (elf_head (content n)))] = map Some (elf_phs (content n))"
proof -
  let ?c = "content n" and ?h = "elf_head (content n)"
  have w: "64 \<le> length ?c" "length ?c < 2 ^ 63"
    "unat (ph_table_offset ?h) + (unat (ph_count ?h) - 1) * unat (ph_entry_size ?h) + 56 \<le> length ?c" using wf by (auto simp: elf_wf_def)
  show "read_struct (rdf n) 64 0 = Some (take 64 ?c)"
    using read_piece[OF n, of 0 64] w by (simp add: read_struct_def)
  have "read_ph (rdf n) ?h i = Some (parse_program_header (take 56 (drop (unat (ph_table_offset ?h) + i * unat (ph_entry_size ?h)) ?c)))"
    if i: "i < unat (ph_count ?h)" for i
  proof -
    let ?o = "unat (ph_table_offset ?h) + i * unat (ph_entry_size ?h)"
    have o: "?o + 56 \<le> length ?c" using w(3) i mult_le_mono1[of i "unat (ph_count ?h) - 1" "unat (ph_entry_size ?h)"] by linarith
    have "ph_table_offset ?h + of_nat i * ucast (ph_entry_size ?h) = of_nat ?o" by simp
    then show ?thesis using read_piece[OF n o w(2)] o by (simp add: read_ph_def read_struct_def del: of_nat_add of_nat_mult)
  qed
  then show "map (read_ph (rdf n) ?h) [0..<unat (ph_count ?h)] = map Some (elf_phs ?c)"
    by (simp add: elf_phs_def Let_def)
qed

lemma elf_load_fills:
  assumes n: "fok n" and wf: "elf_wf (content n) lb" and ok: "vm_ok (sp_vm (l_space l))" and ff: "unat (l_first_free l) \<le> 2 ^ 64 - 8192"
    and clear: "\<And>a ph. ph \<in> set (seg_loads (elf_phs (content n))) \<Longrightarrow> seg_range (elf_base (content n) lb) ph a \<Longrightarrow> attrs (sp_vm (l_space l)) a = {}"
  shows "\<exists>l'. elf_load (rdf n) lb w l = Some (Inr (), l') \<and>
    at_entry (l_aux l') = elf_base (content n) lb + entry_addr (elf_head (content n)) \<and>
    (\<forall>ph\<in>set (seg_loads (elf_phs (content n))). segment_loaded (content n) (elf_base (content n) lb) ph l') \<and>
    (\<forall>x. (\<forall>ph\<in>set (seg_loads (elf_phs (content n))). \<not> seg_range (elf_base (content n) lb) ph (unat x)) \<longrightarrow>
       sp_mem (l_space l') x = sp_mem (l_space l) x)"
proof -
  let ?c = "content n" and ?b = "elf_base (content n) lb" and ?h = "elf_head (content n)"
  let ?S = "seg_loads (elf_phs ?c)"
  let ?l = "l\<lparr>l_virt_base := - 1\<rparr>"
  have w: "length ?c < 2 ^ 63" "list_all (seg_ok ?c ?b) ?S" "sorted_wrt (seg_apart ?b) ?S"
    "list_all (interp_ok ?c) (filter (\<lambda>ph. ph_type ph = PT_INTERP) (elf_phs ?c))" "header_ok ?h"
    using wf by (auto simp: elf_wf_def)
  obtain l1 where r: "load_phs (rdf n) ?h ?b w [0..<unat (ph_count ?h)] ?l = Some l1" "vm_ok (sp_vm (l_space l1))"
    "\<forall>a. attrs (sp_vm (l_space l1)) a = (if \<exists>ph\<in>set ?S. seg_range ?b ph a
       then {(TANONYMOUS, PAGE_PRESENT OR PAGE_USER OR PAGE_WRITABLE)} else attrs (sp_vm (l_space ?l)) a)"
    "\<forall>ph\<in>set ?S. \<forall>x. seg_range ?b ph (unat x) \<longrightarrow> sp_mem (l_space l1) x = seg_byte ?c ph (unat x - seg_first ?b ph)"
    "\<forall>x. (\<forall>ph\<in>set ?S. \<not> seg_range ?b ph (unat x)) \<longrightarrow> sp_mem (l_space l1) x = sp_mem (l_space ?l) x"
    "\<forall>ph\<in>set ?S. seg_first ?b ph + seg_pages ph * 4096 \<le> unat (l_first_free l1) + 4095"
    "unat (l_first_free l1) \<le> max (unat (l_first_free ?l)) (2 ^ 64 - 8192)"
    using load_phs_fill[OF n w(1-4) read_tables(2)[OF n wf], of ?l w] ok clear by auto
  have up: "unat (align_up (l_first_free l1) PAGE_SIZE) = (unat (l_first_free l1) + 4095) div 4096 * 4096"
    using r(7) ff unat_align_up[of PAGE_SIZE "l_first_free l1"] by (simp add: PAGE_SIZE_def)
  let ?l' = "l1\<lparr>l_first_free := align_up (l_first_free l1) PAGE_SIZE,
    l_aux := \<lparr>at_entry = ?b + entry_addr ?h, at_phdr = (if at_phdr (l_aux l1) = 0 then l_virt_base l1 + ph_table_offset ?h else at_phdr (l_aux l1)),
      at_phent = ucast (ph_entry_size ?h), at_phnum = ucast (ph_count ?h)\<rparr>\<rparr>"
  have "elf_load (rdf n) lb w l = Some (Inr (), ?l')"
    using r(1) w(5) by (simp add: elf_load_def read_tables(1)[OF n wf] Let_def elf_head_def[symmetric] elf_base_def[symmetric])
  moreover have "segment_loaded ?c ?b ph ?l'" if "ph \<in> set ?S" for ph
    unfolding segment_loaded_def Let_def
  proof (intro allI impI)
    fix k assume k: "k < unat (mem_size ph)"
    let ?M = "unat (virt_addr ph) mod 4096" and ?A = "seg_first ?b ph" and ?x = "?b + virt_addr ph + of_nat k"
    have so: "seg_ok ?c ?b ph" using w(2) that by (simp add: list_all_iff)
    note so' = so[unfolded seg_ok_def]
    have ux: "unat ?x = ?A + (?M + k)"
    proof -
      have "unat ?b + unat (virt_addr ph) + k < 2 ^ 64" using so' k by linarith
      moreover have "?x = of_nat (unat ?b + unat (virt_addr ph) + k)" by simp
      moreover have "?A + ?M = unat ?b + unat (virt_addr ph)" by (simp add: seg_first_def)
      ultimately show ?thesis by (simp only: unat_of_nat_64 add.assoc)
    qed
    have "unat (mem_size ph) + ?M \<le> seg_pages ph * 4096" by (simp add: seg_pages_def)
    then have rg: "seg_range ?b ph (unat ?x)" unfolding ux seg_range_def using k by linarith
    have "mapped (sp_vm (l_space l1)) ?x" by (rule mapped_attrs[OF r(2)]) (use r(3) rg that in auto)
    moreover have "sp_mem (l_space l1) ?x = seg_byte ?c ph (?M + k)" using r(4) that rg unfolding ux by (metis add_diff_cancel_left' ux)
    moreover have "?A + seg_pages ph * 4096 \<le> (unat (l_first_free l1) + 4095) div 4096 * 4096"
    proof -
      obtain q where q: "?A = q * 4096" using seg_first_page[of ?b ph] so' by (metis mod_0_imp_dvd dvd_def mult.commute)
      have "(q + seg_pages ph) * 4096 \<le> unat (l_first_free l1) + 4095" using r(6) that q by (metis add_mult_distrib)
      then have "q + seg_pages ph \<le> (unat (l_first_free l1) + 4095) div 4096" by (simp add: less_eq_div_iff_mult_less_eq)
      then show ?thesis unfolding q by (metis add_mult_distrib mult_le_mono1)
    qed
    then have "?x < align_up (l_first_free l1) PAGE_SIZE" using rg up by (simp add: word_less_nat_alt seg_range_def)
    ultimately show "mapped (sp_vm (l_space ?l')) ?x \<and> ?x < l_first_free ?l' \<and>
        sp_mem (l_space ?l') ?x = (if k < unat (file_size ph) then ?c ! (unat (ph_offset ph) + k) else 0)"
      by (simp add: seg_byte_def)
  qed
  ultimately show ?thesis using r(5) by (intro exI[of _ ?l']) simp
qed

end

interpretation tmpfs_file: readable tnode_ok tmpfs_read tcontent
  by unfold_locales (rule tmpfs_read_law)

section \<open>Executables are loaded exactly\<close>

text \<open>
  C12: Loading a well-formed executable from \<^verbatim>\<open>TmpFS\<close> into addresses that are free succeeds, whatever the
  alignment of its segments: afterwards every segment is in memory as the file says (the bytes of the file,
  then zeroes up to its size in memory), all of it usable and below the address reported as free, no
  other byte of the address space has changed, and the entry point is the one of the header.
\<close>

theorem elf_load_exact:
  assumes "tnode_ok f" "elf_wf (tcontent f) lb" "vm_ok (sp_vm (l_space l))" "unat (l_first_free l) \<le> 2 ^ 64 - 8192"
    and "\<And>a ph. ph \<in> set (seg_loads (elf_phs (tcontent f))) \<Longrightarrow> seg_range (elf_base (tcontent f) lb) ph a \<Longrightarrow> attrs (sp_vm (l_space l)) a = {}"
  shows "\<exists>l'. elf_load (tmpfs_read f) lb w l = Some (Inr (), l') \<and>
    at_entry (l_aux l') = elf_base (tcontent f) lb + entry_addr (elf_head (tcontent f)) \<and>
    (\<forall>ph\<in>set (seg_loads (elf_phs (tcontent f))). segment_loaded (tcontent f) (elf_base (tcontent f) lb) ph l') \<and>
    (\<forall>x. (\<forall>ph\<in>set (seg_loads (elf_phs (tcontent f))). \<not> seg_range (elf_base (tcontent f) lb) ph (unat x)) \<longrightarrow>
       sp_mem (l_space l') x = sp_mem (l_space l) x)"
  using tmpfs_file.elf_load_fills[OF assms(1-4)] assms(5) by blast

text \<open>A program of one segment: eight bytes of the file at \<^verbatim>\<open>0x400078\<close> and eight zeroes.\<close>

definition example_elf :: "u8 list" where
  "example_elf =
     [0x7F, 0x45, 0x4C, 0x46, 2, 1, 1, 0] @ replicate 8 0 @ [2, 0, 62, 0, 1, 0, 0, 0] @ [0x78, 0, 0x40, 0, 0, 0, 0, 0] @
     [0x40, 0, 0, 0, 0, 0, 0, 0] @ replicate 8 0 @ [0, 0, 0, 0, 0x40, 0, 0x38, 0] @ [1, 0, 0, 0, 0, 0, 0, 0] @
     [1, 0, 0, 0, 5, 0, 0, 0] @ [0x78, 0, 0, 0, 0, 0, 0, 0] @ [0x78, 0, 0x40, 0, 0, 0, 0, 0] @ [0x78, 0, 0x40, 0, 0, 0, 0, 0] @
     [8, 0, 0, 0, 0, 0, 0, 0] @ [16, 0, 0, 0, 0, 0, 0, 0] @ [0, 0x10, 0, 0, 0, 0, 0, 0] @ replicate 8 0x90"

definition example_elf_node :: tmpfs_node where
  "example_elf_node = \<lparr>tnode_type = REGULAR, storage = example_elf @ replicate 128 0, tsize = 128, capacity = 256\<rparr>"

definition example_loader :: loader where
  "example_loader = \<lparr>l_space = \<lparr>sp_vm = pagemap empty_space, sp_mem = (\<lambda>_. 7)\<rparr>,
     l_aux = \<lparr>at_entry = 0, at_phdr = 0, at_phent = 0, at_phnum = 0\<rparr>, l_first_free = 0, l_path = None, l_virt_base = 0\<rparr>"

lemma example_elf_parsed:
  "length example_elf = 128" "header_ok (elf_head example_elf)" "eh_type (elf_head example_elf) = 2" "ph_count (elf_head example_elf) = 1"
  "ph_table_offset (elf_head example_elf) = 64" "ph_entry_size (elf_head example_elf) = 56" "entry_addr (elf_head example_elf) = 0x400078"
  "parse_program_header (take 56 (drop 64 example_elf)) =
     \<lparr>ph_type = 1, ph_offset = 120, virt_addr = 0x400078, file_size = 8, mem_size = 16\<rparr>"
  "example_elf ! 120 = 0x90"
  by code_simp+

theorem elf_load_exact_witness:
  "\<exists>l'. elf_load (tmpfs_read example_elf_node) 0x560000000000 True example_loader = Some (Inr (), l') \<and>
     at_entry (l_aux l') = 0x400078 \<and> sp_mem (l_space l') 0x400078 = 0x90 \<and> sp_mem (l_space l') 0x400080 = 0 \<and>
     sp_mem (l_space l') 0x500000 = 7"
proof -
  let ?c = "tcontent example_elf_node" and ?v = "pagemap empty_space"
  let ?ph = "\<lparr>ph_type = 1, ph_offset = 120, virt_addr = 0x400078, file_size = 8, mem_size = 16\<rparr> :: program_header"
  note ex = example_elf_parsed
  have c: "?c = example_elf" using ex(1) by (simp add: tcontent_def example_elf_node_def)
  have t: "tnode_ok example_elf_node"
    using ex(1) by (auto simp: tnode_ok_def example_elf_node_def cap_ok_def intro!: exI[of _ 4])
  have phs: "elf_phs ?c = [?ph]" unfolding c elf_phs_def Let_def ex(4,5,6) using ex(8) by simp
  have base: "elf_base ?c 0x560000000000 = 0" using ex(3) by (simp add: c elf_base_def ET_EXEC_def)
  have S: "seg_loads (elf_phs ?c) = [?ph]" by (simp add: phs seg_loads_def PT_LOAD_def)
  have P: "seg_pages ?ph = 1" "seg_first 0 ?ph = 0x400000" by (simp_all add: seg_pages_def seg_first_def)
  have wf: "elf_wf ?c 0x560000000000"
    unfolding elf_wf_def base S using ex(1,2,4,5,6) by (simp add: c phs[unfolded c] seg_ok_def PT_INTERP_def)
  have v: "vm_ok ?v" "attrs ?v a = {}" for a by (simp_all add: vm_ok_def empty_space_def rset_def attrs_def)
  obtain l' where l': "elf_load (tmpfs_read example_elf_node) 0x560000000000 True example_loader = Some (Inr (), l')"
    "at_entry (l_aux l') = 0 + entry_addr (elf_head ?c)" "segment_loaded ?c 0 ?ph l'"
    "\<forall>x. \<not> seg_range 0 ?ph (unat x) \<longrightarrow> sp_mem (l_space l') x = 7"
    using elf_load_exact[OF t wf, of example_loader True] v unfolding base S by (auto simp: example_loader_def)
  have "sp_mem (l_space l') 0x400078 = 0x90" "sp_mem (l_space l') 0x400080 = 0"
    using l'(3)[unfolded segment_loaded_def Let_def, rule_format, of 0] l'(3)[unfolded segment_loaded_def Let_def, rule_format, of 8] ex(9)
    by (simp_all add: c)
  moreover have "sp_mem (l_space l') 0x500000 = 7" using l'(4) by (simp add: seg_range_def P)
  ultimately show ?thesis using l'(1,2) ex(7) c by simp
qed

text \<open>
  An executable whose segment is larger in the file than in memory stops the kernel: the loop runs over the pages in
  memory only, and the \<^verbatim>\<open>ASSERT\<close> behind it fails.
\<close>

lemma large_file_part_panics:
  assumes "file_size ph \<noteq> 0" "virt_addr ph AND 0xFFF = 0" "mem_size ph = 0"
  shows "load_segment rdf lb ph ff s = None"
  using assms by (simp add: load_segment_def PAGE_SIZE_def Let_def split: bind_splits)

end
