(* ===== verification/Userland_Exec.thy ===== *)
theory Userland_Exec
  imports Userland_Elf Userland_Ids Userland_Signal Vfs_Names
begin

text \<open>
  Replacing the program of a process: \<^verbatim>\<open>user_exec\<close> of \<^verbatim>\<open>sched/sched.cpp\<close>, with the first line of scripts, the
  program loader (\<open>Userland_Elf\<close>) and the stack the new program starts on. C strings are byte lists without
  their terminator. A fresh address space reads as zero everywhere, since its anonymous pages are zeroed when
  they are first touched (\<open>Mem_Ranges\<close>).
\<close>

text \<open>\<^verbatim>\<open>klib::strncpy\<close> of a string into an array.\<close>

definition strncpy :: "u8 list \<Rightarrow> u8 list \<Rightarrow> nat \<Rightarrow> u8 list" where
  "strncpy dst src n = take n (src @ replicate n 0) @ drop n dst"

definition c_string :: "u8 list \<Rightarrow> u8 list" where
  "c_string buf = takeWhile (\<lambda>b. b \<noteq> 0) buf"

section \<open>The initial stack\<close>

definition le64_bytes :: "u64 \<Rightarrow> u8 list" where
  "le64_bytes w = map (\<lambda>i. ucast (drop_bit (8 * i) w)) [0..<8]"

definition store64 :: "uptr \<Rightarrow> u64 \<Rightarrow> space \<Rightarrow> space option" where
  "store64 a w s = store a (le64_bytes w) s"

text \<open>Lowering the stack pointer for a string and copying it there without its terminator.\<close>

definition push_str :: "u8 list \<Rightarrow> uptr \<times> space \<Rightarrow> (uptr \<times> space) option" where
  "push_str bs = (\<lambda>(sp, s). do { let sp = sp - of_nat (length bs) - 1; s \<leftarrow> store sp bs s; Some (sp, s) })"

fun push_strs :: "u8 list list \<Rightarrow> uptr \<times> space \<Rightarrow> (uptr \<times> space) option" where
  "push_strs [] x = Some x"
| "push_strs (bs # bss) x = do { x \<leftarrow> push_strs bss x; push_str bs x }"

definition push64 :: "u64 \<Rightarrow> uptr \<times> space \<Rightarrow> (uptr \<times> space) option" where
  "push64 w = (\<lambda>(sp, s). do { let sp = sp - 8; s \<leftarrow> store64 sp w s; Some (sp, s) })"

definition push_pair :: "u64 \<Rightarrow> u64 \<Rightarrow> uptr \<times> space \<Rightarrow> (uptr \<times> space) option" where
  "push_pair k v = (\<lambda>(sp, s). do { let sp = sp - 16; s \<leftarrow> store64 sp k s; s \<leftarrow> store64 (sp + 8) v s; Some (sp, s) })"

fun push_pairs :: "(u64 \<times> u64) list \<Rightarrow> uptr \<times> space \<Rightarrow> (uptr \<times> space) option" where
  "push_pairs [] x = Some x"
| "push_pairs ((k, v) # kvs) x = do { x \<leftarrow> push_pairs kvs x; push_pair k v x }"

text \<open>The loop that fills a pointer array: the strings lie one behind the other from \<open>cur\<close> on.\<close>

fun store_ptrs :: "uptr \<Rightarrow> uptr \<Rightarrow> u8 list list \<Rightarrow> space \<Rightarrow> space option" where
  "store_ptrs a cur [] s = Some s"
| "store_ptrs a cur (bs # bss) s = do { s \<leftarrow> store64 a cur s; store_ptrs (a + 8) (cur + of_nat (length bs) + 1) bss s }"

definition push_array :: "uptr \<Rightarrow> u8 list list \<Rightarrow> uptr \<times> space \<Rightarrow> (uptr \<times> space) option" where
  "push_array strs bss x = do {
     (sp, s) \<leftarrow> push64 0 x;
     let sp = sp - 8 * of_nat (length bss);
     s \<leftarrow> store_ptrs sp strs bss s;
     Some (sp, s) }"

text \<open>The auxiliary vector, from the lowest address up.\<close>

definition aux_vector :: "auxval \<Rightarrow> cred \<Rightarrow> uptr \<Rightarrow> uptr \<Rightarrow> (u64 \<times> u64) list" where
  "aux_vector aux c random_data execfn =
     [(6, PAGE_SIZE), (3, at_phdr aux), (4, at_phent aux), (5, at_phnum aux), (8, 0), (9, at_entry aux),
      (11, ucast (rid (uids c))), (12, ucast (eid (uids c))), (13, ucast (rid (gids c))), (14, ucast (eid (gids c))),
      (23, 0), (25, random_data), (31, execfn)]"

record exec_frame =
  xf_sp :: uptr
  xf_env_start :: uptr
  xf_env_end :: uptr
  xf_arg_start :: uptr
  xf_arg_end :: uptr

definition exec_stack ::
  "uptr \<Rightarrow> u8 list \<Rightarrow> u8 list list \<Rightarrow> u8 list list \<Rightarrow> u8 list list \<Rightarrow> auxval \<Rightarrow> cred \<Rightarrow> space \<Rightarrow> (exec_frame \<times> space) option" where
  "exec_stack user_stack path interp argv envp aux c s = do {
     let random_data = user_stack - 16;
     s \<leftarrow> store random_data (replicate 16 0xAF) s;
     (execfn, s) \<leftarrow> push_str path (random_data, s);
     (env_start, s) \<leftarrow> push_strs envp (execfn, s);
     (arg_start, s) \<leftarrow> push_strs (interp @ argv) (env_start, s);
     let sp = align_down arg_start 16;
     let sp = (if odd (length argv + length envp + length interp + 1) then sp - 8 else sp);
     x \<leftarrow> push64 0 (sp, s);
     x \<leftarrow> push64 0 x;
     x \<leftarrow> push_pairs (aux_vector aux c random_data execfn) x;
     x \<leftarrow> push_array env_start envp x;
     x \<leftarrow> push_array arg_start (interp @ argv) x;
     (sp, s) \<leftarrow> push64 (of_nat (length argv + length interp)) x;
     Some (\<lparr>xf_sp = sp, xf_env_start = env_start, xf_env_end = execfn, xf_arg_start = arg_start, xf_arg_end = env_start\<rparr>, s) }"

section \<open>Scripts\<close>

text \<open>The first line of a script, in a buffer of 256 bytes: the path of its interpreter and the argument.\<close>

definition shebang :: "u8 list \<Rightarrow> (u8 list \<times> u8 list) option" where
  "shebang buf =
     (let line = takeWhile (\<lambda>b. b \<noteq> 10 \<and> b \<noteq> 0) buf
      in if 10 \<notin> set buf \<or> take 2 line \<noteq> [35, 33] then None
         else let rest = dropWhile (\<lambda>b. b = 32) (drop 2 line)
              in if rest = [] then None
                 else Some (takeWhile (\<lambda>b. b \<noteq> 32) rest, takeWhile (\<lambda>b. b \<noteq> 32) (dropWhile (\<lambda>b. b \<noteq> 32) rest)))"

section \<open>exec\<close>

definition user_stack_size :: usize where "user_stack_size = 0x800000"
definition user_binary_base :: uptr where "user_binary_base = 0x560000000000"
definition user_linker_base :: uptr where "user_linker_base = 0x7e0000000000"
definition user_mmap_base :: uptr where "user_mmap_base = 0x7f0000000000"

record uproc =
  u_pid :: nat
  u_vfs :: vfs
  u_cwd :: nat
  u_space :: space
  u_anon_base :: uptr
  u_brk :: uptr
  u_name :: "u8 list"
  u_exe :: nat
  u_regs :: regs
  u_frame :: exec_frame
  u_fds :: fd_state
  u_actions :: "int \<Rightarrow> sigaction"
  u_alt :: altstack
  u_performed_execve :: bool
  u_cred :: cred

definition new_space :: "space \<Rightarrow> space" where
  "new_space s = \<lparr>sp_vm = (sp_vm s)\<lparr>range_list := [], ptes := (\<lambda>_. 0), cached_range_lookup := None\<rparr>, sp_mem = (\<lambda>_. 0)\<rparr>"

definition new_loader :: "space \<Rightarrow> uptr \<Rightarrow> loader" where
  "new_loader s first_free = \<lparr>l_space = s, l_aux = \<lparr>at_entry = 0, at_phdr = 0, at_phent = 0, at_phnum = 0\<rparr>, l_first_free = first_free,
     l_path = None, l_virt_base = 0\<rparr>"

definition exec_lookup :: "u8 list \<Rightarrow> bool \<Rightarrow> uproc \<Rightarrow> (nat \<times> uproc) option" where
  "exec_lookup path from_cwd p = do {
     (e, v) \<leftarrow> path_to_entry path (if from_cwd \<or> take 1 path \<noteq> [47] then Some (u_cwd p) else None) True (u_vfs p);
     Some (e, p\<lparr>u_vfs := v\<rparr>) }"

definition file_read :: "uproc \<Rightarrow> nat \<Rightarrow> read_fun" where
  "file_read p n = tmpfs_read (ndata (nodes (u_vfs p) n))"

text \<open>
  The program, or the interpreter of a script: the entry that is executed, the strings put in front of the
  arguments, and the loader's result.
\<close>

definition exec_load :: "nat \<Rightarrow> nat \<Rightarrow> loader \<Rightarrow> uproc \<Rightarrow> ((nat \<times> u8 list list \<times> loader) res \<times> uproc) option" where
  "exec_load e n l p = do {
     (r, l) \<leftarrow> elf_load (file_read p n) user_binary_base True l;
     case r of
       Inr _ \<Rightarrow> Some (Inr (e, [], l), p)
     | Inl er \<Rightarrow> do {
         buf \<leftarrow> read_struct (file_read p n) 256 0;
         case shebang buf of
           None \<Rightarrow> Some (Inl er, p)
         | Some (ip, ia) \<Rightarrow> do {
             (e, p) \<leftarrow> exec_lookup ip True p;
             case evnode (entries (u_vfs p) e) of
               None \<Rightarrow> Some (Inl ENOENT, p)
             | Some n \<Rightarrow>
                 if type_of (u_vfs p) n \<noteq> REGULAR then Some (Inl EACCES, p)
                 else do {
                   (r, l) \<leftarrow> elf_load (file_read p n) user_binary_base True l;
                   Some (case r of Inl er \<Rightarrow> Inl er | Inr _ \<Rightarrow> Inr (e, ip # (if ia = [] then [] else [ia]), l), p) } } } }"

text \<open>The dynamic linker, when the program asks for one: the address to start at.\<close>

definition exec_linker :: "loader \<Rightarrow> uproc \<Rightarrow> ((uptr \<times> space) res \<times> uproc) option" where
  "exec_linker l p =
     (case l_path l of
        None \<Rightarrow> Some (Inr (at_entry (l_aux l), l_space l), p)
      | Some lp \<Rightarrow> do {
          (e, p) \<leftarrow> exec_lookup lp False p;
          case evnode (entries (u_vfs p) e) of
            None \<Rightarrow> Some (Inl ENOENT, p)
          | Some n \<Rightarrow>
              if type_of (u_vfs p) n = DIRECTORY then Some (Inl EISDIR, p)
              else do {
                (r, ld) \<leftarrow> elf_load (file_read p n) user_linker_base False (new_loader (l_space l) (l_first_free l));
                Some (case r of Inl er \<Rightarrow> Inl (if er = ENOEXEC then ELIBBAD else er) | Inr _ \<Rightarrow> Inr (at_entry (l_aux ld), l_space ld), p) } })"

text \<open>A failed call puts back the address space, its mapping base and the name, except for the first process.\<close>

definition exec_undo :: "uproc \<Rightarrow> uproc \<Rightarrow> uproc" where
  "exec_undo old p =
     (if u_pid p = 1 then p else p\<lparr>u_space := u_space old, u_anon_base := u_anon_base old, u_name := strncpy (u_name p) (c_string (u_name old)) 64\<rparr>)"

definition init_user :: "uptr \<Rightarrow> uptr \<Rightarrow> regs" where
  "init_user entr sp =
     \<lparr>r15 = 0, r14 = 0, r13 = 0, r12 = 0, r11 = 0, r10 = 0, r9 = 0, r8 = 0, rbp = 0, rdi = 0, rsi = 0, rdx = 0, rcx = 0, rbx = 0,
      rax = 0, err = 0, rip = entr, cs = 0x20 OR 3, rflags = 0x202, rsp = sp\<rparr>"

definition exec_finish ::
  "nat \<Rightarrow> u8 list \<Rightarrow> u8 list list \<Rightarrow> u8 list list \<Rightarrow> nat \<Rightarrow> u8 list list \<Rightarrow> auxval \<Rightarrow> uptr \<Rightarrow> space \<Rightarrow> uproc \<Rightarrow> uproc option" where
  "exec_finish pr path argv envp e interp aux start s p = do {
     s \<leftarrow> map_space user_mmap_base user_stack_size (PAGE_PRESENT OR PAGE_USER OR PAGE_WRITABLE OR PAGE_NO_EXECUTE) s;
     let stack = user_mmap_base + user_stack_size;
     let argv = (if interp = [] then argv else argv[0 := path]);
     (f, s) \<leftarrow> exec_stack stack path interp argv envp aux (u_cred p) s;
     fds \<leftarrow> exec_fds pr (u_fds p);
     Some (p\<lparr>u_space := s, u_anon_base := stack + 0x10000, u_exe := e, u_regs := init_user start (xf_sp f), u_frame := f, u_fds := fds,
             u_actions := (\<lambda>_. \<lparr>handler = 0, sa_flags = 0, restorer = 0, sa_mask = 0\<rparr>),
             u_alt := \<lparr>ss_sp = 0, ss_flags = SS_DISABLE, ss_size = 0\<rparr>, u_performed_execve := True\<rparr>) }"

definition user_exec :: "nat \<Rightarrow> u8 list \<Rightarrow> u8 list list \<Rightarrow> u8 list list \<Rightarrow> uproc \<Rightarrow> (unit res \<times> uproc) option" where
  "user_exec pr path argv envp p = do {
     (e, p) \<leftarrow> exec_lookup path False p;
     case evnode (entries (u_vfs p) e) of
       None \<Rightarrow> Some (Inl ENOENT, p)
     | Some n \<Rightarrow>
         if type_of (u_vfs p) n \<noteq> REGULAR then Some (Inl EACCES, p)
         else do {
           let old = p;
           let s = new_space (u_space p);
           let p = p\<lparr>u_name := strncpy (u_name p) (ename (entries (u_vfs p) e)) 16, u_space := s, u_anon_base := 0\<rparr>;
           (r, p) \<leftarrow> exec_load e n (new_loader s 0) p;
           case r of
             Inl er \<Rightarrow> Some (Inl er, exec_undo old p)
           | Inr (e, interp, l) \<Rightarrow> do {
               let p = p\<lparr>u_brk := l_first_free l + 0x30000000\<rparr>;
               (r, p) \<leftarrow> exec_linker l p;
               case r of
                 Inl er \<Rightarrow> Some (Inl er, exec_undo old p)
               | Inr (start, s) \<Rightarrow> do {
                   p \<leftarrow> exec_finish pr path argv envp e interp (l_aux l) start s p;
                   Some (Inr (), p) } } } }"

section \<open>Bytes below the hi of the stack\<close>

text \<open>
  The stack from \<open>hi\<close> down to its lowest address \<open>lo\<close>: \<open>bs\<close> is what lies between the stack pointer and the hi,
  and everything below the stack pointer is zero.
\<close>

definition stk :: "nat \<Rightarrow> nat \<Rightarrow> u8 list \<Rightarrow> uptr \<times> space \<Rightarrow> bool" where
  "stk lo hi bs = (\<lambda>(sp, s). unat sp + length bs = hi \<and> lo \<le> unat sp \<and> hi < 2 ^ 64 \<and>
     (\<forall>a. lo \<le> a \<longrightarrow> a < hi \<longrightarrow> mapped (sp_vm s) (of_nat a) \<and>
        sp_mem s (of_nat a) = (if a < unat sp then 0 else bs ! (a - unat sp))))"

lemma stkD:
  assumes "stk lo hi bs (sp, s)"
  shows "unat sp + length bs = hi" "lo \<le> unat sp" "hi < 2 ^ 64"
    "lo \<le> a \<Longrightarrow> a < hi \<Longrightarrow> mapped (sp_vm s) (of_nat a)"
    "lo \<le> a \<Longrightarrow> a < hi \<Longrightarrow> sp_mem s (of_nat a) = (if a < unat sp then 0 else bs ! (a - unat sp))"
  using assms by (auto simp: stk_def)

text \<open>Lowering the stack pointer uncovers zeroes.\<close>

lemma stk_lower:
  assumes "stk lo hi bs (sp, s)" "lo + k \<le> unat sp"
  shows "stk lo hi (replicate k 0 @ bs) (sp - of_nat k, s)"
proof -
  note d = stkD[OF assms(1)]
  have k: "unat (sp - of_nat k) = unat sp - k"
  proof -
    have "k < 2 ^ 64" using d(1,3) assms(2) by linarith
    then have "unat (of_nat k :: u64) = k" by (rule unat_of_nat_64)
    then show ?thesis using assms(2) by (simp add: unat_sub word_le_nat_alt)
  qed
  show ?thesis
    unfolding stk_def split_conv k
  proof (intro conjI allI impI)
    fix a assume a: "lo \<le> a" "a < hi"
    show "sp_mem s (of_nat a) = (if a < unat sp - k then 0 else (replicate k 0 @ bs) ! (a - (unat sp - k)))"
      using d(5)[OF a] assms(2) by (auto simp: nth_append not_less)
  qed (use d assms(2) in auto)
qed

text \<open>Writing above the stack pointer.\<close>

lemma stk_write:
  assumes "stk lo hi bs (sp, s)" "k + length ws \<le> length bs"
  shows "\<exists>s'. store (sp + of_nat k) ws s = Some s' \<and> stk lo hi (take k bs @ ws @ drop (k + length ws) bs) (sp, s')"
proof -
  note d = stkD[OF assms(1)]
  have at: "sp + of_nat k + of_nat i = of_nat (unat sp + k + i)" for i by simp
  have st: "store (sp + of_nat k) ws s = Some (s\<lparr>sp_mem := poke (sp + of_nat k) ws (sp_mem s)\<rparr>)"
    by (rule store_mapped) (use d(1,2) assms(2) in \<open>auto simp: at simp del: of_nat_add intro!: d(4)\<close>)
  have mem: "poke (sp + of_nat k) ws (sp_mem s) (of_nat a) =
      (if a < unat sp then 0 else (take k bs @ ws @ drop (k + length ws) bs) ! (a - unat sp))" if a: "lo \<le> a" "a < hi" for a
  proof (cases "ws = []")
    case True
    then show ?thesis using d(5)[OF a] by simp
  next
    case False
    let ?x = "of_nat a :: u64"
    have ux: "unat ?x = a" using a d(3) by (simp add: unat_of_nat_64)
    have len: "length ws \<le> 2 ^ 64" "k + length ws \<le> 2 ^ 64" using d(1,3) assms(2) by linarith+
    note so = sub_offset[OF len(2), of ?x sp]
    show ?thesis
    proof (cases "unat sp \<le> a")
      case True
      then have "unat (?x - sp) = a - unat sp" by (simp add: unat_sub word_le_nat_alt ux)
      then show ?thesis
        unfolding poke_at[OF len(1)] using so False d(5)[OF a] True assms(2) a d(1) by (auto simp: nth_append not_less)
    next
      case below: False
      then have "unat (?x - sp) = a + 2 ^ 64 - unat sp" using ux by (simp add: unat_sub_if_size word_size)
      then have "k + length ws \<le> unat (?x - sp)" using assms(2) d(1,3) by linarith
      then have "\<not> unat (?x - (sp + of_nat k)) < length ws" using so(1) False by simp
      then show ?thesis unfolding poke_at[OF len(1)] using d(5)[OF a] below by simp
    qed
  qed
  have "stk lo hi (take k bs @ ws @ drop (k + length ws) bs) (sp, s\<lparr>sp_mem := poke (sp + of_nat k) ws (sp_mem s)\<rparr>)"
    unfolding stk_def split_conv using d mem assms(2) by simp
  then show ?thesis using st by blast
qed

lemma length_le64 [simp]: "length (le64_bytes w) = 8"
  by (simp add: le64_bytes_def)

lemma push_str_stk:
  assumes "stk lo hi bs (sp, s)" "lo + length cs1 + 1 \<le> unat sp"
  shows "\<exists>sp' s'. push_str cs1 (sp, s) = Some (sp', s') \<and> stk lo hi (cs1 @ [0] @ bs) (sp', s')"
proof -
  let ?k = "Suc (length cs1)"
  have e: "sp - of_nat (length cs1) - 1 = sp - of_nat ?k" by simp
  have l: "stk lo hi (replicate ?k 0 @ bs) (sp - of_nat ?k, s)" by (rule stk_lower[OF assms(1)]) (use assms(2) in simp)
  have dr: "drop (length cs1) (replicate ?k (0 :: u8) @ bs) = 0 # bs" by (simp del: replicate_Suc) simp
  show ?thesis using stk_write[OF l, of 0 cs1] by (auto simp: push_str_def e dr simp del: replicate_Suc of_nat_Suc drop_append)
qed

lemma push64_stk:
  assumes "stk lo hi bs (sp, s)" "lo + 8 \<le> unat sp"
  shows "\<exists>sp' s'. push64 w (sp, s) = Some (sp', s') \<and> stk lo hi (le64_bytes w @ bs) (sp', s')"
proof -
  have l: "stk lo hi (replicate 8 0 @ bs) (sp - of_nat 8, s)" by (rule stk_lower[OF assms])
  show ?thesis using stk_write[OF l, of 0 "le64_bytes w"] by (auto simp: push64_def store64_def)
qed

lemma push_pair_stk:
  assumes "stk lo hi bs (sp, s)" "lo + 16 \<le> unat sp"
  shows "\<exists>sp' s'. push_pair k v (sp, s) = Some (sp', s') \<and> stk lo hi (le64_bytes k @ le64_bytes v @ bs) (sp', s')"
proof -
  have l: "stk lo hi (replicate 16 0 @ bs) (sp - of_nat 16, s)" by (rule stk_lower[OF assms])
  obtain s1 where s1: "store (sp - 16) (le64_bytes k) s = Some s1" "stk lo hi (le64_bytes k @ drop 8 (replicate 16 0 @ bs)) (sp - 16, s1)"
    using stk_write[OF l, of 0 "le64_bytes k"] by auto
  show ?thesis using stk_write[OF s1(2), of 8 "le64_bytes v"] s1(1) by (auto simp: push_pair_def store64_def)
qed

text \<open>Strings one behind the other, each with its terminator.\<close>

definition str_block :: "u8 list list \<Rightarrow> u8 list" where
  "str_block strs = concat (map (\<lambda>x. x @ [0]) strs)"

lemma str_block_simps [simp]: "str_block [] = []" "str_block (x # xs) = x @ [0] @ str_block xs"
  by (simp_all add: str_block_def)

lemma push_strs_stk:
  assumes "stk lo hi bs (sp, s)" "lo + length (str_block strs) \<le> unat sp"
  shows "\<exists>sp' s'. push_strs strs (sp, s) = Some (sp', s') \<and> stk lo hi (str_block strs @ bs) (sp', s')"
  using assms(2)
proof (induction strs)
  case (Cons x xs)
  then obtain sp1 s1 where r: "push_strs xs (sp, s) = Some (sp1, s1)" "stk lo hi (str_block xs @ bs) (sp1, s1)" by auto
  have "lo + length x + 1 \<le> unat sp1" using stkD(1)[OF r(2)] stkD(1)[OF assms(1)] Cons.prems by simp
  from push_str_stk[OF r(2) this] show ?case using r(1) by auto
qed (use assms(1) in simp)

lemma push_pairs_stk:
  assumes "stk lo hi bs (sp, s)" "lo + 16 * length kvs \<le> unat sp"
  shows "\<exists>sp' s'. push_pairs kvs (sp, s) = Some (sp', s') \<and>
    stk lo hi (concat (map (\<lambda>(k, v). le64_bytes k @ le64_bytes v) kvs) @ bs) (sp', s')"
  using assms(2)
proof (induction kvs)
  case (Cons kv kvs)
  obtain k v where kv: "kv = (k, v)" by fastforce
  from Cons obtain sp1 s1 where r: "push_pairs kvs (sp, s) = Some (sp1, s1)"
    "stk lo hi (concat (map (\<lambda>(k, v). le64_bytes k @ le64_bytes v) kvs) @ bs) (sp1, s1)" by auto
  have "length (concat (map (\<lambda>(k, v). le64_bytes k @ le64_bytes v) kvs)) = 16 * length kvs" by (induction kvs) auto
  then have "lo + 16 \<le> unat sp1" using stkD(1)[OF r(2)] stkD(1)[OF assms(1)] Cons.prems by simp
  from push_pair_stk[OF r(2) this, of k v] show ?case using r(1) kv by auto
qed (use assms(1) in simp)

text \<open>The addresses of strings that lie one behind the other.\<close>

fun str_addrs :: "uptr \<Rightarrow> u8 list list \<Rightarrow> uptr list" where
  "str_addrs cur [] = []"
| "str_addrs cur (x # xs) = cur # str_addrs (cur + of_nat (length x) + 1) xs"

lemma length_str_addrs [simp]: "length (str_addrs cur xs) = length xs"
  by (induction cur xs rule: str_addrs.induct) auto

definition word_block :: "u64 list \<Rightarrow> u8 list" where
  "word_block ws = concat (map le64_bytes ws)"

lemma length_word_block [simp]: "length (word_block ws) = 8 * length ws"
  by (induction ws) (simp_all add: word_block_def)

lemma word_block_simps [simp]: "word_block [] = []" "word_block (w # ws) = le64_bytes w @ word_block ws"
  "word_block (us @ ws) = word_block us @ word_block ws"
  by (simp_all add: word_block_def)

lemma store_ptrs_stk:
  assumes "stk lo hi bs (sp, s)" "k + 8 * length xs \<le> length bs"
  shows "\<exists>s'. store_ptrs (sp + of_nat k) cur xs s = Some s' \<and>
    stk lo hi (take k bs @ word_block (str_addrs cur xs) @ drop (k + 8 * length xs) bs) (sp, s')"
  using assms
proof (induction xs arbitrary: k cur bs s)
  case (Cons x xs)
  obtain s1 where r: "store64 (sp + of_nat k) cur s = Some s1" "stk lo hi (take k bs @ le64_bytes cur @ drop (k + 8) bs) (sp, s1)"
    using stk_write[OF Cons.prems(1), of k "le64_bytes cur"] Cons.prems(2) by (auto simp: store64_def)
  have "k + 8 + 8 * length xs \<le> length (take k bs @ le64_bytes cur @ drop (k + 8) bs)" using Cons.prems(2) by simp
  from Cons.IH[OF r(2) this, of "cur + of_nat (length x) + 1"] r(1) Cons.prems(2)
  show ?case by (auto simp: ac_simps)
qed simp

lemma push_array_stk:
  assumes "stk lo hi bs (sp, s)" "lo + 8 + 8 * length xs \<le> unat sp"
  shows "\<exists>sp' s'. push_array cur xs (sp, s) = Some (sp', s') \<and> stk lo hi (word_block (str_addrs cur xs @ [0]) @ bs) (sp', s')"
proof -
  obtain sp1 s1 where r: "push64 0 (sp, s) = Some (sp1, s1)" "stk lo hi (le64_bytes 0 @ bs) (sp1, s1)"
    using push64_stk[OF assms(1)] assms(2) by fastforce
  have u: "unat sp1 + 8 = unat sp" using stkD(1)[OF r(2)] stkD(1)[OF assms(1)] by simp
  have e: "sp1 - 8 * of_nat (length xs) = sp1 - of_nat (8 * length xs)" by simp
  have l: "stk lo hi (replicate (8 * length xs) 0 @ le64_bytes 0 @ bs) (sp1 - of_nat (8 * length xs), s1)"
    by (rule stk_lower[OF r(2)]) (use u assms(2) in simp)
  show ?thesis using store_ptrs_stk[OF l, of 0 xs cur] r(1) by (auto simp: push_array_def e simp del: of_nat_mult)
qed

section \<open>What the program finds on its stack\<close>

definition bytes_at :: "(uptr \<Rightarrow> u8) \<Rightarrow> uptr \<Rightarrow> u8 list \<Rightarrow> bool" where
  "bytes_at m a bs \<longleftrightarrow> (\<forall>i<length bs. m (a + of_nat i) = bs ! i)"

lemma bytes_at_append: "bytes_at m a (xs @ ys) \<longleftrightarrow> bytes_at m a xs \<and> bytes_at m (a + of_nat (length xs)) ys"
proof
  assume h: "bytes_at m a (xs @ ys)"
  have "m (a + of_nat (length xs) + of_nat i) = ys ! i" if "i < length ys" for i
    using h[unfolded bytes_at_def, rule_format, of "length xs + i"] that by (simp add: add.assoc)
  moreover have "m (a + of_nat i) = xs ! i" if "i < length xs" for i
    using h[unfolded bytes_at_def, rule_format, of i] that by (simp add: nth_append)
  ultimately show "bytes_at m a xs \<and> bytes_at m (a + of_nat (length xs)) ys" by (simp add: bytes_at_def)
next
  assume h: "bytes_at m a xs \<and> bytes_at m (a + of_nat (length xs)) ys"
  show "bytes_at m a (xs @ ys)"
    unfolding bytes_at_def
  proof (intro allI impI)
    fix i assume i: "i < length (xs @ ys)"
    show "m (a + of_nat i) = (xs @ ys) ! i"
    proof (cases "i < length xs")
      case False
      then have "a + of_nat i = a + of_nat (length xs) + of_nat (i - length xs)" by (simp add: of_nat_diff)
      moreover have "m (a + of_nat (length xs) + of_nat (i - length xs)) = ys ! (i - length xs)"
        by (rule conjunct2[OF h, unfolded bytes_at_def, rule_format]) (use i False in auto)
      ultimately show ?thesis using False by (simp add: nth_append)
    qed (use h in \<open>simp add: bytes_at_def nth_append\<close>)
  qed
qed

lemma str_addrs_at:
  "bytes_at m cur (str_block xs) \<Longrightarrow> i < length xs \<Longrightarrow> bytes_at m (str_addrs cur xs ! i) (xs ! i @ [0])"
proof (induction xs arbitrary: cur i)
  case (Cons x xs)
  have b: "bytes_at m cur (x @ [0])" "bytes_at m (cur + of_nat (length x) + 1) (str_block xs)"
    using Cons.prems(1) bytes_at_append[of m cur "x @ [0]" "str_block xs"] by (simp_all add: ac_simps)
  then show ?case using Cons by (cases i) simp_all
qed simp

lemma stk_bytes:
  assumes "stk lo hi (pre @ mid @ post) (sp, s)" "unat a + length mid + length post = hi"
  shows "bytes_at (sp_mem s) a mid"
  unfolding bytes_at_def
proof (intro allI impI)
  fix i assume i: "i < length mid"
  note d = stkD[OF assms(1)]
  have "a + of_nat i = of_nat (unat a + i)" by simp
  moreover have "sp_mem s (of_nat (unat a + i)) = mid ! i"
    using d(5)[of "unat a + i"] d(1,2) assms(2) i by (auto simp: nth_append)
  ultimately show "sp_mem s (a + of_nat i) = mid ! i" by simp
qed

text \<open>The room the call needs below the top of the stack.\<close>

definition stack_need :: "u8 list \<Rightarrow> u8 list list \<Rightarrow> u8 list list \<Rightarrow> nat" where
  "stack_need path args envp = length path + length (str_block args) + length (str_block envp) + 8 * (length args + length envp) + 320"

lemma align_down_16: "align_down sp 16 = sp - of_nat (unat sp mod 16)"
proof (rule unat_inverse)
  have "unat sp mod 16 < 16" by simp
  then have "unat sp mod 16 < 2 ^ 64" by (rule less_le_trans) simp
  then have "unat (of_nat (unat sp mod 16) :: u64) = unat sp mod 16" by (rule unat_of_nat_64)
  then have "unat (sp - of_nat (unat sp mod 16)) = unat sp - unat sp mod 16" by (simp add: unat_sub word_le_nat_alt)
  then show "unat (align_down sp 16) = unat (sp - of_nat (unat sp mod 16))" by (simp add: unat_align_down minus_mod_eq_div_mult)
qed

text \<open>The strings, from the top down: the random bytes, the path, the environment and the arguments.\<close>

lemma exec_strings:
  assumes st: "stk lo hi [] (us, s)" and need: "lo + stack_need path args envp \<le> hi"
  shows "\<exists>s1 execfn s2 env_start s3 arg_start s4.
    store (us - 16) (replicate 16 0xAF) s = Some s1 \<and> push_str path (us - 16, s1) = Some (execfn, s2) \<and>
    push_strs envp (execfn, s2) = Some (env_start, s3) \<and> push_strs args (env_start, s3) = Some (arg_start, s4) \<and>
    stk lo hi (str_block args @ str_block envp @ (path @ [0]) @ replicate 16 0xAF) (arg_start, s4) \<and>
    unat (us - 16) + 16 = hi \<and> unat execfn + length path + 17 = hi \<and> unat env_start + length (str_block envp) + length path + 17 = hi"
proof -
  have u: "unat us = hi" using stkD(1)[OF st] by simp
  have l: "stk lo hi (replicate 16 0 @ []) (us - of_nat 16, s)" by (rule stk_lower[OF st]) (use u need in \<open>simp add: stack_need_def\<close>)
  obtain s1 where s1: "store (us - 16) (replicate 16 0xAF) s = Some s1" "stk lo hi (replicate 16 0xAF) (us - 16, s1)"
    using stk_write[OF l, of 0 "replicate 16 0xAF"] by auto
  have u1: "unat (us - 16) + 16 = hi" using stkD(1)[OF s1(2)] by simp
  obtain execfn s2 where s2: "push_str path (us - 16, s1) = Some (execfn, s2)" "stk lo hi (path @ [0] @ replicate 16 0xAF) (execfn, s2)"
    using push_str_stk[OF s1(2), of path] u1 need by (auto simp: stack_need_def)
  have u2: "unat execfn + length path + 17 = hi" using stkD(1)[OF s2(2)] by simp
  obtain env_start s3 where s3: "push_strs envp (execfn, s2) = Some (env_start, s3)"
    "stk lo hi (str_block envp @ path @ [0] @ replicate 16 0xAF) (env_start, s3)"
    using push_strs_stk[OF s2(2), of envp] u2 need by (auto simp: stack_need_def)
  have u3: "unat env_start + length (str_block envp) + length path + 17 = hi" using stkD(1)[OF s3(2)] by simp
  obtain arg_start s4 where s4: "push_strs args (env_start, s3) = Some (arg_start, s4)"
    "stk lo hi (str_block args @ str_block envp @ path @ [0] @ replicate 16 0xAF) (arg_start, s4)"
    using push_strs_stk[OF s3(2), of args] u3 need by (auto simp: stack_need_def)
  show ?thesis using s1(1) s2(1) s3(1) s4 u1 u2 u3 by auto
qed

definition pair_words :: "(u64 \<times> u64) list \<Rightarrow> u64 list" where
  "pair_words kvs = concat (map (\<lambda>(k, v). [k, v]) kvs)"

lemma pair_words_bytes: "concat (map (\<lambda>(k, v). le64_bytes k @ le64_bytes v) kvs) = word_block (pair_words kvs)"
  by (induction kvs) (auto simp: pair_words_def)

lemma length_pair_words [simp]: "length (pair_words kvs) = 2 * length kvs"
  by (induction kvs) (auto simp: pair_words_def)

text \<open>The words below the strings; with the padding the stack pointer ends on a multiple of 16.\<close>

lemma exec_words:
  fixes sp s
  assumes st: "stk lo hi bs (sp, s)" and need: "lo + 8 * (length args + length envp) + 16 * length kvs + 63 \<le> unat sp"
    and par: "par = odd (length args + length envp + 1)"
  defines "sp1 \<equiv> (if par then align_down sp 16 - 8 else align_down sp 16)"
  shows "\<exists>x1 x2 x3 x4 x5 sp' s' pad. push64 0 (sp1, s) = Some x1 \<and> push64 0 x1 = Some x2 \<and> push_pairs kvs x2 = Some x3 \<and>
    push_array es envp x3 = Some x4 \<and> push_array as args x4 = Some x5 \<and> push64 w x5 = Some (sp', s') \<and> unat sp' mod 16 = 0 \<and>
    stk lo hi (word_block (w # str_addrs as args @ [0] @ str_addrs es envp @ [0] @ pair_words kvs @ [0, 0]) @ pad @ bs) (sp', s')"
proof -
  let ?p = "unat sp mod 16 + (if par then 8 else 0)"
  have m16: "unat sp mod 16 \<le> 15" by (simp add: less_Suc_eq_le[symmetric])
  have e: "sp1 = sp - of_nat ?p" by (simp add: sp1_def align_down_16)
  have s0: "stk lo hi (replicate ?p 0 @ bs) (sp1, s)" unfolding e by (rule stk_lower[OF st]) (use need m16 in auto)
  have u0: "unat sp1 + ?p = unat sp" using stkD(1)[OF s0] stkD(1)[OF st] by simp
  obtain p1 s1 where s1: "push64 0 (sp1, s) = Some (p1, s1)" "stk lo hi (le64_bytes 0 @ replicate ?p 0 @ bs) (p1, s1)"
    using push64_stk[OF s0, of 0] u0 need m16 by (auto split: if_splits)
  have u1: "unat p1 + 8 = unat sp1" using stkD(1)[OF s1(2)] stkD(1)[OF s0] by simp
  obtain p2 s2 where s2: "push64 0 (p1, s1) = Some (p2, s2)" "stk lo hi (le64_bytes 0 @ le64_bytes 0 @ replicate ?p 0 @ bs) (p2, s2)"
    using push64_stk[OF s1(2), of 0] u1 u0 need m16 by (auto split: if_splits)
  have u2: "unat p2 + 8 = unat p1" using stkD(1)[OF s2(2)] stkD(1)[OF s1(2)] by simp
  let ?b2 = "le64_bytes 0 @ le64_bytes 0 @ replicate ?p 0 @ bs"
  obtain p3 s3 where s3: "push_pairs kvs (p2, s2) = Some (p3, s3)" "stk lo hi (word_block (pair_words kvs) @ ?b2) (p3, s3)"
    using push_pairs_stk[OF s2(2), of kvs] u2 u1 u0 need m16 unfolding pair_words_bytes by (auto split: if_splits)
  have u3: "unat p3 + 16 * length kvs = unat p2" using stkD(1)[OF s3(2)] stkD(1)[OF s2(2)] by simp
  obtain p4 s4 where s4: "push_array es envp (p3, s3) = Some (p4, s4)"
    "stk lo hi (word_block (str_addrs es envp @ [0]) @ word_block (pair_words kvs) @ ?b2) (p4, s4)"
    using push_array_stk[OF s3(2), of envp es] u3 u2 u1 u0 need m16 by (auto split: if_splits)
  have u4: "unat p4 + 8 * length envp + 8 = unat p3" using stkD(1)[OF s4(2)] stkD(1)[OF s3(2)] by simp
  obtain p5 s5 where s5: "push_array as args (p4, s4) = Some (p5, s5)"
    "stk lo hi (word_block (str_addrs as args @ [0]) @ word_block (str_addrs es envp @ [0]) @ word_block (pair_words kvs) @ ?b2) (p5, s5)"
    using push_array_stk[OF s4(2), of args as] u4 u3 u2 u1 u0 need m16 by (auto split: if_splits)
  have u5: "unat p5 + 8 * length args + 8 = unat p4" using stkD(1)[OF s5(2)] stkD(1)[OF s4(2)] by simp
  obtain p6 s6 where s6: "push64 w (p5, s5) = Some (p6, s6)"
    "stk lo hi (le64_bytes w @ word_block (str_addrs as args @ [0]) @ word_block (str_addrs es envp @ [0]) @ word_block (pair_words kvs) @ ?b2) (p6, s6)"
    using push64_stk[OF s5(2), of w] u5 u4 u3 u2 u1 u0 need m16 by (auto split: if_splits)
  have u6: "unat p6 + 8 = unat p5" using stkD(1)[OF s6(2)] stkD(1)[OF s5(2)] by simp
  have "unat p6 mod 16 = 0"
  proof -
    define t :: nat where "t = (if par then 8 else 0)"
    obtain q r where qr: "unat sp = q * 16 + r" "unat sp mod 16 = r" by (metis div_mult_mod_eq)
    have "unat sp1 + (r + t) = q * 16 + r" using u0 qr unfolding t_def by simp
    then have e1: "unat p6 + 8 * (length args + length envp + 5) + 16 * length kvs + t = q * 16"
      using u6 u5 u4 u3 u2 u1 by presburger
    have "even (length args + length envp + 5 + (if par then 1 else 0))" using par by auto
    then obtain j where "length args + length envp + 5 + (if par then 1 else 0) = 2 * j" by blast
    then have "8 * (length args + length envp + 5) + t = 16 * j" unfolding t_def by (auto split: if_splits)
    then have "unat p6 + 16 * (j + length kvs) = 16 * q" using e1 by presburger
    then show ?thesis by (metis dvd_add_left_iff dvd_triv_left mod_0_imp_dvd dvd_imp_mod_0)
  qed
  then show ?thesis using s1(1) s2(1) s3(1) s4(1) s5(1) s6 by auto
qed

text \<open>
  C16: The stack a program starts on is what the calling convention promises, for any path, arguments and
  environment that fit: the stack pointer is a multiple of 16; from it upwards lie the number of arguments, the
  pointers to them and a null, the pointers to the environment and a null, and the auxiliary vector with its
  end mark; every pointer leads to its string with its terminator, and \<^verbatim>\<open>AT_EXECFN\<close> to the path.
\<close>

theorem exec_stack_layout:
  assumes "stk lo (unat us) [] (us, s)" "lo + stack_need path (interp @ argv) envp \<le> unat us"
  shows "\<exists>f s' ap ep execfn. exec_stack us path interp argv envp aux c s = Some (f, s') \<and> unat (xf_sp f) mod 16 = 0 \<and>
    bytes_at (sp_mem s') (xf_sp f) (word_block (of_nat (length (interp @ argv)) # ap @ [0] @ ep @ [0] @
      pair_words (aux_vector aux c (us - 16) execfn) @ [0, 0])) \<and>
    length ap = length (interp @ argv) \<and> (\<forall>i<length ap. bytes_at (sp_mem s') (ap ! i) ((interp @ argv) ! i @ [0])) \<and>
    length ep = length envp \<and> (\<forall>i<length ep. bytes_at (sp_mem s') (ep ! i) (envp ! i @ [0])) \<and>
    bytes_at (sp_mem s') execfn (path @ [0]) \<and> bytes_at (sp_mem s') (us - 16) (replicate 16 0xAF)"
proof -
  let ?args = "interp @ argv" and ?hi = "unat us"
  obtain s1 execfn s2 es s3 as s4 where r: "store (us - 16) (replicate 16 0xAF) s = Some s1" "push_str path (us - 16, s1) = Some (execfn, s2)"
    "push_strs envp (execfn, s2) = Some (es, s3)" "push_strs ?args (es, s3) = Some (as, s4)"
    "stk lo ?hi (str_block ?args @ str_block envp @ (path @ [0]) @ replicate 16 0xAF) (as, s4)"
    "unat (us - 16) + 16 = ?hi" "unat execfn + length path + 17 = ?hi" "unat es + length (str_block envp) + length path + 17 = ?hi"
    using exec_strings[OF assms] by blast
  let ?bs = "str_block ?args @ str_block envp @ (path @ [0]) @ replicate 16 0xAF" and ?kvs = "aux_vector aux c (us - 16) execfn"
  have ua: "unat as + length (str_block ?args) + length (str_block envp) + length path + 17 = ?hi" using stkD(1)[OF r(5)] by simp
  have need: "lo + 8 * (length ?args + length envp) + 16 * length ?kvs + 63 \<le> unat as"
    using assms(2) ua by (simp add: stack_need_def aux_vector_def)
  have par: "odd (length argv + length envp + length interp + 1) = odd (length ?args + length envp + 1)" by (simp only: length_append ac_simps)
  obtain x1 x2 x3 x4 x5 sp s' pad where w: "push64 0 (if odd (length argv + length envp + length interp + 1) then align_down as 16 - 8 else align_down as 16, s4) = Some x1"
    "push64 0 x1 = Some x2" "push_pairs ?kvs x2 = Some x3" "push_array es envp x3 = Some x4" "push_array as ?args x4 = Some x5"
    "push64 (of_nat (length argv + length interp)) x5 = Some (sp, s')" "unat sp mod 16 = 0"
    "stk lo ?hi (word_block (of_nat (length argv + length interp) # str_addrs as ?args @ [0] @ str_addrs es envp @ [0] @ pair_words ?kvs @ [0, 0]) @ pad @ ?bs) (sp, s')"
    using exec_words[OF r(5) need par, of es as "of_nat (length argv + length interp)"] by (elim exE conjE) (rule that)
  let ?W = "word_block (of_nat (length argv + length interp) # str_addrs as ?args @ [0] @ str_addrs es envp @ [0] @ pair_words ?kvs @ [0, 0])"
  have hd: "bytes_at (sp_mem s') sp ?W"
    by (rule stk_bytes[of lo ?hi "[]" _ "pad @ ?bs" sp], use w(8) in simp) (use stkD(1)[OF w(8)] in simp)
  have "bytes_at (sp_mem s') as (str_block ?args)"
    by (rule stk_bytes[of lo ?hi "?W @ pad" _ "str_block envp @ (path @ [0]) @ replicate 16 0xAF" sp], use w(8) in simp) (use ua in simp)
  moreover have "bytes_at (sp_mem s') es (str_block envp)"
    by (rule stk_bytes[of lo ?hi "?W @ pad @ str_block ?args" _ "(path @ [0]) @ replicate 16 0xAF" sp], use w(8) in simp) (use r(8) in simp)
  moreover have "bytes_at (sp_mem s') execfn (path @ [0])"
    by (rule stk_bytes[of lo ?hi "?W @ pad @ str_block ?args @ str_block envp" _ "replicate 16 0xAF" sp], use w(8) in simp) (use r(7) in simp)
  moreover have "bytes_at (sp_mem s') (us - 16) (replicate 16 0xAF)"
    by (rule stk_bytes[of lo ?hi "?W @ pad @ str_block ?args @ str_block envp @ path @ [0]" _ "[]" sp], use w(8) in simp) (use r(6) in simp)
  moreover have "exec_stack us path interp argv envp aux c s =
      Some (\<lparr>xf_sp = sp, xf_env_start = es, xf_env_end = execfn, xf_arg_start = as, xf_arg_end = es\<rparr>, s')"
    using r(1-4) w(1-6) by (simp add: exec_stack_def Let_def)
  ultimately show ?thesis
    using w(7) hd str_addrs_at[of "sp_mem s'"]
    by (intro exI[of _ "\<lparr>xf_sp = sp, xf_env_start = es, xf_env_end = execfn, xf_arg_start = as, xf_arg_end = es\<rparr>"] exI[of _ s']
        exI[of _ "str_addrs as ?args"] exI[of _ "str_addrs es envp"] exI[of _ execfn]) (simp add: add.commute)
qed

text \<open>The stack of a new program: 8 MiB of zeroes in a fresh address space.\<close>

lemma new_space_stack:
  assumes "vm_ok (sp_vm s)" "sp_mem s = (\<lambda>_. 0)" "\<And>a. 0x7f0000000000 \<le> a \<Longrightarrow> a < 0x7f0000800000 \<Longrightarrow> attrs (sp_vm s) a = {}"
  shows "\<exists>s'. map_space user_mmap_base user_stack_size (PAGE_PRESENT OR PAGE_USER OR PAGE_WRITABLE OR PAGE_NO_EXECUTE) s = Some s' \<and>
    stk 0x7f0000000000 0x7f0000800000 [] (0x7f0000800000, s')"
proof -
  define fl where "fl = PAGE_PRESENT OR PAGE_USER OR PAGE_WRITABLE OR PAGE_NO_EXECUTE"
  have u: "unat user_mmap_base = 0x7f0000000000" "unat user_stack_size = 0x800000" by (simp_all add: user_mmap_base_def user_stack_size_def)
  have "fl AND PAGE_PRESENT \<noteq> 0" by (simp add: fl_def PAGE_PRESENT_def PAGE_USER_def PAGE_WRITABLE_def PAGE_NO_EXECUTE_def)
  then obtain v where v: "map_anonymous user_mmap_base user_stack_size fl False (sp_vm s) = Some v" "vm_ok v"
    "\<forall>a. attrs v a = (if 0x7f0000000000 \<le> a \<and> a < 0x7f0000800000 then {(TANONYMOUS, fl)} else attrs (sp_vm s) a)"
    using map_anonymous_free[OF assms(1), of user_stack_size user_mmap_base fl False] assms(3) unfolding u by auto
  have "mapped v (of_nat a)" if "0x7f0000000000 \<le> a" "a < 0x7f0000800000" for a
  proof (rule mapped_attrs[OF v(2)])
    have "unat (of_nat a :: u64) = a" using that by (simp add: unat_of_nat_64)
    then show "attrs v (unat (of_nat a :: u64)) \<noteq> {}" using v(3) that by simp
  qed
  then show ?thesis
    unfolding fl_def[symmetric] using v(1) assms(2) by (intro exI[of _ "s\<lparr>sp_vm := v\<rparr>"]) (simp add: map_space_def stk_def)
qed

theorem exec_stack_layout_witness:
  "\<forall>aux c. \<exists>s f s' ap. map_space user_mmap_base user_stack_size (PAGE_PRESENT OR PAGE_USER OR PAGE_WRITABLE OR PAGE_NO_EXECUTE)
       (new_space \<lparr>sp_vm = pagemap empty_space, sp_mem = (\<lambda>_. 7)\<rparr>) = Some s \<and>
     exec_stack 0x7f0000800000 (str ''/bin/ls'') [] [str ''ls'', str ''-l''] [str ''HOME=/''] aux c s = Some (f, s') \<and>
     unat (xf_sp f) mod 16 = 0 \<and> length ap = 2 \<and> bytes_at (sp_mem s') (ap ! 1) (str ''-l'' @ [0])"
proof (intro allI)
  fix aux c
  let ?n = "new_space \<lparr>sp_vm = pagemap empty_space, sp_mem = (\<lambda>_. 7)\<rparr>"
  have n: "vm_ok (sp_vm ?n)" "sp_mem ?n = (\<lambda>_. 0)" "attrs (sp_vm ?n) a = {}" for a
    by (simp_all add: new_space_def vm_ok_def rset_def attrs_def)
  obtain s where s: "map_space user_mmap_base user_stack_size (PAGE_PRESENT OR PAGE_USER OR PAGE_WRITABLE OR PAGE_NO_EXECUTE) ?n = Some s"
    "stk 0x7f0000000000 (unat (0x7f0000800000 :: uptr)) [] (0x7f0000800000, s)"
    using new_space_stack[OF n(1,2)] n(3) by auto
  have need: "0x7f0000000000 + stack_need (str ''/bin/ls'') ([] @ [str ''ls'', str ''-l'']) [str ''HOME=/''] \<le> unat (0x7f0000800000 :: uptr)"
    by (simp add: stack_need_def str_def)
  obtain f s' ap where x: "exec_stack 0x7f0000800000 (str ''/bin/ls'') [] [str ''ls'', str ''-l''] [str ''HOME=/''] aux c s = Some (f, s')"
    "unat (xf_sp f) mod 16 = 0" "length ap = length ([] @ [str ''ls'', str ''-l''])"
    "\<forall>i<length ap. bytes_at (sp_mem s') (ap ! i) (([] @ [str ''ls'', str ''-l'']) ! i @ [0])"
    using exec_stack_layout[OF s(2) need, of aux c] by (elim exE conjE) (rule that)
  have "bytes_at (sp_mem s') (ap ! 1) (str ''-l'' @ [0])" using x(3) x(4)[rule_format, of 1] by simp
  then show "\<exists>s f s' ap. map_space user_mmap_base user_stack_size (PAGE_PRESENT OR PAGE_USER OR PAGE_WRITABLE OR PAGE_NO_EXECUTE) ?n = Some s \<and>
     exec_stack 0x7f0000800000 (str ''/bin/ls'') [] [str ''ls'', str ''-l''] [str ''HOME=/''] aux c s = Some (f, s') \<and>
     unat (xf_sp f) mod 16 = 0 \<and> length ap = 2 \<and> bytes_at (sp_mem s') (ap ! 1) (str ''-l'' @ [0])"
    using s(1) x(1,2) x(3)[simplified] by (metis One_nat_def numeral_2_eq_2)
qed

section \<open>Failed calls\<close>

text \<open>The steps before the last one change nothing but the tree of names.\<close>

definition same_but_vfs :: "uproc \<Rightarrow> uproc \<Rightarrow> bool" where
  "same_but_vfs p p' \<longleftrightarrow> (\<exists>v. p' = p\<lparr>u_vfs := v\<rparr>)"

lemma same_but_vfs_refl [simp]: "same_but_vfs p p"
  unfolding same_but_vfs_def by (rule exI[of _ "u_vfs p"]) simp

lemma exec_lookup_keeps: "exec_lookup path c p = Some (e, p') \<Longrightarrow> same_but_vfs p p'"
  unfolding same_but_vfs_def by (auto simp: exec_lookup_def split: bind_splits)

lemma exec_load_keeps: "exec_load e n l p = Some (r, p') \<Longrightarrow> same_but_vfs p p'"
  by (auto simp: exec_load_def dest!: exec_lookup_keeps split: bind_splits sum.splits option.splits if_splits)

lemma exec_linker_keeps: "exec_linker l p = Some (r, p') \<Longrightarrow> same_but_vfs p p'"
  by (auto simp: exec_linker_def dest!: exec_lookup_keeps split: bind_splits option.splits if_splits)

lemma c_string_shorter: "0 \<in> set buf \<Longrightarrow> length (c_string buf) < length buf"
  by (induction buf) (auto simp: c_string_def)

lemma strncpy_c_string:
  assumes "0 \<in> set buf" "length buf \<le> n"
  shows "c_string (strncpy dst (c_string buf) n) = c_string buf"
proof -
  have "strncpy dst (c_string buf) n = c_string buf @ 0 # replicate (n - length (c_string buf) - 1) 0 @ drop n dst"
    using assms(2) c_string_shorter[OF assms(1)] by (cases "n - length (c_string buf)") (simp_all add: strncpy_def)
  moreover have "takeWhile (\<lambda>b. b \<noteq> 0) (takeWhile (\<lambda>b. b \<noteq> 0) buf @ 0 # ys) = takeWhile (\<lambda>b. b \<noteq> 0) buf" for ys
    by (induction buf) auto
  ultimately show ?thesis by (simp add: c_string_def)
qed

text \<open>
  C17: A call of \<^verbatim>\<open>execve\<close> that fails leaves the program as it was: unless it is the first process, its address
  space, the place of its next mapping, its name, descriptors, registers, signal actions and executable are those from
  before the call, at whichever step the call failed.
\<close>

theorem failed_exec_keeps_program:
  assumes "user_exec pr path argv envp p = Some (Inl e, p')" "u_pid p \<noteq> 1" "length (u_name p) = 64" "0 \<in> set (u_name p)"
  shows "u_space p' = u_space p \<and> u_anon_base p' = u_anon_base p \<and> c_string (u_name p') = c_string (u_name p) \<and> u_fds p' = u_fds p \<and>
    u_regs p' = u_regs p \<and> u_actions p' = u_actions p \<and> u_alt p' = u_alt p \<and> u_exe p' = u_exe p \<and> u_frame p' = u_frame p"
proof -
  obtain x p1 where l: "exec_lookup path False p = Some (x, p1)" using assms(1) by (auto simp: user_exec_def split: bind_splits)
  obtain v1 where p1: "p1 = p\<lparr>u_vfs := v1\<rparr>" using exec_lookup_keeps[OF l] by (auto simp: same_but_vfs_def)
  have nm: "c_string (strncpy d (c_string (u_name p)) 64) = c_string (u_name p)" for d
    using strncpy_c_string[OF assms(4)] assms(3) by simp
  have undo: ?thesis if "p' = exec_undo p1 q" "u_pid q = u_pid p" "u_fds q = u_fds p" "u_regs q = u_regs p" "u_actions q = u_actions p"
    "u_alt q = u_alt p" "u_exe q = u_exe p" "u_frame q = u_frame p" for q
    using that assms(2) nm p1 by (simp add: exec_undo_def)
  show ?thesis
  proof (cases "\<exists>n. evnode (entries v1 x) = Some n \<and> type_of v1 n = REGULAR")
    case False
    then have "p' = p1" using assms(1) l p1 by (auto simp: user_exec_def split: option.splits if_splits)
    then show ?thesis using p1 by simp
  next
    case True
    then obtain n where n: "evnode (entries v1 x) = Some n" "type_of v1 n = REGULAR" by blast
    let ?s = "new_space (u_space p)"
    let ?q = "p1\<lparr>u_name := strncpy (u_name p1) (ename (entries (u_vfs p1) x)) 16, u_space := ?s, u_anon_base := 0\<rparr>"
    obtain r p2 where r: "exec_load x n (new_loader ?s 0) ?q = Some (r, p2)"
      using assms(1) l p1 n by (auto simp: user_exec_def Let_def split: bind_splits)
    obtain v2 where p2: "p2 = ?q\<lparr>u_vfs := v2\<rparr>" using exec_load_keeps[OF r] by (auto simp: same_but_vfs_def)
    show ?thesis
    proof (cases r)
      case (Inl er)
      then have "p' = exec_undo p1 p2" using assms(1) l p1 n r by (simp add: user_exec_def Let_def)
      then show ?thesis by (rule undo) (simp_all add: p1 p2)
    next
      case (Inr y)
      obtain e1 interp l1 where y: "y = (e1, interp, l1)" by (metis prod_cases3)
      let ?p3 = "p2\<lparr>u_brk := l_first_free l1 + 0x30000000\<rparr>"
      obtain r4 p4 where r4: "exec_linker l1 ?p3 = Some (r4, p4)"
        using assms(1) l p1 n r Inr y by (auto simp: user_exec_def Let_def split: bind_splits)
      obtain v4 where p4: "p4 = ?p3\<lparr>u_vfs := v4\<rparr>" using exec_linker_keeps[OF r4] by (auto simp: same_but_vfs_def)
      obtain er where "r4 = Inl er" using assms(1) l p1 n r Inr y r4 by (cases r4) (auto simp: user_exec_def Let_def split: bind_splits)
      then have "p' = exec_undo p1 p4" using assms(1) l p1 n r Inr y r4 by (simp add: user_exec_def Let_def)
      then show ?thesis by (rule undo) (simp_all add: p1 p2 p4)
    qed
  qed
qed

text \<open>A process that executes an empty file.\<close>

definition example_uproc :: uproc where
  "example_uproc = \<lparr>u_pid = 5,
     u_vfs = vfs_init\<lparr>nodes := (\<lambda>_. \<lparr>ndata = tmpfs_new REGULAR, inode_num = 2, nuid = 0, ngid = 0, nmode = 493, nrefs = 0\<rparr>)\<rparr>,
     u_cwd = 0, u_space = \<lparr>sp_vm = pagemap empty_space, sp_mem = (\<lambda>_. 7)\<rparr>, u_anon_base = 0x1000, u_brk = 0x2000,
     u_name = str ''sh'' @ replicate 62 0, u_exe = 0, u_regs = init_user 0 0,
     u_frame = \<lparr>xf_sp = 0, xf_env_start = 0, xf_env_end = 0, xf_arg_start = 0, xf_arg_end = 0\<rparr>, u_fds = \<lparr>tables = [], descs = Map.empty, closed = []\<rparr>,
     u_actions = (\<lambda>_. \<lparr>handler = 0, sa_flags = 0, restorer = 0, sa_mask = 0\<rparr>), u_alt = \<lparr>ss_sp = 0, ss_flags = 0, ss_size = 0\<rparr>,
     u_performed_execve = False, u_cred = \<lparr>uids = \<lparr>rid = 0, eid = 0, fsid = 0, sid = 0\<rparr>, gids = \<lparr>rid = 0, eid = 0, fsid = 0, sid = 0\<rparr>,
       supplementary = [], dumpable = True\<rparr>\<rparr>"

theorem failed_exec_keeps_program_witness:
  "\<exists>p'. user_exec 0 (str ''/'') [str ''x''] [] example_uproc = Some (Inl ENOEXEC, p') \<and>
     u_space p' = u_space example_uproc \<and> c_string (u_name p') = str ''sh''"
proof -
  let ?p = example_uproc
  have lk: "exec_lookup (str ''/'') False ?p = Some (0, ?p)"
    by (simp add: exec_lookup_def path_to_entry_def path_start_def example_uproc_def str_def slash_def vfs_init_def Let_def)
  have n: "evnode (entries (u_vfs ?p) 0) = Some 0" "type_of (u_vfs ?p) 0 = REGULAR"
    by (simp_all add: example_uproc_def vfs_init_def Let_def type_of_def tmpfs_new_def)
  have rd: "read_struct (file_read q k) m a = Some (replicate m 0)" if "u_vfs q = u_vfs ?p" for q k m a
    using that by (simp add: read_struct_def file_read_def tmpfs_read_def tmpfs_new_def example_uproc_def)
  have sb: "shebang (replicate 256 0) = None" by (simp add: shebang_def)
  have hd: "\<not> header_ok (parse_header (replicate 64 0))" by (simp add: header_ok_def parse_header_def)
  obtain p' where p': "user_exec 0 (str ''/'') [str ''x''] [] ?p = Some (Inl ENOEXEC, p')"
    by (simp add: user_exec_def lk n exec_load_def elf_load_def rd hd sb Let_def)
  have nm: "length (u_name ?p) = 64" "0 \<in> set (u_name ?p)" "u_pid ?p \<noteq> 1" "c_string (u_name ?p) = str ''sh''"
    by (simp_all add: example_uproc_def str_def c_string_def)
  show ?thesis using failed_exec_keeps_program[OF p' nm(3,1,2)] p' nm(4) by auto
qed

text \<open>The argument in the first line of a script never reaches the interpreter: the scan for it starts on the space in front of it.\<close>

lemma shebang_drops_argument: "shebang buf = Some (ip, ia) \<Longrightarrow> ia = []"
proof -
  have "takeWhile (\<lambda>b. b \<noteq> 32) (dropWhile (\<lambda>b. b \<noteq> 32) xs) = []" for xs :: "u8 list"
    by (induction xs) auto
  then show "shebang buf = Some (ip, ia) \<Longrightarrow> ia = []" by (auto simp: shebang_def Let_def split: if_splits)
qed

text \<open>A program whose dynamic linker is missing fails, but the end of its heap has moved already.\<close>

lemma failed_exec_moves_brk:
  assumes "exec_lookup path False p = Some (x, p)" "evnode (entries (u_vfs p) x) = Some n" "type_of (u_vfs p) n = REGULAR"
    and "exec_load x n (new_loader (new_space (u_space p)) 0)
      (p\<lparr>u_name := strncpy (u_name p) (ename (entries (u_vfs p) x)) 16, u_space := new_space (u_space p), u_anon_base := 0\<rparr>) = Some (Inr (x1, interp, l), p1)"
    and "exec_linker l (p1\<lparr>u_brk := l_first_free l + 0x30000000\<rparr>) = Some (Inl ENOENT, p2)"
  shows "\<exists>p'. user_exec pr path argv envp p = Some (Inl ENOENT, p') \<and> u_brk p' = l_first_free l + 0x30000000"
proof -
  obtain v where "p2 = p1\<lparr>u_brk := l_first_free l + 0x30000000, u_vfs := v\<rparr>"
    using exec_linker_keeps[OF assms(5)] by (auto simp: same_but_vfs_def)
  then show ?thesis using assms by (simp add: user_exec_def Let_def exec_undo_def)
qed

end
