(* ===== verification/Gfx_Terminal.thy ===== *)
theory Gfx_Terminal
  imports Klib_Algorithm "HOL-Library.Monad_Syntax"
begin

text \<open>
  The text terminal of the kernel: \<^verbatim>\<open>VirtualTerminal\<close> of \<^verbatim>\<open>gfx/terminal.cpp\<close> with the fonts and the
  frame buffer (\<^verbatim>\<open>gfx/framebuffer.cpp\<close>) it draws into, and the device file of the frame buffer. \<open>vt_ok\<close> is the
  invariant of a terminal on a screen. The frame buffer is the list of its bytes; a write
  outside of it, outside the character buffer or a glyph's bytes, or a signed overflow is \<open>None\<close>. Sizes and
  positions that the code keeps in \<^verbatim>\<open>int\<close> are integers.
\<close>

section \<open>Frame buffer\<close>

record framebuffer =
  fb_bytes :: "u8 list"
  fb_width :: u32
  fb_height :: u32
  fb_pitch :: u32
  pixel_width :: u32

definition fb_poke :: "nat \<Rightarrow> u8 list \<Rightarrow> framebuffer \<Rightarrow> framebuffer option" where
  "fb_poke a bs fb =
     (if a + length bs \<le> length (fb_bytes fb)
      then Some (fb\<lparr>fb_bytes := take a (fb_bytes fb) @ bs @ drop (a + length bs) (fb_bytes fb)\<rparr>) else None)"

definition rgb_bytes :: "u32 \<Rightarrow> u8 list" where
  "rgb_bytes c = [ucast c, ucast (drop_bit 8 c), ucast (drop_bit 16 c)]"

fun mfold :: "('a \<Rightarrow> 's \<Rightarrow> 's option) \<Rightarrow> 'a list \<Rightarrow> 's \<Rightarrow> 's option" where
  "mfold f [] s = Some s"
| "mfold f (x # xs) s = do { s \<leftarrow> f x s; mfold f xs s }"

text \<open>The columns and lines of a rectangle that lie on the screen; both counters are 16 bits wide.\<close>

definition fill_rect :: "u16 \<Rightarrow> u16 \<Rightarrow> u16 \<Rightarrow> u16 \<Rightarrow> u32 \<Rightarrow> framebuffer \<Rightarrow> framebuffer option" where
  "fill_rect x y w h rgb fb =
     (if unat x + unat w > 65535 \<or> unat y + unat h > 65535 then None
      else mfold (\<lambda>i. mfold (\<lambda>j. fb_poke (unat (fb_pitch fb * of_nat i) + unat (of_nat j * pixel_width fb)) (rgb_bytes rgb))
                   (filter (\<lambda>j. j < unat (fb_width fb)) [unat x..<unat x + unat w]))
             (filter (\<lambda>i. i < unat (fb_height fb)) [unat y..<unat y + unat h]) fb)"

definition put_pixel :: "u16 \<Rightarrow> u16 \<Rightarrow> u32 \<Rightarrow> framebuffer \<Rightarrow> framebuffer option" where
  "put_pixel x y rgb fb =
     (if ucast x > fb_width fb \<or> ucast y > fb_height fb then Some fb
      else fb_poke (unat (ucast x * pixel_width fb + ucast y * fb_pitch fb)) (rgb_bytes rgb) fb)"

text \<open>The device file of the frame buffer.\<close>

definition fb_size :: "framebuffer \<Rightarrow> usize" where
  "fb_size fb = ucast (fb_height fb * fb_pitch fb)"

definition fb_count :: "usize \<Rightarrow> usize \<Rightarrow> framebuffer \<Rightarrow> usize" where
  "fb_count cnt offset fb = (if offset + cnt > fb_size fb then fb_size fb - offset else cnt)"

definition fb_read :: "usize \<Rightarrow> usize \<Rightarrow> framebuffer \<Rightarrow> u8 list option" where
  "fb_read cnt offset fb =
     (if offset \<ge> fb_size fb then Some []
      else mem_read (fb_bytes fb) (unat offset) (unat (fb_count cnt offset fb)))"

definition fb_write :: "u8 list \<Rightarrow> usize \<Rightarrow> usize \<Rightarrow> framebuffer \<Rightarrow> (usize \<times> framebuffer) option" where
  "fb_write buf cnt offset fb =
     (if offset \<ge> fb_size fb then Some (0, fb)
      else do {
        bs \<leftarrow> mem_read buf 0 (unat (fb_count cnt offset fb));
        b \<leftarrow> mem_write (fb_bytes fb) (unat offset) bs;
        Some (fb_count cnt offset fb, fb\<lparr>fb_bytes := b\<rparr>) })"

section \<open>Fonts\<close>

record font =
  font_data :: "u8 list"
  f_width :: u32
  f_height :: u32
  num_glyph :: u32
  bytes_per_glyph :: u32

text \<open>A font is the bytes behind the header of a PSF file of version 1 or 2; numbers are little-endian.\<close>

definition get_le16 :: "u8 list \<Rightarrow> nat \<Rightarrow> u16 option" where
  "get_le16 bs i = do { a \<leftarrow> rd bs i; b \<leftarrow> rd bs (i + 1); Some (ucast a OR push_bit 8 (ucast b)) }"

definition get_le32 :: "u8 list \<Rightarrow> nat \<Rightarrow> u32 option" where
  "get_le32 bs i = do { a \<leftarrow> get_le16 bs i; b \<leftarrow> get_le16 bs (i + 2); Some (ucast a OR push_bit 16 (ucast b)) }"

definition font_init :: "u8 list \<Rightarrow> font option option" where
  "font_init bs = do {
     psf1_magic \<leftarrow> get_le16 bs 0;
     if psf1_magic = 0x0436 then do {
       font_mode \<leftarrow> rd bs 2;
       character_size \<leftarrow> rd bs 3;
       Some (Some \<lparr>font_data = drop 4 bs, f_width = 8, f_height = 16,
                   num_glyph = (if font_mode AND 1 \<noteq> 0 then 512 else 256), bytes_per_glyph = ucast character_size\<rparr>) }
     else do {
       psf2_magic \<leftarrow> get_le32 bs 0;
       if psf2_magic = 0x864ab572 then do {
         header_size \<leftarrow> get_le32 bs 8;
         ng \<leftarrow> get_le32 bs 16;
         bpg \<leftarrow> get_le32 bs 20;
         h \<leftarrow> get_le32 bs 24;
         w \<leftarrow> get_le32 bs 28;
         Some (Some \<lparr>font_data = drop (unat header_size) bs, f_width = w, f_height = h, num_glyph = ng, bytes_per_glyph = bpg\<rparr>) }
       else Some None } }"

text \<open>One pixel row of a glyph: the bits of its first byte from \<open>mk\<close> down.\<close>

fun draw_row :: "nat \<Rightarrow> u8 \<Rightarrow> usize \<Rightarrow> u64 \<Rightarrow> u32 \<Rightarrow> u32 \<Rightarrow> framebuffer \<Rightarrow> framebuffer option" where
  "draw_row 0 g mk line fg bg fb = Some fb"
| "draw_row (Suc n) g mk line fg bg fb = do {
     let c = (if ucast g AND mk \<noteq> 0 then fg else bg);
     fb \<leftarrow> fb_poke (unat line) (rgb_bytes c @ [ucast (drop_bit 24 c)]) fb;
     draw_row n g (drop_bit 1 mk) (line + ucast (pixel_width fb)) fg bg fb }"

text \<open>The bit of the leftmost pixel: \<^verbatim>\<open>1 << (width - 1)\<close> is an \<^verbatim>\<open>int\<close>, converted to 64 bits with its sign.\<close>

definition glyph_mask :: "u32 \<Rightarrow> usize option" where
  "glyph_mask w = (if 1 \<le> w \<and> w \<le> 32 then Some (signed (push_bit (unat w - 1) 1 :: u32)) else None)"

fun draw_rows :: "nat \<Rightarrow> font \<Rightarrow> nat \<Rightarrow> nat \<Rightarrow> u64 \<Rightarrow> u32 \<Rightarrow> u32 \<Rightarrow> framebuffer \<Rightarrow> framebuffer option" where
  "draw_rows 0 f glyph bpl wh fg bg fb = Some fb"
| "draw_rows (Suc n) f glyph bpl wh fg bg fb = do {
     g \<leftarrow> rd (font_data f) glyph;
     mk \<leftarrow> glyph_mask (f_width f);
     fb \<leftarrow> draw_row (unat (f_width f)) g mk wh fg bg fb;
     draw_rows n f (glyph + bpl) bpl (wh + ucast (fb_pitch fb)) fg bg fb }"

definition draw_psf_char :: "font \<Rightarrow> u32 \<Rightarrow> u16 \<Rightarrow> u16 \<Rightarrow> u16 \<Rightarrow> u16 \<Rightarrow> u32 \<Rightarrow> u32 \<Rightarrow> framebuffer \<Rightarrow> framebuffer option" where
  "draw_psf_char f c cx cy offx offy fg bg fb =
     (let bytes_per_line = (f_width f + 7) div 8;
          glyph = (if c < num_glyph f then c else 0) * bytes_per_glyph f;
          wh = (ucast ((ucast cy * f_height f + ucast offy) * fb_pitch fb + (ucast cx * f_width f + ucast offx) * 4) :: u64)
      in draw_rows (unat (f_height f)) f (unat glyph) (unat bytes_per_line) wh fg bg fb)"

section \<open>Characters with colours\<close>

text \<open>\<^verbatim>\<open>char\<close> is signed: its conversion to 64 bits copies the sign bit.\<close>

definition encode_cell :: "u8 \<Rightarrow> u32 \<Rightarrow> u32 \<Rightarrow> u64" where
  "encode_cell c fg bg = signed c OR push_bit 8 (ucast (fg AND 0x1FFFFFF)) OR push_bit 40 (ucast (bg AND 0xFFFFFF))"

definition cell_c :: "u64 \<Rightarrow> u8" where "cell_c e = ucast (e AND 0xFF)"
definition cell_fg :: "u64 \<Rightarrow> u32" where "cell_fg e = ucast (drop_bit 8 e AND 0x1FFFFFF)"
definition cell_bg :: "u64 \<Rightarrow> u32" where "cell_bg e = ucast (drop_bit 40 e AND 0xFFFFFF)"

definition rgb :: "nat \<Rightarrow> nat \<Rightarrow> nat \<Rightarrow> u32" where
  "rgb r g b = of_nat (r * 65536 + g * 256 + b)"

definition color_table :: "u32 list" where
  "color_table =
     [rgb 0 0 0, rgb 205 49 49, rgb 13 188 121, rgb 229 229 16, rgb 36 114 200, rgb 188 63 188, rgb 17 168 205, rgb 229 229 229,
      rgb 102 102 102, rgb 241 76 76, rgb 35 209 139, rgb 245 245 67, rgb 59 142 234, rgb 214 112 214, rgb 41 184 219, rgb 229 229 229]"

definition default_fg_color :: u32 where "default_fg_color = rgb 229 229 229"
definition default_bg_color :: u32 where "default_bg_color = rgb 0 0 0"
definition bold_flag :: u32 where "bold_flag = 0x1000000"

section \<open>The terminal\<close>

record vterm =
  vt_fb :: framebuffer
  regular_font :: font
  bold_font :: font
  vt_buffer :: "u64 list"
  current_fg :: u32
  current_bg :: u32
  is_bold :: bool
  font_width :: int
  font_height :: int
  cursor_x :: int
  cursor_y :: int
  old_cursor_x :: int
  old_cursor_y :: int
  cursor_needs_undrawing :: bool
  csi_progress :: nat
  csi_args :: "int list"
  csi_arg_index :: int
  csi_arg_count :: int
  csi_question_mark :: bool
  insert_mode :: bool
  width_chars :: int
  height_chars :: int

text \<open>The terminal covers the whole screen: its pixel offsets are zero.\<close>

definition draw_char_at :: "int \<Rightarrow> int \<Rightarrow> u8 \<Rightarrow> u32 \<Rightarrow> u32 \<Rightarrow> vterm \<Rightarrow> vterm option" where
  "draw_char_at x y c fg bg t = do {
     let f = (if fg AND bold_flag \<noteq> 0 then bold_font t else regular_font t);
     fb \<leftarrow> draw_psf_char f (signed c) (of_int x) (of_int y) 0 0 (fg AND 0xFFFFFF) bg (vt_fb t);
     Some (t\<lparr>vt_fb := fb\<rparr>) }"

definition cell_index :: "int \<Rightarrow> int \<Rightarrow> vterm \<Rightarrow> nat" where
  "cell_index x y t = unat (of_int y * of_int (width_chars t) + of_int x :: usize)"

definition set_char_at :: "int \<Rightarrow> int \<Rightarrow> u8 \<Rightarrow> u32 \<Rightarrow> u32 \<Rightarrow> vterm \<Rightarrow> vterm option" where
  "set_char_at x y c fg bg t = do {
     let i = cell_index x y t;
     let e = encode_cell c fg bg;
     old \<leftarrow> rd (vt_buffer t) i;
     if old = e then Some t
     else do {
       b \<leftarrow> wr (vt_buffer t) i e;
       t \<leftarrow> draw_char_at x y c fg bg (t\<lparr>vt_buffer := b\<rparr>);
       Some (t\<lparr>cursor_needs_undrawing := False\<rparr>) } }"

definition set_char_at_cursor :: "u8 \<Rightarrow> vterm \<Rightarrow> vterm option" where
  "set_char_at_cursor c t =
     set_char_at (cursor_x t) (cursor_y t) c (current_fg t OR (if is_bold t then bold_flag else 0)) (current_bg t) t"

definition blank :: "int \<Rightarrow> int \<Rightarrow> vterm \<Rightarrow> vterm option" where
  "blank x y t = set_char_at x y 32 default_fg_color default_bg_color t"

definition move_char :: "int \<Rightarrow> int \<Rightarrow> int \<Rightarrow> int \<Rightarrow> vterm \<Rightarrow> vterm option" where
  "move_char old_x old_y new_x new_y t = do {
     e \<leftarrow> rd (vt_buffer t) (cell_index old_x old_y t);
     t \<leftarrow> set_char_at new_x new_y (cell_c e) (cell_fg e) (cell_bg e) t;
     blank old_x old_y t }"

text \<open>All positions, line by line.\<close>

definition grid :: "int \<Rightarrow> int \<Rightarrow> (int \<times> int) list" where
  "grid w h = concat (map (\<lambda>y. map (\<lambda>x. (x, y)) [0..w - 1]) [0..h - 1])"

definition scroll :: "vterm \<Rightarrow> vterm option" where
  "scroll t = do {
     t \<leftarrow> mfold (\<lambda>(x, y) t. do {
            e \<leftarrow> rd (vt_buffer t) (cell_index x (y + 1) t);
            set_char_at x y (cell_c e) (cell_fg e) (cell_bg e) t }) (grid (width_chars t) (height_chars t - 1)) t;
     t \<leftarrow> mfold (\<lambda>x t. blank x (height_chars t - 1) t) [0..width_chars t - 1] t;
     Some (t\<lparr>cursor_needs_undrawing := True\<rparr>) }"

definition cursor_bar :: "int \<Rightarrow> int \<Rightarrow> u32 \<Rightarrow> vterm \<Rightarrow> vterm option" where
  "cursor_bar x y c t = do {
     fb \<leftarrow> fill_rect (of_int (x * font_width t)) (of_int (y * font_height t)) 1 (of_int (font_height t)) c (vt_fb t);
     Some (t\<lparr>vt_fb := fb\<rparr>) }"

definition redraw_cursor :: "vterm \<Rightarrow> vterm option" where
  "redraw_cursor t = do {
     t \<leftarrow> (if cursor_needs_undrawing t then do {
            t \<leftarrow> cursor_bar (old_cursor_x t) (old_cursor_y t) (current_bg t) t;
            e \<leftarrow> rd (vt_buffer t) (cell_index (old_cursor_x t) (old_cursor_y t) t);
            draw_char_at (old_cursor_x t) (old_cursor_y t) (cell_c e) (cell_fg e) (cell_bg e) t }
          else Some t);
     t \<leftarrow> cursor_bar (cursor_x t) (cursor_y t) (current_fg t) t;
     Some (t\<lparr>old_cursor_x := cursor_x t, old_cursor_y := cursor_y t\<rparr>) }"

definition move_cursor :: "int \<Rightarrow> int \<Rightarrow> vterm \<Rightarrow> vterm option" where
  "move_cursor x y t = redraw_cursor (t\<lparr>cursor_x := x, cursor_y := y, cursor_needs_undrawing := True\<rparr>)"

definition reset_control_sequence :: "vterm \<Rightarrow> vterm" where
  "reset_control_sequence t =
     t\<lparr>csi_progress := 0, csi_arg_index := 0, csi_arg_count := 0, csi_args := replicate 16 0, csi_question_mark := False\<rparr>"

text \<open>A value of type \<^verbatim>\<open>int\<close>; signed overflow is undefined.\<close>

definition chk :: "int \<Rightarrow> int option" where
  "chk v = (if - (2 ^ 31) \<le> v \<and> v < 2 ^ 31 then Some v else None)"

definition iclamp :: "int \<Rightarrow> int \<Rightarrow> int \<Rightarrow> int" where
  "iclamp v low high = min (max v low) high"

definition sgr :: "int \<Rightarrow> vterm \<Rightarrow> vterm" where
  "sgr n t =
     (if n = 0 then t\<lparr>current_fg := default_fg_color, current_bg := default_bg_color, is_bold := False\<rparr>
      else if n = 1 then t\<lparr>is_bold := True\<rparr>
      else if n = 7 then t\<lparr>current_fg := current_bg t, current_bg := current_fg t\<rparr>
      else if n = 22 then t\<lparr>is_bold := False\<rparr>
      else if 30 \<le> n \<and> n \<le> 37 then t\<lparr>current_fg := color_table ! nat (n - 30)\<rparr>
      else if 90 \<le> n \<and> n \<le> 97 then t\<lparr>current_fg := color_table ! nat (n + 8 - 90)\<rparr>
      else if n = 39 then t\<lparr>current_fg := default_fg_color\<rparr>
      else if 40 \<le> n \<and> n \<le> 47 then t\<lparr>current_bg := color_table ! nat (n - 40)\<rparr>
      else if n = 49 then t\<lparr>current_bg := default_bg_color\<rparr>
      else if 100 \<le> n \<and> n \<le> 107 then t\<lparr>current_bg := color_table ! nat (n + 8 - 100)\<rparr>
      else t)"

definition blanks :: "(int \<times> int) list \<Rightarrow> vterm \<Rightarrow> vterm option" where
  "blanks ps t = mfold (\<lambda>(x, y). blank x y) ps t"

definition erase_display :: "int \<Rightarrow> vterm \<Rightarrow> vterm option" where
  "erase_display n t =
     (let w = width_chars t;
          pos = (\<lambda>(x, y). (y + 1) * w + x);
          cur = (cursor_y t + 1) * w + cursor_x t;
          ps = grid w (height_chars t)
      in if n = 0 then blanks (filter (\<lambda>p. pos p \<ge> cur) ps) t
         else if n = 1 then blanks (filter (\<lambda>p. pos p \<le> cur) ps) t
         else if n = 2 \<or> n = 3 then blanks ps t
         else Some t)"

definition erase_line :: "int \<Rightarrow> vterm \<Rightarrow> vterm option" where
  "erase_line n t =
     (let line = map (\<lambda>x. (x, cursor_y t))
      in if n = 0 then blanks (line [cursor_x t..width_chars t - 1]) t
         else if n = 1 then blanks (line (rev [0..cursor_x t])) t
         else if n = 2 then blanks (line [0..width_chars t - 1]) t
         else Some t)"

definition arg0 :: "vterm \<Rightarrow> int" where "arg0 t = csi_args t ! 0"

definition erase_chars :: "vterm \<Rightarrow> (int \<times> vterm) option" where
  "erase_chars t = do {
     let t = (if csi_arg_count t = 0 then t\<lparr>csi_args := (csi_args t)[0 := 1]\<rparr> else t);
     v \<leftarrow> chk (cursor_x t + arg0 t);
     let lst = iclamp v 0 (width_chars t);
     t \<leftarrow> blanks (map (\<lambda>x. (x, cursor_y t)) [cursor_x t..lst - 1]) t;
     Some (lst, t) }"

definition delete_chars :: "vterm \<Rightarrow> vterm option" where
  "delete_chars t = do {
     (lst, t) \<leftarrow> erase_chars t;
     mfold (\<lambda>i t. move_char (lst + i) (cursor_y t) (cursor_x t + i) (cursor_y t) t) [0..width_chars t - lst - 1] t }"

definition code :: "char \<Rightarrow> u8" where "code c = of_char c"

definition apply_control_sequence :: "u8 \<Rightarrow> vterm \<Rightarrow> vterm option" where
  "apply_control_sequence c t =
     (let x = cursor_x t; y = cursor_y t; w = width_chars t; h = height_chars t; n = max (arg0 t) 1 in
      if c = code (CHR ''m'') then Some (fold (\<lambda>i t. sgr (csi_args t ! nat i) t) [0..csi_arg_index t] t)
      else if c = code (CHR ''J'') then erase_display (arg0 t) t
      else if c = code (CHR ''K'') then erase_line (arg0 t) t
      else if csi_question_mark t \<and> (c = code (CHR ''h'') \<or> c = code (CHR ''l'')) then Some t
      else if c = code (CHR ''A'') then do { v \<leftarrow> chk (y - n); move_cursor x (iclamp v 0 (h - 1)) t }
      else if c = code (CHR ''B'') then do { v \<leftarrow> chk (y + n); move_cursor x (iclamp v 0 (h - 1)) t }
      else if c = code (CHR ''C'') then do { v \<leftarrow> chk (x + n); move_cursor (iclamp v 0 (w - 1)) y t }
      else if c = code (CHR ''D'') then do { v \<leftarrow> chk (x - n); move_cursor (iclamp v 0 (w - 1)) y t }
      else if c = code (CHR ''E'') then do { v \<leftarrow> chk (y + n); move_cursor 0 (iclamp v 0 (h - 1)) t }
      else if c = code (CHR ''F'') then do { v \<leftarrow> chk (y - n); move_cursor 0 (iclamp v 0 (h - 1)) t }
      else if c = code (CHR ''G'') then do { v \<leftarrow> chk (arg0 t - 1); move_cursor (iclamp v 0 (w - 1)) y t }
      else if c = code (CHR ''H'') \<or> c = code (CHR ''f'') then do {
        v \<leftarrow> chk (arg0 t - 1); u \<leftarrow> chk (csi_args t ! 1 - 1); move_cursor (iclamp v 0 (w - 1)) (iclamp u 0 (h - 1)) t }
      else if c = code (CHR ''d'') then do { v \<leftarrow> chk (arg0 t - 1); move_cursor x (iclamp v 0 (h - 1)) t }
      else if c = code (CHR ''r'') then move_cursor 0 0 t
      else if c = code (CHR ''P'') then delete_chars t
      else if c = code (CHR ''X'') then map_option snd (erase_chars t)
      else if c = code (CHR ''h'') \<or> c = code (CHR ''l'') then
        Some (if arg0 t = 4 then t\<lparr>insert_mode := (c = code (CHR ''h''))\<rparr> else t)
      else Some t)"

definition is_digit :: "u8 \<Rightarrow> bool" where "is_digit c \<longleftrightarrow> 48 \<le> c \<and> c \<le> 57"

definition is_letter :: "u8 \<Rightarrow> bool" where "is_letter c \<longleftrightarrow> 97 \<le> c \<and> c \<le> 122 \<or> 65 \<le> c \<and> c \<le> 90"

text \<open>A character of a control sequence; \<^verbatim>\<open>char\<close> comparisons are signed, so none above 127 is a digit or a letter.\<close>

definition csi_char :: "u8 \<Rightarrow> vterm \<Rightarrow> vterm option" where
  "csi_char c t =
     (if is_digit c then do {
        a \<leftarrow> rd (csi_args t) (nat (csi_arg_index t));
        v \<leftarrow> chk (a * 10 + (uint c - 48));
        Some (t\<lparr>csi_args := (csi_args t)[nat (csi_arg_index t) := v], csi_arg_count := csi_arg_index t + 1\<rparr>) }
      else if is_letter c then map_option reset_control_sequence (apply_control_sequence c t)
      else if c = 59 then do {
        let t = t\<lparr>csi_arg_index := csi_arg_index t + 1\<rparr>;
        let t = (if csi_arg_index t \<ge> 16 then reset_control_sequence t else t);
        as \<leftarrow> wr (csi_args t) (nat (csi_arg_index t)) 0;
        Some (t\<lparr>csi_args := as\<rparr>) }
      else if c = 63 then Some (t\<lparr>csi_question_mark := True\<rparr>)
      else Some (reset_control_sequence t))"

definition put_char :: "u8 \<Rightarrow> vterm \<Rightarrow> vterm option" where
  "put_char c t = do {
     t \<leftarrow> (if insert_mode t
           then mfold (\<lambda>i t. move_char i (cursor_y t) (i + 1) (cursor_y t) t) (rev [cursor_x t..width_chars t - 1]) t else Some t);
     t \<leftarrow> set_char_at_cursor c t;
     Some (t\<lparr>cursor_x := cursor_x t + 1\<rparr>) }"

definition plain_char :: "u8 \<Rightarrow> vterm \<Rightarrow> vterm option" where
  "plain_char c t =
     (if c = 9 then Some (t\<lparr>cursor_x := (cursor_x t + 1 + 7) div 8 * 8\<rparr>)
      else if c = 13 then Some (t\<lparr>cursor_x := 0\<rparr>)
      else if c = 11 \<or> c = 12 \<or> c = 10 then Some (t\<lparr>cursor_x := 0, cursor_y := cursor_y t + 1, cursor_needs_undrawing := True\<rparr>)
      else if c = 27 then Some (t\<lparr>csi_progress := 1\<rparr>)
      else if c = 7 \<or> c = 0 \<or> c = 0x7f \<or> c = 14 \<or> c = 15 then Some t
      else put_char c t)"

definition after_char :: "vterm \<Rightarrow> vterm option" where
  "after_char t = do {
     let t = (if cursor_x t \<ge> width_chars t then t\<lparr>cursor_x := 0, cursor_y := cursor_y t + 1\<rparr> else t);
     t \<leftarrow> (if cursor_y t \<ge> height_chars t then do { t \<leftarrow> scroll t; Some (t\<lparr>cursor_y := cursor_y t - 1\<rparr>) } else Some t);
     t \<leftarrow> redraw_cursor t;
     Some (t\<lparr>cursor_needs_undrawing := True\<rparr>) }"

definition write_char :: "u8 \<Rightarrow> vterm \<Rightarrow> vterm option" where
  "write_char c t =
     (if csi_progress t = 1 then Some (if c = 91 then t\<lparr>csi_progress := 2\<rparr> else reset_control_sequence t)
      else if csi_progress t = 2 then csi_char c t
      else if c = 8 then
        if cursor_x t > 0 then redraw_cursor (t\<lparr>cursor_x := cursor_x t - 1, cursor_needs_undrawing := True\<rparr>)
        else Some (t\<lparr>cursor_needs_undrawing := False\<rparr>)
      else do { t \<leftarrow> plain_char c t; after_char t })"

section \<open>The terminal of a screen\<close>

definition vterm_new :: "font \<Rightarrow> font \<Rightarrow> framebuffer \<Rightarrow> vterm" where
  "vterm_new rf bf fb =
     (let w = sint (fb_width fb) div uint (f_width rf); h = sint (fb_height fb) div uint (f_height rf)
      in \<lparr>vt_fb = fb, regular_font = rf, bold_font = bf,
          vt_buffer = replicate (nat (w * h)) (encode_cell 32 default_fg_color default_bg_color),
          current_fg = default_fg_color, current_bg = default_bg_color, is_bold = False, font_width = uint (f_width rf),
          font_height = uint (f_height rf), cursor_x = 0, cursor_y = 0, old_cursor_x = 0, old_cursor_y = 0,
          cursor_needs_undrawing = False, csi_progress = 0, csi_args = replicate 16 0, csi_arg_index = 0, csi_arg_count = 0,
          csi_question_mark = False, insert_mode = False, width_chars = w, height_chars = h\<rparr>)"

definition redraw :: "vterm \<Rightarrow> vterm option" where
  "redraw t = do {
     fb \<leftarrow> fill_rect 0 0 (ucast (fb_width (vt_fb t))) (ucast (fb_height (vt_fb t))) (current_bg t) (vt_fb t);
     t \<leftarrow> redraw_cursor (t\<lparr>vt_fb := fb\<rparr>);
     mfold (\<lambda>(x, y) t. do {
       e \<leftarrow> rd (vt_buffer t) (cell_index x y t);
       set_char_at x y (cell_c e) (cell_fg e) (cell_bg e) t }) (grid (width_chars t) (height_chars t)) t }"

section \<open>Drawing stays inside the frame buffer\<close>

definition fb_step :: "framebuffer \<Rightarrow> framebuffer \<Rightarrow> bool" where
  "fb_step fb fb' \<longleftrightarrow> (\<exists>b. length b = length (fb_bytes fb) \<and> fb' = fb\<lparr>fb_bytes := b\<rparr>)"

lemma fb_step_refl [simp]: "fb_step fb fb"
  unfolding fb_step_def by (rule exI[of _ "fb_bytes fb"]) simp

lemma fb_step_trans: "fb_step a b \<Longrightarrow> fb_step b c \<Longrightarrow> fb_step a c"
  by (auto simp: fb_step_def)

lemma fb_stepD:
  assumes "fb_step fb fb'"
  shows "length (fb_bytes fb') = length (fb_bytes fb)" "fb_width fb' = fb_width fb" "fb_height fb' = fb_height fb"
    "fb_pitch fb' = fb_pitch fb" "pixel_width fb' = pixel_width fb"
  using assms by (auto simp: fb_step_def)

lemma mfold_total:
  assumes "\<And>x s. x \<in> set xs \<Longrightarrow> I s \<Longrightarrow> \<exists>s'. f x s = Some s' \<and> I s'" "I s"
  shows "\<exists>s'. mfold f xs s = Some s' \<and> I s'"
  using assms
proof (induction xs arbitrary: s)
  case (Cons x xs)
  obtain s1 where "f x s = Some s1" "I s1" using Cons.prems by (meson list.set_intros(1))
  then show ?case using Cons.IH[of s1] Cons.prems(1) by auto
qed simp

lemma fb_poke_step: "a + length bs \<le> length (fb_bytes fb) \<Longrightarrow> \<exists>fb'. fb_poke a bs fb = Some fb' \<and> fb_step fb fb'"
proof -
  assume a: "a + length bs \<le> length (fb_bytes fb)"
  let ?b = "take a (fb_bytes fb) @ bs @ drop (a + length bs) (fb_bytes fb)"
  have "length ?b = length (fb_bytes fb)" using a by simp
  then have "fb_step fb (fb\<lparr>fb_bytes := ?b\<rparr>)" unfolding fb_step_def by (intro exI[of _ ?b] conjI refl)
  then show ?thesis using a by (simp add: fb_poke_def)
qed

lemma unat_u32_u64: "unat (ucast (x :: u32) :: u64) = unat x"
  by transfer simp

text \<open>A screen of 32-bit pixels whose lines and columns fit 15 bits.\<close>

definition fb_ok :: "framebuffer \<Rightarrow> bool" where
  "fb_ok fb \<longleftrightarrow> pixel_width fb = 4 \<and> unat (fb_width fb) * 4 \<le> unat (fb_pitch fb) \<and>
     length (fb_bytes fb) = unat (fb_pitch fb) * unat (fb_height fb) \<and> unat (fb_pitch fb) * unat (fb_height fb) < 2 ^ 32 \<and>
     unat (fb_width fb) < 2 ^ 15 \<and> unat (fb_height fb) < 2 ^ 15"

lemma fb_ok_step: "fb_ok fb \<Longrightarrow> fb_step fb fb' \<Longrightarrow> fb_ok fb'"
  by (auto simp: fb_ok_def fb_step_def)

lemma fb_size_len: "fb_ok fb \<Longrightarrow> unat (fb_size fb) = length (fb_bytes fb)"
  unfolding fb_ok_def fb_size_def unat_u32_u64 by (simp add: unat_word_ariths mult.commute)

lemma fb_count_in:
  assumes "fb_ok fb" "unat offset + unat cnt < 2 ^ 64" "offset < fb_size fb"
  shows "unat (fb_count cnt offset fb) = min (unat cnt) (length (fb_bytes fb) - unat offset)"
proof -
  have "unat (offset + cnt) = unat offset + unat cnt" using assms(2) by (rule unat_add_no_wrap)
  moreover have "unat (fb_size fb - offset) = length (fb_bytes fb) - unat offset"
    using assms(3) fb_size_len[OF assms(1)] by (simp add: unat_sub word_less_nat_alt word_le_nat_alt)
  ultimately show ?thesis using fb_size_len[OF assms(1)] by (auto simp: fb_count_def word_less_nat_alt)
qed

lemma fb_read_in:
  assumes "fb_ok fb" "unat offset + unat cnt < 2 ^ 64"
  shows "fb_read cnt offset fb = Some (take (unat cnt) (drop (unat offset) (fb_bytes fb)))"
proof (cases "offset < fb_size fb")
  case True
  then have "unat offset < length (fb_bytes fb)" using fb_size_len[OF assms(1)] by (simp add: word_less_nat_alt)
  then show ?thesis using True fb_count_in[OF assms True] by (simp add: fb_read_def min_def not_le)
next
  case False
  then show ?thesis using fb_size_len[OF assms(1)] by (simp add: fb_read_def word_le_nat_alt not_less)
qed

text \<open>Bytes written inside the frame buffer are read back; the ones behind its end are not taken.\<close>

lemma fb_write_read:
  assumes "fb_ok fb" "unat offset + unat cnt < 2 ^ 64" "length buf = unat cnt" "offset < fb_size fb"
  shows "\<exists>n fb'. fb_write buf cnt offset fb = Some (n, fb') \<and> fb_step fb fb' \<and>
    unat n = min (unat cnt) (length (fb_bytes fb) - unat offset) \<and> fb_read n offset fb' = Some (take (unat n) buf)"
proof -
  let ?n = "fb_count cnt offset fb" and ?o = "unat offset"
  note n = fb_count_in[OF assms(1,2,4)]
  have o: "?o < length (fb_bytes fb)" using assms(4) fb_size_len[OF assms(1)] by (simp add: word_less_nat_alt)
  define b where "b = take ?o (fb_bytes fb) @ take (unat ?n) buf @ drop (?o + unat ?n) (fb_bytes fb)"
  have lb: "length b = length (fb_bytes fb)" using n o assms(3) by (simp add: b_def)
  then have step: "fb_step fb (fb\<lparr>fb_bytes := b\<rparr>)" unfolding fb_step_def by blast
  have w: "fb_write buf cnt offset fb = Some (?n, fb\<lparr>fb_bytes := b\<rparr>)"
    using assms(4)[unfolded not_le[symmetric]] assms(3) n o by (auto simp: fb_write_def b_def)
  have "unat ?n \<le> unat cnt" using n by simp
  then have "unat offset + unat ?n < 2 ^ 64" using assms(2) by linarith
  from fb_read_in[OF fb_ok_step[OF assms(1) step] this] have "fb_read ?n offset (fb\<lparr>fb_bytes := b\<rparr>) = Some (take (unat ?n) buf)"
    using o n assms(3) by (simp add: b_def)
  then show ?thesis using w step n by blast
qed

text \<open>A count that wraps around with the offset passes the size check and is copied whole.\<close>

lemma fb_read_wraps:
  assumes "fb_ok fb" "offset < fb_size fb" "offset + cnt \<le> fb_size fb" "2 ^ 64 \<le> unat offset + unat cnt"
  shows "fb_read cnt offset fb = None"
proof -
  have "length (fb_bytes fb) < 2 ^ 32" using assms(1) by (simp add: fb_ok_def)
  then have "length (fb_bytes fb) < unat offset + unat cnt" using assms(4) by simp
  moreover have "fb_count cnt offset fb = cnt" using leD[OF assms(3)] by (simp add: fb_count_def)
  ultimately show ?thesis using leD[of "fb_size fb" offset] assms(2) by (auto simp: fb_read_def mem_read_def)
qed

text \<open>The bounds check of \<open>put_pixel\<close> lets the first line below the screen pass.\<close>

lemma put_pixel_below_screen:
  assumes "fb_ok fb" "ucast y = fb_height fb" "ucast x \<le> fb_width fb" "unat (fb_pitch fb) * unat (fb_height fb) + unat (fb_width fb) * 4 < 2 ^ 32"
  shows "put_pixel x y c fb = None"
proof -
  have x: "unat (ucast x * 4 :: u32) = unat (ucast x :: u32) * 4" "unat (ucast x :: u32) \<le> unat (fb_width fb)"
    using assms(1,3) by (simp_all add: fb_ok_def unat_word_ariths word_le_nat_alt)
  have "unat (fb_height fb * fb_pitch fb) = length (fb_bytes fb)" using assms(1) by (simp add: fb_ok_def unat_word_ariths mult.commute)
  moreover have l: "length (fb_bytes fb) + unat (fb_width fb) * 4 < 2 ^ 32" using assms(1,4) by (simp add: fb_ok_def)
  ultimately have "unat (ucast x * 4 + fb_height fb * fb_pitch fb) = unat (ucast x :: u32) * 4 + length (fb_bytes fb)"
    using x by (simp add: unat_word_ariths(1))
  then show ?thesis using assms(1-3) by (simp add: put_pixel_def fb_poke_def rgb_bytes_def fb_ok_def)
qed

definition font_ok :: "font \<Rightarrow> bool" where
  "font_ok f \<longleftrightarrow> 0 < f_width f \<and> f_width f \<le> 32 \<and> 0 < f_height f \<and> 0 < num_glyph f \<and> unat (num_glyph f) * unat (bytes_per_glyph f) < 2 ^ 32 \<and>
     (unat (num_glyph f) - 1) * unat (bytes_per_glyph f) + unat (f_height f) * ((unat (f_width f) + 7) div 8) \<le> length (font_data f)"

lemma draw_row_step:
  assumes "pixel_width fb = 4" "unat line + 4 * n \<le> length (fb_bytes fb)" "length (fb_bytes fb) < 2 ^ 32"
  shows "\<exists>fb'. draw_row n g mk line fg bg fb = Some fb' \<and> fb_step fb fb'"
  using assms
proof (induction n arbitrary: mk line fb)
  case (Suc n)
  let ?c = "if ucast g AND mk \<noteq> 0 then fg else bg"
  obtain f1 where f1: "fb_poke (unat line) (rgb_bytes ?c @ [ucast (drop_bit 24 ?c)]) fb = Some f1" "fb_step fb f1"
    using fb_poke_step[of "unat line" "rgb_bytes ?c @ [ucast (drop_bit 24 ?c)]" fb] Suc.prems(2) by (auto simp: rgb_bytes_def)
  note d = fb_stepD[OF f1(2)]
  have "unat (line + 4) = unat line + 4" using Suc.prems(2,3) unat_add_no_wrap[of line 4] by simp
  then obtain f2 where "draw_row n g (drop_bit 1 mk) (line + 4) fg bg f1 = Some f2" "fb_step f1 f2"
    using Suc.IH[of f1 "line + 4" "drop_bit 1 mk"] Suc.prems d by auto
  then show ?case using f1 fb_step_trans Suc.prems(1) d(5) by (auto simp: Let_def)
qed simp

lemma glyph_mask_some: "font_ok f \<Longrightarrow> \<exists>mk. glyph_mask (f_width f) = Some mk"
  by (simp add: font_ok_def glyph_mask_def word_le_nat_alt word_less_nat_alt Suc_le_eq)

lemma draw_rows_step:
  assumes "fb_ok fb" "n * bpl + glyph \<le> length (font_data f)" "0 < bpl" "glyph_mask (f_width f) = Some mk"
    and "n \<noteq> 0 \<Longrightarrow> unat wh + (n - 1) * unat (fb_pitch fb) + 4 * unat (f_width f) \<le> length (fb_bytes fb)"
  shows "\<exists>fb'. draw_rows n f glyph bpl wh fg bg fb = Some fb' \<and> fb_step fb fb'"
  using assms
proof (induction n arbitrary: glyph wh fb)
  case (Suc n)
  have len: "length (fb_bytes fb) < 2 ^ 32" "pixel_width fb = 4" using Suc.prems(1) by (auto simp: fb_ok_def)
  have "glyph < length (font_data f)" using Suc.prems(2,3) by simp
  moreover obtain f1 where f1: "draw_row (unat (f_width f)) (font_data f ! glyph) mk wh fg bg fb = Some f1" "fb_step fb f1"
    using draw_row_step[OF len(2) _ len(1), of wh "unat (f_width f)"] Suc.prems(5) by fastforce
  moreover note d = fb_stepD[OF f1(2)]
  have "n \<noteq> 0 \<Longrightarrow> unat (wh + ucast (fb_pitch fb)) + (n - 1) * unat (fb_pitch fb) + 4 * unat (f_width f) \<le> length (fb_bytes fb)"
  proof -
    assume n: "n \<noteq> 0"
    have b: "unat wh + n * unat (fb_pitch fb) + 4 * unat (f_width f) \<le> length (fb_bytes fb)" using Suc.prems(5) by simp
    have np: "n * unat (fb_pitch fb) = unat (fb_pitch fb) + (n - 1) * unat (fb_pitch fb)" using n by (cases n) auto
    have "unat (ucast (fb_pitch fb) :: u64) = unat (fb_pitch fb)" by (rule unat_u32_u64)
    moreover have "unat wh + unat (fb_pitch fb) < 2 ^ 32" using b np len(1) by linarith
    then have "unat wh + unat (fb_pitch fb) < 2 ^ 64" by (rule less_trans) simp
    ultimately have "unat (wh + ucast (fb_pitch fb)) = unat wh + unat (fb_pitch fb)" by (subst unat_add_no_wrap) simp_all
    then show ?thesis using b np by linarith
  qed
  then obtain f2 where "draw_rows n f (glyph + bpl) bpl (wh + ucast (fb_pitch fb)) fg bg f1 = Some f2" "fb_step f1 f2"
    using Suc.IH[OF fb_ok_step[OF Suc.prems(1) f1(2)], of "glyph + bpl" "wh + ucast (fb_pitch fb)"] Suc.prems(2-4) d by auto
  ultimately show ?case using fb_step_trans d(4) Suc.prems(4) by auto
qed simp

text \<open>A character cell that lies on the screen.\<close>

definition cell_ok :: "framebuffer \<Rightarrow> font \<Rightarrow> int \<Rightarrow> int \<Rightarrow> bool" where
  "cell_ok fb f x y \<longleftrightarrow> 0 \<le> x \<and> 0 \<le> y \<and> (x + 1) * uint (f_width f) \<le> uint (fb_width fb) \<and> (y + 1) * uint (f_height f) \<le> uint (fb_height fb)"

lemma cell_nat:
  assumes "cell_ok fb f x y" "font_ok f" "fb_ok fb"
  shows "(nat x + 1) * unat (f_width f) \<le> unat (fb_width fb)" "(nat y + 1) * unat (f_height f) \<le> unat (fb_height fb)"
    "nat x < 2 ^ 15" "nat y < 2 ^ 15"
proof -
  have xy: "0 \<le> x" "0 \<le> y" using assms(1) by (auto simp: cell_ok_def)
  have "int ((nat x + 1) * unat (f_width f)) \<le> int (unat (fb_width fb))" "int ((nat y + 1) * unat (f_height f)) \<le> int (unat (fb_height fb))"
    using assms(1) xy by (simp_all add: cell_ok_def algebra_simps)
  then show a: "(nat x + 1) * unat (f_width f) \<le> unat (fb_width fb)" "(nat y + 1) * unat (f_height f) \<le> unat (fb_height fb)"
    by (simp_all only: of_nat_le_iff)
  have "0 < unat (f_width f)" "0 < unat (f_height f)" using assms(2) by (auto simp: font_ok_def word_less_nat_alt)
  then have "nat x + 1 \<le> unat (fb_width fb)" "nat y + 1 \<le> unat (fb_height fb)"
    using a by (metis One_nat_def Suc_leI le_trans mult.right_neutral mult_le_mono2)+
  then show "nat x < 2 ^ 15" "nat y < 2 ^ 15" using assms(3) by (auto simp: fb_ok_def)
qed

lemma u16_index:
  assumes "n < 2 ^ 15"
  shows "(ucast (of_nat n :: u16) :: u32) = of_nat n"
proof -
  have "unat (ucast (w :: u16) :: u32) = unat w" for w by transfer simp
  then show ?thesis using assms by (simp add: word_unat_eq_iff unat_of_nat take_bit_nat_eq_self)
qed

lemma draw_psf_char_step:
  assumes "fb_ok fb" "font_ok f" "cell_ok fb f x y"
  shows "\<exists>fb'. draw_psf_char f c (of_int x) (of_int y) 0 0 fg bg fb = Some fb' \<and> fb_step fb fb'"
proof -
  let ?w = "unat (f_width f)" and ?h = "unat (f_height f)" and ?p = "unat (fb_pitch fb)"
  let ?N = "nat y * ?h * ?p + nat x * ?w * 4"
  note cn = cell_nat[OF assms(3,2,1)]
  note fo = assms(1)[unfolded fb_ok_def] and fn = assms(2)[unfolded font_ok_def word_less_nat_alt word_le_nat_alt]
  have h0: "?h \<noteq> 0" using fn by auto
  have bound: "?N + (?h - 1) * ?p + 4 * ?w \<le> length (fb_bytes fb)"
  proof -
    have "nat x * ?w * 4 + 4 * ?w \<le> ?p" using cn(1) fo by (simp add: algebra_simps)
    moreover have "nat y * ?h * ?p + (?h - 1) * ?p + ?p \<le> unat (fb_height fb) * ?p"
    proof -
      have "(nat y * ?h + (?h - 1) + 1) * ?p \<le> unat (fb_height fb) * ?p" using cn(2) h0 by (intro mult_le_mono1) (simp add: algebra_simps)
      then show ?thesis by (simp add: algebra_simps)
    qed
    ultimately have "?N + (?h - 1) * ?p + 4 * ?w \<le> unat (fb_height fb) * ?p" by linarith
    then show ?thesis using fo by (simp add: mult.commute)
  qed
  have xy: "(of_int x :: u16) = of_nat (nat x)" "(of_int y :: u16) = of_nat (nat y)" using assms(3) by (auto simp: cell_ok_def)
  have wh: "unat (ucast ((ucast (of_int y :: u16) * f_height f + ucast (0 :: u16)) * fb_pitch fb + (ucast (of_int x :: u16) * f_width f + ucast (0 :: u16)) * 4 :: u32) :: u64) = ?N"
  proof -
    have "(ucast (of_int y :: u16) * f_height f + ucast (0 :: u16)) * fb_pitch fb + (ucast (of_int x :: u16) * f_width f + ucast (0 :: u16)) * 4 = (of_nat ?N :: u32)"
      unfolding xy using u16_index[OF cn(3)] u16_index[OF cn(4)] by simp
    moreover have "?N < 2 ^ 32" using bound fo by linarith
    ultimately show ?thesis by (simp only: unat_u32_u64) (simp add: unat_of_nat take_bit_nat_eq_self del: of_nat_add of_nat_mult)
  qed
  have bpl: "unat ((f_width f + 7) div 8) = (?w + 7) div 8"
  proof -
    have "unat (f_width f + 7) = ?w + 7" using fn by (simp add: unat_word_ariths)
    then show ?thesis by (simp add: unat_div)
  qed
  have pos: "0 < (?w + 7) div 8" using fn by (simp add: div_greater_zero_iff)
  have gl: "?h * ((?w + 7) div 8) + unat ((if c < num_glyph f then c else 0) * bytes_per_glyph f) \<le> length (font_data f)"
  proof -
    let ?g = "if c < num_glyph f then c else 0"
    have g: "unat ?g \<le> unat (num_glyph f) - 1" using fn by (auto simp: word_less_nat_alt)
    have "unat (?g * bytes_per_glyph f) \<le> unat ?g * unat (bytes_per_glyph f)" by (simp add: unat_word_ariths)
    then have "unat (?g * bytes_per_glyph f) \<le> (unat (num_glyph f) - 1) * unat (bytes_per_glyph f)"
      using mult_le_mono1[OF g, of "unat (bytes_per_glyph f)"] by linarith
    then show ?thesis using fn by linarith
  qed
  obtain mk where mk: "glyph_mask (f_width f) = Some mk" using glyph_mask_some[OF assms(2)] by blast
  show ?thesis
    unfolding draw_psf_char_def Let_def
    by (rule draw_rows_step[OF assms(1) _ _ mk]) (use gl bpl pos bound wh in auto)
qed

lemma fill_rect_step:
  assumes "fb_ok fb" "unat x + unat w \<le> 65535" "unat y + unat h \<le> 65535"
  shows "\<exists>fb'. fill_rect x y w h c fb = Some fb' \<and> fb_step fb fb'"
proof -
  note fo = assms(1)[unfolded fb_ok_def]
  have px: "\<exists>fb2. fb_poke (unat (fb_pitch fb * of_nat i) + unat (of_nat j * pixel_width fb)) (rgb_bytes c) fb1 = Some fb2 \<and> fb_step fb fb2"
    if ij: "i < unat (fb_height fb)" "j < unat (fb_width fb)" and st: "fb_step fb fb1" for i j fb1
  proof -
    have "unat (fb_pitch fb * of_nat i) \<le> unat (fb_pitch fb) * i"
    proof -
      have "unat (of_nat i :: u32) = i" using ij(1) fo by (simp add: unat_of_nat take_bit_nat_eq_self)
      then show ?thesis by (simp add: unat_word_ariths)
    qed
    moreover have "unat (of_nat j * pixel_width fb) = j * 4"
      using fo ij(2) by (simp add: unat_word_ariths unat_of_nat take_bit_nat_eq_self)
    moreover have "unat (fb_pitch fb) * i + unat (fb_pitch fb) \<le> unat (fb_pitch fb) * unat (fb_height fb)"
      using mult_le_mono2[of "i + 1" "unat (fb_height fb)" "unat (fb_pitch fb)"] ij(1) by simp
    ultimately have "unat (fb_pitch fb * of_nat i) + unat (of_nat j * pixel_width fb) + length (rgb_bytes c) \<le> length (fb_bytes fb1)"
      using fb_stepD(1)[OF st] fo ij(2) by (simp add: rgb_bytes_def)
    from fb_poke_step[OF this] show ?thesis using fb_step_trans[OF st] by blast
  qed
  have "\<exists>fb'. mfold (\<lambda>i. mfold (\<lambda>j. fb_poke (unat (fb_pitch fb * of_nat i) + unat (of_nat j * pixel_width fb)) (rgb_bytes c))
        (filter (\<lambda>j. j < unat (fb_width fb)) [unat x..<unat x + unat w]))
      (filter (\<lambda>i. i < unat (fb_height fb)) [unat y..<unat y + unat h]) fb = Some fb' \<and> fb_step fb fb'"
    by (rule mfold_total, rule mfold_total) (auto intro!: px)
  then show ?thesis using assms(2,3) by (simp add: fill_rect_def)
qed

section \<open>The terminal never leaves its screen\<close>

text \<open>What no operation but the cursor moves changes, and the positions of the cursor.\<close>

definition vt_base :: "vterm \<Rightarrow> bool" where
  "vt_base t \<longleftrightarrow> fb_ok (vt_fb t) \<and> font_ok (regular_font t) \<and> font_ok (bold_font t) \<and> f_width (bold_font t) = f_width (regular_font t) \<and>
     f_height (bold_font t) = f_height (regular_font t) \<and> font_width t = uint (f_width (regular_font t)) \<and>
     font_height t = uint (f_height (regular_font t)) \<and> 0 < width_chars t \<and> 0 < height_chars t \<and>
     width_chars t * uint (f_width (regular_font t)) \<le> uint (fb_width (vt_fb t)) \<and>
     height_chars t * uint (f_height (regular_font t)) \<le> uint (fb_height (vt_fb t)) \<and>
     int (length (vt_buffer t)) = width_chars t * height_chars t \<and> length (csi_args t) = 16 \<and>
     list_all (\<lambda>a. 0 \<le> a \<and> a < 1000000000) (csi_args t) \<and> 0 \<le> csi_arg_index t \<and> csi_arg_index t < 16"

definition on_screen :: "vterm \<Rightarrow> int \<Rightarrow> int \<Rightarrow> bool" where
  "on_screen t x y \<longleftrightarrow> 0 \<le> x \<and> x < width_chars t \<and> 0 \<le> y \<and> y < height_chars t"

definition vt_ok :: "vterm \<Rightarrow> bool" where
  "vt_ok t \<longleftrightarrow> vt_base t \<and> on_screen t (cursor_x t) (cursor_y t) \<and> on_screen t (old_cursor_x t) (old_cursor_y t)"

text \<open>Drawing changes the frame buffer, the characters and the note that the cursor is drawn.\<close>

definition drawn :: "vterm \<Rightarrow> vterm \<Rightarrow> bool" where
  "drawn t t' \<longleftrightarrow> (\<exists>fb b u. fb_step (vt_fb t) fb \<and> length b = length (vt_buffer t) \<and>
     t' = t\<lparr>vt_fb := fb, vt_buffer := b, cursor_needs_undrawing := u\<rparr>)"

lemma drawn_refl [simp]: "drawn t t"
  unfolding drawn_def by (intro exI[of _ "vt_fb t"] exI[of _ "vt_buffer t"] exI[of _ "cursor_needs_undrawing t"]) simp

lemma drawn_trans: "drawn a b \<Longrightarrow> drawn b c \<Longrightarrow> drawn a c"
  unfolding drawn_def by (elim exE conjE) (auto intro: fb_step_trans)

lemma drawn_base: "vt_base t \<Longrightarrow> drawn t t' \<Longrightarrow> vt_base t'"
  unfolding drawn_def vt_base_def by (elim exE conjE) (simp add: fb_ok_step fb_stepD)

lemma drawn_fields:
  assumes "drawn t t'"
  shows "cursor_x t' = cursor_x t" "cursor_y t' = cursor_y t" "old_cursor_x t' = old_cursor_x t" "old_cursor_y t' = old_cursor_y t"
    "width_chars t' = width_chars t" "height_chars t' = height_chars t" "insert_mode t' = insert_mode t" "csi_progress t' = csi_progress t"
    "on_screen t' x y = on_screen t x y"
  using assms unfolding drawn_def on_screen_def by auto

lemma vt_baseD:
  assumes "vt_base t"
  shows "fb_ok (vt_fb t)" "font_ok (regular_font t)" "font_ok (bold_font t)" "f_width (bold_font t) = f_width (regular_font t)"
    "f_height (bold_font t) = f_height (regular_font t)" "font_width t = uint (f_width (regular_font t))"
    "font_height t = uint (f_height (regular_font t))" "0 < width_chars t" "0 < height_chars t"
    "width_chars t * uint (f_width (regular_font t)) \<le> uint (fb_width (vt_fb t))"
    "height_chars t * uint (f_height (regular_font t)) \<le> uint (fb_height (vt_fb t))"
    "int (length (vt_buffer t)) = width_chars t * height_chars t" "length (csi_args t) = 16"
    "list_all (\<lambda>a. 0 \<le> a \<and> a < 1000000000) (csi_args t)" "0 \<le> csi_arg_index t" "csi_arg_index t < 16"
  using assms unfolding vt_base_def by blast+

lemma screen_small:
  assumes "vt_base t"
  shows "width_chars t < 2 ^ 15" "height_chars t < 2 ^ 15"
proof -
  note b = vt_baseD[OF assms]
  have f: "1 \<le> uint (f_width (regular_font t))" "1 \<le> uint (f_height (regular_font t))"
    using b(2) by (auto simp: font_ok_def word_less_def)
  have s: "uint (fb_width (vt_fb t)) < 2 ^ 15" "uint (fb_height (vt_fb t)) < 2 ^ 15"
    using b(1) by (auto simp: fb_ok_def nat_less_iff simp flip: nat_uint_eq)
  have "width_chars t * 1 \<le> width_chars t * uint (f_width (regular_font t))" using f b(8) by (intro mult_left_mono) auto
  then show "width_chars t < 2 ^ 15" using b(10) s by linarith
  have "height_chars t * 1 \<le> height_chars t * uint (f_height (regular_font t))" using f b(9) by (intro mult_left_mono) auto
  then show "height_chars t < 2 ^ 15" using b(11) s by linarith
qed

lemma cell_index_in:
  assumes "vt_base t" "on_screen t x y"
  shows "cell_index x y t = nat (y * width_chars t + x)" "cell_index x y t < length (vt_buffer t)"
proof -
  note b = vt_baseD[OF assms(1)] and sm = screen_small[OF assms(1)]
  let ?v = "y * width_chars t + x"
  have xy: "0 \<le> x" "x < width_chars t" "0 \<le> y" "y < height_chars t" using assms(2) by (auto simp: on_screen_def)
  have "(y + 1) * width_chars t \<le> height_chars t * width_chars t" using xy b(8) by (intro mult_right_mono) auto
  then have lt: "?v < width_chars t * height_chars t" using xy by (simp add: algebra_simps)
  have "0 \<le> ?v" using xy b(8) by simp
  have "width_chars t * height_chars t < 2 ^ 15 * 2 ^ 15" using sm b(8,9) by (intro mult_strict_mono) auto
  then have "?v < 2 ^ 64" using lt by simp
  then have "unat (of_int ?v :: u64) = nat ?v" using \<open>0 \<le> ?v\<close> by (simp add: unat_eq_nat_uint uint_word_of_int_eq take_bit_int_eq_self del: of_int_add of_int_mult)
  then show e: "cell_index x y t = nat ?v" by (simp add: cell_index_def)
  show "cell_index x y t < length (vt_buffer t)" unfolding e using lt b(12) \<open>0 \<le> ?v\<close> by linarith
qed

lemma cell_on_screen:
  assumes "vt_base t" "on_screen t x y" "f = regular_font t \<or> f = bold_font t"
  shows "cell_ok (vt_fb t) f x y"
proof -
  note b = vt_baseD[OF assms(1)]
  have f: "uint (f_width f) = uint (f_width (regular_font t))" "uint (f_height f) = uint (f_height (regular_font t))" using assms(3) b(4,5) by auto
  have "(x + 1) * uint (f_width f) \<le> width_chars t * uint (f_width f)" "(y + 1) * uint (f_height f) \<le> height_chars t * uint (f_height f)"
    using assms(2) by (auto simp: on_screen_def intro!: mult_right_mono)
  then show ?thesis using assms(2) b(10,11) f by (simp add: cell_ok_def on_screen_def)
qed

lemma draw_char_at_drawn:
  assumes "vt_base t" "on_screen t x y"
  shows "\<exists>t'. draw_char_at x y c fg bg t = Some t' \<and> drawn t t'"
proof -
  let ?f = "if fg AND bold_flag \<noteq> 0 then bold_font t else regular_font t"
  have fc: "font_ok ?f" "cell_ok (vt_fb t) ?f x y" using cell_on_screen[OF assms] vt_baseD(2,3)[OF assms(1)] by simp_all
  obtain fb where fb: "draw_psf_char ?f (signed c) (of_int x) (of_int y) 0 0 (fg AND 0xFFFFFF) bg (vt_fb t) = Some fb" "fb_step (vt_fb t) fb"
    using draw_psf_char_step[OF vt_baseD(1)[OF assms(1)] fc] by blast
  have "drawn t (t\<lparr>vt_fb := fb\<rparr>)"
    unfolding drawn_def using fb(2) by (intro exI[of _ fb] exI[of _ "vt_buffer t"] exI[of _ "cursor_needs_undrawing t"]) simp
  then show ?thesis using fb(1) by (simp add: draw_char_at_def Let_def)
qed

lemma set_char_at_drawn:
  assumes "vt_base t" "on_screen t x y"
  shows "\<exists>t'. set_char_at x y c fg bg t = Some t' \<and> drawn t t' \<and> vt_buffer t' = (vt_buffer t)[cell_index x y t := encode_cell c fg bg]"
proof -
  let ?i = "cell_index x y t" and ?e = "encode_cell c fg bg"
  note i = cell_index_in(2)[OF assms]
  show ?thesis
  proof (cases "vt_buffer t ! ?i = ?e")
    case True
    then have "(vt_buffer t)[?i := ?e] = vt_buffer t" by (metis list_update_id)
    then show ?thesis using True i by (simp add: set_char_at_def Let_def)
  next
    case False
    let ?t = "t\<lparr>vt_buffer := (vt_buffer t)[?i := ?e]\<rparr>"
    have d: "drawn t ?t"
      unfolding drawn_def by (intro exI[of _ "vt_fb t"] exI[of _ "(vt_buffer t)[?i := ?e]"] exI[of _ "cursor_needs_undrawing t"]) simp
    obtain t1 where t1: "draw_char_at x y c fg bg ?t = Some t1" "drawn ?t t1" "vt_buffer t1 = vt_buffer ?t"
      using draw_char_at_drawn[OF drawn_base[OF assms(1) d], of x y c fg bg] assms(2) drawn_fields(9)[OF d]
      by (auto simp: draw_char_at_def Let_def split: bind_splits)
    have "drawn t1 (t1\<lparr>cursor_needs_undrawing := False\<rparr>)"
      unfolding drawn_def by (intro exI[of _ "vt_fb t1"] exI[of _ "vt_buffer t1"] exI[of _ False]) simp
    then have "drawn t (t1\<lparr>cursor_needs_undrawing := False\<rparr>)" using d t1(2) drawn_trans by blast
    then show ?thesis using False i t1 by (simp add: set_char_at_def Let_def)
  qed
qed

text \<open>Steps that only draw, one after the other.\<close>

lemma mfold_drawn:
  assumes "vt_base t" "\<And>x s. x \<in> set xs \<Longrightarrow> vt_base s \<Longrightarrow> drawn t s \<Longrightarrow> \<exists>s'. f x s = Some s' \<and> drawn s s'"
  shows "\<exists>t'. mfold f xs t = Some t' \<and> drawn t t'"
proof -
  have "\<exists>t'. mfold f xs t = Some t' \<and> vt_base t' \<and> drawn t t'"
  proof (rule mfold_total)
    fix x s assume x: "x \<in> set xs" and s: "vt_base s \<and> drawn t s"
    obtain s' where s': "f x s = Some s'" "drawn s s'" using assms(2)[OF x] s by blast
    then show "\<exists>s'. f x s = Some s' \<and> vt_base s' \<and> drawn t s'" using s drawn_base drawn_trans by blast
  qed (use assms(1) in simp)
  then show ?thesis by blast
qed

lemma blank_drawn:
  assumes "vt_base t" "on_screen t x y"
  shows "\<exists>t'. blank x y t = Some t' \<and> drawn t t'"
  using set_char_at_drawn[OF assms] unfolding blank_def by blast

lemma blanks_drawn:
  assumes "vt_base t" "\<And>x y. (x, y) \<in> set ps \<Longrightarrow> on_screen t x y"
  shows "\<exists>t'. blanks ps t = Some t' \<and> drawn t t'"
  unfolding blanks_def
proof (rule mfold_drawn[OF assms(1)])
  fix p s assume p: "p \<in> set ps" "vt_base s" "drawn t s"
  obtain x y where xy: "p = (x, y)" by fastforce
  have "on_screen s x y" using assms(2) p xy drawn_fields(9)[OF p(3)] by simp
  from blank_drawn[OF p(2) this] show "\<exists>s'. (case p of (x, y) \<Rightarrow> blank x y) s = Some s' \<and> drawn s s'" by (simp add: xy)
qed

lemma move_char_drawn:
  assumes "vt_base t" "on_screen t x y" "on_screen t x' y'"
  shows "\<exists>t'. move_char x y x' y' t = Some t' \<and> drawn t t'"
proof -
  let ?e = "vt_buffer t ! cell_index x y t"
  obtain t1 where t1: "set_char_at x' y' (cell_c ?e) (cell_fg ?e) (cell_bg ?e) t = Some t1" "drawn t t1"
    using set_char_at_drawn[OF assms(1,3)] by blast
  obtain t2 where "blank x y t1 = Some t2" "drawn t1 t2"
    using blank_drawn[OF drawn_base[OF assms(1) t1(2)], of x y] assms(2) drawn_fields(9)[OF t1(2)] by auto
  then show ?thesis using t1 cell_index_in(2)[OF assms(1,2)] drawn_trans by (auto simp: move_char_def)
qed

lemma copy_cell_drawn:
  assumes "vt_base t" "on_screen t x y" "on_screen t x' y'"
  shows "\<exists>t'. do { e \<leftarrow> rd (vt_buffer t) (cell_index x y t); set_char_at x' y' (cell_c e) (cell_fg e) (cell_bg e) t } = Some t' \<and> drawn t t'"
proof -
  let ?e = "vt_buffer t ! cell_index x y t"
  obtain t' where "set_char_at x' y' (cell_c ?e) (cell_fg ?e) (cell_bg ?e) t = Some t'" "drawn t t'"
    using set_char_at_drawn[OF assms(1,3)] by blast
  then show ?thesis using cell_index_in(2)[OF assms(1,2)] by simp
qed

lemma grid_in: "(x, y) \<in> set (grid w h) \<Longrightarrow> 0 \<le> x \<and> x < w \<and> 0 \<le> y \<and> y < h"
  by (auto simp: grid_def)

lemma set_undraw_drawn: "drawn t (t\<lparr>cursor_needs_undrawing := u\<rparr>)"
  unfolding drawn_def by (intro exI[of _ "vt_fb t"] exI[of _ "vt_buffer t"] exI[of _ u]) simp

lemma scroll_drawn:
  assumes "vt_base t"
  shows "\<exists>t'. scroll t = Some t' \<and> drawn t t'"
proof -
  let ?f = "\<lambda>(x, y) t. do { e \<leftarrow> rd (vt_buffer t) (cell_index x (y + 1) t); set_char_at x y (cell_c e) (cell_fg e) (cell_bg e) t }"
  obtain t1 where t1: "mfold ?f (grid (width_chars t) (height_chars t - 1)) t = Some t1" "drawn t t1"
  proof -
    have "\<exists>t'. mfold ?f (grid (width_chars t) (height_chars t - 1)) t = Some t' \<and> drawn t t'"
    proof (rule mfold_drawn[OF assms])
      fix p s assume p: "p \<in> set (grid (width_chars t) (height_chars t - 1))" "vt_base s" "drawn t s"
      obtain x y where xy: "p = (x, y)" by fastforce
      have "on_screen s x (y + 1)" "on_screen s x y" using grid_in[of x y "width_chars t" "height_chars t - 1"] p(1) xy drawn_fields(5,6)[OF p(3)] by (auto simp: on_screen_def)
      from copy_cell_drawn[OF p(2) this] show "\<exists>s'. ?f p s = Some s' \<and> drawn s s'" by (simp add: xy)
    qed
    then show thesis using that by blast
  qed
  have b1: "vt_base t1" using drawn_base[OF assms t1(2)] .
  obtain t2 where t2: "mfold (\<lambda>x t. blank x (height_chars t - 1) t) [0..width_chars t1 - 1] t1 = Some t2" "drawn t1 t2"
  proof -
    have "\<exists>t'. mfold (\<lambda>x t. blank x (height_chars t - 1) t) [0..width_chars t1 - 1] t1 = Some t' \<and> drawn t1 t'"
    proof (rule mfold_drawn[OF b1])
      fix x s assume x: "x \<in> set [0..width_chars t1 - 1]" "vt_base s" "drawn t1 s"
      have "on_screen s x (height_chars s - 1)" using x(1) drawn_fields(5)[OF x(3)] vt_baseD(9)[OF x(2)] by (auto simp: on_screen_def)
      from blank_drawn[OF x(2) this] show "\<exists>s'. blank x (height_chars s - 1) s = Some s' \<and> drawn s s'" .
    qed
    then show thesis using that by blast
  qed
  have "drawn t (t2\<lparr>cursor_needs_undrawing := True\<rparr>)"
    by (rule drawn_trans[OF t1(2) drawn_trans[OF t2(2) set_undraw_drawn]])
  moreover have "scroll t = Some (t2\<lparr>cursor_needs_undrawing := True\<rparr>)" unfolding scroll_def t1(1) using t2(1) by simp
  ultimately show ?thesis by blast
qed

lemma cursor_bar_drawn:
  assumes "vt_base t" "on_screen t x y"
  shows "\<exists>t'. cursor_bar x y c t = Some t' \<and> drawn t t'"
proof -
  note b = vt_baseD[OF assms(1)]
  have sc: "uint (fb_width (vt_fb t)) < 2 ^ 15" "uint (fb_height (vt_fb t)) < 2 ^ 15"
    using b(1) by (auto simp: fb_ok_def nat_less_iff simp flip: nat_uint_eq)
  have c: "cell_ok (vt_fb t) (regular_font t) x y" using cell_on_screen[OF assms] by simp
  have x: "0 \<le> x * font_width t" "x * font_width t < 2 ^ 15"
    using c sc(1) b(2,6) by (auto simp: cell_ok_def algebra_simps font_ok_def word_less_def)
  have y: "0 \<le> y * font_height t" "y * font_height t + font_height t < 2 ^ 15" "0 \<le> font_height t"
    using c sc(2) b(7) by (auto simp: cell_ok_def algebra_simps)
  have u: "unat (of_int v :: u16) = nat v" if "0 \<le> v" "v < 2 ^ 15" for v
    using that by (simp add: unat_eq_nat_uint uint_word_of_int_eq take_bit_int_eq_self)
  have uy: "unat (of_int (y * font_height t) :: u16) + unat (of_int (font_height t) :: u16) \<le> 65535"
    using u[of "y * font_height t"] u[of "font_height t"] y by (simp del: of_int_mult)
  have ux: "unat (of_int (x * font_width t) :: u16) + unat (1 :: u16) \<le> 65535" using u[OF x] x(2) by (simp del: of_int_mult)
  obtain fb where fb: "fill_rect (of_int (x * font_width t)) (of_int (y * font_height t)) 1 (of_int (font_height t)) c (vt_fb t) = Some fb" "fb_step (vt_fb t) fb"
    using fill_rect_step[OF b(1) ux uy] by blast
  have "drawn t (t\<lparr>vt_fb := fb\<rparr>)"
    unfolding drawn_def using fb(2) by (intro exI[of _ fb] exI[of _ "vt_buffer t"] exI[of _ "cursor_needs_undrawing t"]) simp
  then show ?thesis using fb(1) by (simp add: cursor_bar_def)
qed

lemma redraw_cursor_drawn:
  assumes "vt_ok t"
  shows "\<exists>t'. redraw_cursor t = Some (t'\<lparr>old_cursor_x := cursor_x t, old_cursor_y := cursor_y t\<rparr>) \<and> drawn t t'"
proof -
  have base: "vt_base t" and cur: "on_screen t (cursor_x t) (cursor_y t)" "on_screen t (old_cursor_x t) (old_cursor_y t)"
    using assms by (auto simp: vt_ok_def)
  obtain t1 where t1: "(if cursor_needs_undrawing t then do {
            t \<leftarrow> cursor_bar (old_cursor_x t) (old_cursor_y t) (current_bg t) t;
            e \<leftarrow> rd (vt_buffer t) (cell_index (old_cursor_x t) (old_cursor_y t) t);
            draw_char_at (old_cursor_x t) (old_cursor_y t) (cell_c e) (cell_fg e) (cell_bg e) t } else Some t) = Some t1" "drawn t t1"
  proof (cases "cursor_needs_undrawing t")
    case True
    obtain t2 where t2: "cursor_bar (old_cursor_x t) (old_cursor_y t) (current_bg t) t = Some t2" "drawn t t2"
      using cursor_bar_drawn[OF base cur(2)] by blast
    have on: "on_screen t2 (old_cursor_x t2) (old_cursor_y t2)" using drawn_fields[OF t2(2)] cur(2) by simp
    have b2: "vt_base t2" using drawn_base[OF base t2(2)] .
    let ?e = "vt_buffer t2 ! cell_index (old_cursor_x t2) (old_cursor_y t2) t2"
    obtain t3 where t3: "draw_char_at (old_cursor_x t2) (old_cursor_y t2) (cell_c ?e) (cell_fg ?e) (cell_bg ?e) t2 = Some t3" "drawn t2 t3"
      using draw_char_at_drawn[OF b2 on] by blast
    show thesis using that[of t3] True t2 t3 cell_index_in(2)[OF b2 on] drawn_trans by auto
  qed (use that in simp)
  have b1: "vt_base t1" using drawn_base[OF base t1(2)] .
  have on: "on_screen t1 (cursor_x t1) (cursor_y t1)" using drawn_fields[OF t1(2)] cur(1) by simp
  obtain t4 where t4: "cursor_bar (cursor_x t1) (cursor_y t1) (current_fg t1) t1 = Some t4" "drawn t1 t4"
    using cursor_bar_drawn[OF b1 on] by blast
  have d: "drawn t t4" using t1(2) t4(2) drawn_trans by blast
  show ?thesis
    unfolding redraw_cursor_def t1(1) using t4(1) d drawn_fields(1,2)[OF d] by (intro exI[of _ t4]) simp
qed

lemma redraw_cursor_ok:
  assumes "vt_ok t"
  shows "\<exists>t'. redraw_cursor t = Some t' \<and> vt_ok t' \<and> insert_mode t' = insert_mode t"
proof -
  obtain t' where t': "redraw_cursor t = Some (t'\<lparr>old_cursor_x := cursor_x t, old_cursor_y := cursor_y t\<rparr>)" "drawn t t'"
    using redraw_cursor_drawn[OF assms] by blast
  have "vt_base t'" using drawn_base[OF _ t'(2)] assms by (simp add: vt_ok_def)
  then have "vt_ok (t'\<lparr>old_cursor_x := cursor_x t, old_cursor_y := cursor_y t\<rparr>)"
    using assms drawn_fields[OF t'(2)] by (simp add: vt_ok_def vt_base_def on_screen_def)
  then show ?thesis using t' drawn_fields(7)[OF t'(2)] by simp
qed

lemma move_cursor_ok:
  assumes "vt_ok t" "on_screen t x y"
  shows "\<exists>t'. move_cursor x y t = Some t' \<and> vt_ok t' \<and> insert_mode t' = insert_mode t"
proof -
  have "vt_ok (t\<lparr>cursor_x := x, cursor_y := y, cursor_needs_undrawing := True\<rparr>)"
    using assms by (simp add: vt_ok_def vt_base_def on_screen_def)
  from redraw_cursor_ok[OF this] show ?thesis by (simp add: move_cursor_def)
qed

lemma drawn_ok: "vt_ok t \<Longrightarrow> drawn t t' \<Longrightarrow> vt_ok t' \<and> insert_mode t' = insert_mode t"
  using drawn_base[of t t'] drawn_fields[of t t'] by (simp add: vt_ok_def)

lemma iclamp_in: "0 < n \<Longrightarrow> 0 \<le> iclamp v 0 (n - 1) \<and> iclamp v 0 (n - 1) < n"
  by (auto simp: iclamp_def)

lemma arg_range:
  assumes "vt_base t" "i < 16"
  shows "0 \<le> csi_args t ! i" "csi_args t ! i < 1000000000"
  using vt_baseD(13,14)[OF assms(1)] assms(2) by (auto simp: list_all_length)

lemma sgr_keeps: "vt_ok t \<Longrightarrow> vt_ok (sgr n t) \<and> insert_mode (sgr n t) = insert_mode t"
  by (simp add: sgr_def vt_ok_def vt_base_def on_screen_def)

lemma fold_sgr_keeps:
  "vt_ok t \<Longrightarrow> vt_ok (fold (\<lambda>i t. sgr (csi_args t ! nat i) t) is t) \<and> insert_mode (fold (\<lambda>i t. sgr (csi_args t ! nat i) t) is t) = insert_mode t"
proof (induction "is" arbitrary: t)
  case (Cons i "is")
  then show ?case using sgr_keeps[OF Cons.prems, of "csi_args t ! nat i"] by simp
qed simp

lemma erase_ok:
  assumes "vt_ok t"
  shows "\<exists>t'. erase_display n t = Some t' \<and> drawn t t'" "\<exists>t'. erase_line n t = Some t' \<and> drawn t t'"
proof -
  have base: "vt_base t" and c: "on_screen t (cursor_x t) (cursor_y t)" using assms by (auto simp: vt_ok_def)
  have g: "on_screen t x y" if "(x, y) \<in> set (grid (width_chars t) (height_chars t))" for x y
    using grid_in[OF that] by (simp add: on_screen_def)
  show "\<exists>t'. erase_display n t = Some t' \<and> drawn t t'"
    unfolding erase_display_def Let_def by (auto intro!: blanks_drawn[OF base] g)
  show "\<exists>t'. erase_line n t = Some t' \<and> drawn t t'"
    unfolding erase_line_def Let_def using c by (auto intro!: blanks_drawn[OF base] simp: on_screen_def)
qed

lemma set_args_ok: "vt_ok t \<Longrightarrow> vt_ok (t\<lparr>csi_args := (csi_args t)[0 := 1]\<rparr>)"
  unfolding vt_ok_def vt_base_def by (auto simp: on_screen_def list_all_length nth_list_update)

lemma erase_chars_ok:
  assumes "vt_ok t"
  shows "\<exists>lst t'. erase_chars t = Some (lst, t') \<and> vt_ok t' \<and> insert_mode t' = insert_mode t \<and> width_chars t' = width_chars t \<and>
    cursor_x t' = cursor_x t \<and> cursor_x t \<le> lst \<and> lst \<le> width_chars t"
proof -
  define u where "u = (if csi_arg_count t = 0 then t\<lparr>csi_args := (csi_args t)[0 := 1]\<rparr> else t)"
  have ok: "vt_ok u" using assms set_args_ok by (simp add: u_def)
  have same: "insert_mode u = insert_mode t" "width_chars u = width_chars t" "cursor_x u = cursor_x t" by (simp_all add: u_def)
  have base: "vt_base u" and c: "on_screen u (cursor_x u) (cursor_y u)" using ok unfolding vt_ok_def by blast+
  have a: "0 \<le> arg0 u" "arg0 u < 1000000000" using arg_range[OF base, of 0] by (simp_all add: arg0_def)
  let ?v = "cursor_x u + arg0 u" and ?l = "iclamp (cursor_x u + arg0 u) 0 (width_chars u)"
  have "0 \<le> cursor_x u" "cursor_x u < 2 ^ 15" using c screen_small[OF base] unfolding on_screen_def by linarith+
  then have v: "chk ?v = Some ?v" using a by (simp add: chk_def)
  have l: "cursor_x u \<le> ?l" "?l \<le> width_chars u" using c a by (auto simp: iclamp_def on_screen_def)
  have "on_screen u x y" if "(x, y) \<in> set (map (\<lambda>x. (x, cursor_y u)) [cursor_x u..?l - 1])" for x y
    using that c l by (auto simp: on_screen_def)
  then obtain t' where t': "blanks (map (\<lambda>x. (x, cursor_y u)) [cursor_x u..?l - 1]) u = Some t'" "drawn u t'"
    using blanks_drawn[OF base] by blast
  have "erase_chars t = Some (?l, t')" unfolding erase_chars_def Let_def u_def[symmetric] v Option.bind.bind_lunit t'(1) ..
  then show ?thesis using drawn_ok[OF ok t'(2)] drawn_fields(1,5)[OF t'(2)] l same by auto
qed

lemma delete_chars_ok:
  assumes "vt_ok t"
  shows "\<exists>t'. delete_chars t = Some t' \<and> vt_ok t' \<and> insert_mode t' = insert_mode t"
proof -
  obtain l t1 where e: "erase_chars t = Some (l, t1)" "vt_ok t1" "insert_mode t1 = insert_mode t" "width_chars t1 = width_chars t"
    "cursor_x t1 = cursor_x t" "cursor_x t \<le> l" "l \<le> width_chars t" using erase_chars_ok[OF assms] by blast
  have b: "vt_base t1" and c: "on_screen t1 (cursor_x t1) (cursor_y t1)" using e(2) by (auto simp: vt_ok_def)
  have "\<exists>t'. mfold (\<lambda>i t. move_char (l + i) (cursor_y t) (cursor_x t + i) (cursor_y t) t) [0..width_chars t1 - l - 1] t1 = Some t' \<and> drawn t1 t'"
  proof (rule mfold_drawn[OF b])
    fix i s assume i: "i \<in> set [0..width_chars t1 - l - 1]" "vt_base s" "drawn t1 s"
    have "on_screen s (l + i) (cursor_y s)" "on_screen s (cursor_x s + i) (cursor_y s)"
      using i(1) drawn_fields[OF i(3)] c e(4-7) by (auto simp: on_screen_def)
    from move_char_drawn[OF i(2) this] show "\<exists>s'. move_char (l + i) (cursor_y s) (cursor_x s + i) (cursor_y s) s = Some s' \<and> drawn s s'" .
  qed
  then obtain t' where t': "mfold (\<lambda>i t. move_char (l + i) (cursor_y t) (cursor_x t + i) (cursor_y t) t) [0..width_chars t1 - l - 1] t1 = Some t'" "drawn t1 t'"
    by blast
  then show ?thesis using e(1,3) drawn_ok[OF e(2) t'(2)] by (simp add: delete_chars_def)
qed

section \<open>Control sequences and characters\<close>

lemma chk_small: "- 1000000000 \<le> v \<Longrightarrow> v < 2000000000 \<Longrightarrow> chk v = Some v"
  by (simp add: chk_def)

lemma cursor_steps:
  assumes "vt_ok t"
  defines "n \<equiv> max (arg0 t) 1"
  shows "chk (cursor_x t + n) = Some (cursor_x t + n)" "chk (cursor_x t - n) = Some (cursor_x t - n)"
    "chk (cursor_y t + n) = Some (cursor_y t + n)" "chk (cursor_y t - n) = Some (cursor_y t - n)"
    "chk (arg0 t - 1) = Some (arg0 t - 1)" "chk (csi_args t ! 1 - 1) = Some (csi_args t ! 1 - 1)"
proof -
  have base: "vt_base t" and c: "on_screen t (cursor_x t) (cursor_y t)" using assms(1) by (auto simp: vt_ok_def)
  note sm = screen_small[OF base] and a = arg_range[OF base, of 0, folded arg0_def] arg_range[OF base, of 1]
  have n: "1 \<le> n" "n < 1000000000" using a by (auto simp: n_def)
  have x: "0 \<le> cursor_x t" "cursor_x t < 32768" "0 \<le> cursor_y t" "cursor_y t < 32768" using c sm by (auto simp: on_screen_def)
  show "chk (cursor_x t + n) = Some (cursor_x t + n)" by (rule chk_small) (use x n in linarith)+
  show "chk (cursor_x t - n) = Some (cursor_x t - n)" by (rule chk_small) (use x n in linarith)+
  show "chk (cursor_y t + n) = Some (cursor_y t + n)" by (rule chk_small) (use x n in linarith)+
  show "chk (cursor_y t - n) = Some (cursor_y t - n)" by (rule chk_small) (use x n in linarith)+
  show "chk (arg0 t - 1) = Some (arg0 t - 1)" by (rule chk_small) (use a in linarith)+
  show "chk (csi_args t ! 1 - 1) = Some (csi_args t ! 1 - 1)" by (rule chk_small) (use a in linarith)+
qed

lemma erase_display_ok: "vt_ok t \<Longrightarrow> \<exists>t'. erase_display n t = Some t' \<and> vt_ok t'"
  using erase_ok(1) drawn_ok by blast

lemma erase_line_ok: "vt_ok t \<Longrightarrow> \<exists>t'. erase_line n t = Some t' \<and> vt_ok t'"
  using erase_ok(2) drawn_ok by blast

lemma move_clamped_ok:
  assumes "vt_ok t"
  shows "\<exists>t'. move_cursor (cursor_x t) (iclamp v 0 (height_chars t - 1)) t = Some t' \<and> vt_ok t'"
    "\<exists>t'. move_cursor 0 (iclamp v 0 (height_chars t - 1)) t = Some t' \<and> vt_ok t'"
    "\<exists>t'. move_cursor (iclamp v 0 (width_chars t - 1)) (cursor_y t) t = Some t' \<and> vt_ok t'"
    "\<exists>t'. move_cursor (iclamp v 0 (width_chars t - 1)) (iclamp u 0 (height_chars t - 1)) t = Some t' \<and> vt_ok t'"
    "\<exists>t'. move_cursor 0 0 t = Some t' \<and> vt_ok t'"
proof -
  have "vt_base t" and c: "on_screen t (cursor_x t) (cursor_y t)" using assms by (auto simp: vt_ok_def)
  note p = vt_baseD(8,9)[OF this(1)]
  note i = iclamp_in[OF p(1)] iclamp_in[OF p(2)]
  have on: "on_screen t (cursor_x t) (iclamp v 0 (height_chars t - 1))" "on_screen t 0 (iclamp v 0 (height_chars t - 1))"
    "on_screen t (iclamp v 0 (width_chars t - 1)) (cursor_y t)"
    "on_screen t (iclamp v 0 (width_chars t - 1)) (iclamp u 0 (height_chars t - 1))" "on_screen t 0 0"
    using c i p by (auto simp: on_screen_def)
  show "\<exists>t'. move_cursor (cursor_x t) (iclamp v 0 (height_chars t - 1)) t = Some t' \<and> vt_ok t'"
    using move_cursor_ok[OF assms on(1)] by blast
  show "\<exists>t'. move_cursor 0 (iclamp v 0 (height_chars t - 1)) t = Some t' \<and> vt_ok t'"
    using move_cursor_ok[OF assms on(2)] by blast
  show "\<exists>t'. move_cursor (iclamp v 0 (width_chars t - 1)) (cursor_y t) t = Some t' \<and> vt_ok t'"
    using move_cursor_ok[OF assms on(3)] by blast
  show "\<exists>t'. move_cursor (iclamp v 0 (width_chars t - 1)) (iclamp u 0 (height_chars t - 1)) t = Some t' \<and> vt_ok t'"
    using move_cursor_ok[OF assms on(4)] by blast
  show "\<exists>t'. move_cursor 0 0 t = Some t' \<and> vt_ok t'"
    using move_cursor_ok[OF assms on(5)] by blast
qed

lemma insert_mode_ok: "vt_ok t \<Longrightarrow> vt_ok (t\<lparr>insert_mode := b\<rparr>)"
  by (simp add: vt_ok_def vt_base_def on_screen_def)

lemma if_total:
  assumes "b \<Longrightarrow> \<exists>t'. u = Some t' \<and> P t'" "\<not> b \<Longrightarrow> \<exists>t'. v = Some t' \<and> P t'"
  shows "\<exists>t'. (if b then u else v) = Some t' \<and> P t'"
  using assms by simp

lemma apply_control_sequence_ok:
  assumes "vt_ok t"
  shows "\<exists>t'. apply_control_sequence c t = Some t' \<and> vt_ok t'"
proof -
  have X: "\<exists>t'. map_option snd (erase_chars t) = Some t' \<and> vt_ok t'" using erase_chars_ok[OF assms] by fastforce
  have D: "\<exists>t'. delete_chars t = Some t' \<and> vt_ok t'" using delete_chars_ok[OF assms] by blast
  have m: "vt_ok (fold (\<lambda>i t. sgr (csi_args t ! nat i) t) [0..csi_arg_index t] t)" using fold_sgr_keeps[OF assms] by blast
  show ?thesis
    unfolding apply_control_sequence_def Let_def cursor_steps[OF assms] Option.bind.bind_lunit
    by (intro if_total move_clamped_ok[OF assms] erase_display_ok[OF assms] erase_line_ok[OF assms] X D) (simp_all add: m assms insert_mode_ok)
qed

lemma reset_ok: "vt_ok t \<Longrightarrow> vt_ok (reset_control_sequence t)"
  by (simp add: reset_control_sequence_def vt_ok_def vt_base_def on_screen_def list_all_iff)

lemma progress_ok: "vt_ok t \<Longrightarrow> vt_ok (t\<lparr>csi_progress := n\<rparr>)" "vt_ok t \<Longrightarrow> vt_ok (t\<lparr>cursor_needs_undrawing := u\<rparr>)"
  "vt_ok t \<Longrightarrow> vt_ok (t\<lparr>csi_question_mark := u\<rparr>)"
  by (simp_all add: vt_ok_def vt_base_def on_screen_def)

lemma list_all_update: "list_all P xs \<Longrightarrow> P v \<Longrightarrow> list_all P (xs[i := v])"
  using set_update_subset_insert[of xs i v] by (auto simp: list_all_iff)

lemma digit_ok:
  assumes "vt_ok t" "0 \<le> v" "v < 1000000000"
  shows "vt_ok (t\<lparr>csi_args := (csi_args t)[i := v], csi_arg_count := n\<rparr>)"
  using assms unfolding vt_ok_def vt_base_def by (auto simp: on_screen_def intro: list_all_update)

lemma next_arg_ok:
  assumes "vt_ok t" "0 \<le> i" "i < 16"
  shows "vt_ok (t\<lparr>csi_arg_index := i, csi_args := (csi_args t)[nat i := 0]\<rparr>)"
  using assms unfolding vt_ok_def vt_base_def by (auto simp: on_screen_def intro: list_all_update)

lemma zero_arg_ok: "vt_ok t \<Longrightarrow> vt_ok (t\<lparr>csi_args := (csi_args t)[i := 0]\<rparr>)"
  unfolding vt_ok_def vt_base_def by (auto simp: on_screen_def intro: list_all_update)

lemma reset_fields:
  "csi_args (reset_control_sequence t) = replicate 16 0" "csi_arg_index (reset_control_sequence t) = 0"
  "reset_control_sequence (t\<lparr>csi_arg_index := i\<rparr>) = reset_control_sequence t"
  by (simp_all add: reset_control_sequence_def)

lemma csi_char_ok:
  assumes "vt_ok t" "is_digit c \<Longrightarrow> csi_args t ! nat (csi_arg_index t) < 100000000"
  shows "\<exists>t'. csi_char c t = Some t' \<and> vt_ok t'"
proof -
  have base: "vt_base t" using assms(1) by (simp add: vt_ok_def)
  note b = vt_baseD(13,15,16)[OF base]
  have i: "nat (csi_arg_index t) < 16" using b by linarith
  let ?a = "csi_args t ! nat (csi_arg_index t)"
  have dig: "\<exists>t'. csi_char c t = Some t' \<and> vt_ok t'" if d: "is_digit c"
  proof -
    have u: "48 \<le> uint c" "uint c \<le> 57" using d by (auto simp: is_digit_def word_le_def)
    have v: "0 \<le> ?a * 10 + (uint c - 48)" "?a * 10 + (uint c - 48) < 1000000000" using arg_range(1)[OF base i] assms(2)[OF d] u by linarith+
    have "chk (?a * 10 + (uint c - 48)) = Some (?a * 10 + (uint c - 48))" by (rule chk_small) (use v in linarith)+
    then show ?thesis using d i b(1) digit_ok[OF assms(1) v] by (simp add: csi_char_def)
  qed
  have semi: "\<exists>t'. csi_char c t = Some t' \<and> vt_ok t'" if c: "c = 59"
  proof (cases "csi_arg_index t + 1 \<ge> 16")
    case True
    then show ?thesis using c zero_arg_ok[OF reset_ok[OF assms(1)], of 0]
      by (simp add: csi_char_def is_digit_def is_letter_def Let_def reset_fields)
  next
    case False
    then have "nat (csi_arg_index t + 1) < 16" "0 \<le> csi_arg_index t + 1" "csi_arg_index t + 1 < 16" using b by linarith+
    then show ?thesis using c False b(1) next_arg_ok[OF assms(1), of "csi_arg_index t + 1"]
      by (simp add: csi_char_def is_digit_def is_letter_def Let_def)
  qed
  obtain t' where a: "apply_control_sequence c t = Some t'" "vt_ok t'" using apply_control_sequence_ok[OF assms(1)] by blast
  consider "is_digit c" | "\<not> is_digit c" "is_letter c" | "c = 59" | "\<not> is_digit c" "\<not> is_letter c" "c \<noteq> 59" by blast
  then show ?thesis
  proof cases
    case 2
    then show ?thesis using a reset_ok by (simp add: csi_char_def)
  next
    case 4
    then show ?thesis using assms(1) reset_ok progress_ok(3) by (simp add: csi_char_def)
  qed (use dig semi in blast)+
qed

text \<open>Between a character and the line or scroll it causes, the cursor may stand one column or line past the screen.\<close>

definition near_screen :: "vterm \<Rightarrow> bool" where
  "near_screen t \<longleftrightarrow> vt_base t \<and> on_screen t (old_cursor_x t) (old_cursor_y t) \<and> 0 \<le> cursor_x t \<and> 0 \<le> cursor_y t \<and>
     (cursor_y t < height_chars t \<or> cursor_y t = height_chars t \<and> cursor_x t < width_chars t)"

lemma after_char_ok:
  assumes "near_screen t"
  shows "\<exists>t'. after_char t = Some t' \<and> vt_ok t' \<and> insert_mode t' = insert_mode t"
proof -
  define u where "u = (if cursor_x t \<ge> width_chars t then t\<lparr>cursor_x := 0, cursor_y := cursor_y t + 1\<rparr> else t)"
  have wh: "0 < width_chars t" "0 < height_chars t" using assms vt_baseD(8,9) by (auto simp: near_screen_def)
  have u: "vt_base u" "on_screen u (old_cursor_x u) (old_cursor_y u)" "insert_mode u = insert_mode t"
    "0 \<le> cursor_x u" "cursor_x u < width_chars u" "0 \<le> cursor_y u" "cursor_y u \<le> height_chars u" "0 < height_chars u"
    using assms wh by (auto simp: u_def near_screen_def vt_base_def on_screen_def)
  have "\<exists>v. (if cursor_y u \<ge> height_chars u then do { t \<leftarrow> scroll u; Some (t\<lparr>cursor_y := cursor_y t - 1\<rparr>) } else Some u) = Some v \<and>
      (vt_ok v \<and> insert_mode v = insert_mode t)"
  proof (rule if_total)
    assume "cursor_y u \<ge> height_chars u"
    then have y: "cursor_y u = height_chars u" using u(7) by simp
    obtain s where s: "scroll u = Some s" "drawn u s" using scroll_drawn[OF u(1)] by blast
    note d = drawn_fields[OF s(2)]
    have "vt_base s" using drawn_base[OF u(1) s(2)] .
    then have "vt_ok (s\<lparr>cursor_y := cursor_y s - 1\<rparr>)"
      using u d y by (simp add: vt_ok_def vt_base_def on_screen_def)
    then show "\<exists>v. do { t \<leftarrow> scroll u; Some (t\<lparr>cursor_y := cursor_y t - 1\<rparr>) } = Some v \<and> vt_ok v \<and> insert_mode v = insert_mode t"
      using s(1) d(7) u(3) by simp
  qed (use u in \<open>auto simp: vt_ok_def on_screen_def\<close>)
  then obtain v where v: "(if cursor_y u \<ge> height_chars u then do { t \<leftarrow> scroll u; Some (t\<lparr>cursor_y := cursor_y t - 1\<rparr>) } else Some u) = Some v"
    "vt_ok v" "insert_mode v = insert_mode t" by blast
  obtain x where x: "redraw_cursor v = Some x" "vt_ok x" "insert_mode x = insert_mode v" using redraw_cursor_ok[OF v(2)] by blast
  have "after_char t = Some (x\<lparr>cursor_needs_undrawing := True\<rparr>)"
    unfolding after_char_def Let_def u_def[symmetric] v(1) Option.bind.bind_lunit x(1) ..
  then show ?thesis using progress_ok(2)[OF x(2)] x(3) v(3) by simp
qed

lemma put_char_ok:
  assumes "vt_ok t" "\<not> insert_mode t"
  shows "\<exists>t'. put_char c t = Some t' \<and> near_screen t'"
proof -
  have base: "vt_base t" and cur: "on_screen t (cursor_x t) (cursor_y t)" "on_screen t (old_cursor_x t) (old_cursor_y t)"
    using assms by (auto simp: vt_ok_def)
  obtain s where s: "set_char_at_cursor c t = Some s" "drawn t s"
    unfolding set_char_at_cursor_def using set_char_at_drawn[OF base cur(1)] by blast
  have "vt_base s" using drawn_base[OF base s(2)] .
  then have "near_screen (s\<lparr>cursor_x := cursor_x s + 1\<rparr>)"
    using cur drawn_fields[OF s(2)] by (simp add: near_screen_def vt_base_def on_screen_def)
  then show ?thesis using assms(2) s(1) by (simp add: put_char_def)
qed

lemma ok_near: "vt_ok t \<Longrightarrow> near_screen t"
  by (simp add: vt_ok_def near_screen_def on_screen_def)

lemma plain_char_ok:
  assumes "vt_ok t" "\<not> insert_mode t"
  shows "\<exists>t'. plain_char c t = Some t' \<and> near_screen t'"
proof -
  have n: "near_screen (t\<lparr>cursor_x := (8 + cursor_x t) div 8 * 8\<rparr>)" "near_screen (t\<lparr>cursor_x := 0\<rparr>)"
    "near_screen (t\<lparr>cursor_x := 0, cursor_y := cursor_y t + 1, cursor_needs_undrawing := True\<rparr>)"
    using assms(1) by (auto simp: vt_ok_def near_screen_def vt_base_def on_screen_def)
  show ?thesis
    unfolding plain_char_def
    by (intro if_total put_char_ok[OF assms]) (simp_all add: n ok_near[OF assms(1)] ok_near[OF progress_ok(1)[OF assms(1)]])
qed

lemma backspace_ok:
  assumes "vt_ok t" "cursor_x t > 0"
  shows "\<exists>t'. redraw_cursor (t\<lparr>cursor_x := cursor_x t - 1, cursor_needs_undrawing := True\<rparr>) = Some t' \<and> vt_ok t'"
proof -
  have "vt_ok (t\<lparr>cursor_x := cursor_x t - 1, cursor_needs_undrawing := True\<rparr>)"
    using assms by (simp add: vt_ok_def vt_base_def on_screen_def)
  from redraw_cursor_ok[OF this] show ?thesis by blast
qed

lemma small_sint: "unat w < 2 ^ 15 \<Longrightarrow> sint (w :: u32) = uint w"
proof -
  assume "unat w < 2 ^ 15"
  then have "uint w < 2 ^ 15" by (simp add: nat_less_iff flip: nat_uint_eq)
  then have "- (2 ^ 31) \<le> uint w" "uint w < 2 ^ 31" using order_trans[of "- (2 ^ 31)" 0 "uint w"] by simp_all
  then have "signed_take_bit 31 (uint w) = uint w" by (rule signed_take_bit_int_eq_self)
  then show ?thesis by (simp add: sint_uint)
qed

lemma vterm_new_ok:
  assumes "fb_ok fb" "font_ok rf" "font_ok bf" "f_width bf = f_width rf" "f_height bf = f_height rf"
    and "f_width rf \<le> fb_width fb" "f_height rf \<le> fb_height fb"
  shows "vt_ok (vterm_new rf bf fb)"
proof -
  have s: "sint (fb_width fb) = uint (fb_width fb)" "sint (fb_height fb) = uint (fb_height fb)"
    using assms(1) small_sint by (auto simp: fb_ok_def)
  have p: "0 < uint (f_width rf)" "0 < uint (f_height rf)" using assms(2) by (auto simp: font_ok_def word_less_def)
  have d: "0 < uint (fb_width fb) div uint (f_width rf)" "0 < uint (fb_height fb) div uint (f_height rf)"
    using assms(6,7) p by (auto simp: word_le_def pos_imp_zdiv_pos_iff)
  have m: "uint (fb_width fb) div uint (f_width rf) * uint (f_width rf) \<le> uint (fb_width fb)"
    "uint (fb_height fb) div uint (f_height rf) * uint (f_height rf) \<le> uint (fb_height fb)"
    using p by (simp_all flip: minus_mod_eq_div_mult)
  show ?thesis using assms(1-5) d m by (simp add: vt_ok_def vt_base_def vterm_new_def on_screen_def Let_def s list_all_iff)
qed

lemma redraw_ok:
  assumes "vt_ok t"
  shows "\<exists>t'. redraw t = Some t' \<and> vt_ok t'"
proof -
  have base: "vt_base t" using assms by (simp add: vt_ok_def)
  have z: "unat (fb_width (vt_fb t)) < 32768" "unat (fb_height (vt_fb t)) < 32768" using vt_baseD(1)[OF base] by (auto simp: fb_ok_def)
  have u: "unat (ucast (fb_width (vt_fb t)) :: u16) = unat (fb_width (vt_fb t))" "unat (ucast (fb_height (vt_fb t)) :: u16) = unat (fb_height (vt_fb t))"
    using z by (simp_all add: unsigned_ucast_eq take_bit_nat_eq_self)
  obtain fb where fb: "fill_rect 0 0 (ucast (fb_width (vt_fb t))) (ucast (fb_height (vt_fb t))) (current_bg t) (vt_fb t) = Some fb" "fb_step (vt_fb t) fb"
    using fill_rect_step[OF vt_baseD(1)[OF base], of 0 "ucast (fb_width (vt_fb t))" 0 "ucast (fb_height (vt_fb t))"] z u by auto
  have "vt_ok (t\<lparr>vt_fb := fb\<rparr>)"
    using assms fb(2) fb_ok_step[OF vt_baseD(1)[OF base] fb(2)] fb_stepD[OF fb(2)] by (simp add: vt_ok_def vt_base_def on_screen_def)
  then obtain s where s: "redraw_cursor (t\<lparr>vt_fb := fb\<rparr>) = Some s" "vt_ok s" using redraw_cursor_ok by blast
  let ?f = "\<lambda>(x, y) t. do { e \<leftarrow> rd (vt_buffer t) (cell_index x y t); set_char_at x y (cell_c e) (cell_fg e) (cell_bg e) t }"
  have bs: "vt_base s" using s(2) by (simp add: vt_ok_def)
  have "\<exists>t'. mfold ?f (grid (width_chars s) (height_chars s)) s = Some t' \<and> drawn s t'"
  proof (rule mfold_drawn[OF bs])
    fix p r assume p: "p \<in> set (grid (width_chars s) (height_chars s))" "vt_base r" "drawn s r"
    obtain x y where xy: "p = (x, y)" by fastforce
    have on: "on_screen r x y" using grid_in[of x y "width_chars s" "height_chars s"] p(1) xy drawn_fields(5,6)[OF p(3)] by (auto simp: on_screen_def)
    from copy_cell_drawn[OF p(2) on on] show "\<exists>s'. ?f p r = Some s' \<and> drawn r s'" by (simp add: xy)
  qed
  then obtain t' where t': "mfold ?f (grid (width_chars s) (height_chars s)) s = Some t'" "drawn s t'" by blast
  show ?thesis unfolding redraw_def fb(1) Option.bind.bind_lunit s(1) t'(1) using drawn_ok[OF s(2) t'(2)] by simp
qed

lemma write_char_ok:
  assumes "vt_ok t" "csi_progress t = 2 \<Longrightarrow> is_digit c \<Longrightarrow> csi_args t ! nat (csi_arg_index t) < 100000000"
    and "csi_progress t \<noteq> 1 \<Longrightarrow> csi_progress t \<noteq> 2 \<Longrightarrow> \<not> insert_mode t"
  shows "\<exists>t'. write_char c t = Some t' \<and> vt_ok t'"
  unfolding write_char_def
proof (intro if_total)
  assume "csi_progress t \<noteq> 1" "csi_progress t \<noteq> 2"
  then have "\<exists>u. plain_char c t = Some u \<and> near_screen u" using plain_char_ok[OF assms(1)] assms(3) by blast
  then obtain u where u: "plain_char c t = Some u" "near_screen u" by blast
  from after_char_ok[OF u(2)] show "\<exists>t'. do { t \<leftarrow> plain_char c t; after_char t } = Some t' \<and> vt_ok t'" using u(1) by auto
qed (use assms csi_char_ok[OF assms(1)] backspace_ok progress_ok reset_ok in auto)

text \<open>
  C26: a terminal made for a screen of 32-bit pixels is consistent after its first drawing, and stays so with
  every character written: the write returns, and neither the frame buffer, the character buffer, the font
  nor the arguments of a control sequence are accessed outside their bounds, with the cursor on the screen
  after it. The two things a program can write that break this are excluded: an argument of more than nine
  digits, and characters in insert mode.
\<close>

theorem terminal_stays_on_screen:
  "fb_ok fb \<Longrightarrow> font_ok rf \<Longrightarrow> font_ok bf \<Longrightarrow> f_width bf = f_width rf \<Longrightarrow> f_height bf = f_height rf \<Longrightarrow>
   f_width rf \<le> fb_width fb \<Longrightarrow> f_height rf \<le> fb_height fb \<Longrightarrow>
   (\<exists>t. redraw (vterm_new rf bf fb) = Some t \<and> vt_ok t) \<and>
   (\<forall>c t. vt_ok t \<and> (csi_progress t = 2 \<and> is_digit c \<longrightarrow> csi_args t ! nat (csi_arg_index t) < 100000000) \<and>
      (csi_progress t \<noteq> 1 \<and> csi_progress t \<noteq> 2 \<longrightarrow> \<not> insert_mode t) \<longrightarrow>
      (\<exists>t'. write_char c t = Some t' \<and> vt_ok t'))"
  using redraw_ok[OF vterm_new_ok] write_char_ok by blast

definition dot_font :: font where
  "dot_font = \<lparr>font_data = [1], f_width = 1, f_height = 1, num_glyph = 1, bytes_per_glyph = 1\<rparr>"

definition dot_screen :: framebuffer where
  "dot_screen = \<lparr>fb_bytes = replicate 16 0, fb_width = 2, fb_height = 2, fb_pitch = 8, pixel_width = 4\<rparr>"

lemma dots_ok: "font_ok dot_font" "fb_ok dot_screen" "f_width dot_font \<le> fb_width dot_screen" "f_height dot_font \<le> fb_height dot_screen"
  by (simp_all add: font_ok_def dot_font_def fb_ok_def dot_screen_def)

theorem terminal_stays_on_screen_witness:
  "(\<exists>t. redraw (vterm_new dot_font dot_font dot_screen) = Some t \<and> vt_ok t) \<and>
   (\<exists>t. write_char 65 (vterm_new dot_font dot_font dot_screen) = Some t \<and> vt_ok t)"
proof -
  have "vt_ok (vterm_new dot_font dot_font dot_screen)" using vterm_new_ok dots_ok by simp
  moreover have "csi_progress (vterm_new dot_font dot_font dot_screen) = 0" "\<not> insert_mode (vterm_new dot_font dot_font dot_screen)"
    by (simp_all add: vterm_new_def Let_def)
  ultimately show ?thesis
    using terminal_stays_on_screen[OF dots_ok(2,1,1) refl refl dots_ok(3,4)] by (metis zero_neq_numeral)
qed

section \<open>What a character changes on the screen\<close>

definition is_cell :: "u64 \<Rightarrow> bool" where
  "is_cell e \<longleftrightarrow> encode_cell (cell_c e) (cell_fg e) (cell_bg e) = e"

lemma cell_masks:
  "(fg :: u32) AND 0x1FFFFFF = take_bit 25 fg" "(bg :: u32) AND 0xFFFFFF = take_bit 24 bg" "(e :: u64) AND 0xFF = take_bit 8 e"
  "(e :: u64) AND 0x1FFFFFF = take_bit 25 e" "(e :: u64) AND 0xFFFFFF = take_bit 24 e"
  by (simp_all add: take_bit_eq_mask mask_eq_exp_minus_1)

lemma encode_bits:
  "bit (encode_cell c fg bg) n \<longleftrightarrow> n < 64 \<and> (bit c (min 7 n) \<or> 8 \<le> n \<and> n < 33 \<and> bit fg (n - 8) \<or> 40 \<le> n \<and> bit bg (n - 40))"
  unfolding encode_cell_def cell_masks by (auto simp: bit_simps)

lemma cell_bits:
  "bit (cell_c e) n \<longleftrightarrow> n < 8 \<and> bit e n" "bit (cell_fg e) n \<longleftrightarrow> n < 25 \<and> bit e (n + 8)" "bit (cell_bg e) n \<longleftrightarrow> n < 24 \<and> bit e (n + 40)"
  unfolding cell_c_def cell_fg_def cell_bg_def cell_masks by (auto simp: bit_simps add.commute)

lemma encode_is_cell: "is_cell (encode_cell c fg bg)"
  unfolding is_cell_def by (rule bit_word_eqI) (auto simp: encode_bits cell_bits min_def)

lemma upto_map_int: "[0..int n - 1] = map int [0..<n]"
proof (induction n)
  case (Suc n)
  then show ?case using upto_rec2[of 0 "int n"] by simp
qed simp

lemma grid_upt:
  assumes "0 < w"
  shows "grid (int w) (int h) = map (\<lambda>k. (int (k mod w), int (k div w))) [0..<w * h]"
proof (induction h)
  case (Suc h)
  have "[w * h..<w * Suc h] = map (\<lambda>i. i + w * h) [0..<w]" by (simp add: map_add_upt add.commute)
  then have "map (\<lambda>k. (int (k mod w), int (k div w))) [w * h..<w * Suc h] = map (\<lambda>x. (int x, int h)) [0..<w]" using assms by simp
  moreover have "[0..<w * Suc h] = [0..<w * h] @ [w * h..<w * Suc h]" using upt_add_eq_append[of 0 "w * h" w] by (simp add: add.commute)
  moreover have "grid (int w) (int (Suc h)) = grid (int w) (int h) @ map (\<lambda>x. (int x, int h)) [0..<w]"
    unfolding grid_def upto_map_int by simp
  ultimately show ?case using Suc by simp
qed (simp add: grid_def)

lemma mfold_append: "mfold f (xs @ ys) s = do { s \<leftarrow> mfold f xs s; mfold f ys s }"
  by (induction xs arbitrary: s) (auto split: bind_splits)

lemma mfold_map: "mfold f (map g xs) s = mfold (\<lambda>x. f (g x)) xs s"
  by (induction xs arbitrary: s) (auto split: bind_splits)

lemma mfold_upt:
  assumes "\<And>k s. k < n \<Longrightarrow> I k s \<Longrightarrow> \<exists>s'. f k s = Some s' \<and> I (Suc k) s'" "I 0 s"
  shows "\<exists>s'. mfold f [0..<n] s = Some s' \<and> I n s'"
  using assms
proof (induction n)
  case (Suc n)
  then obtain s1 where "mfold f [0..<n] s = Some s1" "I n s1" using less_SucI by metis
  moreover obtain s2 where "f n s1 = Some s2" "I (Suc n) s2" using Suc.prems(1)[of n s1] calculation by auto
  ultimately show ?case by (auto simp: mfold_append)
qed simp

lemma cell_round_trip:
  assumes "c < 0x80"
  shows "cell_c (encode_cell c fg bg) = c" "cell_fg (encode_cell c fg bg) = fg AND 0x1FFFFFF" "cell_bg (encode_cell c fg bg) = bg AND 0xFFFFFF"
proof -
  have "c div 2 ^ 7 = 0" using assms by (intro div_word_less) simp
  then have c7: "\<not> bit c 7" by (simp add: bit_iff_odd)
  show "cell_c (encode_cell c fg bg) = c"
  proof (rule bit_word_eqI)
    fix n assume "n < LENGTH(8)"
    then have "min 7 n = n" "n < 8" by simp_all
    then show "bit (cell_c (encode_cell c fg bg)) n = bit c n" by (auto simp: cell_bits encode_bits)
  qed
  show "cell_fg (encode_cell c fg bg) = fg AND 0x1FFFFFF" "cell_bg (encode_cell c fg bg) = bg AND 0xFFFFFF"
    unfolding cell_masks using c7 by (auto intro!: bit_word_eqI simp: cell_bits encode_bits bit_take_bit_iff min_def)
qed

lemma cell_nat_index:
  assumes "vt_base t" "w = nat (width_chars t)" "k < w * nat (height_chars t)"
  shows "on_screen t (int (k mod w)) (int (k div w))" "cell_index (int (k mod w)) (int (k div w)) t = k"
proof -
  have w: "0 < w" "int w = width_chars t" "0 < nat (height_chars t)" using assms(2) vt_baseD(8,9)[OF assms(1)] by auto
  have "k div w < nat (height_chars t)" using assms(3) by (simp add: less_mult_imp_div_less mult.commute)
  then show on: "on_screen t (int (k mod w)) (int (k div w))" using w by (simp add: on_screen_def flip: w(2))
  have "int (k div w) * width_chars t + int (k mod w) = int k" unfolding w(2)[symmetric] by (metis div_mult_mod_eq of_nat_add of_nat_mult)
  then show "cell_index (int (k mod w)) (int (k div w)) t = k" using cell_index_in(1)[OF assms(1) on] by simp
qed

lemma shift_step:
  assumes "k + w < length b"
  shows "(take k (drop w b) @ drop k b)[k := b ! (k + w)] = take (Suc k) (drop w b) @ drop (Suc k) b"
    "(take k (drop w b) @ drop k b) ! (k + w) = b ! (k + w)"
proof -
  have l: "length (take k (drop w b)) = k" using assms by simp
  have d: "drop k b = b ! k # drop (Suc k) b" using assms by (simp add: Cons_nth_drop_Suc)
  have t: "take (Suc k) (drop w b) = take k (drop w b) @ [b ! (k + w)]" using assms by (simp add: take_Suc_conv_app_nth add.commute)
  show "(take k (drop w b) @ drop k b)[k := b ! (k + w)] = take (Suc k) (drop w b) @ drop (Suc k) b"
    unfolding d t using l by (simp add: list_update_append)
  show "(take k (drop w b) @ drop k b) ! (k + w) = b ! (k + w)" using l assms by (simp add: nth_append)
qed

definition blank_cell :: u64 where
  "blank_cell = encode_cell 32 default_fg_color default_bg_color"

lemma fill_step:
  assumes "length a + k < length b"
  shows "(a @ replicate k e @ drop (length a + k) b)[length a + k := e] = a @ replicate (Suc k) e @ drop (length a + Suc k) b"
proof -
  have "drop (length a + k) b = b ! (length a + k) # drop (Suc (length a + k)) b" using assms by (simp add: Cons_nth_drop_Suc)
  then show ?thesis by (simp add: list_update_append replicate_append_same)
qed

text \<open>A scroll drops the first line, appends an empty one and moves no other character.\<close>

lemma scroll_lines:
  assumes "vt_base t" "list_all is_cell (vt_buffer t)"
  defines "w \<equiv> nat (width_chars t)"
  shows "\<exists>t'. scroll t = Some t' \<and> drawn t t' \<and> vt_buffer t' = drop w (vt_buffer t) @ replicate w blank_cell"
proof -
  let ?b = "vt_buffer t" and ?h = "nat (height_chars t)"
  let ?N = "w * (?h - 1)"
  have w: "0 < w" "int w = width_chars t" "0 < ?h" "int ?h = height_chars t" using vt_baseD(8,9)[OF assms(1)] by (auto simp: w_def)
  have len: "length ?b = w * ?h" using vt_baseD(12)[OF assms(1)] w by (metis of_nat_eq_iff of_nat_mult)
  have Nw: "?N + w = w * ?h" using w(3) by (cases ?h) auto
  let ?f = "\<lambda>(x, y) t. do { e \<leftarrow> rd (vt_buffer t) (cell_index x (y + 1) t); set_char_at x y (cell_c e) (cell_fg e) (cell_bg e) t }"
  have g: "grid (width_chars t) (height_chars t - 1) = map (\<lambda>k. (int (k mod w), int (k div w))) [0..<?N]"
    using grid_upt[OF w(1), of "?h - 1"] w by (simp add: of_nat_diff)
  have "\<exists>s. mfold (\<lambda>k. ?f (int (k mod w), int (k div w))) [0..<?N] t = Some s \<and> (drawn t s \<and> vt_buffer s = take ?N (drop w ?b) @ drop ?N ?b)"
  proof (rule mfold_upt)
    fix k s assume k: "k < ?N" "drawn t s \<and> vt_buffer s = take k (drop w ?b) @ drop k ?b"
    have bs: "vt_base s" using drawn_base[OF assms(1)] k(2) by blast
    have ws: "w = nat (width_chars s)" "nat (height_chars s) = ?h" using drawn_fields(5,6) k(2) by (auto simp: w_def)
    have kw: "k + w < length ?b" using k(1) Nw len by linarith
    have km: "(k + w) mod w = k mod w" "(k + w) div w = k div w + 1" using w(1) div_add_self2[of w k] by simp_all
    note c = cell_nat_index[OF bs ws(1), of k] cell_nat_index[OF bs ws(1), of "k + w"]
    have i: "on_screen s (int (k mod w)) (int (k div w))" "cell_index (int (k mod w)) (int (k div w)) s = k"
      "cell_index (int (k mod w)) (int (k div w) + 1) s = k + w"
      using c kw len unfolding km ws(2) by (simp_all add: add.commute)
    have e: "encode_cell (cell_c (?b ! (k + w))) (cell_fg (?b ! (k + w))) (cell_bg (?b ! (k + w))) = ?b ! (k + w)"
      using assms(2) kw by (auto simp: list_all_length is_cell_def)
    obtain s' where s': "set_char_at (int (k mod w)) (int (k div w)) (cell_c (?b ! (k + w))) (cell_fg (?b ! (k + w))) (cell_bg (?b ! (k + w))) s = Some s'"
      "drawn s s'" "vt_buffer s' = (vt_buffer s)[k := ?b ! (k + w)]"
      using set_char_at_drawn[OF bs i(1)] unfolding i(2) e by (metis e)
    have "k + w < length (vt_buffer s)" using k(2) kw by simp
    then have "?f (int (k mod w), int (k div w)) s = Some s'" using s'(1) i(3) shift_step(2)[OF kw] k(2) by simp
    moreover have "vt_buffer s' = take (Suc k) (drop w ?b) @ drop (Suc k) ?b" using s'(3) k(2) shift_step(1)[OF kw] by simp
    ultimately show "\<exists>s'. ?f (int (k mod w), int (k div w)) s = Some s' \<and> drawn t s' \<and> vt_buffer s' = take (Suc k) (drop w ?b) @ drop (Suc k) ?b"
      using drawn_trans[OF _ s'(2)] k(2) by blast
  qed simp
  then obtain t1 where t1: "mfold ?f (grid (width_chars t) (height_chars t - 1)) t = Some t1" "drawn t t1"
    "vt_buffer t1 = take ?N (drop w ?b) @ drop ?N ?b" unfolding g mfold_map by blast
  have b1: "vt_base t1" using drawn_base[OF assms(1) t1(2)] .
  let ?a = "take ?N (drop w ?b)"
  have la: "length ?a = ?N" "?a = drop w ?b" using len Nw by simp_all
  have "\<exists>s. mfold (\<lambda>k t. blank (int k) (height_chars t - 1) t) [0..<w] t1 = Some s \<and>
      (drawn t1 s \<and> vt_buffer s = ?a @ replicate w blank_cell @ drop (length ?a + w) ?b)"
  proof (rule mfold_upt[where I = "\<lambda>k s. drawn t1 s \<and> vt_buffer s = ?a @ replicate k blank_cell @ drop (length ?a + k) ?b"])
    fix k s assume k: "k < w" "drawn t1 s \<and> vt_buffer s = ?a @ replicate k blank_cell @ drop (length ?a + k) ?b"
    have bs: "vt_base s" using drawn_base[OF b1] k(2) by blast
    have ws: "w = nat (width_chars s)" "height_chars s = int ?h" using drawn_fields(5,6)[of t1 s] drawn_fields(5,6)[OF t1(2)] k(2) w by (auto simp: w_def)
    have "?N + k < w * nat (height_chars s)" using k(1) Nw ws by simp
    from cell_nat_index[OF bs ws(1) this] have c: "on_screen s (int k) (int (?h - 1))" "cell_index (int k) (int (?h - 1)) s = ?N + k"
      using k(1) w(1) by (simp_all add: add.commute)
    have hh: "height_chars s - 1 = int (?h - 1)" using ws(2) w(3) by (simp add: of_nat_diff)
    obtain s' where s': "blank (int k) (int (?h - 1)) s = Some s'" "drawn s s'" "vt_buffer s' = (vt_buffer s)[?N + k := blank_cell]"
      using set_char_at_drawn[OF bs c(1)] unfolding c(2) blank_def blank_cell_def by blast
    have "length ?a + k < length ?b" using la(1) k(1) Nw len by linarith
    then have "vt_buffer s' = ?a @ replicate (Suc k) blank_cell @ drop (length ?a + Suc k) ?b"
      using s'(3) k(2) fill_step[of ?a k ?b blank_cell] la(1) by simp
    then show "\<exists>s'. blank (int k) (height_chars s - 1) s = Some s' \<and> drawn t1 s' \<and>
        vt_buffer s' = ?a @ replicate (Suc k) blank_cell @ drop (length ?a + Suc k) ?b"
      unfolding hh using s'(1) drawn_trans[OF _ s'(2)] k(2) by blast
  qed (unfold la(1), simp add: t1(3))
  moreover have "[0..width_chars t1 - 1] = map int [0..<w]" using upto_map_int[of w] w(2) drawn_fields(5)[OF t1(2)] by simp
  ultimately obtain t2 where t2: "mfold (\<lambda>x t. blank x (height_chars t - 1) t) [0..width_chars t1 - 1] t1 = Some t2" "drawn t1 t2"
    "vt_buffer t2 = ?a @ replicate w blank_cell @ drop (length ?a + w) ?b" by (auto simp: mfold_map)
  have "drawn t (t2\<lparr>cursor_needs_undrawing := True\<rparr>)" by (rule drawn_trans[OF t1(2) drawn_trans[OF t2(2) set_undraw_drawn]])
  moreover have "scroll t = Some (t2\<lparr>cursor_needs_undrawing := True\<rparr>)" unfolding scroll_def t1(1) using t2(1) by simp
  moreover have "vt_buffer t2 = drop w ?b @ replicate w blank_cell" unfolding t2(3) la(1) using la(2) Nw len by simp
  ultimately show ?thesis by auto
qed


lemma redraw_cursor_keeps:
  assumes "redraw_cursor t = Some t'"
  shows "vt_buffer t' = vt_buffer t" "cursor_x t' = cursor_x t" "cursor_y t' = cursor_y t"
  using assms by (auto simp: redraw_cursor_def cursor_bar_def draw_char_at_def Let_def split: bind_splits if_splits)

lemma after_char_moves:
  assumes "near_screen t" "list_all is_cell (vt_buffer t)"
  defines "u \<equiv> (if cursor_x t \<ge> width_chars t then t\<lparr>cursor_x := 0, cursor_y := cursor_y t + 1\<rparr> else t)" and "w \<equiv> nat (width_chars t)"
  shows "\<exists>t'. after_char t = Some t' \<and> cursor_x t' = cursor_x u \<and>
    (vt_buffer t', cursor_y t') = (if cursor_y u \<ge> height_chars t then (drop w (vt_buffer t) @ replicate w blank_cell, cursor_y u - 1)
       else (vt_buffer t, cursor_y u))"
proof -
  have u: "vt_base u" "list_all is_cell (vt_buffer u)" "vt_buffer u = vt_buffer t" "height_chars u = height_chars t" "nat (width_chars u) = w"
    using assms(1,2) by (auto simp: u_def w_def near_screen_def vt_base_def)
  obtain s where s: "scroll u = Some s" "drawn u s" "vt_buffer s = drop w (vt_buffer t) @ replicate w blank_cell"
    using scroll_lines[OF u(1,2)] u(3,5) by auto
  obtain v where v: "(if cursor_y u \<ge> height_chars u then do { t \<leftarrow> scroll u; Some (t\<lparr>cursor_y := cursor_y t - 1\<rparr>) } else Some u) = Some v"
    "cursor_x v = cursor_x u" "(vt_buffer v, cursor_y v) =
       (if cursor_y u \<ge> height_chars t then (drop w (vt_buffer t) @ replicate w blank_cell, cursor_y u - 1) else (vt_buffer t, cursor_y u))"
    using s u drawn_fields(1,2)[OF s(2)] that by (cases "cursor_y u \<ge> height_chars u") auto
  obtain t' where "after_char t = Some t'" using after_char_ok[OF assms(1)] by blast
  moreover then obtain x where x: "redraw_cursor v = Some x" "t' = x\<lparr>cursor_needs_undrawing := True\<rparr>"
    unfolding after_char_def Let_def u_def[symmetric] v(1) Option.bind.bind_lunit by (auto split: bind_splits)
  ultimately show ?thesis using v(2,3) redraw_cursor_keeps[OF x(1)] by simp
qed



text \<open>Of a character above 127 the sign bit overwrites both colours: it is always shown white on white.\<close>

lemma foreign_characters_lose_colours:
  assumes "bit c 7"
  shows "cell_fg (encode_cell c fg bg) = 0x1FFFFFF" "cell_bg (encode_cell c fg bg) = 0xFFFFFF"
proof -
  have m: "(0x1FFFFFF :: u32) = mask 25" "(0xFFFFFF :: u32) = mask 24" by (simp_all add: mask_eq_exp_minus_1)
  show "cell_fg (encode_cell c fg bg) = 0x1FFFFFF" "cell_bg (encode_cell c fg bg) = 0xFFFFFF"
    unfolding m using assms by (auto intro!: bit_word_eqI simp: cell_bits encode_bits bit_mask_iff min_def)
qed

text \<open>In insert mode a character typed on the last line is moved past the last column, outside the buffer.\<close>

lemma insert_on_last_line_overruns:
  assumes "vt_ok t" "csi_progress t = 0" "insert_mode t" "cursor_y t = height_chars t - 1" "32 \<le> c" "c \<noteq> 0x7f"
  shows "write_char c t = None"
proof -
  have base: "vt_base t" and cur: "on_screen t (cursor_x t) (cursor_y t)" using assms(1) by (auto simp: vt_ok_def)
  note b = vt_baseD[OF base] and sm = screen_small[OF base]
  let ?w = "width_chars t" and ?y = "cursor_y t"
  have v: "?y * ?w + ?w = int (length (vt_buffer t))" unfolding b(12) assms(4) by (simp add: algebra_simps)
  have "int (length (vt_buffer t)) < 2 ^ 64"
  proof -
    have "?w * height_chars t \<le> 2 ^ 15 * 2 ^ 15" using sm b(8,9) by (intro mult_mono) auto
    then show ?thesis unfolding b(12) by simp
  qed
  then have i: "cell_index ?w ?y t = length (vt_buffer t)"
    unfolding cell_index_def of_int_mult[symmetric] of_int_add[symmetric] v by (simp add: unat_of_nat take_bit_nat_eq_self nat_less_iff)
  have out: "rd (vt_buffer t) (length (vt_buffer t)) = None" by (simp add: rd_def)
  have "rev [cursor_x t..?w - 1] = (?w - 1) # rev [cursor_x t..?w - 2]"
    using cur upto_rec2[of "cursor_x t" "?w - 1"] by (simp add: on_screen_def)
  moreover have "move_char (?w - 1) ?y (?w - 1 + 1) ?y t = None"
    using i by (cases "rd (vt_buffer t) (cell_index (?w - 1) ?y t)") (simp_all add: move_char_def set_char_at_def Let_def out)
  ultimately have "put_char c t = None" using assms(3) by (simp add: put_char_def)
  moreover have "c \<noteq> 8" "plain_char c t = put_char c t" using assms(5,6) by (auto simp: plain_char_def)
  ultimately show ?thesis using assms(2) by (simp add: write_char_def)
qed

end
